(* ===== verification/MS_Prelude.thy ===== *)
theory MS_Prelude
  imports Complex_Main "HOL-Library.Word" "HOL-Library.Sublist" "HOL-Library.Multiset"
begin

text \<open>
  Shared vocabulary of the MacSurf development: the C types of the Mac OS 9 PowerPC target
  (32-bit \<open>int\<close> and \<open>long\<close>), C strings, the handful of C library functions the front end calls
  (\<open>strncmp\<close>, \<open>strncasecmp\<close>, \<open>strtol\<close>, \<open>atoi\<close>, \<open>strstr\<close>, \<open>sprintf("%d")\<close>), the bounded
  first-in-first-out table idiom used by the host lists, and the contract of a stable
  time-ordered queue, which the cooperative scheduler and the JavaScript timer list both
  implement.

  A C string is the list of its bytes before the terminating NUL. A byte is a \<^typ>\<open>char\<close>.
  Buffers that may hold NUL bytes are lists of bytes too, and \<open>cstr\<close> is the C string that
  starts at the first byte of a buffer.
\<close>

unbundle bit_operations_syntax

named_theorems cstring_simps \<open>evaluation of the C string functions\<close>
named_theorems queue_simps \<open>facts about the time-ordered queues\<close>

type_synonym bytes = "char list"
type_synonym ticks = "32 word"

abbreviation NUL :: char where "NUL \<equiv> CHR 0x00"
abbreviation TAB :: char where "TAB \<equiv> CHR 0x09"
abbreviation LF :: char where "LF \<equiv> CHR 0x0A"
abbreviation CR :: char where "CR \<equiv> CHR 0x0D"
abbreviation SP :: char where "SP \<equiv> CHR 0x20"

text \<open>The error codes (\<open>utils/errors.h\<close>) that the modelled code gives or tests.\<close>

datatype nserror = NSERROR_OK | NSERROR_NOMEM | NSERROR_NO_FETCH_HANDLER | NSERROR_BAD_URL | NSERROR_INIT_FAILED
  | NSERROR_NEED_DATA | NSERROR_SAVE_FAILED | NSERROR_UNKNOWN | NSERROR_TIMEOUT | NSERROR_NOT_FOUND | NSERROR_INVALID

section \<open>C library functions\<close>

definition LONG_MAX :: int where "LONG_MAX = 2147483647"
definition LONG_MIN :: int where "LONG_MIN = - 2147483648"

definition cstr :: "bytes \<Rightarrow> string" where
  "cstr b = takeWhile (\<lambda>c. c \<noteq> NUL) b"

text \<open>\<open>strncmp(a, b, n) == 0\<close> on C strings, and its ASCII case-insensitive variant.\<close>

definition strncmp_eq :: "string \<Rightarrow> string \<Rightarrow> nat \<Rightarrow> bool" where
  "strncmp_eq a b n \<longleftrightarrow> take n a = take n b"

definition tolower_c :: "char \<Rightarrow> char" where
  "tolower_c c = (let n = of_char c :: nat in if 65 \<le> n \<and> n \<le> 90 then char_of (n + 32) else c)"

definition strncasecmp_eq :: "string \<Rightarrow> string \<Rightarrow> nat \<Rightarrow> bool" where
  "strncasecmp_eq a b n \<longleftrightarrow> map tolower_c (take n a) = map tolower_c (take n b)"

definition isspace_c :: "char \<Rightarrow> bool" where
  "isspace_c c \<longleftrightarrow> c = SP \<or> c = TAB \<or> c = LF \<or> c = CHR 0x0B \<or> c = CHR 0x0C \<or> c = CR"

definition digit_value :: "char \<Rightarrow> nat option" where
  "digit_value c =
     (let n = of_char c :: nat in
      if 48 \<le> n \<and> n \<le> 57 then Some (n - 48)
      else if 97 \<le> n \<and> n \<le> 122 then Some (n - 87)
      else if 65 \<le> n \<and> n \<le> 90 then Some (n - 55)
      else None)"

fun strtol_digits :: "nat \<Rightarrow> nat \<Rightarrow> string \<Rightarrow> nat" where
  "strtol_digits base acc [] = acc"
| "strtol_digits base acc (c # cs) =
     (case digit_value c of
        None \<Rightarrow> acc
      | Some d \<Rightarrow> if d < base then strtol_digits base (acc * base + d) cs else acc)"

text \<open>
  \<open>strtol\<close>: white space, an optional sign, for base 16 an optional \<open>0x\<close>, digits up to the
  first character that is none; the result saturates at the bounds of a 32-bit \<open>long\<close>.
  \<open>atoi\<close> and \<open>atol\<close> are \<open>strtol\<close> in base 10 (\<open>int\<close> and \<open>long\<close> have the same width).
\<close>

definition strtol :: "nat \<Rightarrow> string \<Rightarrow> int" where
  "strtol base s =
     (let s1 = dropWhile isspace_c s;
          neg = (take 1 s1 = ''-'');
          s2 = (if take 1 s1 = ''-'' \<or> take 1 s1 = ''+'' then drop 1 s1 else s1);
          s3 = (if base = 16 \<and> (take 2 s2 = ''0x'' \<or> take 2 s2 = ''0X'') then drop 2 s2 else s2);
          v = int (strtol_digits base 0 s3)
      in max LONG_MIN (min LONG_MAX (if neg then - v else v)))"

definition atol_c :: "string \<Rightarrow> int" where
  "atol_c s = strtol 10 s"

text \<open>\<open>strstr\<close> as the text before and the text from the first occurrence on.\<close>

fun strstr_split :: "string \<Rightarrow> string \<Rightarrow> (string \<times> string) option" where
  "strstr_split pat [] = (if pat = [] then Some ([], []) else None)"
| "strstr_split pat (c # cs) =
     (if take (length pat) (c # cs) = pat then Some ([], c # cs)
      else map_option (\<lambda>(a, b). (c # a, b)) (strstr_split pat cs))"

text \<open>\<open>strchr\<close>: the rest of the string from the first occurrence of a character on.\<close>

definition strchr_c :: "string \<Rightarrow> char \<Rightarrow> string option" where
  "strchr_c s ch = (case dropWhile (\<lambda>c. c \<noteq> ch) s of [] \<Rightarrow> None | r \<Rightarrow> Some r)"

text \<open>\<open>sprintf\<close> of a non-negative \<open>%d\<close>, \<open>%ld\<close> or \<open>%lu\<close>.\<close>

fun show_nat :: "nat \<Rightarrow> string" where
  "show_nat n = (if n < 10 then [char_of (48 + n)] else show_nat (n div 10) @ [char_of (48 + n mod 10)])"

declare show_nat.simps [simp del]

definition show_int :: "int \<Rightarrow> string" where
  "show_int i = (if i < 0 then ''-'' @ show_nat (nat (- i)) else show_nat (nat i))"

subsection \<open>Facts about the C library functions\<close>

lemma strtol_bounds: "LONG_MIN \<le> strtol base s \<and> strtol base s \<le> LONG_MAX"
proof -
  obtain v where "strtol base s = max LONG_MIN (min LONG_MAX v)"
    unfolding strtol_def Let_def by blast
  then show ?thesis by (simp add: LONG_MIN_def LONG_MAX_def)
qed

lemma strstr_split_Some:
  "strstr_split pat s = Some (a, b) \<Longrightarrow> s = a @ b \<and> take (length pat) b = pat"
proof (induction s arbitrary: a b)
  case Nil
  then show ?case by (simp split: if_splits)
next
  case (Cons c cs)
  then show ?case by (auto split: if_splits)
qed

lemma cstr_no_NUL [simp]: "NUL \<notin> set (cstr b)"
  by (auto simp: cstr_def dest: set_takeWhileD)

lemma cstr_id [simp]: "NUL \<notin> set b \<Longrightarrow> cstr b = b"
  by (auto simp: cstr_def takeWhile_eq_all_conv)

lemma show_nat_length: "n < 10 ^ k \<Longrightarrow> 0 < k \<Longrightarrow> length (show_nat n) \<le> k"
proof (induction k arbitrary: n)
  case (Suc k)
  show ?case
  proof (cases "n < 10")
    case True
    then show ?thesis by (subst show_nat.simps) simp
  next
    case False
    then have "0 < k" using Suc.prems(1) by (cases k) auto
    moreover have "n div 10 < 10 ^ k" using Suc.prems(1) by (simp add: less_mult_imp_div_less)
    ultimately show ?thesis using Suc.IH [of "n div 10"] False by (subst show_nat.simps) simp
  qed
qed simp

lemma show_int_length: "n < 10 ^ k \<Longrightarrow> 0 < k \<Longrightarrow> length (show_int (int n)) \<le> k"
  by (simp add: show_int_def show_nat_length)

section \<open>32-bit words read as signed\<close>

lemma sint32_cases: "sint (w :: 32 word) = (if uint w < 2 ^ 31 then uint w else uint w - 2 ^ 32)"
proof -
  have "sint w = (uint w + 2 ^ 31) mod 2 ^ 32 - 2 ^ 31"
    by (simp add: sint_uint signed_take_bit_eq_take_bit_shift take_bit_eq_mod)
  moreover have "0 \<le> uint w" "uint w < 2 ^ 32" using uint_lt2p [of w] by simp_all
  moreover from this have "(uint w + 2 ^ 31) mod 2 ^ 32 = (if uint w < 2 ^ 31 then uint w + 2 ^ 31 else uint w - 2 ^ 31)"
    by (simp add: mod_pos_pos_trivial) (use mod_add_self2 [of "uint w - 2 ^ 31" "2 ^ 32 :: int"] in \<open>simp add: mod_pos_pos_trivial add.commute\<close>)
  ultimately show ?thesis by simp
qed

lemma sint_word32: "- (2 ^ 31) \<le> k \<Longrightarrow> k < 2 ^ 31 \<Longrightarrow> sint (word_of_int k :: 32 word) = k"
  by (simp add: signed_of_int signed_take_bit_int_eq_self)

lemma uint32_minus: "w \<noteq> 0 \<Longrightarrow> uint (- w :: 32 word) = 2 ^ 32 - uint w"
proof -
  assume "w \<noteq> 0"
  then have "uint w \<noteq> 0" by (simp add: uint_0_iff)
  moreover have "uint w mod 2 ^ 32 = uint w" using uint_lt2p [of w] by simp
  ultimately show ?thesis by (simp add: uint_word_ariths zmod_zminus1_eq_if)
qed

section \<open>Lists\<close>

lemma take_min_length: "take (min n (length xs)) xs = take n xs"
  by (simp add: min_def)

lemma distinct_count_le: "distinct xs \<longleftrightarrow> (\<forall>a. count (mset xs) a \<le> 1)"
proof (induction xs)
  case (Cons x xs)
  have "x \<notin> set xs \<longleftrightarrow> count (mset xs) x = 0" by (simp add: count_eq_zero_iff)
  with Cons show ?case by (auto simp: le_Suc_eq)
qed simp

lemma filter_mset_none: "(\<forall>d \<in># ds. \<not> P d) \<Longrightarrow> filter_mset P ds = {#}"
  by (induction ds) auto

section \<open>Bounded tables with first-in-first-out eviction\<close>

text \<open>
  The idiom of the host lists: when the table is full the entry in slot 0 is overwritten by
  shifting the others down one slot, then the new entry is stored at the end.
\<close>

definition fifo_push :: "nat \<Rightarrow> 'a list \<Rightarrow> 'a \<Rightarrow> 'a list" where
  "fifo_push cap xs x = (if length xs \<ge> cap then tl xs else xs) @ [x]"

lemma set_tlD: "x \<in> set (tl xs) \<Longrightarrow> x \<in> set xs"
  by (cases xs) auto

lemma fifo_push_length: "0 < cap \<Longrightarrow> length xs \<le> cap \<Longrightarrow> length (fifo_push cap xs x) \<le> cap"
  by (auto simp: fifo_push_def)

lemma fifo_push_in [simp]: "x \<in> set (fifo_push cap xs x)"
  by (simp add: fifo_push_def)

lemma fifo_push_subset: "set (fifo_push cap xs x) \<subseteq> insert x (set xs)"
  by (auto simp: fifo_push_def dest: set_tlD)

lemma fifo_push_distinct:
  "distinct xs \<Longrightarrow> x \<notin> set xs \<Longrightarrow> distinct (fifo_push cap xs x)"
  by (auto simp: fifo_push_def distinct_tl dest: set_tlD)

lemma fifo_push_keeps_recent:
  "y \<in> set (tl xs) \<Longrightarrow> y \<in> set (fifo_push cap xs x)"
  by (auto simp: fifo_push_def dest: set_tlD)

section \<open>The contract of a stable time-ordered queue\<close>

text \<open>
  A queue ordered by an expiry \<open>key\<close>; \<open>ins\<close> puts a new element behind every element that is
  due no later than it. From that contract alone: the queue stays sorted, its contents are
  the old contents and the new element, elements with equal keys leave in the order in
  which they were inserted, and the elements due at a time are a prefix of the queue.
\<close>

locale timed_queue =
  fixes key :: "'e \<Rightarrow> 'k::linorder"
    and ins :: "'e \<Rightarrow> 'e list \<Rightarrow> 'e list"
  assumes ins_split:
    "\<exists>ys zs. xs = ys @ zs \<and> ins e xs = ys @ e # zs \<and> (\<forall>y \<in> set ys. key y \<le> key e)
       \<and> (zs = [] \<or> key e < key (hd zs))"
begin

lemma mset_ins: "mset (ins e xs) = add_mset e (mset xs)"
  using ins_split [of xs e] by auto

lemma set_ins: "set (ins e xs) = insert e (set xs)"
  using ins_split [of xs e] by auto

lemma filter_ins: "\<not> P e \<Longrightarrow> filter P (ins e xs) = filter P xs"
  using ins_split [of xs e] by auto

lemma distinct_map_ins:
  "distinct (map f (ins e xs)) \<longleftrightarrow> f e \<notin> f ` set xs \<and> distinct (map f xs)"
  using ins_split [of xs e] by auto

lemma sorted_ins:
  assumes "sorted (map key xs)"
  shows "sorted (map key (ins e xs))"
proof -
  obtain ys zs where s: "xs = ys @ zs" "ins e xs = ys @ e # zs"
    "\<forall>y \<in> set ys. key y \<le> key e" "zs = [] \<or> key e < key (hd zs)"
    using ins_split [of xs e] by blast
  have "\<forall>z \<in> set zs. key e \<le> key z"
    using s(1,4) assms by (cases zs) (auto simp: sorted_append)
  then show ?thesis
    using s assms by (auto simp: sorted_append intro: order_trans)
qed

lemma ins_ties:
  assumes "sorted (map key xs)"
  shows "filter (\<lambda>y. key y = key e) (ins e xs) = filter (\<lambda>y. key y = key e) xs @ [e]"
proof -
  obtain ys zs where s: "xs = ys @ zs" "ins e xs = ys @ e # zs" "zs = [] \<or> key e < key (hd zs)"
    using ins_split [of xs e] by blast
  have "filter (\<lambda>y. key y = key e) zs = []"
    using s(1,3) assms by (cases zs) (auto simp: sorted_append filter_empty_conv)
  with s show ?thesis by simp
qed

end

lemma due_prefix:
  fixes key :: "'e \<Rightarrow> 'k::linorder"
  assumes "sorted (map key xs)"
  shows "takeWhile (\<lambda>e. key e \<le> t) xs = filter (\<lambda>e. key e \<le> t) xs"
  using assms
proof (induction xs)
  case (Cons x xs)
  have "\<not> key x \<le> t \<Longrightarrow> filter (\<lambda>e. key e \<le> t) xs = []"
    using Cons.prems by (force simp: filter_empty_conv)
  with Cons show ?case by simp
qed simp

lemma due_suffix:
  fixes key :: "'e \<Rightarrow> 'k::linorder"
  assumes "sorted (map key xs)"
  shows "dropWhile (\<lambda>e. key e \<le> t) xs = filter (\<lambda>e. \<not> key e \<le> t) xs"
  using assms
proof (induction xs)
  case (Cons x xs)
  have "\<not> key x \<le> t \<Longrightarrow> filter (\<lambda>e. \<not> key e \<le> t) xs = xs"
    using Cons.prems by (force simp: filter_id_conv)
  with Cons show ?case by simp
qed simp

end
