(* ===== verification/Scheduler.thy ===== *)
theory Scheduler
  imports MS_Prelude
begin

text \<open>
  The cooperative scheduler of \<open>frontends/macos9/schedule.c\<close>: a list of timed callbacks
  ordered by absolute due time in ticks (1/60 s), polled from the event loop.

  The static variables are the fields of \<open>sched\<close>; \<open>tick_count\<close> is the value \<open>TickCount()\<close>
  currently returns and \<open>macos9_quitting\<close> the shutdown flag of \<open>main.c\<close>. A callback is an
  identity \<open>'c\<close> with an argument \<open>'p\<close> (the code compares function and data pointers only for
  equality). Running it is the argument \<open>call\<close> of the model: any function on the state,
  which may move the clock, schedule and cancel, since a callback may call
  \<open>macos9_schedule\<close> again. Whatever else a callback changes is the extension of the record.
  \<open>malloc_ok\<close> says whether the allocation of an entry succeeds.
\<close>

datatype nserror = NSERROR_OK | NSERROR_NOMEM

record ('c, 'p) sched_entry =
  se_time :: ticks
  se_callback :: 'c
  se_p :: 'p

record ('c, 'p) sched =
  sched_queue :: "('c, 'p) sched_entry list"
  macos9_sched_active :: bool
  macos9_sched_time :: ticks
  tick_count :: ticks
  macos9_quitting :: bool

definition MACOS9_SCHED_IDLE_SLEEP :: int where
  "MACOS9_SCHED_IDLE_SLEEP = 15"

section \<open>Operations\<close>

fun sched_remove :: "'c \<Rightarrow> 'p \<Rightarrow> ('c, 'p) sched_entry list \<Rightarrow> ('c, 'p) sched_entry list" where
  "sched_remove callback p [] = []"
| "sched_remove callback p (entry # rest) =
     (if se_callback entry = callback \<and> se_p entry = p then rest
      else entry # sched_remove callback p rest)"

definition sched_update_state :: "('c, 'p, 'w) sched_scheme \<Rightarrow> ('c, 'p, 'w) sched_scheme" where
  "sched_update_state s =
     (case sched_queue s of
        [] \<Rightarrow> s\<lparr>macos9_sched_active := False\<rparr>
      | e # _ \<Rightarrow> s\<lparr>macos9_sched_active := True, macos9_sched_time := se_time e\<rparr>)"

text \<open>The due time, in the 32-bit unsigned arithmetic of the source.\<close>

definition sched_due :: "ticks \<Rightarrow> int \<Rightarrow> ticks" where
  "sched_due now t = now + (word_of_int t * 60) div 1000"

fun sched_insert :: "('c, 'p) sched_entry \<Rightarrow> ('c, 'p) sched_entry list \<Rightarrow> ('c, 'p) sched_entry list" where
  "sched_insert entry [] = [entry]"
| "sched_insert entry (e # rest) =
     (if se_time e \<le> se_time entry then e # sched_insert entry rest else entry # e # rest)"

definition macos9_schedule ::
    "bool \<Rightarrow> int \<Rightarrow> 'c \<Rightarrow> 'p \<Rightarrow> ('c, 'p, 'w) sched_scheme \<Rightarrow> nserror \<times> ('c, 'p, 'w) sched_scheme" where
  "macos9_schedule malloc_ok t callback p s =
     (let s1 = s\<lparr>sched_queue := sched_remove callback p (sched_queue s)\<rparr>
      in if t < 0 then (NSERROR_OK, sched_update_state s1)
         else if \<not> malloc_ok then (NSERROR_NOMEM, s1)
         else let entry = \<lparr>se_time = sched_due (tick_count s1) t, se_callback = callback, se_p = p\<rparr>
              in (NSERROR_OK,
                  sched_update_state (s1\<lparr>sched_queue := sched_insert entry (sched_queue s1)\<rparr>)))"

text \<open>
  The loop of \<open>macos9_schedule_run\<close>. A callback can put a due entry back every time it runs, so
  the loop need not end: \<^const>\<open>None\<close> is "does not return".
\<close>

partial_function (option) sched_run_loop ::
    "('c \<Rightarrow> 'p \<Rightarrow> ('c, 'p, 'w) sched_scheme \<Rightarrow> ('c, 'p, 'w) sched_scheme) \<Rightarrow> ticks
      \<Rightarrow> ('c, 'p, 'w) sched_scheme \<Rightarrow> ('c, 'p, 'w) sched_scheme option" where
  "sched_run_loop call now s =
     (case sched_queue s of
        [] \<Rightarrow> Some s
      | entry # rest \<Rightarrow>
          if se_time entry \<le> now
          then sched_run_loop call now (call (se_callback entry) (se_p entry) (s\<lparr>sched_queue := rest\<rparr>))
          else Some s)"

declare sched_run_loop.simps [code]

definition macos9_schedule_run ::
    "('c \<Rightarrow> 'p \<Rightarrow> ('c, 'p, 'w) sched_scheme \<Rightarrow> ('c, 'p, 'w) sched_scheme)
      \<Rightarrow> ('c, 'p, 'w) sched_scheme \<Rightarrow> (bool \<times> ('c, 'p, 'w) sched_scheme) option" where
  "macos9_schedule_run call s =
     (if macos9_quitting s then Some (False, s)
      else map_option (\<lambda>s'. let s'' = sched_update_state s' in (macos9_sched_active s'', s''))
             (sched_run_loop call (tick_count s) s))"

definition macos9_get_next_delay :: "('c, 'p, 'w) sched_scheme \<Rightarrow> int" where
  "macos9_get_next_delay s =
     (case sched_queue s of
        [] \<Rightarrow> MACOS9_SCHED_IDLE_SLEEP
      | e # _ \<Rightarrow> (let delta = sint (se_time e - tick_count s) in if delta \<le> 0 then 0 else delta))"

section \<open>The queue is a stable time-ordered queue\<close>

lemma sched_insert_split:
  "\<exists>ys zs. xs = ys @ zs \<and> sched_insert e xs = ys @ e # zs \<and> (\<forall>y \<in> set ys. se_time y \<le> se_time e)
     \<and> (zs = [] \<or> se_time e < se_time (hd zs))"
proof (induction xs)
  case (Cons x xs)
  show ?case
  proof (cases "se_time x \<le> se_time e")
    case True
    from Cons obtain ys zs where "xs = ys @ zs" "sched_insert e xs = ys @ e # zs"
      "\<forall>y \<in> set ys. se_time y \<le> se_time e" "zs = [] \<or> se_time e < se_time (hd zs)" by blast
    with True show ?thesis by (intro exI [of _ "x # ys"] exI [of _ zs]) simp
  next
    case False
    then show ?thesis by (intro exI [of _ "[]"] exI [of _ "x # xs"]) simp
  qed
qed simp

interpretation sq: timed_queue se_time sched_insert
  by unfold_locales (rule sched_insert_split)

section \<open>Invariant\<close>

definition entry_key :: "('c, 'p) sched_entry \<Rightarrow> 'c \<times> 'p" where
  "entry_key e = (se_callback e, se_p e)"

definition queue_ok :: "('c, 'p) sched_entry list \<Rightarrow> bool" where
  "queue_ok q \<longleftrightarrow> sorted (map se_time q) \<and> distinct (map entry_key q)"

definition exported_ok :: "('c, 'p, 'w) sched_scheme \<Rightarrow> bool" where
  "exported_ok s \<longleftrightarrow> macos9_sched_active s = (sched_queue s \<noteq> [])
     \<and> (sched_queue s \<noteq> [] \<longrightarrow> macos9_sched_time s = se_time (hd (sched_queue s)))"

definition sched_inv :: "('c, 'p, 'w) sched_scheme \<Rightarrow> bool" where
  "sched_inv s \<longleftrightarrow> queue_ok (sched_queue s) \<and> exported_ok s"

lemma sched_remove_filter:
  "distinct (map entry_key q) \<Longrightarrow> sched_remove c p q = filter (\<lambda>e. entry_key e \<noteq> (c, p)) q"
proof (induction q)
  case (Cons e q)
  have "entry_key e = (c, p) \<Longrightarrow> filter (\<lambda>e. entry_key e \<noteq> (c, p)) q = q"
    using Cons.prems by (force simp: filter_id_conv)
  with Cons show ?case by (auto simp: entry_key_def)
qed simp

lemma sched_update_state_simps [simp]:
  "sched_queue (sched_update_state s) = sched_queue s"
  "tick_count (sched_update_state s) = tick_count s"
  "macos9_quitting (sched_update_state s) = macos9_quitting s"
  "exported_ok (sched_update_state s)"
  by (auto simp: sched_update_state_def exported_ok_def split: list.splits)

lemma distinct_map_filter_list: "distinct (map f xs) \<Longrightarrow> distinct (map f (filter P xs))"
  by (induction xs) auto

lemma queue_ok_filter: "queue_ok q \<Longrightarrow> queue_ok (filter P q)"
  by (simp add: queue_ok_def sorted_filter distinct_map_filter_list)

lemma queue_ok_insert:
  "queue_ok q \<Longrightarrow> entry_key e \<notin> entry_key ` set q \<Longrightarrow> queue_ok (sched_insert e q)"
  by (simp add: queue_ok_def sq.sorted_ins sq.distinct_map_ins)

lemma queue_ok_tl: "queue_ok (e # q) \<Longrightarrow> queue_ok q"
  by (simp add: queue_ok_def)

lemma schedule_queue:
  assumes "queue_ok (sched_queue s)"
  shows "sched_queue (snd (macos9_schedule ok t c p s)) =
     (let q = filter (\<lambda>e. entry_key e \<noteq> (c, p)) (sched_queue s)
      in if t < 0 \<or> \<not> ok then q
         else sched_insert \<lparr>se_time = sched_due (tick_count s) t, se_callback = c, se_p = p\<rparr> q)"
  using assms by (simp add: macos9_schedule_def Let_def queue_ok_def sched_remove_filter)

lemma schedule_exported:
  "fst (macos9_schedule ok t c p s) = NSERROR_OK \<Longrightarrow> exported_ok (snd (macos9_schedule ok t c p s))"
  by (auto simp: macos9_schedule_def Let_def split: if_splits)

lemma schedule_queue_ok:
  "queue_ok (sched_queue s) \<Longrightarrow> queue_ok (sched_queue (snd (macos9_schedule ok t c p s)))"
  by (auto simp: schedule_queue Let_def queue_ok_filter entry_key_def intro!: queue_ok_insert)


section \<open>Running the queue\<close>

abbreviation due_at :: "ticks \<Rightarrow> ('c, 'p) sched_entry \<Rightarrow> bool" where
  "due_at now e \<equiv> se_time e \<le> now"

lemma sched_run_loop_done:
  "sched_run_loop call now s = Some s' \<Longrightarrow> sched_queue s' = [] \<or> now < se_time (hd (sched_queue s'))"
proof (rule sched_run_loop.raw_induct
    [where P = "\<lambda>call now s s'. sched_queue s' = [] \<or> now < se_time (hd (sched_queue s'))"])
  fix f :: "('a \<Rightarrow> 'b \<Rightarrow> ('a, 'b, 'c) sched_scheme \<Rightarrow> ('a, 'b, 'c) sched_scheme) \<Rightarrow> ticks
      \<Rightarrow> ('a, 'b, 'c) sched_scheme \<Rightarrow> ('a, 'b, 'c) sched_scheme option"
    and call now s and s' :: "('a, 'b, 'c) sched_scheme"
  assume IH: "\<And>call now s s'. f call now s = Some s' \<Longrightarrow>
      sched_queue s' = [] \<or> now < se_time (hd (sched_queue s'))"
    and eq: "(case sched_queue s of [] \<Rightarrow> Some s
       | entry # rest \<Rightarrow> if se_time entry \<le> now
          then f call now (call (se_callback entry) (se_p entry) (s\<lparr>sched_queue := rest\<rparr>))
          else Some s) = Some s'"
  show "sched_queue s' = [] \<or> now < se_time (hd (sched_queue s'))"
    using eq by (auto split: list.splits if_splits dest: IH)
qed

text \<open>
  A callback neither adds due entries nor breaks the queue invariant: the condition under
  which the loop is shown to end. It allows callbacks that reschedule themselves for later.
\<close>

definition call_safe ::
    "('c \<Rightarrow> 'p \<Rightarrow> ('c, 'p, 'w) sched_scheme \<Rightarrow> ('c, 'p, 'w) sched_scheme) \<Rightarrow> ticks \<Rightarrow> bool" where
  "call_safe call now \<longleftrightarrow>
     (\<forall>c p s. queue_ok (sched_queue s) \<longrightarrow> queue_ok (sched_queue (call c p s))
        \<and> length (filter (due_at now) (sched_queue (call c p s))) \<le> length (filter (due_at now) (sched_queue s)))"

lemma sched_run_loop_returns:
  assumes "call_safe call now" and "queue_ok (sched_queue s)"
  shows "\<exists>s'. sched_run_loop call now s = Some s' \<and> queue_ok (sched_queue s')"
  using assms(2)
proof (induction "length (filter (due_at now) (sched_queue s))" arbitrary: s rule: less_induct)
  case less
  show ?case
  proof (cases "sched_queue s")
    case Nil
    with less.prems show ?thesis by (simp add: sched_run_loop.simps)
  next
    case (Cons e q)
    let ?s = "s\<lparr>sched_queue := q\<rparr>"
    show ?thesis
    proof (cases "due_at now e")
      case True
      have ok: "queue_ok (sched_queue ?s)" using less.prems Cons by (simp add: queue_ok_tl)
      let ?s' = "call (se_callback e) (se_p e) ?s"
      have "queue_ok (sched_queue ?s')"
        and "length (filter (due_at now) (sched_queue ?s')) \<le> length (filter (due_at now) q)"
        using assms(1) [unfolded call_safe_def, rule_format, OF ok, of "se_callback e" "se_p e"] by simp_all
      then have "\<exists>s'. sched_run_loop call now ?s' = Some s' \<and> queue_ok (sched_queue s')"
        using less.hyps [of ?s'] Cons True by simp
      with Cons True show ?thesis by (subst sched_run_loop.simps) simp
    next
      case False
      with Cons less.prems show ?thesis by (subst sched_run_loop.simps) simp
    qed
  qed
qed

text \<open>Callbacks that leave the scheduler alone and only act on the rest of the program.\<close>

definition outside_call ::
    "('c \<Rightarrow> 'p \<Rightarrow> 'w \<Rightarrow> 'w) \<Rightarrow> 'c \<Rightarrow> 'p \<Rightarrow> ('c, 'p, 'w) sched_scheme \<Rightarrow> ('c, 'p, 'w) sched_scheme" where
  "outside_call act c p s = sched.more_update (act c p) s"

lemma sched_run_loop_outside:
  "sched_run_loop (outside_call act) now s =
     Some (sched.more_update (fold (\<lambda>e. act (se_callback e) (se_p e)) (takeWhile (due_at now) (sched_queue s)))
             (s\<lparr>sched_queue := dropWhile (due_at now) (sched_queue s)\<rparr>))"
proof (induction "sched_queue s" arbitrary: s)
  case Nil
  then show ?case by (cases s) (simp add: sched_run_loop.simps)
next
  case (Cons e q)
  show ?case
  proof (cases "due_at now e")
    case True
    let ?s = "outside_call act (se_callback e) (se_p e) (s\<lparr>sched_queue := q\<rparr>)"
    have q: "q = sched_queue ?s" by (simp add: outside_call_def)
    show ?thesis
      using Cons.hyps(1) [OF q] Cons.hyps(2) [symmetric] True
      by (subst sched_run_loop.simps) (cases s, simp add: outside_call_def)
  next
    case False
    then show ?thesis
      using Cons.hyps(2) [symmetric] by (subst sched_run_loop.simps) (cases s, simp)
  qed
qed

section \<open>Properties\<close>

text \<open>
  C1. Scheduling and cancelling keep the scheduler invariant: the queue is sorted by due time,
  holds at most one entry per callback and argument, and the exported
  \<open>macos9_sched_active\<close> and \<open>macos9_sched_time\<close> describe its head, after every call that
  returns \<open>NSERROR_OK\<close>.
\<close>

theorem macos9_schedule_invariant:
  assumes "sched_inv s" and "fst (macos9_schedule ok t c p s) = NSERROR_OK"
  shows "sched_inv (snd (macos9_schedule ok t c p s))"
  using assms by (simp add: sched_inv_def schedule_queue_ok schedule_exported)

theorem macos9_schedule_invariant_witness:
  "sched_inv (snd (macos9_schedule True 1000 (1::nat) (2::nat)
      \<lparr>sched_queue = [\<lparr>se_time = 5, se_callback = 1, se_p = 2\<rparr>, \<lparr>se_time = 90, se_callback = 3, se_p = 0\<rparr>],
       macos9_sched_active = True, macos9_sched_time = 5, tick_count = 20, macos9_quitting = False\<rparr>))"
  by (rule macos9_schedule_invariant)
    (simp_all add: sched_inv_def queue_ok_def exported_ok_def entry_key_def macos9_schedule_def)

text \<open>
  C2. A successful \<open>macos9_schedule\<close> with a non-negative delay leaves exactly one entry for the
  callback and argument, due at the computed time, behind every other entry due at that
  time; all other entries keep their order. A negative delay removes the entry.
\<close>

theorem macos9_schedule_functional:
  assumes "queue_ok (sched_queue s)"
    and "e = \<lparr>se_time = sched_due (tick_count s) t, se_callback = c, se_p = p\<rparr>"
    and "q = sched_queue (snd (macos9_schedule True t c p s))"
  shows "filter (\<lambda>x. entry_key x \<noteq> (c, p)) q = filter (\<lambda>x. entry_key x \<noteq> (c, p)) (sched_queue s)
    \<and> filter (\<lambda>x. entry_key x = (c, p)) q = (if t < 0 then [] else [e])
    \<and> (0 \<le> t \<longrightarrow> filter (\<lambda>x. se_time x = se_time e) q =
         filter (\<lambda>x. se_time x = se_time e \<and> entry_key x \<noteq> (c, p)) (sched_queue s) @ [e])"
proof -
  let ?r = "filter (\<lambda>x. entry_key x \<noteq> (c, p)) (sched_queue s)"
  have q: "q = (if t < 0 then ?r else sched_insert e ?r)"
    using assms by (simp add: schedule_queue)
  have key: "entry_key e = (c, p)" using assms(2) by (simp add: entry_key_def)
  have sorted: "sorted (map se_time ?r)" using assms(1) by (simp add: queue_ok_def sorted_filter)
  have self: "filter (\<lambda>x. entry_key x = (c, p)) (sched_insert e ?r) = [e]"
  proof -
    obtain ys zs where "?r = ys @ zs" "sched_insert e ?r = ys @ e # zs"
      using sched_insert_split by blast
    moreover have "filter (\<lambda>x. entry_key x = (c, p)) ?r = []" by (simp add: filter_empty_conv)
    ultimately show ?thesis using key by simp
  qed
  show ?thesis
    using sq.ins_ties [OF sorted, of e] sq.filter_ins [of "\<lambda>x. entry_key x \<noteq> (c, p)" e ?r] self key
    by (simp add: q conj_commute filter_empty_conv)
qed

theorem macos9_schedule_functional_witness:
  defines "s \<equiv> \<lparr>sched_queue = [\<lparr>se_time = 80, se_callback = 1, se_p = 2\<rparr>, \<lparr>se_time = 80, se_callback = 3, se_p = 0\<rparr>],
       macos9_sched_active = True, macos9_sched_time = 80, tick_count = 20, macos9_quitting = False\<rparr>
       :: (nat, nat) sched"
  shows "filter (\<lambda>x. entry_key x = (1, 2)) (sched_queue (snd (macos9_schedule True 1000 1 2 s))) =
     [\<lparr>se_time = 80, se_callback = 1, se_p = 2\<rparr>]"
  using macos9_schedule_functional
    [of s "\<lparr>se_time = 80, se_callback = 1, se_p = 2\<rparr>" 1000 1 2 "sched_queue (snd (macos9_schedule True 1000 1 2 s))"]
  by (simp add: s_def queue_ok_def entry_key_def sched_due_def)

text \<open>
  The delay of a new entry is \<open>t * 60 div 1000\<close> ticks with \<open>t * 60\<close> taken modulo
  \<open>2 ^ 32\<close>: exact for every delay below 71582789 ms (about 19.9 hours), while a delay of exactly
  71582789 ms is due at once.
\<close>

theorem sched_due_delay:
  assumes "0 \<le> t" and "t < 2 ^ 31"
  shows "unat (sched_due now t - now) = (nat t * 60 mod 2 ^ 32) div 1000
    \<and> (t < 71582789 \<longrightarrow> unat (sched_due now t - now) = nat t * 60 div 1000)
    \<and> sched_due now 71582789 = now"
proof -
  have "unat (word_of_int t * 60 :: ticks) = nat t * 60 mod 2 ^ 32"
  proof -
    have "(word_of_int t :: ticks) = of_nat (nat t)" using assms(1) by simp
    then show ?thesis by (simp add: unat_word_ariths unat_of_nat mod_mult_left_eq)
  qed
  moreover have "t < 71582789 \<Longrightarrow> nat t * 60 mod 2 ^ 32 = nat t * 60" by simp
  ultimately show ?thesis by (simp add: sched_due_def unat_div)
qed

theorem sched_due_delay_witness:
  "unat (sched_due 7 1000 - 7) = 60"
  using sched_due_delay [of 1000 7] by simp

text \<open>
  When the callbacks do not touch the scheduler, one \<open>macos9_schedule_run\<close> calls exactly
  the entries due at the tick it started with, in queue order (due time, then insertion
  order), keeps the others, and leaves the exported state describing the remaining queue.
\<close>

theorem macos9_schedule_run_fires_due:
  assumes "queue_ok (sched_queue s)" and "\<not> macos9_quitting s"
  shows "\<exists>s'. macos9_schedule_run (outside_call act) s = Some (sched_queue s' \<noteq> [], s')
    \<and> sched_queue s' = filter (\<lambda>e. \<not> due_at (tick_count s) e) (sched_queue s)
    \<and> sched.more s' = fold (\<lambda>e. act (se_callback e) (se_p e)) (filter (due_at (tick_count s)) (sched_queue s)) (sched.more s)
    \<and> sched_inv s'"
proof -
  let ?now = "tick_count s"
  let ?m = "sched.more_update (fold (\<lambda>e. act (se_callback e) (se_p e)) (filter (due_at ?now) (sched_queue s)))
             (s\<lparr>sched_queue := filter (\<lambda>e. \<not> due_at ?now e) (sched_queue s)\<rparr>)"
  have sorted: "sorted (map se_time (sched_queue s))" using assms(1) by (simp add: queue_ok_def)
  have loop: "sched_run_loop (outside_call act) ?now s = Some ?m"
    by (simp add: sched_run_loop_outside due_prefix [OF sorted] due_suffix [OF sorted])
  have more: "sched.more (sched_update_state x) = sched.more x" for x :: "('a, 'b, 'c) sched_scheme"
    by (auto simp: sched_update_state_def split: list.splits)
  have exp: "macos9_sched_active (sched_update_state ?m) = (sched_queue ?m \<noteq> [])"
    using sched_update_state_simps(4) [of ?m] unfolding exported_ok_def by simp
  show ?thesis
    using assms exp by (intro exI [of _ "sched_update_state ?m"])
      (simp add: macos9_schedule_run_def loop Let_def sched_inv_def queue_ok_filter more)
qed

theorem macos9_schedule_run_fires_due_witness:
  defines "s \<equiv> sched.extend \<lparr>sched_queue = [\<lparr>se_time = 5, se_callback = 1, se_p = 2\<rparr>, \<lparr>se_time = 9, se_callback = 3, se_p = 0\<rparr>,
         \<lparr>se_time = 30, se_callback = 4, se_p = 0\<rparr>],
       macos9_sched_active = True, macos9_sched_time = 5, tick_count = 20, macos9_quitting = False\<rparr> ([] :: (nat \<times> nat) list)"
  shows "\<exists>s'. macos9_schedule_run (outside_call (\<lambda>c p log. log @ [(c, p)])) s = Some (sched_queue s' \<noteq> [], s')
    \<and> sched_queue s' = [\<lparr>se_time = 30, se_callback = 4, se_p = 0\<rparr>] \<and> sched.more s' = [(1, 2), (3, 0)]"
  using macos9_schedule_run_fires_due [of s "\<lambda>c p log. log @ [(c, p)]"]
  by (auto simp: s_def queue_ok_def entry_key_def sched.extend_def)

text \<open>
  Callbacks may schedule and cancel while the queue runs: as long as none of them adds an
  entry that is already due, \<open>macos9_schedule_run\<close> returns, no due entry is left, the
  invariant holds again, and the returned flag says whether anything is still queued. Once
  \<open>macos9_quitting\<close> is set nothing runs.
\<close>

theorem macos9_schedule_run_returns:
  assumes "call_safe call (tick_count s)" and "queue_ok (sched_queue s)"
  shows "macos9_quitting s \<and> macos9_schedule_run call s = Some (False, s)
    \<or> \<not> macos9_quitting s \<and> (\<exists>s'. macos9_schedule_run call s = Some (sched_queue s' \<noteq> [], s') \<and> sched_inv s'
        \<and> (\<forall>e \<in> set (sched_queue s'). tick_count s < se_time e))"
proof (cases "macos9_quitting s")
  case True
  then show ?thesis by (simp add: macos9_schedule_run_def)
next
  case False
  from sched_run_loop_returns [OF assms] obtain s1 where
    s1: "sched_run_loop call (tick_count s) s = Some s1" "queue_ok (sched_queue s1)" by blast
  have "\<forall>e \<in> set (sched_queue s1). tick_count s < se_time e"
    using sched_run_loop_done [OF s1(1)] s1(2) by (cases "sched_queue s1") (force simp: queue_ok_def)+
  moreover have "macos9_sched_active (sched_update_state s1) = (sched_queue s1 \<noteq> [])"
    using sched_update_state_simps(4) [of s1] unfolding exported_ok_def by simp
  ultimately show ?thesis
    using False s1 by (intro disjI2 conjI exI [of _ "sched_update_state s1"])
      (simp_all add: macos9_schedule_run_def Let_def sched_inv_def)
qed


lemma call_safe_reschedule_later:
  "call_safe (\<lambda>c p s. snd (macos9_schedule True 1000 c p (s\<lparr>tick_count := 20\<rparr>))) 20"
proof -
  have "length (filter (due_at 20) (sched_queue (snd (macos9_schedule True 1000 c p (s\<lparr>tick_count := 20\<rparr>)))))
      \<le> length (filter (due_at 20) (sched_queue s))" if "queue_ok (sched_queue s)"
    for c :: 'a and p :: 'b and s :: "('a, 'b, 'c) sched_scheme"
  proof -
    let ?e = "\<lparr>se_time = 80, se_callback = c, se_p = p\<rparr>"
    have "filter (due_at 20) (sched_insert ?e r) = filter (due_at 20) r" for r
      by (rule sq.filter_ins) simp
    moreover have "length (filter P (filter Q q)) \<le> length (filter P q)" for P Q and q :: "('a, 'b) sched_entry list"
      by (induction q) auto
    ultimately show ?thesis using that by (simp add: schedule_queue sched_due_def Let_def)
  qed
  then show ?thesis by (auto simp: call_safe_def intro: schedule_queue_ok)
qed

theorem macos9_schedule_run_returns_witness:
  defines "s \<equiv> \<lparr>sched_queue = [\<lparr>se_time = 5, se_callback = 1, se_p = 2\<rparr>, \<lparr>se_time = 30, se_callback = 3, se_p = 0\<rparr>],
       macos9_sched_active = True, macos9_sched_time = 5, tick_count = 20, macos9_quitting = False\<rparr> :: (nat, nat) sched"
  shows "\<exists>s'. macos9_schedule_run (\<lambda>c p s. snd (macos9_schedule True 1000 c p (s\<lparr>tick_count := 20\<rparr>))) s
     = Some (sched_queue s' \<noteq> [], s') \<and> sched_inv s'"
proof -
  have "call_safe (\<lambda>c p s. snd (macos9_schedule True 1000 c p (s\<lparr>tick_count := 20\<rparr>))) (tick_count s)"
    using call_safe_reschedule_later by (simp add: s_def)
  moreover have "queue_ok (sched_queue s)" by (simp add: s_def queue_ok_def entry_key_def)
  ultimately show ?thesis
    using macos9_schedule_run_returns [of "\<lambda>c p s. snd (macos9_schedule True 1000 c p (s\<lparr>tick_count := 20\<rparr>))" s]
    by (auto simp: s_def)
qed

text \<open>
  When the allocation fails, \<open>macos9_schedule\<close> has already dropped the previous entry of
  the callback and does not refresh the exported state: starting from a state that satisfies
  the invariant it can return \<open>NSERROR_NOMEM\<close> with an empty queue that is still announced as
  active at the old time.
\<close>

theorem macos9_schedule_nomem_stale:
  "\<exists>s :: (nat, nat) sched. sched_inv s \<and> fst (macos9_schedule False 100 1 2 s) = NSERROR_NOMEM
     \<and> sched_queue (snd (macos9_schedule False 100 1 2 s)) = []
     \<and> macos9_sched_active (snd (macos9_schedule False 100 1 2 s))
     \<and> \<not> exported_ok (snd (macos9_schedule False 100 1 2 s))"
proof -
  let ?s = "\<lparr>sched_queue = [\<lparr>se_time = 5, se_callback = 1, se_p = 2\<rparr>], macos9_sched_active = True,
     macos9_sched_time = 5, tick_count = 0, macos9_quitting = False\<rparr> :: (nat, nat) sched"
  have "sched_inv ?s" by (simp add: sched_inv_def queue_ok_def exported_ok_def entry_key_def)
  then show ?thesis
    by (intro exI [of _ ?s]) (simp add: macos9_schedule_def exported_ok_def)
qed

text \<open>
  \<open>macos9_get_next_delay\<close> never overshoots: with a non-empty queue whose head is due less
  than \<open>2 ^ 31\<close> ticks from now, adding the returned delay to the clock gives exactly the
  head's due time; a head due at most \<open>2 ^ 31\<close> ticks ago gives 0; an empty queue gives the idle
  sleep of 15 ticks. The comparison goes through the 32-bit difference, so it is right across
  the wrap of the tick counter.
\<close>

theorem macos9_get_next_delay_exact:
  "(sched_queue s = [] \<and> macos9_get_next_delay s = 15)
   \<or> (\<exists>e q. sched_queue s = e # q \<and> uint (se_time e - tick_count s) < 2 ^ 31
        \<and> tick_count s + word_of_int (macos9_get_next_delay s) = se_time e)
   \<or> (\<exists>e q. sched_queue s = e # q \<and> uint (tick_count s - se_time e) \<le> 2 ^ 31 \<and> macos9_get_next_delay s = 0)"
proof (cases "sched_queue s")
  case Nil
  then show ?thesis by (simp add: macos9_get_next_delay_def MACOS9_SCHED_IDLE_SLEEP_def)
next
  case (Cons e q)
  let ?d = "se_time e - tick_count s"
  show ?thesis
  proof (cases "uint ?d < 2 ^ 31")
    case True
    then have "sint ?d = uint ?d" by (simp add: sint32_cases)
    moreover have "0 \<le> uint ?d" by simp
    ultimately have "macos9_get_next_delay s = uint ?d" using Cons by (simp add: macos9_get_next_delay_def)
    with True Cons show ?thesis by simp
  next
    case False
    have "uint ?d < 2 ^ 32" using uint_lt2p [of ?d] by simp
    with False have "sint ?d < 0" by (simp add: sint32_cases)
    moreover have "uint (tick_count s - se_time e) \<le> 2 ^ 31"
      using False uint32_minus [of ?d] by (cases "?d = 0") auto
    ultimately show ?thesis using Cons by (simp add: macos9_get_next_delay_def)
  qed
qed

end
