(* ===== verification/JsTimers.thy ===== *)
theory JsTimers
  imports MS_Prelude
begin

text \<open>
  The JavaScript timers of \<open>frontends/macos9/javascript/macsurf_js_timers.c\<close>: \<open>setTimeout\<close>,
  \<open>setInterval\<close>, \<open>clearTimeout\<close> and the pump, over a fixed arena of 64 slots, a linked list of
  the armed slots ordered by expiry, and the Duktape stash that keeps the callbacks alive.

  The arena is a list of \<open>js_timer\<close> records; the linked list, whose nodes are arena slots, is
  the list of their indices from the head on; the stash object is a map from timer ids to
  callbacks. \<open>mac_secs\<close> is what \<open>GetDateTime\<close> returns, so \<open>macsurf_js_get_now\<close>
  (\<open>macsurf_js_date.c\<close>) has a resolution of one second. Doubles are reals (every value the
  code computes is a sum of two of them; infinities are not represented, a NaN delay is
  \<^const>\<open>None\<close>). Calling a JavaScript function is the argument \<open>pcall\<close>, any function on the
  state: a callback may create and clear timers and time may pass while it runs.

  The counter of ids is the C \<open>int\<close> at its width, a 32-bit word that wraps after
  \<open>2 ^ 31 - 1\<close>; an id is its signed reading.
\<close>

record js_timer =
  tm_id :: int
  tm_expiry_ms :: real
  tm_repeating :: bool
  tm_interval_ms :: real
  tm_live :: bool

record 'f timers =
  timer_arena :: "js_timer list"
  timer_head :: "nat list"
  timer_next_id :: "32 word"
  timer_stash :: "int \<rightharpoonup> 'f"
  mac_secs :: "32 word"

definition MACSURF_JS_MAX_TIMERS :: nat where
  "MACSURF_JS_MAX_TIMERS = 64"

definition MACSURF_MAC_EPOCH_OFFSET :: "32 word" where
  "MACSURF_MAC_EPOCH_OFFSET = 2082844800"

section \<open>Operations\<close>

definition macsurf_js_get_now :: "('f, 'w) timers_scheme \<Rightarrow> real" where
  "macsurf_js_get_now s = real (unat (mac_secs s - MACSURF_MAC_EPOCH_OFFSET)) * 1000"

definition timer_alloc :: "js_timer list \<Rightarrow> nat" where
  "timer_alloc arena =
     (case find (\<lambda>i. \<not> tm_live (arena ! i)) [0..<MACSURF_JS_MAX_TIMERS] of
        Some i \<Rightarrow> i
      | None \<Rightarrow> foldl (\<lambda>oldest i. if tm_expiry_ms (arena ! i) < tm_expiry_ms (arena ! oldest) then i else oldest)
                  0 [1..<MACSURF_JS_MAX_TIMERS])"

fun timer_insert_sorted :: "js_timer list \<Rightarrow> nat \<Rightarrow> nat list \<Rightarrow> nat list" where
  "timer_insert_sorted arena t [] = [t]"
| "timer_insert_sorted arena t (x # xs) =
     (if tm_expiry_ms (arena ! x) \<le> tm_expiry_ms (arena ! t) then x # timer_insert_sorted arena t xs
      else t # x # xs)"

definition timer_list_remove :: "nat \<Rightarrow> ('f, 'w) timers_scheme \<Rightarrow> ('f, 'w) timers_scheme" where
  "timer_list_remove t s = s\<lparr>timer_head := remove1 t (timer_head s)\<rparr>"

definition timer_list_insert :: "nat \<Rightarrow> ('f, 'w) timers_scheme \<Rightarrow> ('f, 'w) timers_scheme" where
  "timer_list_insert t s =
     s\<lparr>timer_head := timer_insert_sorted (timer_arena s) t (remove1 t (timer_head s))\<rparr>"

definition timer_stash_put :: "int \<Rightarrow> 'f \<Rightarrow> ('f, 'w) timers_scheme \<Rightarrow> ('f, 'w) timers_scheme" where
  "timer_stash_put tid fn s = s\<lparr>timer_stash := (timer_stash s)(tid \<mapsto> fn)\<rparr>"

definition timer_stash_push :: "int \<Rightarrow> ('f, 'w) timers_scheme \<Rightarrow> 'f option" where
  "timer_stash_push tid s = timer_stash s tid"

definition timer_stash_del :: "int \<Rightarrow> ('f, 'w) timers_scheme \<Rightarrow> ('f, 'w) timers_scheme" where
  "timer_stash_del tid s = s\<lparr>timer_stash := (timer_stash s)(tid := None)\<rparr>"

text \<open>
  \<open>timer_create\<close>: the callback argument (\<^const>\<open>None\<close> when it is not a function), the delay
  (\<^const>\<open>None\<close> for NaN); the result is the id pushed on the Duktape stack.
\<close>

definition timer_create ::
    "bool \<Rightarrow> 'f option \<Rightarrow> real option \<Rightarrow> ('f, 'w) timers_scheme \<Rightarrow> int \<times> ('f, 'w) timers_scheme" where
  "timer_create repeating fn_arg delay_arg s =
     (case fn_arg of
        None \<Rightarrow> (0, s)
      | Some fn \<Rightarrow>
          (let delay_ms = (case delay_arg of None \<Rightarrow> 0 | Some d \<Rightarrow> if d < 0 then 0 else d);
               t = timer_alloc (timer_arena s);
               old = timer_arena s ! t;
               s1 = (if tm_live old then timer_stash_del (tm_id old) (timer_list_remove t s) else s);
               tid = sint (timer_next_id s1);
               new = \<lparr>tm_id = tid, tm_expiry_ms = macsurf_js_get_now s1 + delay_ms, tm_repeating = repeating,
                      tm_interval_ms = delay_ms, tm_live = True\<rparr>;
               s2 = s1\<lparr>timer_next_id := timer_next_id s1 + 1, timer_arena := (timer_arena s1)[t := new]\<rparr>
           in (tid, timer_list_insert t (timer_stash_put tid fn s2))))"

definition macsurf_js_settimeout ::
    "'f option \<Rightarrow> real option \<Rightarrow> ('f, 'w) timers_scheme \<Rightarrow> int \<times> ('f, 'w) timers_scheme" where
  "macsurf_js_settimeout fn d s = timer_create False fn d s"

definition macsurf_js_setinterval ::
    "'f option \<Rightarrow> real option \<Rightarrow> ('f, 'w) timers_scheme \<Rightarrow> int \<times> ('f, 'w) timers_scheme" where
  "macsurf_js_setinterval fn d s = timer_create True fn d s"

definition macsurf_js_cleartimeout :: "int \<Rightarrow> ('f, 'w) timers_scheme \<Rightarrow> ('f, 'w) timers_scheme" where
  "macsurf_js_cleartimeout tid s =
     (case find (\<lambda>i. tm_live (timer_arena s ! i) \<and> tm_id (timer_arena s ! i) = tid) [0..<MACSURF_JS_MAX_TIMERS] of
        None \<Rightarrow> s
      | Some i \<Rightarrow>
          (let s1 = timer_stash_del tid (timer_list_remove i s)
           in s1\<lparr>timer_arena := (timer_arena s1)[i := (timer_arena s1 ! i)\<lparr>tm_live := False\<rparr>]\<rparr>))"

text \<open>One pass of the pump's loop body for the head slot \<open>t\<close>, up to the clock check.\<close>

definition timer_fire ::
    "('f \<Rightarrow> ('f, 'w) timers_scheme \<Rightarrow> ('f, 'w) timers_scheme) \<Rightarrow> real \<Rightarrow> nat
      \<Rightarrow> ('f, 'w) timers_scheme \<Rightarrow> ('f, 'w) timers_scheme" where
  "timer_fire pcall now t s =
     (let s1 = timer_list_remove t s;
          s2 = (case timer_stash_push (tm_id (timer_arena s1 ! t)) s1 of None \<Rightarrow> s1 | Some fn \<Rightarrow> pcall fn s1);
          tm = timer_arena s2 ! t
      in if tm_repeating tm \<and> tm_live tm
         then timer_list_insert t
                (s2\<lparr>timer_arena := (timer_arena s2)[t := tm\<lparr>tm_expiry_ms := now + tm_interval_ms tm\<rparr>]\<rparr>)
         else (let s3 = timer_stash_del (tm_id tm) s2
               in s3\<lparr>timer_arena := (timer_arena s3)[t := tm\<lparr>tm_live := False\<rparr>]\<rparr>))"

text \<open>The loop re-reads the head after every callback and may not end: \<^const>\<open>None\<close>.\<close>

partial_function (option) run_timers_loop ::
    "('f \<Rightarrow> ('f, 'w) timers_scheme \<Rightarrow> ('f, 'w) timers_scheme) \<Rightarrow> real
      \<Rightarrow> ('f, 'w) timers_scheme \<Rightarrow> ('f, 'w) timers_scheme option" where
  "run_timers_loop pcall now s =
     (case timer_head s of
        [] \<Rightarrow> Some s
      | t # _ \<Rightarrow>
          if tm_expiry_ms (timer_arena s ! t) \<le> now
          then (let s' = timer_fire pcall now t s
                in if macsurf_js_get_now s' \<le> now then Some s' else run_timers_loop pcall now s')
          else Some s)"

declare run_timers_loop.simps [code]

definition macsurf_js_run_timers ::
    "bool \<Rightarrow> ('f \<Rightarrow> ('f, 'w) timers_scheme \<Rightarrow> ('f, 'w) timers_scheme)
      \<Rightarrow> ('f, 'w) timers_scheme \<Rightarrow> ('f, 'w) timers_scheme option" where
  "macsurf_js_run_timers ctx_ok pcall s =
     (if \<not> ctx_ok then Some s else run_timers_loop pcall (macsurf_js_get_now s) s)"

section \<open>The armed list is a stable time-ordered queue\<close>

lemma timer_insert_sorted_split:
  "\<exists>ys zs. xs = ys @ zs \<and> timer_insert_sorted a t xs = ys @ t # zs
     \<and> (\<forall>y \<in> set ys. tm_expiry_ms (a ! y) \<le> tm_expiry_ms (a ! t))
     \<and> (zs = [] \<or> tm_expiry_ms (a ! t) < tm_expiry_ms (a ! hd zs))"
proof (induction xs)
  case (Cons x xs)
  show ?case
  proof (cases "tm_expiry_ms (a ! x) \<le> tm_expiry_ms (a ! t)")
    case True
    from Cons obtain ys zs where "xs = ys @ zs" "timer_insert_sorted a t xs = ys @ t # zs"
      "\<forall>y \<in> set ys. tm_expiry_ms (a ! y) \<le> tm_expiry_ms (a ! t)"
      "zs = [] \<or> tm_expiry_ms (a ! t) < tm_expiry_ms (a ! hd zs)" by blast
    with True show ?thesis by (intro exI [of _ "x # ys"] exI [of _ zs]) simp
  next
    case False
    then show ?thesis by (intro exI [of _ "[]"] exI [of _ "x # xs"]) simp
  qed
qed simp

interpretation tq: timed_queue "\<lambda>i. tm_expiry_ms (arena ! i)" "timer_insert_sorted arena" for arena
  by unfold_locales (rule timer_insert_sorted_split)

section \<open>Invariant\<close>

definition live_slots :: "js_timer list \<Rightarrow> nat set" where
  "live_slots arena = {i. i < MACSURF_JS_MAX_TIMERS \<and> tm_live (arena ! i)}"

definition timers_inv :: "('f, 'w) timers_scheme \<Rightarrow> bool" where
  "timers_inv s \<longleftrightarrow> length (timer_arena s) = MACSURF_JS_MAX_TIMERS
     \<and> distinct (timer_head s)
     \<and> sorted (map (\<lambda>i. tm_expiry_ms (timer_arena s ! i)) (timer_head s))
     \<and> set (timer_head s) = live_slots (timer_arena s)
     \<and> (\<forall>i \<in> live_slots (timer_arena s). 0 < tm_id (timer_arena s ! i) \<and> tm_id (timer_arena s ! i) < sint (timer_next_id s))
     \<and> inj_on (\<lambda>i. tm_id (timer_arena s ! i)) (live_slots (timer_arena s))
     \<and> dom (timer_stash s) = (\<lambda>i. tm_id (timer_arena s ! i)) ` live_slots (timer_arena s)
     \<and> 0 < sint (timer_next_id s)"

definition timers_init :: "'f timers" where
  "timers_init = \<lparr>timer_arena = replicate MACSURF_JS_MAX_TIMERS
       \<lparr>tm_id = 0, tm_expiry_ms = 0, tm_repeating = False, tm_interval_ms = 0, tm_live = False\<rparr>,
     timer_head = [], timer_next_id = 1, timer_stash = Map.empty, mac_secs = MACSURF_MAC_EPOCH_OFFSET\<rparr>"

lemma timers_inv_init: "timers_inv timers_init"
  by (auto simp: timers_inv_def timers_init_def live_slots_def inj_on_def)

lemma init_room: "sint (timer_next_id timers_init) < 2 ^ 31 - 1"
  by (simp add: timers_init_def)

lemma find_upt_Some: "find P [0..<n] = Some i \<longleftrightarrow> i < n \<and> P i \<and> (\<forall>j<i. \<not> P j)"
  by (auto simp: find_Some_iff)

lemma foldl_argmin:
  fixes f :: "nat \<Rightarrow> real"
  shows "foldl (\<lambda>m i. if f i < f m then i else m) a xs \<in> insert a (set xs)
    \<and> (\<forall>x \<in> insert a (set xs). f (foldl (\<lambda>m i. if f i < f m then i else m) a xs) \<le> f x)"
proof (induction xs arbitrary: a)
  case (Cons x xs)
  show ?case using Cons [of "if f x < f a then x else a"] by (auto split: if_splits)
qed simp

lemma timer_alloc_spec:
  "timer_alloc arena < MACSURF_JS_MAX_TIMERS
   \<and> (tm_live (arena ! timer_alloc arena) \<longrightarrow>
        (\<forall>i < MACSURF_JS_MAX_TIMERS. tm_live (arena ! i)
            \<and> tm_expiry_ms (arena ! timer_alloc arena) \<le> tm_expiry_ms (arena ! i)))"
proof (cases "find (\<lambda>i. \<not> tm_live (arena ! i)) [0..<MACSURF_JS_MAX_TIMERS]")
  case (Some i)
  then have "timer_alloc arena = i" by (simp add: timer_alloc_def)
  with Some show ?thesis by (simp add: find_upt_Some)
next
  case None
  let ?m = "foldl (\<lambda>oldest i. if tm_expiry_ms (arena ! i) < tm_expiry_ms (arena ! oldest) then i else oldest)
                  0 [1..<MACSURF_JS_MAX_TIMERS]"
  have all: "insert 0 (set [1..<MACSURF_JS_MAX_TIMERS]) = {i. i < MACSURF_JS_MAX_TIMERS}"
    by (auto simp: MACSURF_JS_MAX_TIMERS_def)
  have "?m \<in> {i. i < MACSURF_JS_MAX_TIMERS}" "\<forall>x \<in> {i. i < MACSURF_JS_MAX_TIMERS}. tm_expiry_ms (arena ! ?m) \<le> tm_expiry_ms (arena ! x)"
    using foldl_argmin [of "\<lambda>i. tm_expiry_ms (arena ! i)" 0 "[1..<MACSURF_JS_MAX_TIMERS]"] unfolding all by auto
  moreover have "\<forall>i < MACSURF_JS_MAX_TIMERS. tm_live (arena ! i)"
    using None by (auto simp: find_None_iff)
  ultimately show ?thesis using None by (simp add: timer_alloc_def)
qed


lemma live_slots_update [simp]:
  "length a = MACSURF_JS_MAX_TIMERS \<Longrightarrow> t < MACSURF_JS_MAX_TIMERS \<Longrightarrow>
     live_slots (a[t := x]) = (if tm_live x then insert t (live_slots a) else live_slots a - {t})"
  by (auto simp: live_slots_def nth_list_update)

lemma expiry_update_elsewhere:
  "t \<notin> set h \<Longrightarrow> map (\<lambda>i. tm_expiry_ms (a[t := x] ! i)) h = map (\<lambda>i. tm_expiry_ms (a ! i)) h"
  by (rule map_cong) (auto, metis nth_list_update_neq)

text \<open>Unlinking a slot from a good list, whether or not it is linked.\<close>

lemma head_without:
  assumes "timers_inv s"
  shows "distinct (remove1 t (timer_head s))" "t \<notin> set (remove1 t (timer_head s))"
    "set (remove1 t (timer_head s)) = live_slots (timer_arena s) - {t}"
    "sorted (map (\<lambda>i. tm_expiry_ms (timer_arena s ! i)) (remove1 t (timer_head s)))"
  using assms by (auto simp: timers_inv_def intro: sorted_map_remove1)

text \<open>Storing a live timer with a fresh or unchanged id in a slot and linking it.\<close>

lemma timers_inv_arm:
  assumes inv: "timers_inv s" and t: "t < MACSURF_JS_MAX_TIMERS" and x: "tm_live x"
    and h: "h = remove1 t (timer_head s)"
    and new: "0 < tm_id x" "tm_id x < sint n" "sint (timer_next_id s) \<le> sint n"
    and fresh: "\<forall>i \<in> live_slots (timer_arena s) - {t}. tm_id (timer_arena s ! i) \<noteq> tm_id x"
    and st: "dom st = insert (tm_id x) ((\<lambda>i. tm_id (timer_arena s ! i)) ` (live_slots (timer_arena s) - {t}))"
    and s': "timer_arena s' = (timer_arena s)[t := x]" "timer_next_id s' = n" "timer_stash s' = st"
      "timer_head s' = timer_insert_sorted (timer_arena s') t h"
  shows "timers_inv s'"
proof -
  let ?a = "timer_arena s" and ?L = "live_slots (timer_arena s)"
  note hw = head_without [OF inv, of t, folded h]
  have len: "length ?a = MACSURF_JS_MAX_TIMERS" using inv by (simp add: timers_inv_def)
  have L': "live_slots (timer_arena s') = insert t (?L - {t})" using len t x by (auto simp: s')
  have sorted: "sorted (map (\<lambda>i. tm_expiry_ms (timer_arena s' ! i)) (timer_head s'))"
    unfolding s'(4) using hw(2,4) by (intro tq.sorted_ins) (simp add: s' expiry_update_elsewhere)
  have dist: "distinct (timer_head s')"
    using tq.distinct_map_ins [of "\<lambda>x. x" "timer_arena s'" t h] hw by (simp add: s'(4))
  have set: "set (timer_head s') = live_slots (timer_arena s')"
    using hw(3) by (simp add: s'(4) tq.set_ins L')
  have ids: "tm_id (timer_arena s' ! i) = (if i = t then tm_id x else tm_id (?a ! i))" for i
    using len t by (simp add: s' nth_list_update)
  have img: "(\<lambda>i. tm_id (timer_arena s' ! i)) ` (?L - {t}) = (\<lambda>i. tm_id (?a ! i)) ` (?L - {t})"
    by (intro image_cong) (auto simp: ids)
  have inj0: "inj_on (\<lambda>i. tm_id (?a ! i)) ?L" using inv by (simp add: timers_inv_def)
  have inj: "inj_on (\<lambda>i. tm_id (timer_arena s' ! i)) (live_slots (timer_arena s'))"
    unfolding L' inj_on_def ids using inj0 fresh by (auto simp: inj_on_def)
  have bound: "\<forall>i \<in> live_slots (timer_arena s'). 0 < tm_id (timer_arena s' ! i) \<and> tm_id (timer_arena s' ! i) < sint n"
    using inv new by (auto simp: L' ids timers_inv_def intro: order_less_le_trans)
  have dom: "dom (timer_stash s') = (\<lambda>i. tm_id (timer_arena s' ! i)) ` live_slots (timer_arena s')"
    unfolding L' image_insert img s'(3) st by (simp add: ids)
  have "length (timer_arena s') = MACSURF_JS_MAX_TIMERS" "0 < sint (timer_next_id s')"
    using len new by (simp_all add: s')
  with sorted dist set inj bound dom show ?thesis by (simp add: timers_inv_def s'(2))
qed

text \<open>Dropping a slot: unlinked, its callback forgotten, not live.\<close>

lemma timers_inv_drop:
  assumes inv: "timers_inv s" and t: "t \<in> live_slots (timer_arena s)" and x: "\<not> tm_live x"
    and s': "timer_arena s' = (timer_arena s)[t := x]" "timer_next_id s' = timer_next_id s"
      "timer_stash s' = (timer_stash s)(tm_id (timer_arena s ! t) := None)"
      "timer_head s' = remove1 t (timer_head s)"
  shows "timers_inv s'"
proof -
  let ?a = "timer_arena s" and ?L = "live_slots (timer_arena s)"
  note hw = head_without [OF inv, of t]
  have len: "length ?a = MACSURF_JS_MAX_TIMERS" and t': "t < MACSURF_JS_MAX_TIMERS"
    using inv t by (auto simp: timers_inv_def live_slots_def)
  have L': "live_slots (timer_arena s') = ?L - {t}" using len t' x by (simp add: s')
  have ids: "i \<in> ?L - {t} \<Longrightarrow> timer_arena s' ! i = ?a ! i" for i by (simp add: s')
  have inj0: "inj_on (\<lambda>i. tm_id (?a ! i)) ?L" using inv by (simp add: timers_inv_def)
  have dom: "dom (timer_stash s') = (\<lambda>i. tm_id (?a ! i)) ` (?L - {t})"
    using inv t inj0 by (auto simp: timers_inv_def s' inj_on_def)
  have img: "(\<lambda>i. tm_id (timer_arena s' ! i)) ` (?L - {t}) = (\<lambda>i. tm_id (?a ! i)) ` (?L - {t})"
    by (intro image_cong) (auto simp: ids)
  have inj: "inj_on (\<lambda>i. tm_id (timer_arena s' ! i)) (?L - {t})"
    using inj0 ids by (auto simp: inj_on_def)
  show ?thesis
    using len hw inj inv unfolding timers_inv_def L' dom
    by (auto simp: img ids s'(2,4) expiry_update_elsewhere s'(1))
qed


section \<open>The operations keep the invariant\<close>

lemma timers_inv_clock [simp]: "timers_inv (s\<lparr>mac_secs := m\<rparr>) = timers_inv s"
  by (simp add: timers_inv_def)

lemma timers_inv_cong:
  "timer_arena s' = timer_arena s \<Longrightarrow> timer_head s' = timer_head s \<Longrightarrow> timer_next_id s' = timer_next_id s
     \<Longrightarrow> timer_stash s' = timer_stash s \<Longrightarrow> timers_inv s' = timers_inv s"
  by (simp add: timers_inv_def)

lemma remove1_twice: "distinct h \<Longrightarrow> remove1 t (remove1 t h) = remove1 t h"
  by (simp add: remove1_idem)

text \<open>Creating one timer steps the counter without wrapping while it is below its greatest value.\<close>

lemma sint_Suc_word:
  fixes n :: "32 word"
  assumes "sint n < 2 ^ 31 - 1"
  shows "sint (n + 1) = sint n + 1"
proof -
  have "sint n + 1 \<in> {- (2 ^ 31)..<2 ^ 31}" using assms sint_greater_eq [of n] by simp
  then have "signed_take_bit 31 (sint n + 1) = sint n + 1" by (intro signed_take_bit_int_eq_self) auto
  then show ?thesis by (simp add: signed_word_eqI sint_word_ariths)
qed

lemma sint_Suc_less: "sint (n :: 32 word) < 2147483647 \<Longrightarrow> sint n < sint (n + 1) \<and> sint n \<le> sint (n + 1)"
  by (simp add: sint_Suc_word)

lemma timer_create_inv:
  assumes inv: "timers_inv s" and room: "sint (timer_next_id s) < 2 ^ 31 - 1"
  shows "timers_inv (snd (timer_create rep fn d s))"
proof (cases fn)
  case None
  with inv show ?thesis by (simp add: timer_create_def)
next
  case (Some f)
  let ?t = "timer_alloc (timer_arena s)"
  let ?a = "timer_arena s"
  have t: "?t < MACSURF_JS_MAX_TIMERS" using timer_alloc_spec by blast
  have idle: "\<not> tm_live (?a ! ?t) \<Longrightarrow> ?t \<notin> live_slots ?a" by (simp add: live_slots_def)
  have ids: "\<forall>i \<in> live_slots ?a. tm_id (?a ! i) < sint (timer_next_id s)" and pos: "0 < sint (timer_next_id s)"
    and dom: "dom (timer_stash s) = (\<lambda>i. tm_id (?a ! i)) ` live_slots ?a"
    and inj: "inj_on (\<lambda>i. tm_id (?a ! i)) (live_slots ?a)" and dist: "distinct (timer_head s)"
    using inv by (auto simp: timers_inv_def)
  define x where "x = \<lparr>tm_id = sint (timer_next_id s),
      tm_expiry_ms = macsurf_js_get_now s + (case d of None \<Rightarrow> 0 | Some d \<Rightarrow> if d < 0 then 0 else d),
      tm_repeating = rep, tm_interval_ms = (case d of None \<Rightarrow> 0 | Some d \<Rightarrow> if d < 0 then 0 else d), tm_live = True\<rparr>"
  define st where "st = (if tm_live (?a ! ?t) then (timer_stash s)(tm_id (?a ! ?t) := None) else timer_stash s)
      (sint (timer_next_id s) \<mapsto> f)"
  have live: "tm_live (?a ! ?t) \<Longrightarrow> ?t \<in> live_slots ?a" using t by (simp add: live_slots_def)
  have st': "dom st = insert (tm_id x) ((\<lambda>i. tm_id (?a ! i)) ` (live_slots ?a - {?t}))"
    using dom idle inj live unfolding st_def x_def
    by (cases "tm_live (?a ! ?t)") (auto simp: inj_on_def split: if_splits)
  show ?thesis
  proof (rule timers_inv_arm [OF inv t, of x "remove1 ?t (timer_head s)" "timer_next_id s + 1" st])
    show "timer_head (snd (timer_create rep fn d s)) =
        timer_insert_sorted (timer_arena (snd (timer_create rep fn d s))) ?t (remove1 ?t (timer_head s))"
      using Some dist by (simp add: timer_create_def Let_def timer_list_insert_def timer_list_remove_def
          timer_stash_put_def timer_stash_del_def remove1_twice)
  qed (use Some ids pos st' room sint_Suc_less in \<open>auto simp: x_def st_def timer_create_def Let_def timer_list_insert_def
      timer_list_remove_def timer_stash_put_def timer_stash_del_def macsurf_js_get_now_def\<close>)
qed

lemma cleartimeout_cases:
  assumes "timers_inv s"
  shows "(macsurf_js_cleartimeout tid s = s \<and> (\<forall>i \<in> live_slots (timer_arena s). tm_id (timer_arena s ! i) \<noteq> tid))
    \<or> (\<exists>i \<in> live_slots (timer_arena s). tm_id (timer_arena s ! i) = tid
         \<and> macsurf_js_cleartimeout tid s = s\<lparr>timer_head := remove1 i (timer_head s),
              timer_stash := (timer_stash s)(tid := None),
              timer_arena := (timer_arena s)[i := (timer_arena s ! i)\<lparr>tm_live := False\<rparr>]\<rparr>)"
proof (cases "find (\<lambda>i. tm_live (timer_arena s ! i) \<and> tm_id (timer_arena s ! i) = tid) [0..<MACSURF_JS_MAX_TIMERS]")
  case None
  then have "macsurf_js_cleartimeout tid s = s" by (simp add: macsurf_js_cleartimeout_def)
  with None show ?thesis by (auto simp: find_None_iff live_slots_def)
next
  case (Some i)
  then have "i \<in> live_slots (timer_arena s)" "tm_id (timer_arena s ! i) = tid"
    by (auto simp: find_upt_Some live_slots_def)
  with Some show ?thesis
    by (intro disjI2 bexI [of _ i])
      (simp_all add: macsurf_js_cleartimeout_def Let_def timer_stash_del_def timer_list_remove_def)
qed

lemma cleartimeout_inv:
  assumes inv: "timers_inv s"
  shows "timers_inv (macsurf_js_cleartimeout tid s)"
  using cleartimeout_cases [OF inv, of tid]
proof (elim disjE conjE bexE)
  fix i assume i: "i \<in> live_slots (timer_arena s)" "tm_id (timer_arena s ! i) = tid"
    and eq: "macsurf_js_cleartimeout tid s = s\<lparr>timer_head := remove1 i (timer_head s),
              timer_stash := (timer_stash s)(tid := None),
              timer_arena := (timer_arena s)[i := (timer_arena s ! i)\<lparr>tm_live := False\<rparr>]\<rparr>"
  show ?thesis
    by (rule timers_inv_drop [OF inv i(1), of "(timer_arena s ! i)\<lparr>tm_live := False\<rparr>"]) (simp_all add: eq i(2))
qed (simp add: inv)

text \<open>Callbacks that create and clear no timers; time may pass while they run.\<close>

definition passive_call :: "('f \<Rightarrow> ('f, 'w) timers_scheme \<Rightarrow> ('f, 'w) timers_scheme) \<Rightarrow> bool" where
  "passive_call pcall \<longleftrightarrow> (\<forall>fn s. timer_arena (pcall fn s) = timer_arena s \<and> timer_head (pcall fn s) = timer_head s
      \<and> timer_next_id (pcall fn s) = timer_next_id s \<and> timer_stash (pcall fn s) = timer_stash s)"

text \<open>What firing the head slot does when its callback is passive.\<close>

lemma timer_fire_passive:
  assumes inv: "timers_inv s" and p: "passive_call pcall" and h: "timer_head s = t # r"
  defines "tm \<equiv> timer_arena s ! t"
  shows "timer_arena (timer_fire pcall now t s) = (timer_arena s)
       [t := if tm_repeating tm then tm\<lparr>tm_expiry_ms := now + tm_interval_ms tm\<rparr> else tm\<lparr>tm_live := False\<rparr>]"
    "timer_head (timer_fire pcall now t s) =
       (if tm_repeating tm then timer_insert_sorted (timer_arena (timer_fire pcall now t s)) t r else r)"
    "timer_next_id (timer_fire pcall now t s) = timer_next_id s"
    "timer_stash (timer_fire pcall now t s) =
       (if tm_repeating tm then timer_stash s else (timer_stash s)(tm_id tm := None))"
    "\<exists>fn. timer_stash s (tm_id tm) = Some fn
       \<and> mac_secs (timer_fire pcall now t s) = mac_secs (pcall fn (s\<lparr>timer_head := r\<rparr>))"
proof -
  have t: "t \<in> live_slots (timer_arena s)" and nr: "t \<notin> set r" using inv h by (auto simp: timers_inv_def)
  then have live: "tm_live tm" by (simp add: live_slots_def tm_def)
  obtain fn where fn: "timer_stash s (tm_id tm) = Some fn"
    using inv t unfolding timers_inv_def tm_def by (metis (no_types, lifting) domIff imageI not_None_eq)
  have r: "remove1 t r = r" using nr by (simp add: remove1_idem)
  show "timer_arena (timer_fire pcall now t s) = (timer_arena s)
       [t := if tm_repeating tm then tm\<lparr>tm_expiry_ms := now + tm_interval_ms tm\<rparr> else tm\<lparr>tm_live := False\<rparr>]"
    "timer_head (timer_fire pcall now t s) =
       (if tm_repeating tm then timer_insert_sorted (timer_arena (timer_fire pcall now t s)) t r else r)"
    "timer_next_id (timer_fire pcall now t s) = timer_next_id s"
    "timer_stash (timer_fire pcall now t s) =
       (if tm_repeating tm then timer_stash s else (timer_stash s)(tm_id tm := None))"
    "\<exists>fn. timer_stash s (tm_id tm) = Some fn
       \<and> mac_secs (timer_fire pcall now t s) = mac_secs (pcall fn (s\<lparr>timer_head := r\<rparr>))"
    using fn live p r h unfolding passive_call_def
    by (simp_all add: timer_fire_def Let_def timer_list_remove_def timer_stash_push_def timer_list_insert_def
        timer_stash_del_def tm_def)
qed

lemma timer_fire_inv:
  assumes inv: "timers_inv s" and p: "passive_call pcall" and h: "timer_head s = t # r"
  shows "timers_inv (timer_fire pcall now t s)"
proof -
  note f = timer_fire_passive [OF inv p h, of now]
  let ?tm = "timer_arena s ! t"
  have t: "t \<in> live_slots (timer_arena s)" and nr: "t \<notin> set r" using inv h by (auto simp: timers_inv_def)
  then have t': "t < MACSURF_JS_MAX_TIMERS" "tm_live ?tm" by (simp_all add: live_slots_def)
  show ?thesis
  proof (cases "tm_repeating ?tm")
    case True
    have "dom (timer_stash s) = insert (tm_id ?tm) ((\<lambda>i. tm_id (timer_arena s ! i)) ` (live_slots (timer_arena s) - {t}))"
      using inv t by (auto simp: timers_inv_def)
    moreover have "\<forall>i \<in> live_slots (timer_arena s) - {t}. tm_id (timer_arena s ! i) \<noteq> tm_id ?tm"
      using inv t by (auto simp: timers_inv_def inj_on_def)
    ultimately show ?thesis
      using True t' f h inv t by (intro timers_inv_arm [OF inv t'(1),
            of "?tm\<lparr>tm_expiry_ms := now + tm_interval_ms ?tm\<rparr>" r "timer_next_id s" "timer_stash s"])
          (auto simp: timers_inv_def)
  next
    case False
    then show ?thesis
      using f h by (intro timers_inv_drop [OF inv t, of "?tm\<lparr>tm_live := False\<rparr>"]) simp_all
  qed
qed


section \<open>Reachable timer states\<close>

text \<open>
  The states a page can reach by setting and clearing timers, by time passing, and by the
  pump firing due head timers whose callbacks do not themselves touch the timers. The first
  argument is the history: the callbacks of the calls of \<open>setTimeout\<close> and \<open>setInterval\<close> so far,
  in order (a call without a function creates nothing).
\<close>

inductive timers_reach :: "'f list \<Rightarrow> 'f timers \<Rightarrow> bool" where
  reach_init: "timers_reach [] timers_init"
| reach_settimeout: "timers_reach fs s \<Longrightarrow> timers_reach (fs @ [f]) (snd (macsurf_js_settimeout (Some f) d s))"
| reach_setinterval: "timers_reach fs s \<Longrightarrow> timers_reach (fs @ [f]) (snd (macsurf_js_setinterval (Some f) d s))"
| reach_not_a_function: "timers_reach fs s \<Longrightarrow> timers_reach fs (snd (macsurf_js_settimeout None d s))"
| reach_clear: "timers_reach fs s \<Longrightarrow> timers_reach fs (macsurf_js_cleartimeout tid s)"
| reach_clock: "timers_reach fs s \<Longrightarrow> timers_reach fs (s\<lparr>mac_secs := m\<rparr>)"
| reach_fire: "timers_reach fs s \<Longrightarrow> timer_head s = t # r \<Longrightarrow> passive_call pcall \<Longrightarrow>
     timers_reach fs (timer_fire pcall now t s)"

text \<open>
  The callbacks in the stash are those of the history: the one of the call that made the id.
  The call that makes the id \<open>k\<close> is the \<open>k\<close>th.
\<close>

definition stash_from :: "'f list \<Rightarrow> ('f, 'w) timers_scheme \<Rightarrow> bool" where
  "stash_from fs s \<longleftrightarrow> sint (timer_next_id s) = int (length fs) + 1
     \<and> (\<forall>tid f. timer_stash s tid = Some f \<longrightarrow> 0 < tid \<and> tid \<le> int (length fs) \<and> f = fs ! nat (tid - 1))"

lemma timer_create_counter:
  "timer_next_id (snd (timer_create rep (Some f) d s)) = timer_next_id s + 1"
  "timer_stash (snd (timer_create rep (Some f) d s)) tid =
     (if tid = sint (timer_next_id s) then Some f
      else if tm_live (timer_arena s ! timer_alloc (timer_arena s))
              \<and> tid = tm_id (timer_arena s ! timer_alloc (timer_arena s)) then None
      else timer_stash s tid)"
  by (auto simp: timer_create_def Let_def timer_list_insert_def timer_list_remove_def timer_stash_put_def
      timer_stash_del_def)

lemma timer_ids_wrap:
  "timer_next_id s = 0x7fffffff \<Longrightarrow> sint (timer_next_id (snd (timer_create rep (Some f) d s))) = - (2 ^ 31)"
  by (simp add: timer_create_counter)

lemma stash_from_create:
  assumes "stash_from fs s" and "length fs + 1 < 2 ^ 31 - 1"
  shows "stash_from (fs @ [f]) (snd (timer_create rep (Some f) d s))"
proof -
  have n: "sint (timer_next_id s) = int (length fs) + 1" using assms(1) by (simp add: stash_from_def)
  then have n': "sint (timer_next_id s + 1) = int (length fs) + 2" using assms(2) by (subst sint_Suc_word) simp_all
  have b: "0 < tid \<and> tid \<le> int (length (fs @ [f])) \<and> g = (fs @ [f]) ! nat (tid - 1)"
    if "timer_stash (snd (timer_create rep (Some f) d s)) tid = Some g" for tid g
  proof (cases "tid = int (length fs) + 1")
    case True
    then show ?thesis using that n by (simp add: timer_create_counter)
  next
    case False
    then have "timer_stash s tid = Some g" using that n by (auto simp: timer_create_counter split: if_splits)
    then have "0 < tid" "tid \<le> int (length fs)" "g = fs ! nat (tid - 1)" using assms(1) by (auto simp: stash_from_def)
    moreover from this have "nat (tid - 1) < length fs" by linarith
    ultimately show ?thesis by (simp add: nth_append)
  qed
  show ?thesis unfolding stash_from_def using b n' by (intro conjI allI impI) (simp_all add: timer_create_counter(1))
qed

lemma stash_from_less:
  assumes "stash_from fs s" and "timer_next_id s' = timer_next_id s" and "timer_stash s' \<subseteq>\<^sub>m timer_stash s"
  shows "stash_from fs s'"
  using assms by (auto simp: stash_from_def map_le_def dom_def)

section \<open>Properties\<close>

lemma timers_reach_holds:
  assumes "timers_reach fs s" and "length fs < 2 ^ 31 - 2"
  shows "timers_inv s \<and> stash_from fs s"
  using assms
proof (induction rule: timers_reach.induct)
  case reach_init
  show ?case by (simp add: timers_inv_init stash_from_def) (simp add: timers_init_def)
next
  case (reach_settimeout fs s f d)
  then have "timers_inv s" "stash_from fs s" "length fs + 1 < 2 ^ 31 - 1" by simp_all
  moreover from this have "sint (timer_next_id s) < 2 ^ 31 - 1" by (simp add: stash_from_def)
  ultimately show ?case by (simp add: macsurf_js_settimeout_def timer_create_inv stash_from_create)
next
  case (reach_setinterval fs s f d)
  then have "timers_inv s" "stash_from fs s" "length fs + 1 < 2 ^ 31 - 1" by simp_all
  moreover from this have "sint (timer_next_id s) < 2 ^ 31 - 1" by (simp add: stash_from_def)
  ultimately show ?case by (simp add: macsurf_js_setinterval_def timer_create_inv stash_from_create)
next
  case (reach_not_a_function fs s d)
  then show ?case by (simp add: macsurf_js_settimeout_def timer_create_def)
next
  case (reach_clear fs s tid)
  then have "timers_inv s" "stash_from fs s" by simp_all
  with cleartimeout_cases [of s tid] show ?case
    by (auto simp: map_le_def intro: cleartimeout_inv elim!: stash_from_less)
next
  case (reach_clock fs s m)
  then show ?case by (simp add: stash_from_def)
next
  case (reach_fire fs s t r pcall now)
  then have "timers_inv s" "stash_from fs s" by simp_all
  with timer_fire_passive(3,4) [OF \<open>timers_inv s\<close> reach_fire(3,2), of now] show ?case
    using timer_fire_inv [OF \<open>timers_inv s\<close> reach_fire(3,2)]
    by (auto simp: map_le_def intro!: stash_from_less [of fs s])
qed

text \<open>
  C3. In every timer state a history of fewer than \<open>2 ^ 31 - 2\<close> timers reaches (the ids of a
  longer one wrap), the armed list holds exactly the live arena slots, once each and in expiry
  order, live timers have distinct ids, positive and below the next one, and the stash holds
  for each live timer the callback that the call which made its id was given, and no other.
\<close>

theorem timers_reach_invariant:
  assumes "timers_reach fs s" and "length fs < 2 ^ 31 - 2"
  shows "timers_inv s
    \<and> timer_stash s = (\<lambda>tid. if tid \<in> (\<lambda>i. tm_id (timer_arena s ! i)) ` live_slots (timer_arena s)
                              then Some (fs ! nat (tid - 1)) else None)"
proof -
  from timers_reach_holds [OF assms] have inv: "timers_inv s" and st: "stash_from fs s" by simp_all
  have "timer_stash s tid = (if tid \<in> dom (timer_stash s) then Some (fs ! nat (tid - 1)) else None)" for tid
    using st by (auto simp: stash_from_def)
  with inv show ?thesis by (auto simp: timers_inv_def)
qed

theorem timers_reach_invariant_witness:
  "timers_inv (macsurf_js_cleartimeout 1 (snd (macsurf_js_settimeout (Some ''f'') (Some 500) timers_init)))"
  using timers_reach_invariant [OF reach_clear [OF reach_settimeout [OF reach_init, of "''f''" "Some 500"], of 1]] by simp

text \<open>
  Creating a timer returns a fresh id, stores the callback under it and arms one slot with
  expiry now plus the delay (negative and NaN delays count as 0). No other slot changes. The
  slot was free if any slot was; only when all 64 are live does it replace a timer, and then
  one that expires soonest.
\<close>

theorem timer_create_functional:
  assumes "timers_inv s" and "timer_create rep (Some f) d s = (tid, s')"
    and "delay = (case d of None \<Rightarrow> 0 | Some d \<Rightarrow> if d < 0 then 0 else d)"
  shows "\<exists>t < MACSURF_JS_MAX_TIMERS.
      tid = sint (timer_next_id s) \<and> tid \<notin> dom (timer_stash s) \<and> timer_stash s' tid = Some f
    \<and> timer_arena s' ! t = \<lparr>tm_id = tid, tm_expiry_ms = macsurf_js_get_now s + delay, tm_repeating = rep,
          tm_interval_ms = delay, tm_live = True\<rparr>
    \<and> (\<forall>i. i \<noteq> t \<longrightarrow> timer_arena s' ! i = timer_arena s ! i)
    \<and> t \<in> set (timer_head s')
    \<and> (tm_live (timer_arena s ! t) \<longrightarrow> (\<forall>i < MACSURF_JS_MAX_TIMERS. tm_live (timer_arena s ! i)
          \<and> tm_expiry_ms (timer_arena s ! t) \<le> tm_expiry_ms (timer_arena s ! i)))"
proof -
  let ?t = "timer_alloc (timer_arena s)"
  have t: "?t < MACSURF_JS_MAX_TIMERS" using timer_alloc_spec by blast
  have len: "length (timer_arena s) = MACSURF_JS_MAX_TIMERS" using assms(1) by (simp add: timers_inv_def)
  have fresh: "sint (timer_next_id s) \<notin> dom (timer_stash s)" using assms(1) by (force simp: timers_inv_def)
  have "s' = snd (timer_create rep (Some f) d s)" "tid = fst (timer_create rep (Some f) d s)"
    using assms(2) by simp_all
  then have s': "tid = sint (timer_next_id s)" "timer_stash s' tid = Some f"
      "timer_arena s' = (timer_arena s)[?t := \<lparr>tm_id = tid, tm_expiry_ms = macsurf_js_get_now s + delay,
          tm_repeating = rep, tm_interval_ms = delay, tm_live = True\<rparr>]"
      "?t \<in> set (timer_head s')"
    using assms(3) by (auto simp: timer_create_def Let_def timer_list_insert_def timer_list_remove_def
        timer_stash_put_def timer_stash_del_def macsurf_js_get_now_def tq.set_ins)
  show ?thesis
    using t len fresh s' timer_alloc_spec [of "timer_arena s"]
    by (intro exI [of _ ?t]) (auto simp: nth_list_update)
qed

theorem timer_create_functional_witness:
  "\<exists>t < MACSURF_JS_MAX_TIMERS. timer_arena (snd (timer_create False (Some ''f'') (Some 250) timers_init)) ! t
     = \<lparr>tm_id = 1, tm_expiry_ms = 250, tm_repeating = False, tm_interval_ms = 250, tm_live = True\<rparr>"
proof -
  let ?r = "timer_create False (Some ''f'') (Some 250) timers_init"
  have "fst ?r = 1" by (simp add: timer_create_def timers_init_def Let_def timer_stash_del_def timer_list_remove_def)
  then have "?r = (1, snd ?r)" by (simp add: prod_eq_iff)
  moreover have "macsurf_js_get_now timers_init = 0" by (simp add: macsurf_js_get_now_def timers_init_def)
  ultimately show ?thesis
    using timer_create_functional [OF timers_inv_init, of False "''f''" "Some 250" 1 "snd ?r" 250] by auto
qed

text \<open>
  C4. \<open>clearTimeout\<close> of an id disarms exactly the live timer with that id: afterwards no live
  timer has it, its callback is gone from the stash and its slot is off the armed list, and
  every other live timer is as before. An id no live timer has changes nothing.
\<close>

theorem macsurf_js_cleartimeout_functional:
  assumes "timers_inv s" and "s' = macsurf_js_cleartimeout tid s"
  shows "live_slots (timer_arena s') = {i \<in> live_slots (timer_arena s). tm_id (timer_arena s ! i) \<noteq> tid}
    \<and> (\<forall>i \<in> live_slots (timer_arena s'). timer_arena s' ! i = timer_arena s ! i)
    \<and> timer_head s' = filter (\<lambda>i. tm_id (timer_arena s ! i) \<noteq> tid) (timer_head s)
    \<and> timer_stash s' = (timer_stash s)(tid := None)"
  using cleartimeout_cases [OF assms(1), of tid]
proof (elim disjE conjE bexE)
  assume "macsurf_js_cleartimeout tid s = s" and none: "\<forall>i \<in> live_slots (timer_arena s). tm_id (timer_arena s ! i) \<noteq> tid"
  moreover have "timer_stash s tid = None" using none assms(1) by (force simp: timers_inv_def)
  moreover have "filter (\<lambda>i. tm_id (timer_arena s ! i) \<noteq> tid) (timer_head s) = timer_head s"
    using none assms(1) by (simp add: timers_inv_def filter_id_conv)
  ultimately show ?thesis using assms(2) by (auto simp: fun_upd_idem)
next
  fix i assume i: "i \<in> live_slots (timer_arena s)" "tm_id (timer_arena s ! i) = tid"
    and eq: "macsurf_js_cleartimeout tid s = s\<lparr>timer_head := remove1 i (timer_head s),
              timer_stash := (timer_stash s)(tid := None),
              timer_arena := (timer_arena s)[i := (timer_arena s ! i)\<lparr>tm_live := False\<rparr>]\<rparr>"
  have len: "length (timer_arena s) = MACSURF_JS_MAX_TIMERS" "i < MACSURF_JS_MAX_TIMERS"
    using assms(1) i by (auto simp: timers_inv_def live_slots_def)
  have uniq: "j \<in> live_slots (timer_arena s) \<Longrightarrow> tm_id (timer_arena s ! j) = tid \<longleftrightarrow> j = i" for j
    using assms(1) i by (auto simp: timers_inv_def inj_on_def)
  have "distinct (timer_head s)" "set (timer_head s) = live_slots (timer_arena s)"
    using assms(1) by (auto simp: timers_inv_def)
  then have "remove1 i (timer_head s) = filter (\<lambda>j. tm_id (timer_arena s ! j) \<noteq> tid) (timer_head s)"
    using uniq by (auto simp: distinct_remove1_removeAll removeAll_filter_not_eq intro!: filter_cong)
  then show ?thesis using len uniq assms(2) by (auto simp: eq)
qed

theorem macsurf_js_cleartimeout_functional_witness:
  defines "s \<equiv> snd (macsurf_js_settimeout (Some ''f'') (Some 500) timers_init)"
  shows "live_slots (timer_arena (macsurf_js_cleartimeout 1 s)) = {i \<in> live_slots (timer_arena s). tm_id (timer_arena s ! i) \<noteq> 1}"
proof -
  have "timers_inv s"
    using timer_create_inv [OF timers_inv_init init_room] by (simp add: s_def macsurf_js_settimeout_def)
  from macsurf_js_cleartimeout_functional [OF this refl, of 1] show ?thesis by blast
qed


text \<open>
  While the clock stands still and callbacks are passive, one pump call returns after
  firing at most one timer: the head of the armed list if it is due, nothing otherwise. A
  one-shot timer that fired is gone together with its callback; a repeating one is armed
  again at now plus its interval. Without a JavaScript context nothing happens.
\<close>

theorem macsurf_js_run_timers_frozen_clock:
  assumes "timers_inv s" and "passive_call pcall" and "\<And>fn x. mac_secs (pcall fn x) = mac_secs x"
    and "now = macsurf_js_get_now s"
  shows "macsurf_js_run_timers False pcall s = Some s
    \<and> (case timer_head s of
         [] \<Rightarrow> macsurf_js_run_timers True pcall s = Some s
       | t # r \<Rightarrow>
           (if now < tm_expiry_ms (timer_arena s ! t) then macsurf_js_run_timers True pcall s = Some s
            else \<exists>s'. macsurf_js_run_timers True pcall s = Some s' \<and> timers_inv s'
              \<and> (if tm_repeating (timer_arena s ! t)
                 then tm_expiry_ms (timer_arena s' ! t) = now + tm_interval_ms (timer_arena s ! t)
                      \<and> set (timer_head s') = set (timer_head s) \<and> timer_stash s' = timer_stash s
                 else timer_head s' = r \<and> timer_stash s' = (timer_stash s)(tm_id (timer_arena s ! t) := None))))"
proof (cases "timer_head s")
  case Nil
  then show ?thesis by (simp add: macsurf_js_run_timers_def run_timers_loop.simps)
next
  case (Cons t r)
  note f = timer_fire_passive [OF assms(1,2) Cons, of now]
  let ?s' = "timer_fire pcall now t s"
  have t: "t < length (timer_arena s)" using assms(1) Cons by (auto simp: timers_inv_def live_slots_def)
  have "mac_secs ?s' = mac_secs s" using f(5) assms(3) by auto
  then have still: "macsurf_js_get_now ?s' = now" by (simp add: assms(4) macsurf_js_get_now_def)
  have run: "macsurf_js_run_timers True pcall s =
      (if now < tm_expiry_ms (timer_arena s ! t) then Some s else Some ?s')"
  proof -
    have "macsurf_js_run_timers True pcall s = run_timers_loop pcall now s"
      by (simp add: macsurf_js_run_timers_def assms(4))
    then show ?thesis using Cons still by (simp add: run_timers_loop.simps [of pcall now s] Let_def not_less)
  qed
  have "timers_inv ?s'" by (rule timer_fire_inv [OF assms(1,2) Cons])
  then show ?thesis
    using Cons run f(1,2,4) t by (auto simp: macsurf_js_run_timers_def tq.set_ins)
qed

theorem macsurf_js_run_timers_frozen_clock_witness:
  "macsurf_js_run_timers False (\<lambda>fn s. s) (timers_init :: string timers) = Some timers_init"
  using macsurf_js_run_timers_frozen_clock [of "timers_init :: string timers" "\<lambda>fn s. s"]
  by (simp add: timers_inv_init passive_call_def)

text \<open>A due repeating timer with interval 0 that is armed keeps the list head due.\<close>

definition zero_interval_due :: "real \<Rightarrow> nat \<Rightarrow> ('f, 'w) timers_scheme \<Rightarrow> bool" where
  "zero_interval_due now t s \<longleftrightarrow> timers_inv s \<and> t \<in> set (timer_head s) \<and> tm_repeating (timer_arena s ! t)
     \<and> tm_interval_ms (timer_arena s ! t) = 0 \<and> tm_expiry_ms (timer_arena s ! t) \<le> now"

lemma zero_interval_head_due:
  assumes "zero_interval_due now t s"
  shows "\<exists>h r. timer_head s = h # r \<and> tm_expiry_ms (timer_arena s ! h) \<le> now"
proof -
  obtain h r where h: "timer_head s = h # r" using assms by (cases "timer_head s") (auto simp: zero_interval_due_def)
  moreover have "tm_expiry_ms (timer_arena s ! h) \<le> tm_expiry_ms (timer_arena s ! t)"
    using assms h by (auto simp: zero_interval_due_def timers_inv_def)
  ultimately show ?thesis using assms by (auto simp: zero_interval_due_def intro: order_trans)
qed

lemma zero_interval_fire:
  assumes z: "zero_interval_due now t s" and p: "passive_call pcall" and h: "timer_head s = h # r"
  shows "zero_interval_due now t (timer_fire pcall now h s)"
proof -
  have inv: "timers_inv s" using z by (simp add: zero_interval_due_def)
  note f = timer_fire_passive [OF inv p h, of now]
  have len: "h < length (timer_arena s)" using inv h by (auto simp: timers_inv_def live_slots_def)
  have t: "t = h \<or> t \<in> set r" using z h by (auto simp: zero_interval_due_def)
  show ?thesis
    using z timer_fire_inv [OF inv p h] t len
    by (cases "t = h") (auto simp: zero_interval_due_def f(1,2) tq.set_ins nth_list_update)
qed

lemma zero_interval_loops:
  assumes p: "passive_call pcall" and clock: "\<And>fn x. now < macsurf_js_get_now (pcall fn x)"
    and z: "zero_interval_due now t s"
  shows "run_timers_loop pcall now s = None"
proof (rule ccontr)
  assume "run_timers_loop pcall now s \<noteq> None"
  then obtain s' where "run_timers_loop pcall now s = Some s'" by blast
  then have "passive_call pcall \<longrightarrow> (\<forall>fn x. now < macsurf_js_get_now (pcall fn x)) \<longrightarrow> \<not> zero_interval_due now t s"
  proof (rule run_timers_loop.raw_induct [where P = "\<lambda>pcall now s s'. passive_call pcall \<longrightarrow>
      (\<forall>fn x. now < macsurf_js_get_now (pcall fn x)) \<longrightarrow> \<not> zero_interval_due now t s", rotated])
    fix f :: "('a \<Rightarrow> ('a, 'b) timers_scheme \<Rightarrow> ('a, 'b) timers_scheme) \<Rightarrow> real
        \<Rightarrow> ('a, 'b) timers_scheme \<Rightarrow> ('a, 'b) timers_scheme option"
      and pcall :: "'a \<Rightarrow> ('a, 'b) timers_scheme \<Rightarrow> ('a, 'b) timers_scheme"
      and now and s s' :: "('a, 'b) timers_scheme"
    assume IH: "\<And>pcall now s s'. f pcall now s = Some s' \<Longrightarrow> passive_call pcall \<longrightarrow>
         (\<forall>fn x. now < macsurf_js_get_now (pcall fn x)) \<longrightarrow> \<not> zero_interval_due now t s"
      and eq: "(case timer_head s of [] \<Rightarrow> Some s
         | t # _ \<Rightarrow> if tm_expiry_ms (timer_arena s ! t) \<le> now
             then let s' = timer_fire pcall now t s
                  in if macsurf_js_get_now s' \<le> now then Some s' else f pcall now s'
             else Some s) = Some s'"
    show "passive_call pcall \<longrightarrow> (\<forall>fn x. now < macsurf_js_get_now (pcall fn x)) \<longrightarrow> \<not> zero_interval_due now t s"
    proof (intro impI notI)
      assume p: "passive_call pcall" and clock: "\<forall>fn x. now < macsurf_js_get_now (pcall fn x)"
        and z: "zero_interval_due now t s"
      obtain h r where h: "timer_head s = h # r" "tm_expiry_ms (timer_arena s ! h) \<le> now"
        using zero_interval_head_due [OF z] by blast
      have inv: "timers_inv s" using z by (simp add: zero_interval_due_def)
      obtain fn where "mac_secs (timer_fire pcall now h s) = mac_secs (pcall fn (s\<lparr>timer_head := r\<rparr>))"
        using timer_fire_passive(5) [OF inv p h(1), of now] by blast
      then have "\<not> macsurf_js_get_now (timer_fire pcall now h s) \<le> now"
        using clock by (simp add: macsurf_js_get_now_def not_le)
      then have "f pcall now (timer_fire pcall now h s) = Some s'" using eq h by (simp add: Let_def)
      from IH [OF this] p clock zero_interval_fire [OF z p h(1)] show False by blast
    qed
  qed
  with assms show False by blast
qed

text \<open>
  C5. The clock check at the end of the loop does not stop a \<open>setInterval\<close> with delay 0 from
  holding the event loop: once time has moved past the start of the pump (a full second, the
  resolution of the clock), a due zero-interval timer whose callback clears nothing makes
  \<open>macsurf_js_run_timers\<close> never return, whatever other timers are armed.
\<close>

theorem macsurf_js_run_timers_zero_interval_hangs:
  assumes "zero_interval_due (macsurf_js_get_now s) t s" and "passive_call pcall"
    and "\<And>fn x. macsurf_js_get_now s < macsurf_js_get_now (pcall fn x)"
  shows "macsurf_js_run_timers True pcall s = None"
  using zero_interval_loops [OF assms(2,3,1)] by (simp add: macsurf_js_run_timers_def)

lemma init_alloc: "timer_alloc (timer_arena timers_init) = 0"
  by (simp add: timer_alloc_def timers_init_def MACSURF_JS_MAX_TIMERS_def upt_rec)

theorem macsurf_js_run_timers_zero_interval_hangs_witness:
  defines "s \<equiv> snd (macsurf_js_setinterval (Some ''tick'') (Some 0) timers_init)"
  shows "macsurf_js_run_timers True (\<lambda>fn x. x\<lparr>mac_secs := MACSURF_MAC_EPOCH_OFFSET + 1\<rparr>) s = None"
proof (rule macsurf_js_run_timers_zero_interval_hangs [where t = 0])
  have "timers_inv s" using timer_create_inv [OF timers_inv_init init_room] by (simp add: s_def macsurf_js_setinterval_def)
  then show "zero_interval_due (macsurf_js_get_now s) 0 s"
    unfolding s_def macsurf_js_setinterval_def timer_create_def option.case Let_def init_alloc
    by (simp add: zero_interval_due_def timers_init_def MACSURF_JS_MAX_TIMERS_def timer_list_insert_def
        timer_stash_put_def macsurf_js_get_now_def)
  show "macsurf_js_get_now s < macsurf_js_get_now (x\<lparr>mac_secs := MACSURF_MAC_EPOCH_OFFSET + 1\<rparr>)" for x :: "string timers"
    unfolding s_def macsurf_js_setinterval_def timer_create_def option.case Let_def init_alloc
    by (simp add: timers_init_def MACSURF_JS_MAX_TIMERS_def timer_list_insert_def
        timer_stash_put_def macsurf_js_get_now_def)
qed (simp add: passive_call_def)


text \<open>A callback that clears its own interval timer and then sets a one-shot timer.\<close>

definition clear_then_set :: "nat \<Rightarrow> nat timers \<Rightarrow> nat timers" where
  "clear_then_set fn s =
     (if fn = 0 then snd (macsurf_js_settimeout (Some 1) (Some 5000) (macsurf_js_cleartimeout 1 s)) else s)"

text \<open>
  A timer created by a callback can be lost: when the callback of a repeating timer clears
  that timer and then sets a new one, the new timer takes the freed slot (the one the pump is
  still working on), and the pump then deletes the new timer's callback and marks the slot
  free while it stays linked. Here id 2 is set for 5000 ms and its callback is gone when
  the pump returns.
\<close>

theorem macsurf_js_run_timers_loses_timer:
  "\<exists>s'. macsurf_js_run_timers True clear_then_set
       (snd (macsurf_js_setinterval (Some 0) (Some 0) timers_init)) = Some s'
     \<and> timer_next_id s' = 3 \<and> timer_stash s' 2 = None \<and> timer_head s' = [0]
     \<and> \<not> tm_live (timer_arena s' ! 0) \<and> \<not> timers_inv s'"
proof -
  let ?run = "macsurf_js_run_timers True clear_then_set
       (snd (macsurf_js_setinterval (Some 0) (Some 0) (timers_init :: nat timers)))"
  have "map_option (\<lambda>s'. (timer_next_id s', timer_stash s' 2, timer_head s', tm_live (timer_arena s' ! 0))) ?run
      = Some (3, None, [0], False)" by code_simp
  then obtain s' where s': "?run = Some s'" "timer_next_id s' = 3" "timer_stash s' 2 = None" "timer_head s' = [0]"
    "\<not> tm_live (timer_arena s' ! 0)" by auto
  then have "\<not> timers_inv s'" by (auto simp: timers_inv_def live_slots_def)
  with s' show ?thesis by blast
qed

end
