(* ===== verification/FetchCore.thy ===== *)
theory FetchCore
  imports MS_Prelude
begin

text \<open>
  What the HTTP and the HTTPS fetcher share: addresses, the messages a fetcher sends to the
  NetSurf core (\<open>content/fetch.h\<close>), and the discipline of a fetcher that is polled slot by slot.

  The locale \<open>slot_fetcher\<close> states that discipline for one slot: polling a busy slot changes
  only that slot; it leaves the slot busy and sends no terminal message, or it frees the slot
  and the last things it does are one terminal message, \<open>fetch_remove_from_queues\<close> and
  \<open>fetch_free\<close>. From it follows, once for both fetchers, what a poll of all slots does to every
  fetch. Both fetchers interpret the locale.
\<close>

record nsurl =
  url_string :: string
  url_scheme :: "string option"
  url_host :: "string option"
  url_port :: "string option"
  url_path :: "string option"
  url_query :: "string option"

datatype fetch_msg =
    FETCH_HEADER string
  | FETCH_DATA bytes
  | FETCH_FINISHED
  | FETCH_ERROR "string option"
  | FETCH_REDIRECT string

datatype fetch_ev =
    Callback nat fetch_msg
  | SetHttpCode nat int
  | RemoveFromQueues nat
  | FreeFetch nat

section \<open>Event logs\<close>

text \<open>The terminal messages: those after which the core regards a fetch as over.\<close>

fun terminal :: "fetch_msg \<Rightarrow> bool" where
  "terminal (FETCH_HEADER _) = False"
| "terminal (FETCH_DATA _) = False"
| "terminal FETCH_FINISHED = True"
| "terminal (FETCH_ERROR _) = True"
| "terminal (FETCH_REDIRECT _) = True"

text \<open>An event of a fetch that is still running.\<close>

fun running_ev :: "nat \<Rightarrow> fetch_ev \<Rightarrow> bool" where
  "running_ev p (Callback q m) \<longleftrightarrow> q = p \<and> \<not> terminal m"
| "running_ev p (SetHttpCode q _) \<longleftrightarrow> q = p"
| "running_ev p (RemoveFromQueues _) = False"
| "running_ev p (FreeFetch _) = False"

text \<open>The log grows by events of a running fetch, or by events that end it.\<close>

definition runs :: "nat \<Rightarrow> fetch_ev list \<Rightarrow> fetch_ev list \<Rightarrow> bool" where
  "runs p l l' \<longleftrightarrow> (\<exists>evs. l' = l @ evs \<and> (\<forall>e \<in> set evs. running_ev p e))"

definition ends :: "nat \<Rightarrow> fetch_ev list \<Rightarrow> fetch_ev list \<Rightarrow> bool" where
  "ends p l l' \<longleftrightarrow> (\<exists>evs m. l' = l @ evs @ [Callback p m, RemoveFromQueues p, FreeFetch p]
     \<and> terminal m \<and> (\<forall>e \<in> set evs. running_ev p e))"

lemma runs_refl [simp]: "runs p l l"
  by (simp add: runs_def)

lemma runs_append [simp]: "\<forall>e \<in> set evs. running_ev p e \<Longrightarrow> runs p l (l @ evs)"
  by (auto simp: runs_def)

lemma runs_trans: "runs p l l1 \<Longrightarrow> runs p l1 l2 \<Longrightarrow> runs p l l2"
  by (auto simp: runs_def)

lemma runs_ends: "runs p l l1 \<Longrightarrow> ends p l1 l2 \<Longrightarrow> ends p l l2"
proof -
  assume "runs p l l1" "ends p l1 l2"
  then obtain es evs m where e: "l1 = l @ es" "\<forall>e \<in> set es. running_ev p e" "terminal m"
    "l2 = l1 @ evs @ [Callback p m, RemoveFromQueues p, FreeFetch p]" "\<forall>e \<in> set evs. running_ev p e"
    unfolding runs_def ends_def by blast
  then have "l2 = l @ (es @ evs) @ [Callback p m, RemoveFromQueues p, FreeFetch p]" "\<forall>e \<in> set (es @ evs). running_ev p e" by auto
  then show ?thesis using e(3) unfolding ends_def by blast
qed

lemma ends_intro:
  "terminal m \<Longrightarrow> \<forall>e \<in> set evs. running_ev p e \<Longrightarrow> ends p l (l @ evs @ [Callback p m, RemoveFromQueues p, FreeFetch p])"
  unfolding ends_def by blast

text \<open>How many terminal messages and how many releases a fetch gets in a list of events.\<close>

definition terminals :: "nat \<Rightarrow> fetch_ev list \<Rightarrow> nat" where
  "terminals p evs = length (filter (\<lambda>e. case e of Callback q m \<Rightarrow> q = p \<and> terminal m | _ \<Rightarrow> False) evs)"

definition releases :: "nat \<Rightarrow> fetch_ev list \<Rightarrow> nat" where
  "releases p evs = length (filter (\<lambda>e. e = FreeFetch p) evs)"

lemma count_append [simp]:
  "terminals p (a @ b) = terminals p a + terminals p b" "releases p (a @ b) = releases p a + releases p b"
  "terminals p [] = 0" "releases p [] = 0"
  by (simp_all add: terminals_def releases_def)

lemma running_none: "\<forall>e \<in> set evs. running_ev q e \<Longrightarrow> terminals p evs = 0 \<and> releases p evs = 0"
proof (induction evs)
  case (Cons e evs)
  then show ?case by (cases e) (auto simp: terminals_def releases_def)
qed simp

lemma runs_counts:
  "runs q l l' \<Longrightarrow> \<exists>evs. l' = l @ evs \<and> (\<forall>p. terminals p evs = 0 \<and> releases p evs = 0)"
  using running_none by (fastforce simp: runs_def)

lemma ends_counts:
  assumes "ends q l l'"
  shows "\<exists>evs. l' = l @ evs \<and> (\<forall>p. terminals p evs = (if p = q then 1 else 0) \<and> releases p evs = (if p = q then 1 else 0))"
proof -
  obtain es m where e: "l' = l @ es @ [Callback q m, RemoveFromQueues q, FreeFetch q]" "terminal m" "\<forall>e \<in> set es. running_ev q e"
    using assms by (auto simp: ends_def)
  show ?thesis
    by (intro exI [of _ "es @ [Callback q m, RemoveFromQueues q, FreeFetch q]"])
      (use e running_none [OF e(3)] in \<open>auto simp: terminals_def releases_def\<close>)
qed

text \<open>
  The events of a disciplined fetcher that has the fetches \<open>L\<close>: only they are spoken of, and each
  is released at most once, right after a terminal message, and never spoken of again.
\<close>

inductive deliveries :: "nat set \<Rightarrow> fetch_ev list \<Rightarrow> bool" where
  none: "deliveries L []"
| running: "p \<in> L \<Longrightarrow> running_ev p e \<Longrightarrow> deliveries L es \<Longrightarrow> deliveries L (e # es)"
| ending: "p \<in> L \<Longrightarrow> terminal m \<Longrightarrow> deliveries (L - {p}) es
    \<Longrightarrow> deliveries L (Callback p m # RemoveFromQueues p # FreeFetch p # es)"

lemma deliveries_running: "\<forall>e \<in> set evs. running_ev p e \<Longrightarrow> p \<in> L \<Longrightarrow> deliveries L es \<Longrightarrow> deliveries L (evs @ es)"
  by (induction evs) (auto intro: deliveries.running)

text \<open>The messages in a list of events, and the releases.\<close>

fun said :: "fetch_ev list \<Rightarrow> (nat \<times> fetch_msg) list" where
  "said [] = []"
| "said (Callback f m # es) = (f, m) # said es"
| "said (_ # es) = said es"

fun let_go :: "fetch_ev list \<Rightarrow> nat list" where
  "let_go [] = []"
| "let_go (FreeFetch f # es) = f # let_go es"
| "let_go (_ # es) = let_go es"

lemma said_append [simp]: "said (a @ b) = said a @ said b" by (induction a rule: said.induct) simp_all
lemma let_go_append [simp]: "let_go (a @ b) = let_go a @ let_go b" by (induction a rule: let_go.induct) simp_all

lemma running_lets_none_go: "\<forall>e \<in> set evs. running_ev p e \<Longrightarrow> let_go evs = []"
  by (induction evs rule: let_go.induct) auto

section \<open>Slots\<close>

text \<open>Only slot \<open>i\<close> differs, and its owner does not.\<close>

definition slot_frame :: "('c \<Rightarrow> nat) \<Rightarrow> nat \<Rightarrow> 'c list \<Rightarrow> 'c list \<Rightarrow> bool" where
  "slot_frame owner i cs cs' \<longleftrightarrow> length cs' = length cs \<and> (\<forall>j. j \<noteq> i \<longrightarrow> cs' ! j = cs ! j) \<and> owner (cs' ! i) = owner (cs ! i)"

lemma slot_frame_refl [simp]: "slot_frame owner i cs cs"
  by (simp add: slot_frame_def)

lemma slot_frame_trans: "slot_frame owner i cs cs1 \<Longrightarrow> slot_frame owner i cs1 cs2 \<Longrightarrow> slot_frame owner i cs cs2"
  by (simp add: slot_frame_def)

lemma slot_frame_update: "i < length cs \<Longrightarrow> owner c = owner (cs ! i) \<Longrightarrow> slot_frame owner i cs (cs[i := c])"
  by (simp add: slot_frame_def)

text \<open>Every slot is busy or idle and satisfies the slot invariant; different busy slots have different owners.\<close>

definition slots_wf :: "('c \<Rightarrow> bool) \<Rightarrow> ('c \<Rightarrow> bool) \<Rightarrow> ('c \<Rightarrow> nat) \<Rightarrow> ('c \<Rightarrow> bool) \<Rightarrow> 'c list \<Rightarrow> bool" where
  "slots_wf busy idle owner sinv cs \<longleftrightarrow> (\<forall>i < length cs. sinv (cs ! i) \<and> (busy (cs ! i) \<or> idle (cs ! i)))
     \<and> (\<forall>i < length cs. \<forall>j < length cs. i \<noteq> j \<longrightarrow> busy (cs ! i) \<longrightarrow> busy (cs ! j) \<longrightarrow> owner (cs ! i) \<noteq> owner (cs ! j))"

text \<open>
  Every fetch that held a slot gets one terminal message and one release if its slot is now
  idle, and none otherwise; a fetch that held no slot gets none.
\<close>

definition settled :: "('c \<Rightarrow> bool) \<Rightarrow> ('c \<Rightarrow> bool) \<Rightarrow> ('c \<Rightarrow> nat) \<Rightarrow> 'c list \<Rightarrow> fetch_ev list \<Rightarrow> 'c list \<Rightarrow> nat \<Rightarrow> bool" where
  "settled busy idle owner cs evs cs' j \<longleftrightarrow> (busy (cs ! j) \<longrightarrow>
     (let ended = (if idle (cs' ! j) then 1 else 0) in
        terminals (owner (cs ! j)) evs = ended \<and> releases (owner (cs ! j)) evs = ended))"

definition strangers :: "('c \<Rightarrow> bool) \<Rightarrow> ('c \<Rightarrow> nat) \<Rightarrow> 'c list \<Rightarrow> fetch_ev list \<Rightarrow> bool" where
  "strangers busy owner cs evs \<longleftrightarrow> (\<forall>p. (\<forall>j < length cs. busy (cs ! j) \<longrightarrow> owner (cs ! j) \<noteq> p)
     \<longrightarrow> terminals p evs = 0 \<and> releases p evs = 0)"

definition all_settled :: "('c \<Rightarrow> bool) \<Rightarrow> ('c \<Rightarrow> bool) \<Rightarrow> ('c \<Rightarrow> nat) \<Rightarrow> 'c list \<Rightarrow> fetch_ev list \<Rightarrow> 'c list \<Rightarrow> bool" where
  "all_settled busy idle owner cs evs cs' \<longleftrightarrow> (\<forall>j < length cs. settled busy idle owner cs evs cs' j) \<and> strangers busy owner cs evs"

text \<open>The fetches that hold a slot.\<close>

definition busy_owners :: "('c \<Rightarrow> bool) \<Rightarrow> ('c \<Rightarrow> nat) \<Rightarrow> 'c list \<Rightarrow> nat set" where
  "busy_owners busy owner cs = {owner (cs ! j) |j. j < length cs \<and> busy (cs ! j)}"

text \<open>Polling a list of slots.\<close>

fun poll_all :: "(nat \<Rightarrow> 'w \<Rightarrow> 'w option) \<Rightarrow> nat list \<Rightarrow> 'w \<Rightarrow> 'w option" where
  "poll_all poll [] w = Some w"
| "poll_all poll (i # is) w = Option.bind (poll i w) (poll_all poll is)"

section \<open>The discipline of a polled fetcher\<close>

locale slot_fetcher =
  fixes slots :: "'w \<Rightarrow> 'c list" and evlog :: "'w \<Rightarrow> fetch_ev list"
    and busy :: "'c \<Rightarrow> bool" and idle :: "'c \<Rightarrow> bool" and owner :: "'c \<Rightarrow> nat" and sinv :: "'c \<Rightarrow> bool"
    and poll :: "nat \<Rightarrow> 'w \<Rightarrow> 'w option"
  assumes busy_not_idle: "busy c \<Longrightarrow> \<not> idle c"
    and poll_idle: "idle (slots w ! i) \<Longrightarrow> poll i w = Some w"
    and poll_frame: "poll i w = Some w' \<Longrightarrow> i < length (slots w) \<Longrightarrow> busy (slots w ! i) \<Longrightarrow> sinv (slots w ! i)
       \<Longrightarrow> slot_frame owner i (slots w) (slots w') \<and> sinv (slots w' ! i)"
    and poll_outcome: "poll i w = Some w' \<Longrightarrow> i < length (slots w) \<Longrightarrow> busy (slots w ! i) \<Longrightarrow> sinv (slots w ! i)
       \<Longrightarrow> busy (slots w' ! i) \<and> runs (owner (slots w ! i)) (evlog w) (evlog w')
         \<or> idle (slots w' ! i) \<and> ends (owner (slots w ! i)) (evlog w) (evlog w')"
begin

lemma poll_settles:
  assumes "poll i w = Some w1" "i < length (slots w)" "slots_wf busy idle owner sinv (slots w)"
  shows "slot_frame owner i (slots w) (slots w1) \<and> slots_wf busy idle owner sinv (slots w1)
     \<and> (\<exists>evs. evlog w1 = evlog w @ evs \<and> all_settled busy idle owner (slots w) evs (slots w1))"
proof (cases "busy (slots w ! i)")
  case False
  then have "w1 = w" using assms poll_idle [of w i] by (auto simp: slots_wf_def)
  then show ?thesis using assms(3) busy_not_idle
    by (auto simp: all_settled_def settled_def strangers_def)
next
  case True
  have si: "sinv (slots w ! i)" using assms(2,3) by (simp add: slots_wf_def)
  note fr = poll_frame [OF assms(1,2) True si] and oc = poll_outcome [OF assms(1,2) True si]
  have oth: "j \<noteq> i \<Longrightarrow> slots w1 ! j = slots w ! j" for j using fr by (simp add: slot_frame_def)
  have len: "length (slots w1) = length (slots w)" and own: "owner (slots w1 ! i) = owner (slots w ! i)"
    using fr by (simp_all add: slot_frame_def)
  have dist: "owner (slots w ! j) \<noteq> owner (slots w ! i)" if "j < length (slots w)" "j \<noteq> i" "busy (slots w ! j)" for j
    using assms(2,3) True that by (simp add: slots_wf_def)
  have "(\<forall>j < length (slots w1). sinv (slots w1 ! j) \<and> (busy (slots w1 ! j) \<or> idle (slots w1 ! j)))"
    using oth fr oc assms(3) len unfolding slots_wf_def by metis
  moreover have "owner (slots w1 ! j) \<noteq> owner (slots w1 ! k)"
    if "j < length (slots w1)" "k < length (slots w1)" "j \<noteq> k" "busy (slots w1 ! j)" "busy (slots w1 ! k)" for j k
  proof -
    consider "j = i" | "k = i" | "j \<noteq> i" "k \<noteq> i" by blast
    then show ?thesis
    proof cases
      case 3
      then show ?thesis using that oth [of j] oth [of k] len assms(3) by (simp add: slots_wf_def)
    qed (use that oth dist [of j] dist [of k] own len in auto)
  qed
  ultimately have wf: "slots_wf busy idle owner sinv (slots w1)" by (simp add: slots_wf_def)
  from oc have "\<exists>evs. evlog w1 = evlog w @ evs \<and> all_settled busy idle owner (slots w) evs (slots w1)"
  proof
    assume b: "busy (slots w1 ! i) \<and> runs (owner (slots w ! i)) (evlog w) (evlog w1)"
    then obtain evs where e: "evlog w1 = evlog w @ evs" "\<And>p. terminals p evs = 0 \<and> releases p evs = 0" using runs_counts by blast
    have "settled busy idle owner (slots w) evs (slots w1) j" for j
      using e(2) b busy_not_idle oth [of j] by (cases "j = i") (auto simp: settled_def)
    then show ?thesis using e by (auto simp: all_settled_def strangers_def)
  next
    assume b: "idle (slots w1 ! i) \<and> ends (owner (slots w ! i)) (evlog w) (evlog w1)"
    then obtain evs where e: "evlog w1 = evlog w @ evs" "\<And>p. terminals p evs = (if p = owner (slots w ! i) then 1 else 0)"
      "\<And>p. releases p evs = (if p = owner (slots w ! i) then 1 else 0)" using ends_counts by blast
    have "settled busy idle owner (slots w) evs (slots w1) j" if "j < length (slots w)" for j
      using e(2,3) b busy_not_idle oth [of j] dist [of j] that by (cases "j = i") (auto simp: settled_def)
    moreover have "strangers busy owner (slots w) evs" using e(2,3) assms(2) True by (auto simp: strangers_def)
    ultimately show ?thesis using e(1) by (auto simp: all_settled_def)
  qed
  then show ?thesis using fr wf by blast
qed

lemma poll_all_settles:
  assumes "poll_all poll is w = Some w'" "distinct is" "\<forall>i \<in> set is. i < length (slots w)" "slots_wf busy idle owner sinv (slots w)"
  shows "slots_wf busy idle owner sinv (slots w') \<and> length (slots w') = length (slots w)
     \<and> (\<forall>j. j \<notin> set is \<longrightarrow> slots w' ! j = slots w ! j) \<and> (\<forall>j. owner (slots w' ! j) = owner (slots w ! j))
     \<and> (\<exists>evs. evlog w' = evlog w @ evs \<and> all_settled busy idle owner (slots w) evs (slots w'))"
  using assms
proof (induction "is" arbitrary: w)
  case Nil
  then show ?case using busy_not_idle by (auto simp: all_settled_def settled_def strangers_def)
next
  case (Cons i "is")
  obtain w1 where w1: "poll i w = Some w1" "poll_all poll is w1 = Some w'"
    using Cons.prems(1) by (auto simp: bind_eq_Some_conv)
  have il: "i < length (slots w)" using Cons.prems(3) by simp
  note s1 = poll_settles [OF w1(1) il Cons.prems(4)]
  then obtain e1 where e1: "evlog w1 = evlog w @ e1" "all_settled busy idle owner (slots w) e1 (slots w1)" by blast
  have fr: "slot_frame owner i (slots w) (slots w1)" and wf1: "slots_wf busy idle owner sinv (slots w1)" using s1 by auto
  have len: "length (slots w1) = length (slots w)" using fr by (simp add: slot_frame_def)
  have oth: "j \<noteq> i \<Longrightarrow> slots w1 ! j = slots w ! j" for j using fr by (simp add: slot_frame_def)
  have own: "owner (slots w1 ! j) = owner (slots w ! j)" for j using fr by (cases "j = i") (auto simp: slot_frame_def)
  have r: "slots_wf busy idle owner sinv (slots w')" "length (slots w') = length (slots w1)"
    "\<forall>j. j \<notin> set is \<longrightarrow> slots w' ! j = slots w1 ! j" "\<forall>j. owner (slots w' ! j) = owner (slots w1 ! j)"
    "\<exists>e2. evlog w' = evlog w1 @ e2 \<and> all_settled busy idle owner (slots w1) e2 (slots w')"
    using Cons.IH [OF w1(2)] Cons.prems(2,3) wf1 len by auto
  obtain e2 where e2: "evlog w' = evlog w1 @ e2" "all_settled busy idle owner (slots w1) e2 (slots w')" using r(5) by blast
  have busy1: "busy (slots w1 ! k) \<Longrightarrow> busy (slots w ! k)" if "k < length (slots w)" for k
  proof (cases "k = i")
    case True
    assume b: "busy (slots w1 ! k)"
    show ?thesis
    proof (rule ccontr)
      assume "\<not> busy (slots w ! k)"
      then have "idle (slots w ! i)" using True Cons.prems(4) il by (auto simp: slots_wf_def)
      then have "w1 = w" using poll_idle w1(1) by simp
      then show False using b \<open>\<not> busy (slots w ! k)\<close> by simp
    qed
  qed (use oth in simp)
  have "settled busy idle owner (slots w) (e1 @ e2) (slots w') j" if j: "j < length (slots w)" for j
  proof (cases "busy (slots w ! j) \<and> \<not> busy (slots w1 ! j)")
    case True
    then have ji: "j = i" using oth by metis
    then have same: "slots w' ! j = slots w1 ! j" using r(3) Cons.prems(2) by simp
    have idle: "idle (slots w1 ! j)" using True wf1 j len by (auto simp: slots_wf_def)
    have "owner (slots w1 ! k) \<noteq> owner (slots w ! j)" if "k < length (slots w1)" "busy (slots w1 ! k)" for k
      using that True busy1 [of k] j len own [of k] Cons.prems(4) unfolding slots_wf_def by (metis (no_types))
    then have "terminals (owner (slots w ! j)) e2 = 0 \<and> releases (owner (slots w ! j)) e2 = 0"
      using e2(2) by (simp add: all_settled_def strangers_def)
    then show ?thesis using e1(2) j True same by (simp add: all_settled_def settled_def Let_def)
  next
    case False
    then have "busy (slots w ! j) \<Longrightarrow> busy (slots w1 ! j) \<and> \<not> idle (slots w1 ! j)" using busy_not_idle by blast
    then show ?thesis using e1(2) e2(2) j len own by (auto simp: all_settled_def settled_def Let_def)
  qed
  moreover have "strangers busy owner (slots w) (e1 @ e2)"
    using e1(2) e2(2) busy1 own len unfolding all_settled_def strangers_def by auto
  ultimately have "\<exists>evs. evlog w' = evlog w @ evs \<and> all_settled busy idle owner (slots w) evs (slots w')"
    using e1(1) e2(1) by (intro exI [of _ "e1 @ e2"]) (simp add: all_settled_def)
  then show ?case using r oth own len Cons.prems(2) by auto
qed

text \<open>The events of a poll are those of a disciplined fetcher.\<close>

lemma poll_delivers:
  assumes "poll i w = Some w1" "i < length (slots w)" "slots_wf busy idle owner sinv (slots w)"
    and "deliveries (busy_owners busy owner (slots w1)) es"
  shows "\<exists>evs. evlog w1 = evlog w @ evs \<and> deliveries (busy_owners busy owner (slots w)) (evs @ es)
     \<and> busy_owners busy owner (slots w1) = busy_owners busy owner (slots w) - set (let_go evs)"
proof (cases "busy (slots w ! i)")
  case False
  then have "w1 = w" using assms(1-3) poll_idle [of w i] by (auto simp: slots_wf_def)
  then show ?thesis using assms(4) by (intro exI [of _ "[]"]) simp
next
  case True
  let ?p = "owner (slots w ! i)" and ?L = "busy_owners busy owner (slots w)"
  have si: "sinv (slots w ! i)" using assms(2,3) by (simp add: slots_wf_def)
  note fr = poll_frame [OF assms(1,2) True si] and oc = poll_outcome [OF assms(1,2) True si]
  have oth: "j \<noteq> i \<Longrightarrow> slots w1 ! j = slots w ! j" for j using fr by (simp add: slot_frame_def)
  have len: "length (slots w1) = length (slots w)" and own: "owner (slots w1 ! i) = ?p" using fr by (simp_all add: slot_frame_def)
  have p: "?p \<in> ?L" using True assms(2) by (auto simp: busy_owners_def)
  from oc show ?thesis
  proof
    assume b: "busy (slots w1 ! i) \<and> runs ?p (evlog w) (evlog w1)"
    then obtain evs where e: "evlog w1 = evlog w @ evs" "\<forall>e \<in> set evs. running_ev ?p e" by (auto simp: runs_def)
    have "busy (slots w1 ! j) = busy (slots w ! j) \<and> owner (slots w1 ! j) = owner (slots w ! j)" for j
      using oth [of j] b True own by (cases "j = i") auto
    then have "busy_owners busy owner (slots w1) = ?L" using len by (simp add: busy_owners_def)
    then show ?thesis using e assms(4) p running_lets_none_go [OF e(2)] deliveries_running [OF e(2)] by auto
  next
    assume b: "idle (slots w1 ! i) \<and> ends ?p (evlog w) (evlog w1)"
    then obtain evs m where e: "evlog w1 = evlog w @ evs @ [Callback ?p m, RemoveFromQueues ?p, FreeFetch ?p]" "terminal m"
      "\<forall>e \<in> set evs. running_ev ?p e" by (auto simp: ends_def)
    have dist: "owner (slots w ! j) \<noteq> ?p" if "j < length (slots w)" "j \<noteq> i" "busy (slots w ! j)" for j
      using assms(2,3) True that by (simp add: slots_wf_def)
    have ni: "\<not> busy (slots w1 ! i)" using b busy_not_idle by blast
    have "(\<exists>j < length (slots w1). busy (slots w1 ! j) \<and> q = owner (slots w1 ! j)) \<longleftrightarrow>
      (\<exists>j < length (slots w). busy (slots w ! j) \<and> q = owner (slots w ! j)) \<and> q \<noteq> ?p" for q
      using oth ni len dist by metis
    then have L: "busy_owners busy owner (slots w1) = ?L - {?p}" by (auto simp: busy_owners_def)
    have "deliveries ?L (Callback ?p m # RemoveFromQueues ?p # FreeFetch ?p # es)"
      using assms(4) p e(2) unfolding L by (intro deliveries.ending)
    from deliveries_running [OF e(3) p this]
    show ?thesis using e(1) L running_lets_none_go [OF e(3)]
      by (intro exI [of _ "evs @ [Callback ?p m, RemoveFromQueues ?p, FreeFetch ?p]"]) simp
  qed
qed

lemma poll_all_delivers:
  assumes "poll_all poll is w = Some w'" "\<forall>i \<in> set is. i < length (slots w)" "slots_wf busy idle owner sinv (slots w)"
  shows "\<exists>evs. evlog w' = evlog w @ evs \<and> deliveries (busy_owners busy owner (slots w)) evs
     \<and> busy_owners busy owner (slots w') = busy_owners busy owner (slots w) - set (let_go evs)"
  using assms
proof (induction "is" arbitrary: w)
  case Nil
  then show ?case by (intro exI [of _ "[]"]) (simp add: deliveries.none)
next
  case (Cons i "is")
  obtain w1 where w1: "poll i w = Some w1" "poll_all poll is w1 = Some w'" using Cons.prems(1) by (auto simp: bind_eq_Some_conv)
  have il: "i < length (slots w)" using Cons.prems(2) by simp
  from poll_settles [OF w1(1) il Cons.prems(3)]
  have "slots_wf busy idle owner sinv (slots w1)" "\<forall>i \<in> set is. i < length (slots w1)"
    using Cons.prems(2) by (auto simp: slot_frame_def)
  from Cons.IH [OF w1(2) this(2,1)] obtain es
    where es: "evlog w' = evlog w1 @ es" "deliveries (busy_owners busy owner (slots w1)) es"
      "busy_owners busy owner (slots w') = busy_owners busy owner (slots w1) - set (let_go es)" by blast
  from poll_delivers [OF w1(1) il Cons.prems(3) es(2)] obtain evs
    where "evlog w1 = evlog w @ evs" "deliveries (busy_owners busy owner (slots w)) (evs @ es)"
      "busy_owners busy owner (slots w1) = busy_owners busy owner (slots w) - set (let_go evs)" by blast
  then show ?case using es by (intro exI [of _ "evs @ es"]) auto
qed

end

end
