(* ===== verification/DiskCache.thy ===== *)
theory DiskCache
  imports MS_Prelude
begin

text \<open>
  The persistent body cache of \<open>frontends/macos9/macos9_disk_cache.c\<close>, shared by the HTTP and
  HTTPS fetchers: one file per URL, named by a 32-bit FNV-1a hash of the URL, holding a 24-byte
  header, the MIME string and the body; and the persisted dead-host list kept beside it.

  The Mac OS File Manager is not part of the program. Its calls are the fields of the record
  \<open>file_manager\<close>, over an arbitrary file system state \<open>'fs\<close>, and every function that uses it
  takes it as an argument. \<open>fm_laws\<close> states what the code relies on, for a volume without I/O
  errors, through three observations of the state: the data fork of a file, the directory id of
  a folder, and the file and mark of an open path. \<open>malloc_ok\<close> says whether \<open>malloc\<close> of the
  given size succeeds.
\<close>

section \<open>The File Manager interface\<close>

datatype oserr = noErr | fnfErr | eofErr | ioErr

record fsspec =
  spec_vref :: int
  spec_parid :: int
  spec_name :: string

datatype permission = fsRdPerm | fsWrPerm | fsRdWrPerm

record 'fs file_manager =
  FindFolder :: "'fs \<Rightarrow> oserr \<times> int \<times> int"
  FSMakeFSSpec :: "int \<Rightarrow> int \<Rightarrow> string \<Rightarrow> 'fs \<Rightarrow> oserr \<times> fsspec"
  FSpDirCreate :: "fsspec \<Rightarrow> 'fs \<Rightarrow> oserr \<times> 'fs"
  PBGetCatInfo :: "fsspec \<Rightarrow> 'fs \<Rightarrow> oserr \<times> int"
  FSpCreate :: "fsspec \<Rightarrow> 'fs \<Rightarrow> oserr \<times> 'fs"
  FSpDelete :: "fsspec \<Rightarrow> 'fs \<Rightarrow> oserr \<times> 'fs"
  FSpOpenDF :: "permission \<Rightarrow> fsspec \<Rightarrow> 'fs \<Rightarrow> oserr \<times> int \<times> 'fs"
  SetFPos :: "int \<Rightarrow> nat \<Rightarrow> 'fs \<Rightarrow> 'fs"
  FSRead :: "int \<Rightarrow> nat \<Rightarrow> 'fs \<Rightarrow> oserr \<times> bytes \<times> 'fs"
  FSWrite :: "int \<Rightarrow> bytes \<Rightarrow> 'fs \<Rightarrow> oserr \<times> 'fs"
  SetEOF :: "int \<Rightarrow> nat \<Rightarrow> 'fs \<Rightarrow> 'fs"
  FSClose :: "int \<Rightarrow> 'fs \<Rightarrow> 'fs"
  FlushVol :: "int \<Rightarrow> 'fs \<Rightarrow> 'fs"

section \<open>Constants, hash, file name and header\<close>

definition MACSURF_CACHE_MAX_BYTES :: int where
  "MACSURF_CACHE_MAX_BYTES = 1 * 1024 * 1024"

definition MACSURF_CACHE_MAGIC :: bytes where
  "MACSURF_CACHE_MAGIC = ''MSCACHE'' @ [CHR 0x01]"

definition fnv_step :: "32 word \<Rightarrow> char \<Rightarrow> 32 word" where
  "fnv_step h p = (h XOR of_nat (of_char p)) * 0x01000193"

definition cache_hash_url :: "string option \<Rightarrow> 32 word" where
  "cache_hash_url url = (case url of None \<Rightarrow> 0x811c9dc5 | Some u \<Rightarrow> foldl fnv_step 0x811c9dc5 u)"

definition hex_digit :: "nat \<Rightarrow> char" where
  "hex_digit n = ''0123456789abcdef'' ! n"

definition cache_filename_for_url :: "string option \<Rightarrow> string" where
  "cache_filename_for_url url =
     (let h = cache_hash_url url
      in ''h_'' @ map (\<lambda>i. hex_digit (unat (drop_bit (28 - i * 4) h AND 0xF))) [0..<8])"

definition cache_write_be32 :: "32 word \<Rightarrow> bytes" where
  "cache_write_be32 v =
     [char_of (unat (drop_bit 24 v AND 0xFF)), char_of (unat (drop_bit 16 v AND 0xFF)),
      char_of (unat (drop_bit 8 v AND 0xFF)), char_of (unat (v AND 0xFF))]"

definition cache_read_be32 :: "bytes \<Rightarrow> 32 word" where
  "cache_read_be32 p =
     push_bit 24 (of_nat (of_char (p ! 0))) OR push_bit 16 (of_nat (of_char (p ! 1)))
     OR push_bit 8 (of_nat (of_char (p ! 2))) OR of_nat (of_char (p ! 3))"

section \<open>Eligibility, store and lookup\<close>

definition macos9_cache_mime_eligible :: "int \<Rightarrow> string option \<Rightarrow> bool" where
  "macos9_cache_mime_eligible status mime =
     (if status \<noteq> 200 then False
      else case mime of
        None \<Rightarrow> False
      | Some m \<Rightarrow>
          if m = [] then False
          else if strncmp_eq m ''text/html'' 9 then True
          else if strncmp_eq m ''text/css'' 8 then True
          else if strncmp_eq m ''text/plain'' 10 then True
          else if strncmp_eq m ''application/xhtml'' 17 then True
          else if strncmp_eq m ''application/javascript'' 22 then True
          else if strncmp_eq m ''application/json'' 16 then True
          else False)"

definition cache_header :: "int \<Rightarrow> nat \<Rightarrow> int \<Rightarrow> bytes" where
  "cache_header status mime_len body_len =
     MACSURF_CACHE_MAGIC @ cache_write_be32 (word_of_int status) @ cache_write_be32 (of_nat mime_len)
     @ cache_write_be32 (word_of_int body_len) @ cache_write_be32 0"

text \<open>
  The idiom that finds a file or folder or creates it: the specification is made, on \<open>fnfErr\<close>
  the object is created and the specification made again.
\<close>

definition make_or_create ::
    "'fs file_manager \<Rightarrow> (fsspec \<Rightarrow> 'fs \<Rightarrow> oserr \<times> 'fs) \<Rightarrow> int \<Rightarrow> int \<Rightarrow> string \<Rightarrow> 'fs
      \<Rightarrow> oserr \<times> fsspec \<times> 'fs" where
  "make_or_create fm create vref dir_id fname fs =
     (case FSMakeFSSpec fm vref dir_id fname fs of (err1, spec1) \<Rightarrow>
      if err1 = fnfErr
      then (case create spec1 fs of (err2, fs2) \<Rightarrow>
            if err2 \<noteq> noErr then (err2, spec1, fs2)
            else (case FSMakeFSSpec fm vref dir_id fname fs2 of (err3, spec3) \<Rightarrow> (err3, spec3, fs2)))
      else (err1, spec1, fs))"

text \<open>The folder: found, or created on the Desktop, and its directory id looked up.\<close>

definition cache_dir_get :: "'fs file_manager \<Rightarrow> 'fs \<Rightarrow> oserr \<times> int \<times> int \<times> 'fs" where
  "cache_dir_get fm fs =
     (case FindFolder fm fs of (err, desk_vref, desk_dir) \<Rightarrow>
      if err \<noteq> noErr then (err, 0, 0, fs)
      else
        (case make_or_create fm (FSpDirCreate fm) desk_vref desk_dir ''MacSurf Cache'' fs of (err', spec, fs') \<Rightarrow>
         if err' \<noteq> noErr then (err', 0, 0, fs')
         else (case PBGetCatInfo fm spec fs' of (err4, dir_id) \<Rightarrow>
               if err4 \<noteq> noErr then (err4, 0, 0, fs') else (noErr, spec_vref spec, dir_id, fs'))))"

record 'fs disk_cache =
  dc_fs :: 'fs
  macsurf_http_skip_next_cache :: bool

text \<open>Writing the open file: header, MIME string, body, new end of file.\<close>

definition cache_write_file ::
    "'fs file_manager \<Rightarrow> int \<Rightarrow> int \<Rightarrow> string \<Rightarrow> bytes \<Rightarrow> int \<Rightarrow> 'fs \<Rightarrow> 'fs" where
  "cache_write_file fm ref status mime body body_len fs =
     (let mime_len = min 127 (length mime);
          hdr = cache_header status mime_len body_len;
          fs1 = snd (FSWrite fm ref hdr (SetFPos fm ref 0 fs));
          fs2 = (if mime_len > 0 then snd (FSWrite fm ref (take mime_len mime) fs1) else fs1);
          fs3 = snd (FSWrite fm ref (take (nat body_len) body) fs2)
      in FSClose fm ref (SetEOF fm ref (length hdr + mime_len + nat body_len) fs3))"

definition macos9_cache_store ::
    "'fs file_manager \<Rightarrow> string option \<Rightarrow> int \<Rightarrow> string option \<Rightarrow> bytes option \<Rightarrow> int
      \<Rightarrow> 'fs disk_cache \<Rightarrow> 'fs disk_cache" where
  "macos9_cache_store fm url status mime body_ptr body_len dc =
     (case (url, mime, body_ptr) of
        (Some _, Some m, Some body) \<Rightarrow>
          if body_len \<le> 0 \<or> body_len > MACSURF_CACHE_MAX_BYTES then dc
          else if \<not> macos9_cache_mime_eligible status (Some m) then dc
          else (case cache_dir_get fm (dc_fs dc) of (err, vref, dir_id, fs) \<Rightarrow>
            if err \<noteq> noErr then dc\<lparr>dc_fs := fs\<rparr>
            else (case make_or_create fm (FSpCreate fm) vref dir_id (cache_filename_for_url url) fs of (err', spec, fs') \<Rightarrow>
              if err' \<noteq> noErr then dc\<lparr>dc_fs := fs'\<rparr>
              else (case FSpOpenDF fm fsRdWrPerm spec fs' of (err4, ref, fs4) \<Rightarrow>
                if err4 \<noteq> noErr then dc\<lparr>dc_fs := fs4\<rparr>
                else dc\<lparr>dc_fs := cache_write_file fm ref status m body body_len fs4,
                        macsurf_http_skip_next_cache := False\<rparr>)))
      | _ \<Rightarrow> dc)"

record cache_hit =
  ch_body :: bytes
  ch_mime :: string
  ch_status :: int

text \<open>Reading the open file; \<open>mime_cap\<close> is the size of the caller's MIME buffer.\<close>

definition cache_read_file ::
    "'fs file_manager \<Rightarrow> (nat \<Rightarrow> bool) \<Rightarrow> int \<Rightarrow> nat \<Rightarrow> 'fs \<Rightarrow> cache_hit option \<times> 'fs" where
  "cache_read_file fm malloc_ok ref mime_cap fs =
     (case FSRead fm ref 24 fs of (err, hdr, fs1) \<Rightarrow>
      if err \<noteq> noErr \<or> length hdr \<noteq> 24 then (None, FSClose fm ref fs1)
      else if take 8 hdr \<noteq> MACSURF_CACHE_MAGIC then (None, FSClose fm ref fs1)
      else
        (let status_v = cache_read_be32 (drop 8 hdr);
             mime_len = unat (cache_read_be32 (drop 12 hdr));
             body_len = unat (cache_read_be32 (drop 16 hdr))
         in if mime_len > 127 \<or> body_len = 0 \<or> int body_len > MACSURF_CACHE_MAX_BYTES
            then (None, FSClose fm ref fs1)
            else (case (if mime_len > 0 then FSRead fm ref mime_len fs1 else (noErr, [], fs1)) of (err2, mime_buf, fs2) \<Rightarrow>
              if err2 \<noteq> noErr \<or> length mime_buf \<noteq> mime_len then (None, FSClose fm ref fs2)
              else if \<not> malloc_ok body_len then (None, FSClose fm ref fs2)
              else (case FSRead fm ref body_len fs2 of (err3, body, fs3) \<Rightarrow>
                if err3 \<noteq> noErr \<or> length body \<noteq> body_len then (None, FSClose fm ref fs3)
                else (Some \<lparr>ch_body = body,
                            ch_mime = cstr (take (if mime_len \<ge> mime_cap then mime_cap - 1 else mime_len) mime_buf),
                            ch_status = sint status_v\<rparr>,
                      FSClose fm ref fs3)))))"

definition macos9_cache_lookup ::
    "'fs file_manager \<Rightarrow> (nat \<Rightarrow> bool) \<Rightarrow> string option \<Rightarrow> nat
      \<Rightarrow> 'fs disk_cache \<Rightarrow> cache_hit option \<times> 'fs disk_cache" where
  "macos9_cache_lookup fm malloc_ok url mime_cap dc =
     (if url = None then (None, dc)
      else if macsurf_http_skip_next_cache dc then (None, dc)
      else (case cache_dir_get fm (dc_fs dc) of (err, vref, dir_id, fs) \<Rightarrow>
        if err \<noteq> noErr then (None, dc\<lparr>dc_fs := fs\<rparr>)
        else (case FSMakeFSSpec fm vref dir_id (cache_filename_for_url url) fs of (err1, spec) \<Rightarrow>
          if err1 \<noteq> noErr then (None, dc\<lparr>dc_fs := fs\<rparr>)
          else (case FSpOpenDF fm fsRdPerm spec fs of (err2, ref, fs2) \<Rightarrow>
            if err2 \<noteq> noErr then (None, dc\<lparr>dc_fs := fs2\<rparr>)
            else (case cache_read_file fm malloc_ok ref mime_cap fs2 of (hit, fs3) \<Rightarrow>
                   (hit, dc\<lparr>dc_fs := fs3\<rparr>))))))"

section \<open>The persisted dead-host list\<close>

definition deadhost_file :: string where
  "deadhost_file = ''deadhosts.txt''"

definition macos9_deadhost_load :: "'fs file_manager \<Rightarrow> int \<Rightarrow> 'fs \<Rightarrow> bytes \<times> 'fs" where
  "macos9_deadhost_load fm buf_cap fs =
     (if buf_cap \<le> 0 then ([], fs)
      else (case cache_dir_get fm fs of (err, vref, dir_id, fs1) \<Rightarrow>
        if err \<noteq> noErr then ([], fs1)
        else (case FSMakeFSSpec fm vref dir_id deadhost_file fs1 of (err1, spec) \<Rightarrow>
          if err1 \<noteq> noErr then ([], fs1)
          else (case FSpOpenDF fm fsRdPerm spec fs1 of (err2, ref, fs2) \<Rightarrow>
            if err2 \<noteq> noErr then ([], fs2)
            else (case FSRead fm ref (nat (buf_cap - 1)) fs2 of (err3, data, fs3) \<Rightarrow>
              if err3 \<noteq> noErr \<and> data = [] then ([], FSClose fm ref fs3)
              else (take (nat (buf_cap - 1)) data, FSClose fm ref fs3))))))"

definition macos9_deadhost_save :: "'fs file_manager \<Rightarrow> bytes option \<Rightarrow> 'fs \<Rightarrow> 'fs" where
  "macos9_deadhost_save fm buf fs =
     (case buf of
        None \<Rightarrow> fs
      | Some b \<Rightarrow>
          (case cache_dir_get fm fs of (err, vref, dir_id, fs1) \<Rightarrow>
           if err \<noteq> noErr then fs1
           else (case make_or_create fm (FSpCreate fm) vref dir_id deadhost_file fs1 of (err', spec, fs') \<Rightarrow>
             if err' \<noteq> noErr then fs'
             else (case FSpOpenDF fm fsWrPerm spec fs' of (err4, ref, fs4) \<Rightarrow>
               if err4 \<noteq> noErr then fs4
               else (let fs5 = SetEOF fm ref 0 fs4;
                         fs6 = (if b \<noteq> [] then snd (FSWrite fm ref b fs5) else fs5)
                     in FlushVol fm vref (FSClose fm ref (SetEOF fm ref (length b) fs6)))))))"

definition macos9_deadhost_clear :: "'fs file_manager \<Rightarrow> 'fs \<Rightarrow> 'fs" where
  "macos9_deadhost_clear fm fs =
     (case cache_dir_get fm fs of (err, vref, dir_id, fs1) \<Rightarrow>
      if err \<noteq> noErr then fs1
      else (case FSMakeFSSpec fm vref dir_id deadhost_file fs1 of (err1, spec) \<Rightarrow>
        if err1 = noErr then snd (FSpDelete fm spec fs1) else fs1))"


section \<open>Encoding facts\<close>

lemma length_be32 [simp]: "length (cache_write_be32 v) = 4"
  by (simp add: cache_write_be32_def)

lemma length_magic [simp]: "length MACSURF_CACHE_MAGIC = 8"
  by (simp add: MACSURF_CACHE_MAGIC_def)

lemma length_cache_header [simp]: "length (cache_header status ml bl) = 24"
  by (simp add: cache_header_def)

lemma of_char_byte: "(of_nat (of_char (char_of (unat (w AND 0xFF :: 32 word)) :: char) :: nat) :: 32 word) = w AND 0xFF"
proof -
  have "unat (w AND 0xFF) \<le> unat (0xFF :: 32 word)"
    by (rule word_le_nat_alt [THEN iffD1]) (rule word_and_le1)
  then have "unat (w AND 0xFF) mod 256 = unat (w AND 0xFF)" by simp
  then show ?thesis by (simp add: of_char_of)
qed

lemma be32_roundtrip: "cache_read_be32 (cache_write_be32 v @ r) = v"
proof -
  have "cache_read_be32 (cache_write_be32 v @ r) =
      push_bit 24 (drop_bit 24 v AND 0xFF) OR push_bit 16 (drop_bit 16 v AND 0xFF)
      OR push_bit 8 (drop_bit 8 v AND 0xFF) OR v AND 0xFF"
    unfolding cache_read_be32_def cache_write_be32_def append_Cons nth_Cons_0 nth_Cons_Suc One_nat_def
      numeral_2_eq_2 numeral_3_eq_3 of_char_byte ..
  also have "\<dots> = v"
  proof (rule bit_word_eqI)
    fix n assume n: "n < LENGTH(32)"
    have m: "(0xFF :: 32 word) = mask 8" by (simp add: mask_eq_exp_minus_1)
    show "bit (push_bit 24 (drop_bit 24 v AND 0xFF) OR push_bit 16 (drop_bit 16 v AND 0xFF)
        OR push_bit 8 (drop_bit 8 v AND 0xFF) OR v AND 0xFF) n = bit v n"
      using n unfolding m by (cases "n < 8"; cases "n < 16"; cases "n < 24") (auto simp: bit_simps)
  qed
  finally show ?thesis .
qed

lemma be32_roundtrip' [simp]: "cache_read_be32 (cache_write_be32 v) = v"
  using be32_roundtrip [of v "[]"] by simp

lemma header_fields:
  "take 8 (cache_header status ml bl) = MACSURF_CACHE_MAGIC"
  "cache_read_be32 (drop 8 (cache_header status ml bl)) = word_of_int status"
  "cache_read_be32 (drop 12 (cache_header status ml bl)) = of_nat ml"
  "cache_read_be32 (drop 16 (cache_header status ml bl)) = word_of_int bl"
  by (simp_all add: cache_header_def be32_roundtrip)

section \<open>What the code relies on in the File Manager\<close>

abbreviation cache_folder :: string where
  "cache_folder \<equiv> ''MacSurf Cache''"

definition fm_laws ::
    "'fs file_manager \<Rightarrow> int \<Rightarrow> int \<Rightarrow> ('fs \<Rightarrow> fsspec \<Rightarrow> bytes option) \<Rightarrow> ('fs \<Rightarrow> fsspec \<Rightarrow> int option)
      \<Rightarrow> ('fs \<Rightarrow> int \<Rightarrow> (fsspec \<times> nat) option) \<Rightarrow> bool" where
  "fm_laws fm dv dd fork dir mark \<longleftrightarrow>
     (\<forall>fs. FindFolder fm fs = (noErr, dv, dd)) \<and>
     (\<forall>v d n fs. FSMakeFSSpec fm v d n fs =
        (if fork fs \<lparr>spec_vref = v, spec_parid = d, spec_name = n\<rparr> = None
            \<and> dir fs \<lparr>spec_vref = v, spec_parid = d, spec_name = n\<rparr> = None then fnfErr else noErr,
         \<lparr>spec_vref = v, spec_parid = d, spec_name = n\<rparr>)) \<and>
     (\<forall>sp fs. fork fs sp = None \<and> dir fs sp = None \<longrightarrow>
        (\<exists>fs' i. FSpDirCreate fm sp fs = (noErr, fs') \<and> dir fs' = (dir fs)(sp \<mapsto> i) \<and> fork fs' = fork fs
           \<and> (\<forall>n. fork fs \<lparr>spec_vref = spec_vref sp, spec_parid = i, spec_name = n\<rparr> = None))) \<and>
     (\<forall>sp fs i. dir fs sp = Some i \<longrightarrow> PBGetCatInfo fm sp fs = (noErr, i)) \<and>
     (\<forall>sp fs. fork fs sp = None \<and> dir fs sp = None \<longrightarrow>
        (\<exists>fs'. FSpCreate fm sp fs = (noErr, fs') \<and> fork fs' = (fork fs)(sp \<mapsto> []) \<and> dir fs' = dir fs)) \<and>
     (\<forall>sp fs. fork fs sp \<noteq> None \<longrightarrow>
        (\<exists>fs'. FSpDelete fm sp fs = (noErr, fs') \<and> fork fs' = (fork fs)(sp := None) \<and> dir fs' = dir fs)) \<and>
     (\<forall>p sp fs. fork fs sp \<noteq> None \<longrightarrow>
        (\<exists>ref fs'. FSpOpenDF fm p sp fs = (noErr, ref, fs') \<and> fork fs' = fork fs \<and> dir fs' = dir fs
           \<and> mark fs' ref = Some (sp, 0))) \<and>
     (\<forall>ref sp p q b fs. mark fs ref = Some (sp, p) \<and> fork fs sp = Some b \<and> q \<le> length b \<longrightarrow>
        fork (SetFPos fm ref q fs) = fork fs \<and> dir (SetFPos fm ref q fs) = dir fs
        \<and> mark (SetFPos fm ref q fs) ref = Some (sp, q)) \<and>
     (\<forall>ref sp p b n fs. mark fs ref = Some (sp, p) \<and> fork fs sp = Some b \<longrightarrow>
        (\<exists>fs'. FSRead fm ref n fs = (if p + n \<le> length b then noErr else eofErr, take n (drop p b), fs')
           \<and> fork fs' = fork fs \<and> dir fs' = dir fs \<and> mark fs' ref = Some (sp, p + length (take n (drop p b))))) \<and>
     (\<forall>ref sp p b x fs. mark fs ref = Some (sp, p) \<and> fork fs sp = Some b \<and> p \<le> length b \<longrightarrow>
        (\<exists>fs'. FSWrite fm ref x fs = (noErr, fs') \<and> dir fs' = dir fs \<and> mark fs' ref = Some (sp, p + length x)
           \<and> fork fs' = (fork fs)(sp \<mapsto> take p b @ x @ drop (p + length x) b))) \<and>
     (\<forall>ref sp p b n fs. mark fs ref = Some (sp, p) \<and> fork fs sp = Some b \<and> n \<le> length b \<longrightarrow>
        fork (SetEOF fm ref n fs) = (fork fs)(sp \<mapsto> take n b) \<and> dir (SetEOF fm ref n fs) = dir fs
        \<and> mark (SetEOF fm ref n fs) ref = Some (sp, min p n)) \<and>
     (\<forall>ref fs. fork (FSClose fm ref fs) = fork fs \<and> dir (FSClose fm ref fs) = dir fs) \<and>
     (\<forall>v fs. fork (FlushVol fm v fs) = fork fs \<and> dir (FlushVol fm v fs) = dir fs)"

text \<open>No plain file has the cache folder's name, no folder the name of a cache file.\<close>

definition clean_volume ::
    "int \<Rightarrow> int \<Rightarrow> ('fs \<Rightarrow> fsspec \<Rightarrow> bytes option) \<Rightarrow> ('fs \<Rightarrow> fsspec \<Rightarrow> int option) \<Rightarrow> 'fs \<Rightarrow> bool" where
  "clean_volume dv dd fork dir fs \<longleftrightarrow>
     fork fs \<lparr>spec_vref = dv, spec_parid = dd, spec_name = cache_folder\<rparr> = None
     \<and> (\<forall>sp. spec_name sp \<noteq> cache_folder \<longrightarrow> dir fs sp = None)"

lemma fm_laws_find: "fm_laws fm dv dd fork dir mark \<Longrightarrow> FindFolder fm fs = (noErr, dv, dd)"
  by (simp add: fm_laws_def)

lemma fm_laws_make:
  "fm_laws fm dv dd fork dir mark \<Longrightarrow> FSMakeFSSpec fm v d n fs =
     (if fork fs \<lparr>spec_vref = v, spec_parid = d, spec_name = n\<rparr> = None
         \<and> dir fs \<lparr>spec_vref = v, spec_parid = d, spec_name = n\<rparr> = None then fnfErr else noErr,
      \<lparr>spec_vref = v, spec_parid = d, spec_name = n\<rparr>)"
  by (simp add: fm_laws_def)

lemma fm_laws_dir_create:
  "fm_laws fm dv dd fork dir mark \<Longrightarrow> fork fs sp = None \<Longrightarrow> dir fs sp = None \<Longrightarrow>
     \<exists>fs' i. FSpDirCreate fm sp fs = (noErr, fs') \<and> dir fs' = (dir fs)(sp \<mapsto> i) \<and> fork fs' = fork fs
       \<and> (\<forall>n. fork fs \<lparr>spec_vref = spec_vref sp, spec_parid = i, spec_name = n\<rparr> = None)"
  by (simp add: fm_laws_def)

lemma fm_laws_cat: "fm_laws fm dv dd fork dir mark \<Longrightarrow> dir fs sp = Some i \<Longrightarrow> PBGetCatInfo fm sp fs = (noErr, i)"
  by (simp add: fm_laws_def)

lemma fm_laws_create:
  "fm_laws fm dv dd fork dir mark \<Longrightarrow> fork fs sp = None \<Longrightarrow> dir fs sp = None \<Longrightarrow>
     \<exists>fs'. FSpCreate fm sp fs = (noErr, fs') \<and> fork fs' = (fork fs)(sp \<mapsto> []) \<and> dir fs' = dir fs"
  by (simp add: fm_laws_def)

lemma fm_laws_delete:
  "fm_laws fm dv dd fork dir mark \<Longrightarrow> fork fs sp \<noteq> None \<Longrightarrow>
     \<exists>fs'. FSpDelete fm sp fs = (noErr, fs') \<and> fork fs' = (fork fs)(sp := None) \<and> dir fs' = dir fs"
  by (simp add: fm_laws_def)

lemma fm_laws_open:
  "fm_laws fm dv dd fork dir mark \<Longrightarrow> fork fs sp \<noteq> None \<Longrightarrow>
     \<exists>ref fs'. FSpOpenDF fm p sp fs = (noErr, ref, fs') \<and> fork fs' = fork fs \<and> dir fs' = dir fs
           \<and> mark fs' ref = Some (sp, 0)"
  by (simp add: fm_laws_def)

lemma fm_laws_setfpos:
  "fm_laws fm dv dd fork dir mark \<Longrightarrow> mark fs ref = Some (sp, p) \<Longrightarrow> fork fs sp = Some b \<Longrightarrow> q \<le> length b \<Longrightarrow>
     fork (SetFPos fm ref q fs) = fork fs \<and> dir (SetFPos fm ref q fs) = dir fs
     \<and> mark (SetFPos fm ref q fs) ref = Some (sp, q)"
  by (simp add: fm_laws_def)

lemma fm_laws_read:
  "fm_laws fm dv dd fork dir mark \<Longrightarrow> mark fs ref = Some (sp, p) \<Longrightarrow> fork fs sp = Some b \<Longrightarrow>
     \<exists>fs'. FSRead fm ref n fs = (if p + n \<le> length b then noErr else eofErr, take n (drop p b), fs')
        \<and> fork fs' = fork fs \<and> dir fs' = dir fs \<and> mark fs' ref = Some (sp, p + length (take n (drop p b)))"
  by (simp add: fm_laws_def)

lemma fm_laws_write:
  "fm_laws fm dv dd fork dir mark \<Longrightarrow> mark fs ref = Some (sp, p) \<Longrightarrow> fork fs sp = Some b \<Longrightarrow> p \<le> length b \<Longrightarrow>
     \<exists>fs'. FSWrite fm ref x fs = (noErr, fs') \<and> dir fs' = dir fs \<and> mark fs' ref = Some (sp, p + length x)
        \<and> fork fs' = (fork fs)(sp \<mapsto> take p b @ x @ drop (p + length x) b)"
  by (simp add: fm_laws_def)

lemma fm_laws_seteof:
  "fm_laws fm dv dd fork dir mark \<Longrightarrow> mark fs ref = Some (sp, p) \<Longrightarrow> fork fs sp = Some b \<Longrightarrow> n \<le> length b \<Longrightarrow>
     fork (SetEOF fm ref n fs) = (fork fs)(sp \<mapsto> take n b) \<and> dir (SetEOF fm ref n fs) = dir fs
     \<and> mark (SetEOF fm ref n fs) ref = Some (sp, min p n)"
  by (simp add: fm_laws_def)

lemma fm_laws_close:
  "fm_laws fm dv dd fork dir mark \<Longrightarrow> fork (FSClose fm ref fs) = fork fs"
  "fm_laws fm dv dd fork dir mark \<Longrightarrow> dir (FSClose fm ref fs) = dir fs"
  "fm_laws fm dv dd fork dir mark \<Longrightarrow> fork (FlushVol fm v fs) = fork fs"
  "fm_laws fm dv dd fork dir mark \<Longrightarrow> dir (FlushVol fm v fs) = dir fs"
  by (simp_all add: fm_laws_def)

lemma cache_filename_neq_folder [simp]:
  "cache_filename_for_url u \<noteq> cache_folder" "deadhost_file \<noteq> cache_folder"
  "cache_filename_for_url u \<noteq> deadhost_file" "cache_folder \<noteq> cache_filename_for_url u" "cache_folder \<noteq> deadhost_file"
  by (simp_all add: cache_filename_for_url_def deadhost_file_def Let_def)

lemma make_existing:
  assumes laws: "fm_laws fm dv dd fork dir mark"
    and "fork fs \<lparr>spec_vref = v, spec_parid = d, spec_name = n\<rparr> \<noteq> None
      \<or> dir fs \<lparr>spec_vref = v, spec_parid = d, spec_name = n\<rparr> \<noteq> None"
  shows "make_or_create fm create v d n fs = (noErr, \<lparr>spec_vref = v, spec_parid = d, spec_name = n\<rparr>, fs)"
  using assms(2) unfolding make_or_create_def fm_laws_make [OF laws, of v d n fs] by (simp only: prod.case if_True if_False) auto

lemma make_creating:
  assumes laws: "fm_laws fm dv dd fork dir mark"
    and "fork fs \<lparr>spec_vref = v, spec_parid = d, spec_name = n\<rparr> = None"
      "dir fs \<lparr>spec_vref = v, spec_parid = d, spec_name = n\<rparr> = None"
    and "create \<lparr>spec_vref = v, spec_parid = d, spec_name = n\<rparr> fs = (noErr, fs')"
      "fork fs' \<lparr>spec_vref = v, spec_parid = d, spec_name = n\<rparr> \<noteq> None
       \<or> dir fs' \<lparr>spec_vref = v, spec_parid = d, spec_name = n\<rparr> \<noteq> None"
  shows "make_or_create fm create v d n fs = (noErr, \<lparr>spec_vref = v, spec_parid = d, spec_name = n\<rparr>, fs')"
  using assms(2-) unfolding make_or_create_def fm_laws_make [OF laws, of v d n fs] fm_laws_make [OF laws, of v d n fs']
  by (simp only: prod.case) (auto simp: fm_laws_make [OF laws, of v d n fs'])

lemma make_file:
  assumes laws: "fm_laws fm dv dd fork dir mark"
    and nodir: "dir fs \<lparr>spec_vref = v, spec_parid = d, spec_name = n\<rparr> = None"
  shows "\<exists>fs' b. make_or_create fm (FSpCreate fm) v d n fs = (noErr, \<lparr>spec_vref = v, spec_parid = d, spec_name = n\<rparr>, fs')
     \<and> fork fs' = (fork fs)(\<lparr>spec_vref = v, spec_parid = d, spec_name = n\<rparr> \<mapsto> b) \<and> dir fs' = dir fs"
proof (cases "fork fs \<lparr>spec_vref = v, spec_parid = d, spec_name = n\<rparr>")
  case None
  obtain fs' where c: "FSpCreate fm \<lparr>spec_vref = v, spec_parid = d, spec_name = n\<rparr> fs = (noErr, fs')"
    "fork fs' = (fork fs)(\<lparr>spec_vref = v, spec_parid = d, spec_name = n\<rparr> \<mapsto> [])" "dir fs' = dir fs"
    using fm_laws_create [OF laws None nodir] by blast
  from make_creating [OF laws None nodir, of "FSpCreate fm" fs', OF c(1)] c show ?thesis by auto
next
  case (Some b)
  then have "make_or_create fm (FSpCreate fm) v d n fs = (noErr, \<lparr>spec_vref = v, spec_parid = d, spec_name = n\<rparr>, fs)"
    by (intro make_existing [OF laws]) simp
  with Some show ?thesis by (intro exI [of _ fs] exI [of _ b]) (simp add: fun_upd_idem)
qed

definition cache_folder_spec :: "int \<Rightarrow> int \<Rightarrow> fsspec" where
  "cache_folder_spec dv dd = \<lparr>spec_vref = dv, spec_parid = dd, spec_name = cache_folder\<rparr>"

text \<open>The contents of a file of the cache folder, none when there is no such folder or file.\<close>

definition folder_file ::
    "int \<Rightarrow> int \<Rightarrow> ('fs \<Rightarrow> fsspec \<Rightarrow> bytes option) \<Rightarrow> ('fs \<Rightarrow> fsspec \<Rightarrow> int option) \<Rightarrow> string \<Rightarrow> 'fs \<Rightarrow> bytes option" where
  "folder_file dv dd fork dir n fs =
     (case dir fs (cache_folder_spec dv dd) of
        None \<Rightarrow> None
      | Some i \<Rightarrow> fork fs \<lparr>spec_vref = dv, spec_parid = i, spec_name = n\<rparr>)"

lemma cache_dir_get_ok:
  assumes laws: "fm_laws fm dv dd fork dir mark" and clean: "clean_volume dv dd fork dir fs"
  shows "\<exists>i fs'. cache_dir_get fm fs = (noErr, dv, i, fs') \<and> fork fs' = fork fs \<and> clean_volume dv dd fork dir fs'
     \<and> dir fs' (cache_folder_spec dv dd) = Some i
     \<and> (\<forall>n. fork fs \<lparr>spec_vref = dv, spec_parid = i, spec_name = n\<rparr> = folder_file dv dd fork dir n fs)"
proof -
  let ?f = "cache_folder_spec dv dd"
  have nofile: "fork fs ?f = None" using clean by (simp add: clean_volume_def cache_folder_spec_def)
  have get: "cache_dir_get fm fs = (noErr, dv, i, x)"
    if "make_or_create fm (FSpDirCreate fm) dv dd cache_folder fs = (noErr, ?f, x)" and "dir x ?f = Some i" for x i
    using that fm_laws_cat [OF laws that(2)]
    by (simp add: cache_dir_get_def fm_laws_find [OF laws]) (simp add: cache_folder_spec_def)
  show ?thesis
  proof (cases "dir fs ?f")
    case None
    obtain fs' i where c: "FSpDirCreate fm ?f fs = (noErr, fs')" "dir fs' = (dir fs)(?f \<mapsto> i)" "fork fs' = fork fs"
      "\<forall>n. fork fs \<lparr>spec_vref = dv, spec_parid = i, spec_name = n\<rparr> = None"
      using fm_laws_dir_create [OF laws nofile None] by (auto simp: cache_folder_spec_def)
    have d: "dir fs' ?f = Some i" using c by simp
    then have "make_or_create fm (FSpDirCreate fm) dv dd cache_folder fs = (noErr, ?f, fs')"
      using make_creating [OF laws, of fs dv dd cache_folder "FSpDirCreate fm" fs'] nofile None c(1)
      by (simp add: cache_folder_spec_def)
    then have g: "cache_dir_get fm fs = (noErr, dv, i, fs')" using d by (rule get)
    have "clean_volume dv dd fork dir fs'"
      using clean c(2,3) by (simp add: clean_volume_def cache_folder_spec_def)
    with g c(3,4) d None show ?thesis by (intro exI [of _ i] exI [of _ fs']) (simp add: folder_file_def)
  next
    case (Some i)
    then have "make_or_create fm (FSpDirCreate fm) dv dd cache_folder fs = (noErr, ?f, fs)"
      using make_existing [OF laws, of fs dv dd cache_folder "FSpDirCreate fm"] by (simp add: cache_folder_spec_def)
    then have "cache_dir_get fm fs = (noErr, dv, i, fs)" using Some by (rule get)
    with Some clean show ?thesis by (intro exI [of _ i] exI [of _ fs]) (simp add: folder_file_def)
  qed
qed

text \<open>The byte image of a cache file.\<close>

definition cache_image :: "int \<Rightarrow> string \<Rightarrow> bytes \<Rightarrow> bytes" where
  "cache_image status mime body =
     cache_header status (min 127 (length mime)) (int (length body)) @ take 127 mime @ body"

lemma write_file_effect:
  fixes status :: int and mime :: string and body :: bytes
  assumes laws: "fm_laws fm dv dd fork dir mark"
    and m: "mark fs ref = Some (sp, p)" and b: "fork fs sp = Some b"
  defines "fs' \<equiv> cache_write_file fm ref status mime body (int (length body)) fs"
  shows "fork fs' = (fork fs)(sp \<mapsto> cache_image status mime body)" "dir fs' = dir fs"
proof -
  define hdr where "hdr = cache_header status (min 127 (length mime)) (int (length body))"
  define ml where "ml = min 127 (length mime)"
  have hdr: "length hdr = 24" by (simp add: hdr_def)
  define fs0 where "fs0 = SetFPos fm ref 0 fs"
  have 0: "fork fs0 = fork fs" "dir fs0 = dir fs" "mark fs0 ref = Some (sp, 0)"
    using fm_laws_setfpos [OF laws m b, of 0] by (auto simp: fs0_def)
  obtain fs1 where 1: "FSWrite fm ref hdr fs0 = (noErr, fs1)" "dir fs1 = dir fs" "mark fs1 ref = Some (sp, 24)"
    "fork fs1 = (fork fs)(sp \<mapsto> hdr @ drop 24 b)"
    using fm_laws_write [OF laws 0(3), of b hdr] b 0 hdr by auto
  define fs2 where "fs2 = (if ml > 0 then snd (FSWrite fm ref (take ml mime) fs1) else fs1)"
  have lm: "length (take ml mime) = ml" by (simp add: ml_def)
  obtain r where 2: "dir fs2 = dir fs" "mark fs2 ref = Some (sp, 24 + ml)" "fork fs2 = (fork fs)(sp \<mapsto> hdr @ take ml mime @ r)"
  proof (cases "ml > 0")
    case True
    then show ?thesis
      using fm_laws_write [OF laws 1(3), of "hdr @ drop 24 b" "take ml mime"] 1 hdr lm that [of "drop ml (drop 24 b)"]
      by (auto simp: fs2_def)
  next
    case False
    then show ?thesis using 1 that [of "drop 24 b"] by (simp add: fs2_def)
  qed
  obtain fs3 r' where 3: "FSWrite fm ref body fs2 = (noErr, fs3)" "dir fs3 = dir fs"
    "fork fs3 = (fork fs)(sp \<mapsto> hdr @ take ml mime @ body @ r')" "mark fs3 ref = Some (sp, 24 + ml + length body)"
    using fm_laws_write [OF laws 2(2), of "hdr @ take ml mime @ r" body] 2 hdr lm by auto
  have eq: "fs' = FSClose fm ref (SetEOF fm ref (24 + ml + length body) fs3)"
    using 1(1) 3(1) hdr unfolding fs'_def cache_write_file_def Let_def fs2_def ml_def hdr_def fs0_def
    by (simp split: if_splits)
  have img: "hdr @ take ml mime @ body = cache_image status mime body"
    by (simp add: cache_image_def hdr_def ml_def take_min_length)
  show "fork fs' = (fork fs)(sp \<mapsto> cache_image status mime body)" "dir fs' = dir fs"
    using fm_laws_seteof [OF laws 3(4), of "hdr @ take ml mime @ body @ r'" "24 + ml + length body"] 3 hdr lm img
    by (auto simp: eq fm_laws_close [OF laws])
qed

text \<open>
  What the reader makes of the bytes of a file: the specification of \<open>cache_read_file\<close>, free of
  the File Manager.
\<close>

definition parse_image :: "(nat \<Rightarrow> bool) \<Rightarrow> nat \<Rightarrow> bytes \<Rightarrow> cache_hit option" where
  "parse_image malloc_ok mime_cap b =
     (let ml = unat (cache_read_be32 (drop 12 b)); bl = unat (cache_read_be32 (drop 16 b)) in
      if 24 \<le> length b \<and> take 8 b = MACSURF_CACHE_MAGIC \<and> ml \<le> 127 \<and> 0 < bl \<and> int bl \<le> MACSURF_CACHE_MAX_BYTES
         \<and> malloc_ok bl \<and> 24 + ml + bl \<le> length b
      then Some \<lparr>ch_body = take bl (drop (24 + ml) b), ch_mime = cstr (take (min ml (mime_cap - 1)) (drop 24 b)),
                 ch_status = sint (cache_read_be32 (drop 8 b))\<rparr>
      else None)"

lemma be32_take: "4 \<le> n \<Longrightarrow> n \<le> length b \<Longrightarrow> cache_read_be32 (take n b) = cache_read_be32 b"
  by (simp add: cache_read_be32_def)

lemma header_of_prefix:
  assumes "24 \<le> length b"
  shows "take 8 (take 24 b) = take 8 b" "cache_read_be32 (drop 8 (take 24 b)) = cache_read_be32 (drop 8 b)"
    "cache_read_be32 (drop 12 (take 24 b)) = cache_read_be32 (drop 12 b)"
    "cache_read_be32 (drop 16 (take 24 b)) = cache_read_be32 (drop 16 b)"
  using assms by (simp_all add: drop_take be32_take)

lemma read_file_effect:
  assumes laws: "fm_laws fm dv dd fork dir mark"
    and m: "mark fs ref = Some (sp, 0)" and b: "fork fs sp = Some b"
  shows "\<exists>fs'. cache_read_file fm malloc_ok ref mime_cap fs = (parse_image malloc_ok mime_cap b, fs')"
proof -
  define ml where "ml = unat (cache_read_be32 (drop 12 b))"
  define bl where "bl = unat (cache_read_be32 (drop 16 b))"
  obtain fs1 where 1: "FSRead fm ref 24 fs = (if 24 \<le> length b then noErr else eofErr, take 24 b, fs1)"
    "fork fs1 = fork fs" "mark fs1 ref = Some (sp, length (take 24 b))"
    using fm_laws_read [OF laws m b, of 24] by auto
  show ?thesis
  proof (cases "24 \<le> length b \<and> take 8 b = MACSURF_CACHE_MAGIC \<and> ml \<le> 127 \<and> bl \<noteq> 0 \<and> int bl \<le> MACSURF_CACHE_MAX_BYTES")
    case False
    then have p: "parse_image malloc_ok mime_cap b = None"
      by (auto simp: parse_image_def Let_def ml_def bl_def)
    show ?thesis
    proof (cases "24 \<le> length b \<and> take 8 b = MACSURF_CACHE_MAGIC")
      case True
      with False have "ml > 127 \<or> bl = 0 \<or> int bl > MACSURF_CACHE_MAX_BYTES" by auto
      with True show ?thesis
        by (simp add: cache_read_file_def 1(1) header_of_prefix Let_def ml_def [symmetric] bl_def [symmetric] p del: take_take)
    next
      case False
      then show ?thesis by (cases "24 \<le> length b") (simp_all add: cache_read_file_def 1(1) p)
    qed
  next
    case True
    define r2 where "r2 = (if ml > 0 then FSRead fm ref ml fs1 else (noErr, [], fs1))"
    obtain e2 fs2 where 2: "r2 = (e2, take ml (drop 24 b), fs2)" "e2 = noErr \<longleftrightarrow> 24 + ml \<le> length b"
      "fork fs2 = fork fs" "24 + ml \<le> length b \<longrightarrow> mark fs2 ref = Some (sp, 24 + ml)"
      using fm_laws_read [OF laws 1(3), of b ml] 1 b True by (cases "ml > 0") (auto simp: r2_def)
    have l2: "length (take ml (drop 24 b)) = ml \<longleftrightarrow> 24 + ml \<le> length b" using True by auto
    have rd: "cache_read_file fm malloc_ok ref mime_cap fs =
       (if \<not> 24 + ml \<le> length b \<or> \<not> malloc_ok bl then (None, FSClose fm ref fs2)
        else (case FSRead fm ref bl fs2 of (err3, body, fs3) \<Rightarrow>
                if err3 \<noteq> noErr \<or> length body \<noteq> bl then (None, FSClose fm ref fs3)
                else (Some \<lparr>ch_body = body,
                            ch_mime = cstr (take (if ml \<ge> mime_cap then mime_cap - 1 else ml) (take ml (drop 24 b))),
                            ch_status = sint (cache_read_be32 (drop 8 b))\<rparr>,
                      FSClose fm ref fs3)))"
      using True 2(1,2) l2 unfolding r2_def
      by (simp add: cache_read_file_def 1(1) header_of_prefix Let_def ml_def [symmetric] bl_def [symmetric] del: take_take)
    show ?thesis
    proof (cases "24 + ml \<le> length b \<and> malloc_ok bl")
      case False
      then have "parse_image malloc_ok mime_cap b = None"
        by (auto simp: parse_image_def Let_def ml_def bl_def)
      then show ?thesis using False by (auto simp: rd)
    next
      case ok: True
      obtain fs3 where 3: "FSRead fm ref bl fs2 = (if 24 + ml + bl \<le> length b then noErr else eofErr, take bl (drop (24 + ml) b), fs3)"
        using fm_laws_read [OF laws, of fs2 ref sp "24 + ml" b bl] 2 b ok by auto
      have mn: "take (if ml \<ge> mime_cap then mime_cap - 1 else ml) (take ml (drop 24 b)) = take (min ml (mime_cap - 1)) (drop 24 b)"
        by (auto simp: min_def)
      have "parse_image malloc_ok mime_cap b = (if 24 + ml + bl \<le> length b then
          Some \<lparr>ch_body = take bl (drop (24 + ml) b), ch_mime = cstr (take (min ml (mime_cap - 1)) (drop 24 b)),
                 ch_status = sint (cache_read_be32 (drop 8 b))\<rparr> else None)"
        using True ok by (simp add: parse_image_def Let_def ml_def [symmetric] bl_def [symmetric])
      then show ?thesis using ok by (simp add: rd 3 mn del: take_take)
    qed
  qed
qed

lemma parse_cache_image:
  assumes s: "- (2 ^ 31) \<le> status" "status < 2 ^ 31" and body: "body \<noteq> []" "int (length body) \<le> MACSURF_CACHE_MAX_BYTES"
    and nul: "NUL \<notin> set mime"
  shows "parse_image (\<lambda>_. True) 128 (cache_image status mime body)
     = Some \<lparr>ch_body = body, ch_mime = take 127 mime, ch_status = status\<rparr>"
proof -
  have small: "length body < 2 ^ 32" using body(2) by (simp add: MACSURF_CACHE_MAX_BYTES_def)
  have n: "NUL \<notin> set (take 127 mime)" using nul by (auto dest: in_set_takeD)
  have f: "take 8 (cache_image status mime body) = MACSURF_CACHE_MAGIC"
    "cache_read_be32 (drop 8 (cache_image status mime body)) = word_of_int status"
    "unat (cache_read_be32 (drop 12 (cache_image status mime body))) = min 127 (length mime)"
    "unat (cache_read_be32 (drop 16 (cache_image status mime body))) = length body"
    using small by (simp_all add: cache_image_def cache_header_def be32_roundtrip unat_of_nat)
  have d: "drop 24 (cache_image status mime body) = take 127 mime @ body"
     "drop (24 + min 127 (length mime)) (cache_image status mime body) = body"
     "length (cache_image status mime body) = 24 + min 127 (length mime) + length body"
    by (simp_all add: cache_image_def)
  have "0 < length body" using body(1) by simp
  then show ?thesis
    unfolding parse_image_def f Let_def using body(2) n by (simp add: d sint_word32 [OF s] take_min_length)
qed

lemma store_effect:
  fixes status :: int and mime :: string and body :: bytes and url :: string
  assumes laws: "fm_laws fm dv dd fork dir mark" and clean: "clean_volume dv dd fork dir (dc_fs dc)"
    and el: "macos9_cache_mime_eligible status (Some mime)"
    and body: "body \<noteq> []" "int (length body) \<le> MACSURF_CACHE_MAX_BYTES"
  defines "dc' \<equiv> macos9_cache_store fm (Some url) status (Some mime) (Some body) (int (length body)) dc"
  shows "folder_file dv dd fork dir n (dc_fs dc') =
       (if n = cache_filename_for_url (Some url) then Some (cache_image status mime body)
        else folder_file dv dd fork dir n (dc_fs dc))" (is ?file)
    and "clean_volume dv dd fork dir (dc_fs dc') \<and> \<not> macsurf_http_skip_next_cache dc'" (is ?clean)
proof -
  let ?n = "cache_filename_for_url (Some url)"
  obtain i fs1 where g: "cache_dir_get fm (dc_fs dc) = (noErr, dv, i, fs1)" "fork fs1 = fork (dc_fs dc)"
    "clean_volume dv dd fork dir fs1" "dir fs1 (cache_folder_spec dv dd) = Some i"
    "\<forall>n. fork (dc_fs dc) \<lparr>spec_vref = dv, spec_parid = i, spec_name = n\<rparr> = folder_file dv dd fork dir n (dc_fs dc)"
    using cache_dir_get_ok [OF laws clean] by blast
  let ?sp = "\<lparr>spec_vref = dv, spec_parid = i, spec_name = ?n\<rparr>"
  have nodir: "dir fs1 ?sp = None" using g(3) by (simp add: clean_volume_def)
  obtain fs2 b where 2: "make_or_create fm (FSpCreate fm) dv i ?n fs1 = (noErr, ?sp, fs2)"
     "fork fs2 = (fork fs1)(?sp \<mapsto> b)" "dir fs2 = dir fs1"
    using make_file [OF laws nodir] by blast
  obtain ref fs3 where 3: "FSpOpenDF fm fsRdWrPerm ?sp fs2 = (noErr, ref, fs3)" "fork fs3 = fork fs2" "dir fs3 = dir fs2"
    "mark fs3 ref = Some (?sp, 0)"
    using fm_laws_open [OF laws, of fs2 ?sp fsRdWrPerm] 2 by auto
  have b3: "fork fs3 ?sp = Some b" using 2 3 by simp
  have dc': "dc' = dc\<lparr>dc_fs := cache_write_file fm ref status mime body (int (length body)) fs3,
      macsurf_http_skip_next_cache := False\<rparr>"
    using el body g(1) 2(1) 3(1) by (simp add: dc'_def macos9_cache_store_def)
  have w: "fork (dc_fs dc') = (fork (dc_fs dc))(?sp \<mapsto> cache_image status mime body)" "dir (dc_fs dc') = dir fs1"
    using write_file_effect [OF laws 3(4) b3, of status mime body] unfolding dc' 3(2,3) 2(2,3) g(2) by (auto simp: fun_eq_iff)
  show ?file using w g(4,5) by (simp add: folder_file_def [of _ _ _ _ _ "dc_fs dc'"])
  have c1: "fork fs1 \<lparr>spec_vref = dv, spec_parid = dd, spec_name = cache_folder\<rparr> = None"
    "\<forall>sp. spec_name sp \<noteq> cache_folder \<longrightarrow> dir fs1 sp = None"
    using g(3) unfolding clean_volume_def by blast+
  have "fork (dc_fs dc') \<lparr>spec_vref = dv, spec_parid = dd, spec_name = cache_folder\<rparr> = None"
    using c1(1) unfolding w(1) g(2) by simp
  then show ?clean using c1(2) w(2) unfolding clean_volume_def dc' by simp
qed

text \<open>What the cache holds for a URL: the contents of the file its hash names.\<close>

definition cached ::
    "int \<Rightarrow> int \<Rightarrow> ('fs \<Rightarrow> fsspec \<Rightarrow> bytes option) \<Rightarrow> ('fs \<Rightarrow> fsspec \<Rightarrow> int option) \<Rightarrow> 'fs disk_cache
      \<Rightarrow> string \<Rightarrow> cache_hit option" where
  "cached dv dd fork dir dc url =
     Option.bind (folder_file dv dd fork dir (cache_filename_for_url (Some url)) (dc_fs dc)) (parse_image (\<lambda>_. True) 128)"

lemma lookup_effect:
  assumes laws: "fm_laws fm dv dd fork dir mark" and clean: "clean_volume dv dd fork dir (dc_fs dc)"
  shows "fst (macos9_cache_lookup fm (\<lambda>_. True) (Some url) 128 dc) =
     (if macsurf_http_skip_next_cache dc then None else cached dv dd fork dir dc url)"
proof (cases "macsurf_http_skip_next_cache dc")
  case False
  let ?n = "cache_filename_for_url (Some url)"
  obtain i fs1 where g: "cache_dir_get fm (dc_fs dc) = (noErr, dv, i, fs1)" "fork fs1 = fork (dc_fs dc)"
    "clean_volume dv dd fork dir fs1"
    "\<forall>n. fork (dc_fs dc) \<lparr>spec_vref = dv, spec_parid = i, spec_name = n\<rparr> = folder_file dv dd fork dir n (dc_fs dc)"
    using cache_dir_get_ok [OF laws clean] by blast
  let ?sp = "\<lparr>spec_vref = dv, spec_parid = i, spec_name = ?n\<rparr>"
  have nodir: "dir fs1 ?sp = None" using g(3) by (simp add: clean_volume_def)
  show ?thesis
  proof (cases "fork fs1 ?sp")
    case None
    then have "FSMakeFSSpec fm dv i ?n fs1 = (fnfErr, ?sp)" using nodir fm_laws_make [OF laws, of dv i ?n fs1] by simp
    then show ?thesis using False None g(2,4) by (simp add: macos9_cache_lookup_def g(1) cached_def)
  next
    case (Some b)
    then have mk: "FSMakeFSSpec fm dv i ?n fs1 = (noErr, ?sp)" using fm_laws_make [OF laws, of dv i ?n fs1] by simp
    obtain ref fs2 where o: "FSpOpenDF fm fsRdPerm ?sp fs1 = (noErr, ref, fs2)" "fork fs2 = fork fs1" "mark fs2 ref = Some (?sp, 0)"
      using fm_laws_open [OF laws, of fs1 ?sp fsRdPerm] Some by auto
    obtain fs3 where r: "cache_read_file fm (\<lambda>_. True) ref 128 fs2 = (parse_image (\<lambda>_. True) 128 b, fs3)"
      using read_file_effect [OF laws o(3), of b "\<lambda>_. True" 128] Some o(2) by auto
    show ?thesis using False Some g(2,4) mk o r by (simp add: macos9_cache_lookup_def g(1) cached_def)
  qed
qed (simp add: macos9_cache_lookup_def)

lemma make_deadhost_spec:
  assumes laws: "fm_laws fm dv dd fork dir mark" and "fork fs \<lparr>spec_vref = v, spec_parid = d, spec_name = n\<rparr> \<noteq> None"
  shows "FSMakeFSSpec fm v d n fs = (noErr, \<lparr>spec_vref = v, spec_parid = d, spec_name = n\<rparr>)"
  using assms(2) fm_laws_make [OF laws, of v d n fs] by simp

lemma deadhost_save_effect:
  fixes b :: bytes
  assumes laws: "fm_laws fm dv dd fork dir mark" and clean: "clean_volume dv dd fork dir fs"
  defines "fs' \<equiv> macos9_deadhost_save fm (Some b) fs"
  shows "folder_file dv dd fork dir n fs' = (if n = deadhost_file then Some b else folder_file dv dd fork dir n fs)" (is ?file)
    and "clean_volume dv dd fork dir fs'" (is ?clean)
proof -
  obtain i fs1 where g: "cache_dir_get fm fs = (noErr, dv, i, fs1)" "fork fs1 = fork fs"
    "clean_volume dv dd fork dir fs1" "dir fs1 (cache_folder_spec dv dd) = Some i"
    "\<forall>n. fork fs \<lparr>spec_vref = dv, spec_parid = i, spec_name = n\<rparr> = folder_file dv dd fork dir n fs"
    using cache_dir_get_ok [OF laws clean] by blast
  let ?sp = "\<lparr>spec_vref = dv, spec_parid = i, spec_name = deadhost_file\<rparr>"
  have nodir: "dir fs1 ?sp = None" using g(3) by (simp add: clean_volume_def)
  obtain fs2 c where 2: "make_or_create fm (FSpCreate fm) dv i deadhost_file fs1 = (noErr, ?sp, fs2)"
     "fork fs2 = (fork fs1)(?sp \<mapsto> c)" "dir fs2 = dir fs1"
    using make_file [OF laws nodir] by blast
  obtain ref fs3 where 3: "FSpOpenDF fm fsWrPerm ?sp fs2 = (noErr, ref, fs3)" "fork fs3 = fork fs2" "dir fs3 = dir fs2"
    "mark fs3 ref = Some (?sp, 0)"
    using fm_laws_open [OF laws, of fs2 ?sp fsWrPerm] 2 by auto
  define fs4 where "fs4 = SetEOF fm ref 0 fs3"
  have "fork fs3 ?sp = Some c" using 2 3 by simp
  then have 4: "fork fs4 = (fork fs)(?sp \<mapsto> [])" "dir fs4 = dir fs1" "mark fs4 ref = Some (?sp, 0)"
    using fm_laws_seteof [OF laws 3(4), of c 0] 2 3 g(2) by (auto simp: fs4_def fun_eq_iff)
  define fs5 where "fs5 = (if b \<noteq> [] then snd (FSWrite fm ref b fs4) else fs4)"
  have 5: "fork fs5 = (fork fs)(?sp \<mapsto> b)" "dir fs5 = dir fs1" "mark fs5 ref = Some (?sp, length b)"
    using fm_laws_write [OF laws 4(3), of "[]" b] 4 by (auto simp: fs5_def fun_eq_iff)
  have fs': "fs' = FlushVol fm dv (FSClose fm ref (SetEOF fm ref (length b) fs5))"
    unfolding fs'_def macos9_deadhost_save_def fs5_def fs4_def by (simp add: g(1) 2(1) 3(1) Let_def)
  have w: "fork fs' = (fork fs)(?sp \<mapsto> b)" "dir fs' = dir fs1"
    using fm_laws_seteof [OF laws 5(3), of b "length b"] 5 by (auto simp: fs' fm_laws_close [OF laws] fun_eq_iff)
  show ?file using w g(4,5) by (simp add: folder_file_def [of _ _ _ _ _ fs'])
  have c1: "fork fs \<lparr>spec_vref = dv, spec_parid = dd, spec_name = cache_folder\<rparr> = None"
    "\<forall>sp. spec_name sp \<noteq> cache_folder \<longrightarrow> dir fs1 sp = None"
    using g(2,3) unfolding clean_volume_def by simp_all
  then show ?clean using w unfolding clean_volume_def by simp
qed

lemma deadhost_load_effect:
  assumes laws: "fm_laws fm dv dd fork dir mark" and clean: "clean_volume dv dd fork dir fs" and cap: "0 < cap"
  shows "fst (macos9_deadhost_load fm cap fs) =
     (case folder_file dv dd fork dir deadhost_file fs of None \<Rightarrow> [] | Some b \<Rightarrow> take (nat (cap - 1)) b)"
proof -
  obtain i fs1 where g: "cache_dir_get fm fs = (noErr, dv, i, fs1)" "fork fs1 = fork fs"
    "clean_volume dv dd fork dir fs1"
    "\<forall>n. fork fs \<lparr>spec_vref = dv, spec_parid = i, spec_name = n\<rparr> = folder_file dv dd fork dir n fs"
    using cache_dir_get_ok [OF laws clean] by blast
  let ?sp = "\<lparr>spec_vref = dv, spec_parid = i, spec_name = deadhost_file\<rparr>"
  have nodir: "dir fs1 ?sp = None" using g(3) by (simp add: clean_volume_def)
  show ?thesis
  proof (cases "fork fs1 ?sp")
    case None
    then have "FSMakeFSSpec fm dv i deadhost_file fs1 = (fnfErr, ?sp)"
      using nodir fm_laws_make [OF laws, of dv i deadhost_file fs1] by simp
    then show ?thesis using None g(2,4) by (simp add: macos9_deadhost_load_def g(1))
  next
    case (Some b)
    then have mk: "FSMakeFSSpec fm dv i deadhost_file fs1 = (noErr, ?sp)" by (intro make_deadhost_spec [OF laws]) simp
    obtain ref fs2 where o: "FSpOpenDF fm fsRdPerm ?sp fs1 = (noErr, ref, fs2)" "fork fs2 = fork fs1" "mark fs2 ref = Some (?sp, 0)"
      using fm_laws_open [OF laws, of fs1 ?sp fsRdPerm] Some by auto
    obtain e fs3 where r: "FSRead fm ref (nat (cap - 1)) fs2 = (e, take (nat (cap - 1)) b, fs3)"
      using fm_laws_read [OF laws o(3), of b "nat (cap - 1)"] Some o(2) by auto
    show ?thesis using Some g(2,4) mk o r cap
      by (cases "e \<noteq> noErr \<and> take (nat (cap - 1)) b = []") (auto simp: macos9_deadhost_load_def g(1))
  qed
qed

lemma deadhost_clear_effect:
  assumes laws: "fm_laws fm dv dd fork dir mark" and clean: "clean_volume dv dd fork dir fs"
  shows "folder_file dv dd fork dir n (macos9_deadhost_clear fm fs) =
     (if n = deadhost_file then None else folder_file dv dd fork dir n fs)" (is ?file)
    and "clean_volume dv dd fork dir (macos9_deadhost_clear fm fs)" (is ?clean)
proof -
  obtain i fs1 where g: "cache_dir_get fm fs = (noErr, dv, i, fs1)" "fork fs1 = fork fs"
    "clean_volume dv dd fork dir fs1" "dir fs1 (cache_folder_spec dv dd) = Some i"
    "\<forall>n. fork fs \<lparr>spec_vref = dv, spec_parid = i, spec_name = n\<rparr> = folder_file dv dd fork dir n fs"
    using cache_dir_get_ok [OF laws clean] by blast
  let ?sp = "\<lparr>spec_vref = dv, spec_parid = i, spec_name = deadhost_file\<rparr>"
  have nodir: "dir fs1 ?sp = None" using g(3) by (simp add: clean_volume_def)
  have fold: "folder_file dv dd fork dir n x = fork x \<lparr>spec_vref = dv, spec_parid = i, spec_name = n\<rparr>" if "dir x = dir fs1" for x
    using that g(4) by (simp add: folder_file_def)
  have "?file \<and> ?clean"
  proof (cases "fork fs1 ?sp")
    case None
    then have "FSMakeFSSpec fm dv i deadhost_file fs1 = (fnfErr, ?sp)"
      using nodir fm_laws_make [OF laws, of dv i deadhost_file fs1] by simp
    then show ?thesis using None g(2,3,5) fold [of fs1] by (auto simp: macos9_deadhost_clear_def g(1))
  next
    case (Some b)
    then have mk: "FSMakeFSSpec fm dv i deadhost_file fs1 = (noErr, ?sp)" by (intro make_deadhost_spec [OF laws]) simp
    obtain fs2 where d: "FSpDelete fm ?sp fs1 = (noErr, fs2)" "fork fs2 = (fork fs1)(?sp := None)" "dir fs2 = dir fs1"
      using fm_laws_delete [OF laws, of fs1 ?sp] Some by auto
    have "clean_volume dv dd fork dir fs2" using g(3) unfolding clean_volume_def d(2,3) by simp
    then show ?thesis using d mk g(2,5) fold [of fs2] by (auto simp: macos9_deadhost_clear_def g(1))
  qed
  then show ?file ?clean by simp_all
qed

section \<open>A file manager in memory\<close>

text \<open>
  One volume held in lists, with a single open path: it satisfies \<open>fm_laws\<close>, so the theorems
  below are about file systems that exist.
\<close>

record memfs =
  mf_files :: "(fsspec \<times> bytes) list"
  mf_dirs :: "(fsspec \<times> int) list"
  mf_open :: "(fsspec \<times> nat) option"

definition mem_fork :: "memfs \<Rightarrow> fsspec \<Rightarrow> bytes option" where
  "mem_fork s = map_of (mf_files s)"

definition mem_dir :: "memfs \<Rightarrow> fsspec \<Rightarrow> int option" where
  "mem_dir s = map_of (mf_dirs s)"

definition mem_mark :: "memfs \<Rightarrow> int \<Rightarrow> (fsspec \<times> nat) option" where
  "mem_mark s ref = (if ref = 1 then mf_open s else None)"

definition mem_fresh :: "(fsspec \<times> bytes) list \<Rightarrow> int" where
  "mem_fresh xs = 1 + foldr (\<lambda>x. max (spec_parid (fst x))) xs 100"

definition mem_open_file :: "memfs \<Rightarrow> (fsspec \<times> nat \<times> bytes) option" where
  "mem_open_file s = (case mf_open s of None \<Rightarrow> None
     | Some (sp, p) \<Rightarrow> (case mem_fork s sp of None \<Rightarrow> None | Some b \<Rightarrow> Some (sp, p, b)))"

definition mem_fm :: "memfs file_manager" where
  "mem_fm = \<lparr>
     FindFolder = (\<lambda>s. (noErr, 1, 2)),
     FSMakeFSSpec = (\<lambda>v d n s. let sp = \<lparr>spec_vref = v, spec_parid = d, spec_name = n\<rparr> in
        (if mem_fork s sp = None \<and> mem_dir s sp = None then fnfErr else noErr, sp)),
     FSpDirCreate = (\<lambda>sp s. (noErr, s\<lparr>mf_dirs := (sp, mem_fresh (mf_files s)) # mf_dirs s\<rparr>)),
     PBGetCatInfo = (\<lambda>sp s. case mem_dir s sp of None \<Rightarrow> (fnfErr, 0) | Some i \<Rightarrow> (noErr, i)),
     FSpCreate = (\<lambda>sp s. (noErr, s\<lparr>mf_files := (sp, []) # mf_files s\<rparr>)),
     FSpDelete = (\<lambda>sp s. (noErr, s\<lparr>mf_files := filter (\<lambda>x. fst x \<noteq> sp) (mf_files s)\<rparr>)),
     FSpOpenDF = (\<lambda>p sp s. (noErr, 1, s\<lparr>mf_open := Some (sp, 0)\<rparr>)),
     SetFPos = (\<lambda>ref q s. case mf_open s of None \<Rightarrow> s | Some (sp, p) \<Rightarrow> s\<lparr>mf_open := Some (sp, q)\<rparr>),
     FSRead = (\<lambda>ref n s. case mem_open_file s of None \<Rightarrow> (ioErr, [], s)
        | Some (sp, p, b) \<Rightarrow> (if p + n \<le> length b then noErr else eofErr, take n (drop p b),
             s\<lparr>mf_open := Some (sp, p + length (take n (drop p b)))\<rparr>)),
     FSWrite = (\<lambda>ref x s. case mem_open_file s of None \<Rightarrow> (ioErr, s)
        | Some (sp, p, b) \<Rightarrow> (noErr, s\<lparr>mf_files := (sp, take p b @ x @ drop (p + length x) b) # mf_files s,
             mf_open := Some (sp, p + length x)\<rparr>)),
     SetEOF = (\<lambda>ref n s. case mem_open_file s of None \<Rightarrow> s
        | Some (sp, p, b) \<Rightarrow> s\<lparr>mf_files := (sp, take n b) # mf_files s, mf_open := Some (sp, min p n)\<rparr>),
     FSClose = (\<lambda>ref s. s\<lparr>mf_open := None\<rparr>),
     FlushVol = (\<lambda>v s. s)\<rparr>"

lemma mem_fresh_gt: "(sp, b) \<in> set xs \<Longrightarrow> spec_parid sp < mem_fresh xs"
  unfolding mem_fresh_def by (induction xs) auto

lemma mem_fresh_none: "spec_parid sp = mem_fresh xs \<Longrightarrow> map_of xs sp = None"
  by (metis less_irrefl map_of_SomeD mem_fresh_gt not_None_eq)

lemma map_of_filter_key: "map_of (filter (\<lambda>x. fst x \<noteq> k) xs) = (map_of xs)(k := None)"
  by (induction xs) (auto simp: fun_eq_iff)

lemma mem_open_fileI: "mem_mark s ref = Some (sp, p) \<Longrightarrow> mem_fork s sp = Some b \<Longrightarrow> mem_open_file s = Some (sp, p, b) \<and> ref = 1 \<and> mf_open s = Some (sp, p)"
  by (auto simp: mem_mark_def mem_open_file_def split: if_splits)

lemma mem_fm_laws: "fm_laws mem_fm 1 2 mem_fork mem_dir mem_mark"
  unfolding fm_laws_def mem_fm_def file_manager.simps
  by (intro conjI allI impI)
    (auto simp: Let_def mem_fork_def mem_dir_def mem_mark_def map_of_filter_key fun_eq_iff mem_fresh_none
       dest: mem_open_fileI [unfolded mem_fork_def mem_mark_def] split: option.splits)

definition mem_empty :: "memfs disk_cache" where
  "mem_empty = \<lparr>dc_fs = \<lparr>mf_files = [], mf_dirs = [], mf_open = None\<rparr>, macsurf_http_skip_next_cache = False\<rparr>"

lemma mem_empty_clean: "clean_volume 1 2 mem_fork mem_dir (dc_fs mem_empty)"
  by (simp add: clean_volume_def mem_empty_def mem_fork_def mem_dir_def)

section \<open>File names\<close>

lemma hex_digit_inj: "m < 16 \<Longrightarrow> n < 16 \<Longrightarrow> hex_digit m = hex_digit n \<longleftrightarrow> m = n"
proof -
  assume "m < 16" "n < 16"
  moreover have "distinct ''0123456789abcdef''" "length ''0123456789abcdef'' = 16" by simp_all
  ultimately show ?thesis unfolding hex_digit_def by (metis nth_eq_iff_index_eq)
qed

lemma nibble_lt: "unat (w AND 0xF :: 32 word) < 16"
proof -
  have "w AND 0xF \<le> 0xF" by (rule word_and_le1)
  then show ?thesis by (simp add: word_le_nat_alt)
qed

lemma nibbles_determine:
  fixes v w :: "32 word"
  assumes "\<forall>i < 8. drop_bit (28 - i * 4) v AND 0xF = drop_bit (28 - i * 4) w AND 0xF"
  shows "v = w"
proof (rule bit_word_eqI)
  fix n assume n: "n < LENGTH(32)"
  have m: "(0xF :: 32 word) = mask 4" by (simp add: mask_eq_exp_minus_1)
  let ?i = "7 - n div 4"
  have s: "28 - ?i * 4 + n mod 4 = n" "?i < 8" "n mod 4 < 32" using n by simp_all (presburger)
  have "bit (drop_bit (28 - ?i * 4) v AND mask 4) (n mod 4) = bit (drop_bit (28 - ?i * 4) w AND mask 4) (n mod 4)"
    using assms s(2) unfolding m by simp
  then show "bit v n = bit w n"
    unfolding bit_and_iff bit_mask_iff bit_drop_bit_eq o_def s(1) using s(3) by simp
qed

section \<open>Properties\<close>

text \<open>
  Distinct hashes give distinct cache files: the file name of a URL determines its 32-bit
  FNV-1a hash and is determined by it.
\<close>

theorem cache_filename_hash:
  "cache_filename_for_url u = cache_filename_for_url u' \<longleftrightarrow> cache_hash_url u = cache_hash_url u'"
proof
  assume eq: "cache_filename_for_url u = cache_filename_for_url u'"
  have "\<forall>i < 8. drop_bit (28 - i * 4) (cache_hash_url u) AND 0xF = drop_bit (28 - i * 4) (cache_hash_url u') AND 0xF"
  proof (intro allI impI)
    fix i :: nat assume "i < 8"
    then have "hex_digit (unat (drop_bit (28 - i * 4) (cache_hash_url u) AND 0xF))
        = hex_digit (unat (drop_bit (28 - i * 4) (cache_hash_url u') AND 0xF))"
      using eq unfolding cache_filename_for_url_def Let_def by (auto simp del: upt_rec_numeral)
    then show "drop_bit (28 - i * 4) (cache_hash_url u) AND 0xF = drop_bit (28 - i * 4) (cache_hash_url u') AND 0xF"
      using hex_digit_inj [OF nibble_lt nibble_lt] by (simp add: word_unat_eq_iff)
  qed
  then show "cache_hash_url u = cache_hash_url u'" by (rule nibbles_determine)
qed (simp add: cache_filename_for_url_def)

text \<open>
  C6. Storing and looking up: after an eligible response has been stored, a lookup of any URL
  with the same file name returns the stored body, the MIME string cut to 127 bytes and status
  200; a lookup of any other URL returns what it returned before. Storing also ends the
  one-shot cache bypass, and creates the folder and the file where they are missing.
\<close>

theorem macos9_cache_store_lookup:
  assumes "fm_laws fm dv dd fork dir mark" "clean_volume dv dd fork dir (dc_fs dc)"
    and "macos9_cache_mime_eligible status (Some mime)" "NUL \<notin> set mime"
    and "body \<noteq> []" "int (length body) \<le> MACSURF_CACHE_MAX_BYTES"
  shows "fst (macos9_cache_lookup fm (\<lambda>_. True) (Some url') 128
           (macos9_cache_store fm (Some url) status (Some mime) (Some body) (int (length body)) dc)) =
     (if cache_filename_for_url (Some url') = cache_filename_for_url (Some url)
      then Some \<lparr>ch_body = body, ch_mime = take 127 mime, ch_status = 200\<rparr>
      else fst (macos9_cache_lookup fm (\<lambda>_. True) (Some url') 128 (dc\<lparr>macsurf_http_skip_next_cache := False\<rparr>)))"
proof -
  have s: "status = 200" using assms(3) by (auto simp: macos9_cache_mime_eligible_def split: if_splits)
  have p: "parse_image (\<lambda>_. True) 128 (cache_image status mime body)
     = Some \<lparr>ch_body = body, ch_mime = take 127 mime, ch_status = 200\<rparr>"
    using parse_cache_image [of status body mime] assms(4-) s by simp
  let ?dc = "macos9_cache_store fm (Some url) status (Some mime) (Some body) (int (length body)) dc"
  note st = store_effect [OF assms(1,2,3,5,6), where url = url]
  have "fst (macos9_cache_lookup fm (\<lambda>_. True) (Some url') 128 ?dc) = cached dv dd fork dir ?dc url'"
    using st(2) lookup_effect [OF assms(1), of ?dc url'] by simp
  also have "\<dots> = (if cache_filename_for_url (Some url') = cache_filename_for_url (Some url)
      then Some \<lparr>ch_body = body, ch_mime = take 127 mime, ch_status = 200\<rparr> else cached dv dd fork dir dc url')"
    by (simp add: cached_def st(1) p)
  also have "cached dv dd fork dir dc url' = fst (macos9_cache_lookup fm (\<lambda>_. True) (Some url') 128 (dc\<lparr>macsurf_http_skip_next_cache := False\<rparr>))"
    using lookup_effect [OF assms(1), of "dc\<lparr>macsurf_http_skip_next_cache := False\<rparr>" url'] assms(2) by (simp add: cached_def)
  finally show ?thesis .
qed

theorem macos9_cache_store_lookup_witness:
  "fst (macos9_cache_lookup mem_fm (\<lambda>_. True) (Some ''http://a/'') 128
     (macos9_cache_store mem_fm (Some ''http://a/'') 200 (Some ''text/html'') (Some ''hi'') 2 mem_empty))
   = Some \<lparr>ch_body = ''hi'', ch_mime = ''text/html'', ch_status = 200\<rparr>"
  using macos9_cache_store_lookup [OF mem_fm_laws mem_empty_clean, of 200 "''text/html''" "''hi''" "''http://a/''" "''http://a/''"]
  by (simp add: macos9_cache_mime_eligible_def strncmp_eq_def MACSURF_CACHE_MAX_BYTES_def)

text \<open>
  The cache does not compare URLs: two different URLs with the same 32-bit hash share one
  file, and looking up the second returns the page stored for the first.
\<close>

theorem macos9_cache_collision:
  assumes "fm_laws fm dv dd fork dir mark" "clean_volume dv dd fork dir (dc_fs dc)"
    and "body \<noteq> []" "int (length body) \<le> MACSURF_CACHE_MAX_BYTES"
  shows "''http://x.org/seeydy'' \<noteq> ''http://x.org/fypona'' \<and>
     fst (macos9_cache_lookup fm (\<lambda>_. True) (Some ''http://x.org/fypona'') 128
           (macos9_cache_store fm (Some ''http://x.org/seeydy'') 200 (Some ''text/html'') (Some body) (int (length body)) dc))
     = Some \<lparr>ch_body = body, ch_mime = ''text/html'', ch_status = 200\<rparr>"
proof -
  have "cache_hash_url (Some ''http://x.org/seeydy'') = cache_hash_url (Some ''http://x.org/fypona'')" by code_simp
  then have n: "cache_filename_for_url (Some ''http://x.org/fypona'') = cache_filename_for_url (Some ''http://x.org/seeydy'')"
    by (simp add: cache_filename_for_url_def)
  have e: "macos9_cache_mime_eligible 200 (Some ''text/html'')" by (simp add: macos9_cache_mime_eligible_def strncmp_eq_def)
  let ?dc = "macos9_cache_store fm (Some ''http://x.org/seeydy'') 200 (Some ''text/html'') (Some body) (int (length body)) dc"
  note st = store_effect [OF assms(1,2) e assms(3,4), where url = "''http://x.org/seeydy''"]
  have p: "parse_image (\<lambda>_. True) 128 (cache_image 200 ''text/html'' body)
     = Some \<lparr>ch_body = body, ch_mime = ''text/html'', ch_status = 200\<rparr>"
    using parse_cache_image [of 200 body "''text/html''"] assms(3,4) by simp
  have "fst (macos9_cache_lookup fm (\<lambda>_. True) (Some ''http://x.org/fypona'') 128 ?dc) = cached dv dd fork dir ?dc ''http://x.org/fypona''"
    using st(2) lookup_effect [OF assms(1), of ?dc] by simp
  also have "\<dots> = Some \<lparr>ch_body = body, ch_mime = ''text/html'', ch_status = 200\<rparr>"
    by (simp add: cached_def st(1) n p)
  finally show ?thesis by simp
qed

theorem macos9_cache_collision_witness:
  "fst (macos9_cache_lookup mem_fm (\<lambda>_. True) (Some ''http://x.org/fypona'') 128
     (macos9_cache_store mem_fm (Some ''http://x.org/seeydy'') 200 (Some ''text/html'') (Some ''hi'') 2 mem_empty))
   = Some \<lparr>ch_body = ''hi'', ch_mime = ''text/html'', ch_status = 200\<rparr>"
  using macos9_cache_collision [OF mem_fm_laws mem_empty_clean, of "''hi''"]
  by (simp add: MACSURF_CACHE_MAX_BYTES_def)

text \<open>
  C7. Whatever the disk holds and whichever File Manager calls fail, a cache hit delivers a
  non-empty body of at most one megabyte, and a MIME string that fits the caller's buffer with
  its terminator and never exceeds 127 bytes.
\<close>

theorem macos9_cache_lookup_bounds:
  assumes "fst (macos9_cache_lookup fm malloc_ok url mime_cap dc) = Some h" "0 < mime_cap"
  shows "0 < length (ch_body h) \<and> int (length (ch_body h)) \<le> MACSURF_CACHE_MAX_BYTES
     \<and> malloc_ok (length (ch_body h)) \<and> length (ch_mime h) < mime_cap \<and> length (ch_mime h) \<le> 127"
proof -
  have cs: "length (cstr (take k m)) \<le> k" for k m
    unfolding cstr_def by (rule order_trans [OF length_takeWhile_le]) simp
  obtain ref fs where r: "fst (cache_read_file fm malloc_ok ref mime_cap fs) = Some h"
    using assms(1) unfolding macos9_cache_lookup_def by (auto split: if_splits prod.splits) (metis fst_conv)
  obtain err hdr fs1 where 1: "FSRead fm ref 24 fs = (err, hdr, fs1)" by (metis prod_cases3)
  define ml where "ml = unat (cache_read_be32 (drop 12 hdr))"
  define bl where "bl = unat (cache_read_be32 (drop 16 hdr))"
  obtain e2 mb fs2 where 2: "(if ml > 0 then FSRead fm ref ml fs1 else (noErr, [], fs1)) = (e2, mb, fs2)" by (metis prod_cases3)
  obtain e3 bd fs3 where 3: "FSRead fm ref bl fs2 = (e3, bd, fs3)" by (metis prod_cases3)
  have "ml \<le> 127 \<and> bl \<noteq> 0 \<and> int bl \<le> MACSURF_CACHE_MAX_BYTES \<and> malloc_ok bl \<and> ch_body h = bd \<and> length bd = bl
    \<and> ch_mime h = cstr (take (if ml \<ge> mime_cap then mime_cap - 1 else ml) mb)"
    using r unfolding cache_read_file_def 1 prod.case Let_def ml_def [symmetric] bl_def [symmetric] 2 3
    by (simp split: if_splits) auto
  moreover from this have "length (ch_mime h) \<le> (if ml \<ge> mime_cap then mime_cap - 1 else ml)" using cs by simp
  ultimately show ?thesis using assms(2) by (auto split: if_splits)
qed

theorem macos9_cache_lookup_bounds_witness:
  "0 < length (ch_body \<lparr>ch_body = ''hi'', ch_mime = ''text/html'', ch_status = 200\<rparr>)"
proof -
  have "fst (macos9_cache_lookup mem_fm (\<lambda>_. True) (Some ''http://a/'') 128
     (macos9_cache_store mem_fm (Some ''http://a/'') 200 (Some ''text/html'') (Some ''hi'') 2 mem_empty))
   = Some \<lparr>ch_body = ''hi'', ch_mime = ''text/html'', ch_status = 200\<rparr>"
    by code_simp
  from macos9_cache_lookup_bounds [OF this] show ?thesis by simp
qed

text \<open>
  The dead-host file: what was saved is loaded, cut to the caller's buffer less one byte;
  clearing removes it; and neither touches a cached page.
\<close>

theorem macos9_deadhost_roundtrip:
  assumes "fm_laws fm dv dd fork dir mark" "clean_volume dv dd fork dir (dc_fs dc)" "0 < cap"
  shows "fst (macos9_deadhost_load fm cap (macos9_deadhost_save fm (Some b) (dc_fs dc))) = take (nat (cap - 1)) b
     \<and> fst (macos9_deadhost_load fm cap (macos9_deadhost_clear fm (dc_fs dc))) = []
     \<and> fst (macos9_cache_lookup fm (\<lambda>_. True) (Some url) 128 (dc\<lparr>dc_fs := macos9_deadhost_save fm (Some b) (dc_fs dc)\<rparr>))
        = fst (macos9_cache_lookup fm (\<lambda>_. True) (Some url) 128 dc)"
proof (intro conjI)
  note sv = deadhost_save_effect [OF assms(1,2), where b = b]
  show "fst (macos9_deadhost_load fm cap (macos9_deadhost_save fm (Some b) (dc_fs dc))) = take (nat (cap - 1)) b"
    using deadhost_load_effect [OF assms(1) sv(2) assms(3)] sv(1) by simp
  show "fst (macos9_deadhost_load fm cap (macos9_deadhost_clear fm (dc_fs dc))) = []"
    using deadhost_load_effect [OF assms(1) deadhost_clear_effect(2) [OF assms(1,2)] assms(3)]
      deadhost_clear_effect(1) [OF assms(1,2)] by simp
  show "fst (macos9_cache_lookup fm (\<lambda>_. True) (Some url) 128 (dc\<lparr>dc_fs := macos9_deadhost_save fm (Some b) (dc_fs dc)\<rparr>))
        = fst (macos9_cache_lookup fm (\<lambda>_. True) (Some url) 128 dc)"
    using lookup_effect [OF assms(1), of "dc\<lparr>dc_fs := macos9_deadhost_save fm (Some b) (dc_fs dc)\<rparr>" url]
      lookup_effect [OF assms(1,2), of url] sv by (simp add: cached_def)
qed

theorem macos9_deadhost_roundtrip_witness:
  "fst (macos9_deadhost_load mem_fm 100 (macos9_deadhost_save mem_fm (Some ''a.com:443'') (dc_fs mem_empty))) = ''a.com:443''"
  using macos9_deadhost_roundtrip [OF mem_fm_laws mem_empty_clean, of 100 "''a.com:443''"] by simp

end
