(* ===== verification/ChunkedDecoder.thy ===== *)
theory ChunkedDecoder
  imports MS_Prelude DiskCache
begin

text \<open>
  The chunked transfer-encoding decoder of \<open>frontends/macos9/macos9_http_fetcher.c\<close>
  (\<open>process_chunked_bytes\<close>) and the capture buffer that collects a body for the disk cache
  (\<open>cache_capture_append\<close>).

  The decoder fields of \<open>struct macos9_fetch_ctx\<close> are the record \<open>chunk_dec\<close>, the capture
  fields and the byte counter extend it to \<open>body_ctx\<close>, and the HTTP fetcher extends that to
  the whole slot; the operations are defined on every extension. \<open>chunk_size_buf\<close> is the
  filled part of the 16-byte array, \<open>cache_capture\<close> the filled part of the heap buffer (its
  length is \<open>cache_cap_len\<close>, \<open>None\<close> the null pointer). The outer loop of the decoder need not
  return, so it is an option-valued partial function; \<open>realloc_ok\<close> says whether \<open>realloc\<close> to
  a size succeeds. Delivered body data is the list of \<open>FETCH_DATA\<close> payloads.

  \<open>chunk_byte\<close> is a decoder that takes one byte at a time; the properties relate the code to it.
\<close>

section \<open>State\<close>

datatype chunk_state = CS_SIZE | CS_DATA | CS_CRLF | CS_TRAILER | CS_DONE

record chunk_dec =
  chunk_state :: chunk_state
  chunk_remaining :: int
  chunk_size_buf :: bytes
  trailer_just_after_eol :: bool

record body_ctx = chunk_dec +
  body_bytes :: int
  cache_eligible :: bool
  cache_capture :: "bytes option"
  cache_cap_cap :: int
  cache_overflow :: bool

section \<open>The capture buffer\<close>

definition cache_cap_len :: "'a body_ctx_scheme \<Rightarrow> int" where
  "cache_cap_len c = (case cache_capture c of None \<Rightarrow> 0 | Some b \<Rightarrow> int (length b))"

text \<open>The doubling loop; the capacity it starts from is positive.\<close>

function grow_cap :: "int \<Rightarrow> int \<Rightarrow> int" where
  "grow_cap cap want = (if 0 < cap \<and> cap < want then grow_cap (cap * 2) want else cap)"
  by pat_completeness auto
termination by (relation "measure (\<lambda>(cap, want). nat (want - cap))") auto

declare grow_cap.simps [simp del]

definition cache_capture_drop :: "'a body_ctx_scheme \<Rightarrow> 'a body_ctx_scheme" where
  "cache_capture_drop c =
     (let c1 = c\<lparr>cache_overflow := True\<rparr> in
      if cache_capture c \<noteq> None then c1\<lparr>cache_capture := None, cache_cap_cap := 0\<rparr> else c1)"

definition cache_capture_append :: "(int \<Rightarrow> bool) \<Rightarrow> bytes \<Rightarrow> 'a body_ctx_scheme \<Rightarrow> 'a body_ctx_scheme" where
  "cache_capture_append realloc_ok buf c =
     (if buf = [] then c
      else if cache_overflow c then c
      else if \<not> cache_eligible c then c
      else
        (let want = cache_cap_len c + int (length buf) in
         if want > MACSURF_CACHE_MAX_BYTES then cache_capture_drop c
         else if want > cache_cap_cap c then
           (let cap0 = (if cache_cap_cap c = 0 then 4096 else cache_cap_cap c * 2);
                cap = min (grow_cap cap0 want) MACSURF_CACHE_MAX_BYTES
            in if \<not> realloc_ok cap then cache_capture_drop c
               else c\<lparr>cache_cap_cap := cap,
                      cache_capture := Some (case cache_capture c of None \<Rightarrow> buf | Some b \<Rightarrow> b @ buf)\<rparr>)
         else c\<lparr>cache_capture := Some (case cache_capture c of None \<Rightarrow> buf | Some b \<Rightarrow> b @ buf)\<rparr>))"

section \<open>The decoder\<close>

text \<open>The line feed that ends a chunk-size line.\<close>

definition chunk_size_end :: "'a chunk_dec_scheme \<Rightarrow> 'a chunk_dec_scheme" where
  "chunk_size_end c =
     (let sz = strtol 16 (cstr (chunk_size_buf c));
          c1 = c\<lparr>chunk_size_buf := [], chunk_remaining := sz\<rparr>
      in if sz = 0 then c1\<lparr>chunk_state := CS_TRAILER, trailer_just_after_eol := True\<rparr>
         else c1\<lparr>chunk_state := CS_DATA\<rparr>)"

fun chunk_size_loop :: "'a chunk_dec_scheme \<Rightarrow> bytes \<Rightarrow> 'a chunk_dec_scheme \<times> bytes" where
  "chunk_size_loop c [] = (c, [])"
| "chunk_size_loop c (ch # b) =
     (if ch = LF then (chunk_size_end c, b)
      else if ch = CR then chunk_size_loop c b
      else if length (chunk_size_buf c) < 15
      then chunk_size_loop (c\<lparr>chunk_size_buf := chunk_size_buf c @ [ch]\<rparr>) b
      else chunk_size_loop c b)"

fun chunk_crlf_loop :: "'a chunk_dec_scheme \<Rightarrow> bytes \<Rightarrow> 'a chunk_dec_scheme \<times> bytes" where
  "chunk_crlf_loop c [] = (c, [])"
| "chunk_crlf_loop c (ch # b) =
     (if ch = LF then (c\<lparr>chunk_state := CS_SIZE\<rparr>, b) else chunk_crlf_loop c b)"

fun chunk_trailer_loop :: "'a chunk_dec_scheme \<Rightarrow> bytes \<Rightarrow> 'a chunk_dec_scheme \<times> bytes" where
  "chunk_trailer_loop c [] = (c, [])"
| "chunk_trailer_loop c (ch # b) =
     (if ch = CR then chunk_trailer_loop c b
      else if ch = LF then
        (if trailer_just_after_eol c then (c\<lparr>chunk_state := CS_DONE\<rparr>, b)
         else chunk_trailer_loop (c\<lparr>trailer_just_after_eol := True\<rparr>) b)
      else chunk_trailer_loop (c\<lparr>trailer_just_after_eol := False\<rparr>) b)"

definition chunk_data_step ::
    "(int \<Rightarrow> bool) \<Rightarrow> 'a body_ctx_scheme \<Rightarrow> bytes \<Rightarrow> 'a body_ctx_scheme \<times> bytes \<times> bytes list" where
  "chunk_data_step realloc_ok c b =
     (let avail = int (length b);
          deliver = (if avail < chunk_remaining c then avail else chunk_remaining c);
          d = take (nat deliver) b;
          c1 = (if deliver > 0
                then (cache_capture_append realloc_ok d c)
                       \<lparr>body_bytes := body_bytes c + deliver, chunk_remaining := chunk_remaining c - deliver\<rparr>
                else c);
          c2 = (if chunk_remaining c1 = 0 then c1\<lparr>chunk_state := CS_CRLF\<rparr> else c1)
      in (c2, drop (nat deliver) b, if deliver > 0 then [d] else []))"

text \<open>One pass through the \<open>switch\<close>: new context, bytes left, \<open>FETCH_DATA\<close> payloads sent.\<close>

definition chunk_switch ::
    "(int \<Rightarrow> bool) \<Rightarrow> 'a body_ctx_scheme \<Rightarrow> bytes \<Rightarrow> 'a body_ctx_scheme \<times> bytes \<times> bytes list" where
  "chunk_switch realloc_ok c b =
     (case chunk_state c of
        CS_SIZE \<Rightarrow> (case chunk_size_loop c b of (c', b') \<Rightarrow> (c', b', []))
      | CS_DATA \<Rightarrow> chunk_data_step realloc_ok c b
      | CS_CRLF \<Rightarrow> (case chunk_crlf_loop c b of (c', b') \<Rightarrow> (c', b', []))
      | CS_TRAILER \<Rightarrow> (case chunk_trailer_loop c b of (c', b') \<Rightarrow> (c', b', []))
      | CS_DONE \<Rightarrow> (c, b, []))"

partial_function (option) process_chunked_bytes ::
    "(int \<Rightarrow> bool) \<Rightarrow> 'a body_ctx_scheme \<Rightarrow> bytes \<Rightarrow> bytes list \<Rightarrow> ('a body_ctx_scheme \<times> bytes list) option" where
  "process_chunked_bytes realloc_ok c b msgs =
     (if b \<noteq> [] \<and> chunk_state c \<noteq> CS_DONE
      then (case chunk_switch realloc_ok c b of (c', b', ms) \<Rightarrow>
              process_chunked_bytes realloc_ok c' b' (msgs @ ms))
      else Some (c, msgs))"

declare process_chunked_bytes.simps [code]

section \<open>The byte-at-a-time decoder\<close>

definition chunk_byte :: "chunk_dec \<Rightarrow> char \<Rightarrow> chunk_dec \<times> bytes" where
  "chunk_byte c ch =
     (case chunk_state c of
        CS_SIZE \<Rightarrow>
          (if ch = LF then chunk_size_end c
           else if ch = CR \<or> 15 \<le> length (chunk_size_buf c) then c
           else c\<lparr>chunk_size_buf := chunk_size_buf c @ [ch]\<rparr>, [])
      | CS_DATA \<Rightarrow>
          (c\<lparr>chunk_remaining := chunk_remaining c - 1,
             chunk_state := if chunk_remaining c = 1 then CS_CRLF else CS_DATA\<rparr>, [ch])
      | CS_CRLF \<Rightarrow> (if ch = LF then c\<lparr>chunk_state := CS_SIZE\<rparr> else c, [])
      | CS_TRAILER \<Rightarrow>
          (if ch = CR then c
           else if ch = LF then (if trailer_just_after_eol c then c\<lparr>chunk_state := CS_DONE\<rparr> else c\<lparr>trailer_just_after_eol := True\<rparr>)
           else c\<lparr>trailer_just_after_eol := False\<rparr>, [])
      | CS_DONE \<Rightarrow> (c, []))"

text \<open>A negative size has been read and its data is expected.\<close>

definition chunk_stuck :: "'a chunk_dec_scheme \<Rightarrow> bool" where
  "chunk_stuck c \<longleftrightarrow> chunk_state c = CS_DATA \<and> chunk_remaining c < 0"

fun chunk_run :: "chunk_dec \<Rightarrow> bytes \<Rightarrow> (chunk_dec \<times> bytes) option" where
  "chunk_run c [] = Some (c, [])"
| "chunk_run c (ch # b) =
     (if chunk_stuck c then None
      else (case chunk_byte c ch of (c', d) \<Rightarrow>
              map_option (\<lambda>(c'', d'). (c'', d @ d')) (chunk_run c' b)))"

section \<open>The decoder as a run of the byte-at-a-time decoder\<close>

definition dec :: "'a chunk_dec_scheme \<Rightarrow> chunk_dec" where
  "dec c = \<lparr>chunk_state = chunk_state c, chunk_remaining = chunk_remaining c,
            chunk_size_buf = chunk_size_buf c, trailer_just_after_eol = trailer_just_after_eol c\<rparr>"

definition set_dec :: "chunk_dec \<Rightarrow> 'a chunk_dec_scheme \<Rightarrow> 'a chunk_dec_scheme" where
  "set_dec d c = c\<lparr>chunk_state := chunk_state d, chunk_remaining := chunk_remaining d,
                   chunk_size_buf := chunk_size_buf d, trailer_just_after_eol := trailer_just_after_eol d\<rparr>"

definition chunk_inv :: "'a chunk_dec_scheme \<Rightarrow> bool" where
  "chunk_inv c \<longleftrightarrow> length (chunk_size_buf c) \<le> 15 \<and> (chunk_state c = CS_DATA \<longrightarrow> chunk_remaining c \<noteq> 0)"

lemma dec_select [simp]:
  "chunk_state (dec c) = chunk_state c" "chunk_remaining (dec c) = chunk_remaining c"
  "chunk_size_buf (dec c) = chunk_size_buf c" "trailer_just_after_eol (dec c) = trailer_just_after_eol c"
  "chunk_stuck (dec c) = chunk_stuck c" "chunk_inv (dec c) = chunk_inv c"
  by (simp_all add: dec_def chunk_stuck_def chunk_inv_def)

lemma dec_update [simp]:
  "dec (c\<lparr>chunk_state := s\<rparr>) = (dec c)\<lparr>chunk_state := s\<rparr>"
  "dec (c\<lparr>chunk_remaining := r\<rparr>) = (dec c)\<lparr>chunk_remaining := r\<rparr>"
  "dec (c\<lparr>chunk_size_buf := b\<rparr>) = (dec c)\<lparr>chunk_size_buf := b\<rparr>"
  "dec (c\<lparr>trailer_just_after_eol := t\<rparr>) = (dec c)\<lparr>trailer_just_after_eol := t\<rparr>"
  by (simp_all add: dec_def)

lemma dec_size_end [simp]: "dec (chunk_size_end c) = chunk_size_end (dec c)"
  by (simp add: chunk_size_end_def Let_def)

lemma set_dec_dec [simp]: "set_dec (dec c) c = c"
  by (simp add: set_dec_def)

lemma dec_set_dec [simp]: "dec (set_dec d c) = d"
  by (simp add: set_dec_def dec_def)

lemma chunk_run_append:
  "chunk_run c (a @ b) = Option.bind (chunk_run c a) (\<lambda>(c', d). map_option (\<lambda>(c'', d'). (c'', d @ d')) (chunk_run c' b))"
proof (induction a arbitrary: c)
  case Nil
  then show ?case by (cases "chunk_run c b") auto
next
  case (Cons ch a)
  show ?case
    by (cases "chunk_run (fst (chunk_byte c ch)) a"; cases "chunk_run c b")
      (auto simp: Cons.IH case_prod_beta option.map_comp o_def)
qed

lemma chunk_run_done: "chunk_state c = CS_DONE \<Longrightarrow> chunk_run c b = Some (c, [])"
  by (induction b) (auto simp: chunk_byte_def chunk_stuck_def)

lemma size_loop_run:
  assumes "chunk_state c = CS_SIZE" "chunk_inv c" "chunk_size_loop c b = (c', b')"
  shows "chunk_run (dec c) b = chunk_run (dec c') b' \<and> chunk_inv c' \<and> (b \<noteq> [] \<longrightarrow> length b' < length b) \<and> set_dec (dec c') c = c'"
  using assms
proof (induction c b rule: chunk_size_loop.induct)
  case (2 c ch b)
  consider (lf) "ch = LF" | (cr) "ch = CR" | (push) "ch \<noteq> LF" "ch \<noteq> CR" "length (chunk_size_buf c) < 15"
    | (full) "ch \<noteq> LF" "ch \<noteq> CR" "\<not> length (chunk_size_buf c) < 15" by blast
  then show ?case
  proof cases
    case lf
    then show ?thesis using 2(4-6)
      by (auto simp: chunk_byte_def chunk_stuck_def chunk_inv_def chunk_size_end_def Let_def set_dec_def option.map_ident option.map_id0)
  next
    case cr
    then show ?thesis using 2 by (auto simp: chunk_byte_def chunk_stuck_def option.map_ident option.map_id0)
  next
    case push
    have "chunk_inv (c\<lparr>chunk_size_buf := chunk_size_buf c @ [ch]\<rparr>)" using push 2(5) by (simp add: chunk_inv_def)
    then show ?thesis using 2(2) [OF push] 2(4-6) push
      by (auto simp: chunk_byte_def chunk_stuck_def option.map_ident option.map_id0 set_dec_def)
  next
    case full
    then show ?thesis using 2 by (auto simp: chunk_byte_def chunk_stuck_def option.map_ident option.map_id0)
  qed
qed simp

lemma crlf_loop_run:
  assumes "chunk_state c = CS_CRLF" "chunk_inv c" "chunk_crlf_loop c b = (c', b')"
  shows "chunk_run (dec c) b = chunk_run (dec c') b' \<and> chunk_inv c' \<and> (b \<noteq> [] \<longrightarrow> length b' < length b) \<and> set_dec (dec c') c = c'"
  using assms
proof (induction c b rule: chunk_crlf_loop.induct)
  case (2 c ch b)
  then show ?case
    by (cases "ch = LF") (auto simp: chunk_byte_def chunk_stuck_def chunk_inv_def set_dec_def option.map_ident option.map_id0)
qed simp

lemma trailer_loop_run:
  assumes "chunk_state c = CS_TRAILER" "chunk_inv c" "chunk_trailer_loop c b = (c', b')"
  shows "chunk_run (dec c) b = chunk_run (dec c') b' \<and> chunk_inv c' \<and> (b \<noteq> [] \<longrightarrow> length b' < length b) \<and> set_dec (dec c') c = c'"
  using assms
proof (induction c b rule: chunk_trailer_loop.induct)
  case (2 c ch b)
  have inv: "chunk_inv (c\<lparr>trailer_just_after_eol := t\<rparr>)" "chunk_inv (c\<lparr>chunk_state := CS_DONE\<rparr>)" for t
    using 2(5) by (simp_all add: chunk_inv_def)
  consider (cr) "ch = CR" | (fin) "ch = LF" "trailer_just_after_eol c"
    | (eol) "ch = LF" "\<not> trailer_just_after_eol c" | (other) "ch \<noteq> CR" "ch \<noteq> LF" by blast
  then show ?case
  proof cases
    case cr
    then show ?thesis using 2 by (auto simp: chunk_byte_def chunk_stuck_def option.map_ident option.map_id0)
  next
    case fin
    then show ?thesis using 2(4-6) inv(2)
      by (auto simp: chunk_byte_def chunk_stuck_def option.map_ident option.map_id0 set_dec_def)
  next
    case eol
    then show ?thesis using 2(2) [OF _ eol(1,2) _ inv(1)] 2(4-6)
      by (auto simp: chunk_byte_def chunk_stuck_def option.map_ident option.map_id0 set_dec_def)
  next
    case other
    then show ?thesis using 2(3) [OF other _ inv(1)] 2(4-6)
      by (auto simp: chunk_byte_def chunk_stuck_def option.map_ident option.map_id0 set_dec_def)
  qed
qed simp

lemma data_run:
  assumes "chunk_state c = CS_DATA" "int n \<le> chunk_remaining c" "0 < n" "n \<le> length b"
  shows "chunk_run c b = map_option (\<lambda>(c', d). (c', take n b @ d))
     (chunk_run (c\<lparr>chunk_remaining := chunk_remaining c - int n,
                   chunk_state := if chunk_remaining c = int n then CS_CRLF else CS_DATA\<rparr>) (drop n b))"
  using assms
proof (induction n arbitrary: c b)
  case (Suc n)
  obtain ch b' where b: "b = ch # b'" using Suc.prems by (cases b) auto
  let ?c = "c\<lparr>chunk_remaining := chunk_remaining c - 1, chunk_state := if chunk_remaining c = 1 then CS_CRLF else CS_DATA\<rparr>"
  have 1: "chunk_run c b = map_option (\<lambda>(c', d). (c', ch # d)) (chunk_run ?c b')"
    using Suc.prems by (simp add: b chunk_stuck_def chunk_byte_def)
  show ?case
  proof (cases "n = 0")
    case True
    then show ?thesis by (simp add: 1) (simp add: b)
  next
    case False
    have "chunk_run ?c b' = map_option (\<lambda>(c', d). (c', take n b' @ d))
     (chunk_run (?c\<lparr>chunk_remaining := chunk_remaining ?c - int n,
                   chunk_state := if chunk_remaining ?c = int n then CS_CRLF else CS_DATA\<rparr>) (drop n b'))"
      using False Suc.prems by (intro Suc.IH) (auto simp: b)
    then show ?thesis unfolding 1
      by (simp add: b option.map_comp o_def case_prod_beta algebra_simps)
  qed
qed simp

text \<open>Delivering one payload: capture it and count it.\<close>

definition deliver_data :: "(int \<Rightarrow> bool) \<Rightarrow> 'a body_ctx_scheme \<Rightarrow> bytes \<Rightarrow> 'a body_ctx_scheme" where
  "deliver_data realloc_ok c d =
     (cache_capture_append realloc_ok d c)\<lparr>body_bytes := body_bytes c + int (length d)\<rparr>"

lemma capture_append_dec:
  "chunk_remaining (cache_capture_append r d c) = chunk_remaining c"
  "body_bytes (cache_capture_append r d c) = body_bytes c"
  "dec (cache_capture_append r d c) = dec c"
  by (simp_all add: cache_capture_append_def cache_capture_drop_def Let_def dec_def)

lemma dec_body_bytes [simp]: "dec (c\<lparr>body_bytes := n\<rparr>) = dec c"
  by (simp add: dec_def)

lemma dec_deliver [simp]: "dec (deliver_data r c d) = dec c"
  by (simp add: deliver_data_def capture_append_dec)

lemma set_dec_commute:
  "deliver_data r (set_dec s c) d = set_dec s (deliver_data r c d)"
  by (simp add: deliver_data_def set_dec_def cache_capture_append_def cache_capture_drop_def cache_cap_len_def Let_def)

lemma set_dec_twice [simp]: "set_dec s (set_dec s' c) = set_dec s c"
  by (simp add: set_dec_def)

lemma foldl_deliver_set_dec: "foldl (deliver_data r) (set_dec s c) ds = set_dec s (foldl (deliver_data r) c ds)"
  by (induction ds arbitrary: c) (simp_all add: set_dec_commute)

lemma dec_foldl_deliver [simp]: "dec (foldl (deliver_data r) c ds) = dec c"
  by (induction ds arbitrary: c) simp_all

lemma chunk_switch_stuck: "chunk_stuck c \<Longrightarrow> chunk_switch r c b = (c, b, [])"
  by (auto simp: chunk_switch_def chunk_data_step_def chunk_stuck_def Let_def)

lemma data_step_run:
  assumes "chunk_state c = CS_DATA" "chunk_inv c" "\<not> chunk_stuck c" "b \<noteq> []"
    and "chunk_data_step r c b = (c', b', ms)"
  shows "chunk_run (dec c) b = map_option (\<lambda>(s, d). (s, concat ms @ d)) (chunk_run (dec c') b')
     \<and> chunk_inv c' \<and> length b' < length b \<and> c' = set_dec (dec c') (foldl (deliver_data r) c ms) \<and> [] \<notin> set ms"
proof -
  define n where "n = min (length b) (nat (chunk_remaining c))"
  have pos: "0 < chunk_remaining c" using assms(1-3) by (auto simp: chunk_inv_def chunk_stuck_def)
  have n: "0 < n" "n \<le> length b" "int n \<le> chunk_remaining c"
    using pos assms(4) by (auto simp: n_def min_def)
  have dl: "(if int (length b) < chunk_remaining c then int (length b) else chunk_remaining c) = int n"
    using pos by (auto simp: n_def min_def)
  have eq: "c' = (if chunk_remaining c = int n then (deliver_data r c (take n b))\<lparr>chunk_remaining := 0, chunk_state := CS_CRLF\<rparr>
                  else (deliver_data r c (take n b))\<lparr>chunk_remaining := chunk_remaining c - int n\<rparr>)"
    "b' = drop n b" "ms = [take n b]"
    using assms(5) n unfolding chunk_data_step_def Let_def dl by (auto simp: deliver_data_def)
  have "chunk_run (dec c) b = map_option (\<lambda>(s, d). (s, take n b @ d))
     (chunk_run ((dec c)\<lparr>chunk_remaining := chunk_remaining c - int n,
                   chunk_state := if chunk_remaining c = int n then CS_CRLF else CS_DATA\<rparr>) (drop n b))"
    using data_run [of "dec c" n b] assms(1) n by simp
  moreover have "dec c' = (dec c)\<lparr>chunk_remaining := chunk_remaining c - int n,
                   chunk_state := if chunk_remaining c = int n then CS_CRLF else CS_DATA\<rparr>"
    using assms(1) unfolding eq by (cases "chunk_remaining c = int n") simp_all
  moreover have "set_dec (dec c') (deliver_data r c (take n b)) = c'"
    unfolding eq set_dec_def by (simp add: dec_def)
  moreover have "chunk_inv c'"
    using assms(1,2) unfolding dec_select(6) [of c', symmetric] calculation(2) by (auto simp: chunk_inv_def)
  ultimately show ?thesis using n assms(4) by (auto simp: eq(2,3))
qed

lemma switch_run:
  assumes "chunk_inv c" "\<not> chunk_stuck c" "chunk_state c \<noteq> CS_DONE" "b \<noteq> []"
    and "chunk_switch r c b = (c', b', ms)"
  shows "chunk_run (dec c) b = map_option (\<lambda>(s, d). (s, concat ms @ d)) (chunk_run (dec c') b')
     \<and> chunk_inv c' \<and> length b' < length b \<and> c' = set_dec (dec c') (foldl (deliver_data r) c ms) \<and> [] \<notin> set ms"
proof (cases "chunk_state c")
  case CS_SIZE
  obtain x y where "chunk_size_loop c b = (x, y)" by fastforce
  with size_loop_run [OF CS_SIZE assms(1) this] CS_SIZE assms(4,5) show ?thesis
    by (auto simp: chunk_switch_def option.map_ident option.map_id0)
next
  case CS_DATA
  with assms show ?thesis by (intro data_step_run) (auto simp: chunk_switch_def)
next
  case CS_CRLF
  obtain x y where "chunk_crlf_loop c b = (x, y)" by fastforce
  with crlf_loop_run [OF CS_CRLF assms(1) this] CS_CRLF assms(4,5) show ?thesis
    by (auto simp: chunk_switch_def option.map_ident option.map_id0)
next
  case CS_TRAILER
  obtain x y where "chunk_trailer_loop c b = (x, y)" by fastforce
  with trailer_loop_run [OF CS_TRAILER assms(1) this] CS_TRAILER assms(4,5) show ?thesis
    by (auto simp: chunk_switch_def option.map_ident option.map_id0)
qed (use assms in simp)

lemma process_stuck:
  assumes "process_chunked_bytes r c b msgs = Some z"
  shows "b = [] \<or> \<not> chunk_stuck c"
  using assms
proof (rule process_chunked_bytes.raw_induct [where P = "\<lambda>r c b msgs z. b = [] \<or> \<not> chunk_stuck c", rotated])
  fix f :: "(int \<Rightarrow> bool) \<Rightarrow> 'a body_ctx_scheme \<Rightarrow> bytes \<Rightarrow> bytes list \<Rightarrow> ('a body_ctx_scheme \<times> bytes list) option"
    and r and c :: "'a body_ctx_scheme" and b msgs z
  assume IH: "\<And>r c b msgs z. f r c b msgs = Some z \<Longrightarrow> b = [] \<or> \<not> chunk_stuck c"
    and eq: "(if b \<noteq> [] \<and> chunk_state c \<noteq> CS_DONE
        then (case chunk_switch r c b of (c', b', ms) \<Rightarrow> f r c' b' (msgs @ ms)) else Some (c, msgs)) = Some z"
  show "b = [] \<or> \<not> chunk_stuck c"
  proof (rule ccontr)
    assume "\<not> (b = [] \<or> \<not> chunk_stuck c)"
    then have "f r c b msgs = Some z" "b \<noteq> []" "chunk_stuck c"
      using eq by (auto simp: chunk_switch_stuck chunk_stuck_def)
    with IH show False by blast
  qed
qed

lemma process_run:
  assumes "chunk_inv c"
  shows "(chunk_run (dec c) b = None \<longrightarrow> process_chunked_bytes r c b msgs = None)
     \<and> (\<forall>s d. chunk_run (dec c) b = Some (s, d) \<longrightarrow>
         (\<exists>ms. process_chunked_bytes r c b msgs = Some (set_dec s (foldl (deliver_data r) c ms), msgs @ ms)
            \<and> concat ms = d \<and> [] \<notin> set ms))"
  using assms
proof (induction "length b" arbitrary: c b msgs rule: less_induct)
  case less
  consider (fin) "b = [] \<or> chunk_state c = CS_DONE" | (stuck) "b \<noteq> []" "chunk_stuck c"
    | (step) "b \<noteq> []" "chunk_state c \<noteq> CS_DONE" "\<not> chunk_stuck c" by blast
  then show ?case
  proof cases
    case fin
    then have "chunk_run (dec c) b = Some (dec c, [])" by (auto simp: chunk_run_done)
    moreover have "process_chunked_bytes r c b msgs = Some (c, msgs)" using fin by (subst process_chunked_bytes.simps) auto
    ultimately show ?thesis by (auto intro: exI [of _ "[]"])
  next
    case stuck
    then have "process_chunked_bytes r c b msgs = None" using process_stuck [of r c b msgs] by (metis not_None_eq)
    moreover have "chunk_run (dec c) b = None" using stuck by (cases b) auto
    ultimately show ?thesis by simp
  next
    case step
    obtain c' b' ms where sw: "chunk_switch r c b = (c', b', ms)" by (metis prod_cases3)
    note sr = switch_run [OF less.prems step(3,2,1) sw]
    have p: "process_chunked_bytes r c b msgs = process_chunked_bytes r c' b' (msgs @ ms)"
      using step sw by (subst process_chunked_bytes.simps) simp
    have ih: "chunk_run (dec c') b' = None \<longrightarrow> process_chunked_bytes r c' b' (msgs @ ms) = None"
      "\<forall>s d. chunk_run (dec c') b' = Some (s, d) \<longrightarrow>
         (\<exists>ms'. process_chunked_bytes r c' b' (msgs @ ms) = Some (set_dec s (foldl (deliver_data r) c' ms'), (msgs @ ms) @ ms')
            \<and> concat ms' = d \<and> [] \<notin> set ms')"
      using less.hyps [of b' c' "msgs @ ms"] sr by blast+
    show ?thesis
    proof (cases "chunk_run (dec c') b'")
      case None
      then show ?thesis using sr p ih(1) by simp
    next
      case (Some sd)
      then obtain s d where sd: "chunk_run (dec c') b' = Some (s, d)" by (cases sd) auto
      with ih(2) obtain ms' where q: "process_chunked_bytes r c' b' (msgs @ ms) = Some (set_dec s (foldl (deliver_data r) c' ms'), (msgs @ ms) @ ms')"
        "concat ms' = d" "[] \<notin> set ms'" by blast
      have "c' = set_dec (dec c') (foldl (deliver_data r) c ms)" using sr by blast
      then have "foldl (deliver_data r) c' ms' = set_dec (dec c') (foldl (deliver_data r) (foldl (deliver_data r) c ms) ms')"
        by (metis foldl_deliver_set_dec)
      then have "set_dec s (foldl (deliver_data r) c' ms') = set_dec s (foldl (deliver_data r) c (ms @ ms'))" by simp
      then show ?thesis using sr sd p q by (auto intro!: exI [of _ "ms @ ms'"])
    qed
  qed
qed

section \<open>The capture buffer\<close>

definition capture_inv :: "'a body_ctx_scheme \<Rightarrow> bool" where
  "capture_inv c \<longleftrightarrow> cache_cap_len c \<le> cache_cap_cap c \<and> cache_cap_cap c \<le> MACSURF_CACHE_MAX_BYTES
     \<and> (cache_overflow c \<longrightarrow> cache_capture c = None)"

lemma grow_cap_ge: "0 < cap \<Longrightarrow> want \<le> grow_cap cap want"
  by (induction cap want rule: grow_cap.induct) (subst grow_cap.simps, auto)

lemma cache_cap_len_nonneg [simp]: "0 \<le> cache_cap_len c"
  by (simp add: cache_cap_len_def split: option.splits)

lemma capture_append_inv:
  assumes "capture_inv c"
  shows "capture_inv (cache_capture_append r buf c)"
proof -
  let ?want = "cache_cap_len c + int (length buf)"
  let ?cap0 = "if cache_cap_cap c = 0 then 4096 else cache_cap_cap c * 2"
  have "0 \<le> cache_cap_cap c" using assms cache_cap_len_nonneg [of c] unfolding capture_inv_def by linarith
  then have g: "?want \<le> grow_cap ?cap0 ?want" by (intro grow_cap_ge) auto
  show ?thesis
    using assms g
    by (cases "cache_capture c")
      (auto simp: capture_inv_def cache_capture_append_def cache_capture_drop_def Let_def cache_cap_len_def min_def)
qed

lemma deliver_data_inv: "capture_inv c \<Longrightarrow> capture_inv (deliver_data r c d)"
  using capture_append_inv [of c r d] by (simp add: deliver_data_def capture_inv_def cache_cap_len_def)

lemma foldl_deliver_inv: "capture_inv c \<Longrightarrow> capture_inv (foldl (deliver_data r) c ds)"
  by (induction ds arbitrary: c) (simp_all add: deliver_data_inv)

text \<open>The bytes held: nothing is the empty string.\<close>

definition captured :: "'a body_ctx_scheme \<Rightarrow> bytes" where
  "captured c = (case cache_capture c of None \<Rightarrow> [] | Some b \<Rightarrow> b)"

lemma cache_cap_len_captured: "cache_cap_len c = int (length (captured c))"
  by (simp add: cache_cap_len_def captured_def split: option.splits)

lemma deliver_data_fields:
  "cache_eligible (deliver_data r c d) = cache_eligible c"
  "body_bytes (deliver_data r c d) = body_bytes c + int (length d)"
  "cache_overflow c \<Longrightarrow> deliver_data r c d = c\<lparr>body_bytes := body_bytes c + int (length d)\<rparr>"
  by (simp_all add: deliver_data_def cache_capture_append_def cache_capture_drop_def Let_def)

lemma deliver_data_captured:
  assumes "cache_eligible c" "\<not> cache_overflow c"
  shows "if cache_overflow (deliver_data (\<lambda>_. True) c d)
     then MACSURF_CACHE_MAX_BYTES < int (length (captured c @ d)) \<and> captured (deliver_data (\<lambda>_. True) c d) = []
     else (d \<noteq> [] \<longrightarrow> int (length (captured c @ d)) \<le> MACSURF_CACHE_MAX_BYTES) \<and> captured (deliver_data (\<lambda>_. True) c d) = captured c @ d"
proof (cases "cache_capture c")
  case None
  then show ?thesis using assms
    by (auto simp: deliver_data_def cache_capture_append_def cache_capture_drop_def Let_def captured_def cache_cap_len_def)
next
  case (Some b)
  then show ?thesis using assms
    by (auto simp: deliver_data_def cache_capture_append_def cache_capture_drop_def Let_def captured_def cache_cap_len_def)
qed

lemma foldl_overflow:
  "cache_overflow c \<Longrightarrow> captured c = [] \<Longrightarrow> cache_overflow (foldl (deliver_data r) c ds) \<and> captured (foldl (deliver_data r) c ds) = []"
  by (induction ds arbitrary: c) (auto simp: deliver_data_fields(3) captured_def)

lemma foldl_deliver_captured:
  assumes "cache_eligible c" "\<not> cache_overflow c" "int (length (captured c)) \<le> MACSURF_CACHE_MAX_BYTES"
  shows "if int (length (captured c @ concat ds)) \<le> MACSURF_CACHE_MAX_BYTES
     then \<not> cache_overflow (foldl (deliver_data (\<lambda>_. True)) c ds) \<and> captured (foldl (deliver_data (\<lambda>_. True)) c ds) = captured c @ concat ds
     else cache_overflow (foldl (deliver_data (\<lambda>_. True)) c ds) \<and> captured (foldl (deliver_data (\<lambda>_. True)) c ds) = []"
  using assms
proof (induction ds arbitrary: c)
  case (Cons d ds)
  let ?c = "deliver_data (\<lambda>_. True) c d"
  show ?case
  proof (cases "cache_overflow ?c")
    case True
    then have "MACSURF_CACHE_MAX_BYTES < int (length (captured c @ d))" "captured ?c = []"
      using deliver_data_captured [OF Cons.prems(1,2), of d] by simp_all
    with True show ?thesis using foldl_overflow [of ?c "\<lambda>_. True" ds] by simp
  next
    case False
    then have d: "captured ?c = captured c @ d" "d \<noteq> [] \<longrightarrow> int (length (captured c @ d)) \<le> MACSURF_CACHE_MAX_BYTES"
      using deliver_data_captured [OF Cons.prems(1,2), of d] by simp_all
    then have "int (length (captured ?c)) \<le> MACSURF_CACHE_MAX_BYTES" using Cons.prems(3) by (cases "d = []") simp_all
    with Cons.IH [of ?c] False Cons.prems(1) d(1) show ?thesis by (simp add: deliver_data_fields(1))
  qed
qed simp

section \<open>Well-formed chunked bodies\<close>

fun show_hex :: "nat \<Rightarrow> string" where
  "show_hex n = (if n < 16 then [hex_digit n] else show_hex (n div 16) @ [hex_digit (n mod 16)])"

declare show_hex.simps [simp del]

definition chunk_encode :: "bytes list \<Rightarrow> bytes" where
  "chunk_encode ds = concat (map (\<lambda>d. show_hex (length d) @ [CR, LF] @ d @ [CR, LF]) ds) @ ''0'' @ [CR, LF, CR, LF]"

lemma hex_digit_cases: "n < 16 \<Longrightarrow> digit_value (hex_digit n) = Some n \<and> hex_digit n \<notin> {NUL, CR, LF, CHR ''x'', CHR ''X'', CHR ''-'', CHR ''+''}
   \<and> \<not> isspace_c (hex_digit n)"
proof -
  assume "n < 16"
  then have "n \<in> set [0..<16]" by simp
  moreover have "\<forall>n \<in> set [0..<16]. digit_value (hex_digit n) = Some n \<and> hex_digit n \<notin> {NUL, CR, LF, CHR ''x'', CHR ''X'', CHR ''-'', CHR ''+''}
   \<and> \<not> isspace_c (hex_digit n)" by code_simp
  ultimately show ?thesis by blast
qed

lemma show_hex_chars: "ch \<in> set (show_hex n) \<Longrightarrow> \<exists>k < 16. ch = hex_digit k"
proof (induction n rule: show_hex.induct)
  case (1 n)
  have "ch \<in> set (show_hex (n div 16)) \<and> \<not> n < 16 \<or> ch = hex_digit (n mod 16)"
    using 1(2) by (subst (asm) show_hex.simps) (auto split: if_splits)
  then show ?case using 1(1) by (auto intro: exI [of _ "n mod 16"])
qed

lemma strtol_digits_append:
  "(\<forall>ch \<in> set xs. \<exists>d < base. digit_value ch = Some d) \<Longrightarrow> strtol_digits base acc (xs @ ys) = strtol_digits base (strtol_digits base acc xs) ys"
  by (induction xs arbitrary: acc) auto

lemma strtol_digits_show_hex: "strtol_digits 16 0 (show_hex n) = n"
proof (induction n rule: show_hex.induct)
  case (1 n)
  show ?case
  proof (cases "n < 16")
    case True
    then show ?thesis using hex_digit_cases [of n] by (subst show_hex.simps) simp
  next
    case False
    have v: "\<forall>ch \<in> set (show_hex (n div 16)). \<exists>d < 16. digit_value ch = Some d"
      using show_hex_chars hex_digit_cases by blast
    have "strtol_digits 16 0 (show_hex (n div 16) @ [hex_digit (n mod 16)]) = n div 16 * 16 + n mod 16"
      using strtol_digits_append [OF v, of 0 "[hex_digit (n mod 16)]"] 1 False hex_digit_cases [of "n mod 16"] by simp
    with False show ?thesis by (subst show_hex.simps) simp
  qed
qed

lemma show_hex_length: "n < 16 ^ Suc k \<Longrightarrow> length (show_hex n) \<le> Suc k"
proof (induction k arbitrary: n)
  case 0
  then show ?case by (subst show_hex.simps) simp
next
  case (Suc k)
  show ?case
  proof (cases "n < 16")
    case True
    then show ?thesis by (subst show_hex.simps) simp
  next
    case False
    have "n div 16 < 16 ^ Suc k" using Suc.prems by (simp add: less_mult_imp_div_less mult.commute)
    with Suc.IH [of "n div 16"] False show ?thesis by (subst show_hex.simps) simp
  qed
qed

lemma strtol_show_hex:
  assumes "int n \<le> LONG_MAX"
  shows "strtol 16 (show_hex n) = int n"
proof -
  have ne: "show_hex n \<noteq> []" by (subst show_hex.simps) simp
  obtain ch cs where s: "show_hex n = ch # cs" using ne by (cases "show_hex n") auto
  obtain k where k: "k < 16" "ch = hex_digit k" using show_hex_chars [of ch n] s by auto
  have nox: "CHR ''x'' \<notin> set (show_hex n)" "CHR ''X'' \<notin> set (show_hex n)"
    using show_hex_chars hex_digit_cases by fastforce+
  have x2: "take 2 (show_hex n) \<noteq> ''0x''" "take 2 (show_hex n) \<noteq> ''0X''"
    using nox in_set_takeD [of _ 2 "show_hex n"] by (metis list.set_intros)+
  have "dropWhile isspace_c (show_hex n) = show_hex n" "take 1 (show_hex n) \<noteq> ''-''" "take 1 (show_hex n) \<noteq> ''+''"
    using k hex_digit_cases [OF k(1)] by (auto simp: s)
  then have "strtol 16 (show_hex n) = max LONG_MIN (min LONG_MAX (int (strtol_digits 16 0 (show_hex n))))"
    unfolding strtol_def Let_def using x2 by simp
  then show ?thesis using assms by (simp add: strtol_digits_show_hex LONG_MIN_def)
qed

lemma run_size_chars:
  assumes "chunk_state c = CS_SIZE" "length (chunk_size_buf c) + length xs \<le> 15" "CR \<notin> set xs" "LF \<notin> set xs"
  shows "chunk_run c (xs @ b) = chunk_run (c\<lparr>chunk_size_buf := chunk_size_buf c @ xs\<rparr>) b"
  using assms
proof (induction xs arbitrary: c)
  case (Cons x xs)
  have "chunk_run c ((x # xs) @ b) = chunk_run (c\<lparr>chunk_size_buf := chunk_size_buf c @ [x]\<rparr>) (xs @ b)"
    using Cons.prems by (auto simp: chunk_stuck_def chunk_byte_def option.map_ident option.map_id0)
  also have "\<dots> = chunk_run (c\<lparr>chunk_size_buf := chunk_size_buf c @ (x # xs)\<rparr>) b"
    using Cons.IH [of "c\<lparr>chunk_size_buf := chunk_size_buf c @ [x]\<rparr>"] Cons.prems by simp
  finally show ?case .
qed simp

lemma run_size_line:
  assumes "chunk_state c = CS_SIZE" "chunk_size_buf c = []" "length xs \<le> 15" "CR \<notin> set xs" "LF \<notin> set xs"
  shows "chunk_run c (xs @ [CR, LF] @ b) = chunk_run (chunk_size_end (c\<lparr>chunk_size_buf := xs\<rparr>)) b"
  using run_size_chars [of c xs "[CR, LF] @ b"] assms
  by (auto simp: chunk_stuck_def chunk_byte_def option.map_ident option.map_id0)

lemma run_chunk:
  assumes "chunk_state c = CS_SIZE" "chunk_size_buf c = []" "d \<noteq> []" "int (length d) \<le> LONG_MAX"
  shows "\<exists>c'. chunk_state c' = CS_SIZE \<and> chunk_size_buf c' = [] \<and>
     chunk_run c (show_hex (length d) @ [CR, LF] @ d @ [CR, LF] @ b) = map_option (\<lambda>(s, e). (s, d @ e)) (chunk_run c' b)"
proof -
  let ?h = "show_hex (length d)"
  have "length d < 16 ^ Suc 7" using assms(4) by (simp add: LONG_MAX_def)
  from show_hex_length [OF this] have l: "length ?h \<le> 15" by simp
  have nochar: "CR \<notin> set ?h" "LF \<notin> set ?h" "NUL \<notin> set ?h" using show_hex_chars hex_digit_cases by fastforce+
  define c1 where "c1 = chunk_size_end (c\<lparr>chunk_size_buf := ?h\<rparr>)"
  have c1: "chunk_state c1 = CS_DATA" "chunk_remaining c1 = int (length d)" "chunk_size_buf c1 = []"
    using assms(3) strtol_show_hex [OF assms(4)] nochar(3) by (simp_all add: c1_def chunk_size_end_def Let_def)
  define c2 where "c2 = c1\<lparr>chunk_remaining := 0, chunk_state := CS_CRLF\<rparr>"
  have "chunk_run c (?h @ [CR, LF] @ d @ [CR, LF] @ b) = chunk_run c1 (d @ [CR, LF] @ b)"
    unfolding c1_def by (rule run_size_line [OF assms(1,2) l nochar(1,2)])
  also have "\<dots> = map_option (\<lambda>(s, e). (s, d @ e)) (chunk_run c2 ([CR, LF] @ b))"
    using data_run [OF c1(1), of "length d" "d @ [CR, LF] @ b"] c1 assms(3) by (simp add: c2_def)
  also have "chunk_run c2 ([CR, LF] @ b) = chunk_run (c2\<lparr>chunk_state := CS_SIZE\<rparr>) b"
    by (simp add: c2_def chunk_stuck_def chunk_byte_def option.map_ident option.map_id0)
  finally show ?thesis using c1(3) by (intro exI [of _ "c2\<lparr>chunk_state := CS_SIZE\<rparr>"]) (simp add: c2_def)
qed

lemma run_encoded:
  assumes "chunk_state c = CS_SIZE" "chunk_size_buf c = []" "\<forall>d \<in> set ds. d \<noteq> [] \<and> int (length d) \<le> LONG_MAX"
  shows "\<exists>c'. chunk_run c (chunk_encode ds @ extra) = Some (c', concat ds) \<and> chunk_state c' = CS_DONE"
  using assms
proof (induction ds arbitrary: c)
  case Nil
  have z: "strtol 16 ''0'' = 0" by code_simp
  have "chunk_run c (''0'' @ [CR, LF] @ CR # LF # extra) = chunk_run (chunk_size_end (c\<lparr>chunk_size_buf := ''0''\<rparr>)) (CR # LF # extra)"
    using Nil by (intro run_size_line) simp_all
  then show ?case
    by (simp add: chunk_encode_def chunk_size_end_def z chunk_stuck_def chunk_byte_def option.map_ident option.map_id0 chunk_run_done)
next
  case (Cons d ds)
  obtain c' where c': "chunk_state c' = CS_SIZE" "chunk_size_buf c' = []"
    "chunk_run c (show_hex (length d) @ [CR, LF] @ d @ [CR, LF] @ chunk_encode ds @ extra)
       = map_option (\<lambda>(s, e). (s, d @ e)) (chunk_run c' (chunk_encode ds @ extra))"
    using run_chunk [OF Cons.prems(1,2), of d "chunk_encode ds @ extra"] Cons.prems(3) by auto
  with Cons.IH [OF c'(1,2)] Cons.prems(3) show ?case by (auto simp: chunk_encode_def)
qed

lemma chunk_byte_inv: "chunk_inv c \<Longrightarrow> chunk_inv (fst (chunk_byte c ch))"
  by (auto simp: chunk_inv_def chunk_byte_def chunk_size_end_def Let_def split: chunk_state.splits)

lemma chunk_run_inv: "chunk_run c b = Some (s, d) \<Longrightarrow> chunk_inv c \<Longrightarrow> chunk_inv s"
proof (induction b arbitrary: c d)
  case (Cons ch b)
  obtain x e where cb: "chunk_byte c ch = (x, e)" by fastforce
  obtain d' where "chunk_run x b = Some (s, d')" using Cons.prems(1) cb by (auto split: if_splits)
  moreover have "chunk_inv x" using chunk_byte_inv [OF Cons.prems(2), of ch] cb by simp
  ultimately show ?case by (rule Cons.IH)
qed simp

lemma foldl_deliver_bytes: "body_bytes (foldl (deliver_data r) c ds) = body_bytes c + int (length (concat ds))"
  by (induction ds arbitrary: c) (simp_all add: deliver_data_fields(2))

lemma process_view:
  fixes c :: "'a body_ctx_scheme"
  assumes "chunk_inv c"
  shows "map_option (\<lambda>(c', ms). (dec c', body_bytes c', concat ms)) (process_chunked_bytes r c b ms)
     = map_option (\<lambda>(s, d). (s, body_bytes c + int (length d), concat ms @ d)) (chunk_run (dec c) b)"
proof (cases "chunk_run (dec c) b")
  case None
  then show ?thesis using process_run [OF assms, of b r ms] by simp
next
  case (Some sd)
  obtain s d where sd: "chunk_run (dec c) b = Some (s, d)" using Some by (cases sd) auto
  obtain ms' where p: "process_chunked_bytes r c b ms = Some (set_dec s (foldl (deliver_data r) c ms'), ms @ ms')" "concat ms' = d"
    using process_run [OF assms, of b r ms] sd by blast
  have "body_bytes (set_dec s y) = body_bytes y" for y :: "'a body_ctx_scheme" by (simp add: set_dec_def)
  then show ?thesis using foldl_deliver_bytes [of r c ms'] p(2) by (simp add: p(1) sd)
qed

section \<open>Properties\<close>

text \<open>
  C8. The decoder computes what a byte-at-a-time decoder computes: it returns exactly when
  that decoder never has to read data under a negative chunk size; then the concatenated
  \<open>FETCH_DATA\<close> payloads (none of them empty) are the decoded bytes, the saved decoder state is
  the same, the byte counter grows by the decoded length, and the capture buffer stays within
  its allocation and the one megabyte limit. In particular the size line buffer never overruns.
\<close>

theorem process_chunked_bytes_equiv:
  fixes c :: "'a body_ctx_scheme"
  assumes "chunk_inv c" "capture_inv c"
  shows "case chunk_run (dec c) b of
      None \<Rightarrow> process_chunked_bytes realloc_ok c b [] = None
    | Some (s, d) \<Rightarrow> (\<exists>c' ms. process_chunked_bytes realloc_ok c b [] = Some (c', ms) \<and> dec c' = s
        \<and> concat ms = d \<and> [] \<notin> set ms \<and> body_bytes c' = body_bytes c + int (length d)
        \<and> chunk_inv c' \<and> capture_inv c')"
proof (cases "chunk_run (dec c) b")
  case None
  then show ?thesis using process_run [OF assms(1)] by simp
next
  case (Some sd)
  obtain s d where sd: "chunk_run (dec c) b = Some (s, d)" using Some by (cases sd) auto
  obtain ms where p: "process_chunked_bytes realloc_ok c b [] = Some (set_dec s (foldl (deliver_data realloc_ok) c ms), ms)"
    "concat ms = d" "[] \<notin> set ms"
    using process_run [OF assms(1), of b realloc_ok "[]"] sd by auto
  have "capture_inv (set_dec s (foldl (deliver_data realloc_ok) c ms))"
    using foldl_deliver_inv [OF assms(2)] by (simp add: capture_inv_def set_dec_def cache_cap_len_def)
  moreover have "chunk_inv s" using chunk_run_inv [OF sd] assms(1) by simp
  moreover have "chunk_inv (set_dec s x) = chunk_inv s" for x :: "'a body_ctx_scheme" by (simp add: chunk_inv_def set_dec_def)
  moreover have "body_bytes (set_dec s x) = body_bytes x" for x :: "'a body_ctx_scheme" by (simp add: set_dec_def)
  ultimately show ?thesis using p sd foldl_deliver_bytes [of realloc_ok c ms] by auto
qed

definition fresh_body :: body_ctx where
  "fresh_body = \<lparr>chunk_state = CS_SIZE, chunk_remaining = 0, chunk_size_buf = [], trailer_just_after_eol = False,
     body_bytes = 0, cache_eligible = True, cache_capture = None, cache_cap_cap = 0, cache_overflow = False\<rparr>"

lemma fresh_body_inv: "chunk_inv fresh_body" "capture_inv fresh_body"
  by (simp_all add: fresh_body_def chunk_inv_def capture_inv_def cache_cap_len_def MACSURF_CACHE_MAX_BYTES_def)

theorem process_chunked_bytes_equiv_witness:
  "\<exists>c' ms. process_chunked_bytes (\<lambda>_. True) fresh_body (''2'' @ [CR, LF] @ ''hi'') [] = Some (c', ms) \<and> concat ms = ''hi''"
proof -
  have "chunk_run (dec fresh_body) (''2'' @ [CR, LF] @ ''hi'')
      = Some (\<lparr>chunk_state = CS_CRLF, chunk_remaining = 0, chunk_size_buf = [], trailer_just_after_eol = False\<rparr>, ''hi'')"
    by code_simp
  then show ?thesis
    using process_chunked_bytes_equiv [OF fresh_body_inv, where b = "''2'' @ [CR, LF] @ ''hi''" and realloc_ok = "\<lambda>_. True"] by auto
qed

text \<open>
  C9. A response body cut into any non-empty chunks and sent in the chunked encoding, with
  whatever follows it on the connection, is decoded to the body, all of it and nothing else,
  and the decoder ends in \<open>CS_DONE\<close>. When the response is eligible for the cache the capture
  buffer then holds the same body, or overflow is flagged and it holds nothing when the body is
  longer than a megabyte.
\<close>

theorem process_chunked_bytes_decodes:
  fixes c :: "'a body_ctx_scheme"
  assumes "chunk_state c = CS_SIZE" "chunk_size_buf c = []"
    and "\<forall>d \<in> set ds. d \<noteq> [] \<and> int (length d) \<le> LONG_MAX"
    and "cache_eligible c" "\<not> cache_overflow c" "cache_capture c = None"
  shows "\<exists>c' ms. process_chunked_bytes (\<lambda>_. True) c (chunk_encode ds @ extra) [] = Some (c', ms)
     \<and> concat ms = concat ds \<and> chunk_state c' = CS_DONE \<and> body_bytes c' = body_bytes c + int (length (concat ds))
     \<and> (if int (length (concat ds)) \<le> MACSURF_CACHE_MAX_BYTES
        then \<not> cache_overflow c' \<and> captured c' = concat ds else cache_overflow c' \<and> captured c' = [])"
proof -
  obtain s where s: "chunk_run (dec c) (chunk_encode ds @ extra) = Some (s, concat ds)" "chunk_state s = CS_DONE"
    using run_encoded [of "dec c" ds extra] assms(1-3) by auto
  have "chunk_inv c" using assms(1,2) by (simp add: chunk_inv_def)
  then obtain ms where p: "process_chunked_bytes (\<lambda>_. True) c (chunk_encode ds @ extra) []
      = Some (set_dec s (foldl (deliver_data (\<lambda>_. True)) c ms), ms)" "concat ms = concat ds"
    using process_run [of c "chunk_encode ds @ extra" "\<lambda>_. True" "[]"] s(1) by auto
  have cap: "captured c = []" using assms(6) by (simp add: captured_def)
  have sd: "cache_overflow (set_dec s x) = cache_overflow x" "captured (set_dec s x) = captured x"
    "body_bytes (set_dec s x) = body_bytes x" "chunk_state (set_dec s x) = chunk_state s" for x :: "'a body_ctx_scheme"
    by (simp_all add: set_dec_def captured_def)
  show ?thesis
    using foldl_deliver_captured [OF assms(4,5), of ms] p s(2) cap foldl_deliver_bytes [of "\<lambda>_. True" c ms]
    by (simp add: sd MACSURF_CACHE_MAX_BYTES_def split: if_splits)
qed

theorem process_chunked_bytes_decodes_witness:
  "\<exists>c' ms. process_chunked_bytes (\<lambda>_. True) fresh_body (chunk_encode [''hello '', ''world''] @ ''HTTP/1.1'') [] = Some (c', ms)
     \<and> concat ms = ''hello world'' \<and> chunk_state c' = CS_DONE \<and> captured c' = ''hello world''"
  using process_chunked_bytes_decodes [of fresh_body "[''hello '', ''world'']" "''HTTP/1.1''"]
  by (simp add: fresh_body_def LONG_MAX_def MACSURF_CACHE_MAX_BYTES_def) blast

text \<open>
  How the bytes are split over reads does not matter: feeding the two parts one after the
  other ends in the same decoder state, with the same count and the same data, as feeding them
  at once, and one returns whenever the other does.
\<close>

theorem process_chunked_bytes_split:
  assumes "chunk_inv c"
  shows "map_option (\<lambda>(c', ms). (dec c', body_bytes c', concat ms)) (process_chunked_bytes realloc_ok c (b1 @ b2) [])
     = map_option (\<lambda>(c', ms). (dec c', body_bytes c', concat ms))
         (Option.bind (process_chunked_bytes realloc_ok c b1 []) (\<lambda>(c1, ms). process_chunked_bytes realloc_ok c1 b2 ms))"
proof -
  show ?thesis
  proof (cases "chunk_run (dec c) b1")
    case None
    then show ?thesis using process_view [OF assms, of realloc_ok "b1 @ b2" "[]"] process_run [OF assms, of b1 realloc_ok "[]"]
      by (simp add: chunk_run_append)
  next
    case (Some sd)
    obtain s d where sd: "chunk_run (dec c) b1 = Some (s, d)" using Some by (cases sd) auto
    obtain ms where p: "process_chunked_bytes realloc_ok c b1 [] = Some (set_dec s (foldl (deliver_data realloc_ok) c ms), ms)" "concat ms = d"
      using process_run [OF assms, of b1 realloc_ok "[]"] sd by auto
    let ?c1 = "set_dec s (foldl (deliver_data realloc_ok) c ms)"
    have inv: "chunk_inv ?c1" using chunk_run_inv [OF sd] assms by (simp add: chunk_inv_def set_dec_def)
    have bb: "body_bytes ?c1 = body_bytes c + int (length d)" using foldl_deliver_bytes [of realloc_ok c ms] p(2) by (simp add: set_dec_def)
    have "map_option (\<lambda>(c', ms). (dec c', body_bytes c', concat ms)) (process_chunked_bytes realloc_ok ?c1 b2 ms)
       = map_option (\<lambda>(s, e). (s, body_bytes c + int (length (d @ e)), d @ e)) (chunk_run s b2)"
      using process_view [OF inv, of realloc_ok b2 ms] unfolding bb dec_set_dec p(2) by (simp add: add.assoc)
    then show ?thesis unfolding process_view [OF assms] p(1) chunk_run_append sd
      by (cases "chunk_run s b2") (auto simp: add.assoc)
  qed
qed

theorem process_chunked_bytes_split_witness:
  "map_option (\<lambda>(c', ms). (dec c', body_bytes c', concat ms)) (process_chunked_bytes (\<lambda>_. True) fresh_body (''2'' @ [CR, LF, CHR ''h'']) [])
   = map_option (\<lambda>(c', ms). (dec c', body_bytes c', concat ms))
       (Option.bind (process_chunked_bytes (\<lambda>_. True) fresh_body ''2'' []) (\<lambda>(c1, ms). process_chunked_bytes (\<lambda>_. True) c1 [CR, LF, CHR ''h''] ms))"
  by (rule process_chunked_bytes_split [OF fresh_body_inv(1)])

text \<open>
  C10. A chunk-size line that \<open>strtol\<close> reads as a negative number, followed by at least one
  more byte, makes the decoder loop forever: it neither consumes the byte nor leaves the state.
\<close>

theorem process_chunked_bytes_negative_size_hangs:
  assumes "chunk_state c = CS_SIZE" "chunk_size_buf c = []"
    and "length line \<le> 15" "set line \<inter> {NUL, CR, LF} = {}" "strtol 16 line < 0" "b \<noteq> []"
  shows "process_chunked_bytes realloc_ok c (line @ [CR, LF] @ b) msgs = None"
proof -
  have "chunk_run (dec c) (line @ [CR, LF] @ b) = chunk_run (chunk_size_end ((dec c)\<lparr>chunk_size_buf := line\<rparr>)) b"
    using assms(1-4) by (intro run_size_line) auto
  moreover have "chunk_stuck (chunk_size_end ((dec c)\<lparr>chunk_size_buf := line\<rparr>))"
    using assms(4,5) by (simp add: chunk_size_end_def chunk_stuck_def)
  ultimately have "chunk_run (dec c) (line @ [CR, LF] @ b) = None" using assms(6) by (cases b) auto
  moreover have "chunk_inv c" using assms(1,2) by (simp add: chunk_inv_def)
  ultimately show ?thesis using process_run by blast
qed

theorem process_chunked_bytes_negative_size_hangs_witness:
  "process_chunked_bytes (\<lambda>_. True) fresh_body (''-5'' @ [CR, LF] @ ''x'') [] = None"
proof -
  have "strtol 16 ''-5'' < 0" by code_simp
  then show ?thesis
    by (intro process_chunked_bytes_negative_size_hangs) (simp_all add: fresh_body_def)
qed

end
