(* ===== verification/HostLists.thy ===== *)
theory HostLists
  imports MS_Prelude DiskCache
begin

text \<open>
  The host tables of \<open>frontends/macos9/macos9_https_fetcher.c\<close>, shared by the two fetchers: the
  auto-upgrade marks, the per-host scheme-attempt tracker, the success list and the dead-host
  blocklist with its persistence through the disk cache.

  A table is the list of its used slots, oldest first; its C string entries are cut to
  \<open>HTTPS_POOL_KEY_LEN - 1\<close> bytes. A key argument is \<open>None\<close> for the null pointer. The three
  string tables satisfy the contract \<open>host_table\<close>, a bounded set with first-in-first-out
  eviction, from which their common properties follow.
\<close>

section \<open>State\<close>

definition HTTPS_POOL_KEY_LEN :: nat where "HTTPS_POOL_KEY_LEN = 280"
definition HTTPS_AUTO_UP_MAX :: nat where "HTTPS_AUTO_UP_MAX = 8"
definition HTTPS_SCHEME_TRACK_MAX :: nat where "HTTPS_SCHEME_TRACK_MAX = 32"
definition HTTPS_DEADHOSTS :: nat where "HTTPS_DEADHOSTS = 16"
definition HTTPS_SUCCESS_HOSTS :: nat where "HTTPS_SUCCESS_HOSTS = 32"

record scheme_track =
  host_port :: string
  https_failed :: bool
  http_failed :: bool

record host_lists =
  auto_upgrade_list :: "string list"
  scheme_track_list :: "scheme_track list"
  dead_hosts :: "string list"
  success_hosts :: "string list"

text \<open>\<open>strncpy\<close> into a table slot and the terminator written after it.\<close>

definition slot_string :: "string \<Rightarrow> string" where
  "slot_string key = take (HTTPS_POOL_KEY_LEN - 1) key"

lemma slot_string_short: "length key < HTTPS_POOL_KEY_LEN \<Longrightarrow> slot_string key = key"
  by (simp add: slot_string_def)

section \<open>Auto-upgrade marks\<close>

text \<open>
  \<open>host:port\<close> of a URL; the port after the last colon, the default when it is missing or out of
  range. \<open>cap\<close> is the size of the output buffer.
\<close>

definition auto_upgrade_extract_key :: "string option \<Rightarrow> int \<Rightarrow> int \<Rightarrow> string option" where
  "auto_upgrade_extract_key url cap default_port =
     (case url of
        None \<Rightarrow> None
      | Some u \<Rightarrow>
          if cap \<le> 0 then None
          else (case strstr_split ''://'' u of
            None \<Rightarrow> None
          | Some (_, p) \<Rightarrow>
              (let host = takeWhile (\<lambda>ch. ch \<noteq> CHR ''/'' \<and> ch \<noteq> CHR ''?'' \<and> ch \<noteq> CHR ''#'') (drop 3 p)
               in if host = [] \<or> length host \<ge> 256 then None
                  else (let (h, port) =
                            (if CHR '':'' \<in> set host
                             then (let tail = rev (takeWhile (\<lambda>ch. ch \<noteq> CHR '':'') (rev host));
                                       n = atol_c (tail @ drop (3 + length host) p)
                                   in (take (length host - length tail - 1) host,
                                       if n \<le> 0 \<or> n > 65535 then default_port else n))
                             else (host, default_port))
                        in if int (length h) + 8 \<ge> cap then None
                           else Some (h @ '':'' @ show_int port)))))"

definition auto_upgrade_add :: "string \<Rightarrow> string list \<Rightarrow> string list" where
  "auto_upgrade_add key l =
     (if key \<in> set l then l else fifo_push HTTPS_AUTO_UP_MAX l (slot_string key))"

definition macsurf_auto_upgrade_mark :: "string option \<Rightarrow> host_lists \<Rightarrow> host_lists" where
  "macsurf_auto_upgrade_mark url s =
     (case auto_upgrade_extract_key url (int HTTPS_POOL_KEY_LEN) 443 of
        None \<Rightarrow> s
      | Some key \<Rightarrow> s\<lparr>auto_upgrade_list := auto_upgrade_add key (auto_upgrade_list s)\<rparr>)"

definition auto_upgrade_check :: "string option \<Rightarrow> host_lists \<Rightarrow> bool" where
  "auto_upgrade_check key s =
     (case key of None \<Rightarrow> False | Some k \<Rightarrow> k \<noteq> [] \<and> k \<in> set (auto_upgrade_list s))"

section \<open>The scheme-attempt tracker\<close>

text \<open>The index of the entry of a key, and the table with the entry made when it was missing.\<close>

fun track_index :: "string \<Rightarrow> scheme_track list \<Rightarrow> nat option" where
  "track_index key [] = None"
| "track_index key (t # ts) = (if host_port t = key then Some 0 else map_option Suc (track_index key ts))"

definition scheme_track_find_or_add ::
    "string option \<Rightarrow> scheme_track list \<Rightarrow> (nat \<times> scheme_track list) option" where
  "scheme_track_find_or_add key ts =
     (case key of
        None \<Rightarrow> None
      | Some k \<Rightarrow>
          if k = [] then None
          else (case track_index k ts of
            Some i \<Rightarrow> Some (i, ts)
          | None \<Rightarrow>
              (let ts' = fifo_push HTTPS_SCHEME_TRACK_MAX ts
                           \<lparr>host_port = slot_string k, https_failed = False, http_failed = False\<rparr>
               in Some (length ts' - 1, ts'))))"

definition macsurf_scheme_was_https_tried :: "string option \<Rightarrow> host_lists \<Rightarrow> bool" where
  "macsurf_scheme_was_https_tried key s =
     (case key of
        None \<Rightarrow> False
      | Some k \<Rightarrow> if k = [] then False
                  else (case track_index k (scheme_track_list s) of
                          None \<Rightarrow> False | Some i \<Rightarrow> https_failed (scheme_track_list s ! i)))"

definition macsurf_scheme_was_http_tried :: "string option \<Rightarrow> host_lists \<Rightarrow> bool" where
  "macsurf_scheme_was_http_tried key s =
     (case key of
        None \<Rightarrow> False
      | Some k \<Rightarrow> if k = [] then False
                  else (case track_index k (scheme_track_list s) of
                          None \<Rightarrow> False | Some i \<Rightarrow> http_failed (scheme_track_list s ! i)))"

definition macsurf_scheme_mark_https_failed :: "string option \<Rightarrow> host_lists \<Rightarrow> host_lists" where
  "macsurf_scheme_mark_https_failed key s =
     (case scheme_track_find_or_add key (scheme_track_list s) of
        None \<Rightarrow> s
      | Some (i, ts) \<Rightarrow> s\<lparr>scheme_track_list := ts[i := (ts ! i)\<lparr>https_failed := True\<rparr>]\<rparr>)"

definition macsurf_scheme_mark_http_failed :: "string option \<Rightarrow> host_lists \<Rightarrow> host_lists" where
  "macsurf_scheme_mark_http_failed key s =
     (case scheme_track_find_or_add key (scheme_track_list s) of
        None \<Rightarrow> s
      | Some (i, ts) \<Rightarrow> s\<lparr>scheme_track_list := ts[i := (ts ! i)\<lparr>http_failed := True\<rparr>]\<rparr>)"

definition macsurf_scheme_reset_all :: "host_lists \<Rightarrow> host_lists" where
  "macsurf_scheme_reset_all s = s\<lparr>scheme_track_list := []\<rparr>"

definition macsurf_scheme_key_from_host_port :: "int \<Rightarrow> string option \<Rightarrow> int \<Rightarrow> string option" where
  "macsurf_scheme_key_from_host_port cap host port =
     (case host of
        None \<Rightarrow> None
      | Some h \<Rightarrow> if cap \<le> 0 \<or> h = [] then None
                  else if int (length h) + 8 \<ge> cap then None
                  else Some (h @ '':'' @ show_int port))"

section \<open>Success list and dead-host blocklist\<close>

definition success_host_check :: "string option \<Rightarrow> host_lists \<Rightarrow> bool" where
  "success_host_check key s =
     (case key of None \<Rightarrow> False | Some k \<Rightarrow> k \<noteq> [] \<and> k \<in> set (success_hosts s))"

definition success_table_add :: "string \<Rightarrow> string list \<Rightarrow> string list" where
  "success_table_add k l = (if k \<in> set l then l else fifo_push HTTPS_SUCCESS_HOSTS l (slot_string k))"

definition success_host_add :: "string option \<Rightarrow> host_lists \<Rightarrow> host_lists" where
  "success_host_add key s =
     (case key of
        None \<Rightarrow> s
      | Some k \<Rightarrow>
          if k = [] then s
          else if success_host_check key s then s
          else s\<lparr>success_hosts := success_table_add k (success_hosts s)\<rparr>)"

definition dead_host_check :: "string option \<Rightarrow> host_lists \<Rightarrow> bool" where
  "dead_host_check key s =
     (case key of None \<Rightarrow> False | Some k \<Rightarrow> k \<noteq> [] \<and> k \<in> set (dead_hosts s))"

definition dead_table_add :: "string \<Rightarrow> string list \<Rightarrow> string list" where
  "dead_table_add k l = (if k \<in> set l then l else fifo_push HTTPS_DEADHOSTS l (slot_string k))"

definition deadhost_buf_size :: nat where
  "deadhost_buf_size = HTTPS_DEADHOSTS * (HTTPS_POOL_KEY_LEN + 2) + 4"

text \<open>The serialised list; an entry that no longer fits the buffer ends it.\<close>

fun dead_hosts_serialise :: "nat \<Rightarrow> string list \<Rightarrow> bytes" where
  "dead_hosts_serialise pos [] = []"
| "dead_hosts_serialise pos (h # hs) =
     (if pos + length h + 1 \<ge> deadhost_buf_size then []
      else h @ [LF] @ dead_hosts_serialise (pos + length h + 1) hs)"

definition dead_host_add ::
    "'fs file_manager \<Rightarrow> string option \<Rightarrow> host_lists \<times> 'fs \<Rightarrow> host_lists \<times> 'fs" where
  "dead_host_add fm key = (\<lambda>(s, fs).
     (case key of
        None \<Rightarrow> (s, fs)
      | Some k \<Rightarrow>
          if k = [] then (s, fs)
          else if success_host_check key s then (s, fs)
          else if k \<in> set (dead_hosts s) then (s, fs)
          else (let hs = dead_table_add k (dead_hosts s)
                in (s\<lparr>dead_hosts := hs\<rparr>,
                    macos9_deadhost_save fm (Some (dead_hosts_serialise 0 hs)) fs))))"

definition is_eol :: "char \<Rightarrow> bool" where
  "is_eol ch \<longleftrightarrow> ch = LF \<or> ch = CR"

lemma dropWhile_eol_shorter:
  "buf \<noteq> [] \<Longrightarrow> length (dropWhile is_eol (dropWhile (\<lambda>ch. \<not> is_eol ch) buf)) < length buf"
proof -
  assume "buf \<noteq> []"
  then obtain ch r where b: "buf = ch # r" by (cases buf) auto
  have l: "length (dropWhile P xs) \<le> length xs" for P :: "char \<Rightarrow> bool" and xs by (rule length_dropWhile_le)
  show ?thesis
  proof (cases "is_eol ch")
    case True
    then show ?thesis using l [of is_eol r] by (simp add: b)
  next
    case False
    then show ?thesis using l [of is_eol "dropWhile (\<lambda>ch. \<not> is_eol ch) r"] l [of "\<lambda>ch. \<not> is_eol ch" r] by (simp add: b)
  qed
qed

function dead_hosts_parse :: "string list \<Rightarrow> bytes \<Rightarrow> string list" where
  "dead_hosts_parse hosts buf =
     (if buf \<noteq> [] \<and> length hosts < HTTPS_DEADHOSTS
      then (let line = takeWhile (\<lambda>ch. \<not> is_eol ch) buf;
                rest = dropWhile is_eol (dropWhile (\<lambda>ch. \<not> is_eol ch) buf)
            in if line = [] then dead_hosts_parse hosts rest
               else dead_hosts_parse (hosts @ [cstr (slot_string line)]) rest)
      else hosts)"
  by pat_completeness auto
termination by (relation "measure (\<lambda>(hosts, buf). length buf)") (auto simp: dropWhile_eol_shorter)

declare dead_hosts_parse.simps [simp del]

definition dead_host_load_from_disk :: "'fs file_manager \<Rightarrow> host_lists \<times> 'fs \<Rightarrow> host_lists \<times> 'fs" where
  "dead_host_load_from_disk fm = (\<lambda>(s, fs).
     (case macos9_deadhost_load fm (int deadhost_buf_size) fs of (buf, fs') \<Rightarrow>
      if buf = [] then (s, fs')
      else (s\<lparr>dead_hosts := dead_hosts_parse (dead_hosts s) buf\<rparr>, fs')))"

section \<open>The contract of a host table\<close>

locale host_table =
  fixes add :: "string \<Rightarrow> string list \<Rightarrow> string list" and cap :: nat
  assumes cap_pos: "0 < cap"
    and add_present: "k \<in> set l \<Longrightarrow> add k l = l"
    and add_absent: "k \<notin> set l \<Longrightarrow> add k l = fifo_push cap l (slot_string k)"
begin

lemma add_length: "length l \<le> cap \<Longrightarrow> length (add k l) \<le> cap"
  by (cases "k \<in> set l") (simp_all add: add_present add_absent fifo_push_length cap_pos)

lemma add_member: "length k < HTTPS_POOL_KEY_LEN \<Longrightarrow> k \<in> set (add k l)"
  by (cases "k \<in> set l") (simp_all add: add_present add_absent fifo_push_def slot_string_def)

lemma add_distinct: "length k < HTTPS_POOL_KEY_LEN \<Longrightarrow> distinct l \<Longrightarrow> distinct (add k l)"
  by (cases "k \<in> set l") (simp_all add: add_present add_absent fifo_push_distinct slot_string_def)

lemma add_keeps: "x \<in> set l \<Longrightarrow> length l < cap \<or> x \<noteq> hd l \<Longrightarrow> x \<in> set (add k l)"
  by (cases "k \<in> set l"; cases l) (auto simp: add_present add_absent fifo_push_def)

lemma add_only: "set (add k l) \<subseteq> insert (slot_string k) (set l)"
  using fifo_push_subset [of cap l "slot_string k"] by (cases "k \<in> set l") (auto simp: add_present add_absent)

text \<open>Distinct new entries: the table holds the last \<open>cap\<close> of all there ever were.\<close>

lemma add_many:
  assumes "distinct (l @ ks)" "\<forall>x \<in> set ks. length x < HTTPS_POOL_KEY_LEN" "length l \<le> cap"
  shows "fold add ks l = drop (length l + length ks - cap) (l @ ks)"
  using assms
proof (induction ks arbitrary: l)
  case (Cons k ks)
  have k: "add k l = (if length l = cap then tl l else l) @ [k]"
    using Cons.prems by (auto simp: add_absent fifo_push_def slot_string_short)
  show ?case
  proof (cases "length l = cap")
    case True
    have d: "distinct ((tl l @ [k]) @ ks)" using Cons.prems(1) by (cases l) auto
    have len: "length (tl l @ [k]) = cap" using True cap_pos by simp
    obtain y ys where l: "l = y # ys" using True cap_pos by (cases l) auto
    have "fold add (k # ks) l = drop (length ks) ((tl l @ [k]) @ ks)"
      using Cons.IH [OF d] Cons.prems(2) len by (simp add: k True)
    also have "\<dots> = drop (length l + length (k # ks) - cap) (l @ k # ks)"
      unfolding True by (simp add: l)
    finally show ?thesis .
  next
    case False
    then have "fold add (k # ks) l = drop (length (l @ [k]) + length ks - cap) ((l @ [k]) @ ks)"
      using Cons.prems by (simp add: k Cons.IH)
    then show ?thesis by simp
  qed
qed simp

lemma add_short: "\<forall>x \<in> set l. length x < HTTPS_POOL_KEY_LEN \<Longrightarrow> x \<in> set (add k l) \<Longrightarrow> length x < HTTPS_POOL_KEY_LEN"
  using add_only [of k l] by (auto simp: slot_string_def HTTPS_POOL_KEY_LEN_def)

end

interpretation up: host_table auto_upgrade_add HTTPS_AUTO_UP_MAX
  by unfold_locales (simp_all add: auto_upgrade_add_def HTTPS_AUTO_UP_MAX_def)

interpretation ok: host_table success_table_add HTTPS_SUCCESS_HOSTS
  by unfold_locales (simp_all add: success_table_add_def HTTPS_SUCCESS_HOSTS_def)

interpretation dead: host_table dead_table_add HTTPS_DEADHOSTS
  by unfold_locales (simp_all add: dead_table_add_def HTTPS_DEADHOSTS_def)

section \<open>Facts about the tracker and the persisted list\<close>

lemma track_index_Some: "track_index k ts = Some i \<Longrightarrow> i < length ts \<and> host_port (ts ! i) = k"
  by (induction ts arbitrary: i) (auto split: if_splits)

lemma track_index_None: "track_index k ts = None \<longleftrightarrow> k \<notin> host_port ` set ts"
  by (induction ts) auto

lemma track_index_append:
  "track_index k (ts @ us) = (case track_index k ts of Some i \<Rightarrow> Some i | None \<Rightarrow> map_option (\<lambda>i. length ts + i) (track_index k us))"
  by (induction ts; cases "track_index k us") (auto split: option.splits)

lemma track_index_update:
  "host_port t = host_port (ts ! i) \<Longrightarrow> track_index k (ts[i := t]) = track_index k ts"
  by (induction ts arbitrary: i) (auto split: nat.splits)

text \<open>What the tracker knows of a host: both flags, unset for a host it does not hold.\<close>

definition tracked :: "string \<Rightarrow> scheme_track list \<Rightarrow> bool \<times> bool" where
  "tracked k ts = (case track_index k ts of None \<Rightarrow> (False, False)
     | Some i \<Rightarrow> (https_failed (ts ! i), http_failed (ts ! i)))"

lemma was_tried_tracked:
  "k \<noteq> [] \<Longrightarrow> macsurf_scheme_was_https_tried (Some k) s = fst (tracked k (scheme_track_list s))"
  "k \<noteq> [] \<Longrightarrow> macsurf_scheme_was_http_tried (Some k) s = snd (tracked k (scheme_track_list s))"
  by (simp_all add: macsurf_scheme_was_https_tried_def macsurf_scheme_was_http_tried_def tracked_def split: option.splits)

lemma find_or_add_effect:
  assumes "k \<noteq> []" "length k < HTTPS_POOL_KEY_LEN" "scheme_track_find_or_add (Some k) ts = Some (i, ts')"
  shows "i < length ts' \<and> track_index k ts' = Some i \<and> tracked k ts' = tracked k ts"
    and "k' \<noteq> k \<Longrightarrow> track_index k ts \<noteq> None \<or> length ts < HTTPS_SCHEME_TRACK_MAX \<Longrightarrow> tracked k' ts' = tracked k' ts"
    and "length ts \<le> HTTPS_SCHEME_TRACK_MAX \<Longrightarrow> length ts' \<le> HTTPS_SCHEME_TRACK_MAX"
proof -
  let ?n = "\<lparr>host_port = k, https_failed = False, http_failed = False\<rparr>"
  let ?base = "if length ts \<ge> HTTPS_SCHEME_TRACK_MAX then tl ts else ts"
  have sl: "slot_string k = k" using assms(2) by (simp add: slot_string_def)
  have d: "ts' = (if track_index k ts = None then ?base @ [?n] else ts)"
    "i = (if track_index k ts = None then length ?base else the (track_index k ts))"
    using assms(1,3) sl by (auto simp: scheme_track_find_or_add_def fifo_push_def Let_def split: option.splits if_splits)
  have nb: "track_index k ts = None \<Longrightarrow> track_index k ?base = None"
    by (auto simp: track_index_None dest: set_tlD)
  show "i < length ts' \<and> track_index k ts' = Some i \<and> tracked k ts' = tracked k ts"
  proof (cases "track_index k ts")
    case None
    then show ?thesis using d nb [OF None] by (auto simp: track_index_append tracked_def nth_append)
  next
    case (Some j)
    then show ?thesis using d track_index_Some [OF Some] by auto
  qed
  show "tracked k' ts' = tracked k' ts" if "k' \<noteq> k" "track_index k ts \<noteq> None \<or> length ts < HTTPS_SCHEME_TRACK_MAX"
    using that d by (auto simp: tracked_def track_index_append nth_append dest: track_index_Some split: option.splits)
  show "length ts' \<le> HTTPS_SCHEME_TRACK_MAX" if "length ts \<le> HTTPS_SCHEME_TRACK_MAX"
    using that d by (auto simp: HTTPS_SCHEME_TRACK_MAX_def)
qed

lemma tracked_update:
  assumes "track_index k ts = Some i" "host_port t = host_port (ts ! i)"
  shows "tracked k (ts[i := t]) = (https_failed t, http_failed t)" "k' \<noteq> k \<Longrightarrow> tracked k' (ts[i := t]) = tracked k' ts"
proof -
  note i = track_index_Some [OF assms(1)]
  show "tracked k (ts[i := t]) = (https_failed t, http_failed t)"
    using i assms by (simp add: tracked_def track_index_update)
  show "tracked k' (ts[i := t]) = tracked k' ts" if "k' \<noteq> k"
    using that i assms(2) track_index_Some [of k' ts] by (auto simp: tracked_def track_index_update nth_list_update split: option.splits)
qed

definition host_name_ok :: "string \<Rightarrow> bool" where
  "host_name_ok h \<longleftrightarrow> h \<noteq> [] \<and> length h < HTTPS_POOL_KEY_LEN \<and> (\<forall>ch \<in> set h. \<not> is_eol ch \<and> ch \<noteq> NUL)"

lemma host_name_ok_parse:
  assumes "host_name_ok h"
  shows "takeWhile (\<lambda>ch. \<not> is_eol ch) (h @ LF # r) = h"
    "dropWhile (\<lambda>ch. \<not> is_eol ch) (h @ LF # r) = LF # r" "cstr (slot_string h) = h"
proof -
  have "\<forall>ch \<in> set h. \<not> is_eol ch" "NUL \<notin> set h" "length h < HTTPS_POOL_KEY_LEN" using assms by (auto simp: host_name_ok_def)
  then show "takeWhile (\<lambda>ch. \<not> is_eol ch) (h @ LF # r) = h" "dropWhile (\<lambda>ch. \<not> is_eol ch) (h @ LF # r) = LF # r"
    "cstr (slot_string h) = h"
    by (simp_all add: is_eol_def slot_string_def takeWhile_append2 dropWhile_append2)
qed

lemma serialise_first: "\<forall>h \<in> set hs. host_name_ok h \<Longrightarrow> dropWhile is_eol (dead_hosts_serialise pos hs) = dead_hosts_serialise pos hs"
proof (cases hs)
  case (Cons h r)
  assume "\<forall>h \<in> set hs. host_name_ok h"
  then have "host_name_ok h" using Cons by simp
  then obtain ch h' where "h = ch # h'" "\<not> is_eol ch" by (cases h) (auto simp: host_name_ok_def)
  then show ?thesis by (simp add: Cons)
qed simp

lemma serialise_length:
  assumes "\<forall>h \<in> set hs. host_name_ok h"
  shows "length (dead_hosts_serialise pos hs) \<le> length hs * HTTPS_POOL_KEY_LEN"
  using assms
proof (induction hs arbitrary: pos)
  case (Cons h hs)
  have "length h + 1 \<le> HTTPS_POOL_KEY_LEN" using Cons.prems by (simp add: host_name_ok_def)
  moreover have "length (dead_hosts_serialise (pos + length h + 1) hs) \<le> length hs * HTTPS_POOL_KEY_LEN"
    using Cons.prems by (intro Cons.IH) simp
  ultimately have "length h + 1 + length (dead_hosts_serialise (pos + length h + 1) hs) \<le> length (h # hs) * HTTPS_POOL_KEY_LEN"
    by simp
  then show ?case unfolding dead_hosts_serialise.simps(2) by (simp only: if_split length_append list.size) auto
qed simp

lemma parse_serialise:
  assumes "\<forall>h \<in> set hs. host_name_ok h" "length acc + length hs \<le> HTTPS_DEADHOSTS"
    and "pos + length hs * HTTPS_POOL_KEY_LEN < deadhost_buf_size"
  shows "dead_hosts_parse acc (dead_hosts_serialise pos hs) = acc @ hs"
  using assms
proof (induction hs arbitrary: acc pos)
  case Nil
  then show ?case by (simp add: dead_hosts_parse.simps)
next
  case (Cons h hs)
  have ok: "host_name_ok h" "\<forall>h \<in> set hs. host_name_ok h" using Cons.prems by simp_all
  have eol: "is_eol LF" by (simp add: is_eol_def)
  have lh: "h \<noteq> []" "length h < HTTPS_POOL_KEY_LEN" using ok(1) by (simp_all add: host_name_ok_def)
  let ?r = "dead_hosts_serialise (pos + length h + 1) hs"
  have s: "dead_hosts_serialise pos (h # hs) = h @ LF # ?r"
    using Cons.prems(3) lh(2) by simp
  have "dead_hosts_parse acc (h @ LF # ?r) = dead_hosts_parse (acc @ [h]) ?r"
    using Cons.prems(2) lh(1) serialise_first [OF ok(2)]
    by (subst dead_hosts_parse.simps) (simp add: host_name_ok_parse [OF ok(1)] Let_def eol)
  also have "\<dots> = (acc @ [h]) @ hs"
    using Cons.prems lh(2) by (intro Cons.IH) simp_all
  finally show ?case using s by simp
qed

section \<open>Properties\<close>

text \<open>A success recorded for each host of a list, in order.\<close>

definition successes :: "string list \<Rightarrow> host_lists \<Rightarrow> host_lists" where
  "successes ks s = fold (\<lambda>k. success_host_add (Some k)) ks s"

lemma successes_table:
  "\<forall>k \<in> set ks. k \<noteq> [] \<Longrightarrow> successes ks s = s\<lparr>success_hosts := fold success_table_add ks (success_hosts s)\<rparr>"
proof (induction ks arbitrary: s)
  case (Cons k ks)
  have "success_host_add (Some k) s = s\<lparr>success_hosts := success_table_add k (success_hosts s)\<rparr>"
    using Cons.prems by (simp add: success_host_add_def success_host_check_def success_table_add_def)
  with Cons show ?case by (simp add: successes_def)
qed (simp add: successes_def)

lemma successes_remembered:
  assumes "distinct (k # ks)" "\<forall>h \<in> set (k # ks). h \<noteq> [] \<and> length h < HTTPS_POOL_KEY_LEN" "success_hosts s = []"
  shows "success_host_check (Some k) (successes (k # ks) s) \<longleftrightarrow> length ks < HTTPS_SUCCESS_HOSTS"
proof -
  have "success_hosts (successes (k # ks) s) = drop (length (k # ks) - HTTPS_SUCCESS_HOSTS) (k # ks)"
    using ok.add_many [of "[]" "k # ks"] assms by (simp add: successes_table)
  moreover have "k \<in> set (drop n (k # ks)) \<longleftrightarrow> n = 0" for n
    using assms(1) by (cases n) (auto dest: in_set_dropD)
  ultimately have "success_host_check (Some k) (successes (k # ks) s) \<longleftrightarrow> length (k # ks) - HTTPS_SUCCESS_HOSTS = 0"
    using assms(2) unfolding success_host_check_def by simp
  then show ?thesis by (simp only: diff_is_0_eq list.size Suc_eq_plus1 [symmetric] Suc_le_eq add_0_right add_Suc_right)
qed

lemma dead_host_add_list:
  assumes "k \<noteq> []" "length k < HTTPS_POOL_KEY_LEN"
    and "distinct (dead_hosts s)" "length (dead_hosts s) \<le> HTTPS_DEADHOSTS"
  shows "let s' = fst (dead_host_add fm (Some k) (s, fs)) in
     success_hosts s' = success_hosts s \<and> distinct (dead_hosts s') \<and> length (dead_hosts s') \<le> HTTPS_DEADHOSTS
     \<and> (if success_host_check (Some k) s then s' = s
        else dead_host_check (Some k) s'
          \<and> (\<forall>h. dead_host_check (Some h) s' \<longrightarrow> h = k \<or> dead_host_check (Some h) s)
          \<and> (\<forall>h. dead_host_check (Some h) s \<longrightarrow> length (dead_hosts s) < HTTPS_DEADHOSTS \<or> h \<noteq> hd (dead_hosts s)
               \<longrightarrow> dead_host_check (Some h) s'))"
proof -
  have sl: "slot_string k = k" using assms(2) by (simp add: slot_string_def)
  show ?thesis
  proof (cases "success_host_check (Some k) s")
    case True
    then show ?thesis using assms by (simp add: dead_host_add_def)
  next
    case False
    then have eq: "fst (dead_host_add fm (Some k) (s, fs)) = s\<lparr>dead_hosts := dead_table_add k (dead_hosts s)\<rparr>"
      using assms(1) dead.add_present [of k "dead_hosts s"] by (simp add: dead_host_add_def Let_def)
    show ?thesis
      using False assms(1) dead.add_distinct [OF assms(2,3)] dead.add_length [OF assms(4), of k] dead.add_member [OF assms(2)]
        dead.add_only [of k "dead_hosts s"] dead.add_keeps [of _ "dead_hosts s" k]
      unfolding eq Let_def sl by (auto simp: dead_host_check_def)
  qed
qed

lemma forgotten_success:
  assumes "k \<noteq> []" "length k < HTTPS_POOL_KEY_LEN"
    and "distinct (k # ks)" "\<forall>h \<in> set ks. h \<noteq> [] \<and> length h < HTTPS_POOL_KEY_LEN" "success_hosts s = []"
    and "\<not> dead_host_check (Some k) s"
  shows "dead_host_check (Some k) (fst (dead_host_add fm (Some k) (successes (k # ks) s, fs))) \<longleftrightarrow> HTTPS_SUCCESS_HOSTS \<le> length ks"
proof -
  have "success_host_check (Some k) (successes (k # ks) s) \<longleftrightarrow> length ks < HTTPS_SUCCESS_HOSTS"
    using assms by (intro successes_remembered) auto
  moreover have "dead_hosts (successes (k # ks) s) = dead_hosts s"
    using assms(1,4) by (subst successes_table) auto
  ultimately show ?thesis
    using assms(1,6) dead.add_member [OF assms(2), of "dead_hosts s"]
    by (auto simp: dead_host_add_def dead_host_check_def Let_def)
qed


definition no_hosts :: host_lists where
  "no_hosts = \<lparr>auto_upgrade_list = [], scheme_track_list = [], dead_hosts = [], success_hosts = []\<rparr>"


text \<open>
  The blocklist survives a restart: whenever blocking a host changes the list, a fresh
  process that loads the file gets exactly the list that was in memory, in the same order.
\<close>

theorem dead_hosts_persist:
  assumes "fm_laws fm dv dd fork dir mark" "clean_volume dv dd fork dir fs"
    and "host_name_ok k" "\<forall>h \<in> set (dead_hosts s). host_name_ok h" "length (dead_hosts s) \<le> HTTPS_DEADHOSTS"
    and "\<not> success_host_check (Some k) s" "k \<notin> set (dead_hosts s)" "dead_hosts s0 = []"
  shows "dead_hosts (fst (dead_host_load_from_disk fm (s0, snd (dead_host_add fm (Some k) (s, fs)))))
     = dead_hosts (fst (dead_host_add fm (Some k) (s, fs)))"
proof -
  define hs where "hs = dead_table_add k (dead_hosts s)"
  have k: "k \<noteq> []" "slot_string k = k" using assms(3) unfolding host_name_ok_def by (blast intro: slot_string_short)+
  have ok: "\<forall>h \<in> set hs. host_name_ok h" using dead.add_only [of k "dead_hosts s"] k(2) assms(3,4) by (auto simp: hs_def)
  have len: "length hs \<le> HTTPS_DEADHOSTS" using dead.add_length [OF assms(5)] by (simp add: hs_def)
  have ne: "dead_hosts_serialise 0 hs \<noteq> []"
  proof -
    have "length k < HTTPS_POOL_KEY_LEN" using assms(3) by (simp add: host_name_ok_def)
    then have "k \<in> set hs" using dead.add_member unfolding hs_def by blast
    then obtain h r where h: "hs = h # r" by (cases hs) auto
    have "length h < HTTPS_POOL_KEY_LEN" "h \<noteq> []" using ok by (simp_all add: h host_name_ok_def)
    then show ?thesis unfolding h by (simp add: deadhost_buf_size_def HTTPS_DEADHOSTS_def HTTPS_POOL_KEY_LEN_def)
  qed
  let ?b = "dead_hosts_serialise 0 hs"
  have add: "dead_host_add fm (Some k) (s, fs) = (s\<lparr>dead_hosts := hs\<rparr>, macos9_deadhost_save fm (Some ?b) fs)"
    using assms(6,7) k(1) by (simp add: dead_host_add_def hs_def Let_def)
  have lenb: "length ?b \<le> HTTPS_DEADHOSTS * HTTPS_POOL_KEY_LEN"
    by (rule order_trans [OF serialise_length [OF ok] mult_le_mono1 [OF len]])
  note sv = deadhost_save_effect [OF assms(1,2), where b = ?b]
  have "fst (macos9_deadhost_load fm (int deadhost_buf_size) (macos9_deadhost_save fm (Some ?b) fs)) = take (nat (int deadhost_buf_size - 1)) ?b"
    using deadhost_load_effect [OF assms(1) sv(2), of "int deadhost_buf_size"]
    unfolding sv(1) by (simp add: deadhost_buf_size_def HTTPS_DEADHOSTS_def)
  also have "\<dots> = ?b"
    using lenb by (simp add: deadhost_buf_size_def HTTPS_DEADHOSTS_def HTTPS_POOL_KEY_LEN_def)
  finally have ld: "fst (macos9_deadhost_load fm (int deadhost_buf_size) (macos9_deadhost_save fm (Some ?b) fs)) = ?b" .
  have "dead_hosts_parse [] ?b = hs"
    using parse_serialise [OF ok, of "[]" 0] len by (simp add: deadhost_buf_size_def HTTPS_DEADHOSTS_def HTTPS_POOL_KEY_LEN_def)
  then show ?thesis using ld ne assms(8)
    by (simp add: add dead_host_load_from_disk_def case_prod_beta)
qed

theorem dead_hosts_persist_witness:
  "dead_hosts (fst (dead_host_load_from_disk mem_fm (no_hosts, snd (dead_host_add mem_fm (Some ''a.com:443'') (no_hosts, dc_fs mem_empty)))))
   = [''a.com:443'']"
proof -
  have "fst (dead_host_add mem_fm (Some ''a.com:443'') (no_hosts, dc_fs mem_empty)) = no_hosts\<lparr>dead_hosts := [''a.com:443'']\<rparr>"
    by code_simp
  moreover have "host_name_ok ''a.com:443''" by (simp add: host_name_ok_def is_eol_def HTTPS_POOL_KEY_LEN_def)
  ultimately show ?thesis
    using dead_hosts_persist [OF mem_fm_laws mem_empty_clean, of "''a.com:443''" no_hosts no_hosts]
    by (simp add: no_hosts_def success_host_check_def)
qed

text \<open>
  Recording a failed scheme for a host sets exactly that flag of exactly that host: its
  other flag stays, and so do both flags of every other host as long as the 32-entry table had
  room or already held the host; the table never exceeds its size, and a navigation reset
  forgets everything.
\<close>

theorem scheme_mark_functional:
  assumes "k \<noteq> []" "length k < HTTPS_POOL_KEY_LEN" "length (scheme_track_list s) \<le> HTTPS_SCHEME_TRACK_MAX"
  shows "(macsurf_scheme_was_https_tried (Some k) (macsurf_scheme_mark_https_failed (Some k) s)
       \<and> macsurf_scheme_was_http_tried (Some k) (macsurf_scheme_mark_https_failed (Some k) s) = macsurf_scheme_was_http_tried (Some k) s)
     \<and> (macsurf_scheme_was_http_tried (Some k) (macsurf_scheme_mark_http_failed (Some k) s)
       \<and> macsurf_scheme_was_https_tried (Some k) (macsurf_scheme_mark_http_failed (Some k) s) = macsurf_scheme_was_https_tried (Some k) s)
     \<and> (\<forall>k' m. m \<in> {macsurf_scheme_mark_https_failed, macsurf_scheme_mark_http_failed} \<longrightarrow>
          length (scheme_track_list (m (Some k) s)) \<le> HTTPS_SCHEME_TRACK_MAX
          \<and> (k' \<noteq> k \<and> k' \<noteq> [] \<and> (track_index k (scheme_track_list s) \<noteq> None \<or> length (scheme_track_list s) < HTTPS_SCHEME_TRACK_MAX)
             \<longrightarrow> macsurf_scheme_was_https_tried (Some k') (m (Some k) s) = macsurf_scheme_was_https_tried (Some k') s
               \<and> macsurf_scheme_was_http_tried (Some k') (m (Some k) s) = macsurf_scheme_was_http_tried (Some k') s))
     \<and> \<not> macsurf_scheme_was_https_tried (Some k) (macsurf_scheme_reset_all s)
     \<and> \<not> macsurf_scheme_was_http_tried (Some k) (macsurf_scheme_reset_all s)"
proof -
  obtain i ts where f: "scheme_track_find_or_add (Some k) (scheme_track_list s) = Some (i, ts)"
    using assms(1) by (cases "track_index k (scheme_track_list s)") (auto simp: scheme_track_find_or_add_def Let_def)
  note e = find_or_add_effect [OF assms(1,2) f]
  have ti: "track_index k ts = Some i" using e(1) by blast
  note u = tracked_update [OF ti]
  have ht: "scheme_track_list (macsurf_scheme_mark_https_failed (Some k) s) = ts[i := (ts ! i)\<lparr>https_failed := True\<rparr>]"
    "scheme_track_list (macsurf_scheme_mark_http_failed (Some k) s) = ts[i := (ts ! i)\<lparr>http_failed := True\<rparr>]"
    by (simp_all add: macsurf_scheme_mark_https_failed_def macsurf_scheme_mark_http_failed_def f)
  have old: "tracked k (scheme_track_list s) = (https_failed (ts ! i), http_failed (ts ! i))"
    using e(1) ti by (simp add: tracked_def [of k ts])
  have oth: "tracked k' (scheme_track_list (m (Some k) s)) = tracked k' (scheme_track_list s)"
    if "m \<in> {macsurf_scheme_mark_https_failed, macsurf_scheme_mark_http_failed}" "k' \<noteq> k"
      "track_index k (scheme_track_list s) \<noteq> None \<or> length (scheme_track_list s) < HTTPS_SCHEME_TRACK_MAX" for k' m
    using that(1) ht u(2) [OF _ that(2)] e(2) [OF that(2,3)] by auto
  have lens: "length (scheme_track_list (m (Some k) s)) \<le> HTTPS_SCHEME_TRACK_MAX"
    if "m \<in> {macsurf_scheme_mark_https_failed, macsurf_scheme_mark_http_failed}" for m
    using that ht e(3) [OF assms(3)] by auto
  show ?thesis
    using assms(1) oth lens
    by (auto simp: was_tried_tracked ht u(1) old) (simp_all add: macsurf_scheme_reset_all_def tracked_def)
qed

theorem scheme_mark_functional_witness:
  "macsurf_scheme_was_https_tried (Some ''a.com:443'') (macsurf_scheme_mark_https_failed (Some ''a.com:443'') no_hosts)"
  using scheme_mark_functional [of "''a.com:443''" no_hosts] by (simp add: no_hosts_def HTTPS_POOL_KEY_LEN_def)

end
