(* ===== verification/ConnPool.thy ===== *)
theory ConnPool
  imports MS_Prelude HostLists
begin

text \<open>
  The two keep-alive pools: the Open Transport endpoint pool of \<open>macos9_http_fetcher.c\<close>
  (\<open>ep_pool_take\<close>, \<open>ep_pool_return\<close>) and the TLS connection pool of \<open>macos9_https_fetcher.c\<close>
  (\<open>https_pool_take\<close>, \<open>https_pool_return\<close>).

  A pool is the list of its used slots. Open Transport and the macTLS library (\<open>OSTLS_*\<close>, not
  part of the repository) are the records of functions \<open>open_transport\<close> and \<open>ostls\<close> over an
  arbitrary state, which also holds the tick counter and whatever the network does; endpoints
  and connections are identified by integers. Both pools satisfy the contract \<open>conn_pool\<close>:
  taking hands out at most one pooled connection with the wanted key, destroys only entries
  with that key, and leaves the others alone.
\<close>

section \<open>Open Transport and macTLS\<close>

datatype ot_look = LookNone | T_ORDREL | T_DISCONNECT | LookOther

text \<open>Result of \<open>OTRcv\<close>: \<open>n \<ge> 0\<close> bytes (none: the peer closed), no data now, or an error.\<close>

datatype ot_rcv = Rcv bytes | kOTNoDataErr | kOTLookErr | RcvErr

record 'ot open_transport =
  OTCreateConfiguration :: "'ot \<Rightarrow> bool \<times> 'ot"
  OTOpenEndpoint :: "'ot \<Rightarrow> bool \<times> int option \<times> 'ot"
  OTBind :: "int \<Rightarrow> 'ot \<Rightarrow> bool \<times> 'ot"
  OTConnect :: "int \<Rightarrow> string \<Rightarrow> 'ot \<Rightarrow> bool \<times> 'ot"
  OTSetSynchronousBlocking :: "int \<Rightarrow> 'ot \<Rightarrow> 'ot"
  OTSetNonBlocking :: "int \<Rightarrow> 'ot \<Rightarrow> 'ot"
  OTSnd :: "int \<Rightarrow> bytes \<Rightarrow> 'ot \<Rightarrow> int \<times> 'ot"
  OTRcv :: "int \<Rightarrow> nat \<Rightarrow> 'ot \<Rightarrow> ot_rcv \<times> 'ot"
  OTLook :: "int \<Rightarrow> 'ot \<Rightarrow> ot_look \<times> 'ot"
  OTRcvOrderlyDisconnect :: "int \<Rightarrow> 'ot \<Rightarrow> 'ot"
  OTRcvDisconnect :: "int \<Rightarrow> 'ot \<Rightarrow> 'ot"
  OTSndOrderlyDisconnect :: "int \<Rightarrow> 'ot \<Rightarrow> 'ot"
  OTCloseProvider :: "int \<Rightarrow> 'ot \<Rightarrow> 'ot"
  ot_TickCount :: "'ot \<Rightarrow> ticks"

datatype ostls_state = kOSTLSStateOpen | kOSTLSStateOther
datatype ostls_event = kOSTLSEventNone | kOSTLSEventHandshakeDone | kOSTLSEventClosed | kOSTLSEventFailed

text \<open>The boolean of a call is \<open>e == kOSTLSAsync_OK\<close>.\<close>

record 't ostls =
  OSTLS_New :: "string \<Rightarrow> int \<Rightarrow> 't \<Rightarrow> bool \<times> int option \<times> 't"
  OSTLS_Start :: "int \<Rightarrow> 't \<Rightarrow> bool \<times> 't"
  OSTLS_Pump :: "int \<Rightarrow> nat \<Rightarrow> 't \<Rightarrow> bool \<times> ostls_event \<times> 't"
  OSTLS_GetState :: "int \<Rightarrow> 't \<Rightarrow> ostls_state"
  OSTLS_Write :: "int \<Rightarrow> bytes \<Rightarrow> 't \<Rightarrow> bool \<times> nat \<times> 't"
  OSTLS_Read :: "int \<Rightarrow> nat \<Rightarrow> 't \<Rightarrow> bool \<times> bytes \<times> 't"
  OSTLS_Close :: "int \<Rightarrow> 't \<Rightarrow> 't"
  OSTLS_Dispose :: "int \<Rightarrow> 't \<Rightarrow> 't"
  tls_TickCount :: "'t \<Rightarrow> ticks"

section \<open>The endpoint pool\<close>

definition POOL_KEY_LEN :: nat where "POOL_KEY_LEN = 96"
definition POOL_SIZE :: nat where "POOL_SIZE = 16"

record ep_pool_entry =
  pe_ep :: int
  pe_key :: string

text \<open>Removing slot \<open>i\<close> by moving the last entry into it.\<close>

definition pool_compact :: "nat \<Rightarrow> 'e list \<Rightarrow> 'e list" where
  "pool_compact i pool = butlast (pool[i := last pool])"

text \<open>Closing a stale endpoint.\<close>

definition ep_discard :: "'ot open_transport \<Rightarrow> ot_look \<Rightarrow> int \<Rightarrow> 'ot \<Rightarrow> 'ot" where
  "ep_discard ot look ep n =
     (let n1 = (if look = T_ORDREL then OTRcvOrderlyDisconnect ot ep n
                else if look = T_DISCONNECT then OTRcvDisconnect ot ep n else n)
      in OTCloseProvider ot ep (OTSndOrderlyDisconnect ot ep n1))"

text \<open>The scan of \<open>ep_pool_take\<close>: \<open>i\<close> slots, from the top, are still to be looked at.\<close>

function ep_pool_scan ::
    "'ot open_transport \<Rightarrow> string \<Rightarrow> nat \<Rightarrow> ep_pool_entry list \<Rightarrow> 'ot \<Rightarrow> int option \<times> ep_pool_entry list \<times> 'ot" where
  "ep_pool_scan ot key i pool n =
     (if i = 0 \<or> length pool < i then (None, pool, n)
      else if pe_key (pool ! (i - 1)) \<noteq> key then ep_pool_scan ot key (i - 1) pool n
      else
        (let ep = pe_ep (pool ! (i - 1)); pool' = pool_compact (i - 1) pool;
             (look, n1) = OTLook ot ep n
         in if look = LookNone then (Some ep, pool', n1)
            else ep_pool_scan ot key (length pool') pool' (ep_discard ot look ep n1)))"
  by pat_completeness auto
termination
  by (relation "measures [\<lambda>(ot, key, i, pool, n). length pool, \<lambda>(ot, key, i, pool, n). i]")
    (auto simp: pool_compact_def)

declare ep_pool_scan.simps [simp del]

definition ep_pool_take ::
    "'ot open_transport \<Rightarrow> string \<Rightarrow> ep_pool_entry list \<Rightarrow> 'ot \<Rightarrow> int option \<times> ep_pool_entry list \<times> 'ot" where
  "ep_pool_take ot key pool n = ep_pool_scan ot key (length pool) pool n"

text \<open>The drain loop runs as long as data keeps arriving.\<close>

partial_function (option) ep_drain :: "'ot open_transport \<Rightarrow> int \<Rightarrow> 'ot \<Rightarrow> 'ot option" where
  "ep_drain ot ep n =
     (case OTRcv ot ep 256 n of (r, n1) \<Rightarrow>
      (case r of Rcv b \<Rightarrow> (if b \<noteq> [] then ep_drain ot ep n1 else Some n1) | _ \<Rightarrow> Some n1))"

declare ep_drain.simps [code]

definition ep_pool_return ::
    "'ot open_transport \<Rightarrow> string \<Rightarrow> int option \<Rightarrow> ep_pool_entry list \<Rightarrow> 'ot \<Rightarrow> (ep_pool_entry list \<times> 'ot) option" where
  "ep_pool_return ot key epo pool n =
     (case epo of
        None \<Rightarrow> Some (pool, n)
      | Some ep \<Rightarrow>
          if length pool \<ge> POOL_SIZE
          then Some (pool, OTCloseProvider ot ep (OTSndOrderlyDisconnect ot ep n))
          else map_option (\<lambda>n'. (pool @ [\<lparr>pe_ep = ep, pe_key = take (POOL_KEY_LEN - 1) key\<rparr>], n'))
                 (ep_drain ot ep (OTSetNonBlocking ot ep n)))"

section \<open>The TLS connection pool\<close>

definition HTTPS_POOL_SIZE :: nat where "HTTPS_POOL_SIZE = 16"
definition HTTPS_POOL_TTL_TICKS :: ticks where "HTTPS_POOL_TTL_TICKS = 1200"

record https_pool_entry =
  hp_conn :: int
  hp_key :: string
  hp_stored_ticks :: ticks

definition tls_dispose :: "'t ostls \<Rightarrow> int \<Rightarrow> 't \<Rightarrow> 't" where
  "tls_dispose tls conn n = OSTLS_Dispose tls conn (OSTLS_Close tls conn n)"

function https_pool_scan ::
    "'t ostls \<Rightarrow> string \<Rightarrow> nat \<Rightarrow> https_pool_entry list \<Rightarrow> 't \<Rightarrow> int option \<times> https_pool_entry list \<times> 't" where
  "https_pool_scan tls key i pool n =
     (if i = 0 \<or> length pool < i then (None, pool, n)
      else if hp_key (pool ! (i - 1)) \<noteq> key then https_pool_scan tls key (i - 1) pool n
      else
        (let conn = hp_conn (pool ! (i - 1));
             age = tls_TickCount tls n - hp_stored_ticks (pool ! (i - 1));
             pool' = pool_compact (i - 1) pool
         in if age > HTTPS_POOL_TTL_TICKS
            then https_pool_scan tls key (length pool') pool' (tls_dispose tls conn n)
            else (let (ok, ev, n1) = OSTLS_Pump tls conn 1 n in
                  if ok \<and> OSTLS_GetState tls conn n1 = kOSTLSStateOpen
                     \<and> ev \<noteq> kOSTLSEventClosed \<and> ev \<noteq> kOSTLSEventFailed
                  then (Some conn, pool', n1)
                  else https_pool_scan tls key (length pool') pool' (tls_dispose tls conn n1))))"
  by pat_completeness auto
termination
  by (relation "measures [\<lambda>(tls, key, i, pool, n). length pool, \<lambda>(tls, key, i, pool, n). i]")
    (auto simp: pool_compact_def)

declare https_pool_scan.simps [simp del]

definition https_pool_take ::
    "'t ostls \<Rightarrow> string \<Rightarrow> https_pool_entry list \<Rightarrow> 't \<Rightarrow> int option \<times> https_pool_entry list \<times> 't" where
  "https_pool_take tls key pool n =
     (if key = [] then (None, pool, n) else https_pool_scan tls key (length pool) pool n)"

definition https_pool_return ::
    "'t ostls \<Rightarrow> string \<Rightarrow> int option \<Rightarrow> https_pool_entry list \<Rightarrow> 't \<Rightarrow> https_pool_entry list \<times> 't" where
  "https_pool_return tls key conno pool n =
     (case conno of
        None \<Rightarrow> (pool, n)
      | Some conn \<Rightarrow>
          if key = [] then (pool, n)
          else (let (pool1, n1) =
                    (if length pool \<ge> HTTPS_POOL_SIZE then (tl pool, tls_dispose tls (hp_conn (hd pool)) n)
                     else (pool, n))
                in (pool1 @ [\<lparr>hp_conn = conn, hp_key = slot_string key, hp_stored_ticks = tls_TickCount tls n1\<rparr>], n1)))"

section \<open>The contract of a connection pool\<close>

locale conn_pool =
  fixes key_of :: "'e \<Rightarrow> string" and conn_of :: "'e \<Rightarrow> int"
    and pool_take :: "string \<Rightarrow> 'e list \<Rightarrow> 's \<Rightarrow> int option \<times> 'e list \<times> 's"
  assumes take_Some: "pool_take k pool n = (Some c, pool', n') \<Longrightarrow>
       \<exists>e ds. key_of e = k \<and> conn_of e = c \<and> (\<forall>d \<in># ds. key_of d = k) \<and> mset pool = add_mset e (mset pool' + ds)"
    and take_None: "pool_take k pool n = (None, pool', n') \<Longrightarrow> k \<noteq> [] \<Longrightarrow>
       \<exists>ds. (\<forall>d \<in># ds. key_of d = k) \<and> mset pool = mset pool' + ds \<and> (\<forall>e \<in> set pool'. key_of e \<noteq> k)"
    and take_empty: "pool_take [] pool n = (None, pool', n') \<Longrightarrow> \<exists>ds. (\<forall>d \<in># ds. key_of d = []) \<and> mset pool = mset pool' + ds"
begin

lemma take_None_any:
  "pool_take k pool n = (None, pool', n') \<Longrightarrow> \<exists>ds. (\<forall>d \<in># ds. key_of d = k) \<and> mset pool = mset pool' + ds"
  using take_None take_empty by (cases "k = []") blast+

lemma take_submset: "pool_take k pool n = (r, pool', n') \<Longrightarrow> mset pool' \<subseteq># mset pool"
proof (cases r)
  case None
  assume "pool_take k pool n = (r, pool', n')"
  then obtain ds where "mset pool = mset pool' + ds" using take_None_any None by blast
  then show ?thesis by simp
next
  case (Some c)
  assume "pool_take k pool n = (r, pool', n')"
  then obtain e ds where "mset pool = add_mset e (mset pool' + ds)" using take_Some Some by blast
  then have "mset pool = mset pool' + add_mset e ds" by simp
  then show ?thesis by (simp only: mset_subset_eq_add_left)
qed

lemma take_others:
  assumes "pool_take k pool n = (r, pool', n')"
  shows "filter_mset (\<lambda>e. key_of e \<noteq> k) (mset pool') = filter_mset (\<lambda>e. key_of e \<noteq> k) (mset pool)"
proof (cases r)
  case None
  then obtain ds where "\<forall>d \<in># ds. key_of d = k" "mset pool = mset pool' + ds" using take_None_any assms by blast
  then show ?thesis by (simp add: filter_mset_none)
next
  case (Some c)
  then obtain e ds where "key_of e = k" "\<forall>d \<in># ds. key_of d = k" "mset pool = add_mset e (mset pool' + ds)"
    using take_Some assms by blast
  then show ?thesis by (simp add: filter_mset_none)
qed

lemma take_exclusive:
  assumes "distinct (map conn_of pool)" "pool_take k pool n = (r, pool', n')"
  shows "distinct (map conn_of pool') \<and> (\<forall>c. r = Some c \<longrightarrow> c \<in> conn_of ` set pool \<and> c \<notin> conn_of ` set pool')"
proof -
  have d: "count (image_mset conn_of (mset pool)) a \<le> 1" for a
    using assms(1) unfolding distinct_count_le by simp
  have sub: "count (image_mset conn_of (mset pool')) a \<le> count (image_mset conn_of (mset pool)) a" for a
    using image_mset_subseteq_mono [OF take_submset [OF assms(2)]] by (rule mset_subset_eq_count)
  have "distinct (map conn_of pool')"
    unfolding distinct_count_le using sub d by (metis mset_map order_trans)
  moreover have "c \<in> conn_of ` set pool \<and> c \<notin> conn_of ` set pool'" if "r = Some c" for c
  proof -
    have "pool_take k pool n = (Some c, pool', n')" using assms(2) that by simp
    from take_Some [OF this] obtain e ds where e: "conn_of e = c" "mset pool = add_mset e (mset pool' + ds)" by blast
    have "e \<in># mset pool" by (simp add: e(2))
    then have "e \<in> set pool" by simp
    moreover have "count (image_mset conn_of (mset pool')) c = 0" using d [of c] e by simp
    then have "c \<notin># image_mset conn_of (mset pool')" by (simp only: not_in_iff)
    ultimately show ?thesis using e(1) by auto
  qed
  ultimately show ?thesis by blast
qed

end

section \<open>Both pools satisfy the contract\<close>

lemma mset_pool_compact: "i < length pool \<Longrightarrow> mset pool = add_mset (pool ! i) (mset (pool_compact i pool))"
proof -
  assume i: "i < length pool"
  then have ne: "pool \<noteq> []" by auto
  define p where "p = pool[i := last pool]"
  have p: "p \<noteq> []" "last p = last pool" using ne i by (auto simp: p_def last_list_update)
  have "mset p = add_mset (last pool) (mset pool - {#pool ! i#})" using i by (simp add: p_def mset_update)
  moreover have "mset p = add_mset (last p) (mset (butlast p))"
    using append_butlast_last_id [OF p(1)] by (metis add_mset_add_single mset.simps mset_append)
  ultimately have "mset (butlast p) = mset pool - {#pool ! i#}" using p(2) by simp
  then show ?thesis using i by (simp add: pool_compact_def p_def)
qed

lemma set_pool_compact: "i < length pool \<Longrightarrow> set (pool_compact i pool) \<subseteq> set pool"
  using mset_pool_compact [of i pool] by (metis set_mset_add_mset_insert set_mset_mset subset_insertI)

text \<open>
  Both \<open>take\<close> functions scan downwards from the top slot, probe the first entry with the key,
  take it out by compaction, and start again at the new top when the probe says it is stale.
\<close>

locale pool_scan =
  fixes key_of :: "'e \<Rightarrow> string" and conn_of :: "'e \<Rightarrow> int"
    and probe :: "'e \<Rightarrow> 's \<Rightarrow> bool \<times> 's"
    and scan :: "string \<Rightarrow> nat \<Rightarrow> 'e list \<Rightarrow> 's \<Rightarrow> int option \<times> 'e list \<times> 's"
    and skip_empty :: bool
    and pool_take :: "string \<Rightarrow> 'e list \<Rightarrow> 's \<Rightarrow> int option \<times> 'e list \<times> 's"
  assumes scan_0: "scan k 0 pool n = (None, pool, n)"
    and scan_other: "i < length pool \<Longrightarrow> key_of (pool ! i) \<noteq> k \<Longrightarrow> scan k (Suc i) pool n = scan k i pool n"
    and scan_good: "i < length pool \<Longrightarrow> key_of (pool ! i) = k \<Longrightarrow> probe (pool ! i) n = (True, n1) \<Longrightarrow>
       scan k (Suc i) pool n = (Some (conn_of (pool ! i)), pool_compact i pool, n1)"
    and scan_stale: "i < length pool \<Longrightarrow> key_of (pool ! i) = k \<Longrightarrow> probe (pool ! i) n = (False, n1) \<Longrightarrow>
       scan k (Suc i) pool n = scan k (length (pool_compact i pool)) (pool_compact i pool) n1"
    and take_scan: "pool_take k pool n = (if skip_empty \<and> k = [] then (None, pool, n) else scan k (length pool) pool n)"
begin

definition scan_result :: "string \<Rightarrow> 'e list \<Rightarrow> int option \<Rightarrow> 'e list \<Rightarrow> bool" where
  "scan_result k pool r pool' \<longleftrightarrow> (\<exists>ds. (\<forall>d \<in># ds. key_of d = k) \<and>
     (case r of None \<Rightarrow> mset pool = mset pool' + ds \<and> (\<forall>e \<in> set pool'. key_of e \<noteq> k)
      | Some c \<Rightarrow> \<exists>e. key_of e = k \<and> conn_of e = c \<and> mset pool = add_mset e (mset pool' + ds)))"

lemma scan_contract:
  assumes "scan k i pool n = (r, pool', n')" "i \<le> length pool" "\<forall>j. i \<le> j \<and> j < length pool \<longrightarrow> key_of (pool ! j) \<noteq> k"
  shows "scan_result k pool r pool'"
  using assms
proof (induction "length pool" arbitrary: pool i n rule: less_induct)
  case less
  note IH = less.hyps
  from less.prems show ?case
  proof (induction i arbitrary: n)
    case 0
    then have "r = None" "pool' = pool" "\<forall>e \<in> set pool. key_of e \<noteq> k" by (auto simp: scan_0 in_set_conv_nth)
    then show ?case unfolding scan_result_def by (intro exI [of _ "{#}"]) simp
  next
    case (Suc i)
    have i: "i < length pool" using Suc.prems(2) by simp
    show ?case
    proof (cases "key_of (pool ! i) = k")
      case False
      have "\<forall>j. i \<le> j \<and> j < length pool \<longrightarrow> key_of (pool ! j) \<noteq> k"
        using Suc.prems(3) False by (metis le_neq_implies_less Suc_leI)
      then show ?thesis using Suc.IH Suc.prems(1) scan_other [OF i False] i by simp
    next
      case True
      let ?p = "pool_compact i pool"
      note mp = mset_pool_compact [OF i]
      have len: "length ?p < length pool" using i by (auto simp: pool_compact_def)
      obtain ok n1 where pr: "probe (pool ! i) n = (ok, n1)" by fastforce
      show ?thesis
      proof (cases ok)
        case ok: True
        then have "r = Some (conn_of (pool ! i))" "pool' = ?p" using scan_good [OF i True, of n n1] pr Suc.prems(1) by auto
        then show ?thesis using mp True unfolding scan_result_def by (intro exI [of _ "{#}"]) auto
      next
        case stale: False
        then have "scan k (length ?p) ?p n1 = (r, pool', n')" using scan_stale [OF i True, of n n1] pr Suc.prems(1) by simp
        then have "scan_result k ?p r pool'" by (intro IH [OF len, of "length ?p" n1]) auto
        then obtain ds where "\<forall>d \<in># ds. key_of d = k" "case r of None \<Rightarrow> mset ?p = mset pool' + ds \<and> (\<forall>e \<in> set pool'. key_of e \<noteq> k)
          | Some c \<Rightarrow> \<exists>e. key_of e = k \<and> conn_of e = c \<and> mset ?p = add_mset e (mset pool' + ds)"
          unfolding scan_result_def by blast
        then show ?thesis using mp True unfolding scan_result_def
          by (intro exI [of _ "add_mset (pool ! i) ds"]) (auto split: option.splits)
      qed
    qed
  qed
qed

lemma take_result: "pool_take k pool n = (r, pool', n') \<Longrightarrow> \<not> (skip_empty \<and> k = []) \<Longrightarrow> scan_result k pool r pool'"
  by (rule scan_contract [of k "length pool" pool n]) (auto simp: take_scan)

end

sublocale pool_scan \<subseteq> conn_pool key_of conn_of pool_take
proof
  fix k pool n c pool' n'
  show "\<exists>e ds. key_of e = k \<and> conn_of e = c \<and> (\<forall>d \<in># ds. key_of d = k) \<and> mset pool = add_mset e (mset pool' + ds)"
    if t: "pool_take k pool n = (Some c, pool', n')"
  proof -
    have "\<not> (skip_empty \<and> k = [])" using t by (auto simp: take_scan)
    from take_result [OF t this] show ?thesis unfolding scan_result_def by auto
  qed
  show "\<exists>ds. (\<forall>d \<in># ds. key_of d = k) \<and> mset pool = mset pool' + ds \<and> (\<forall>e \<in> set pool'. key_of e \<noteq> k)"
    if "pool_take k pool n = (None, pool', n')" "k \<noteq> []"
    using take_result [OF that(1)] that(2) unfolding scan_result_def by auto
  show "\<exists>ds. (\<forall>d \<in># ds. key_of d = []) \<and> mset pool = mset pool' + ds"
    if t: "pool_take [] pool n = (None, pool', n')"
  proof (cases skip_empty)
    case True
    then have "pool' = pool" using t by (simp add: take_scan)
    then show ?thesis by (intro exI [of _ "{#}"]) simp
  next
    case False
    then show ?thesis using take_result [OF t] unfolding scan_result_def by auto
  qed
qed

definition ep_probe :: "'ot open_transport \<Rightarrow> ep_pool_entry \<Rightarrow> 'ot \<Rightarrow> bool \<times> 'ot" where
  "ep_probe ot e n = (case OTLook ot (pe_ep e) n of (look, n1) \<Rightarrow>
     if look = LookNone then (True, n1) else (False, ep_discard ot look (pe_ep e) n1))"

interpretation epp: pool_scan pe_key pe_ep "ep_probe ot" "ep_pool_scan ot" False "ep_pool_take ot" for ot :: "'ot open_transport"
  by unfold_locales
    (simp add: ep_pool_scan.simps [of _ _ 0], simp add: ep_pool_scan.simps [of _ _ "Suc i" for i],
     simp add: ep_pool_scan.simps [of _ _ "Suc i" for i] ep_probe_def Let_def split: prod.splits if_splits,
     simp add: ep_pool_scan.simps [of _ _ "Suc i" for i] ep_probe_def Let_def split: prod.splits if_splits,
     simp add: ep_pool_take_def)

definition tls_probe :: "'t ostls \<Rightarrow> https_pool_entry \<Rightarrow> 't \<Rightarrow> bool \<times> 't" where
  "tls_probe tls e n =
     (if tls_TickCount tls n - hp_stored_ticks e > HTTPS_POOL_TTL_TICKS then (False, tls_dispose tls (hp_conn e) n)
      else (case OSTLS_Pump tls (hp_conn e) 1 n of (ok, ev, n1) \<Rightarrow>
        if ok \<and> OSTLS_GetState tls (hp_conn e) n1 = kOSTLSStateOpen \<and> ev \<noteq> kOSTLSEventClosed \<and> ev \<noteq> kOSTLSEventFailed
        then (True, n1) else (False, tls_dispose tls (hp_conn e) n1)))"

lemma https_scan_step:
  assumes "i < length pool" "hp_key (pool ! i) = k"
  shows "https_pool_scan tls k (Suc i) pool n =
     (case tls_probe tls (pool ! i) n of (ok, n1) \<Rightarrow>
        if ok then (Some (hp_conn (pool ! i)), pool_compact i pool, n1)
        else https_pool_scan tls k (length (pool_compact i pool)) (pool_compact i pool) n1)"
  using assms by (subst https_pool_scan.simps) (simp add: tls_probe_def Let_def split: prod.splits)

interpretation tlsp: pool_scan hp_key hp_conn "tls_probe tls" "https_pool_scan tls" True "https_pool_take tls" for tls :: "'t ostls"
proof
  fix k :: string and pool :: "https_pool_entry list" and n n1 :: 't and i :: nat
  show "https_pool_scan tls k 0 pool n = (None, pool, n)" by (subst https_pool_scan.simps) simp
  show "https_pool_scan tls k (Suc i) pool n = https_pool_scan tls k i pool n" if "i < length pool" "hp_key (pool ! i) \<noteq> k"
    using that by (subst https_pool_scan.simps) simp
  show "https_pool_scan tls k (Suc i) pool n = (Some (hp_conn (pool ! i)), pool_compact i pool, n1)"
    if "i < length pool" "hp_key (pool ! i) = k" "tls_probe tls (pool ! i) n = (True, n1)"
    using that by (simp add: https_scan_step)
  show "https_pool_scan tls k (Suc i) pool n = https_pool_scan tls k (length (pool_compact i pool)) (pool_compact i pool) n1"
    if "i < length pool" "hp_key (pool ! i) = k" "tls_probe tls (pool ! i) n = (False, n1)"
    using that by (simp add: https_scan_step)
  show "https_pool_take tls k pool n = (if True \<and> k = [] then (None, pool, n) else https_pool_scan tls k (length pool) pool n)"
    by (simp add: https_pool_take_def)
qed

section \<open>Properties\<close>

text \<open>
  C12. Taking from either pool: no connection is handed out twice. If the pooled connections are
  pairwise distinct, the connection handed out was pooled and is no longer pooled afterwards,
  the rest stay distinct, entries for other hosts are all kept, and when nothing is handed out
  no entry for the key is left (all were stale and closed).
\<close>

theorem pool_take_exclusive:
  assumes "distinct (map pe_ep pool)" "ep_pool_take ot k pool n = (r, pool', n')"
    and "distinct (map hp_conn tpool)" "https_pool_take tls k tpool t = (tr, tpool', t')"
  shows "distinct (map pe_ep pool') \<and> (\<forall>c. r = Some c \<longrightarrow> c \<in> pe_ep ` set pool \<and> c \<notin> pe_ep ` set pool')
       \<and> filter_mset (\<lambda>e. pe_key e \<noteq> k) (mset pool') = filter_mset (\<lambda>e. pe_key e \<noteq> k) (mset pool)
       \<and> (r = None \<and> k \<noteq> [] \<longrightarrow> (\<forall>e \<in> set pool'. pe_key e \<noteq> k))
     \<and> distinct (map hp_conn tpool') \<and> (\<forall>c. tr = Some c \<longrightarrow> c \<in> hp_conn ` set tpool \<and> c \<notin> hp_conn ` set tpool')
       \<and> filter_mset (\<lambda>e. hp_key e \<noteq> k) (mset tpool') = filter_mset (\<lambda>e. hp_key e \<noteq> k) (mset tpool)
       \<and> (tr = None \<and> k \<noteq> [] \<longrightarrow> (\<forall>e \<in> set tpool'. hp_key e \<noteq> k))"
  using epp.take_exclusive [OF assms(1,2)] epp.take_others [OF assms(2)] epp.take_None [of ot k pool n pool' n']
    tlsp.take_exclusive [OF assms(3,4)] tlsp.take_others [OF assms(4)] tlsp.take_None [of tls k tpool t tpool' t'] assms(2,4)
  by blast

text \<open>Stand-ins whose state is the tick counter: every connection is healthy, nothing arrives.\<close>

definition quiet_ot :: "ticks open_transport" where
  "quiet_ot = \<lparr>OTCreateConfiguration = (\<lambda>n. (True, n)), OTOpenEndpoint = (\<lambda>n. (True, Some 1, n)),
     OTBind = (\<lambda>_ n. (True, n)), OTConnect = (\<lambda>_ _ n. (True, n)), OTSetSynchronousBlocking = (\<lambda>_ n. n),
     OTSetNonBlocking = (\<lambda>_ n. n), OTSnd = (\<lambda>_ b n. (int (length b), n)), OTRcv = (\<lambda>_ _ n. (kOTNoDataErr, n)),
     OTLook = (\<lambda>_ n. (LookNone, n)), OTRcvOrderlyDisconnect = (\<lambda>_ n. n), OTRcvDisconnect = (\<lambda>_ n. n),
     OTSndOrderlyDisconnect = (\<lambda>_ n. n), OTCloseProvider = (\<lambda>_ n. n), ot_TickCount = (\<lambda>n. n)\<rparr>"

definition quiet_tls :: "ticks ostls" where
  "quiet_tls = \<lparr>OSTLS_New = (\<lambda>_ _ n. (True, Some 1, n)), OSTLS_Start = (\<lambda>_ n. (True, n)),
     OSTLS_Pump = (\<lambda>_ _ n. (True, kOSTLSEventNone, n)), OSTLS_GetState = (\<lambda>_ _. kOSTLSStateOpen),
     OSTLS_Write = (\<lambda>_ b n. (True, length b, n)), OSTLS_Read = (\<lambda>_ _ n. (True, [], n)),
     OSTLS_Close = (\<lambda>_ n. n), OSTLS_Dispose = (\<lambda>_ n. n), tls_TickCount = (\<lambda>n. n)\<rparr>"

theorem pool_take_exclusive_witness:
  "7 \<notin> pe_ep ` set (fst (snd (ep_pool_take quiet_ot ''a:80'' [\<lparr>pe_ep = 7, pe_key = ''a:80''\<rparr>] 0)))"
proof -
  have "ep_pool_take quiet_ot ''a:80'' [\<lparr>pe_ep = 7, pe_key = ''a:80''\<rparr>] 0 = (Some 7, [], 0)"
    "https_pool_take quiet_tls ''a:80'' [\<lparr>hp_conn = 7, hp_key = ''a:80'', hp_stored_ticks = 0\<rparr>] 0 = (Some 7, [], 0)"
    by code_simp+
  from pool_take_exclusive [OF _ this(1) _ this(2)] this(1) show ?thesis by simp
qed

text \<open>
  Returning a TLS connection makes it the next one handed out for its host: the pool holds
  at most 16 connections, a full pool gives up exactly its oldest entry, and taking with the
  same key while the connection is young and healthy yields that very connection and leaves the
  pool as it was before the return, less the evicted entry.
\<close>

theorem https_pool_return_take:
  assumes "k \<noteq> []" "length k < HTTPS_POOL_KEY_LEN" "length pool \<le> HTTPS_POOL_SIZE"
    and "https_pool_return tls k (Some c) pool n = (pool1, n1)"
    and "tls_probe tls \<lparr>hp_conn = c, hp_key = k, hp_stored_ticks = tls_TickCount tls n1\<rparr> n2 = (True, n3)"
  shows "length pool1 \<le> HTTPS_POOL_SIZE \<and>
     https_pool_take tls k pool1 n2 = (Some c, if length pool < HTTPS_POOL_SIZE then pool else tl pool, n3)"
proof -
  define rest where "rest = (if length pool < HTTPS_POOL_SIZE then pool else tl pool)"
  define e where "e = \<lparr>hp_conn = c, hp_key = k, hp_stored_ticks = tls_TickCount tls n1\<rparr>"
  have p1: "pool1 = rest @ [e]"
    using assms(1,2,4) by (auto simp: https_pool_return_def Let_def rest_def e_def slot_string_short split: if_splits)
  have "https_pool_scan tls k (Suc (length rest)) pool1 n2 = (Some (hp_conn (pool1 ! length rest)), pool_compact (length rest) pool1, n3)"
    using assms(5) by (intro tlsp.scan_good) (simp_all add: p1 e_def)
  moreover have "pool_compact (length rest) pool1 = rest" by (simp add: pool_compact_def p1)
  moreover have "length rest < HTTPS_POOL_SIZE" using assms(3) by (auto simp: rest_def HTTPS_POOL_SIZE_def)
  ultimately show ?thesis
    using assms(1) by (simp add: https_pool_take_def p1 rest_def [symmetric]) (simp add: e_def)
qed

theorem https_pool_return_take_witness:
  "https_pool_take quiet_tls ''a:443'' (fst (https_pool_return quiet_tls ''a:443'' (Some 7) [] 5)) 9 = (Some 7, [], 9)"
proof -
  have "https_pool_return quiet_tls ''a:443'' (Some 7) [] 5 = ([\<lparr>hp_conn = 7, hp_key = ''a:443'', hp_stored_ticks = 5\<rparr>], 5)"
    "tls_probe quiet_tls \<lparr>hp_conn = 7, hp_key = ''a:443'', hp_stored_ticks = tls_TickCount quiet_tls 5\<rparr> 9 = (True, 9)"
    by code_simp+
  from https_pool_return_take [OF _ _ _ this] this(1) show ?thesis
    by (simp add: HTTPS_POOL_KEY_LEN_def HTTPS_POOL_SIZE_def)
qed

end
