(* ===== verification/ResourceGov.thy ===== *)
theory ResourceGov
  imports MS_Prelude
begin

text \<open>
  The resource governor of \<open>frontends/macos9/macos9_http_fetcher.c\<close>: the URL-suffix classifier
  (\<open>macos9_classify_url\<close>), the per-class caps, the skip counters and the heavy-page latch.
  URLs are their \<open>nsurl_access\<close> strings, \<open>None\<close> a null pointer. The counters are 32-bit
  \<open>long\<close>s in the code; they count refused fetches of one page and are integers here.
\<close>

datatype rclass = RC_DOCUMENT | RC_CSS | RC_IMAGE | RC_SCRIPT | RC_FONT | RC_OTHER

definition MAX_DOC_F :: nat where "MAX_DOC_F = 2"
definition MAX_CSS_F :: nat where "MAX_CSS_F = 4"
definition MAX_IMG_F :: nat where "MAX_IMG_F = 8"
definition MAX_SCRIPT_F :: nat where "MAX_SCRIPT_F = 4"
definition MAX_FONT_F :: nat where "MAX_FONT_F = 2"
definition MAX_OTHER_F :: nat where "MAX_OTHER_F = 4"
definition MAX_GLOBAL_F :: nat where "MAX_GLOBAL_F = 16"

section \<open>The classifier\<close>

text \<open>\<open>c | 0x20\<close>, and the last \<open>k\<close> characters of the path folded that way, after a dot.\<close>

definition or20 :: "char \<Rightarrow> char" where
  "or20 c = char_of ((of_char c :: nat) OR 0x20)"

definition dot_suffix :: "nat \<Rightarrow> string \<Rightarrow> string option" where
  "dot_suffix k p =
     (if length p \<ge> k + 1 \<and> p ! (length p - (k + 1)) = CHR ''.''
      then Some (map or20 (drop (length p - k) p)) else None)"

text \<open>The comparison chains for suffixes of 5, 4, 3 and 2 characters, as tables.\<close>

definition suffix5_table :: "(string \<times> rclass) list" where
  "suffix5_table = [(''woff2'', RC_FONT)]"

definition suffix4_table :: "(string \<times> rclass) list" where
  "suffix4_table =
     [(''jpeg'', RC_IMAGE), (''webp'', RC_IMAGE), (''tiff'', RC_IMAGE), (''avif'', RC_IMAGE), (''woff'', RC_FONT),
      (''html'', RC_DOCUMENT), (''shtm'', RC_DOCUMENT), (''aspx'', RC_DOCUMENT)]"

definition suffix3_table :: "(string \<times> rclass) list" where
  "suffix3_table =
     [(''jpg'', RC_IMAGE), (''png'', RC_IMAGE), (''gif'', RC_IMAGE), (''bmp'', RC_IMAGE), (''ico'', RC_IMAGE),
      (''svg'', RC_IMAGE), (''tif'', RC_IMAGE), (''css'', RC_CSS), (''mjs'', RC_SCRIPT), (''ttf'', RC_FONT),
      (''otf'', RC_FONT), (''eot'', RC_FONT), (''htm'', RC_DOCUMENT), (''php'', RC_DOCUMENT), (''jsp'', RC_DOCUMENT)]"

definition suffix2_table :: "(string \<times> rclass) list" where
  "suffix2_table = [(''js'', RC_SCRIPT)]"

definition suffix_class :: "(string \<times> rclass) list \<Rightarrow> string option \<Rightarrow> rclass option" where
  "suffix_class table s = (case s of None \<Rightarrow> None | Some e \<Rightarrow> map_of table e)"

text \<open>The bare domain root is a document, everything else without a known suffix is not.\<close>

definition root_class :: "string \<Rightarrow> rclass" where
  "root_class p =
     (let n = length p;
          path_start = (case strstr_split ''://'' p of
              Some (a, _) \<Rightarrow> Some (length a + 3 + length (takeWhile (\<lambda>c. c \<noteq> CHR ''/'') (drop (length a + 3) p)))
            | None \<Rightarrow> if CHR ''/'' \<in> set p then Some 0 else None)
      in case path_start of
           None \<Rightarrow> RC_OTHER
         | Some i \<Rightarrow>
             if i \<ge> n then RC_DOCUMENT
             else if i = n - 1 \<and> p ! i = CHR ''/'' then RC_DOCUMENT
             else RC_OTHER)"

definition url_path_part :: "string \<Rightarrow> string" where
  "url_path_part s = takeWhile (\<lambda>c. c \<noteq> CHR ''?'' \<and> c \<noteq> CHR ''#'') s"

definition macos9_classify_url :: "string option \<Rightarrow> rclass" where
  "macos9_classify_url u =
     (case u of
        None \<Rightarrow> RC_OTHER
      | Some s \<Rightarrow>
          (let p = url_path_part s in
           if length p < 1 then RC_OTHER
           else case suffix_class suffix5_table (dot_suffix 5 p) of Some rc \<Rightarrow> rc | None \<Rightarrow>
                case suffix_class suffix4_table (dot_suffix 4 p) of Some rc \<Rightarrow> rc | None \<Rightarrow>
                case suffix_class suffix3_table (dot_suffix 3 p) of Some rc \<Rightarrow> rc | None \<Rightarrow>
                case suffix_class suffix2_table (dot_suffix 2 p) of Some rc \<Rightarrow> rc | None \<Rightarrow> root_class p))"

definition macos9_rclass_name :: "rclass \<Rightarrow> string" where
  "macos9_rclass_name rc = (case rc of RC_DOCUMENT \<Rightarrow> ''DOC'' | RC_CSS \<Rightarrow> ''CSS'' | RC_IMAGE \<Rightarrow> ''IMG''
     | RC_SCRIPT \<Rightarrow> ''SCR'' | RC_FONT \<Rightarrow> ''FNT'' | RC_OTHER \<Rightarrow> ''OTH'')"

definition macos9_rclass_cap :: "rclass \<Rightarrow> nat" where
  "macos9_rclass_cap rc = (case rc of RC_DOCUMENT \<Rightarrow> MAX_DOC_F | RC_CSS \<Rightarrow> MAX_CSS_F | RC_IMAGE \<Rightarrow> MAX_IMG_F
     | RC_SCRIPT \<Rightarrow> MAX_SCRIPT_F | RC_FONT \<Rightarrow> MAX_FONT_F | RC_OTHER \<Rightarrow> MAX_OTHER_F)"

section \<open>Skip counters and the heavy-page latch\<close>

record site_stats =
  rgov_skip_doc :: int
  rgov_skip_css :: int
  rgov_skip_img :: int
  rgov_skip_script :: int
  rgov_skip_font :: int
  rgov_skip_other :: int
  site_heavy :: bool
  fetch_slot_fail :: int
  fetch_active_peak :: int

definition macos9_rgov_bump_skip :: "rclass \<Rightarrow> site_stats \<Rightarrow> site_stats" where
  "macos9_rgov_bump_skip rc s =
     (let s1 = (case rc of
            RC_DOCUMENT \<Rightarrow> s\<lparr>rgov_skip_doc := rgov_skip_doc s + 1\<rparr>
          | RC_CSS \<Rightarrow> s\<lparr>rgov_skip_css := rgov_skip_css s + 1\<rparr>
          | RC_IMAGE \<Rightarrow> s\<lparr>rgov_skip_img := rgov_skip_img s + 1\<rparr>
          | RC_SCRIPT \<Rightarrow> s\<lparr>rgov_skip_script := rgov_skip_script s + 1\<rparr>
          | RC_FONT \<Rightarrow> s\<lparr>rgov_skip_font := rgov_skip_font s + 1\<rparr>
          | RC_OTHER \<Rightarrow> s\<lparr>rgov_skip_other := rgov_skip_other s + 1\<rparr>);
          s2 = (if rgov_skip_img s1 > 20 then s1\<lparr>site_heavy := True\<rparr> else s1);
          s3 = (if rgov_skip_script s2 > 10 then s2\<lparr>site_heavy := True\<rparr> else s2);
          total = rgov_skip_img s3 + rgov_skip_script s3 + rgov_skip_other s3 + rgov_skip_font s3
      in if total > 30 then s3\<lparr>site_heavy := True\<rparr> else s3)"

definition macsurf_site_is_heavy :: "site_stats \<Rightarrow> bool" where
  "macsurf_site_is_heavy s = site_heavy s"

definition site_stats_reset :: "site_stats \<Rightarrow> site_stats" where
  "site_stats_reset s = s\<lparr>site_heavy := False, rgov_skip_doc := 0, rgov_skip_css := 0, rgov_skip_img := 0,
     rgov_skip_script := 0, rgov_skip_font := 0, rgov_skip_other := 0\<rparr>"

section \<open>Properties\<close>

definition image_suffixes :: "string list" where
  "image_suffixes = [''jpeg'', ''webp'', ''tiff'', ''avif'', ''jpg'', ''png'', ''gif'', ''bmp'', ''ico'', ''svg'', ''tif'']"

lemma dot_suffix_iff:
  "dot_suffix k p = Some e \<longleftrightarrow> (\<exists>pre t. p = pre @ CHR ''.'' # t \<and> length t = k \<and> map or20 t = e)"
proof
  assume a: "dot_suffix k p = Some e"
  then have l: "length p \<ge> k + 1" "p ! (length p - (k + 1)) = CHR ''.''" "map or20 (drop (length p - k) p) = e"
    by (auto simp: dot_suffix_def split: if_splits)
  have "p = take (length p - (k + 1)) p @ p ! (length p - (k + 1)) # drop (Suc (length p - (k + 1))) p"
    using l(1) by (intro id_take_nth_drop) simp
  moreover have "Suc (length p - (k + 1)) = length p - k" using l(1) by simp
  ultimately show "\<exists>pre t. p = pre @ CHR ''.'' # t \<and> length t = k \<and> map or20 t = e" using l by (metis diff_diff_cancel length_drop add_leD1)
next
  assume "\<exists>pre t. p = pre @ CHR ''.'' # t \<and> length t = k \<and> map or20 t = e"
  then obtain pre t where "p = pre @ CHR ''.'' # t" "length t = k" "map or20 t = e" by blast
  then show "dot_suffix k p = Some e" by (auto simp: dot_suffix_def nth_append)
qed

lemma dot_suffix_longer:
  assumes "dot_suffix k p = Some e" "k < m" "dot_suffix m p = Some f"
  shows "CHR ''.'' \<in> set f"
proof -
  obtain pre t pre' t' where d: "p = pre @ CHR ''.'' # t" "length t = k" "p = pre' @ CHR ''.'' # t'" "length t' = m" "map or20 t' = f"
    using assms(1,3) unfolding dot_suffix_iff by blast
  have "pre @ CHR ''.'' # t = pre' @ CHR ''.'' # t'" using d by simp
  then obtain us where "t' = us @ CHR ''.'' # t"
    using d(2,4) assms(2) by (auto simp: append_eq_append_conv2 Cons_eq_append_conv append_eq_Cons_conv)
  then have "or20 CHR ''.'' \<in> set f" using d(5) by auto
  moreover have "or20 CHR ''.'' = CHR ''.''" by code_simp
  ultimately show ?thesis by simp
qed

lemma root_class_cases: "root_class p \<in> {RC_DOCUMENT, RC_OTHER}"
  by (simp add: root_class_def Let_def split: option.splits)

lemma suffix_tables:
  "\<forall>(e, rc) \<in> set suffix5_table. length e = 5 \<and> CHR ''.'' \<notin> set e \<and> rc \<noteq> RC_IMAGE"
  "\<forall>(e, rc) \<in> set suffix4_table. length e = 4 \<and> CHR ''.'' \<notin> set e \<and> (rc = RC_IMAGE \<longrightarrow> e \<in> set image_suffixes)"
  "\<forall>(e, rc) \<in> set suffix3_table. length e = 3 \<and> CHR ''.'' \<notin> set e \<and> (rc = RC_IMAGE \<longrightarrow> e \<in> set image_suffixes)"
  "\<forall>(e, rc) \<in> set suffix2_table. rc \<noteq> RC_IMAGE"
  "\<forall>e \<in> set image_suffixes. length e = 4 \<and> map_of suffix4_table e = Some RC_IMAGE \<or> length e = 3 \<and> map_of suffix3_table e = Some RC_IMAGE"
  by code_simp+

lemma suffix_class_Some: "suffix_class table s = Some rc \<Longrightarrow> \<exists>e. s = Some e \<and> (e, rc) \<in> set table"
  by (auto simp: suffix_class_def map_of_SomeD split: option.splits)

text \<open>
  A fetch is classed as an image exactly when its URL, up to a query or fragment, ends in a
  dot and one of the eleven image suffixes, letter case ignored: what follows \<open>?\<close> or \<open>#\<close> never
  matters. Images are the only class the governor refuses.
\<close>

theorem macos9_classify_url_image:
  "macos9_classify_url (Some s) = RC_IMAGE \<longleftrightarrow>
     (\<exists>pre t. url_path_part s = pre @ CHR ''.'' # t \<and> map or20 t \<in> set image_suffixes)"
proof -
  define p where "p = url_path_part s"
  have cl: "macos9_classify_url (Some s) = (if p = [] then RC_OTHER
     else case suffix_class suffix5_table (dot_suffix 5 p) of Some rc \<Rightarrow> rc | None \<Rightarrow>
          case suffix_class suffix4_table (dot_suffix 4 p) of Some rc \<Rightarrow> rc | None \<Rightarrow>
          case suffix_class suffix3_table (dot_suffix 3 p) of Some rc \<Rightarrow> rc | None \<Rightarrow>
          case suffix_class suffix2_table (dot_suffix 2 p) of Some rc \<Rightarrow> rc | None \<Rightarrow> root_class p)"
    unfolding macos9_classify_url_def p_def Let_def option.case by simp
  have "macos9_classify_url (Some s) = RC_IMAGE \<longleftrightarrow> (\<exists>e \<in> set image_suffixes. dot_suffix (length e) p = Some e)" (is "?l = ?r")
  proof
    assume ?l
    moreover have "suffix_class suffix5_table x \<noteq> Some RC_IMAGE" "suffix_class suffix2_table x \<noteq> Some RC_IMAGE" for x
      using suffix_class_Some suffix_tables(1,4) by blast+
    ultimately have "suffix_class suffix4_table (dot_suffix 4 p) = Some RC_IMAGE \<or> suffix_class suffix3_table (dot_suffix 3 p) = Some RC_IMAGE"
      using root_class_cases [of p] unfolding cl by (auto split: if_splits option.splits)
    then obtain k e where k: "dot_suffix k p = Some e" "e \<in> set image_suffixes"
      using suffix_class_Some [of suffix4_table "dot_suffix 4 p" RC_IMAGE] suffix_class_Some [of suffix3_table "dot_suffix 3 p" RC_IMAGE]
        suffix_tables(2,3) by blast
    moreover from k(1) have "length e = k" unfolding dot_suffix_iff by auto
    ultimately show ?r by blast
  next
    assume ?r
    then obtain e where e: "e \<in> set image_suffixes" "dot_suffix (length e) p = Some e" by blast
    have ne: "p \<noteq> []" using e(2) by (auto simp: dot_suffix_def split: if_splits)
    have no: "suffix_class table (dot_suffix m p) = None" if "length e < m" "\<forall>(f, rc) \<in> set table. CHR ''.'' \<notin> set f" for table m
      using suffix_class_Some [of table "dot_suffix m p"] dot_suffix_longer [OF e(2) that(1)] that(2)
      by (cases "suffix_class table (dot_suffix m p)") auto
    have len: "length e = 4 \<and> map_of suffix4_table e = Some RC_IMAGE \<or> length e = 3 \<and> map_of suffix3_table e = Some RC_IMAGE"
      using e(1) suffix_tables(5) by blast
    have s5: "suffix_class suffix5_table (dot_suffix 5 p) = None" using len suffix_tables(1) by (intro no) auto
    have s4: "length e = 3 \<Longrightarrow> suffix_class suffix4_table (dot_suffix 4 p) = None" using suffix_tables(2) by (intro no) auto
    from len show ?l
    proof
      assume "length e = 4 \<and> map_of suffix4_table e = Some RC_IMAGE"
      then show ?thesis using e(2) ne s5 by (simp add: cl suffix_class_def)
    next
      assume "length e = 3 \<and> map_of suffix3_table e = Some RC_IMAGE"
      then show ?thesis using e(2) ne s5 s4 by (simp add: cl suffix_class_def [of suffix3_table])
    qed
  qed
  also have "\<dots> \<longleftrightarrow> (\<exists>pre t. p = pre @ CHR ''.'' # t \<and> map or20 t \<in> set image_suffixes)"
    unfolding dot_suffix_iff by (metis length_map)
  finally show ?thesis unfolding p_def .
qed

end
