(* ===== verification/HttpFetcher.thy ===== *)
theory HttpFetcher
  imports FetchCore DiskCache ChunkedDecoder HostLists ConnPool ResourceGov
begin

text \<open>
  The HTTP fetcher of \<open>frontends/macos9/macos9_http_fetcher.c\<close>: 64 fetch slots driven by a
  polling loop over Open Transport, with the endpoint pool, the disk cache, the chunked decoder,
  the resource governor and the scheme tracker.

  The static data of the file and of the modules it calls is the record \<open>http_world\<close>. A slot is
  addressed by its index. Calls into the NetSurf core (\<open>fetch_send_callback\<close>,
  \<open>fetch_set_http_code\<close>, \<open>fetch_remove_from_queues\<close>, \<open>fetch_free\<close>) are recorded in order as
  \<open>fetch_ev\<close> events; \<open>fetch_free\<close> also runs the fetcher's own \<open>free\<close> operation. What the core
  does in a callback reaches the fetcher as further operations (\<open>setup\<close>, \<open>start\<close>, \<open>abort\<close>).
  The operating system is the record \<open>sysapi\<close>. Functions that may not return (the decoder and
  the drain loop) have option results.
\<close>

section \<open>State\<close>

datatype mfs_state = MFS_IDLE | MFS_QUEUED | MFS_INIT | MFS_HEADERS | MFS_BODY | MFS_DONE | MFS_FAIL | MFS_NOTIFIED

record macos9_fetch_ctx = body_ctx +
  fc_parent :: nat
  fc_url :: "nsurl option"
  fc_state :: mfs_state
  fc_aborted :: bool
  fc_ep :: "int option"
  fc_h_buf :: "bytes option"
  fc_h_cap :: int
  fc_status :: int
  fc_mime :: string
  fc_err :: "string option"
  fc_content_length :: int
  fc_keep_alive_ok :: bool
  fc_chunked :: bool
  fc_pool_key :: string
  fc_progress_ticks :: ticks
  fc_redirect_url :: string
  fc_rclass :: rclass
  fc_cache_hit :: bool
  fc_cache_hit_body :: "bytes option"
  fc_cache_hit_mime :: string
  fc_cache_hit_status :: int
  fc_post_body :: "bytes option"

record ('fs, 'ot) http_world =
  f_slots :: "macos9_fetch_ctx list"
  ep_pool :: "ep_pool_entry list"
  pending_document :: bool
  stats :: site_stats
  hosts :: host_lists
  dcache :: "'fs disk_cache"
  net :: 'ot
  events :: "fetch_ev list"

record ('fs, 'ot) sysapi =
  api_fm :: "'fs file_manager"
  api_ot :: "'ot open_transport"
  api_malloc :: "nat \<Rightarrow> bool"
  api_realloc :: "int \<Rightarrow> bool"

definition MAX_F :: nat where "MAX_F = 64"
definition RECV_B :: nat where "RECV_B = 32768"

definition emit :: "fetch_ev list \<Rightarrow> ('fs, 'ot) http_world \<Rightarrow> ('fs, 'ot) http_world" where
  "emit es w = w\<lparr>events := events w @ es\<rparr>"

abbreviation slot :: "('fs, 'ot) http_world \<Rightarrow> nat \<Rightarrow> macos9_fetch_ctx" where
  "slot w i \<equiv> f_slots w ! i"

definition put_slot :: "nat \<Rightarrow> macos9_fetch_ctx \<Rightarrow> ('fs, 'ot) http_world \<Rightarrow> ('fs, 'ot) http_world" where
  "put_slot i c w = w\<lparr>f_slots := (f_slots w)[i := c]\<rparr>"

section \<open>Closing and freeing a slot\<close>

definition ot_close :: "'ot open_transport \<Rightarrow> int \<Rightarrow> 'ot \<Rightarrow> 'ot" where
  "ot_close ot ep n = OTCloseProvider ot ep (OTSndOrderlyDisconnect ot ep n)"

definition mfs_close ::
    "'ot open_transport \<Rightarrow> macos9_fetch_ctx \<Rightarrow> ep_pool_entry list \<Rightarrow> 'ot
      \<Rightarrow> (macos9_fetch_ctx \<times> ep_pool_entry list \<times> 'ot) option" where
  "mfs_close ot c pool n =
     (case fc_ep c of
        None \<Rightarrow> Some (c, pool, n)
      | Some ep \<Rightarrow>
          if fc_keep_alive_ok c \<and> \<not> fc_aborted c \<and> fc_pool_key c \<noteq> []
          then map_option (\<lambda>(pool', n'). (c\<lparr>fc_ep := None\<rparr>, pool', n')) (ep_pool_return ot (fc_pool_key c) (Some ep) pool n)
          else Some (c\<lparr>fc_ep := None\<rparr>, pool, ot_close ot ep n))"

definition macos9_http_free ::
    "('fs, 'ot) sysapi \<Rightarrow> nat \<Rightarrow> ('fs, 'ot) http_world \<Rightarrow> ('fs, 'ot) http_world option" where
  "macos9_http_free api i w =
     map_option (\<lambda>(c, pool, n).
       (put_slot i (c\<lparr>fc_h_buf := None, fc_url := None, cache_capture := None, cache_cap_cap := 0, cache_overflow := False,
                      cache_eligible := False, fc_cache_hit_body := None, fc_cache_hit := False, fc_cache_hit_mime := [],
                      fc_cache_hit_status := 0, fc_post_body := None, fc_state := MFS_IDLE\<rparr>) w)
         \<lparr>ep_pool := pool, net := n\<rparr>)
       (mfs_close (api_ot api) (slot w i) (ep_pool w) (net w))"

text \<open>\<open>fetch_remove_from_queues\<close> and \<open>fetch_free\<close> on the slot's parent.\<close>

definition fetch_release ::
    "('fs, 'ot) sysapi \<Rightarrow> nat \<Rightarrow> ('fs, 'ot) http_world \<Rightarrow> ('fs, 'ot) http_world option" where
  "fetch_release api i w =
     (let p = fc_parent (slot w i)
      in macos9_http_free api i (emit [RemoveFromQueues p, FreeFetch p] w))"

section \<open>Opening a connection\<close>

text \<open>The disk-cache lookup at the start of \<open>mfs_open\<close>; the flag says that it hit.\<close>

definition mfs_open_cache ::
    "('fs, 'ot) sysapi \<Rightarrow> nat \<Rightarrow> ('fs, 'ot) http_world \<Rightarrow> bool \<times> ('fs, 'ot) http_world" where
  "mfs_open_cache api i w =
     (let c = slot w i in
      if fc_url c \<noteq> None \<and> \<not> fc_cache_hit c \<and> fc_post_body c = None \<and> \<not> macsurf_http_skip_next_cache (dcache w)
      then (case macos9_cache_lookup (api_fm api) (api_malloc api) (map_option url_string (fc_url c)) 128 (dcache w) of
              (Some h, dc) \<Rightarrow>
                (True, put_slot i (c\<lparr>fc_cache_hit_body := Some (ch_body h), fc_cache_hit_mime := ch_mime h,
                         fc_cache_hit_status := ch_status h, fc_cache_hit := True, fc_mime := take 127 (ch_mime h),
                         fc_status := ch_status h, fc_content_length := int (length (ch_body h)), fc_keep_alive_ok := False\<rparr>)
                       (w\<lparr>dcache := dc\<rparr>))
            | (None, dc) \<Rightarrow>
                (False, put_slot i (c\<lparr>fc_cache_hit_body := None, fc_cache_hit_mime := [], fc_cache_hit_status := 0\<rparr>)
                       (w\<lparr>dcache := dc\<rparr>)))
      else (False, w))"

text \<open>\<open>host:port\<close>, when the host fits the 96-byte buffer.\<close>

definition mfs_port :: "string option \<Rightarrow> int" where
  "mfs_port port =
     (case port of
        None \<Rightarrow> 80
      | Some s \<Rightarrow> if s = [] then 80
                  else (let n = atol_c s in if n \<le> 0 \<or> n > 65535 then 80 else n))"

definition mfs_target :: "string \<Rightarrow> string option \<Rightarrow> string option" where
  "mfs_target host port =
     (if length host + 8 \<ge> POOL_KEY_LEN then None else Some (host @ '':'' @ show_int (mfs_port port)))"

text \<open>Path and query in the 1024-byte \<open>path_buf\<close>.\<close>

definition mfs_path_buf :: "string option \<Rightarrow> string option \<Rightarrow> string" where
  "mfs_path_buf path query =
     (let p = (case path of None \<Rightarrow> [] | Some s \<Rightarrow> s); q = (case query of None \<Rightarrow> [] | Some s \<Rightarrow> s) in
      if p = [] then ''/''
      else if q = [] then take 1023 p
      else (let p' = take 1022 p;
                q_len = (if length p' + length q > 1022 then 1022 - length p' else length q)
            in p' @ ''?'' @ take q_len q))"

definition CRLF :: string where "CRLF = [CR, LF]"

definition mfs_request :: "string \<Rightarrow> string \<Rightarrow> bytes option \<Rightarrow> string" where
  "mfs_request path_buf host post =
     (case post of
        Some b \<Rightarrow> ''POST '' @ path_buf @ '' HTTP/1.1'' @ CRLF @ ''Host: '' @ host @ CRLF
                  @ ''User-Agent: MacSurf/0.2'' @ CRLF @ ''Accept: */*'' @ CRLF
                  @ ''Content-Type: application/x-www-form-urlencoded'' @ CRLF
                  @ ''Content-Length: '' @ show_int (int (length b)) @ CRLF
                  @ ''Connection: close'' @ CRLF @ CRLF
      | None \<Rightarrow> ''GET '' @ path_buf @ '' HTTP/1.1'' @ CRLF @ ''Host: '' @ host @ CRLF
                @ ''User-Agent: MacSurf/0.2'' @ CRLF @ ''Accept: */*'' @ CRLF
                @ ''Connection: keep-alive'' @ CRLF @ CRLF)"

text \<open>The bound checked before the request is written into the 2048-byte buffer.\<close>

definition mfs_request_fits :: "string \<Rightarrow> string \<Rightarrow> bytes option \<Rightarrow> bool" where
  "mfs_request_fits path_buf host post \<longleftrightarrow>
     (if post \<noteq> None then 160 else 86) + length path_buf + length host + 1 \<le> 2048"

text \<open>An endpoint: pooled, or opened, bound and connected.\<close>

definition mfs_endpoint ::
    "'ot open_transport \<Rightarrow> string \<Rightarrow> string \<Rightarrow> ep_pool_entry list \<Rightarrow> 'ot
      \<Rightarrow> bool \<times> int option \<times> ep_pool_entry list \<times> 'ot" where
  "mfs_endpoint ot pool_key target pool n =
     (case ep_pool_take ot pool_key pool n of
        (Some ep, pool', n1) \<Rightarrow> (True, Some ep, pool', OTSetSynchronousBlocking ot ep n1)
      | (None, pool', n1) \<Rightarrow>
          (case OTCreateConfiguration ot n1 of (cfg_ok, n2) \<Rightarrow>
           if \<not> cfg_ok then (False, None, pool', n2)
           else (case OTOpenEndpoint ot n2 of (open_ok, epo, n3) \<Rightarrow>
             (case epo of
                None \<Rightarrow> (False, None, pool', n3)
              | Some ep \<Rightarrow>
                  if \<not> open_ok then (False, Some ep, pool', n3)
                  else (case OTBind ot ep (OTSetSynchronousBlocking ot ep n3) of (bind_ok, n4) \<Rightarrow>
                    if \<not> bind_ok then (False, Some ep, pool', n4)
                    else (case OTConnect ot ep target n4 of (conn_ok, n5) \<Rightarrow> (conn_ok, Some ep, pool', n5)))))))"

text \<open>Sending the request and the POST body.\<close>

definition mfs_send :: "'ot open_transport \<Rightarrow> int \<Rightarrow> string \<Rightarrow> bytes option \<Rightarrow> 'ot \<Rightarrow> bool \<times> 'ot" where
  "mfs_send ot ep req post n =
     (case OTSnd ot ep req n of (r, n1) \<Rightarrow>
      if r < 0 then (False, n1)
      else (case post of
              None \<Rightarrow> (True, OTSetNonBlocking ot ep n1)
            | Some b \<Rightarrow>
                if b = [] then (True, OTSetNonBlocking ot ep n1)
                else (case OTSnd ot ep b n1 of (r2, n2) \<Rightarrow>
                  if r2 < 0 \<or> r2 \<noteq> int (length b) then (False, n2) else (True, OTSetNonBlocking ot ep n2))))"

text \<open>The label \<open>fail_unref\<close>.\<close>

definition mfs_open_fail :: "('fs, 'ot) sysapi \<Rightarrow> nat \<Rightarrow> ('fs, 'ot) http_world \<Rightarrow> int \<times> ('fs, 'ot) http_world" where
  "mfs_open_fail api i w =
     (let c = slot w i;
          n = (case fc_ep c of None \<Rightarrow> net w | Some ep \<Rightarrow> ot_close (api_ot api) ep (net w))
      in (0, (put_slot i (c\<lparr>fc_ep := None, fc_keep_alive_ok := False\<rparr>) w)\<lparr>net := n\<rparr>))"

definition mfs_open :: "('fs, 'ot) sysapi \<Rightarrow> nat \<Rightarrow> ('fs, 'ot) http_world \<Rightarrow> int \<times> ('fs, 'ot) http_world" where
  "mfs_open api i w0 =
     (case mfs_open_cache api i w0 of (hit, w) \<Rightarrow>
      if hit then (1, w)
      else (case (Option.bind (fc_url (slot w i)) url_scheme, Option.bind (fc_url (slot w i)) url_host) of
        (Some scheme, Some host) \<Rightarrow>
          if scheme = ''https'' then (-1, w)
          else (case mfs_target host (Option.bind (fc_url (slot w i)) url_port) of
            None \<Rightarrow> mfs_open_fail api i w
          | Some target \<Rightarrow>
              (let c = (slot w i)\<lparr>fc_pool_key := take (POOL_KEY_LEN - 1) target\<rparr> in
               case mfs_endpoint (api_ot api) (fc_pool_key c) target (ep_pool w) (net w) of (ok, epo, pool, n) \<Rightarrow>
               (let c1 = c\<lparr>fc_ep := epo\<rparr>; w1 = (put_slot i c1 w)\<lparr>ep_pool := pool, net := n\<rparr> in
                case epo of
                  None \<Rightarrow> mfs_open_fail api i w1
                | Some ep \<Rightarrow>
                    if \<not> ok then mfs_open_fail api i w1
                    else (let path_buf = mfs_path_buf (Option.bind (fc_url c) url_path) (Option.bind (fc_url c) url_query) in
                      if \<not> mfs_request_fits path_buf host (fc_post_body c)
                      then mfs_open_fail api i (put_slot i (c1\<lparr>fc_err := Some ''URL too long''\<rparr>) w1)
                      else (case mfs_send (api_ot api) ep (mfs_request path_buf host (fc_post_body c)) (fc_post_body c) n of (sent, n') \<Rightarrow>
                        if sent then (1, w1\<lparr>net := n'\<rparr>) else mfs_open_fail api i (w1\<lparr>net := n'\<rparr>))))))
      | _ \<Rightarrow> mfs_open_fail api i w))"

section \<open>Response headers\<close>

text \<open>
  \<open>mfs_find_line\<close>: the text before the first CR LF of the buffer, as a C string, and what
  follows it.
\<close>

fun find_crlf :: "bytes \<Rightarrow> (bytes \<times> bytes) option" where
  "find_crlf (a # b # r) =
     (if a = CR \<and> b = LF then Some ([], r) else map_option (\<lambda>(l, r'). (a # l, r')) (find_crlf (b # r)))"
| "find_crlf _ = None"

lemma find_crlf_length: "find_crlf b = Some (l, r) \<Longrightarrow> length r < length b"
  by (induction b arbitrary: l rule: find_crlf.induct) (auto split: if_splits)

definition mfs_find_line :: "bytes \<Rightarrow> (string \<times> bytes) option" where
  "mfs_find_line buf = map_option (\<lambda>(l, r). (cstr l, r)) (find_crlf buf)"

text \<open>The value of a header line: the text after the name and the blanks that follow it.\<close>

definition hdr_value :: "nat \<Rightarrow> string \<Rightarrow> string" where
  "hdr_value k line = dropWhile (\<lambda>ch. ch = SP) (drop k line)"

definition mfs_header_line :: "string \<Rightarrow> macos9_fetch_ctx \<Rightarrow> macos9_fetch_ctx" where
  "mfs_header_line p c0 =
     (let c1 = (if strncasecmp_eq p ''Content-Type:'' 13 then c0\<lparr>fc_mime := take 127 (hdr_value 13 p)\<rparr> else c0);
          c2 = (if strncasecmp_eq p ''Content-Length:'' 15 then c1\<lparr>fc_content_length := atol_c (hdr_value 15 p)\<rparr> else c1);
          c3 = (if strncasecmp_eq p ''Transfer-Encoding:'' 18 \<and> strncasecmp_eq (hdr_value 18 p) ''chunked'' 7
                then c2\<lparr>fc_chunked := True\<rparr> else c2);
          c4 = (if strncasecmp_eq p ''Connection:'' 11 \<and> strncasecmp_eq (hdr_value 11 p) ''close'' 5
                then c3\<lparr>fc_keep_alive_ok := False\<rparr> else c3)
      in if strncasecmp_eq p ''Location:'' 9
         then c4\<lparr>fc_redirect_url := take 511 (dropWhile (\<lambda>ch. ch = SP \<or> ch = TAB) (drop 9 p))\<rparr> else c4)"

function mfs_header_loop :: "bytes \<Rightarrow> macos9_fetch_ctx \<Rightarrow> fetch_ev list \<Rightarrow> macos9_fetch_ctx \<times> fetch_ev list" where
  "mfs_header_loop buf c evs =
     (case mfs_find_line buf of
        None \<Rightarrow> (c, evs)
      | Some (p, rest) \<Rightarrow>
          if p = [] then (c, evs)
          else mfs_header_loop rest (mfs_header_line p c) (evs @ [Callback (fc_parent c) (FETCH_HEADER p)]))"
  by pat_completeness auto
termination
  by (relation "measure (\<lambda>(buf, c, evs). length buf)") (auto simp: mfs_find_line_def dest: find_crlf_length)

declare mfs_header_loop.simps [simp del]

text \<open>The status line: \<open>atoi\<close> of what follows the first blank.\<close>

definition mfs_status_line :: "string option \<Rightarrow> macos9_fetch_ctx \<Rightarrow> macos9_fetch_ctx \<times> fetch_ev list" where
  "mfs_status_line po c =
     (case po of
        None \<Rightarrow> (c, [])
      | Some p \<Rightarrow>
          if strncmp_eq p ''HTTP/'' 5
          then (case strchr_c p SP of None \<Rightarrow> c | Some r \<Rightarrow> c\<lparr>fc_status := atol_c (drop 1 r)\<rparr>,
                [Callback (fc_parent c) (FETCH_HEADER p)])
          else (c, []))"

text \<open>
  The header block: the bytes before the blank line, whose first byte has been overwritten with
  NUL, and the line feed after it.
\<close>

definition mfs_header_block :: "bytes \<Rightarrow> macos9_fetch_ctx \<Rightarrow> macos9_fetch_ctx \<times> fetch_ev list" where
  "mfs_header_block hdr c =
     (let buf = hdr @ [NUL, LF];
          (po, rest) = (case mfs_find_line buf of None \<Rightarrow> (None, buf) | Some (p, r) \<Rightarrow> (Some p, r));
          (c1, ev1) = mfs_status_line po c
      in mfs_header_loop rest c1 (ev1 @ [SetHttpCode (fc_parent c) (fc_status c1)]))"

section \<open>Response body\<close>

text \<open>Undelimited or length-delimited body bytes, capped at \<open>Content-Length\<close>.\<close>

definition mfs_plain_body ::
    "('fs, 'ot) sysapi \<Rightarrow> bytes \<Rightarrow> macos9_fetch_ctx \<Rightarrow> macos9_fetch_ctx \<times> fetch_ev list" where
  "mfs_plain_body api b c =
     (let n = int (length b);
          deliver = (if fc_content_length c \<ge> 0 \<and> body_bytes c + n > fc_content_length c
                     then fc_content_length c - body_bytes c else n);
          d = take (nat deliver) b;
          c1 = (if deliver > 0 then (cache_capture_append (api_realloc api) d c)\<lparr>body_bytes := body_bytes c + deliver\<rparr> else c);
          c2 = (if fc_content_length c1 \<ge> 0 \<and> body_bytes c1 \<ge> fc_content_length c1 then c1\<lparr>fc_state := MFS_DONE\<rparr> else c1)
      in (c2, if deliver > 0 then [Callback (fc_parent c) (FETCH_DATA d)] else []))"

definition mfs_body ::
    "('fs, 'ot) sysapi \<Rightarrow> bytes \<Rightarrow> macos9_fetch_ctx \<Rightarrow> (macos9_fetch_ctx \<times> fetch_ev list) option" where
  "mfs_body api b c =
     (if fc_chunked c
      then map_option (\<lambda>(c', ms). (if chunk_state c' = CS_DONE then c'\<lparr>fc_state := MFS_DONE\<rparr> else c',
                                   map (\<lambda>d. Callback (fc_parent c) (FETCH_DATA d)) ms))
             (process_chunked_bytes (api_realloc api) c b [])
      else Some (mfs_plain_body api b c))"

text \<open>What \<open>mfs_parse_headers\<close> does to a slot that is not redirected before it looks at the body.\<close>

definition mfs_begin_body :: "macos9_fetch_ctx \<Rightarrow> macos9_fetch_ctx" where
  "mfs_begin_body c0 =
     (let c1 = (if fc_content_length c0 < 0 \<and> \<not> fc_chunked c0 then c0\<lparr>fc_keep_alive_ok := False\<rparr> else c0);
          c2 = (if fc_chunked c1 then c1\<lparr>chunk_state := CS_SIZE, chunk_size_buf := [], chunk_remaining := 0\<rparr> else c1);
          c3 = (if fc_post_body c2 = None \<and> macos9_cache_mime_eligible (fc_status c2) (Some (fc_mime c2))
                then c2\<lparr>cache_eligible := True\<rparr> else c2)
      in c3\<lparr>fc_state := MFS_BODY\<rparr>)"

definition mfs_parse_headers ::
    "('fs, 'ot) sysapi \<Rightarrow> nat \<Rightarrow> ('fs, 'ot) http_world \<Rightarrow> ('fs, 'ot) http_world option" where
  "mfs_parse_headers api i w =
     (case fc_h_buf (slot w i) of
        None \<Rightarrow> Some w
      | Some h \<Rightarrow>
          (case strstr_split [CR, LF, CR, LF] (cstr h) of
             None \<Rightarrow> Some w
           | Some (hdr, _) \<Rightarrow>
               (case mfs_header_block hdr (slot w i) of (c1, evs) \<Rightarrow>
                if 300 \<le> fc_status c1 \<and> fc_status c1 < 400 \<and> fc_redirect_url c1 \<noteq> []
                then fetch_release api i
                       (put_slot i (c1\<lparr>fc_state := MFS_NOTIFIED, fc_keep_alive_ok := False\<rparr>)
                         (emit (evs @ [Callback (fc_parent c1) (FETCH_REDIRECT (fc_redirect_url c1))]) w))
                else (let c2 = mfs_begin_body c1; rest = drop (length hdr + 4) h in
                      map_option (\<lambda>(c3, bevs). put_slot i (c3\<lparr>fc_h_buf := None\<rparr>) (emit (evs @ bevs) w))
                        (if rest \<noteq> [] then mfs_body api rest c2 else Some (c2, []))))))"

section \<open>Polling\<close>

text \<open>Appending received bytes to the header buffer.\<close>

definition mfs_header_bytes ::
    "('fs, 'ot) sysapi \<Rightarrow> nat \<Rightarrow> bytes \<Rightarrow> ('fs, 'ot) http_world \<Rightarrow> ('fs, 'ot) http_world option" where
  "mfs_header_bytes api i b w =
     (let c = slot w i; old = (case fc_h_buf c of None \<Rightarrow> [] | Some h \<Rightarrow> h);
          nl = int (length old + length b);
          nc = grow_cap (if fc_h_cap c = 0 then 4096 else fc_h_cap c * 2) (nl + 1)
      in if nl + 1 > fc_h_cap c \<and> \<not> api_realloc api nc
         then Some (put_slot i (c\<lparr>fc_h_buf := None, fc_err := Some ''OOM'', fc_state := MFS_FAIL\<rparr>) w)
         else (let c1 = c\<lparr>fc_h_buf := Some (old @ b), fc_h_cap := if nl + 1 > fc_h_cap c then nc else fc_h_cap c\<rparr>;
                   w1 = put_slot i c1 w
               in if strstr_split [CR, LF, CR, LF] (cstr (old @ b)) \<noteq> None then mfs_parse_headers api i w1 else Some w1))"

text \<open>Serving a cache hit.\<close>

definition mfs_serve_hit :: "nat \<Rightarrow> bytes \<Rightarrow> ('fs, 'ot) http_world \<Rightarrow> ('fs, 'ot) http_world" where
  "mfs_serve_hit i body w =
     (let c = slot w i; p = fc_parent c in
      put_slot i (c\<lparr>body_bytes := int (length body), fc_state := MFS_DONE\<rparr>)
        (emit ((if fc_cache_hit_mime c \<noteq> [] then [Callback p (FETCH_HEADER (''Content-Type: '' @ fc_cache_hit_mime c))] else [])
               @ [SetHttpCode p (fc_cache_hit_status c), Callback p (FETCH_DATA body)]) w))"

text \<open>Receiving on the slot's endpoint.\<close>

definition mfs_receive ::
    "('fs, 'ot) sysapi \<Rightarrow> nat \<Rightarrow> ('fs, 'ot) http_world \<Rightarrow> ('fs, 'ot) http_world option" where
  "mfs_receive api i w =
     (case (case fc_ep (slot w i) of None \<Rightarrow> (RcvErr, net w) | Some ep \<Rightarrow> OTRcv (api_ot api) ep RECV_B (net w)) of (r, n1) \<Rightarrow>
      (let c = slot w i; w1 = w\<lparr>net := n1\<rparr>;
           fail = put_slot i (c\<lparr>fc_err := Some ''OT error'', fc_state := MFS_FAIL\<rparr>);
           closed = put_slot i (c\<lparr>fc_keep_alive_ok := False, fc_state := MFS_DONE\<rparr>)
       in case r of
            kOTNoDataErr \<Rightarrow> Some w1
          | RcvErr \<Rightarrow> Some (fail w1)
          | kOTLookErr \<Rightarrow>
              (case fc_ep c of
                 None \<Rightarrow> Some (fail w1)
               | Some ep \<Rightarrow>
                   (case OTLook (api_ot api) ep n1 of (l, n2) \<Rightarrow>
                    Some ((if l = T_ORDREL \<or> l = T_DISCONNECT then closed else fail) (w\<lparr>net := n2\<rparr>))))
          | Rcv b \<Rightarrow>
              if b = [] then Some (closed w1)
              else (let c1 = c\<lparr>fc_progress_ticks := ot_TickCount (api_ot api) n1\<rparr>; w2 = put_slot i c1 w1 in
                    if fc_state c1 = MFS_HEADERS then mfs_header_bytes api i b w2
                    else map_option (\<lambda>(c2, evs). put_slot i c2 (emit evs w2)) (mfs_body api b c1))))"

definition mfs_poll_one ::
    "('fs, 'ot) sysapi \<Rightarrow> nat \<Rightarrow> ('fs, 'ot) http_world \<Rightarrow> ('fs, 'ot) http_world option" where
  "mfs_poll_one api i w =
     (let c = slot w i in
      if fc_state c = MFS_IDLE \<or> fc_state c = MFS_NOTIFIED then Some w
      else if fc_aborted c then Some (put_slot i (c\<lparr>fc_state := MFS_DONE, fc_keep_alive_ok := False\<rparr>) w)
      else if fc_state c = MFS_QUEUED then Some w
      else if fc_state c = MFS_INIT
      then (case mfs_open api i w of (r, w') \<Rightarrow>
              Some (put_slot i ((slot w' i)\<lparr>fc_state := if r \<noteq> 0 then MFS_HEADERS else MFS_FAIL\<rparr>) w'))
      else (case fc_cache_hit_body c of
              Some body \<Rightarrow>
                if fc_cache_hit c \<and> fc_state c = MFS_HEADERS then Some (mfs_serve_hit i body w) else mfs_receive api i w
            | None \<Rightarrow> mfs_receive api i w))"

text \<open>The failure branch of the poll loop: the other scheme, or an error.\<close>

definition https_fallback :: "macos9_fetch_ctx \<Rightarrow> host_lists \<Rightarrow> string option" where
  "https_fallback c hs =
     (if \<not> fc_aborted c \<and> fc_pool_key c \<noteq> [] \<and> fc_pool_key c \<noteq> ''PROXY''
         \<and> \<not> macsurf_scheme_was_https_tried (Some (fc_pool_key c)) hs
      then (case fc_url c of
              None \<Rightarrow> None
            | Some u \<Rightarrow>
                if strncmp_eq (url_string u) ''http://'' 7
                then (let r = ''https://'' @ drop 7 (url_string u) in if length r < 512 then Some r else None)
                else None)
      else None)"

definition http_poll_fail ::
    "('fs, 'ot) sysapi \<Rightarrow> nat \<Rightarrow> ('fs, 'ot) http_world \<Rightarrow> ('fs, 'ot) http_world option" where
  "http_poll_fail api i w =
     (let c = slot w i; p = fc_parent c;
          w1 = (if fc_pool_key c \<noteq> [] \<and> fc_pool_key c \<noteq> ''PROXY''
                then w\<lparr>hosts := macsurf_scheme_mark_http_failed (Some (fc_pool_key c)) (hosts w)\<rparr> else w)
      in case https_fallback c (hosts w1) of
           Some r \<Rightarrow>
             fetch_release api i (put_slot i (c\<lparr>fc_redirect_url := r, fc_state := MFS_NOTIFIED\<rparr>)
               (emit [SetHttpCode p 301, Callback p (FETCH_REDIRECT r)] w1))
         | None \<Rightarrow>
             fetch_release api i (put_slot i (c\<lparr>fc_state := MFS_NOTIFIED\<rparr>)
               (emit [Callback p (FETCH_ERROR (fc_err c))] w1)))"

text \<open>The completion branch: finished, cache write, endpoint back to the pool, release.\<close>

definition http_store_capture ::
    "('fs, 'ot) sysapi \<Rightarrow> macos9_fetch_ctx \<Rightarrow> 'fs disk_cache \<Rightarrow> 'fs disk_cache" where
  "http_store_capture api c dc =
     (if cache_eligible c \<and> \<not> cache_overflow c \<and> \<not> fc_cache_hit c \<and> cache_capture c \<noteq> None \<and> cache_cap_len c > 0
         \<and> fc_url c \<noteq> None
      then macos9_cache_store (api_fm api) (map_option url_string (fc_url c)) (fc_status c) (Some (fc_mime c))
             (cache_capture c) (cache_cap_len c) dc
      else dc)"

definition http_poll_done ::
    "('fs, 'ot) sysapi \<Rightarrow> nat \<Rightarrow> ('fs, 'ot) http_world \<Rightarrow> ('fs, 'ot) http_world option" where
  "http_poll_done api i w =
     (let c = (slot w i)\<lparr>fc_state := MFS_NOTIFIED\<rparr>;
          w1 = (put_slot i c (emit [Callback (fc_parent c) FETCH_FINISHED] w))\<lparr>dcache := http_store_capture api c (dcache w)\<rparr>
      in if fc_keep_alive_ok c \<and> \<not> fc_aborted c \<and> fc_ep c \<noteq> None \<and> fc_pool_key c \<noteq> []
         then Option.bind (ep_pool_return (api_ot api) (fc_pool_key c) (fc_ep c) (ep_pool w1) (net w1))
                (\<lambda>(pool, n). fetch_release api i ((put_slot i (c\<lparr>fc_ep := None\<rparr>) w1)\<lparr>ep_pool := pool, net := n\<rparr>))
         else fetch_release api i w1)"

text \<open>One iteration of the loop of \<open>macos9_http_poll\<close>, and the loop.\<close>

definition http_poll_slot ::
    "('fs, 'ot) sysapi \<Rightarrow> ticks \<Rightarrow> nat \<Rightarrow> ('fs, 'ot) http_world \<Rightarrow> ('fs, 'ot) http_world option" where
  "http_poll_slot api now i w =
     (let c = slot w i in
      if fc_state c = MFS_IDLE \<or> fc_state c = MFS_NOTIFIED then Some w
      else Option.bind
        (if (fc_state c = MFS_HEADERS \<or> fc_state c = MFS_BODY) \<and> now - fc_progress_ticks c > 240
         then Some (put_slot i (c\<lparr>fc_err := Some ''Connection timed out'', fc_state := MFS_FAIL, fc_keep_alive_ok := False\<rparr>) w)
         else mfs_poll_one api i w)
        (\<lambda>w1. if fc_state (slot w1 i) = MFS_FAIL then http_poll_fail api i w1
              else if fc_state (slot w1 i) = MFS_DONE then http_poll_done api i w1
              else Some w1))"

fun http_poll_from ::
    "('fs, 'ot) sysapi \<Rightarrow> ticks \<Rightarrow> nat list \<Rightarrow> ('fs, 'ot) http_world \<Rightarrow> ('fs, 'ot) http_world option" where
  "http_poll_from api now [] w = Some w"
| "http_poll_from api now (i # is) w = Option.bind (http_poll_slot api now i w) (http_poll_from api now is)"

definition macos9_http_poll :: "('fs, 'ot) sysapi \<Rightarrow> ('fs, 'ot) http_world \<Rightarrow> ('fs, 'ot) http_world option" where
  "macos9_http_poll api w = http_poll_from api (ot_TickCount (api_ot api) (net w)) [0..<MAX_F] w"

section \<open>Setup, start, abort, navigation\<close>

definition macos9_http_mark_next_as_document :: "('fs, 'ot) http_world \<Rightarrow> ('fs, 'ot) http_world" where
  "macos9_http_mark_next_as_document w = w\<lparr>pending_document := True\<rparr>"

definition fresh_slot :: "nat \<Rightarrow> nsurl \<Rightarrow> rclass \<Rightarrow> macos9_fetch_ctx" where
  "fresh_slot p u rc =
     \<lparr>chunk_state = CS_SIZE, chunk_remaining = 0, chunk_size_buf = [], trailer_just_after_eol = False,
      body_bytes = 0, cache_eligible = False, cache_capture = None, cache_cap_cap = 0, cache_overflow = False,
      fc_parent = p, fc_url = Some u, fc_state = MFS_QUEUED, fc_aborted = False, fc_ep = None, fc_h_buf = None, fc_h_cap = 0,
      fc_status = 0, fc_mime = [], fc_err = None, fc_content_length = -1, fc_keep_alive_ok = True, fc_chunked = False,
      fc_pool_key = [], fc_progress_ticks = 0, fc_redirect_url = [], fc_rclass = rc, fc_cache_hit = False,
      fc_cache_hit_body = None, fc_cache_hit_mime = [], fc_cache_hit_status = 0, fc_post_body = None\<rparr>"

definition active_slots :: "('fs, 'ot) http_world \<Rightarrow> macos9_fetch_ctx list" where
  "active_slots w = filter (\<lambda>c. fc_state c \<noteq> MFS_IDLE) (f_slots w)"

fun first_idle :: "macos9_fetch_ctx list \<Rightarrow> nat option" where
  "first_idle [] = None"
| "first_idle (c # cs) = (if fc_state c = MFS_IDLE then Some 0 else map_option Suc (first_idle cs))"

definition macos9_http_setup ::
    "('fs, 'ot) sysapi \<Rightarrow> nat \<Rightarrow> nsurl \<Rightarrow> bytes option \<Rightarrow> ('fs, 'ot) http_world
      \<Rightarrow> nat option \<times> ('fs, 'ot) http_world" where
  "macos9_http_setup api p u pu w0 =
     (let rc = (if pending_document w0 then RC_DOCUMENT else macos9_classify_url (Some (url_string u)));
          w = (if pending_document w0 then w0\<lparr>pending_document := False\<rparr> else w0);
          global_active = length (active_slots w);
          class_active = length (filter (\<lambda>c. fc_rclass c = rc) (active_slots w))
      in if rc = RC_IMAGE \<and> (global_active \<ge> MAX_GLOBAL_F \<or> class_active \<ge> MAX_IMG_F)
         then (None, w\<lparr>stats := macos9_rgov_bump_skip rc (stats w)\<rparr>)
         else (case first_idle (f_slots w) of
           None \<Rightarrow> (None, w\<lparr>stats := (stats w)\<lparr>fetch_slot_fail := fetch_slot_fail (stats w) + 1\<rparr>\<rparr>)
         | Some i \<Rightarrow>
             (let c = fresh_slot p u rc;
                  peak = w\<lparr>stats := (stats w)\<lparr>fetch_active_peak := max (fetch_active_peak (stats w)) (int (global_active + 1))\<rparr>\<rparr>
              in case pu of
                   None \<Rightarrow> (Some i, put_slot i c peak)
                 | Some b \<Rightarrow>
                     if \<not> api_malloc api (length b) then (None, put_slot i (c\<lparr>fc_url := None, fc_state := MFS_IDLE\<rparr>) w)
                     else (Some i, put_slot i (c\<lparr>fc_post_body := Some b, fc_keep_alive_ok := False\<rparr>) peak))))"

definition macos9_http_start :: "('fs, 'ot) sysapi \<Rightarrow> nat \<Rightarrow> ('fs, 'ot) http_world \<Rightarrow> ('fs, 'ot) http_world" where
  "macos9_http_start api i w =
     (if fc_state (slot w i) = MFS_QUEUED
      then put_slot i ((slot w i)\<lparr>fc_state := MFS_INIT, fc_progress_ticks := ot_TickCount (api_ot api) (net w)\<rparr>) w
      else w)"

definition macos9_http_abort :: "nat \<Rightarrow> ('fs, 'ot) http_world \<Rightarrow> ('fs, 'ot) http_world" where
  "macos9_http_abort i w = put_slot i ((slot w i)\<lparr>fc_aborted := True\<rparr>) w"

definition macsurf_site_navigation_reset :: "('fs, 'ot) http_world \<Rightarrow> ('fs, 'ot) http_world" where
  "macsurf_site_navigation_reset w =
     w\<lparr>stats := site_stats_reset (stats w), hosts := macsurf_scheme_reset_all (hosts w)\<rparr>"

end
