(* ===== verification/HttpsFetcher.thy ===== *)
theory HttpsFetcher
  imports HttpFetcher
begin

text \<open>
  The HTTPS fetcher of \<open>frontends/macos9/macos9_https_fetcher.c\<close>: 64 fetch slots driven over
  macTLS connections, with the connection pool, the disk cache, the dead-host list, the scheme
  tracker, bounded retries and the salvage of partial bodies.

  The static data of the file and of the modules it shares with the HTTP fetcher is the record
  \<open>https_world\<close>; calls into the NetSurf core are \<open>fetch_ev\<close> events as in the HTTP fetcher. The
  macTLS library, with its HTTP chunk decoder, is not part of the repository: it is the record
  \<open>tlsapi\<close> over an arbitrary connection state \<open>'t\<close> and decoder state \<open>'d\<close>. The loop that feeds
  the decoder need not end for every decoder, so it is an option-valued partial function.
  A length field that always equals the length of the buffer next to it (\<open>req_len\<close>, \<open>hdr_len\<close>,
  \<open>cache_cap_len\<close>, \<open>post_body_len\<close>) is that length.
\<close>

section \<open>State\<close>

definition MAX_HTTPS_F :: nat where "MAX_HTTPS_F = 64"
definition HDR_BUF_MAX :: int where "HDR_BUF_MAX = 4096"
definition READ_CHUNK :: nat where "READ_CHUNK = 8192"
definition PUMP_STEPS :: nat where "PUMP_STEPS = 32"
definition NO_PROGRESS_TICKS :: ticks where "NO_PROGRESS_TICKS = 240"
definition HTTPS_MAX_RETRIES :: nat where "HTTPS_MAX_RETRIES = 2"

datatype hs_state =
  HS_IDLE | HS_QUEUED | HS_STARTING | HS_TLSING | HS_SEND_REQ | HS_HEADERS | HS_BODY | HS_CACHEHIT | HS_DONE | HS_FAIL

record 'd macos9_https_ctx =
  hx_parent :: nat
  hx_url :: "nsurl option"
  hx_host :: string
  hx_port :: int
  hx_path :: string
  hx_state :: hs_state
  hx_aborted :: bool
  hx_err :: "string option"
  hx_status :: int
  hx_conn :: "int option"
  hx_req_buf :: string
  hx_req_sent :: nat
  hx_hdr_buf :: "bytes option"
  hx_hdr_cap :: int
  hx_chunked :: bool
  hx_content_length :: int
  hx_body_bytes :: int
  hx_chunk :: 'd
  hx_mime :: string
  hx_redirect_url :: string
  hx_progress_ticks :: ticks
  hx_cache_eligible :: bool
  hx_cache_capture :: "bytes option"
  hx_cache_cap_cap :: int
  hx_cache_overflow :: bool
  hx_cache_hit_body :: "bytes option"
  hx_cache_hit_mime :: string
  hx_cache_hit_status :: int
  hx_retries :: nat
  hx_pool_key :: string
  hx_keep_alive_ok :: bool
  hx_from_pool :: bool
  hx_started :: bool
  hx_post_body :: "bytes option"
  hx_post_body_sent :: nat

record ('fs, 't, 'd) https_world =
  https_slots :: "'d macos9_https_ctx list"
  https_pool :: "https_pool_entry list"
  hs_hosts :: host_lists
  hs_dcache :: "'fs disk_cache"
  hs_tls :: 't
  hs_events :: "fetch_ev list"

text \<open>
  \<open>chunk_process\<close> is \<open>OSTLS_HTTP_ChunkDecoderProcess\<close>: given input and the size of the output
  buffer, whether it succeeded, the output, how much input it used and the new decoder.
  \<open>chunk_zero\<close> is a decoder filled with zero bytes, \<open>chunk_init\<close> one set up by
  \<open>OSTLS_HTTP_ChunkDecoderInit\<close>.
\<close>

record ('fs, 't, 'd) tlsapi =
  ta_fm :: "'fs file_manager"
  ta_tls :: "'t ostls"
  ta_malloc :: "nat \<Rightarrow> bool"
  ta_realloc :: "int \<Rightarrow> bool"
  chunk_zero :: 'd
  chunk_init :: 'd
  chunk_process :: "bytes \<Rightarrow> nat \<Rightarrow> 'd \<Rightarrow> bool \<times> bytes \<times> nat \<times> 'd"
  chunk_done :: "'d \<Rightarrow> bool"

abbreviation hslot :: "('fs, 't, 'd) https_world \<Rightarrow> nat \<Rightarrow> 'd macos9_https_ctx" where
  "hslot w i \<equiv> https_slots w ! i"

definition hput :: "nat \<Rightarrow> 'd macos9_https_ctx \<Rightarrow> ('fs, 't, 'd) https_world \<Rightarrow> ('fs, 't, 'd) https_world" where
  "hput i c w = w\<lparr>https_slots := (https_slots w)[i := c]\<rparr>"

definition hemit :: "fetch_ev list \<Rightarrow> ('fs, 't, 'd) https_world \<Rightarrow> ('fs, 't, 'd) https_world" where
  "hemit es w = w\<lparr>hs_events := hs_events w @ es\<rparr>"

definition now_ticks :: "('fs, 't, 'd) tlsapi \<Rightarrow> ('fs, 't, 'd) https_world \<Rightarrow> ticks" where
  "now_ticks api w = tls_TickCount (ta_tls api) (hs_tls w)"

section \<open>Clearing, retrying, capturing\<close>

definition drop_conn :: "('fs, 't, 'd) tlsapi \<Rightarrow> int option \<Rightarrow> 't \<Rightarrow> 't" where
  "drop_conn api co t = (case co of None \<Rightarrow> t | Some k \<Rightarrow> tls_dispose (ta_tls api) k t)"

definition hctx_clear :: "('fs, 't, 'd) tlsapi \<Rightarrow> nat \<Rightarrow> ('fs, 't, 'd) https_world \<Rightarrow> ('fs, 't, 'd) https_world" where
  "hctx_clear api i w =
     (let c = hslot w i in
      (hput i (c\<lparr>hx_hdr_buf := None, hx_hdr_cap := 0, hx_conn := None, hx_cache_capture := None, hx_cache_cap_cap := 0,
                 hx_cache_hit_body := None, hx_post_body := None, hx_post_body_sent := 0, hx_url := None,
                 hx_state := HS_IDLE\<rparr>) w)
        \<lparr>hs_tls := drop_conn api (hx_conn c) (hs_tls w)\<rparr>)"

definition hctx_reset_for_retry ::
    "('fs, 't, 'd) tlsapi \<Rightarrow> nat \<Rightarrow> ('fs, 't, 'd) https_world \<Rightarrow> ('fs, 't, 'd) https_world" where
  "hctx_reset_for_retry api i w =
     (let c = hslot w i; t = drop_conn api (hx_conn c) (hs_tls w) in
      (hput i (c\<lparr>hx_conn := None, hx_hdr_buf := None, hx_hdr_cap := 0, hx_cache_capture := None, hx_cache_cap_cap := 0,
                 hx_cache_overflow := False, hx_cache_eligible := False, hx_req_buf := [], hx_req_sent := 0,
                 hx_post_body_sent := 0, hx_status := 0, hx_body_bytes := 0, hx_content_length := -1, hx_chunked := False,
                 hx_mime := [], hx_redirect_url := [], hx_state := HS_QUEUED,
                 hx_progress_ticks := tls_TickCount (ta_tls api) t\<rparr>) w)\<lparr>hs_tls := t\<rparr>)"

definition hx_cap_len :: "'d macos9_https_ctx \<Rightarrow> int" where
  "hx_cap_len c = (case hx_cache_capture c of None \<Rightarrow> 0 | Some b \<Rightarrow> int (length b))"

definition hx_cap_drop :: "'d macos9_https_ctx \<Rightarrow> 'd macos9_https_ctx" where
  "hx_cap_drop c =
     (let c1 = c\<lparr>hx_cache_overflow := True\<rparr> in
      if hx_cache_capture c \<noteq> None then c1\<lparr>hx_cache_capture := None, hx_cache_cap_cap := 0\<rparr> else c1)"

definition hctx_cache_capture ::
    "('fs, 't, 'd) tlsapi \<Rightarrow> bytes \<Rightarrow> 'd macos9_https_ctx \<Rightarrow> 'd macos9_https_ctx" where
  "hctx_cache_capture api buf c =
     (if buf = [] then c
      else if hx_cache_overflow c then c
      else if \<not> hx_cache_eligible c then c
      else
        (let want = hx_cap_len c + int (length buf);
             joined = Some (case hx_cache_capture c of None \<Rightarrow> buf | Some b \<Rightarrow> b @ buf)
         in if want > MACSURF_CACHE_MAX_BYTES then hx_cap_drop c
            else if want > hx_cache_cap_cap c
            then (let cap0 = (if hx_cache_cap_cap c = 0 then 4096 else hx_cache_cap_cap c * 2);
                      cap = min (grow_cap cap0 want) MACSURF_CACHE_MAX_BYTES
                  in if \<not> ta_realloc api cap then hx_cap_drop c
                     else c\<lparr>hx_cache_cap_cap := cap, hx_cache_capture := joined\<rparr>)
            else c\<lparr>hx_cache_capture := joined\<rparr>))"

section \<open>Failing and finishing\<close>

text \<open>\<open>fetch_remove_from_queues\<close> and \<open>fetch_free\<close>; the latter runs \<open>macos9_https_free\<close>.\<close>

definition macos9_https_free :: "('fs, 't, 'd) tlsapi \<Rightarrow> nat \<Rightarrow> ('fs, 't, 'd) https_world \<Rightarrow> ('fs, 't, 'd) https_world" where
  "macos9_https_free api i w = (if hx_state (hslot w i) \<noteq> HS_IDLE then hctx_clear api i w else w)"

definition hctx_release :: "('fs, 't, 'd) tlsapi \<Rightarrow> nat \<Rightarrow> ('fs, 't, 'd) https_world \<Rightarrow> ('fs, 't, 'd) https_world" where
  "hctx_release api i w =
     (let p = hx_parent (hslot w i)
      in macos9_https_free api i (hemit [RemoveFromQueues p, FreeFetch p] (hctx_clear api i w)))"

text \<open>The address on the other scheme, when it is still worth trying.\<close>

definition http_fallback :: "'d macos9_https_ctx \<Rightarrow> host_lists \<Rightarrow> string option" where
  "http_fallback c hs =
     (if \<not> hx_aborted c \<and> hx_pool_key c \<noteq> [] \<and> \<not> macsurf_scheme_was_http_tried (Some (hx_pool_key c)) hs
      then (case hx_url c of
              None \<Rightarrow> None
            | Some u \<Rightarrow>
                if strncmp_eq (url_string u) ''https://'' 8
                then (let r = ''http://'' @ drop 8 (url_string u) in if length r < 1024 then Some r else None)
                else None)
      else None)"

definition why_timeout :: string where "why_timeout = ''https: connection timed out''"
definition why_closed :: string where "why_closed = ''https: peer closed before complete''"

definition hctx_fail ::
    "('fs, 't, 'd) tlsapi \<Rightarrow> nat \<Rightarrow> string \<Rightarrow> ('fs, 't, 'd) https_world \<Rightarrow> ('fs, 't, 'd) https_world" where
  "hctx_fail api i why w =
     (let c0 = hslot w i in
      if hx_state c0 = HS_FAIL \<or> hx_state c0 = HS_DONE then w
      else
        (let c = c0\<lparr>hx_err := Some why, hx_state := HS_FAIL\<rparr>; p = hx_parent c; key = hx_pool_key c;
             hs = (if key \<noteq> [] then macsurf_scheme_mark_https_failed (Some key) (hs_hosts w) else hs_hosts w);
             w1 = (hput i c w)\<lparr>hs_hosts := hs\<rparr>
         in case http_fallback c hs of
              Some r \<Rightarrow>
                hctx_release api i
                  (hput i (c\<lparr>hx_redirect_url := r\<rparr>) (hemit [SetHttpCode p 301, Callback p (FETCH_REDIRECT r)] w1))
            | None \<Rightarrow>
                (let (hs2, fs2) = (if key \<noteq> [] \<and> (why = why_timeout \<or> why = why_closed)
                                   then dead_host_add (ta_fm api) (Some key) (hs, dc_fs (hs_dcache w)) else (hs, dc_fs (hs_dcache w)))
                 in hctx_release api i
                      (hemit [Callback p (FETCH_ERROR (Some why))]
                        (w1\<lparr>hs_hosts := hs2, hs_dcache := (hs_dcache w)\<lparr>dc_fs := fs2\<rparr>\<rparr>)))))"

definition hctx_store :: "('fs, 't, 'd) tlsapi \<Rightarrow> 'd macos9_https_ctx \<Rightarrow> 'fs disk_cache \<Rightarrow> 'fs disk_cache" where
  "hctx_store api c dc =
     (if hx_cache_eligible c \<and> \<not> hx_cache_overflow c \<and> hx_cache_capture c \<noteq> None \<and> hx_cap_len c > 0 \<and> hx_url c \<noteq> None
      then macos9_cache_store (ta_fm api) (map_option url_string (hx_url c)) (hx_status c) (Some (hx_mime c))
             (hx_cache_capture c) (hx_cap_len c) dc
      else dc)"

definition hctx_finish :: "('fs, 't, 'd) tlsapi \<Rightarrow> nat \<Rightarrow> ('fs, 't, 'd) https_world \<Rightarrow> ('fs, 't, 'd) https_world" where
  "hctx_finish api i w =
     (let c0 = hslot w i in
      if hx_state c0 = HS_FAIL \<or> hx_state c0 = HS_DONE then w
      else
        (let c = c0\<lparr>hx_state := HS_DONE\<rparr>; key = hx_pool_key c;
             hs = (if key \<noteq> [] \<and> 200 \<le> hx_status c \<and> hx_status c < 400 then success_host_add (Some key) (hs_hosts w)
                   else hs_hosts w);
             w1 = hput i c (hemit [Callback (hx_parent c) FETCH_FINISHED]
                    (w\<lparr>hs_dcache := hctx_store api c0 (hs_dcache w), hs_hosts := hs\<rparr>))
         in case hx_conn c of
              Some k \<Rightarrow>
                if hx_keep_alive_ok c \<and> \<not> hx_aborted c \<and> key \<noteq> [] \<and> OSTLS_GetState (ta_tls api) k (hs_tls w) = kOSTLSStateOpen
                then (let (pool, t) = https_pool_return (ta_tls api) key (Some k) (https_pool w) (hs_tls w)
                      in hctx_release api i ((hput i (c\<lparr>hx_conn := None\<rparr>) w1)\<lparr>https_pool := pool, hs_tls := t\<rparr>))
                else hctx_release api i w1
            | None \<Rightarrow> hctx_release api i w1))"

section \<open>Response headers\<close>

definition find_line :: "bytes \<Rightarrow> (string \<times> bytes) option" where
  "find_line buf = map_option (\<lambda>(l, r). (cstr l, r)) (find_crlf buf)"

text \<open>What one header line sets.\<close>

definition hs_header_line :: "string \<Rightarrow> 'd macos9_https_ctx \<Rightarrow> 'd macos9_https_ctx" where
  "hs_header_line p c0 =
     (let c1 = (if strncasecmp_eq p ''Content-Type:'' 13 then c0\<lparr>hx_mime := take 127 (hdr_value 13 p)\<rparr> else c0);
          c2 = (if strncasecmp_eq p ''Content-Length:'' 15 then c1\<lparr>hx_content_length := atol_c (hdr_value 15 p)\<rparr> else c1);
          c3 = (if strncasecmp_eq p ''Transfer-Encoding:'' 18 \<and> strncasecmp_eq (hdr_value 18 p) ''chunked'' 7
                then c2\<lparr>hx_chunked := True\<rparr> else c2);
          c4 = (if strncasecmp_eq p ''Connection:'' 11 \<and> strncasecmp_eq (hdr_value 11 p) ''close'' 5
                then c3\<lparr>hx_keep_alive_ok := False\<rparr> else c3)
      in if strncasecmp_eq p ''Location:'' 9
         then c4\<lparr>hx_redirect_url := take 1023 (dropWhile (\<lambda>ch. ch = SP \<or> ch = TAB) (drop 9 p))\<rparr> else c4)"

definition is_attachment :: "string \<Rightarrow> bool" where
  "is_attachment p \<longleftrightarrow> strncasecmp_eq p ''Content-Disposition:'' 20
     \<and> strncasecmp_eq (dropWhile (\<lambda>ch. ch = SP \<or> ch = TAB) (drop 20 p)) ''attachment'' 10"

text \<open>The loop over the lines: the context, the lines kept for forwarding, \<open>force_download\<close>.\<close>

function hs_header_loop ::
    "bytes \<Rightarrow> 'd macos9_https_ctx \<Rightarrow> string list \<Rightarrow> bool \<Rightarrow> 'd macos9_https_ctx \<times> string list \<times> bool" where
  "hs_header_loop buf c ls force =
     (case find_line buf of
        None \<Rightarrow> (c, ls, force)
      | Some (p, rest) \<Rightarrow>
          if p = [] then (c, ls, force)
          else hs_header_loop rest (hs_header_line p c) (if length ls < 64 then ls @ [p] else ls) (force \<or> is_attachment p))"
  by pat_completeness auto
termination
  by (relation "measure (\<lambda>(buf, c, ls, force). length buf)") (auto simp: find_line_def dest: find_crlf_length)

declare hs_header_loop.simps [simp del]

definition forced_ct :: string where "forced_ct = ''Content-Type: application/octet-stream''"

definition forward_line :: "bool \<Rightarrow> string \<Rightarrow> string" where
  "forward_line force p = (if force \<and> strncasecmp_eq p ''Content-Type:'' 13 then forced_ct else p)"

definition hs_status_line :: "string option \<Rightarrow> 'd macos9_https_ctx \<Rightarrow> 'd macos9_https_ctx \<times> fetch_ev list" where
  "hs_status_line po c =
     (case po of
        None \<Rightarrow> (c, [])
      | Some p \<Rightarrow>
          if strncmp_eq p ''HTTP/'' 5
          then (case strchr_c p SP of None \<Rightarrow> c | Some r \<Rightarrow> c\<lparr>hx_status := atol_c (drop 1 r)\<rparr>,
                [Callback (hx_parent c) (FETCH_HEADER p)])
          else (c, []))"

text \<open>The header block, its end marked by the NUL written over the first CR of the blank line.\<close>

definition hs_header_block :: "bytes \<Rightarrow> 'd macos9_https_ctx \<Rightarrow> 'd macos9_https_ctx \<times> fetch_ev list" where
  "hs_header_block hdr c =
     (let buf = hdr @ [NUL, LF];
          (po, rest) = (case find_line buf of None \<Rightarrow> (None, buf) | Some (p, r) \<Rightarrow> (Some p, r));
          (c1, ev1) = hs_status_line po c;
          (c2, ls, force) = hs_header_loop rest c1 [] False;
          c3 = (if force then c2\<lparr>hx_mime := ''application/octet-stream''\<rparr> else c2)
      in (c3, ev1 @ SetHttpCode (hx_parent c) (hx_status c1)
                # map (\<lambda>p. Callback (hx_parent c) (FETCH_HEADER (forward_line force p))) ls))"

text \<open>
  Result 0: the block is not complete; 1: parsed; 2: redirected, the slot is released. The
  second component is the offset of the body.
\<close>

definition parse_headers ::
    "('fs, 't, 'd) tlsapi \<Rightarrow> nat \<Rightarrow> ('fs, 't, 'd) https_world \<Rightarrow> nat \<times> nat \<times> ('fs, 't, 'd) https_world" where
  "parse_headers api i w =
     (case hx_hdr_buf (hslot w i) of
        None \<Rightarrow> (0, 0, w)
      | Some h \<Rightarrow>
          (case strstr_split [CR, LF, CR, LF] h of
             None \<Rightarrow> (0, 0, w)
           | Some (hdr, _) \<Rightarrow>
               (case hs_header_block hdr (hslot w i) of (c1, evs) \<Rightarrow>
                if 300 \<le> hx_status c1 \<and> hx_status c1 < 400 \<and> hx_redirect_url c1 \<noteq> []
                then (2, length hdr + 4,
                      hctx_release api i
                        (hput i c1 (hemit (evs @ [Callback (hx_parent c1) (FETCH_REDIRECT (hx_redirect_url c1))]) w)))
                else (let c2 = (if hx_post_body c1 = None \<and> macos9_cache_mime_eligible (hx_status c1) (Some (hx_mime c1))
                                then c1\<lparr>hx_cache_eligible := True\<rparr> else c1);
                          c3 = (if hx_chunked c2 then c2\<lparr>hx_chunk := chunk_init api\<rparr> else c2)
                      in (1, length hdr + 4, hput i c3 (hemit evs w))))))"

section \<open>Response body\<close>

definition is_hex :: "char \<Rightarrow> bool" where
  "is_hex ch \<longleftrightarrow> (let n = of_char ch :: nat in 48 \<le> n \<and> n \<le> 57 \<or> 97 \<le> n \<and> n \<le> 102 \<or> 65 \<le> n \<and> n \<le> 70)"

text \<open>The body starts like a chunk-size line.\<close>

definition chunk_framing :: "bytes \<Rightarrow> bool" where
  "chunk_framing b =
     (let i = length (takeWhile is_hex (take 16 b)) in
      i > 0 \<and> i < length b \<and> (b ! i = CR \<and> i + 1 < length b \<and> b ! (i + 1) = LF \<or> b ! i = CHR '';''))"

definition hs_deliver :: "('fs, 't, 'd) tlsapi \<Rightarrow> bytes \<Rightarrow> 'd macos9_https_ctx \<Rightarrow> 'd macos9_https_ctx" where
  "hs_deliver api d c = hctx_cache_capture api d (c\<lparr>hx_body_bytes := hx_body_bytes c + int (length d)\<rparr>)"

text \<open>The decoder loop; the flag of the result says that the decoder reported an error.\<close>

partial_function (option) feed_chunks ::
    "('fs, 't, 'd) tlsapi \<Rightarrow> bytes \<Rightarrow> 'd macos9_https_ctx \<Rightarrow> bytes list \<Rightarrow> ('d macos9_https_ctx \<times> bytes list \<times> bool) option" where
  "feed_chunks api b c msgs =
     (if b \<noteq> [] \<and> \<not> chunk_done api (hx_chunk c)
      then (case chunk_process api b READ_CHUNK (hx_chunk c) of (ok, out, used, d) \<Rightarrow>
            if \<not> ok then Some (c\<lparr>hx_chunk := d\<rparr>, msgs, True)
            else if used = 0 \<and> out = [] then Some (c\<lparr>hx_chunk := d\<rparr>, msgs, False)
            else feed_chunks api (drop used b)
                   (if out \<noteq> [] then hs_deliver api out (c\<lparr>hx_chunk := d\<rparr>) else c\<lparr>hx_chunk := d\<rparr>)
                   (if out \<noteq> [] then msgs @ [out] else msgs))
      else Some (c, msgs, False))"

declare feed_chunks.simps [code]

text \<open>The flag of the result is the return value: nothing more is expected.\<close>

definition feed_body ::
    "('fs, 't, 'd) tlsapi \<Rightarrow> nat \<Rightarrow> bytes \<Rightarrow> ('fs, 't, 'd) https_world \<Rightarrow> (bool \<times> ('fs, 't, 'd) https_world) option" where
  "feed_body api i b w =
     (if b = [] then Some (False, w)
      else
        (let c0 = hslot w i;
             c = (if \<not> hx_chunked c0 \<and> hx_content_length c0 < 0 \<and> hx_body_bytes c0 = 0 \<and> chunk_framing b
                  then c0\<lparr>hx_chunked := True, hx_chunk := chunk_init api\<rparr> else c0);
             data = map (\<lambda>d. Callback (hx_parent c) (FETCH_DATA d))
         in if hx_chunked c
            then map_option (\<lambda>(c', ms, err).
                   (let w' = hput i c' (hemit (data ms) w) in
                    if err then (True, hctx_fail api i ''chunked decode error'' w') else (chunk_done api (hx_chunk c'), w')))
                   (feed_chunks api b c [])
            else (let n = int (length b);
                      deliver = (if hx_content_length c \<ge> 0 \<and> hx_body_bytes c + n > hx_content_length c
                                 then hx_content_length c - hx_body_bytes c else n);
                      d = take (nat deliver) b;
                      c1 = (if deliver > 0 then hs_deliver api d c else c)
                  in Some (hx_content_length c1 \<ge> 0 \<and> hx_body_bytes c1 \<ge> hx_content_length c1,
                           hput i c1 (hemit (if deliver > 0 then data [d] else []) w)))))"

section \<open>Request and header buffer\<close>

definition hs_request :: "'d macos9_https_ctx \<Rightarrow> string" where
  "hs_request c =
     (case hx_post_body c of Some _ \<Rightarrow> ''POST '' | None \<Rightarrow> ''GET '') @ hx_path c @ '' HTTP/1.1'' @ CRLF
     @ ''Host: '' @ hx_host c @ CRLF
     @ ''User-Agent: MacSurf/0.2 (Macintosh; PPC Mac OS 9)'' @ CRLF
     @ ''Accept: text/html,application/xhtml+xml,*/*;q=0.8'' @ CRLF
     @ ''Accept-Language: en-US,en;q=0.5'' @ CRLF
     @ ''Accept-Encoding: identity'' @ CRLF
     @ (case hx_post_body c of
          Some b \<Rightarrow> ''Content-Type: application/x-www-form-urlencoded'' @ CRLF
                    @ ''Content-Length: '' @ show_int (int (length b)) @ CRLF
        | None \<Rightarrow> [])
     @ ''Connection: keep-alive'' @ CRLF @ CRLF"

definition REQ_BUF :: nat where "REQ_BUF = 1024"

text \<open>
  The request is formatted into the 1024-byte \<open>req_buf\<close> and measured afterwards; None is the
  result -1.
\<close>

definition build_request :: "'d macos9_https_ctx \<Rightarrow> 'd macos9_https_ctx option" where
  "build_request c =
     (if length (hs_request c) \<ge> REQ_BUF then None
      else Some (c\<lparr>hx_req_buf := hs_request c, hx_req_sent := 0, hx_post_body_sent := 0\<rparr>))"

text \<open>The growth loop of \<open>hdr_append\<close>; None when \<open>realloc\<close> fails.\<close>

function hdr_grow :: "('fs, 't, 'd) tlsapi \<Rightarrow> int \<Rightarrow> int \<Rightarrow> int option" where
  "hdr_grow api cap want =
     (if 0 < cap \<and> cap < want \<and> want \<le> HDR_BUF_MAX
      then (let new_cap = min (cap * 2) HDR_BUF_MAX in if ta_realloc api new_cap then hdr_grow api new_cap want else None)
      else Some cap)"
  by pat_completeness auto
termination by (relation "measure (\<lambda>(api, cap, want). nat (want - cap))") auto

declare hdr_grow.simps [simp del]

text \<open>True: the bytes were appended; False: the slot has failed.\<close>

definition hdr_append ::
    "('fs, 't, 'd) tlsapi \<Rightarrow> nat \<Rightarrow> bytes \<Rightarrow> ('fs, 't, 'd) https_world \<Rightarrow> bool \<times> ('fs, 't, 'd) https_world" where
  "hdr_append api i b w =
     (let c = hslot w i; old = (case hx_hdr_buf c of None \<Rightarrow> [] | Some h \<Rightarrow> h); want = int (length old + length b) in
      if want > HDR_BUF_MAX then (False, hctx_fail api i ''https: header buffer overflow'' w)
      else if hx_hdr_buf c = None \<and> \<not> ta_malloc api 1024
      then (False, hctx_fail api i ''https: out of memory'' (hput i (c\<lparr>hx_hdr_cap := 1024\<rparr>) w))
      else (case hdr_grow api (if hx_hdr_buf c = None then 1024 else hx_hdr_cap c) want of
              None \<Rightarrow> (False, hctx_fail api i ''https: out of memory'' w)
            | Some cap \<Rightarrow> (True, hput i (c\<lparr>hx_hdr_buf := Some (old @ b), hx_hdr_cap := cap\<rparr>) w)))"

section \<open>Polling one slot\<close>

text \<open>Serving a page from the disk cache.\<close>

definition hctx_serve_hit :: "('fs, 't, 'd) tlsapi \<Rightarrow> nat \<Rightarrow> ('fs, 't, 'd) https_world \<Rightarrow> ('fs, 't, 'd) https_world" where
  "hctx_serve_hit api i w =
     (let c = hslot w i; p = hx_parent c; st = hx_cache_hit_status c;
          body = (case hx_cache_hit_body c of None \<Rightarrow> [] | Some b \<Rightarrow> b);
          c1 = c\<lparr>hx_status := st, hx_body_bytes := if body \<noteq> [] then int (length body) else hx_body_bytes c,
                 hx_cache_eligible := False\<rparr>
      in hctx_finish api i
           (hput i c1
             (hemit (SetHttpCode p st
                 # (if hx_cache_hit_mime c \<noteq> [] then [Callback p (FETCH_HEADER (''Content-Type: '' @ hx_cache_hit_mime c))] else [])
                 @ (if body \<noteq> [] then [Callback p (FETCH_DATA body)] else [])) w)))"

text \<open>A queued slot that has been started: dead host, pooled connection, or a new handshake.\<close>

definition hctx_open :: "('fs, 't, 'd) tlsapi \<Rightarrow> nat \<Rightarrow> ('fs, 't, 'd) https_world \<Rightarrow> ('fs, 't, 'd) https_world" where
  "hctx_open api i w =
     (let c = hslot w i in
      if \<not> hx_started c then w
      else if dead_host_check (Some (hx_pool_key c)) (hs_hosts w) then hctx_fail api i ''https: host previously failed'' w
      else (case https_pool_take (ta_tls api) (hx_pool_key c) (https_pool w) (hs_tls w) of
          (Some k, pool, t) \<Rightarrow>
            (let c1 = c\<lparr>hx_conn := Some k, hx_from_pool := True\<rparr>; w1 = (hput i c1 w)\<lparr>https_pool := pool, hs_tls := t\<rparr> in
             case build_request c1 of
               None \<Rightarrow> hctx_fail api i ''https: request too large'' w1
             | Some c2 \<Rightarrow> hput i (c2\<lparr>hx_progress_ticks := now_ticks api w1, hx_state := HS_SEND_REQ\<rparr>) w1)
        | (None, pool, t) \<Rightarrow>
            (case OSTLS_New (ta_tls api) (hx_host c) (hx_port c) t of (ok, conn, t1) \<Rightarrow>
             (let c1 = c\<lparr>hx_conn := conn\<rparr>; w1 = (hput i c1 w)\<lparr>https_pool := pool, hs_tls := t1\<rparr> in
              case conn of
                None \<Rightarrow> hctx_fail api i ''https: OSTLS_New failed'' w1
              | Some k \<Rightarrow>
                  if \<not> ok then hctx_fail api i ''https: OSTLS_New failed'' w1
                  else (case OSTLS_Start (ta_tls api) k t1 of (ok2, t2) \<Rightarrow>
                    (let w2 = w1\<lparr>hs_tls := t2\<rparr> in
                     if \<not> ok2 then hctx_fail api i ''https: OSTLS_Start failed'' w2
                     else hput i (c1\<lparr>hx_progress_ticks := now_ticks api w2, hx_state := HS_TLSING\<rparr>) w2))))))"

text \<open>
  The stages after the pump. Each says whether \<open>hctx_poll\<close> returns there. \<open>k\<close> is the slot's
  connection.
\<close>

definition hctx_handshake ::
    "('fs, 't, 'd) tlsapi \<Rightarrow> nat \<Rightarrow> int \<Rightarrow> ostls_event \<Rightarrow> ('fs, 't, 'd) https_world \<Rightarrow> bool \<times> ('fs, 't, 'd) https_world" where
  "hctx_handshake api i k ev w =
     (let c = hslot w i in
      if hx_state c = HS_TLSING \<and> (ev = kOSTLSEventHandshakeDone \<or> OSTLS_GetState (ta_tls api) k (hs_tls w) = kOSTLSStateOpen)
      then (case build_request c of
              None \<Rightarrow> (True, hctx_fail api i ''https: request too large'' w)
            | Some c1 \<Rightarrow> (False, hput i (c1\<lparr>hx_state := HS_SEND_REQ, hx_progress_ticks := now_ticks api w\<rparr>) w))
      else (False, w))"

definition hctx_send_header ::
    "('fs, 't, 'd) tlsapi \<Rightarrow> nat \<Rightarrow> int \<Rightarrow> ('fs, 't, 'd) https_world \<Rightarrow> bool \<times> ('fs, 't, 'd) https_world" where
  "hctx_send_header api i k w =
     (let c = hslot w i in
      if hx_req_sent c < length (hx_req_buf c)
      then (case OSTLS_Write (ta_tls api) k (drop (hx_req_sent c) (hx_req_buf c)) (hs_tls w) of (ok, written, t) \<Rightarrow>
            (let w1 = w\<lparr>hs_tls := t\<rparr> in
             if \<not> ok then (True, hctx_fail api i ''https: write failed'' w1)
             else if written > 0
             then (False, hput i (c\<lparr>hx_req_sent := hx_req_sent c + written, hx_progress_ticks := now_ticks api w1\<rparr>) w1)
             else (False, w1)))
      else (False, w))"

definition hctx_send_post ::
    "('fs, 't, 'd) tlsapi \<Rightarrow> nat \<Rightarrow> int \<Rightarrow> ('fs, 't, 'd) https_world \<Rightarrow> bool \<times> ('fs, 't, 'd) https_world" where
  "hctx_send_post api i k w =
     (let c = hslot w i in
      case hx_post_body c of
        None \<Rightarrow> (False, w)
      | Some b \<Rightarrow>
          if hx_req_sent c \<ge> length (hx_req_buf c) \<and> hx_post_body_sent c < length b
          then (case OSTLS_Write (ta_tls api) k (drop (hx_post_body_sent c) b) (hs_tls w) of (ok, written, t) \<Rightarrow>
                (let w1 = w\<lparr>hs_tls := t\<rparr> in
                 if \<not> ok then (True, hctx_fail api i ''https: post body write failed'' w1)
                 else if written > 0
                 then (False, hput i (c\<lparr>hx_post_body_sent := hx_post_body_sent c + written,
                                        hx_progress_ticks := now_ticks api w1\<rparr>) w1)
                 else (False, w1)))
          else (False, w))"

definition hs_all_sent :: "'d macos9_https_ctx \<Rightarrow> bool" where
  "hs_all_sent c \<longleftrightarrow> hx_req_sent c \<ge> length (hx_req_buf c)
     \<and> (case hx_post_body c of None \<Rightarrow> True | Some b \<Rightarrow> hx_post_body_sent c \<ge> length b)"

definition hctx_send ::
    "('fs, 't, 'd) tlsapi \<Rightarrow> nat \<Rightarrow> int \<Rightarrow> ('fs, 't, 'd) https_world \<Rightarrow> bool \<times> ('fs, 't, 'd) https_world" where
  "hctx_send api i k w =
     (if hx_state (hslot w i) \<noteq> HS_SEND_REQ then (False, w)
      else (case hctx_send_header api i k w of (ret, w1) \<Rightarrow>
        if ret then (True, w1)
        else (case hctx_send_post api i k w1 of (ret2, w2) \<Rightarrow>
          if ret2 then (True, w2)
          else (False, if hs_all_sent (hslot w2 i) then hput i ((hslot w2 i)\<lparr>hx_state := HS_HEADERS\<rparr>) w2 else w2))))"

text \<open>Received bytes: headers, then the body bytes behind them, or body bytes.\<close>

definition finish_if ::
    "('fs, 't, 'd) tlsapi \<Rightarrow> nat \<Rightarrow> (bool \<times> ('fs, 't, 'd) https_world) option \<Rightarrow> (bool \<times> ('fs, 't, 'd) https_world) option" where
  "finish_if api i r = map_option (\<lambda>(complete, w). if complete then (True, hctx_finish api i w) else (False, w)) r"

definition hctx_got ::
    "('fs, 't, 'd) tlsapi \<Rightarrow> nat \<Rightarrow> bytes \<Rightarrow> ('fs, 't, 'd) https_world \<Rightarrow> (bool \<times> ('fs, 't, 'd) https_world) option" where
  "hctx_got api i b w0 =
     (let w = hput i ((hslot w0 i)\<lparr>hx_progress_ticks := now_ticks api w0\<rparr>) w0 in
      if hx_state (hslot w i) = HS_HEADERS
      then (case hdr_append api i b w of (ok, w1) \<Rightarrow>
            if \<not> ok then Some (True, w1)
            else (case parse_headers api i w1 of (r, off, w2) \<Rightarrow>
              if r = 2 then Some (True, w2)
              else if r = 1
              then (let w3 = hput i ((hslot w2 i)\<lparr>hx_state := HS_BODY\<rparr>) w2;
                        rest = drop off (case hx_hdr_buf (hslot w2 i) of None \<Rightarrow> [] | Some h \<Rightarrow> h)
                    in if rest \<noteq> [] then finish_if api i (feed_body api i rest w3) else Some (False, w3))
              else Some (False, w2)))
      else finish_if api i (feed_body api i b w))"

text \<open>Giving up on a connection that still delivered a usable body.\<close>

definition hctx_salvage :: "('fs, 't, 'd) tlsapi \<Rightarrow> nat \<Rightarrow> ('fs, 't, 'd) https_world \<Rightarrow> ('fs, 't, 'd) https_world" where
  "hctx_salvage api i w =
     hctx_finish api i (hput i ((hslot w i)\<lparr>hx_cache_eligible := False, hx_keep_alive_ok := False\<rparr>) w)"

definition hctx_read ::
    "('fs, 't, 'd) tlsapi \<Rightarrow> nat \<Rightarrow> int \<Rightarrow> ostls_event \<Rightarrow> ('fs, 't, 'd) https_world \<Rightarrow> (bool \<times> ('fs, 't, 'd) https_world) option" where
  "hctx_read api i k ev w =
     (let c = hslot w i in
      if hx_state c \<noteq> HS_HEADERS \<and> hx_state c \<noteq> HS_BODY then Some (False, w)
      else (case OSTLS_Read (ta_tls api) k READ_CHUNK (hs_tls w) of (ok, got, t) \<Rightarrow>
        (let w1 = w\<lparr>hs_tls := t\<rparr> in
         if \<not> ok then Some (True, hctx_fail api i ''https: read failed'' w1)
         else if got \<noteq> [] then hctx_got api i got w1
         else if ev = kOSTLSEventClosed \<and> hx_state c = HS_BODY
         then Some (True,
                if hx_content_length c < 0 \<and> \<not> hx_chunked c then hctx_finish api i w1
                else if hx_body_bytes c \<ge> 512 then hctx_salvage api i w1
                else hctx_fail api i ''https: truncated body'' w1)
         else Some (False, w1))))"

text \<open>The retry after a close before any body, and the no-progress timeout.\<close>

definition hctx_retry :: "('fs, 't, 'd) tlsapi \<Rightarrow> nat \<Rightarrow> string \<Rightarrow> ('fs, 't, 'd) https_world \<Rightarrow> ('fs, 't, 'd) https_world" where
  "hctx_retry api i why w =
     (let c = hslot w i in
      if hx_retries c < HTTPS_MAX_RETRIES
      then hctx_reset_for_retry api i (hput i (c\<lparr>hx_retries := hx_retries c + 1\<rparr>) w)
      else hctx_fail api i why w)"

definition hctx_after_read ::
    "('fs, 't, 'd) tlsapi \<Rightarrow> nat \<Rightarrow> ostls_event \<Rightarrow> ('fs, 't, 'd) https_world \<Rightarrow> ('fs, 't, 'd) https_world" where
  "hctx_after_read api i ev w =
     (let c = hslot w i; st = hx_state c in
      if ev = kOSTLSEventClosed \<and> st \<noteq> HS_BODY \<and> st \<noteq> HS_DONE \<and> st \<noteq> HS_FAIL then hctx_retry api i why_closed w
      else if st \<noteq> HS_IDLE \<and> st \<noteq> HS_DONE \<and> st \<noteq> HS_FAIL \<and> now_ticks api w - hx_progress_ticks c > NO_PROGRESS_TICKS
      then (if st = HS_BODY \<and> hx_body_bytes c \<ge> 512 then hctx_salvage api i w else hctx_fail api i why_timeout w)
      else w)"

text \<open>A failed pump event: retry during the handshake, else fail.\<close>

definition hctx_pump_failed :: "('fs, 't, 'd) tlsapi \<Rightarrow> nat \<Rightarrow> ('fs, 't, 'd) https_world \<Rightarrow> ('fs, 't, 'd) https_world" where
  "hctx_pump_failed api i w =
     (if hx_state (hslot w i) = HS_TLSING \<or> hx_state (hslot w i) = HS_STARTING \<or> hx_state (hslot w i) = HS_QUEUED
      then hctx_retry api i ''https: handshake/transport failed'' w
      else hctx_fail api i ''https: handshake/transport failed'' w)"

text \<open>The part of \<open>hctx_poll\<close> that has a connection \<open>k\<close>.\<close>

definition hctx_drive ::
    "('fs, 't, 'd) tlsapi \<Rightarrow> nat \<Rightarrow> int \<Rightarrow> ('fs, 't, 'd) https_world \<Rightarrow> ('fs, 't, 'd) https_world option" where
  "hctx_drive api i k w =
     (case OSTLS_Pump (ta_tls api) k PUMP_STEPS (hs_tls w) of (ok, ev, t) \<Rightarrow>
      (let w1 = w\<lparr>hs_tls := t\<rparr> in
       if \<not> ok then Some (hctx_fail api i ''https: pump error'' w1)
       else if ev = kOSTLSEventFailed then Some (hctx_pump_failed api i w1)
       else (case hctx_handshake api i k ev w1 of (ret, w2) \<Rightarrow>
         if ret then Some w2
         else (case hctx_send api i k w2 of (ret2, w3) \<Rightarrow>
           if ret2 then Some w3
           else map_option (\<lambda>(ret3, w4). if ret3 then w4 else hctx_after_read api i ev w4) (hctx_read api i k ev w3)))))"

definition hctx_poll ::
    "('fs, 't, 'd) tlsapi \<Rightarrow> nat \<Rightarrow> ('fs, 't, 'd) https_world \<Rightarrow> ('fs, 't, 'd) https_world option" where
  "hctx_poll api i w =
     (let c = hslot w i in
      if hx_state c = HS_IDLE \<or> hx_state c = HS_DONE \<or> hx_state c = HS_FAIL then Some w
      else if hx_aborted c then Some (hctx_fail api i ''https: aborted'' w)
      else if hx_state c = HS_CACHEHIT then Some (hctx_serve_hit api i w)
      else if hx_state c = HS_QUEUED then Some (hctx_open api i w)
      else (case hx_conn c of
              None \<Rightarrow> Some (hctx_fail api i ''https: pump error'' w)
            | Some k \<Rightarrow> hctx_drive api i k w))"

section \<open>The fetcher operations\<close>

definition hs_path_of :: "nsurl \<Rightarrow> string" where
  "hs_path_of u =
     (let p = (case url_path u of None \<Rightarrow> ''/'' | Some s \<Rightarrow> if s = [] then ''/'' else take 1023 s) in
      case url_query u of
        None \<Rightarrow> p
      | Some q \<Rightarrow> if q \<noteq> [] \<and> length p + 1 + length q < 1024 then p @ ''?'' @ q else p)"

definition hs_port_of :: "nsurl \<Rightarrow> int" where
  "hs_port_of u =
     (case url_port u of
        None \<Rightarrow> 443
      | Some s \<Rightarrow> (let n = atol_c s mod 65536 in if n = 0 then 443 else n))"

definition fresh_hslot :: "('fs, 't, 'd) tlsapi \<Rightarrow> nat \<Rightarrow> nsurl \<Rightarrow> 'd macos9_https_ctx" where
  "fresh_hslot api p u =
     \<lparr>hx_parent = p, hx_url = Some u, hx_host = [], hx_port = 443, hx_path = [], hx_state = HS_QUEUED, hx_aborted = False,
      hx_err = None, hx_status = 0, hx_conn = None, hx_req_buf = [], hx_req_sent = 0, hx_hdr_buf = None, hx_hdr_cap = 0,
      hx_chunked = False, hx_content_length = -1, hx_body_bytes = 0, hx_chunk = chunk_zero api, hx_mime = [], hx_redirect_url = [],
      hx_progress_ticks = 0, hx_cache_eligible = False, hx_cache_capture = None, hx_cache_cap_cap = 0, hx_cache_overflow = False,
      hx_cache_hit_body = None, hx_cache_hit_mime = [], hx_cache_hit_status = 0, hx_retries = 0, hx_pool_key = [],
      hx_keep_alive_ok = True, hx_from_pool = False, hx_started = False, hx_post_body = None, hx_post_body_sent = 0\<rparr>"

fun first_idle_hslot :: "'d macos9_https_ctx list \<Rightarrow> nat option" where
  "first_idle_hslot [] = None"
| "first_idle_hslot (c # cs) = (if hx_state c = HS_IDLE then Some 0 else map_option Suc (first_idle_hslot cs))"

text \<open>Setting up the host, port, path and pool key, and looking the page up in the cache.\<close>

definition hs_setup_target ::
    "('fs, 't, 'd) tlsapi \<Rightarrow> nsurl \<Rightarrow> string \<Rightarrow> 'd macos9_https_ctx \<Rightarrow> 'fs disk_cache
      \<Rightarrow> 'd macos9_https_ctx \<times> 'fs disk_cache" where
  "hs_setup_target api u host c dc =
     (let h = take 255 host; port = hs_port_of u;
          c1 = c\<lparr>hx_host := h, hx_port := port, hx_pool_key := h @ '':'' @ show_int port, hx_path := hs_path_of u\<rparr>
      in if hx_post_body c1 \<noteq> None then (c1, dc)
         else (case macos9_cache_lookup (ta_fm api) (ta_malloc api) (Some (url_string u)) 128 dc of
                 (None, dc') \<Rightarrow> (c1, dc')
               | (Some h, dc') \<Rightarrow>
                   (c1\<lparr>hx_cache_hit_body := Some (ch_body h), hx_cache_hit_mime := ch_mime h, hx_cache_hit_status := ch_status h,
                       hx_state := HS_CACHEHIT, hx_mime := take 127 (ch_mime h), hx_status := ch_status h,
                       hx_content_length := int (length (ch_body h)), hx_keep_alive_ok := False\<rparr>, dc')))"

definition macos9_https_setup ::
    "('fs, 't, 'd) tlsapi \<Rightarrow> nat \<Rightarrow> nsurl \<Rightarrow> bytes option \<Rightarrow> ('fs, 't, 'd) https_world
      \<Rightarrow> nat option \<times> ('fs, 't, 'd) https_world" where
  "macos9_https_setup api p u pu w =
     (case first_idle_hslot (https_slots w) of
        None \<Rightarrow> (None, w)
      | Some i \<Rightarrow>
          (let c0 = fresh_hslot api p u;
               gone = (\<lambda>c. (None, hput i (c\<lparr>hx_state := HS_IDLE, hx_url := None\<rparr>) w))
           in if (case pu of None \<Rightarrow> False | Some b \<Rightarrow> \<not> ta_malloc api (length b)) then gone c0
              else (let c = (case pu of None \<Rightarrow> c0 | Some b \<Rightarrow> c0\<lparr>hx_post_body := Some b, hx_keep_alive_ok := False\<rparr>) in
                    case url_host u of
                      None \<Rightarrow> gone c
                    | Some host \<Rightarrow>
                        (case hs_setup_target api u host c (hs_dcache w) of (c', dc) \<Rightarrow>
                         (Some i, (hput i c' w)\<lparr>hs_dcache := dc\<rparr>)))))"

definition macos9_https_start :: "('fs, 't, 'd) tlsapi \<Rightarrow> nat \<Rightarrow> ('fs, 't, 'd) https_world \<Rightarrow> ('fs, 't, 'd) https_world" where
  "macos9_https_start api i w =
     (let c = (hslot w i)\<lparr>hx_started := True\<rparr> in
      hput i (if hx_state c = HS_QUEUED then c\<lparr>hx_progress_ticks := now_ticks api w\<rparr> else c) w)"

definition macos9_https_abort :: "nat \<Rightarrow> ('fs, 't, 'd) https_world \<Rightarrow> ('fs, 't, 'd) https_world" where
  "macos9_https_abort i w = hput i ((hslot w i)\<lparr>hx_aborted := True\<rparr>) w"

definition https_poll_slot ::
    "('fs, 't, 'd) tlsapi \<Rightarrow> nat \<Rightarrow> ('fs, 't, 'd) https_world \<Rightarrow> ('fs, 't, 'd) https_world option" where
  "https_poll_slot api i w =
     (let c = hslot w i in
      if hx_state c = HS_IDLE then Some w
      else if hx_aborted c \<and> hx_state c = HS_QUEUED then Some (hctx_fail api i ''https: aborted-queued'' w)
      else hctx_poll api i w)"

fun https_poll_from ::
    "('fs, 't, 'd) tlsapi \<Rightarrow> nat list \<Rightarrow> ('fs, 't, 'd) https_world \<Rightarrow> ('fs, 't, 'd) https_world option" where
  "https_poll_from api [] w = Some w"
| "https_poll_from api (i # is) w = Option.bind (https_poll_slot api i w) (https_poll_from api is)"

definition macos9_https_poll :: "('fs, 't, 'd) tlsapi \<Rightarrow> ('fs, 't, 'd) https_world \<Rightarrow> ('fs, 't, 'd) https_world option" where
  "macos9_https_poll api w = https_poll_from api [0..<MAX_HTTPS_F] w"

definition macos9_https_fetcher_active :: "('fs, 't, 'd) https_world \<Rightarrow> nat" where
  "macos9_https_fetcher_active w =
     length (filter (\<lambda>c. hx_state c \<noteq> HS_IDLE \<and> hx_state c \<noteq> HS_DONE \<and> hx_state c \<noteq> HS_FAIL) (https_slots w))"

definition macos9_https_fetcher_register ::
    "('fs, 't, 'd) tlsapi \<Rightarrow> ('fs, 't, 'd) https_world \<Rightarrow> ('fs, 't, 'd) https_world" where
  "macos9_https_fetcher_register api w =
     (case dead_host_load_from_disk (ta_fm api) (hs_hosts w, dc_fs (hs_dcache w)) of (hs, fs) \<Rightarrow>
      w\<lparr>hs_hosts := hs, hs_dcache := (hs_dcache w)\<lparr>dc_fs := fs\<rparr>\<rparr>)"

end
