(* ===== verification/HttpProps.thy ===== *)
theory HttpProps
  imports HttpFetcher
begin

text \<open>
  Correctness of the polled HTTP fetcher: what each part of a poll does to its slot, its fetch and
  the event log, and from it, through the locale \<open>slot_fetcher\<close>, that every fetch gets exactly one
  terminal message. The admission rules are in \<open>HttpSetup\<close>, the header block in \<open>HeaderProps\<close>.
\<close>

section \<open>What a step leaves alone\<close>

text \<open>Only slot \<open>i\<close> changes, and its owner does not.\<close>

definition only_slot :: "nat \<Rightarrow> ('fs, 'ot) http_world \<Rightarrow> ('fs, 'ot) http_world \<Rightarrow> bool" where
  "only_slot i w w' \<longleftrightarrow> slot_frame fc_parent i (f_slots w) (f_slots w')"

named_theorems world_simps \<open>slot access in an updated world\<close>

lemma put_slot_simps [simp]:
  "f_slots (put_slot i c w) = (f_slots w)[i := c]" "events (put_slot i c w) = events w"
  "ep_pool (put_slot i c w) = ep_pool w" "net (put_slot i c w) = net w" "dcache (put_slot i c w) = dcache w"
  "hosts (put_slot i c w) = hosts w" "stats (put_slot i c w) = stats w"
  by (simp_all add: put_slot_def)

lemma emit_simps [simp]:
  "f_slots (emit es w) = f_slots w" "events (emit es w) = events w @ es" "net (emit es w) = net w"
  "ep_pool (emit es w) = ep_pool w" "dcache (emit es w) = dcache w" "hosts (emit es w) = hosts w"
  by (simp_all add: emit_def)

lemma only_slot_refl [simp]: "only_slot i w w"
  by (simp add: only_slot_def slot_frame_def)

lemma only_slot_trans: "only_slot i w w1 \<Longrightarrow> only_slot i w1 w2 \<Longrightarrow> only_slot i w w2"
  by (simp add: only_slot_def slot_frame_def)

lemma only_slot_put:
  "i < length (f_slots w) \<Longrightarrow> f_slots w' = (f_slots w)[i := c] \<Longrightarrow> fc_parent c = fc_parent (slot w i) \<Longrightarrow> only_slot i w w'"
  by (simp add: only_slot_def slot_frame_def)

lemma more_parts:
  assumes "body_ctx.more c = body_ctx.more c'"
  shows "fc_parent (c :: macos9_fetch_ctx) = fc_parent c'" "fc_state c = fc_state c'" "fc_url c = fc_url c'"
    "fc_post_body c = fc_post_body c'" "fc_cache_hit c = fc_cache_hit c'" "fc_content_length c = fc_content_length c'"
  using assms by (cases c; cases c'; simp)+

lemma dec_more_body_more: "chunk_dec.more c = chunk_dec.more c' \<Longrightarrow> body_ctx.more c = body_ctx.more c' \<and> cache_eligible c = cache_eligible c'"
  by (cases c; cases c') simp

lemma size_loop_more: "chunk_dec.more (fst (chunk_size_loop c b)) = chunk_dec.more c"
  by (induction c b rule: chunk_size_loop.induct) (auto simp: chunk_size_end_def Let_def)

lemma crlf_loop_more: "chunk_dec.more (fst (chunk_crlf_loop c b)) = chunk_dec.more c"
  by (induction c b rule: chunk_crlf_loop.induct) auto

lemma trailer_loop_more: "chunk_dec.more (fst (chunk_trailer_loop c b)) = chunk_dec.more c"
  by (induction c b rule: chunk_trailer_loop.induct) auto

lemma capture_append_more:
  "body_ctx.more (cache_capture_append r d c) = body_ctx.more c \<and> cache_eligible (cache_capture_append r d c) = cache_eligible c"
  by (simp add: cache_capture_append_def cache_capture_drop_def Let_def)

lemma switch_more:
  "chunk_switch r c b = (c', b', ms) \<Longrightarrow> body_ctx.more c' = body_ctx.more c \<and> cache_eligible c' = cache_eligible c"
proof (cases "chunk_state c")
  case CS_DATA
  assume "chunk_switch r c b = (c', b', ms)"
  then have "c' = fst (chunk_data_step r c b)" by (simp add: chunk_switch_def CS_DATA)
  then show ?thesis by (simp add: chunk_data_step_def Let_def capture_append_more)
qed (use dec_more_body_more [of c' c] size_loop_more [of c b] crlf_loop_more [of c b] trailer_loop_more [of c b]
      in \<open>auto simp: chunk_switch_def split: prod.splits\<close>)

lemma process_chunked_more:
  assumes "process_chunked_bytes r c b msgs = Some z"
  shows "body_ctx.more (fst z) = body_ctx.more c \<and> cache_eligible (fst z) = cache_eligible c"
  using assms
proof (rule process_chunked_bytes.raw_induct
    [where P = "\<lambda>r c b msgs z. body_ctx.more (fst z) = body_ctx.more c \<and> cache_eligible (fst z) = cache_eligible c", rotated])
  fix f :: "(int \<Rightarrow> bool) \<Rightarrow> 'a body_ctx_scheme \<Rightarrow> bytes \<Rightarrow> bytes list \<Rightarrow> ('a body_ctx_scheme \<times> bytes list) option"
    and r and c :: "'a body_ctx_scheme" and b msgs z
  assume IH: "\<And>r c b msgs z. f r c b msgs = Some z \<Longrightarrow> body_ctx.more (fst z) = body_ctx.more c \<and> cache_eligible (fst z) = cache_eligible c"
    and eq: "(if b \<noteq> [] \<and> chunk_state c \<noteq> CS_DONE
        then (case chunk_switch r c b of (c', b', ms) \<Rightarrow> f r c' b' (msgs @ ms)) else Some (c, msgs)) = Some z"
  obtain c' b' ms where sw: "chunk_switch r c b = (c', b', ms)" by (metis prod_cases3)
  show "body_ctx.more (fst z) = body_ctx.more c \<and> cache_eligible (fst z) = cache_eligible c"
    using eq IH [of r c' b' "msgs @ ms" z] switch_more [OF sw] by (auto simp: sw split: if_splits)
qed

text \<open>Two contexts of one fetch: same owner, address, request body and cache origin.\<close>

definition same_fetch :: "macos9_fetch_ctx \<Rightarrow> macos9_fetch_ctx \<Rightarrow> bool" where
  "same_fetch c c' \<longleftrightarrow> fc_parent c' = fc_parent c \<and> fc_url c' = fc_url c \<and> fc_post_body c' = fc_post_body c
     \<and> fc_cache_hit c' = fc_cache_hit c \<and> (fc_post_body c \<noteq> None \<longrightarrow> cache_eligible c' = cache_eligible c)"

lemma same_fetch_refl [simp]: "same_fetch c c"
  by (simp add: same_fetch_def)

lemma same_fetch_trans: "same_fetch c c1 \<Longrightarrow> same_fetch c1 c2 \<Longrightarrow> same_fetch c c2"
  by (simp add: same_fetch_def)

lemma same_fetch_state [simp]: "same_fetch c (c'\<lparr>fc_state := s\<rparr>) = same_fetch c c'" "same_fetch c (c'\<lparr>fc_keep_alive_ok := k\<rparr>) = same_fetch c c'"
  "same_fetch c (c'\<lparr>fc_h_buf := h\<rparr>) = same_fetch c c'" "same_fetch c (c'\<lparr>fc_redirect_url := u\<rparr>) = same_fetch c c'"
  by (simp_all add: same_fetch_def)

lemma same_fetch_more: "body_ctx.more c' = body_ctx.more c \<Longrightarrow> cache_eligible c' = cache_eligible c \<Longrightarrow> same_fetch c c' \<and> fc_state c' = fc_state c"
  using more_parts [of c' c] by (simp add: same_fetch_def)

lemma plain_body_same:
  assumes "mfs_plain_body api b c = (c', evs)"
  shows "same_fetch c c' \<and> (fc_state c' = fc_state c \<or> fc_state c' = MFS_DONE) \<and> (\<forall>e \<in> set evs. running_ev (fc_parent c) e)"
proof -
  define deliver where "deliver = (if fc_content_length c \<ge> 0 \<and> body_bytes c + int (length b) > fc_content_length c
      then fc_content_length c - body_bytes c else int (length b))"
  define c1 where "c1 = (if deliver > 0 then (cache_capture_append (api_realloc api) (take (nat deliver) b) c)\<lparr>body_bytes := body_bytes c + deliver\<rparr> else c)"
  have c1: "same_fetch c c1 \<and> fc_state c1 = fc_state c"
    using same_fetch_more [of "cache_capture_append (api_realloc api) (take (nat deliver) b) c" c]
      capture_append_more [of "api_realloc api" "take (nat deliver) b" c] by (simp add: c1_def same_fetch_def)
  have "c' = (if fc_content_length c1 \<ge> 0 \<and> body_bytes c1 \<ge> fc_content_length c1 then c1\<lparr>fc_state := MFS_DONE\<rparr> else c1)"
    "evs = (if deliver > 0 then [Callback (fc_parent c) (FETCH_DATA (take (nat deliver) b))] else [])"
    using assms unfolding mfs_plain_body_def Let_def deliver_def [symmetric] c1_def [symmetric] by simp_all
  then show ?thesis using c1 by simp
qed

lemma body_same:
  assumes "mfs_body api b c = Some (c', evs)"
  shows "same_fetch c c' \<and> (fc_state c' = fc_state c \<or> fc_state c' = MFS_DONE) \<and> (\<forall>e \<in> set evs. running_ev (fc_parent c) e)"
proof (cases "fc_chunked c")
  case True
  then obtain x ms where x: "process_chunked_bytes (api_realloc api) c b [] = Some (x, ms)"
    "c' = (if chunk_state x = CS_DONE then x\<lparr>fc_state := MFS_DONE\<rparr> else x)" "evs = map (\<lambda>d. Callback (fc_parent c) (FETCH_DATA d)) ms"
    using assms by (auto simp: mfs_body_def)
  have "same_fetch c x \<and> fc_state x = fc_state c"
    using process_chunked_more [OF x(1)] same_fetch_more [of x c] by simp
  then show ?thesis using x(2,3) by auto
next
  case False
  then show ?thesis using plain_body_same assms by (simp add: mfs_body_def)
qed

lemma header_line_same: "same_fetch c (mfs_header_line p c) \<and> fc_state (mfs_header_line p c) = fc_state c
    \<and> cache_eligible (mfs_header_line p c) = cache_eligible c"
  by (simp add: mfs_header_line_def Let_def same_fetch_def)

lemma header_loop_same:
  assumes "mfs_header_loop buf c evs = (c', evs')" "\<forall>e \<in> set evs. running_ev (fc_parent c) e"
  shows "same_fetch c c' \<and> fc_state c' = fc_state c \<and> (\<forall>e \<in> set evs'. running_ev (fc_parent c) e)"
  using assms
proof (induction buf c evs rule: mfs_header_loop.induct)
  case (1 buf c evs)
  show ?case
  proof (cases "\<exists>p rest. mfs_find_line buf = Some (p, rest) \<and> p \<noteq> []")
    case True
    then obtain p rest where f: "mfs_find_line buf = Some (p, rest)" "p \<noteq> []" by blast
    have par: "fc_parent (mfs_header_line p c) = fc_parent c" using header_line_same [of c p] by (simp add: same_fetch_def)
    have "mfs_header_loop rest (mfs_header_line p c) (evs @ [Callback (fc_parent c) (FETCH_HEADER p)]) = (c', evs')"
      using 1(2) f by (subst (asm) mfs_header_loop.simps) simp
    from 1(1) [OF f(1) refl f(2) this] 1(3) par header_line_same [of c p] show ?thesis
      by (auto intro: same_fetch_trans)
  next
    case False
    then have "c' = c" "evs' = evs" using 1(2) by (subst (asm) mfs_header_loop.simps; auto split: option.splits if_splits)+
    then show ?thesis using 1(3) by simp
  qed
qed

lemma header_block_same:
  assumes "mfs_header_block hdr c = (c', evs)"
  shows "same_fetch c c' \<and> fc_state c' = fc_state c \<and> (\<forall>e \<in> set evs. running_ev (fc_parent c) e)"
proof -
  obtain po rest where f: "(case mfs_find_line (hdr @ [NUL, LF]) of None \<Rightarrow> (None, hdr @ [NUL, LF]) | Some (p, r) \<Rightarrow> (Some p, r)) = (po, rest)"
    by fastforce
  obtain c1 ev1 where s: "mfs_status_line po c = (c1, ev1)" by fastforce
  have c1: "same_fetch c c1 \<and> fc_state c1 = fc_state c \<and> (\<forall>e \<in> set ev1. running_ev (fc_parent c) e)"
    using s by (auto simp: mfs_status_line_def same_fetch_def split: option.splits if_splits)
  have par: "fc_parent c1 = fc_parent c" using c1 by (simp add: same_fetch_def)
  have "mfs_header_loop rest c1 (ev1 @ [SetHttpCode (fc_parent c) (fc_status c1)]) = (c', evs)"
    using assms f s by (simp add: mfs_header_block_def Let_def)
  from header_loop_same [OF this] c1 par show ?thesis by (auto intro: same_fetch_trans)
qed

lemma begin_body_same: "same_fetch c (mfs_begin_body c) \<and> fc_state (mfs_begin_body c) = MFS_BODY"
  by (simp add: mfs_begin_body_def Let_def same_fetch_def)

section \<open>Live and released slots\<close>

text \<open>The fetch of slot \<open>i\<close> is still running after a step and has sent no terminal message.\<close>

definition live_step :: "nat \<Rightarrow> ('fs, 'ot) http_world \<Rightarrow> ('fs, 'ot) http_world \<Rightarrow> bool" where
  "live_step i w w' \<longleftrightarrow> only_slot i w w' \<and> fc_state (slot w' i) \<noteq> MFS_IDLE \<and> fc_state (slot w' i) \<noteq> MFS_NOTIFIED
     \<and> same_fetch ((slot w i)\<lparr>fc_cache_hit := fc_cache_hit (slot w' i)\<rparr>) (slot w' i)
     \<and> (fc_post_body (slot w i) \<noteq> None \<longrightarrow> dcache w' = dcache w)
     \<and> (\<exists>evs. events w' = events w @ evs \<and> (\<forall>e \<in> set evs. running_ev (fc_parent (slot w i)) e))"

text \<open>It is over: one terminal message, last of all its messages, then released, and the slot is free.\<close>

definition over_step :: "nat \<Rightarrow> ('fs, 'ot) http_world \<Rightarrow> ('fs, 'ot) http_world \<Rightarrow> bool" where
  "over_step i w w' \<longleftrightarrow> only_slot i w w' \<and> fc_state (slot w' i) = MFS_IDLE
     \<and> (\<exists>evs m. events w' = events w @ evs @ [Callback (fc_parent (slot w i)) m,
            RemoveFromQueues (fc_parent (slot w i)), FreeFetch (fc_parent (slot w i))]
          \<and> terminal m \<and> (\<forall>e \<in> set evs. running_ev (fc_parent (slot w i)) e))
     \<and> (fc_post_body (slot w i) \<noteq> None \<and> \<not> cache_eligible (slot w i) \<longrightarrow> dcache w' = dcache w)"

lemma http_free_effect:
  assumes "macos9_http_free api i w = Some w'" "i < length (f_slots w)"
  shows "only_slot i w w'" "fc_state (slot w' i) = MFS_IDLE" "events w' = events w" "dcache w' = dcache w"
proof -
  obtain c pool n where c: "mfs_close (api_ot api) (slot w i) (ep_pool w) (net w) = Some (c, pool, n)"
    using assms(1) by (auto simp: macos9_http_free_def)
  have "fc_parent c = fc_parent (slot w i)"
    using c by (auto simp: mfs_close_def split: option.splits if_splits)
  then show "only_slot i w w'" "fc_state (slot w' i) = MFS_IDLE" "events w' = events w" "dcache w' = dcache w"
    using assms c by (auto simp: macos9_http_free_def only_slot_def slot_frame_def)
qed

lemma fetch_release_effect:
  assumes "fetch_release api i w = Some w'" "i < length (f_slots w)"
  shows "only_slot i w w'" "fc_state (slot w' i) = MFS_IDLE"
    "events w' = events w @ [RemoveFromQueues (fc_parent (slot w i)), FreeFetch (fc_parent (slot w i))]" "dcache w' = dcache w"
  using http_free_effect [of api i "emit [RemoveFromQueues (fc_parent (slot w i)), FreeFetch (fc_parent (slot w i))] w" w'] assms
  by (auto simp: fetch_release_def Let_def only_slot_def slot_frame_def)

section \<open>The steps of a poll\<close>

definition quiet_step :: "nat \<Rightarrow> ('fs, 'ot) http_world \<Rightarrow> ('fs, 'ot) http_world \<Rightarrow> bool" where
  "quiet_step i w w' \<longleftrightarrow> only_slot i w w' \<and> events w' = events w
     \<and> same_fetch ((slot w i)\<lparr>fc_cache_hit := fc_cache_hit (slot w' i)\<rparr>) (slot w' i)
     \<and> (fc_post_body (slot w i) \<noteq> None \<longrightarrow> dcache w' = dcache w)"

lemma quiet_step_refl: "quiet_step i w w"
  by (simp add: quiet_step_def same_fetch_def)

lemma quiet_step_trans: "quiet_step i w w1 \<Longrightarrow> quiet_step i w1 w2 \<Longrightarrow> quiet_step i w w2"
  unfolding quiet_step_def same_fetch_def by (auto intro: only_slot_trans)

lemma quiet_step_put:
  assumes "i < length (f_slots w)" "f_slots w' = (f_slots w)[i := c]" "events w' = events w"
    and "same_fetch ((slot w i)\<lparr>fc_cache_hit := fc_cache_hit c\<rparr>) c" "fc_post_body (slot w i) \<noteq> None \<longrightarrow> dcache w' = dcache w"
  shows "quiet_step i w w'"
  using assms by (auto simp: quiet_step_def only_slot_def slot_frame_def same_fetch_def)

lemma open_cache_quiet:
  assumes "mfs_open_cache api i w = (hit, w')" "i < length (f_slots w)"
  shows "quiet_step i w w'"
proof (cases "fc_url (slot w i) \<noteq> None \<and> \<not> fc_cache_hit (slot w i) \<and> fc_post_body (slot w i) = None
    \<and> \<not> macsurf_http_skip_next_cache (dcache w)")
  case True
  obtain ho dc where l: "macos9_cache_lookup (api_fm api) (api_malloc api) (map_option url_string (fc_url (slot w i))) 128 (dcache w) = (ho, dc)"
    by fastforce
  show ?thesis
  proof (cases ho)
    case None
    then have "w' = put_slot i ((slot w i)\<lparr>fc_cache_hit_body := None, fc_cache_hit_mime := [], fc_cache_hit_status := 0\<rparr>) (w\<lparr>dcache := dc\<rparr>)"
      using assms(1) l by (simp only: mfs_open_cache_def Let_def True if_True prod.case option.case) simp
    then show ?thesis using True assms(2)
      by (intro quiet_step_put [of i w w' "(slot w i)\<lparr>fc_cache_hit_body := None, fc_cache_hit_mime := [], fc_cache_hit_status := 0\<rparr>"])
        (simp_all add: same_fetch_def)
  next
    case (Some h)
    then have "\<exists>c. w' = put_slot i c (w\<lparr>dcache := dc\<rparr>) \<and> same_fetch ((slot w i)\<lparr>fc_cache_hit := fc_cache_hit c\<rparr>) c"
      using assms(1) l True by (simp only: mfs_open_cache_def Let_def True if_True prod.case option.case) (auto simp: same_fetch_def)
    then show ?thesis using True assms(2) by (auto intro: quiet_step_put)
  qed
next
  case False
  then have "w' = w" using assms(1) unfolding mfs_open_cache_def Let_def by (simp only: if_False prod.inject)
  then show ?thesis by (simp add: quiet_step_refl)
qed

lemma open_fail_quiet:
  assumes "mfs_open_fail api i w = (r, w')" "i < length (f_slots w)"
  shows "quiet_step i w w'"
  using assms by (auto simp: mfs_open_fail_def Let_def same_fetch_def intro!: quiet_step_put)

lemma quiet_length: "quiet_step i w w' \<Longrightarrow> length (f_slots w') = length (f_slots w)"
  by (simp add: quiet_step_def only_slot_def slot_frame_def)

lemma open_connect_quiet:
  assumes "i < length (f_slots w)" "Option.bind (fc_url (slot w i)) url_host = Some host"
    and "(let c = (slot w i)\<lparr>fc_pool_key := take (POOL_KEY_LEN - 1) target\<rparr> in
               case mfs_endpoint (api_ot api) (fc_pool_key c) target (ep_pool w) (net w) of (ok, epo, pool, n) \<Rightarrow>
               (let c1 = c\<lparr>fc_ep := epo\<rparr>; w1 = (put_slot i c1 w)\<lparr>ep_pool := pool, net := n\<rparr> in
                case epo of
                  None \<Rightarrow> mfs_open_fail api i w1
                | Some ep \<Rightarrow>
                    if \<not> ok then mfs_open_fail api i w1
                    else (let path_buf = mfs_path_buf (Option.bind (fc_url c) url_path) (Option.bind (fc_url c) url_query) in
                      if \<not> mfs_request_fits path_buf host (fc_post_body c)
                      then mfs_open_fail api i (put_slot i (c1\<lparr>fc_err := Some ''URL too long''\<rparr>) w1)
                      else (case mfs_send (api_ot api) ep (mfs_request path_buf host (fc_post_body c)) (fc_post_body c) n of (sent, n') \<Rightarrow>
                        if sent then (1, w1\<lparr>net := n'\<rparr>) else mfs_open_fail api i (w1\<lparr>net := n'\<rparr>))))) = (r, w')"
  shows "quiet_step i w w'"
proof -
  define c where "c = (slot w i)\<lparr>fc_pool_key := take (POOL_KEY_LEN - 1) target\<rparr>"
  obtain ok epo pool n where e: "mfs_endpoint (api_ot api) (fc_pool_key c) target (ep_pool w) (net w) = (ok, epo, pool, n)"
    by (metis prod_cases4)
  define c1 where "c1 = c\<lparr>fc_ep := epo\<rparr>"
  define w1 where "w1 = (put_slot i c1 w)\<lparr>ep_pool := pool, net := n\<rparr>"
  have q1: "quiet_step i w w1" using assms(1) by (intro quiet_step_put [of i w w1 c1]) (simp_all add: w1_def c1_def c_def same_fetch_def)
  have l1: "i < length (f_slots w1)" using assms(1) by (simp add: w1_def)
  have s1: "slot w1 i = c1" using assms(1) by (simp add: w1_def)
  have qf: "mfs_open_fail api i x = (r, w') \<Longrightarrow> quiet_step i w1 x \<Longrightarrow> quiet_step i w w'" for x
    using open_fail_quiet [of api i x r w'] quiet_length [of i w1 x] l1 q1 by (auto intro: quiet_step_trans)
  have qe: "quiet_step i w1 (put_slot i (c1\<lparr>fc_err := Some ''URL too long''\<rparr>) w1)"
    using l1 s1 by (intro quiet_step_put [of i w1 _ "c1\<lparr>fc_err := Some ''URL too long''\<rparr>"]) (simp_all add: same_fetch_def)
  have qn: "quiet_step i w1 (w1\<lparr>net := x\<rparr>)" for x
    using l1 s1 list_update_id [of "f_slots w1" i]
    by (intro quiet_step_put [of i w1 "w1\<lparr>net := x\<rparr>" c1]) (simp_all add: same_fetch_def)
  show ?thesis
  proof (cases "epo \<noteq> None \<and> ok")
    case False
    then have "mfs_open_fail api i w1 = (r, w')"
      using assms(3) unfolding Let_def c_def [symmetric] e prod.case c1_def [symmetric] w1_def [symmetric] by (auto split: option.splits)
    then show ?thesis using qf quiet_step_refl by blast
  next
    case True
    then obtain ep where ep: "epo = Some ep" by blast
    define pb where "pb = mfs_path_buf (Option.bind (fc_url c) url_path) (Option.bind (fc_url c) url_query)"
    obtain sent n' where snd: "mfs_send (api_ot api) ep (mfs_request pb host (fc_post_body c)) (fc_post_body c) n = (sent, n')" by fastforce
    have "(if \<not> mfs_request_fits pb host (fc_post_body c)
           then mfs_open_fail api i (put_slot i (c1\<lparr>fc_err := Some ''URL too long''\<rparr>) w1)
           else if sent then (1, w1\<lparr>net := n'\<rparr>) else mfs_open_fail api i (w1\<lparr>net := n'\<rparr>)) = (r, w')"
      using assms(3) True ep
      unfolding Let_def c_def [symmetric] e prod.case c1_def [symmetric] w1_def [symmetric] pb_def [symmetric]
      by (cases "mfs_request_fits pb host (fc_post_body c)"; cases sent) (simp_all add: snd)
    then show ?thesis using qf [OF _ qe] qf [OF _ qn] quiet_step_trans [OF q1 qn [of n']] by (auto split: if_splits)
  qed
qed

lemma open_quiet:
  assumes "mfs_open api i w0 = (r, w')" "i < length (f_slots w0)"
  shows "quiet_step i w0 w'"
proof -
  obtain hit w where o: "mfs_open_cache api i w0 = (hit, w)" by fastforce
  have q: "quiet_step i w0 w" using open_cache_quiet [OF o assms(2)] .
  have l: "i < length (f_slots w)" using quiet_length [OF q] assms(2) by simp
  have fl: "mfs_open_fail api i w = (r, w') \<Longrightarrow> quiet_step i w0 w'"
    using open_fail_quiet [OF _ l] q by (blast intro: quiet_step_trans)
  have "quiet_step i w w' \<or> w' = w \<or> mfs_open_fail api i w = (r, w')"
  proof (cases "Option.bind (fc_url (slot w i)) url_scheme \<noteq> None \<and> Option.bind (fc_url (slot w i)) url_host \<noteq> None \<and> \<not> hit")
    case True
    then obtain scheme host where sh: "Option.bind (fc_url (slot w i)) url_scheme = Some scheme" "Option.bind (fc_url (slot w i)) url_host = Some host"
      by blast
    show ?thesis
    proof (cases "scheme = ''https'' \<or> mfs_target host (Option.bind (fc_url (slot w i)) url_port) = None")
      case t: True
      then show ?thesis using assms(1) True unfolding mfs_open_def o prod.case sh option.case by (auto split: if_splits)
    next
      case False
      then obtain target where t: "mfs_target host (Option.bind (fc_url (slot w i)) url_port) = Some target" by auto
      from False assms(1) True have "quiet_step i w w'"
        unfolding mfs_open_def o prod.case sh option.case t
        by (intro open_connect_quiet [OF l sh(2), where target = target and api = api and r = r]) simp
      then show ?thesis by simp
    qed
  next
    case False
    then show ?thesis using assms(1) unfolding mfs_open_def o prod.case
      by (cases "Option.bind (fc_url (slot w i)) url_scheme"; cases "Option.bind (fc_url (slot w i)) url_host") (auto split: if_splits)
  qed
  then show ?thesis using q fl by (auto intro: quiet_step_trans)
qed

lemma live_put:
  assumes "i < length (f_slots w)" "f_slots w' = (f_slots w)[i := c]" "events w' = events w @ evs"
    and "same_fetch (slot w i) c" "fc_state c \<noteq> MFS_IDLE" "fc_state c \<noteq> MFS_NOTIFIED"
    and "\<forall>e \<in> set evs. running_ev (fc_parent (slot w i)) e" "dcache w' = dcache w"
  shows "live_step i w w'"
  using assms by (auto simp: live_step_def only_slot_def slot_frame_def same_fetch_def)

lemma live_quiet: "quiet_step i w w' \<Longrightarrow> fc_state (slot w' i) \<noteq> MFS_IDLE \<Longrightarrow> fc_state (slot w' i) \<noteq> MFS_NOTIFIED \<Longrightarrow> live_step i w w'"
  by (auto simp: live_step_def quiet_step_def)

lemma live_trans: "live_step i w w1 \<Longrightarrow> live_step i w1 w2 \<Longrightarrow> live_step i w w2"
  unfolding live_step_def same_fetch_def by (auto intro: only_slot_trans simp: only_slot_def slot_frame_def)

lemma live_over: "live_step i w w1 \<Longrightarrow> over_step i w1 w2 \<Longrightarrow> over_step i w w2"
proof -
  assume a: "live_step i w w1" "over_step i w1 w2"
  have p: "fc_parent (slot w1 i) = fc_parent (slot w i)" "only_slot i w w2"
    using a by (auto simp: live_step_def over_step_def only_slot_def slot_frame_def)
  obtain evs where e1: "events w1 = events w @ evs" "\<forall>e \<in> set evs. running_ev (fc_parent (slot w i)) e"
    using a(1) by (auto simp: live_step_def)
  obtain evs2 m where e2: "events w2 = events w1 @ evs2 @ [Callback (fc_parent (slot w i)) m,
            RemoveFromQueues (fc_parent (slot w i)), FreeFetch (fc_parent (slot w i))]"
          "terminal m" "\<forall>e \<in> set evs2. running_ev (fc_parent (slot w i)) e"
    using a(2) p(1) by (auto simp: over_step_def)
  have "fc_post_body (slot w i) \<noteq> None \<and> \<not> cache_eligible (slot w i) \<longrightarrow> dcache w2 = dcache w"
    using a by (auto simp: live_step_def over_step_def same_fetch_def)
  then show ?thesis using a(2) p(2) e1 e2 unfolding over_step_def
    by (auto intro!: exI [of _ "evs @ evs2"])
qed

text \<open>Releasing a slot after a terminal message.\<close>

lemma release_over:
  assumes "fetch_release api i (put_slot i c w1) = Some w'" "i < length (f_slots w)"
    and "f_slots w1 = f_slots w" "same_fetch (slot w i) c"
    and "events w1 = events w @ evs @ [Callback (fc_parent (slot w i)) m]" "terminal m" "\<forall>e \<in> set evs. running_ev (fc_parent (slot w i)) e"
    and "fc_post_body (slot w i) \<noteq> None \<and> \<not> cache_eligible (slot w i) \<longrightarrow> dcache w1 = dcache w"
  shows "over_step i w w'"
proof -
  have p: "fc_parent c = fc_parent (slot w i)" using assms(4) by (simp add: same_fetch_def)
  have l: "i < length (f_slots (put_slot i c w1))" using assms(2,3) by simp
  note r = fetch_release_effect [OF assms(1) l]
  have "only_slot i w (put_slot i c w1)" using assms(2,3) p by (intro only_slot_put [where c = c]) simp_all
  then have "only_slot i w w'" using r(1) by (rule only_slot_trans)
  then show ?thesis using r assms(2,3,5-8) p unfolding over_step_def by (auto intro!: exI [of _ evs])
qed

lemma parse_headers_step:
  assumes "mfs_parse_headers api i w = Some w'" "i < length (f_slots w)" "fc_state (slot w i) = MFS_HEADERS"
  shows "live_step i w w' \<or> over_step i w w'"
proof (cases "\<exists>h hdr x. fc_h_buf (slot w i) = Some h \<and> strstr_split [CR, LF, CR, LF] (cstr h) = Some (hdr, x)")
  case False
  then have "w' = w" using assms(1) unfolding mfs_parse_headers_def by (auto split: option.splits)
  moreover have "live_step i w w" using assms(3) by (intro live_quiet quiet_step_refl) simp_all
  ultimately show ?thesis by simp
next
  case True
  then obtain h hdr x where h: "fc_h_buf (slot w i) = Some h" "strstr_split [CR, LF, CR, LF] (cstr h) = Some (hdr, x)" by blast
  obtain c1 evs where b: "mfs_header_block hdr (slot w i) = (c1, evs)" by fastforce
  note bs = header_block_same [OF b]
  have p1: "fc_parent c1 = fc_parent (slot w i)" using bs by (simp add: same_fetch_def)
  show ?thesis
  proof (cases "300 \<le> fc_status c1 \<and> fc_status c1 < 400 \<and> fc_redirect_url c1 \<noteq> []")
    case True
    let ?w = "emit (evs @ [Callback (fc_parent c1) (FETCH_REDIRECT (fc_redirect_url c1))]) w"
    have fr: "fetch_release api i (put_slot i (c1\<lparr>fc_state := MFS_NOTIFIED, fc_keep_alive_ok := False\<rparr>) ?w) = Some w'"
      using assms(1) True unfolding mfs_parse_headers_def h option.case prod.case b by simp
    have "over_step i w w'"
      using bs p1 by (intro release_over [OF fr assms(2), where evs = evs and m = "FETCH_REDIRECT (fc_redirect_url c1)"]) simp_all
    then show ?thesis ..
  next
    case False
    define c2 where "c2 = mfs_begin_body c1"
    let ?rest = "drop (length hdr + 4) h"
    have "map_option (\<lambda>(c3, bevs). put_slot i (c3\<lparr>fc_h_buf := None\<rparr>) (emit (evs @ bevs) w))
            (if ?rest \<noteq> [] then mfs_body api ?rest c2 else Some (c2, [])) = Some w'"
      using assms(1) False unfolding mfs_parse_headers_def h option.case prod.case b Let_def c2_def by simp
    then obtain c3 bevs where r: "(if ?rest \<noteq> [] then mfs_body api ?rest c2 else Some (c2, [])) = Some (c3, bevs)"
      "w' = put_slot i (c3\<lparr>fc_h_buf := None\<rparr>) (emit (evs @ bevs) w)" by auto
    have s2: "same_fetch c1 c2" "fc_state c2 = MFS_BODY" using begin_body_same [of c1] by (auto simp: c2_def)
    have s3: "same_fetch c2 c3" "fc_state c3 = MFS_BODY \<or> fc_state c3 = MFS_DONE" "\<forall>e \<in> set bevs. running_ev (fc_parent c2) e"
      using r(1) body_same [of api ?rest c2 c3 bevs] s2(2) by (auto split: if_splits)
    have "same_fetch (slot w i) c3" using bs s2(1) s3(1) by (blast intro: same_fetch_trans)
    moreover have "fc_parent c2 = fc_parent (slot w i)" using p1 s2(1) by (simp add: same_fetch_def)
    ultimately have "live_step i w w'"
      using assms(2) bs s3 r(2) by (intro live_put [where c = "c3\<lparr>fc_h_buf := None\<rparr>" and evs = "evs @ bevs"]) auto
    then show ?thesis ..
  qed
qed

lemma header_bytes_step:
  assumes "mfs_header_bytes api i b w = Some w'" "i < length (f_slots w)" "fc_state (slot w i) = MFS_HEADERS"
  shows "live_step i w w' \<or> over_step i w w'"
proof -
  define c where "c = slot w i"
  define old where "old = (case fc_h_buf c of None \<Rightarrow> [] | Some h \<Rightarrow> h)"
  define nl where "nl = int (length old + length b)"
  define nc where "nc = grow_cap (if fc_h_cap c = 0 then 4096 else fc_h_cap c * 2) (nl + 1)"
  define c1 where "c1 = c\<lparr>fc_h_buf := Some (old @ b), fc_h_cap := if nl + 1 > fc_h_cap c then nc else fc_h_cap c\<rparr>"
  have eq: "(if nl + 1 > fc_h_cap c \<and> \<not> api_realloc api nc
         then Some (put_slot i (c\<lparr>fc_h_buf := None, fc_err := Some ''OOM'', fc_state := MFS_FAIL\<rparr>) w)
         else if strstr_split [CR, LF, CR, LF] (cstr (old @ b)) \<noteq> None then mfs_parse_headers api i (put_slot i c1 w) else Some (put_slot i c1 w)) = Some w'"
    using assms(1) unfolding mfs_header_bytes_def Let_def c_def [symmetric] old_def [symmetric] nl_def [symmetric] nc_def [symmetric] c1_def [symmetric] .
  have l1: "live_step i w (put_slot i c1 w)"
    using assms(2,3) by (intro live_put [where c = c1 and evs = "[]"]) (simp_all add: c1_def c_def same_fetch_def)
  have p: "mfs_parse_headers api i (put_slot i c1 w) = Some w' \<Longrightarrow> live_step i w w' \<or> over_step i w w'"
  proof -
    assume ph: "mfs_parse_headers api i (put_slot i c1 w) = Some w'"
    have "i < length (f_slots (put_slot i c1 w))" "fc_state (slot (put_slot i c1 w) i) = MFS_HEADERS"
      using assms(2,3) by (simp_all add: c1_def c_def)
    from parse_headers_step [OF ph this] show ?thesis using l1 live_trans live_over by blast
  qed
  have f: "live_step i w (put_slot i (c\<lparr>fc_h_buf := None, fc_err := Some ''OOM'', fc_state := MFS_FAIL\<rparr>) w)"
    using assms(2) by (intro live_put [where c = "c\<lparr>fc_h_buf := None, fc_err := Some ''OOM'', fc_state := MFS_FAIL\<rparr>" and evs = "[]"])
      (simp_all add: c_def same_fetch_def)
  show ?thesis using eq p f l1 by (auto split: if_splits)
qed

lemma receive_step:
  assumes "mfs_receive api i w = Some w'" "i < length (f_slots w)" "fc_state (slot w i) = MFS_HEADERS \<or> fc_state (slot w i) = MFS_BODY"
  shows "live_step i w w' \<or> over_step i w w'"
proof -
  define c where "c = slot w i"
  obtain r n1 where r: "(case fc_ep c of None \<Rightarrow> (RcvErr, net w) | Some ep \<Rightarrow> OTRcv (api_ot api) ep RECV_B (net w)) = (r, n1)" by fastforce
  have put: "live_step i w ((put_slot i x (w\<lparr>net := n\<rparr>)))" if "same_fetch c x" "fc_state x \<noteq> MFS_IDLE" "fc_state x \<noteq> MFS_NOTIFIED" for x n
    using that assms(2) by (intro live_put [where c = x and evs = "[]"]) (simp_all add: c_def)
  have id: "w\<lparr>net := n1\<rparr> = put_slot i c (w\<lparr>net := n1\<rparr>)" using assms(2) by (simp add: put_slot_def c_def)
  have cs: "fc_state c \<noteq> MFS_IDLE" "fc_state c \<noteq> MFS_NOTIFIED" using assms(3) by (auto simp: c_def)
  note put' = put [of c n1, folded id]
  note eq = assms(1) [unfolded mfs_receive_def c_def [symmetric] r prod.case Let_def]
  show ?thesis
  proof (cases r)
    case (Rcv b)
    show ?thesis
    proof (cases "b = []")
      case True
      then show ?thesis using eq Rcv put [of "c\<lparr>fc_keep_alive_ok := False, fc_state := MFS_DONE\<rparr>" n1] by simp
    next
      case False
      define c1 where "c1 = c\<lparr>fc_progress_ticks := ot_TickCount (api_ot api) n1\<rparr>"
      define w2 where "w2 = put_slot i c1 (w\<lparr>net := n1\<rparr>)"
      have sf: "same_fetch c c1" "fc_state c1 = fc_state c" by (simp_all add: c1_def same_fetch_def)
      have w2: "i < length (f_slots w2)" "slot w2 i = c1" using assms(2) by (simp_all add: w2_def)
      have l2: "live_step i w w2" unfolding w2_def using sf cs by (intro put) simp_all
      show ?thesis
      proof (cases "fc_state c1 = MFS_HEADERS")
        case True
        then have "mfs_header_bytes api i b w2 = Some w'" using eq Rcv False by (simp add: c1_def w2_def)
        then have "live_step i w2 w' \<or> over_step i w2 w'" using w2 True by (intro header_bytes_step) simp_all
        then show ?thesis using l2 live_trans live_over by blast
      next
        case nh: False
        then obtain c2 evs where b: "mfs_body api b c1 = Some (c2, evs)" "w' = put_slot i c2 (emit evs w2)"
          using eq Rcv False by (auto simp: c1_def w2_def)
        note bs = body_same [OF b(1)]
        have "live_step i w2 w'"
          using bs w2 sf cs b(2) assms(3) by (intro live_put [where c = c2 and evs = evs]) (auto simp: c_def)
        then show ?thesis using l2 live_trans by blast
      qed
    qed
  next
    case kOTNoDataErr
    then show ?thesis using eq put' cs by simp
  next
    case kOTLookErr
    then obtain ep where ep: "fc_ep c = Some ep" using r by (cases "fc_ep c") auto
    obtain l n2 where l: "OTLook (api_ot api) ep n1 = (l, n2)" by fastforce
    show ?thesis using eq kOTLookErr ep l put [of "c\<lparr>fc_keep_alive_ok := False, fc_state := MFS_DONE\<rparr>" n2]
        put [of "c\<lparr>fc_err := Some ''OT error'', fc_state := MFS_FAIL\<rparr>" n2]
      by (auto simp: same_fetch_def split: if_splits)
  next
    case RcvErr
    then show ?thesis using eq put [of "c\<lparr>fc_err := Some ''OT error'', fc_state := MFS_FAIL\<rparr>" n1] by (simp add: same_fetch_def)
  qed
qed

lemma serve_hit_live: "i < length (f_slots w) \<Longrightarrow> live_step i w (mfs_serve_hit i body w)"
  unfolding mfs_serve_hit_def Let_def
  by (rule live_put [where c = "(slot w i)\<lparr>body_bytes := int (length body), fc_state := MFS_DONE\<rparr>"
      and evs = "(if fc_cache_hit_mime (slot w i) \<noteq> [] then [Callback (fc_parent (slot w i)) (FETCH_HEADER (''Content-Type: '' @ fc_cache_hit_mime (slot w i)))] else [])
               @ [SetHttpCode (fc_parent (slot w i)) (fc_cache_hit_status (slot w i)), Callback (fc_parent (slot w i)) (FETCH_DATA body)]"])
    (simp_all add: same_fetch_def)

definition in_flight :: "macos9_fetch_ctx \<Rightarrow> bool" where
  "in_flight c \<longleftrightarrow> fc_state c \<in> {MFS_QUEUED, MFS_INIT, MFS_HEADERS, MFS_BODY}"

lemma poll_one_step:
  assumes "mfs_poll_one api i w = Some w'" "i < length (f_slots w)" "in_flight (slot w i)"
  shows "live_step i w w' \<or> over_step i w w'"
proof -
  have st: "fc_state (slot w i) \<noteq> MFS_IDLE" "fc_state (slot w i) \<noteq> MFS_NOTIFIED" using assms(3) by (auto simp: in_flight_def)
  consider (aborted) "fc_aborted (slot w i)" | (queued) "\<not> fc_aborted (slot w i)" "fc_state (slot w i) = MFS_QUEUED"
    | (init) "\<not> fc_aborted (slot w i)" "fc_state (slot w i) = MFS_INIT"
    | (run) "\<not> fc_aborted (slot w i)" "fc_state (slot w i) = MFS_HEADERS \<or> fc_state (slot w i) = MFS_BODY"
    using assms(3) by (auto simp: in_flight_def)
  then show ?thesis
  proof cases
    case aborted
    then have "w' = put_slot i ((slot w i)\<lparr>fc_state := MFS_DONE, fc_keep_alive_ok := False\<rparr>) w" using assms(1) st by (simp add: mfs_poll_one_def Let_def)
    then have "live_step i w w'"
      using assms(2) by (intro live_put [where c = "(slot w i)\<lparr>fc_state := MFS_DONE, fc_keep_alive_ok := False\<rparr>" and evs = "[]"]) simp_all
    then show ?thesis ..
  next
    case queued
    then have "w' = w" using assms(1) by (simp add: mfs_poll_one_def Let_def)
    then show ?thesis using st live_quiet [OF quiet_step_refl, of w i] by simp
  next
    case init
    obtain r w1 where o: "mfs_open api i w = (r, w1)" by fastforce
    note q = open_quiet [OF o assms(2)]
    let ?c = "(slot w1 i)\<lparr>fc_state := if r \<noteq> 0 then MFS_HEADERS else MFS_FAIL\<rparr>"
    have l1: "i < length (f_slots w1)" using quiet_length [OF q] assms(2) by simp
    have "w' = put_slot i ?c w1" using assms(1) init o by (simp add: mfs_poll_one_def Let_def)
    then have q2: "quiet_step i w1 w'" "slot w' i = ?c"
      using l1 by (auto intro!: quiet_step_put [where c = ?c] simp: same_fetch_def)
    have "live_step i w w'" using quiet_step_trans [OF q q2(1)] q2(2) by (intro live_quiet) simp_all
    then show ?thesis ..
  next
    case run
    then have "mfs_receive api i w = Some w' \<or> (\<exists>body. w' = mfs_serve_hit i body w)"
      using assms(1) by (auto simp: mfs_poll_one_def Let_def split: option.splits if_splits)
    then show ?thesis using receive_step [OF _ assms(2) run(2)] serve_hit_live [OF assms(2)] by blast
  qed
qed

lemma poll_fail_over:
  assumes "http_poll_fail api i w = Some w'" "i < length (f_slots w)"
  shows "over_step i w w'"
proof -
  define c where "c = slot w i"
  define w1 where "w1 = (if fc_pool_key c \<noteq> [] \<and> fc_pool_key c \<noteq> ''PROXY''
                then w\<lparr>hosts := macsurf_scheme_mark_http_failed (Some (fc_pool_key c)) (hosts w)\<rparr> else w)"
  have w1: "f_slots w1 = f_slots w" "events w1 = events w" "dcache w1 = dcache w" by (simp_all add: w1_def)
  note eq = assms(1) [unfolded http_poll_fail_def Let_def c_def [symmetric] w1_def [symmetric]]
  show ?thesis
  proof (cases "https_fallback c (hosts w1)")
    case None
    then have "fetch_release api i (put_slot i (c\<lparr>fc_state := MFS_NOTIFIED\<rparr>) (emit [Callback (fc_parent c) (FETCH_ERROR (fc_err c))] w1)) = Some w'"
      using eq by simp
    from release_over [OF this assms(2), where evs = "[]" and m = "FETCH_ERROR (fc_err c)"] w1 show ?thesis by (simp add: c_def)
  next
    case (Some r)
    then have "fetch_release api i (put_slot i (c\<lparr>fc_redirect_url := r, fc_state := MFS_NOTIFIED\<rparr>)
        (emit [SetHttpCode (fc_parent c) 301, Callback (fc_parent c) (FETCH_REDIRECT r)] w1)) = Some w'"
      using eq by simp
    from release_over [OF this assms(2), where evs = "[SetHttpCode (fc_parent c) 301]" and m = "FETCH_REDIRECT r"] w1
    show ?thesis by (simp add: c_def)
  qed
qed

lemma poll_done_over:
  assumes "http_poll_done api i w = Some w'" "i < length (f_slots w)"
  shows "over_step i w w'"
proof -
  define c where "c = (slot w i)\<lparr>fc_state := MFS_NOTIFIED\<rparr>"
  define w0 where "w0 = (emit [Callback (fc_parent c) FETCH_FINISHED] w)\<lparr>dcache := http_store_capture api c (dcache w)\<rparr>"
  have w0: "f_slots w0 = f_slots w" "events w0 = events w @ [Callback (fc_parent (slot w i)) FETCH_FINISHED]"
    by (simp_all add: w0_def c_def)
  have post: "\<not> cache_eligible (slot w i) \<longrightarrow> dcache w0 = dcache w"
    by (simp add: w0_def c_def http_store_capture_def)
  have ov: "over_step i w w'" if "fetch_release api i (put_slot i x y) = Some w'" "same_fetch (slot w i) x"
    "f_slots y = f_slots w" "events y = events w0" "dcache y = dcache w0" for x y
    using release_over [OF that(1) assms(2) that(3,2), where evs = "[]" and m = FETCH_FINISHED] that(4,5) w0(2) post by simp
  have w1: "(put_slot i c (emit [Callback (fc_parent c) FETCH_FINISHED] w))\<lparr>dcache := http_store_capture api c (dcache w)\<rparr> = put_slot i c w0"
    by (simp add: w0_def put_slot_def emit_def)
  have sc: "same_fetch (slot w i) c" "same_fetch (slot w i) (c\<lparr>fc_ep := None\<rparr>)" by (simp_all add: c_def same_fetch_def)
  note eq = assms(1) [unfolded http_poll_done_def Let_def c_def [symmetric] w1]
  show ?thesis
  proof (cases "fc_keep_alive_ok c \<and> \<not> fc_aborted c \<and> fc_ep c \<noteq> None \<and> fc_pool_key c \<noteq> []")
    case False
    then have "fetch_release api i (put_slot i c w0) = Some w'" using eq by (simp only: if_False)
    then show ?thesis using w0 sc by (intro ov) simp_all
  next
    case True
    then obtain pool n where "fetch_release api i ((put_slot i (c\<lparr>fc_ep := None\<rparr>) (put_slot i c w0))\<lparr>ep_pool := pool, net := n\<rparr>) = Some w'"
      using eq by (simp only: if_True) (auto simp: bind_eq_Some_conv)
    moreover have "(put_slot i (c\<lparr>fc_ep := None\<rparr>) (put_slot i c w0))\<lparr>ep_pool := pool, net := n\<rparr>
        = put_slot i (c\<lparr>fc_ep := None\<rparr>) (w0\<lparr>ep_pool := pool, net := n\<rparr>)"
      by (simp add: put_slot_def)
    ultimately show ?thesis using w0 sc by (intro ov [of "c\<lparr>fc_ep := None\<rparr>" "w0\<lparr>ep_pool := pool, net := n\<rparr>"]) simp_all
  qed
qed

lemma poll_slot_step:
  assumes "http_poll_slot api now i w = Some w'" "i < length (f_slots w)" "in_flight (slot w i)"
  shows "live_step i w w' \<and> in_flight (slot w' i) \<or> over_step i w w'"
proof -
  let ?c = "(slot w i)\<lparr>fc_err := Some ''Connection timed out'', fc_state := MFS_FAIL, fc_keep_alive_ok := False\<rparr>"
  have st: "fc_state (slot w i) \<noteq> MFS_IDLE" "fc_state (slot w i) \<noteq> MFS_NOTIFIED" using assms(3) by (auto simp: in_flight_def)
  obtain w1 where w1: "(if (fc_state (slot w i) = MFS_HEADERS \<or> fc_state (slot w i) = MFS_BODY) \<and> now - fc_progress_ticks (slot w i) > 240
         then Some (put_slot i ?c w) else mfs_poll_one api i w) = Some w1"
    "(if fc_state (slot w1 i) = MFS_FAIL then http_poll_fail api i w1
              else if fc_state (slot w1 i) = MFS_DONE then http_poll_done api i w1 else Some w1) = Some w'"
    using assms(1) st unfolding http_poll_slot_def Let_def by (simp only: if_False simp_thms) (auto simp: bind_eq_Some_conv)
  have t: "live_step i w (put_slot i ?c w)"
    using assms(2) by (intro live_put [where c = ?c and evs = "[]"]) (simp_all add: same_fetch_def)
  have s: "live_step i w w1 \<or> over_step i w w1"
    using w1(1) t poll_one_step [OF _ assms(2,3)] by (auto split: if_splits)
  have l: "i < length (f_slots w1)" using s assms(2) by (auto simp: live_step_def over_step_def only_slot_def slot_frame_def)
  from s show ?thesis
  proof
    assume o: "over_step i w w1"
    then have "w' = w1" using w1(2) by (simp add: over_step_def)
    then show ?thesis using o by simp
  next
    assume lv: "live_step i w w1"
    have "over_step i w1 w' \<or> w' = w1 \<and> fc_state (slot w1 i) \<noteq> MFS_FAIL \<and> fc_state (slot w1 i) \<noteq> MFS_DONE"
      using w1(2) poll_fail_over [OF _ l] poll_done_over [OF _ l] by (auto split: if_splits)
    then show ?thesis
    proof
      assume "over_step i w1 w'"
      then show ?thesis using live_over [OF lv] by blast
    next
      assume a: "w' = w1 \<and> fc_state (slot w1 i) \<noteq> MFS_FAIL \<and> fc_state (slot w1 i) \<noteq> MFS_DONE"
      moreover have "fc_state (slot w1 i) \<noteq> MFS_IDLE" "fc_state (slot w1 i) \<noteq> MFS_NOTIFIED" using lv by (auto simp: live_step_def)
      ultimately have "in_flight (slot w' i)" by (cases "fc_state (slot w1 i)") (auto simp: in_flight_def)
      then show ?thesis using lv a by simp
    qed
  qed
qed

section \<open>The fetcher is a slot fetcher\<close>

definition http_idle :: "macos9_fetch_ctx \<Rightarrow> bool" where
  "http_idle c \<longleftrightarrow> fc_state c = MFS_IDLE"

lemma http_poll_from_all: "http_poll_from api now is = poll_all (http_poll_slot api now) is"
proof (induction "is")
  case (Cons i "is")
  then show ?case by (intro ext) simp
qed (intro ext, simp)

interpretation http: slot_fetcher f_slots events in_flight http_idle fc_parent "\<lambda>_. True" "http_poll_slot api now"
  for api :: "('fs, 'ot) sysapi" and now
proof
  fix c assume "in_flight c" then show "\<not> http_idle c" by (auto simp: in_flight_def http_idle_def)
next
  fix w :: "('fs, 'ot) http_world" and i
  assume "http_idle (slot w i)" then show "http_poll_slot api now i w = Some w" by (simp add: http_poll_slot_def http_idle_def Let_def)
next
  fix i and w w' :: "('fs, 'ot) http_world"
  assume a: "http_poll_slot api now i w = Some w'" "i < length (f_slots w)" "in_flight (slot w i)"
  note st = poll_slot_step [OF a]
  show "slot_frame fc_parent i (f_slots w) (f_slots w') \<and> True"
    using st by (auto simp: live_step_def over_step_def only_slot_def slot_frame_def)
  show "in_flight (slot w' i) \<and> runs (fc_parent (slot w i)) (events w) (events w')
     \<or> http_idle (slot w' i) \<and> ends (fc_parent (slot w i)) (events w) (events w')"
    using st by (auto simp: live_step_def over_step_def http_idle_def runs_def ends_def)
qed

abbreviation http_slots_ok :: "('fs, 'ot) http_world \<Rightarrow> bool" where
  "http_slots_ok w \<equiv> slots_wf in_flight http_idle fc_parent (\<lambda>_. True) (f_slots w)"

section \<open>A world to run in\<close>

definition sample_url :: nsurl where
  "sample_url = \<lparr>url_string = ''http://a.com/x'', url_scheme = Some ''http'', url_host = Some ''a.com'', url_port = None,
     url_path = Some ''/x'', url_query = None\<rparr>"

definition sample_api :: "(memfs, ticks) sysapi" where
  "sample_api = \<lparr>api_fm = mem_fm, api_ot = quiet_ot, api_malloc = (\<lambda>_. True), api_realloc = (\<lambda>_. True)\<rparr>"

definition idle_slot :: macos9_fetch_ctx where
  "idle_slot = (fresh_slot 0 sample_url RC_OTHER)\<lparr>fc_state := MFS_IDLE, fc_url := None\<rparr>"

definition idle_world :: "(memfs, ticks) http_world" where
  "idle_world = \<lparr>f_slots = replicate MAX_F idle_slot, ep_pool = [], pending_document = False,
     stats = \<lparr>rgov_skip_doc = 0, rgov_skip_css = 0, rgov_skip_img = 0, rgov_skip_script = 0, rgov_skip_font = 0,
       rgov_skip_other = 0, site_heavy = False, fetch_slot_fail = 0, fetch_active_peak = 0\<rparr>,
     hosts = no_hosts, dcache = mem_empty, net = 0, events = []\<rparr>"

text \<open>One fetch set up, started and aborted.\<close>

definition aborted_world :: "(memfs, ticks) http_world" where
  "aborted_world = macos9_http_abort 0 (snd (macos9_http_setup sample_api 7 sample_url None idle_world))"

lemma poll_from_idle: "\<forall>i \<in> set is. fc_state (slot w i) = MFS_IDLE \<Longrightarrow> http_poll_from api now is w = Some w"
  by (induction "is") (simp_all add: http_poll_slot_def Let_def)

lemma aborted_slots:
  "f_slots aborted_world = ((fresh_slot 7 sample_url RC_OTHER)\<lparr>fc_aborted := True\<rparr>) # replicate 63 idle_slot"
  "in_flight (slot aborted_world 0)" "fc_parent (slot aborted_world 0) = 7"
proof -
  show a: "f_slots aborted_world = ((fresh_slot 7 sample_url RC_OTHER)\<lparr>fc_aborted := True\<rparr>) # replicate 63 idle_slot"
    by code_simp
  show "in_flight (slot aborted_world 0)" "fc_parent (slot aborted_world 0) = 7"
    by (simp_all add: a in_flight_def fresh_slot_def)
qed

lemma aborted_ok: "http_slots_ok aborted_world" "length (f_slots aborted_world) = MAX_F"
proof -
  have i: "slot aborted_world j = idle_slot" if "0 < j" "j < 64" for j
    using that by (cases j) (simp_all add: aborted_slots)
  then have "j < 64 \<Longrightarrow> in_flight (slot aborted_world j) \<longleftrightarrow> j = 0" for j
    using aborted_slots(2) by (cases "j = 0") (simp_all add: in_flight_def idle_slot_def fresh_slot_def)
  moreover have "0 < j \<Longrightarrow> j < 64 \<Longrightarrow> fc_state (slot aborted_world j) = MFS_IDLE" for j
    using i [of j] by (simp add: idle_slot_def)
  moreover show len: "length (f_slots aborted_world) = MAX_F"
    unfolding aborted_slots(1) list.size(4) length_replicate by (simp add: MAX_F_def)
  moreover have "MAX_F = 64" by (simp add: MAX_F_def)
  ultimately show "http_slots_ok aborted_world" unfolding slots_wf_def http_idle_def by (metis gr0I)
qed

lemma aborted_poll: "\<exists>w'. macos9_http_poll sample_api aborted_world = Some w' \<and> fc_state (slot w' 0) = MFS_IDLE"
proof -
  define now where "now = ot_TickCount (api_ot sample_api) (net aborted_world)"
  obtain w' where w': "http_poll_slot sample_api now 0 aborted_world = Some w'"
    "f_slots w' = idle_slot\<lparr>fc_parent := 7, fc_aborted := True, fc_keep_alive_ok := False\<rparr> # replicate 63 idle_slot"
    by (simp add: http_poll_slot_def mfs_poll_one_def http_poll_done_def fetch_release_def macos9_http_free_def mfs_close_def Let_def
        aborted_slots(1) fresh_slot_def idle_slot_def)
  have "http_poll_from sample_api now [1..<64] w' = Some w'"
    using w'(2) by (intro poll_from_idle) (auto simp: nth_Cons' idle_slot_def)
  then show ?thesis using w' by (simp add: macos9_http_poll_def now_def MAX_F_def upt_conv_Cons idle_slot_def)
qed

section \<open>Properties\<close>



end
