(* ===== verification/HttpsSteps.thy ===== *)
theory HttpsSteps
  imports HttpsFetcher HttpProps
begin

text \<open>
  The slot invariant of the HTTPS fetcher (every buffer within its C array, a connection exactly
  in the states that use one) and what the parts of a poll do to a slot: failing, finishing,
  capturing, parsing headers, feeding the body.
\<close>

section \<open>The slot invariant\<close>

definition hx_hdr_len :: "'d macos9_https_ctx \<Rightarrow> int" where
  "hx_hdr_len c = (case hx_hdr_buf c of None \<Rightarrow> 0 | Some h \<Rightarrow> int (length h))"

text \<open>Every fixed-size or bounded buffer of the slot.\<close>

definition hx_bounds :: "'d macos9_https_ctx \<Rightarrow> bool" where
  "hx_bounds c \<longleftrightarrow> length (hx_host c) < 256 \<and> length (hx_path c) < 1024 \<and> length (hx_pool_key c) < HTTPS_POOL_KEY_LEN
     \<and> length (hx_mime c) < 128 \<and> length (hx_redirect_url c) < 1024 \<and> length (hx_req_buf c) < REQ_BUF
     \<and> hx_hdr_len c \<le> hx_hdr_cap c \<and> hx_hdr_cap c \<le> HDR_BUF_MAX \<and> (hx_hdr_buf c = None \<or> 0 < hx_hdr_cap c)
     \<and> hx_cap_len c \<le> hx_cache_cap_cap c \<and> hx_cache_cap_cap c \<le> MACSURF_CACHE_MAX_BYTES
     \<and> hx_retries c \<le> HTTPS_MAX_RETRIES"

lemma len_simps [simp]:
  "hx_hdr_len (c\<lparr>hx_state := s\<rparr>) = hx_hdr_len c" "hx_hdr_len (c\<lparr>hx_conn := k\<rparr>) = hx_hdr_len c" "hx_hdr_len (c\<lparr>hx_err := e\<rparr>) = hx_hdr_len c"
  "hx_hdr_len (c\<lparr>hx_redirect_url := r\<rparr>) = hx_hdr_len c" "hx_hdr_len (c\<lparr>hx_progress_ticks := t\<rparr>) = hx_hdr_len c"
  "hx_hdr_len (c\<lparr>hx_from_pool := b\<rparr>) = hx_hdr_len c" "hx_hdr_len (c\<lparr>hx_req_buf := q\<rparr>) = hx_hdr_len c"
  "hx_hdr_len (c\<lparr>hx_req_sent := n\<rparr>) = hx_hdr_len c" "hx_hdr_len (c\<lparr>hx_post_body_sent := n\<rparr>) = hx_hdr_len c"
  "hx_hdr_len (c\<lparr>hx_chunk := d\<rparr>) = hx_hdr_len c" "hx_hdr_len (c\<lparr>hx_chunked := b\<rparr>) = hx_hdr_len c"
  "hx_hdr_len (c\<lparr>hx_body_bytes := z\<rparr>) = hx_hdr_len c" "hx_hdr_len (c\<lparr>hx_cache_eligible := b\<rparr>) = hx_hdr_len c"
  "hx_hdr_len (c\<lparr>hx_keep_alive_ok := b\<rparr>) = hx_hdr_len c" "hx_hdr_len (c\<lparr>hx_status := z\<rparr>) = hx_hdr_len c"
  "hx_hdr_len (c\<lparr>hx_retries := n\<rparr>) = hx_hdr_len c" "hx_hdr_len (c\<lparr>hx_hdr_cap := z\<rparr>) = hx_hdr_len c"
  "hx_hdr_len (c\<lparr>hx_started := b\<rparr>) = hx_hdr_len c" "hx_hdr_len (c\<lparr>hx_aborted := b\<rparr>) = hx_hdr_len c"
  "hx_cap_len (c\<lparr>hx_state := s\<rparr>) = hx_cap_len c" "hx_cap_len (c\<lparr>hx_conn := k\<rparr>) = hx_cap_len c" "hx_cap_len (c\<lparr>hx_err := e\<rparr>) = hx_cap_len c"
  "hx_cap_len (c\<lparr>hx_redirect_url := r\<rparr>) = hx_cap_len c" "hx_cap_len (c\<lparr>hx_progress_ticks := t\<rparr>) = hx_cap_len c"
  "hx_cap_len (c\<lparr>hx_from_pool := b\<rparr>) = hx_cap_len c" "hx_cap_len (c\<lparr>hx_req_buf := q\<rparr>) = hx_cap_len c"
  "hx_cap_len (c\<lparr>hx_req_sent := n\<rparr>) = hx_cap_len c" "hx_cap_len (c\<lparr>hx_post_body_sent := n\<rparr>) = hx_cap_len c"
  "hx_cap_len (c\<lparr>hx_chunk := d\<rparr>) = hx_cap_len c" "hx_cap_len (c\<lparr>hx_chunked := b\<rparr>) = hx_cap_len c"
  "hx_cap_len (c\<lparr>hx_body_bytes := z\<rparr>) = hx_cap_len c" "hx_cap_len (c\<lparr>hx_cache_eligible := b\<rparr>) = hx_cap_len c"
  "hx_cap_len (c\<lparr>hx_keep_alive_ok := b\<rparr>) = hx_cap_len c" "hx_cap_len (c\<lparr>hx_status := z\<rparr>) = hx_cap_len c"
  "hx_cap_len (c\<lparr>hx_retries := n\<rparr>) = hx_cap_len c" "hx_cap_len (c\<lparr>hx_hdr_cap := z\<rparr>) = hx_cap_len c"
  "hx_cap_len (c\<lparr>hx_started := b\<rparr>) = hx_cap_len c" "hx_cap_len (c\<lparr>hx_aborted := b\<rparr>) = hx_cap_len c"
  "hx_cap_len (c\<lparr>hx_hdr_buf := h\<rparr>) = hx_cap_len c" "hx_cap_len (c\<lparr>hx_mime := m\<rparr>) = hx_cap_len c"
  "hx_cap_len (c\<lparr>hx_content_length := z\<rparr>) = hx_cap_len c" "hx_hdr_len (c\<lparr>hx_mime := m\<rparr>) = hx_hdr_len c"
  "hx_hdr_len (c\<lparr>hx_content_length := z\<rparr>) = hx_hdr_len c" "hx_hdr_len (c\<lparr>hx_cache_capture := b'\<rparr>) = hx_hdr_len c"
  "hx_hdr_len (c\<lparr>hx_cache_cap_cap := z\<rparr>) = hx_hdr_len c" "hx_hdr_len (c\<lparr>hx_cache_overflow := b\<rparr>) = hx_hdr_len c"
  "hx_cap_len (c\<lparr>hx_cache_cap_cap := z\<rparr>) = hx_cap_len c" "hx_cap_len (c\<lparr>hx_cache_overflow := b\<rparr>) = hx_cap_len c"
  by (simp_all add: hx_hdr_len_def hx_cap_len_def)

text \<open>The states in which the slot holds a connection.\<close>

definition hx_connected :: "'d macos9_https_ctx \<Rightarrow> bool" where
  "hx_connected c \<longleftrightarrow> hx_state c \<in> {HS_TLSING, HS_SEND_REQ, HS_HEADERS, HS_BODY}"

definition hs_busy :: "'d macos9_https_ctx \<Rightarrow> bool" where
  "hs_busy c \<longleftrightarrow> hx_connected c \<or> hx_state c = HS_QUEUED \<or> hx_state c = HS_CACHEHIT"

definition hs_idle :: "'d macos9_https_ctx \<Rightarrow> bool" where
  "hs_idle c \<longleftrightarrow> hx_state c = HS_IDLE"

definition hctx_ok :: "'d macos9_https_ctx \<Rightarrow> bool" where
  "hctx_ok c \<longleftrightarrow> hx_bounds c \<and> (hs_busy c \<or> hs_idle c) \<and> (hx_conn c \<noteq> None \<longleftrightarrow> hx_connected c)"

lemma hput_simps [simp]:
  "https_slots (hput i c w) = (https_slots w)[i := c]" "hs_events (hput i c w) = hs_events w" "hs_tls (hput i c w) = hs_tls w"
  "https_pool (hput i c w) = https_pool w" "hs_hosts (hput i c w) = hs_hosts w" "hs_dcache (hput i c w) = hs_dcache w"
  by (simp_all add: hput_def)

lemma hemit_simps [simp]:
  "https_slots (hemit es w) = https_slots w" "hs_events (hemit es w) = hs_events w @ es" "hs_tls (hemit es w) = hs_tls w"
  "https_pool (hemit es w) = https_pool w" "hs_hosts (hemit es w) = hs_hosts w" "hs_dcache (hemit es w) = hs_dcache w"
  by (simp_all add: hemit_def)

lemmas hx_state_defs = hx_connected_def hs_busy_def hs_idle_def

lemma busy_not_over: "hs_busy c \<Longrightarrow> hx_state c \<noteq> HS_FAIL \<and> hx_state c \<noteq> HS_DONE"
  by (auto simp: hx_state_defs)

section \<open>Running and ended slots\<close>

definition hlive :: "nat \<Rightarrow> ('fs, 't, 'd) https_world \<Rightarrow> ('fs, 't, 'd) https_world \<Rightarrow> bool" where
  "hlive i w w' \<longleftrightarrow> slot_frame hx_parent i (https_slots w) (https_slots w') \<and> hctx_ok (hslot w' i) \<and> hs_busy (hslot w' i)
     \<and> runs (hx_parent (hslot w i)) (hs_events w) (hs_events w')"

definition hover :: "nat \<Rightarrow> ('fs, 't, 'd) https_world \<Rightarrow> ('fs, 't, 'd) https_world \<Rightarrow> bool" where
  "hover i w w' \<longleftrightarrow> slot_frame hx_parent i (https_slots w) (https_slots w') \<and> hctx_ok (hslot w' i) \<and> hs_idle (hslot w' i)
     \<and> ends (hx_parent (hslot w i)) (hs_events w) (hs_events w')"

lemma hlive_trans: "hlive i w w1 \<Longrightarrow> hlive i w1 w2 \<Longrightarrow> hlive i w w2"
  unfolding hlive_def by (auto intro: slot_frame_trans runs_trans simp: slot_frame_def)

lemma hlive_hover: "hlive i w w1 \<Longrightarrow> hover i w1 w2 \<Longrightarrow> hover i w w2"
  unfolding hlive_def hover_def by (auto intro: slot_frame_trans runs_ends simp: slot_frame_def)

lemma hlive_length: "hlive i w w' \<Longrightarrow> length (https_slots w') = length (https_slots w)"
  by (simp add: hlive_def slot_frame_def)

text \<open>A step that only writes the slot and sends events of a running fetch.\<close>

lemma hlive_put:
  assumes "i < length (https_slots w)" "https_slots w' = (https_slots w)[i := c]" "hs_events w' = hs_events w @ evs"
    and "hx_parent c = hx_parent (hslot w i)" "hctx_ok c" "hs_busy c" "\<forall>e \<in> set evs. running_ev (hx_parent (hslot w i)) e"
  shows "hlive i w w'"
  using assms by (simp add: hlive_def slot_frame_update)

lemma hlive_same:
  assumes "https_slots w' = https_slots w" "hs_events w' = hs_events w" "hctx_ok (hslot w i)" "hs_busy (hslot w i)"
  shows "hlive i w w'"
  using assms by (simp add: hlive_def)

lemma release_hover:
  assumes "i < length (https_slots w)" "https_slots y = https_slots w" "hs_events y = hs_events w @ evs @ [Callback (hx_parent (hslot w i)) m]"
    and "terminal m" "\<forall>e \<in> set evs. running_ev (hx_parent (hslot w i)) e" "hx_bounds c" "hx_parent c = hx_parent (hslot w i)"
  shows "hover i w (hctx_release api i (hput i c y))"
proof -
  let ?c = "c\<lparr>hx_hdr_buf := None, hx_hdr_cap := 0, hx_conn := None, hx_cache_capture := None, hx_cache_cap_cap := 0,
                 hx_cache_hit_body := None, hx_post_body := None, hx_post_body_sent := 0, hx_url := None, hx_state := HS_IDLE\<rparr>"
  have sl: "https_slots (hctx_release api i (hput i c y)) = (https_slots w)[i := ?c]"
    using assms(1,2) by (simp add: hctx_release_def hctx_clear_def macos9_https_free_def Let_def)
  have "hx_bounds ?c" using assms(6) by (simp add: hx_bounds_def hx_cap_len_def hx_hdr_len_def HDR_BUF_MAX_def MACSURF_CACHE_MAX_BYTES_def)
  then have "hctx_ok ?c" "hs_idle ?c" by (simp_all add: hctx_ok_def hx_state_defs)
  moreover have "hs_events (hctx_release api i (hput i c y)) = hs_events w @ evs @ [Callback (hx_parent (hslot w i)) m,
      RemoveFromQueues (hx_parent (hslot w i)), FreeFetch (hx_parent (hslot w i))]"
    using assms(1-3,7) by (simp add: hctx_release_def hctx_clear_def macos9_https_free_def Let_def)
  ultimately show ?thesis
    using assms(1,4,5,7) ends_intro [OF assms(4,5)] by (simp add: hover_def sl slot_frame_update)
qed

lemma fail_hover:
  assumes "i < length (https_slots w)" "hx_bounds (hslot w i)" "hx_state (hslot w i) \<noteq> HS_FAIL" "hx_state (hslot w i) \<noteq> HS_DONE"
  shows "hover i w (hctx_fail api i why w)"
proof -
  define c where "c = (hslot w i)\<lparr>hx_err := Some why, hx_state := HS_FAIL\<rparr>"
  define hs where "hs = (if hx_pool_key c \<noteq> [] then macsurf_scheme_mark_https_failed (Some (hx_pool_key c)) (hs_hosts w) else hs_hosts w)"
  have cb: "hx_bounds c" "hx_parent c = hx_parent (hslot w i)" using assms(2) by (simp_all add: c_def hx_bounds_def)
  have eq: "hctx_fail api i why w = (case http_fallback c hs of
              Some r \<Rightarrow> hctx_release api i
                  (hput i (c\<lparr>hx_redirect_url := r\<rparr>) (hemit [SetHttpCode (hx_parent c) 301, Callback (hx_parent c) (FETCH_REDIRECT r)] ((hput i c w)\<lparr>hs_hosts := hs\<rparr>)))
            | None \<Rightarrow> (let (hs2, fs2) = (if hx_pool_key c \<noteq> [] \<and> (why = why_timeout \<or> why = why_closed)
                                   then dead_host_add (ta_fm api) (Some (hx_pool_key c)) (hs, dc_fs (hs_dcache w)) else (hs, dc_fs (hs_dcache w)))
                 in hctx_release api i
                      (hemit [Callback (hx_parent c) (FETCH_ERROR (Some why))]
                        (((hput i c w)\<lparr>hs_hosts := hs\<rparr>)\<lparr>hs_hosts := hs2, hs_dcache := (hs_dcache w)\<lparr>dc_fs := fs2\<rparr>\<rparr>))))"
    using assms(3,4) unfolding hctx_fail_def Let_def c_def [symmetric] hs_def [symmetric] by simp
  show ?thesis
  proof (cases "http_fallback c hs")
    case (Some r)
    then have r: "length r < 1024" by (auto simp: http_fallback_def Let_def split: if_splits option.splits)
    have "hctx_fail api i why w = hctx_release api i (hput i (c\<lparr>hx_redirect_url := r\<rparr>)
        (hemit [SetHttpCode (hx_parent c) 301, Callback (hx_parent c) (FETCH_REDIRECT r)] (w\<lparr>hs_hosts := hs\<rparr>)))"
      using Some by (simp add: eq hput_def hemit_def)
    moreover have "hx_bounds (c\<lparr>hx_redirect_url := r\<rparr>)" using cb(1) r by (simp add: hx_bounds_def)
    ultimately show ?thesis using assms(1) cb(2)
      by (simp add: release_hover [where evs = "[SetHttpCode (hx_parent c) 301]" and m = "FETCH_REDIRECT r"])
  next
    case None
    obtain hs2 fs2 where d: "(if hx_pool_key c \<noteq> [] \<and> (why = why_timeout \<or> why = why_closed)
        then dead_host_add (ta_fm api) (Some (hx_pool_key c)) (hs, dc_fs (hs_dcache w)) else (hs, dc_fs (hs_dcache w))) = (hs2, fs2)"
      by fastforce
    have "hctx_fail api i why w = hctx_release api i (hput i c
        (hemit [Callback (hx_parent c) (FETCH_ERROR (Some why))] (w\<lparr>hs_hosts := hs2, hs_dcache := (hs_dcache w)\<lparr>dc_fs := fs2\<rparr>\<rparr>)))"
      unfolding eq None option.case d by (cases w) (simp add: hput_def hemit_def)
    then show ?thesis using assms(1) cb by (simp add: release_hover [where evs = "[]" and m = "FETCH_ERROR (Some why)"])
  qed
qed

lemma finish_hover:
  assumes "i < length (https_slots w)" "hx_bounds (hslot w i)" "hx_state (hslot w i) \<noteq> HS_FAIL" "hx_state (hslot w i) \<noteq> HS_DONE"
  shows "hover i w (hctx_finish api i w)"
proof -
  define c where "c = (hslot w i)\<lparr>hx_state := HS_DONE\<rparr>"
  define hs where "hs = (if hx_pool_key c \<noteq> [] \<and> 200 \<le> hx_status c \<and> hx_status c < 400 then success_host_add (Some (hx_pool_key c)) (hs_hosts w) else hs_hosts w)"
  define y where "y = hemit [Callback (hx_parent c) FETCH_FINISHED] (w\<lparr>hs_dcache := hctx_store api (hslot w i) (hs_dcache w), hs_hosts := hs\<rparr>)"
  have cb: "hx_bounds c" "hx_bounds (c\<lparr>hx_conn := None\<rparr>)" "hx_parent c = hx_parent (hslot w i)"
    using assms(2) by (simp_all add: c_def hx_bounds_def)
  have eq: "hctx_finish api i w = (case hx_conn c of
              Some k \<Rightarrow>
                if hx_keep_alive_ok c \<and> \<not> hx_aborted c \<and> hx_pool_key c \<noteq> [] \<and> OSTLS_GetState (ta_tls api) k (hs_tls w) = kOSTLSStateOpen
                then (let (pool, t) = https_pool_return (ta_tls api) (hx_pool_key c) (Some k) (https_pool w) (hs_tls w)
                      in hctx_release api i ((hput i (c\<lparr>hx_conn := None\<rparr>) (hput i c y))\<lparr>https_pool := pool, hs_tls := t\<rparr>))
                else hctx_release api i (hput i c y)
            | None \<Rightarrow> hctx_release api i (hput i c y))"
    using assms(3,4) unfolding hctx_finish_def Let_def c_def [symmetric] hs_def [symmetric] y_def [symmetric] by simp
  have y: "https_slots y = https_slots w" "hs_events y = hs_events w @ [Callback (hx_parent (hslot w i)) FETCH_FINISHED]"
    by (simp_all add: y_def cb)
  have plain: "hover i w (hctx_release api i (hput i c y))"
    using assms(1) cb y by (simp add: release_hover [where evs = "[]" and m = FETCH_FINISHED])
  have sw: "(hput i (c\<lparr>hx_conn := None\<rparr>) (hput i c y))\<lparr>https_pool := pool, hs_tls := t\<rparr>
      = hput i (c\<lparr>hx_conn := None\<rparr>) (y\<lparr>https_pool := pool, hs_tls := t\<rparr>)" for pool t by (cases y) (simp add: hput_def)
  have "hover i w (hctx_release api i ((hput i (c\<lparr>hx_conn := None\<rparr>) (hput i c y))\<lparr>https_pool := pool, hs_tls := t\<rparr>))" for pool t
    unfolding sw using assms(1) cb y
    by (intro release_hover [where evs = "[]" and m = FETCH_FINISHED]) simp_all
  then show ?thesis using plain unfolding eq by (auto split: option.split prod.split)
qed

section \<open>Headers and body\<close>

text \<open>The same fetch in the same state, with its buffers still in bounds.\<close>

definition hx_kept :: "'d macos9_https_ctx \<Rightarrow> 'd macos9_https_ctx \<Rightarrow> bool" where
  "hx_kept c c' \<longleftrightarrow> hx_parent c' = hx_parent c \<and> hx_state c' = hx_state c \<and> hx_conn c' = hx_conn c \<and> hx_hdr_buf c' = hx_hdr_buf c
     \<and> hx_post_body c' = hx_post_body c \<and> (hx_bounds c \<longrightarrow> hx_bounds c')"

lemma hx_kept_refl [simp]: "hx_kept c c"
  by (simp add: hx_kept_def)

lemma hx_kept_trans: "hx_kept c c1 \<Longrightarrow> hx_kept c1 c2 \<Longrightarrow> hx_kept c c2"
  by (simp add: hx_kept_def)

lemma kept_ok: "hx_kept c c' \<Longrightarrow> hctx_ok c \<Longrightarrow> hctx_ok c' \<and> hs_busy c' = hs_busy c \<and> hx_parent c' = hx_parent c"
  by (simp add: hx_kept_def hctx_ok_def hx_state_defs)

lemma cap_drop_kept: "hx_kept c (hx_cap_drop c)"
  by (auto simp: hx_cap_drop_def hx_kept_def hx_bounds_def hx_cap_len_def Let_def MACSURF_CACHE_MAX_BYTES_def)

lemma joined_kept:
  assumes "hx_cap_len c + int (length b) \<le> cap" "cap \<le> MACSURF_CACHE_MAX_BYTES"
  shows "hx_kept c (c\<lparr>hx_cache_cap_cap := cap, hx_cache_capture := Some (case hx_cache_capture c of None \<Rightarrow> b | Some a \<Rightarrow> a @ b)\<rparr>)"
  using assms by (auto simp: hx_kept_def hx_bounds_def hx_cap_len_def split: option.splits)

lemma capture_kept: "hx_kept c (hctx_cache_capture api b c)"
proof (cases "b = [] \<or> hx_cache_overflow c \<or> \<not> hx_cache_eligible c")
  case True
  then show ?thesis by (auto simp: hctx_cache_capture_def)
next
  case False
  define want where "want = hx_cap_len c + int (length b)"
  define cap0 where "cap0 = (if hx_cache_cap_cap c = 0 then 4096 else hx_cache_cap_cap c * 2)"
  define cap where "cap = min (grow_cap cap0 want) MACSURF_CACHE_MAX_BYTES"
  have eq: "hctx_cache_capture api b c =
      (if want > MACSURF_CACHE_MAX_BYTES then hx_cap_drop c
       else if want > hx_cache_cap_cap c
       then if \<not> ta_realloc api cap then hx_cap_drop c
            else c\<lparr>hx_cache_cap_cap := cap, hx_cache_capture := Some (case hx_cache_capture c of None \<Rightarrow> b | Some a \<Rightarrow> a @ b)\<rparr>
       else c\<lparr>hx_cache_capture := Some (case hx_cache_capture c of None \<Rightarrow> b | Some a \<Rightarrow> a @ b)\<rparr>)"
    using False unfolding hctx_cache_capture_def Let_def want_def [symmetric] cap0_def [symmetric] cap_def [symmetric] by simp
  show ?thesis
  proof (cases "hx_bounds c")
    case bounds: True
    then have "0 \<le> hx_cache_cap_cap c" by (auto simp: hx_bounds_def hx_cap_len_def split: option.splits)
    then have "0 < cap0" by (simp add: cap0_def)
    then have "want \<le> MACSURF_CACHE_MAX_BYTES \<Longrightarrow> want \<le> cap" using grow_cap_ge [of cap0 want] by (simp add: cap_def)
    moreover have "cap \<le> MACSURF_CACHE_MAX_BYTES" by (simp add: cap_def)
    moreover have "hx_cache_cap_cap c \<le> MACSURF_CACHE_MAX_BYTES" using bounds by (simp add: hx_bounds_def)
    moreover note joined_kept [of c b cap] joined_kept [of c b "hx_cache_cap_cap c"] cap_drop_kept [of c]
    ultimately show ?thesis unfolding eq by (auto simp: want_def)
  next
    case False
    then show ?thesis using cap_drop_kept [of c] unfolding eq by (auto simp: hx_kept_def)
  qed
qed

lemma deliver_kept: "hx_kept c (hs_deliver api d c)"
proof -
  have "hx_kept c (c\<lparr>hx_body_bytes := n\<rparr>)" for n by (simp add: hx_kept_def hx_bounds_def)
  then show ?thesis unfolding hs_deliver_def by (rule hx_kept_trans [OF _ capture_kept])
qed

lemma chunk_kept [simp]: "hx_kept c (c\<lparr>hx_chunk := d\<rparr>)" "hx_kept c (c\<lparr>hx_chunked := b, hx_chunk := d\<rparr>)"
  by (simp_all add: hx_kept_def hx_bounds_def)

lemma feed_chunks_kept:
  fixes api :: "('fs, 't, 'd) tlsapi"
  assumes "feed_chunks api b c msgs = Some z"
  shows "hx_kept c (fst z)"
  using assms
proof (rule feed_chunks.raw_induct [where P = "\<lambda>api b c msgs z. hx_kept c (fst z)", rotated])
  fix f :: "('fs, 't, 'd) tlsapi \<Rightarrow> bytes \<Rightarrow> 'd macos9_https_ctx \<Rightarrow> bytes list \<Rightarrow> ('d macos9_https_ctx \<times> bytes list \<times> bool) option"
    and api b c msgs z
  assume IH: "\<And>api b c msgs z. f api b c msgs = Some z \<Longrightarrow> hx_kept c (fst z)"
    and eq: "(if b \<noteq> [] \<and> \<not> chunk_done api (hx_chunk c)
      then (case chunk_process api b READ_CHUNK (hx_chunk c) of (ok, out, used, d) \<Rightarrow>
            if \<not> ok then Some (c\<lparr>hx_chunk := d\<rparr>, msgs, True)
            else if used = 0 \<and> out = [] then Some (c\<lparr>hx_chunk := d\<rparr>, msgs, False)
            else f api (drop used b)
                   (if out \<noteq> [] then hs_deliver api out (c\<lparr>hx_chunk := d\<rparr>) else c\<lparr>hx_chunk := d\<rparr>)
                   (if out \<noteq> [] then msgs @ [out] else msgs))
      else Some (c, msgs, False)) = Some z"
  obtain ok out used d where p: "chunk_process api b READ_CHUNK (hx_chunk c) = (ok, out, used, d)" by (metis prod_cases4)
  let ?c = "if out \<noteq> [] then hs_deliver api out (c\<lparr>hx_chunk := d\<rparr>) else c\<lparr>hx_chunk := d\<rparr>"
  have k: "hx_kept c ?c" by (cases "out = []") (simp_all add: hx_kept_trans [OF chunk_kept(1) deliver_kept])
  show "hx_kept c (fst z)"
    using eq IH [of api "drop used b" ?c "if out \<noteq> [] then msgs @ [out] else msgs" z] hx_kept_trans [OF k]
    unfolding p prod.case by (auto split: if_splits)
qed

text \<open>Feeding the body: the slot runs on, unless the decoder reported an error.\<close>

definition decoder_sound :: "('fs, 't, 'd) tlsapi \<Rightarrow> bool" where
  "decoder_sound api \<longleftrightarrow> (\<forall>b n d. fst (chunk_process api b n d))"

lemma feed_chunks_sound:
  fixes api :: "('fs, 't, 'd) tlsapi"
  assumes "feed_chunks api b c msgs = Some z"
  shows "decoder_sound api \<longrightarrow> \<not> snd (snd z)"
  using assms
proof (rule feed_chunks.raw_induct [where P = "\<lambda>api b c msgs z. decoder_sound api \<longrightarrow> \<not> snd (snd z)", rotated])
  fix f :: "('fs, 't, 'd) tlsapi \<Rightarrow> bytes \<Rightarrow> 'd macos9_https_ctx \<Rightarrow> bytes list \<Rightarrow> ('d macos9_https_ctx \<times> bytes list \<times> bool) option"
    and api b c msgs z
  assume IH: "\<And>api b c msgs z. f api b c msgs = Some z \<Longrightarrow> decoder_sound api \<longrightarrow> \<not> snd (snd z)"
    and eq: "(if b \<noteq> [] \<and> \<not> chunk_done api (hx_chunk c)
      then (case chunk_process api b READ_CHUNK (hx_chunk c) of (ok, out, used, d) \<Rightarrow>
            if \<not> ok then Some (c\<lparr>hx_chunk := d\<rparr>, msgs, True)
            else if used = 0 \<and> out = [] then Some (c\<lparr>hx_chunk := d\<rparr>, msgs, False)
            else f api (drop used b)
                   (if out \<noteq> [] then hs_deliver api out (c\<lparr>hx_chunk := d\<rparr>) else c\<lparr>hx_chunk := d\<rparr>)
                   (if out \<noteq> [] then msgs @ [out] else msgs))
      else Some (c, msgs, False)) = Some z"
  obtain ok out used d where p: "chunk_process api b READ_CHUNK (hx_chunk c) = (ok, out, used, d)" by (metis prod_cases4)
  show "decoder_sound api \<longrightarrow> \<not> snd (snd z)"
  proof
    assume s: "decoder_sound api"
    then have ok by (metis decoder_sound_def fst_conv p)
    then show "\<not> snd (snd z)"
      using eq s IH [of api "drop used b" "if out \<noteq> [] then hs_deliver api out (c\<lparr>hx_chunk := d\<rparr>) else c\<lparr>hx_chunk := d\<rparr>" "if out \<noteq> [] then msgs @ [out] else msgs" z]
      unfolding p prod.case by (auto split: if_splits)
  qed
qed

lemma feed_body_live:
  assumes "feed_body api i b w = Some (done, w')" "i < length (https_slots w)" "hctx_ok (hslot w i)" "hs_busy (hslot w i)" "decoder_sound api"
  shows "hlive i w w' \<and> hx_state (hslot w' i) = hx_state (hslot w i)"
proof -
  define c where "c = (if \<not> hx_chunked (hslot w i) \<and> hx_content_length (hslot w i) < 0 \<and> hx_body_bytes (hslot w i) = 0 \<and> chunk_framing b
                  then (hslot w i)\<lparr>hx_chunked := True, hx_chunk := chunk_init api\<rparr> else hslot w i)"
  have kc: "hx_kept (hslot w i) c" by (simp add: c_def)
  have put: "hlive i w (hput i x (hemit evs w)) \<and> hx_state (hslot (hput i x (hemit evs w)) i) = hx_state (hslot w i)"
    if "hx_kept c x" "\<forall>e \<in> set evs. running_ev (hx_parent (hslot w i)) e" for x evs
  proof -
    have k: "hx_kept (hslot w i) x" using kc that(1) by (rule hx_kept_trans)
    show ?thesis using assms(2-4) kept_ok [OF k] that(2) k
      by (auto intro!: hlive_put [where c = x and evs = evs] simp: hx_kept_def)
  qed
  have par: "hx_parent c = hx_parent (hslot w i)" using kc by (simp add: hx_kept_def)
  show ?thesis
  proof (cases "b = []")
    case True
    then show ?thesis using assms by (auto simp: feed_body_def intro: hlive_same)
  next
    case b: False
    note eq = assms(1) [unfolded feed_body_def Let_def c_def [symmetric]]
    show ?thesis
    proof (cases "hx_chunked c")
      case True
      then obtain c' ms err where f: "feed_chunks api b c [] = Some (c', ms, err)"
        "(if err then (True, hctx_fail api i ''chunked decode error'' (hput i c' (hemit (map (\<lambda>d. Callback (hx_parent c) (FETCH_DATA d)) ms) w)))
          else (chunk_done api (hx_chunk c'), hput i c' (hemit (map (\<lambda>d. Callback (hx_parent c) (FETCH_DATA d)) ms) w))) = (done, w')"
        using eq b by auto
      have "\<not> err" using feed_chunks_sound [OF f(1)] assms(5) by simp
      then have "w' = hput i c' (hemit (map (\<lambda>d. Callback (hx_parent c) (FETCH_DATA d)) ms) w)" using f(2) by simp
      then show ?thesis using put [of c' "map (\<lambda>d. Callback (hx_parent c) (FETCH_DATA d)) ms"] feed_chunks_kept [OF f(1)] par by auto
    next
      case False
      define deliver where "deliver = (if hx_content_length c \<ge> 0 \<and> hx_body_bytes c + int (length b) > hx_content_length c
                                 then hx_content_length c - hx_body_bytes c else int (length b))"
      have "w' = hput i (if deliver > 0 then hs_deliver api (take (nat deliver) b) c else c)
          (hemit (if deliver > 0 then map (\<lambda>d. Callback (hx_parent c) (FETCH_DATA d)) [take (nat deliver) b] else []) w)"
        using eq b False unfolding deliver_def [symmetric] by simp
      then show ?thesis using put [of c "[]"] put [of "hs_deliver api (take (nat deliver) b) c" "[Callback (hx_parent c) (FETCH_DATA (take (nat deliver) b))]"]
          deliver_kept [of c api "take (nat deliver) b"] par by auto
    qed
  qed
qed

lemma header_line_kept: "hx_kept c (hs_header_line p c)"
  by (auto simp: hs_header_line_def Let_def hx_kept_def hx_bounds_def)

lemma header_loop_kept:
  assumes "hs_header_loop buf c ls force = (c', ls', force')"
  shows "hx_kept c c'"
  using assms
proof (induction buf c ls force rule: hs_header_loop.induct)
  case (1 buf c ls force)
  show ?case
  proof (cases "\<exists>p rest. find_line buf = Some (p, rest) \<and> p \<noteq> []")
    case True
    then obtain p rest where f: "find_line buf = Some (p, rest)" "p \<noteq> []" by blast
    have "hs_header_loop rest (hs_header_line p c) (if length ls < 64 then ls @ [p] else ls) (force \<or> is_attachment p) = (c', ls', force')"
      using 1(2) f by (subst (asm) hs_header_loop.simps) simp
    from 1(1) [OF f(1) refl f(2) this] show ?thesis using header_line_kept [of c p] by (rule hx_kept_trans [rotated])
  next
    case False
    then have "c' = c" using 1(2) by (subst (asm) hs_header_loop.simps) (auto split: option.splits if_splits)
    then show ?thesis by simp
  qed
qed

lemma header_block_kept:
  assumes "hs_header_block hdr c = (c', evs)"
  shows "hx_kept c c' \<and> (\<forall>e \<in> set evs. running_ev (hx_parent c) e)"
proof -
  obtain po rest where f: "(case find_line (hdr @ [NUL, LF]) of None \<Rightarrow> (None, hdr @ [NUL, LF]) | Some (p, r) \<Rightarrow> (Some p, r)) = (po, rest)"
    by fastforce
  obtain c1 ev1 where s: "hs_status_line po c = (c1, ev1)" by fastforce
  obtain c2 ls force where l: "hs_header_loop rest c1 [] False = (c2, ls, force)" by (metis prod_cases3)
  have c1: "hx_kept c c1" "\<forall>e \<in> set ev1. running_ev (hx_parent c) e"
    using s by (auto simp: hs_status_line_def hx_kept_def hx_bounds_def split: option.splits if_splits)
  have "c' = (if force then c2\<lparr>hx_mime := ''application/octet-stream''\<rparr> else c2)"
    "evs = ev1 @ SetHttpCode (hx_parent c) (hx_status c1) # map (\<lambda>p. Callback (hx_parent c) (FETCH_HEADER (forward_line force p))) ls"
    using assms f s l by (simp_all add: hs_header_block_def Let_def)
  moreover have "hx_kept c2 (c2\<lparr>hx_mime := ''application/octet-stream''\<rparr>)" by (simp add: hx_kept_def hx_bounds_def)
  ultimately show ?thesis using c1 header_loop_kept [OF l] by (auto intro: hx_kept_trans)
qed

lemma hs_parse_headers_step:
  assumes "parse_headers api i w = (r, off, w')" "i < length (https_slots w)" "hctx_ok (hslot w i)" "hs_busy (hslot w i)"
  shows "if r = 2 then hover i w w' else hlive i w w' \<and> hx_state (hslot w' i) = hx_state (hslot w i)"
proof (cases "\<exists>h hdr x. hx_hdr_buf (hslot w i) = Some h \<and> strstr_split [CR, LF, CR, LF] h = Some (hdr, x)")
  case False
  then have "r = 0" "w' = w" using assms(1) unfolding parse_headers_def by (auto split: option.splits)
  then show ?thesis using assms(3,4) by (simp add: hlive_same)
next
  case True
  then obtain h hdr x where h: "hx_hdr_buf (hslot w i) = Some h" "strstr_split [CR, LF, CR, LF] h = Some (hdr, x)" by blast
  obtain c1 evs where b: "hs_header_block hdr (hslot w i) = (c1, evs)" by fastforce
  have k: "hx_kept (hslot w i) c1" and ev: "\<forall>e \<in> set evs. running_ev (hx_parent (hslot w i)) e" using header_block_kept [OF b] by auto
  have c1: "hx_parent c1 = hx_parent (hslot w i)" "hx_bounds c1" using k assms(3) by (simp_all add: hx_kept_def hctx_ok_def)
  note eq = assms(1) [unfolded parse_headers_def h option.case prod.case b]
  show ?thesis
  proof (cases "300 \<le> hx_status c1 \<and> hx_status c1 < 400 \<and> hx_redirect_url c1 \<noteq> []")
    case True
    then have "r = 2" "w' = hctx_release api i (hput i c1 (hemit (evs @ [Callback (hx_parent c1) (FETCH_REDIRECT (hx_redirect_url c1))]) w))"
      using eq by simp_all
    then show ?thesis using assms(2) c1 ev
      by (simp add: release_hover [where evs = evs and m = "FETCH_REDIRECT (hx_redirect_url c1)"])
  next
    case False
    define c2 where "c2 = (if hx_post_body c1 = None \<and> macos9_cache_mime_eligible (hx_status c1) (Some (hx_mime c1)) then c1\<lparr>hx_cache_eligible := True\<rparr> else c1)"
    define c3 where "c3 = (if hx_chunked c2 then c2\<lparr>hx_chunk := chunk_init api\<rparr> else c2)"
    have r: "r = 1" "w' = hput i c3 (hemit evs w)"
      using eq False unfolding Let_def c2_def [symmetric] c3_def [symmetric] by (simp_all only: if_False simp_thms prod.inject)
    have "hx_kept c1 c2" by (simp add: c2_def hx_kept_def hx_bounds_def)
    moreover have "hx_kept c2 c3" by (simp add: c3_def)
    ultimately have k3: "hx_kept (hslot w i) c3" using k by (blast intro: hx_kept_trans)
    show ?thesis using kept_ok [OF k3 assms(3)] k3 r assms(2,4) ev
      by (auto intro!: hlive_put [where c = c3 and evs = evs] simp: hx_kept_def)
  qed
qed

lemma hdr_grow_bounds:
  "hdr_grow api cap want = Some cap' \<Longrightarrow> 0 < cap \<Longrightarrow> cap \<le> HDR_BUF_MAX \<Longrightarrow> want \<le> HDR_BUF_MAX
     \<Longrightarrow> want \<le> cap' \<and> 0 < cap' \<and> cap' \<le> HDR_BUF_MAX"
proof (induction api cap want rule: hdr_grow.induct)
  case (1 api cap want)
  show ?case
  proof (cases "cap < want")
    case True
    then have r: "ta_realloc api (min (cap * 2) HDR_BUF_MAX)" "hdr_grow api (min (cap * 2) HDR_BUF_MAX) want = Some cap'"
      using "1.prems" by (subst (asm) hdr_grow.simps, simp add: Let_def split: if_splits)+
    show ?thesis using "1.prems" True by (intro "1.IH" [OF _ refl r]) (simp_all add: HDR_BUF_MAX_def)
  next
    case False
    then have "cap' = cap" using "1.prems" by (subst (asm) hdr_grow.simps) simp
    then show ?thesis using False "1.prems" by simp
  qed
qed

lemma hdr_append_step:
  assumes "hdr_append api i b w = (ok, w')" "i < length (https_slots w)" "hctx_ok (hslot w i)" "hs_busy (hslot w i)"
  shows "if ok then hlive i w w' \<and> hx_state (hslot w' i) = hx_state (hslot w i) else hover i w w'"
proof -
  define c where "c = hslot w i"
  define old where "old = (case hx_hdr_buf c of None \<Rightarrow> [] | Some h \<Rightarrow> h)"
  define want where "want = int (length old + length b)"
  have bd: "hx_bounds c" and st: "hx_state c \<noteq> HS_FAIL" "hx_state c \<noteq> HS_DONE"
    using assms(3,4) busy_not_over [of c] by (simp_all add: c_def hctx_ok_def)
  note eq = assms(1) [unfolded hdr_append_def Let_def c_def [symmetric] old_def [symmetric] want_def [symmetric]]
  have fw: "hover i w (hctx_fail api i why w)" for why using fail_hover [OF assms(2)] bd st by (simp add: c_def)
  let ?cap = "if hx_hdr_buf c = None then 1024 else hx_hdr_cap c"
  have live: "hlive i w (hput i x w) \<and> hx_state (hslot (hput i x w) i) = hx_state (hslot w i)"
    if "hx_parent x = hx_parent c" "hx_state x = hx_state c" "hx_conn x = hx_conn c" "hx_bounds x" for x
    using assms(2-4) that by (auto intro!: hlive_put [where c = x and evs = "[]"] simp: c_def hctx_ok_def hx_state_defs)
  consider (big) "want > HDR_BUF_MAX" | (nomem) "want \<le> HDR_BUF_MAX" "hx_hdr_buf c = None" "\<not> ta_malloc api 1024"
    | (grow) "want \<le> HDR_BUF_MAX" "\<not> (hx_hdr_buf c = None \<and> \<not> ta_malloc api 1024)" by fastforce
  then show ?thesis
  proof cases
    case big
    then show ?thesis using eq fw by auto
  next
    case nomem
    let ?x = "c\<lparr>hx_hdr_cap := 1024\<rparr>"
    have b: "hx_bounds ?x" using bd nomem(2) by (simp add: hx_bounds_def HDR_BUF_MAX_def hx_hdr_len_def)
    have "hover i (hput i ?x w) (hctx_fail api i ''https: out of memory'' (hput i ?x w))"
      using assms(2) b st by (intro fail_hover) simp_all
    moreover have "hlive i w (hput i ?x w)" using live [of ?x] b by simp
    ultimately show ?thesis using eq nomem hlive_hover by auto
  next
    case grow
    have cap: "0 < ?cap" "?cap \<le> HDR_BUF_MAX" using bd by (auto simp: hx_bounds_def HDR_BUF_MAX_def)
    show ?thesis
    proof (cases "hdr_grow api ?cap want")
      case None
      then show ?thesis using eq grow fw by auto
    next
      case (Some cap')
      let ?x = "c\<lparr>hx_hdr_buf := Some (old @ b), hx_hdr_cap := cap'\<rparr>"
      have "hx_bounds ?x" using bd hdr_grow_bounds [OF Some cap grow(1)] by (simp add: hx_bounds_def want_def hx_hdr_len_def)
      then show ?thesis using eq grow Some live [of ?x] by auto
    qed
  qed
qed

end
