(* ===== verification/HttpsProps.thy ===== *)
theory HttpsProps
  imports HttpsSteps
begin

text \<open>
  Correctness of the HTTPS fetcher: the slot invariant is kept by every operation; every fetch
  gets exactly one terminal message as long as the chunk decoder reports no error, and two when
  it does; no slot outlives the no-progress timeout.
\<close>

section \<open>The stages of a poll\<close>

definition hstage :: "nat \<Rightarrow> ('fs, 't, 'd) https_world \<Rightarrow> bool \<times> ('fs, 't, 'd) https_world \<Rightarrow> bool" where
  "hstage i w r \<longleftrightarrow> (if fst r then hover i w (snd r) else hlive i w (snd r))"

lemma hstage_trans: "hlive i w w1 \<Longrightarrow> hstage i w1 r \<Longrightarrow> hstage i w r"
  by (auto simp: hstage_def split: if_splits intro: hlive_trans hlive_hover)

lemma busy_fail: "i < length (https_slots w) \<Longrightarrow> hctx_ok (hslot w i) \<Longrightarrow> hs_busy (hslot w i) \<Longrightarrow> hover i w (hctx_fail api i why w)"
  using fail_hover [of i w] busy_not_over [of "hslot w i"] by (simp add: hctx_ok_def)

lemma busy_finish: "i < length (https_slots w) \<Longrightarrow> hctx_ok (hslot w i) \<Longrightarrow> hs_busy (hslot w i) \<Longrightarrow> hover i w (hctx_finish api i w)"
  using finish_hover [of i w] busy_not_over [of "hslot w i"] by (simp add: hctx_ok_def)

lemma live_fail: "hlive i w w1 \<Longrightarrow> i < length (https_slots w) \<Longrightarrow> hover i w (hctx_fail api i why w1)"
  using busy_fail [of i w1] hlive_hover [of i w w1] by (simp add: hlive_def slot_frame_def)

lemma live_finish: "hlive i w w1 \<Longrightarrow> i < length (https_slots w) \<Longrightarrow> hover i w (hctx_finish api i w1)"
  using busy_finish [of i w1] hlive_hover [of i w w1] by (simp add: hlive_def slot_frame_def)

text \<open>Writing fields of the slot that are neither its state, its owner, its connection nor a bounded buffer.\<close>

lemma kept_live:
  assumes "i < length (https_slots w)" "hctx_ok (hslot w i)" "hs_busy (hslot w i)" "hx_kept (hslot w i) c"
    "https_slots w' = (https_slots w)[i := c]" "hs_events w' = hs_events w"
  shows "hlive i w w'"
  using kept_ok [OF assms(4,2)] assms by (intro hlive_put [where c = c and evs = "[]"]) simp_all

lemma tls_live:
  assumes "hctx_ok (hslot w i)" "hs_busy (hslot w i)"
  shows "hlive i w (w\<lparr>hs_tls := t\<rparr>)"
  using assms by (intro hlive_same) simp_all

lemma bounds_simps [simp]:
  "hx_bounds (c\<lparr>hx_state := s\<rparr>) = hx_bounds c" "hx_bounds (c\<lparr>hx_progress_ticks := t\<rparr>) = hx_bounds c"
  "hx_bounds (c\<lparr>hx_conn := k\<rparr>) = hx_bounds c" "hx_bounds (c\<lparr>hx_from_pool := b\<rparr>) = hx_bounds c"
  "hx_bounds (c\<lparr>hx_started := b\<rparr>) = hx_bounds c" "hx_bounds (c\<lparr>hx_aborted := b\<rparr>) = hx_bounds c"
  by (simp_all add: hx_bounds_def)

lemma kept_simps [simp]:
  "hx_kept c (c\<lparr>hx_progress_ticks := t\<rparr>)" "hx_kept c (c\<lparr>hx_req_sent := n, hx_progress_ticks := t\<rparr>)"
  "hx_kept c (c\<lparr>hx_progress_ticks := t, hx_post_body_sent := n\<rparr>)" "hx_kept c (c\<lparr>hx_post_body_sent := n, hx_progress_ticks := t\<rparr>)"
  "hx_kept c (c\<lparr>hx_cache_eligible := b, hx_keep_alive_ok := b'\<rparr>)" "hx_kept c (c\<lparr>hx_status := z, hx_body_bytes := y, hx_cache_eligible := b\<rparr>)"
  by (simp_all add: hx_kept_def hx_bounds_def)

lemma got_stage:
  assumes "hctx_got api i b w0 = Some r" "i < length (https_slots w0)" "hctx_ok (hslot w0 i)" "hs_busy (hslot w0 i)" "decoder_sound api"
    "hx_connected (hslot w0 i)"
  shows "hstage i w0 r"
proof -
  define w where "w = hput i ((hslot w0 i)\<lparr>hx_progress_ticks := now_ticks api w0\<rparr>) w0"
  have lw: "hlive i w0 w" using assms(2-4) unfolding w_def by (intro kept_live [where c = "(hslot w0 i)\<lparr>hx_progress_ticks := now_ticks api w0\<rparr>"]) simp_all
  have w: "i < length (https_slots w)" "hctx_ok (hslot w i)" "hs_busy (hslot w i)" using lw assms(2) by (auto simp: hlive_def slot_frame_def)
  have st: "hx_state (hslot w i) = hx_state (hslot w0 i)" using assms(2) by (simp add: w_def)
  have feed: "hstage i y r" if f: "finish_if api i (feed_body api i bs y) = Some r" and y: "i < length (https_slots y)" "hctx_ok (hslot y i)" "hs_busy (hslot y i)" for bs y
  proof -
    obtain fin w' where d: "feed_body api i bs y = Some (fin, w')" "r = (if fin then (True, hctx_finish api i w') else (False, w'))"
      using f by (auto simp: finish_if_def)
    have l: "hlive i y w'" using feed_body_live [OF d(1) y assms(5)] by simp
    show ?thesis using d(2) l live_finish [OF l y(1)] by (auto simp: hstage_def)
  qed
  note eq = assms(1) [unfolded hctx_got_def Let_def w_def [symmetric]]
  show ?thesis
  proof (cases "hx_state (hslot w i) = HS_HEADERS")
    case False
    then have "finish_if api i (feed_body api i b w) = Some r" using eq by simp
    then show ?thesis using feed w lw hstage_trans by blast
  next
    case hd: True
    obtain ok w1 where a: "hdr_append api i b w = (ok, w1)" by fastforce
    note as = hdr_append_step [OF a w]
    show ?thesis
    proof (cases ok)
      case False
      then have "r = (True, w1)" using eq hd a by simp
      then show ?thesis using as False lw hlive_hover by (auto simp: hstage_def)
    next
      case True
      then have l1: "hlive i w w1" "hx_state (hslot w1 i) = HS_HEADERS" using as hd by auto
      have w1: "i < length (https_slots w1)" "hctx_ok (hslot w1 i)" "hs_busy (hslot w1 i)" using l1(1) w(1) by (auto simp: hlive_def slot_frame_def)
      obtain q off w2 where ph: "parse_headers api i w1 = (q, off, w2)" by (metis prod_cases3)
      note ps = hs_parse_headers_step [OF ph w1]
      note l01 = hlive_trans [OF lw l1(1)]
      show ?thesis
      proof (cases "q = 2")
        case q2: True
        then have "r = (True, w2)" using eq hd a True ph by simp
        then show ?thesis using ps q2 l01 hlive_hover by (auto simp: hstage_def)
      next
        case nq2: False
        then have l2: "hlive i w1 w2" "hx_state (hslot w2 i) = HS_HEADERS" using ps l1(2) by auto
        have w2: "i < length (https_slots w2)" "hctx_ok (hslot w2 i)" "hs_busy (hslot w2 i)" using l2(1) w1(1) by (auto simp: hlive_def slot_frame_def)
        note l02 = hlive_trans [OF l01 l2(1)]
        show ?thesis
        proof (cases "q = 1")
          case False
          then have "r = (False, w2)" using eq hd a True ph nq2 by simp
          then show ?thesis using l02 by (simp add: hstage_def)
        next
          case q1: True
          define w3 where "w3 = hput i ((hslot w2 i)\<lparr>hx_state := HS_BODY\<rparr>) w2"
          have "hctx_ok ((hslot w2 i)\<lparr>hx_state := HS_BODY\<rparr>)" "hs_busy ((hslot w2 i)\<lparr>hx_state := HS_BODY\<rparr>)"
            using w2 l2(2) by (simp_all add: hctx_ok_def hx_state_defs)
          then have l3: "hlive i w2 w3" unfolding w3_def using w2(1)
            by (intro hlive_put [where c = "(hslot w2 i)\<lparr>hx_state := HS_BODY\<rparr>" and evs = "[]"]) simp_all
          have w3: "i < length (https_slots w3)" "hctx_ok (hslot w3 i)" "hs_busy (hslot w3 i)" using l3 w2(1) by (auto simp: hlive_def slot_frame_def)
          note l03 = hlive_trans [OF l02 l3]
          define rest where "rest = drop off (case hx_hdr_buf (hslot w2 i) of None \<Rightarrow> [] | Some h \<Rightarrow> h)"
          have "(if rest \<noteq> [] then finish_if api i (feed_body api i rest w3) else Some (False, w3)) = Some r"
            using eq hd a True ph q1 unfolding w3_def rest_def by simp
          then have "hstage i w3 r \<or> r = (False, w3)" using feed [of rest w3] w3 by (auto split: if_splits)
          then show ?thesis using hstage_trans [OF l03, of r] l03 by (auto simp: hstage_def)
        qed
      qed
    qed
  qed
qed

lemma live_parts:
  "hlive i w w1 \<Longrightarrow> i < length (https_slots w) \<Longrightarrow> i < length (https_slots w1) \<and> hctx_ok (hslot w1 i) \<and> hs_busy (hslot w1 i)"
  by (simp add: hlive_def slot_frame_def)

lemma salvage_over:
  assumes "i < length (https_slots w)" "hctx_ok (hslot w i)" "hs_busy (hslot w i)"
  shows "hover i w (hctx_salvage api i w)"
  unfolding hctx_salvage_def
  by (rule live_finish [OF kept_live [OF assms, of "(hslot w i)\<lparr>hx_cache_eligible := False, hx_keep_alive_ok := False\<rparr>"] assms(1)])
    (use assms(1) in simp_all)

lemma read_stage:
  assumes "hctx_read api i k ev w = Some r" "i < length (https_slots w)" "hctx_ok (hslot w i)" "hs_busy (hslot w i)" "decoder_sound api"
  shows "hstage i w r"
proof (cases "hx_state (hslot w i) \<noteq> HS_HEADERS \<and> hx_state (hslot w i) \<noteq> HS_BODY")
  case True
  then have "r = (False, w)" using assms(1) by (simp add: hctx_read_def Let_def)
  then show ?thesis using assms(3,4) by (simp add: hstage_def hlive_same)
next
  case rd: False
  obtain ok got t where o: "OSTLS_Read (ta_tls api) k READ_CHUNK (hs_tls w) = (ok, got, t)" by (metis prod_cases3)
  define w1 where "w1 = w\<lparr>hs_tls := t\<rparr>"
  have l1: "hlive i w w1" unfolding w1_def using assms(3,4) by (rule tls_live)
  note p1 = live_parts [OF l1 assms(2)]
  note eq = assms(1) [unfolded hctx_read_def Let_def o prod.case w1_def [symmetric]]
  consider (err) "\<not> ok" | (data) "ok" "got \<noteq> []" | (closed) "ok" "got = []" "ev = kOSTLSEventClosed" "hx_state (hslot w i) = HS_BODY"
    | (quiet) "ok" "got = []" "\<not> (ev = kOSTLSEventClosed \<and> hx_state (hslot w i) = HS_BODY)" by fastforce
  then show ?thesis
  proof cases
    case err
    then have "r = (True, hctx_fail api i ''https: read failed'' w1)" using eq rd by simp
    then show ?thesis using live_fail [OF l1 assms(2)] by (simp add: hstage_def)
  next
    case data
    then have g: "hctx_got api i got w1 = Some r" using eq rd by simp
    have "hx_connected (hslot w1 i)" using rd by (auto simp: w1_def hx_connected_def)
    then show ?thesis using got_stage [OF g] p1 assms(5) hstage_trans [OF l1] by simp
  next
    case closed
    then have "r = (True, if hx_content_length (hslot w i) < 0 \<and> \<not> hx_chunked (hslot w i) then hctx_finish api i w1
                else if hx_body_bytes (hslot w i) \<ge> 512 then hctx_salvage api i w1 else hctx_fail api i ''https: truncated body'' w1)"
      using eq rd by simp
    moreover have "hover i w (hctx_salvage api i w1)" using p1 salvage_over [of i w1] hlive_hover [OF l1] by simp
    ultimately show ?thesis using live_fail [OF l1 assms(2)] live_finish [OF l1 assms(2)] by (simp add: hstage_def)
  next
    case quiet
    then have "r = (False, w1)" using eq rd by (auto split: if_splits)
    then show ?thesis using l1 by (simp add: hstage_def)
  qed
qed

lemma send_header_stage:
  assumes "i < length (https_slots w)" "hctx_ok (hslot w i)" "hs_busy (hslot w i)"
  shows "hstage i w (hctx_send_header api i k w)"
proof -
  obtain ok n t where o: "OSTLS_Write (ta_tls api) k (drop (hx_req_sent (hslot w i)) (hx_req_buf (hslot w i))) (hs_tls w) = (ok, n, t)"
    by (metis prod_cases3)
  define w1 where "w1 = w\<lparr>hs_tls := t\<rparr>"
  let ?c = "(hslot w i)\<lparr>hx_req_sent := hx_req_sent (hslot w i) + n, hx_progress_ticks := now_ticks api w1\<rparr>"
  have l1: "hlive i w w1" unfolding w1_def using assms(2,3) by (rule tls_live)
  have l2: "hlive i w (hput i ?c w1)" using assms by (intro kept_live [where c = ?c]) (simp_all add: w1_def)
  have "hctx_send_header api i k w = (if hx_req_sent (hslot w i) < length (hx_req_buf (hslot w i))
      then if \<not> ok then (True, hctx_fail api i ''https: write failed'' w1) else if n > 0 then (False, hput i ?c w1) else (False, w1)
      else (False, w))"
    unfolding hctx_send_header_def Let_def o prod.case w1_def by simp
  then show ?thesis using l1 l2 live_fail [OF l1 assms(1)] hlive_same [of w w i] assms by (simp add: hstage_def)
qed

lemma send_post_stage:
  assumes "i < length (https_slots w)" "hctx_ok (hslot w i)" "hs_busy (hslot w i)"
  shows "hstage i w (hctx_send_post api i k w)"
proof (cases "hx_post_body (hslot w i)")
  case None
  then show ?thesis using hlive_same [of w w i] assms by (simp add: hctx_send_post_def hstage_def)
next
  case (Some b)
  obtain ok n t where o: "OSTLS_Write (ta_tls api) k (drop (hx_post_body_sent (hslot w i)) b) (hs_tls w) = (ok, n, t)"
    by (metis prod_cases3)
  define w1 where "w1 = w\<lparr>hs_tls := t\<rparr>"
  let ?c = "(hslot w i)\<lparr>hx_post_body_sent := hx_post_body_sent (hslot w i) + n, hx_progress_ticks := now_ticks api w1\<rparr>"
  have l1: "hlive i w w1" unfolding w1_def using assms(2,3) by (rule tls_live)
  have l2: "hlive i w (hput i ?c w1)" using assms by (intro kept_live [where c = ?c]) (simp_all add: w1_def)
  have "hctx_send_post api i k w = (if hx_req_sent (hslot w i) \<ge> length (hx_req_buf (hslot w i)) \<and> hx_post_body_sent (hslot w i) < length b
      then if \<not> ok then (True, hctx_fail api i ''https: post body write failed'' w1) else if n > 0 then (False, hput i ?c w1) else (False, w1)
      else (False, w))"
    unfolding hctx_send_post_def Let_def Some option.case o prod.case w1_def by simp
  then show ?thesis using l1 l2 live_fail [OF l1 assms(1)] hlive_same [of w w i] assms by (simp add: hstage_def)
qed

lemma send_stage:
  assumes "i < length (https_slots w)" "hctx_ok (hslot w i)" "hs_busy (hslot w i)"
  shows "hstage i w (hctx_send api i k w)"
proof (cases "hx_state (hslot w i) = HS_SEND_REQ")
  case False
  then show ?thesis using hlive_same [of w w i] assms by (simp add: hctx_send_def hstage_def)
next
  case True
  obtain r1 w1 where s1: "hctx_send_header api i k w = (r1, w1)" by fastforce
  have h1: "hstage i w (r1, w1)" using send_header_stage [OF assms, of api k] s1 by simp
  show ?thesis
  proof (cases r1)
    case True
    then show ?thesis using h1 s1 \<open>hx_state (hslot w i) = HS_SEND_REQ\<close> by (simp add: hctx_send_def)
  next
    case nr1: False
    then have l1: "hlive i w w1" using h1 by (simp add: hstage_def)
    note p1 = live_parts [OF l1 assms(1)]
    obtain r2 w2 where s2: "hctx_send_post api i k w1 = (r2, w2)" by fastforce
    have h2: "hstage i w (r2, w2)" using send_post_stage [of i w1 api k] p1 s2 hstage_trans [OF l1] by simp
    show ?thesis
    proof (cases r2)
      case True
      then show ?thesis using h2 s1 s2 nr1 \<open>hx_state (hslot w i) = HS_SEND_REQ\<close> by (simp add: hctx_send_def)
    next
      case nr2: False
      then have l2: "hlive i w w2" using h2 by (simp add: hstage_def)
      note p2 = live_parts [OF l2 assms(1)]
      let ?c = "(hslot w2 i)\<lparr>hx_state := HS_HEADERS\<rparr>"
      have sent: "hs_all_sent (hslot w2 i) \<Longrightarrow> hx_state (hslot w2 i) = HS_SEND_REQ"
        using s1 s2 nr1 nr2 True assms(1)
        by (auto simp: hctx_send_header_def hctx_send_post_def Let_def split: if_splits prod.splits option.splits)
      have "hlive i w2 (hput i ?c w2)" if "hs_all_sent (hslot w2 i)"
        using p2 sent [OF that] by (intro hlive_put [where c = ?c and evs = "[]"]) (simp_all add: hctx_ok_def hx_state_defs)
      then show ?thesis using l2 s1 s2 nr1 nr2 True hlive_trans [OF l2] by (simp add: hctx_send_def hstage_def)
    qed
  qed
qed

lemma build_request_ok:
  assumes "build_request c = Some c'"
  shows "hx_kept c c'"
  using assms by (auto simp: build_request_def hx_kept_def hx_bounds_def split: if_splits)

lemma handshake_stage:
  assumes "i < length (https_slots w)" "hctx_ok (hslot w i)" "hs_busy (hslot w i)"
  shows "hstage i w (hctx_handshake api i k ev w)"
proof (cases "hx_state (hslot w i) = HS_TLSING \<and> (ev = kOSTLSEventHandshakeDone \<or> OSTLS_GetState (ta_tls api) k (hs_tls w) = kOSTLSStateOpen)")
  case False
  then have "hctx_handshake api i k ev w = (False, w)" unfolding hctx_handshake_def Let_def by (simp only: if_False)
  then show ?thesis using hlive_same [of w w i] assms by (simp add: hstage_def)
next
  case True
  show ?thesis
  proof (cases "build_request (hslot w i)")
    case None
    then have "hctx_handshake api i k ev w = (True, hctx_fail api i ''https: request too large'' w)"
      using True unfolding hctx_handshake_def Let_def by simp
    then show ?thesis using busy_fail [OF assms] by (simp add: hstage_def)
  next
    case (Some c1)
    let ?c = "c1\<lparr>hx_state := HS_SEND_REQ, hx_progress_ticks := now_ticks api w\<rparr>"
    have k: "hx_kept (hslot w i) c1" using build_request_ok [OF Some] .
    have "hctx_handshake api i k ev w = (False, hput i ?c w)"
      using True Some unfolding hctx_handshake_def Let_def by simp
    moreover have "hlive i w (hput i ?c w)"
      using assms k True by (intro hlive_put [where c = ?c and evs = "[]"]) (simp_all add: hctx_ok_def hx_state_defs hx_kept_def)
    ultimately show ?thesis by (simp add: hstage_def)
  qed
qed

lemma retry_step:
  assumes "i < length (https_slots w)" "hctx_ok (hslot w i)" "hs_busy (hslot w i)"
  shows "hover i w (hctx_retry api i why w) \<or> hlive i w (hctx_retry api i why w)
     \<and> hx_progress_ticks (hslot (hctx_retry api i why w) i) = now_ticks api (hctx_retry api i why w)"
proof (cases "hx_retries (hslot w i) < HTTPS_MAX_RETRIES")
  case False
  then show ?thesis using busy_fail [OF assms] by (simp add: hctx_retry_def Let_def)
next
  case True
  define t where "t = drop_conn api (hx_conn (hslot w i)) (hs_tls w)"
  let ?c = "(hslot w i)\<lparr>hx_retries := hx_retries (hslot w i) + 1, hx_conn := None, hx_hdr_buf := None, hx_hdr_cap := 0, hx_cache_capture := None,
                 hx_cache_cap_cap := 0, hx_cache_overflow := False, hx_cache_eligible := False, hx_req_buf := [], hx_req_sent := 0,
                 hx_post_body_sent := 0, hx_status := 0, hx_body_bytes := 0, hx_content_length := -1, hx_chunked := False,
                 hx_mime := [], hx_redirect_url := [], hx_state := HS_QUEUED, hx_progress_ticks := tls_TickCount (ta_tls api) t\<rparr>"
  have eq: "hctx_retry api i why w = (hput i ?c w)\<lparr>hs_tls := t\<rparr>"
    using True assms(1) by (simp add: hctx_retry_def hctx_reset_for_retry_def Let_def t_def hput_def)
  have "hx_bounds (hslot w i)" using assms(2) by (simp add: hctx_ok_def)
  then have "hx_bounds ?c" using True
    by (simp add: hx_bounds_def hx_hdr_len_def hx_cap_len_def HDR_BUF_MAX_def MACSURF_CACHE_MAX_BYTES_def REQ_BUF_def)
  then have "hctx_ok ?c" "hs_busy ?c" by (simp_all add: hctx_ok_def hx_state_defs)
  then have "hlive i w (hctx_retry api i why w)" unfolding eq using assms(1)
    by (intro hlive_put [where c = ?c and evs = "[]"]) simp_all
  then show ?thesis using assms(1) by (simp add: eq now_ticks_def)
qed

text \<open>A slot has made progress recently enough.\<close>

definition in_time :: "('fs, 't, 'd) tlsapi \<Rightarrow> nat \<Rightarrow> ('fs, 't, 'd) https_world \<Rightarrow> bool" where
  "in_time api i w \<longleftrightarrow> now_ticks api w - hx_progress_ticks (hslot w i) \<le> NO_PROGRESS_TICKS"

definition hpolled :: "('fs, 't, 'd) tlsapi \<Rightarrow> nat \<Rightarrow> ('fs, 't, 'd) https_world \<Rightarrow> ('fs, 't, 'd) https_world \<Rightarrow> bool" where
  "hpolled api i w w' \<longleftrightarrow> hover i w w' \<or> hlive i w w' \<and> in_time api i w'"

lemma hpolled_trans: "hlive i w w1 \<Longrightarrow> hpolled api i w1 w2 \<Longrightarrow> hpolled api i w w2"
  by (auto simp: hpolled_def intro: hlive_trans hlive_hover)

lemma retry_polled:
  assumes "i < length (https_slots w)" "hctx_ok (hslot w i)" "hs_busy (hslot w i)"
  shows "hpolled api i w (hctx_retry api i why w)"
  using retry_step [OF assms, of api why] by (auto simp: hpolled_def in_time_def NO_PROGRESS_TICKS_def)

lemma after_read_polled:
  assumes "i < length (https_slots w)" "hctx_ok (hslot w i)" "hs_busy (hslot w i)"
  shows "hpolled api i w (hctx_after_read api i ev w)"
proof -
  have st: "hx_state (hslot w i) \<noteq> HS_IDLE" "hx_state (hslot w i) \<noteq> HS_DONE" "hx_state (hslot w i) \<noteq> HS_FAIL"
    using assms(3) by (auto simp: hx_state_defs)
  consider (closed) "ev = kOSTLSEventClosed" "hx_state (hslot w i) \<noteq> HS_BODY"
    | (late) "\<not> (ev = kOSTLSEventClosed \<and> hx_state (hslot w i) \<noteq> HS_BODY)" "now_ticks api w - hx_progress_ticks (hslot w i) > NO_PROGRESS_TICKS"
    | (ok) "\<not> (ev = kOSTLSEventClosed \<and> hx_state (hslot w i) \<noteq> HS_BODY)" "in_time api i w" by (force simp: in_time_def)
  then show ?thesis
  proof cases
    case closed
    then show ?thesis using retry_polled [OF assms] st by (simp add: hctx_after_read_def Let_def)
  next
    case late
    have "hctx_after_read api i ev w = (if hx_state (hslot w i) = HS_BODY \<and> hx_body_bytes (hslot w i) \<ge> 512 then hctx_salvage api i w
        else hctx_fail api i why_timeout w)"
      using late st unfolding hctx_after_read_def Let_def by auto
    then show ?thesis using salvage_over [OF assms] busy_fail [OF assms] by (simp add: hpolled_def)
  next
    case ok
    then have "hctx_after_read api i ev w = w" using st unfolding hctx_after_read_def Let_def in_time_def by (auto simp: not_less)
    then show ?thesis using ok hlive_same [of w w i] assms by (simp add: hpolled_def)
  qed
qed

lemma drive_polled:
  assumes "hctx_drive api i k w = Some w'" "i < length (https_slots w)" "hctx_ok (hslot w i)" "hs_busy (hslot w i)" "decoder_sound api"
  shows "hpolled api i w w'"
proof -
  obtain ok ev t where o: "OSTLS_Pump (ta_tls api) k PUMP_STEPS (hs_tls w) = (ok, ev, t)" by (metis prod_cases3)
  define w1 where "w1 = w\<lparr>hs_tls := t\<rparr>"
  have l1: "hlive i w w1" unfolding w1_def using assms(3,4) by (rule tls_live)
  note p1 = live_parts [OF l1 assms(2)]
  note eq = assms(1) [unfolded hctx_drive_def Let_def o prod.case w1_def [symmetric]]
  have stage: "hover i w w2 \<or> hlive i w w2 \<and> \<not> r" if "hlive i w x" "hstage i x (r, w2)" for x r w2
    using hstage_trans [OF that] by (auto simp: hstage_def split: if_splits)
  show ?thesis
  proof (cases "\<not> ok \<or> ev = kOSTLSEventFailed")
    case True
    have "w' = hctx_fail api i ''https: pump error'' w1 \<or> w' = hctx_pump_failed api i w1" using eq True by (auto split: if_splits)
    moreover have "hpolled api i w1 (hctx_pump_failed api i w1)"
      using retry_polled [of i w1] busy_fail [of i w1] p1 by (simp add: hctx_pump_failed_def hpolled_def)
    ultimately show ?thesis using live_fail [OF l1 assms(2)] hpolled_trans [OF l1] by (auto simp: hpolled_def)
  next
    case False
    obtain r2 w2 where h: "hctx_handshake api i k ev w1 = (r2, w2)" by fastforce
    have s2: "hover i w w2 \<or> hlive i w w2 \<and> \<not> r2" using handshake_stage [of i w1 api k ev] p1 h stage [OF l1] by simp
    have r2: "r2 \<Longrightarrow> hover i w w2" "\<not> r2 \<Longrightarrow> hlive i w w2"
      using s2 handshake_stage [of i w1 api k ev] p1 h hstage_trans [OF l1, of "(r2, w2)"] by (auto simp: hstage_def)
    show ?thesis
    proof (cases r2)
      case True
      then show ?thesis using eq False h r2 by (simp add: hpolled_def)
    next
      case nr2: False
      note l2 = r2(2) [OF nr2] and p2 = live_parts [OF r2(2) [OF nr2] assms(2)]
      obtain r3 w3 where s: "hctx_send api i k w2 = (r3, w3)" by fastforce
      have r3: "r3 \<Longrightarrow> hover i w w3" "\<not> r3 \<Longrightarrow> hlive i w w3"
        using send_stage [of i w2 api k] p2 s hstage_trans [OF l2, of "(r3, w3)"] by (auto simp: hstage_def)
      show ?thesis
      proof (cases r3)
        case True
        then show ?thesis using eq False h nr2 s r3 by (simp add: hpolled_def)
      next
        case nr3: False
        note l3 = r3(2) [OF nr3] and p3 = live_parts [OF r3(2) [OF nr3] assms(2)]
        obtain r4 w4 where r: "hctx_read api i k ev w3 = Some (r4, w4)" "w' = (if r4 then w4 else hctx_after_read api i ev w4)"
          using eq False h nr2 s nr3 by auto
        have r4: "r4 \<Longrightarrow> hover i w w4" "\<not> r4 \<Longrightarrow> hlive i w w4"
          using read_stage [OF r(1)] p3 assms(5) hstage_trans [OF l3, of "(r4, w4)"] by (auto simp: hstage_def)
        show ?thesis
        proof (cases r4)
          case True
          then show ?thesis using r(2) r4 by (simp add: hpolled_def)
        next
          case nr4: False
          note l4 = r4(2) [OF nr4] and p4 = live_parts [OF r4(2) [OF nr4] assms(2)]
          then show ?thesis using r(2) nr4 after_read_polled [of i w4 api ev] hpolled_trans [OF l4] by simp
        qed
      qed
    qed
  qed
qed

lemma serve_hit_over:
  assumes "i < length (https_slots w)" "hctx_ok (hslot w i)" "hs_busy (hslot w i)"
  shows "hover i w (hctx_serve_hit api i w)"
proof -
  define body where "body = (case hx_cache_hit_body (hslot w i) of None \<Rightarrow> [] | Some b \<Rightarrow> b)"
  define c where "c = (hslot w i)\<lparr>hx_status := hx_cache_hit_status (hslot w i),
     hx_body_bytes := if body \<noteq> [] then int (length body) else hx_body_bytes (hslot w i), hx_cache_eligible := False\<rparr>"
  define evs where "evs = SetHttpCode (hx_parent (hslot w i)) (hx_cache_hit_status (hslot w i))
      # (if hx_cache_hit_mime (hslot w i) \<noteq> [] then [Callback (hx_parent (hslot w i)) (FETCH_HEADER (''Content-Type: '' @ hx_cache_hit_mime (hslot w i)))] else [])
      @ (if body \<noteq> [] then [Callback (hx_parent (hslot w i)) (FETCH_DATA body)] else [])"
  have k: "hx_kept (hslot w i) c" unfolding c_def by (rule kept_simps)
  have "hlive i w (hput i c (hemit evs w))"
    using kept_ok [OF k assms(2)] assms by (intro hlive_put [where c = c and evs = evs]) (auto simp: evs_def)
  moreover have "hctx_serve_hit api i w = hctx_finish api i (hput i c (hemit evs w))"
    unfolding hctx_serve_hit_def Let_def c_def evs_def body_def ..
  ultimately show ?thesis using live_finish [OF _ assms(1)] by simp
qed

lemma open_polled:
  assumes "i < length (https_slots w)" "hctx_ok (hslot w i)" "hx_state (hslot w i) = HS_QUEUED" "hx_started (hslot w i)"
  shows "hpolled api i w (hctx_open api i w)"
proof -
  define c where "c = hslot w i"
  have busy: "hs_busy c" using assms(3) by (simp add: c_def hx_state_defs)
  have bd: "hx_bounds c" using assms(2) by (simp add: c_def hctx_ok_def)
  have over: "hover i w (hctx_fail api i why ((hput i x w)\<lparr>https_pool := p, hs_tls := t\<rparr>))"
    if "hx_bounds x" "hx_parent x = hx_parent c" "hx_state x = HS_QUEUED" for x p t why
  proof -
    let ?y = "(hput i x w)\<lparr>https_pool := p, hs_tls := t\<rparr>"
    have "hover i ?y (hctx_fail api i why ?y)" using assms(1) that by (intro fail_hover) simp_all
    then show ?thesis using assms(1) that(2) by (simp add: hover_def slot_frame_def c_def nth_list_update)
  qed
  have live: "hlive i w (hput i x y) \<and> in_time api i (hput i x y)"
    if a: "hx_bounds x" "hx_parent x = hx_parent c" "hx_connected x" "hx_conn x \<noteq> None" "hx_progress_ticks x = now_ticks api y"
      "\<exists>z. https_slots y = (https_slots w)[i := z]" "hs_events y = hs_events w" for x y
  proof -
    obtain z where z: "https_slots y = (https_slots w)[i := z]" using a(6) by blast
    have "hctx_ok x" "hs_busy x" using a(1,3,4) by (simp_all add: hctx_ok_def hs_busy_def)
    then have "hlive i w (hput i x y)" using assms(1) a(2,7) z by (intro hlive_put [where c = x and evs = "[]"]) (simp_all add: c_def)
    moreover have "hslot (hput i x y) i = x" "now_ticks api (hput i x y) = now_ticks api y" using assms(1) z by (simp_all add: now_ticks_def)
    ultimately show ?thesis using a(5) by (simp add: in_time_def NO_PROGRESS_TICKS_def)
  qed
  show ?thesis
  proof (cases "dead_host_check (Some (hx_pool_key c)) (hs_hosts w)")
    case True
    then show ?thesis using assms(4) busy_fail [OF assms(1,2)] busy by (simp add: hctx_open_def Let_def c_def hpolled_def)
  next
    case alive: False
    obtain ko pool t where tk: "https_pool_take (ta_tls api) (hx_pool_key c) (https_pool w) (hs_tls w) = (ko, pool, t)" by (metis prod_cases3)
    show ?thesis
    proof (cases ko)
      case (Some k)
      define c1 where "c1 = c\<lparr>hx_conn := Some k, hx_from_pool := True\<rparr>"
      define w1 where "w1 = (hput i c1 w)\<lparr>https_pool := pool, hs_tls := t\<rparr>"
      have eq: "hctx_open api i w = (case build_request c1 of None \<Rightarrow> hctx_fail api i ''https: request too large'' w1
             | Some c2 \<Rightarrow> hput i (c2\<lparr>hx_progress_ticks := now_ticks api w1, hx_state := HS_SEND_REQ\<rparr>) w1)"
        using alive assms(4) unfolding hctx_open_def Let_def c_def [symmetric] tk Some option.case prod.case c1_def w1_def by simp
      show ?thesis
      proof (cases "build_request c1")
        case None
        then show ?thesis using over [of c1] bd assms(3) by (simp add: eq hpolled_def w1_def c1_def c_def)
      next
        case (Some c2)
        have k2: "hx_kept c1 c2" using build_request_ok [OF Some] .
        have "hx_bounds c1" using bd by (simp add: c1_def)
        then show ?thesis using Some k2 live [of "c2\<lparr>hx_progress_ticks := now_ticks api w1, hx_state := HS_SEND_REQ\<rparr>" w1]
          by (auto simp: eq hpolled_def hx_kept_def c1_def hx_connected_def w1_def)
      qed
    next
      case None
      obtain ok conn t1 where n: "OSTLS_New (ta_tls api) (hx_host c) (hx_port c) t = (ok, conn, t1)" by (metis prod_cases3)
      define c1 where "c1 = c\<lparr>hx_conn := conn\<rparr>"
      define w1 where "w1 = (hput i c1 w)\<lparr>https_pool := pool, hs_tls := t1\<rparr>"
      have c1: "hx_bounds c1" "hx_parent c1 = hx_parent c" "hx_state c1 = HS_QUEUED" using bd assms(3) by (simp_all add: c1_def c_def)
      have eq: "hctx_open api i w = (case conn of
                None \<Rightarrow> hctx_fail api i ''https: OSTLS_New failed'' w1
              | Some k \<Rightarrow>
                  if \<not> ok then hctx_fail api i ''https: OSTLS_New failed'' w1
                  else (case OSTLS_Start (ta_tls api) k t1 of (ok2, t2) \<Rightarrow>
                     if \<not> ok2 then hctx_fail api i ''https: OSTLS_Start failed'' (w1\<lparr>hs_tls := t2\<rparr>)
                     else hput i (c1\<lparr>hx_progress_ticks := now_ticks api (w1\<lparr>hs_tls := t2\<rparr>), hx_state := HS_TLSING\<rparr>) (w1\<lparr>hs_tls := t2\<rparr>)))"
        using alive assms(4) unfolding hctx_open_def Let_def c_def [symmetric] tk None option.case prod.case n c1_def w1_def by simp
      show ?thesis
      proof (cases "conn \<noteq> None \<and> ok")
        case False
        then have "hctx_open api i w = hctx_fail api i ''https: OSTLS_New failed'' w1" unfolding eq by (cases conn) simp_all
        then show ?thesis using over [OF c1] by (simp add: hpolled_def w1_def)
      next
        case True
        then obtain k where k: "conn = Some k" by blast
        obtain ok2 t2 where st: "OSTLS_Start (ta_tls api) k t1 = (ok2, t2)" by fastforce
        have w2: "w1\<lparr>hs_tls := t2\<rparr> = (hput i c1 w)\<lparr>https_pool := pool, hs_tls := t2\<rparr>" by (simp add: w1_def)
        have "hover i w (hctx_fail api i ''https: OSTLS_Start failed'' (w1\<lparr>hs_tls := t2\<rparr>))" unfolding w2 by (rule over [OF c1])
        moreover have "hlive i w (hput i (c1\<lparr>hx_progress_ticks := now_ticks api (w1\<lparr>hs_tls := t2\<rparr>), hx_state := HS_TLSING\<rparr>) (w1\<lparr>hs_tls := t2\<rparr>))
           \<and> in_time api i (hput i (c1\<lparr>hx_progress_ticks := now_ticks api (w1\<lparr>hs_tls := t2\<rparr>), hx_state := HS_TLSING\<rparr>) (w1\<lparr>hs_tls := t2\<rparr>))"
          using c1 k by (intro live) (auto simp: c1_def hx_connected_def w1_def)
        ultimately show ?thesis using True k st unfolding eq by (simp add: hpolled_def)
      qed
    qed
  qed
qed

lemma poll_polled:
  assumes "hctx_poll api i w = Some w'" "i < length (https_slots w)" "hctx_ok (hslot w i)" "hs_busy (hslot w i)" "decoder_sound api"
  shows "hpolled api i w w' \<or> w' = w \<and> hx_state (hslot w i) = HS_QUEUED \<and> \<not> hx_started (hslot w i)"
proof -
  have st: "hx_state (hslot w i) \<noteq> HS_IDLE" "hx_state (hslot w i) \<noteq> HS_DONE" "hx_state (hslot w i) \<noteq> HS_FAIL"
    using assms(4) by (auto simp: hx_state_defs)
  note eq = assms(1) [unfolded hctx_poll_def Let_def]
  consider (ab) "hx_aborted (hslot w i)" | (hit) "\<not> hx_aborted (hslot w i)" "hx_state (hslot w i) = HS_CACHEHIT"
    | (queued) "\<not> hx_aborted (hslot w i)" "hx_state (hslot w i) = HS_QUEUED"
    | (conn) "\<not> hx_aborted (hslot w i)" "hx_connected (hslot w i)" using assms(4) by (auto simp: hs_busy_def)
  then show ?thesis
  proof cases
    case ab
    then show ?thesis using eq st busy_fail [OF assms(2-4)] by (auto simp: hpolled_def)
  next
    case hit
    then show ?thesis using eq st serve_hit_over [OF assms(2-4)] by (auto simp: hpolled_def)
  next
    case queued
    show ?thesis
    proof (cases "hx_started (hslot w i)")
      case True
      then show ?thesis using eq st queued open_polled [OF assms(2,3) queued(2), of api] by auto
    next
      case False
      then show ?thesis using eq st queued by (auto simp: hctx_open_def Let_def)
    qed
  next
    case conn
    then obtain k where k: "hx_conn (hslot w i) = Some k" using assms(3) by (auto simp: hctx_ok_def)
    have "hctx_drive api i k w = Some w'" using eq st conn k by (auto simp: hx_connected_def)
    then show ?thesis using drive_polled [OF _ assms(2-5)] by blast
  qed
qed

lemma poll_slot_polled:
  assumes "https_poll_slot api i w = Some w'" "i < length (https_slots w)" "hctx_ok (hslot w i)" "hs_busy (hslot w i)" "decoder_sound api"
  shows "hpolled api i w w' \<or> w' = w \<and> hx_state (hslot w i) = HS_QUEUED \<and> \<not> hx_started (hslot w i)"
proof (cases "hx_aborted (hslot w i) \<and> hx_state (hslot w i) = HS_QUEUED")
  case True
  then show ?thesis using assms(1) busy_fail [OF assms(2-4)] by (auto simp: https_poll_slot_def Let_def hpolled_def)
next
  case False
  have "hx_state (hslot w i) \<noteq> HS_IDLE" using assms(4) by (auto simp: hx_state_defs)
  then have "hctx_poll api i w = Some w'" using assms(1) False by (auto simp: https_poll_slot_def Let_def)
  then show ?thesis using poll_polled assms(2-5) by blast
qed

section \<open>The fetcher is a slot fetcher\<close>

lemma https_poll_from_all: "https_poll_from api is = poll_all (https_poll_slot api) is"
proof (induction "is")
  case (Cons i "is")
  then show ?case by (intro ext) simp
qed (intro ext, simp)

lemma poll_slot_frame:
  assumes "https_poll_slot api i w = Some w'" "i < length (https_slots w)" "hs_busy (hslot w i)" "hctx_ok (hslot w i) \<and> decoder_sound api"
  shows "hover i w w' \<or> hlive i w w'"
  using poll_slot_polled [OF assms(1,2) _ assms(3)] assms(3,4) hlive_same [of w w i] by (auto simp: hpolled_def)

interpretation https: slot_fetcher https_slots hs_events hs_busy hs_idle hx_parent "\<lambda>c. hctx_ok c \<and> decoder_sound api" "https_poll_slot api"
  for api :: "('fs, 't, 'd) tlsapi"
proof
  fix c :: "'d macos9_https_ctx" assume "hs_busy c" then show "\<not> hs_idle c" by (auto simp: hx_state_defs)
next
  fix w :: "('fs, 't, 'd) https_world" and i
  assume "hs_idle (hslot w i)" then show "https_poll_slot api i w = Some w" by (simp add: https_poll_slot_def hs_idle_def Let_def)
next
  fix i and w w' :: "('fs, 't, 'd) https_world"
  assume a: "https_poll_slot api i w = Some w'" "i < length (https_slots w)" "hs_busy (hslot w i)" "hctx_ok (hslot w i) \<and> decoder_sound api"
  note st = poll_slot_frame [OF a]
  show "slot_frame hx_parent i (https_slots w) (https_slots w') \<and> hctx_ok (hslot w' i) \<and> decoder_sound api"
    using st a(4) by (auto simp: hlive_def hover_def)
  show "hs_busy (hslot w' i) \<and> runs (hx_parent (hslot w i)) (hs_events w) (hs_events w')
     \<or> hs_idle (hslot w' i) \<and> ends (hx_parent (hslot w i)) (hs_events w) (hs_events w')"
    using st by (auto simp: hlive_def hover_def)
qed

abbreviation https_slots_ok :: "('fs, 't, 'd) https_world \<Rightarrow> bool" where
  "https_slots_ok w \<equiv> slots_wf hs_busy hs_idle hx_parent hctx_ok (https_slots w)"

lemma slots_ok_sound: "decoder_sound api \<Longrightarrow> slots_wf hs_busy hs_idle hx_parent (\<lambda>c. hctx_ok c \<and> decoder_sound api) cs
    = slots_wf hs_busy hs_idle hx_parent hctx_ok cs"
  by (simp add: slots_wf_def)

lemma https_poll_settles:
  assumes "decoder_sound api" "https_slots_ok w" "length (https_slots w) = MAX_HTTPS_F" "macos9_https_poll api w = Some w'"
  shows "https_slots_ok w' \<and> length (https_slots w') = MAX_HTTPS_F \<and>
     (\<exists>evs. hs_events w' = hs_events w @ evs \<and> all_settled hs_busy hs_idle hx_parent (https_slots w) evs (https_slots w'))"
proof -
  have p: "poll_all (https_poll_slot api) [0..<MAX_HTTPS_F] w = Some w'"
    using assms(4) unfolding macos9_https_poll_def https_poll_from_all .
  have ok: "slots_wf hs_busy hs_idle hx_parent (\<lambda>c. hctx_ok c \<and> decoder_sound api) (https_slots w)"
    unfolding slots_ok_sound [OF assms(1)] by (rule assms(2))
  from https.poll_all_settles [OF p distinct_upt _ ok] assms(3) show ?thesis
    unfolding slots_ok_sound [OF assms(1)] by auto
qed

section \<open>Reachable states\<close>

lemma port_bounds: "0 < hs_port_of u \<and> hs_port_of u < 65536"
proof -
  have "0 \<le> atol_c s mod 65536 \<and> atol_c s mod 65536 < 65536" for s by simp
  then show ?thesis by (auto simp: hs_port_of_def Let_def less_le split: option.splits)
qed

lemma port_length: "length (show_int (hs_port_of u)) \<le> 5"
proof -
  have "nat (hs_port_of u) < 10 ^ 5" using port_bounds [of u] by (simp add: nat_less_iff)
  then show ?thesis using show_nat_length [of "nat (hs_port_of u)" 5] port_bounds [of u] by (simp add: show_int_def)
qed

lemma path_length: "length (hs_path_of u) < 1024"
  by (auto simp: hs_path_of_def Let_def split: option.splits)

text \<open>The slot a successful setup returns, and the slots it leaves alone.\<close>

lemma first_idle_hslot_Some: "first_idle_hslot cs = Some i \<Longrightarrow> i < length cs \<and> hx_state (cs ! i) = HS_IDLE"
  by (induction cs arbitrary: i) (auto split: if_splits)

lemma fresh_bounds: "hx_bounds (fresh_hslot api p u)"
  by (simp add: hx_bounds_def fresh_hslot_def hx_hdr_len_def hx_cap_len_def REQ_BUF_def HTTPS_POOL_KEY_LEN_def HDR_BUF_MAX_def
      MACSURF_CACHE_MAX_BYTES_def)

lemma setup_target_ok:
  assumes "hs_setup_target api u host c dc = (c', dc')" "hx_bounds c" "hx_conn c = None" "hx_state c = HS_QUEUED"
  shows "hctx_ok c' \<and> hs_busy c' \<and> hx_parent c' = hx_parent c"
proof -
  define c1 where "c1 = c\<lparr>hx_host := take 255 host, hx_port := hs_port_of u, hx_pool_key := take 255 host @ '':'' @ show_int (hs_port_of u),
      hx_path := hs_path_of u\<rparr>"
  have b1: "hx_bounds c1" using assms(2) port_length [of u] path_length [of u]
    by (auto simp: c1_def hx_bounds_def HTTPS_POOL_KEY_LEN_def hx_hdr_len_def hx_cap_len_def)
  have c1: "hx_conn c1 = None" "hx_state c1 = HS_QUEUED" "hx_parent c1 = hx_parent c" using assms(3,4) by (simp_all add: c1_def)
  show ?thesis
  proof (cases "hx_post_body c1 = None \<and> fst (macos9_cache_lookup (ta_fm api) (ta_malloc api) (Some (url_string u)) 128 dc) \<noteq> None")
    case False
    then have "c' = c1"
      using assms(1) unfolding hs_setup_target_def Let_def c1_def [symmetric] by (auto split: if_splits prod.splits option.splits)
    then show ?thesis using b1 c1 by (simp add: hctx_ok_def hx_state_defs)
  next
    case True
    then obtain h dc2 where h: "macos9_cache_lookup (ta_fm api) (ta_malloc api) (Some (url_string u)) 128 dc = (Some h, dc2)"
      by (cases "macos9_cache_lookup (ta_fm api) (ta_malloc api) (Some (url_string u)) 128 dc") auto
    have "c' = c1\<lparr>hx_cache_hit_body := Some (ch_body h), hx_cache_hit_mime := ch_mime h, hx_cache_hit_status := ch_status h,
                       hx_state := HS_CACHEHIT, hx_mime := take 127 (ch_mime h), hx_status := ch_status h,
                       hx_content_length := int (length (ch_body h)), hx_keep_alive_ok := False\<rparr>"
      using assms(1) True h unfolding hs_setup_target_def Let_def c1_def [symmetric] by simp
    then show ?thesis using b1 c1 by (simp add: hctx_ok_def hx_state_defs hx_bounds_def hx_hdr_len_def hx_cap_len_def)
  qed
qed

lemma setup_effect:
  assumes "macos9_https_setup api p u pu w = (r, w')" "\<forall>c \<in> set (https_slots w). hctx_ok c"
  shows "hs_events w' = hs_events w \<and> (https_slots w' = https_slots w \<or>
     (\<exists>i c. i < length (https_slots w) \<and> hs_idle (hslot w i) \<and> https_slots w' = (https_slots w)[i := c] \<and> hctx_ok c
        \<and> (r = Some i \<and> hs_busy c \<and> hx_parent c = p \<or> r = None \<and> hs_idle c)))"
proof (cases "first_idle_hslot (https_slots w)")
  case None
  then show ?thesis using assms(1) by (simp add: macos9_https_setup_def)
next
  case (Some i)
  have i: "i < length (https_slots w)" "hs_idle (hslot w i)" using first_idle_hslot_Some [OF Some] by (auto simp: hs_idle_def)
  define c0 where "c0 = fresh_hslot api p u"
  define c where "c = (case pu of None \<Rightarrow> c0 | Some b \<Rightarrow> c0\<lparr>hx_post_body := Some b, hx_keep_alive_ok := False\<rparr>)"
  have c0: "hx_bounds c0" "hx_conn c0 = None" "hx_state c0 = HS_QUEUED" "hx_parent c0 = p"
    unfolding c0_def using fresh_bounds by (simp_all add: fresh_hslot_def)
  have c: "hx_bounds c" "hx_conn c = None" "hx_state c = HS_QUEUED" "hx_parent c = p"
    using c0 by (simp_all add: c_def hx_bounds_def hx_hdr_len_def hx_cap_len_def split: option.split)
  have gone: "hctx_ok (x\<lparr>hx_state := HS_IDLE, hx_url := None\<rparr>) \<and> hs_idle (x\<lparr>hx_state := HS_IDLE, hx_url := None\<rparr>)"
    if "hx_bounds x" "hx_conn x = None" for x :: "'c macos9_https_ctx"
    using that by (simp add: hctx_ok_def hx_state_defs hx_bounds_def hx_hdr_len_def hx_cap_len_def)
  note eq = assms(1) [unfolded macos9_https_setup_def Some option.case Let_def c0_def [symmetric] c_def [symmetric]]
  show ?thesis
  proof (cases "case pu of None \<Rightarrow> False | Some b \<Rightarrow> \<not> ta_malloc api (length b)")
    case True
    then show ?thesis using eq i gone [OF c0(1,2)] by auto
  next
    case nf: False
    show ?thesis
    proof (cases "url_host u")
      case None
      then show ?thesis using eq nf i gone [OF c(1,2)] by auto
    next
      case (Some host)
      obtain c' dc where t: "hs_setup_target api u host c (hs_dcache w) = (c', dc)" by fastforce
      then show ?thesis using eq nf Some i setup_target_ok [OF t c(1-3)] c(4) by auto
    qed
  qed
qed

lemma wf_update:
  assumes "https_slots_ok w" "i < length (https_slots w)" "hctx_ok c" "hs_busy c \<or> hs_idle c"
    and "\<forall>j < length (https_slots w). j \<noteq> i \<longrightarrow> hs_busy (hslot w j) \<longrightarrow> hs_busy c \<longrightarrow> hx_parent (hslot w j) \<noteq> hx_parent c"
    and "https_slots w' = (https_slots w)[i := c]"
  shows "https_slots_ok w'"
proof -
  have n: "hslot w' j = (if j = i then c else hslot w j)" if "j < length (https_slots w)" for j
    using that assms(2,6) by (simp add: nth_list_update)
  have l: "length (https_slots w') = length (https_slots w)" using assms(6) by simp
  show ?thesis unfolding slots_wf_def l
  proof (intro conjI allI impI)
    fix j assume j: "j < length (https_slots w)"
    show "hctx_ok (hslot w' j)" using n [OF j] assms(1,3) j by (simp add: slots_wf_def)
    show "hs_busy (hslot w' j) \<or> hs_idle (hslot w' j)" using n [OF j] assms(1,4) j by (simp add: slots_wf_def)
    fix k assume k: "k < length (https_slots w)" "j \<noteq> k" "hs_busy (hslot w' j)" "hs_busy (hslot w' k)"
    show "hx_parent (hslot w' j) \<noteq> hx_parent (hslot w' k)"
      using n [OF j] n [OF k(1)] k(2-4) j k(1) assms(1,5) unfolding slots_wf_def by (metis (no_types, lifting))
  qed
qed

text \<open>
  The worlds the fetcher can be in: 64 free slots at first, then any sequence of its operations.
  The core passes a new fetch to \<open>setup\<close>, and a slot index it got from \<open>setup\<close> to \<open>start\<close> and
  \<open>abort\<close>.
\<close>

inductive https_reach :: "('fs, 't, 'd) tlsapi \<Rightarrow> ('fs, 't, 'd) https_world \<Rightarrow> bool" for api where
  reach_init: "length (https_slots w) = MAX_HTTPS_F \<Longrightarrow> \<forall>c \<in> set (https_slots w). hctx_ok c \<and> hs_idle c \<Longrightarrow> https_reach api w"
| reach_setup: "https_reach api w \<Longrightarrow> \<forall>c \<in> set (https_slots w). hs_busy c \<longrightarrow> hx_parent c \<noteq> p
    \<Longrightarrow> macos9_https_setup api p u pu w = (r, w') \<Longrightarrow> https_reach api w'"
| reach_start: "https_reach api w \<Longrightarrow> i < MAX_HTTPS_F \<Longrightarrow> https_reach api (macos9_https_start api i w)"
| reach_abort: "https_reach api w \<Longrightarrow> i < MAX_HTTPS_F \<Longrightarrow> https_reach api (macos9_https_abort i w)"
| reach_poll: "https_reach api w \<Longrightarrow> macos9_https_poll api w = Some w' \<Longrightarrow> https_reach api w'"

lemma reach_ok:
  assumes "https_reach api w" "decoder_sound api"
  shows "length (https_slots w) = MAX_HTTPS_F \<and> https_slots_ok w"
  using assms
proof (induction rule: https_reach.induct)
  case (reach_init w)
  then have "\<And>i. i < length (https_slots w) \<Longrightarrow> hctx_ok (hslot w i) \<and> hs_idle (hslot w i) \<and> \<not> hs_busy (hslot w i)"
    by (simp add: hx_state_defs)
  then show ?case using reach_init by (simp add: slots_wf_def)
next
  case (reach_setup w p u pu r w')
  then have ok: "length (https_slots w) = MAX_HTTPS_F" "https_slots_ok w" by auto
  have all: "\<forall>c \<in> set (https_slots w). hctx_ok c" using ok(2) by (auto simp: slots_wf_def in_set_conv_nth)
  have new: "\<And>j. j < length (https_slots w) \<Longrightarrow> hs_busy (hslot w j) \<Longrightarrow> hx_parent (hslot w j) \<noteq> p" using reach_setup.hyps(2) by simp
  show ?case
  proof (cases "https_slots w' = https_slots w")
    case False
    then obtain i c where a: "i < length (https_slots w)" "https_slots w' = (https_slots w)[i := c]" "hctx_ok c"
      "r = Some i \<and> hs_busy c \<and> hx_parent c = p \<or> r = None \<and> hs_idle c"
      using setup_effect [OF reach_setup.hyps(3) all] by blast
    have "hs_idle c \<Longrightarrow> \<not> hs_busy c" by (simp add: hx_state_defs)
    then have "https_slots_ok w'" using a(4) new by (intro wf_update [OF ok(2) a(1,3) _ _ a(2)]) auto
    then show ?thesis using ok(1) a(2) by simp
  qed (use ok in simp)
next
  case (reach_start w i)
  then have ok: "length (https_slots w) = MAX_HTTPS_F" "https_slots_ok w" by auto
  define c where "c = (let c = (hslot w i)\<lparr>hx_started := True\<rparr> in if hx_state c = HS_QUEUED then c\<lparr>hx_progress_ticks := now_ticks api w\<rparr> else c)"
  have i: "i < length (https_slots w)" using reach_start.hyps(2) ok(1) by simp
  have si: "hctx_ok (hslot w i)" "hs_busy (hslot w i) \<or> hs_idle (hslot w i)" using ok(2) i by (simp_all add: slots_wf_def)
  have c: "hctx_ok c" "hs_busy c = hs_busy (hslot w i)" "hs_idle c = hs_idle (hslot w i)" "hx_parent c = hx_parent (hslot w i)"
    using si(1) by (auto simp: c_def Let_def hctx_ok_def hx_state_defs)
  have e: "https_slots (macos9_https_start api i w) = (https_slots w)[i := c]"
    unfolding macos9_https_start_def Let_def c_def by simp
  have "https_slots_ok (macos9_https_start api i w)"
    using c(2,3,4) si(2) ok(2) i by (intro wf_update [OF ok(2) i c(1) _ _ e]) (auto simp: slots_wf_def)
  then show ?case using ok(1) e by simp
next
  case (reach_abort w i)
  then have ok: "length (https_slots w) = MAX_HTTPS_F" "https_slots_ok w" by auto
  let ?c = "(hslot w i)\<lparr>hx_aborted := True\<rparr>"
  have i: "i < length (https_slots w)" using reach_abort.hyps(2) ok(1) by simp
  have si: "hctx_ok (hslot w i)" "hs_busy (hslot w i) \<or> hs_idle (hslot w i)" using ok(2) i by (simp_all add: slots_wf_def)
  have c: "hctx_ok ?c" "hs_busy ?c = hs_busy (hslot w i)" "hs_idle ?c = hs_idle (hslot w i)"
    using si(1) by (simp_all add: hctx_ok_def hx_state_defs)
  have e: "https_slots (macos9_https_abort i w) = (https_slots w)[i := ?c]" by (simp add: macos9_https_abort_def)
  have "https_slots_ok (macos9_https_abort i w)"
    using c(2,3) si(2) ok(2) i by (intro wf_update [OF ok(2) i c(1) _ _ e]) (auto simp: slots_wf_def)
  then show ?case using ok(1) e by simp
next
  case (reach_poll w w')
  then show ?case using https_poll_settles [of api w w'] by simp
qed

section \<open>A decoder error\<close>

text \<open>
  \<open>feed_body\<close> answers 1 after \<open>hctx_fail\<close>, so its caller goes on to \<open>hctx_finish\<close>, on a slot
  that has already been cleared.
\<close>

lemma error_twice:
  assumes "feed_body api i b w = Some r" "i < length (https_slots w)" "hctx_ok (hslot w i)" "hs_busy (hslot w i)"
    "b \<noteq> []" "hx_chunked (hslot w i)" "feed_chunks api b (hslot w i) [] = Some (c', ms, True)"
  shows "\<exists>w' l. finish_if api i (Some r) = Some (True, w') \<and> ends (hx_parent (hslot w i)) (hs_events w) l
     \<and> ends (hx_parent (hslot w i)) l (hs_events w')"
proof -
  define p where "p = hx_parent (hslot w i)"
  define w1 where "w1 = hput i c' (hemit (map (\<lambda>d. Callback p (FETCH_DATA d)) ms) w)"
  define w2 where "w2 = hctx_fail api i ''chunked decode error'' w1"
  have r: "r = (True, w2)"
    using assms(1,5-7) unfolding w2_def w1_def p_def by (simp add: feed_body_def Let_def)
  have k: "hx_kept (hslot w i) c'" using feed_chunks_kept [OF assms(7)] by simp
  have l1: "hlive i w w1" unfolding w1_def p_def using kept_ok [OF k assms(3)] assms(2,4)
    by (intro hlive_put [where c = c' and evs = "map (\<lambda>d. Callback (hx_parent (hslot w i)) (FETCH_DATA d)) ms"]) auto
  have o2: "hover i w w2" unfolding w2_def by (rule live_fail [OF l1 assms(2)])
  then have w2: "i < length (https_slots w2)" "hx_bounds (hslot w2 i)" "hx_state (hslot w2 i) = HS_IDLE" "hx_parent (hslot w2 i) = p"
    using assms(2) by (simp_all add: hover_def slot_frame_def hctx_ok_def hs_idle_def p_def)
  then have o3: "hover i w2 (hctx_finish api i w2)" by (intro finish_hover) simp_all
  have "finish_if api i (Some r) = Some (True, hctx_finish api i w2)" by (simp add: finish_if_def r)
  moreover have "ends p (hs_events w) (hs_events w2)" "ends p (hs_events w2) (hs_events (hctx_finish api i w2))"
    using o2 o3 w2(4) by (simp_all add: hover_def p_def)
  ultimately show ?thesis unfolding p_def by blast
qed

lemma ends_ends_counts:
  assumes "ends p l l1" "ends p l1 l2"
  shows "\<exists>evs. l2 = l @ evs \<and> terminals p evs = 2 \<and> releases p evs = 2"
proof -
  obtain e1 where e1: "l1 = l @ e1" "terminals p e1 = 1" "releases p e1 = 1" using ends_counts [OF assms(1)] by auto
  obtain e2 where e2: "l2 = l1 @ e2" "terminals p e2 = 1" "releases p e2 = 1" using ends_counts [OF assms(2)] by auto
  show ?thesis using e1 e2 by (intro exI [of _ "e1 @ e2"]) simp
qed

section \<open>A world to run in\<close>

text \<open>A network that answers nothing and a decoder that passes its input on.\<close>

definition sample_tlsapi :: "(memfs, ticks, unit) tlsapi" where
  "sample_tlsapi = \<lparr>ta_fm = mem_fm, ta_tls = quiet_tls, ta_malloc = (\<lambda>_. True), ta_realloc = (\<lambda>_. True), chunk_zero = (), chunk_init = (),
     chunk_process = (\<lambda>b n d. (True, take n b, length (take n b), d)), chunk_done = (\<lambda>_. False)\<rparr>"

lemma sample_sound: "decoder_sound sample_tlsapi"
  by (simp add: decoder_sound_def sample_tlsapi_def)

definition sample_https_url :: nsurl where
  "sample_https_url = \<lparr>url_string = ''https://a.com/x'', url_scheme = Some ''https'', url_host = Some ''a.com'', url_port = None,
     url_path = Some ''/x'', url_query = None\<rparr>"

definition idle_hslot :: "unit macos9_https_ctx" where
  "idle_hslot = (fresh_hslot sample_tlsapi 0 sample_https_url)\<lparr>hx_state := HS_IDLE, hx_url := None\<rparr>"

definition idle_hworld :: "(memfs, ticks, unit) https_world" where
  "idle_hworld = \<lparr>https_slots = replicate MAX_HTTPS_F idle_hslot, https_pool = [], hs_hosts = no_hosts, hs_dcache = mem_empty, hs_tls = 0, hs_events = []\<rparr>"

lemma idle_hslot_ok: "hctx_ok idle_hslot" "hs_idle idle_hslot"
  using fresh_bounds [of sample_tlsapi 0 sample_https_url]
  by (simp_all add: idle_hslot_def hctx_ok_def hx_state_defs hx_bounds_def hx_hdr_len_def hx_cap_len_def fresh_hslot_def)

lemma idle_hworld_reach: "https_reach sample_tlsapi idle_hworld"
  by (rule reach_init) (simp_all add: idle_hworld_def idle_hslot_ok)

text \<open>The world after one fetch has been set up, and the slot it got.\<close>

definition one_hslot :: "unit macos9_https_ctx" where
  "one_hslot = (fresh_hslot sample_tlsapi 7 sample_https_url)\<lparr>hx_host := ''a.com'', hx_pool_key := ''a.com:443'', hx_path := ''/x''\<rparr>"

definition one_hworld :: "(memfs, ticks, unit) https_world" where
  "one_hworld = snd (macos9_https_setup sample_tlsapi 7 sample_https_url None idle_hworld)"

lemma one_hworld_slots: "https_slots one_hworld = one_hslot # replicate 63 idle_hslot" "hs_tls one_hworld = 0"
  "fst (macos9_https_setup sample_tlsapi 7 sample_https_url None idle_hworld) = Some 0"
  by code_simp+

lemma one_hworld_reach: "https_reach sample_tlsapi one_hworld"
proof (rule reach_setup [OF idle_hworld_reach])
  show "macos9_https_setup sample_tlsapi 7 sample_https_url None idle_hworld = (Some 0, one_hworld)"
    using one_hworld_slots(3) by (simp add: one_hworld_def prod_eq_iff)
  show "\<forall>c \<in> set (https_slots idle_hworld). hs_busy c \<longrightarrow> hx_parent c \<noteq> 7"
    using idle_hslot_ok by (auto simp: idle_hworld_def hx_state_defs)
qed

lemma one_hslot_ok: "hs_busy one_hslot" "hctx_ok one_hslot"
  by code_simp+

section \<open>Properties\<close>




lemma hpoll_from_idle: "\<forall>i \<in> set is. hx_state (hslot w i) = HS_IDLE \<Longrightarrow> https_poll_from api is w = Some w"
  by (induction "is") (simp_all add: https_poll_slot_def Let_def)

definition aborted_hworld :: "(memfs, ticks, unit) https_world" where
  "aborted_hworld = macos9_https_abort 0 one_hworld"

lemma aborted_hworld_poll:
  "\<exists>w'. macos9_https_poll sample_tlsapi aborted_hworld = Some w' \<and> hs_idle (hslot w' 0)"
proof -
  define w' where "w' = hctx_fail sample_tlsapi 0 ''https: aborted-queued'' aborted_hworld"
  have s: "https_slots aborted_hworld = one_hslot\<lparr>hx_aborted := True\<rparr> # replicate 63 idle_hslot"
    by (simp add: aborted_hworld_def macos9_https_abort_def one_hworld_slots(1))
  have st: "hx_state one_hslot = HS_QUEUED" "hx_state idle_hslot = HS_IDLE" by (simp_all add: one_hslot_def idle_hslot_def fresh_hslot_def)
  have "hx_bounds (one_hslot\<lparr>hx_aborted := True\<rparr>)" using one_hslot_ok by (simp add: hctx_ok_def)
  then have h: "hover 0 aborted_hworld w'" unfolding w'_def using s st by (intro fail_hover) simp_all
  have p0: "https_poll_slot sample_tlsapi 0 aborted_hworld = Some w'" using s st by (simp add: https_poll_slot_def Let_def w'_def)
  have "hslot w' i = idle_hslot" if "i \<in> set [1..<64]" for i
    using h that unfolding hover_def slot_frame_def s by (cases i) auto
  then have "https_poll_from sample_tlsapi [1..<64] w' = Some w'" using st by (intro hpoll_from_idle) simp
  then have "macos9_https_poll sample_tlsapi aborted_hworld = Some w'"
    using p0 by (simp add: macos9_https_poll_def MAX_HTTPS_F_def upt_conv_Cons)
  then show ?thesis using h by (auto simp: hover_def)
qed


text \<open>
  C16. No slot outlives its timeout. After a poll of a slot in flight that has been started, with
  a decoder that reports no errors, the fetch is over (one terminal message, slot freed), or the
  slot has made progress within the last 240 ticks (four seconds): a fetch whose peer goes
  silent is always ended, whatever the network does.
\<close>

theorem https_poll_slot_in_time:
  assumes "https_reach api w" "decoder_sound api" "i < MAX_HTTPS_F" "hs_busy (hslot w i)" "hx_state (hslot w i) = HS_QUEUED \<longrightarrow> hx_started (hslot w i)"
    and "https_poll_slot api i w = Some w'"
  shows "hs_idle (hslot w' i) \<and> ends (hx_parent (hslot w i)) (hs_events w) (hs_events w')
     \<or> hs_busy (hslot w' i) \<and> now_ticks api w' - hx_progress_ticks (hslot w' i) \<le> NO_PROGRESS_TICKS"
proof -
  have ok: "i < length (https_slots w)" "hctx_ok (hslot w i)" using reach_ok [OF assms(1,2)] assms(3) by (simp_all add: slots_wf_def)
  show ?thesis using poll_slot_polled [OF assms(6) ok assms(4,2)] assms(5) by (auto simp: hpolled_def hover_def hlive_def in_time_def)
qed

theorem https_poll_slot_in_time_witness:
  "\<exists>w'. https_poll_slot sample_tlsapi 0 (macos9_https_start sample_tlsapi 0 one_hworld) = Some w'
     \<and> (hs_idle (hslot w' 0) \<or> hs_busy (hslot w' 0) \<and> now_ticks sample_tlsapi w' - hx_progress_ticks (hslot w' 0) \<le> 240)"
proof -
  let ?w = "macos9_https_start sample_tlsapi 0 one_hworld"
  have r: "https_reach sample_tlsapi ?w" by (rule reach_start [OF one_hworld_reach]) (simp add: MAX_HTTPS_F_def)
  have s: "hslot ?w 0 = one_hslot\<lparr>hx_started := True\<rparr>"
    by (simp add: macos9_https_start_def one_hworld_slots one_hslot_def fresh_hslot_def now_ticks_def sample_tlsapi_def quiet_tls_def)
  have b: "hs_busy (hslot ?w 0)" "hx_started (hslot ?w 0)" unfolding s by (simp_all add: one_hslot_def fresh_hslot_def hx_state_defs)
  have n: "https_poll_slot sample_tlsapi 0 ?w = Some (hctx_open sample_tlsapi 0 ?w)"
    unfolding https_poll_slot_def hctx_poll_def Let_def s by (simp add: one_hslot_def fresh_hslot_def)
  show ?thesis
    using https_poll_slot_in_time [OF r sample_sound _ b(1) _ n] b(2) n by (auto simp: MAX_HTTPS_F_def NO_PROGRESS_TICKS_def)
qed

text \<open>
  A decoder error ends the fetch twice. When the chunk decoder reports an error on the body
  of a chunked response, \<open>feed_body\<close> fails the slot and still answers that the body is complete,
  so the caller finishes the freed slot: the fetch gets two terminal messages, the second of
  them \<open>FETCH_FINISHED\<close>, and \<open>fetch_free\<close> is called twice on it.
\<close>

theorem https_decode_error_twice:
  assumes "i < length (https_slots w)" "hctx_ok (hslot w i)" "hx_state (hslot w i) = HS_BODY" "hx_chunked (hslot w i)"
    and "feed_chunks api b (hslot w i) [] = Some (c', ms, True)" "b \<noteq> []"
  shows "\<exists>w' evs. finish_if api i (feed_body api i b w) = Some (True, w') \<and> hs_events w' = hs_events w @ evs
     \<and> terminals (hx_parent (hslot w i)) evs = 2 \<and> releases (hx_parent (hslot w i)) evs = 2"
proof -
  obtain r where r: "feed_body api i b w = Some r" using assms(4-6) by (simp add: feed_body_def Let_def)
  have "hs_busy (hslot w i)" using assms(3) by (simp add: hx_state_defs)
  from error_twice [OF r assms(1,2) this assms(6,4,5)] show ?thesis unfolding r using ends_ends_counts by blast
qed

definition broken_tlsapi :: "(memfs, ticks, unit) tlsapi" where
  "broken_tlsapi = sample_tlsapi\<lparr>chunk_process := (\<lambda>b n d. (False, [], 0, d))\<rparr>"

definition body_hworld :: "(memfs, ticks, unit) https_world" where
  "body_hworld = idle_hworld\<lparr>https_slots := [one_hslot\<lparr>hx_state := HS_BODY, hx_conn := Some 1, hx_chunked := True\<rparr>]\<rparr>"

theorem https_decode_error_twice_witness:
  "\<exists>w' evs. finish_if broken_tlsapi 0 (feed_body broken_tlsapi 0 ''zz'' body_hworld) = Some (True, w') \<and> hs_events w' = evs
     \<and> terminals 7 evs = 2 \<and> releases 7 evs = 2"
proof -
  let ?c = "one_hslot\<lparr>hx_state := HS_BODY, hx_conn := Some 1, hx_chunked := True\<rparr>"
  have s: "hslot body_hworld 0 = ?c" "length (https_slots body_hworld) = 1" "hs_events body_hworld = []"
    by (simp_all add: body_hworld_def idle_hworld_def)
  have ok: "hctx_ok ?c" using one_hslot_ok(2) by (simp add: hctx_ok_def hx_state_defs hx_bounds_def hx_hdr_len_def hx_cap_len_def one_hslot_def fresh_hslot_def)
  have f: "feed_chunks broken_tlsapi ''zz'' ?c [] = Some (?c, [], True)"
    by (subst feed_chunks.simps) (simp add: broken_tlsapi_def sample_tlsapi_def)
  have p: "hx_parent ?c = 7" by (simp add: one_hslot_def fresh_hslot_def)
  show ?thesis
    using https_decode_error_twice [of 0 body_hworld broken_tlsapi "''zz''" ?c "[]"] s ok f p by auto
qed

end
