(* ===== verification/HeaderProps.thy ===== *)
theory HeaderProps
  imports HttpsProps
begin

text \<open>
  What the two response header parsers see of a header block. A block of lines, joined by CR LF
  and ended by a blank line, is \<open>join_lines ls\<close> followed by CR LF CR LF. Both parsers overwrite the
  first CR of the blank line with NUL and then look for lines that end in CR LF, so the line in
  front of the blank line is never found.
\<close>

section \<open>Lines\<close>

definition line_ok :: "string \<Rightarrow> bool" where
  "line_ok l \<longleftrightarrow> l \<noteq> [] \<and> CR \<notin> set l \<and> NUL \<notin> set l"

definition ended_lines :: "string list \<Rightarrow> bytes" where
  "ended_lines ls = concat (map (\<lambda>l. l @ [CR, LF]) ls)"

definition join_lines :: "string list \<Rightarrow> bytes" where
  "join_lines ls = ended_lines (butlast ls) @ last ls"

lemma ended_lines_simps [simp]: "ended_lines [] = []" "ended_lines (l # ls) = l @ CR # LF # ended_lines ls"
  by (simp_all add: ended_lines_def)

lemma join_lines_Cons: "ls \<noteq> [] \<Longrightarrow> join_lines (l # ls) = l @ CR # LF # join_lines ls"
  by (simp add: join_lines_def)

lemma find_crlf_line: "CR \<notin> set l \<Longrightarrow> find_crlf (l @ CR # LF # r) = Some (l, r)"
proof (induction l)
  case (Cons a l)
  then show ?case by (cases l) auto
qed simp

lemma find_crlf_none: "CR \<notin> set b \<Longrightarrow> find_crlf b = None"
  by (induction b rule: find_crlf.induct) auto

lemma find_line_lines:
  assumes "line_ok l"
  shows "mfs_find_line (l @ CR # LF # r) = Some (l, r)" "find_line (l @ CR # LF # r) = Some (l, r)"
  using assms by (simp_all add: mfs_find_line_def find_line_def find_crlf_line line_ok_def)

lemma find_line_none: "CR \<notin> set b \<Longrightarrow> mfs_find_line b = None" "CR \<notin> set b \<Longrightarrow> find_line b = None"
  by (simp_all add: mfs_find_line_def find_line_def find_crlf_none)

lemma last_line_lost: "line_ok (last ls) \<Longrightarrow> CR \<notin> set (last ls @ [NUL, LF])"
  by (simp add: line_ok_def)

section \<open>The header loops\<close>

lemma mfs_header_loop_lines:
  assumes "\<forall>l \<in> set ls. line_ok l" "CR \<notin> set t"
  shows "mfs_header_loop (ended_lines ls @ t) c evs
     = (fold mfs_header_line ls c, evs @ map (\<lambda>l. Callback (fc_parent c) (FETCH_HEADER l)) ls)"
  using assms
proof (induction ls arbitrary: c evs)
  case Nil
  then show ?case by (subst mfs_header_loop.simps) (simp add: find_line_none)
next
  case (Cons l ls)
  have "l \<noteq> []" "line_ok l" using Cons.prems(1) by (simp_all add: line_ok_def)
  then show ?case using Cons header_line_same [of c l]
    by (subst mfs_header_loop.simps) (simp add: find_line_lines same_fetch_def)
qed

lemma hs_header_loop_lines:
  assumes "\<forall>l \<in> set ls. line_ok l" "CR \<notin> set t" "length kept \<le> 64"
  shows "hs_header_loop (ended_lines ls @ t) c kept force
     = (fold hs_header_line ls c, take 64 (kept @ ls), force \<or> (\<exists>l \<in> set ls. is_attachment l))"
  using assms
proof (induction ls arbitrary: c kept force)
  case Nil
  then show ?case by (subst hs_header_loop.simps) (simp add: find_line_none)
next
  case (Cons l ls)
  have l: "l \<noteq> []" "line_ok l" using Cons.prems(1) by (simp_all add: line_ok_def)
  have "take 64 ((if length kept < 64 then kept @ [l] else kept) @ ls) = take 64 (kept @ l # ls)"
    using Cons.prems(3) by (cases "length kept < 64") (simp_all add: take_Cons')
  then show ?case using l Cons.prems Cons.IH [of "if length kept < 64 then kept @ [l] else kept" "hs_header_line l c" "force \<or> is_attachment l"]
    by (subst hs_header_loop.simps) (auto simp: find_line_lines)
qed

section \<open>Properties\<close>

text \<open>
  The last header line is lost. For a block of a status line and header lines, the HTTP
  header parser forwards and applies the status line and every header line but the last one,
  whatever that line is: a \<open>Content-Length\<close>, \<open>Transfer-Encoding\<close> or \<open>Location\<close> in last place has
  no effect. Of a block that has only a status line it sees nothing, and the status stays what
  it was.
\<close>

theorem mfs_header_block_drops_last:
  assumes "\<forall>l \<in> set (s # hs). line_ok l" "strncmp_eq s ''HTTP/'' 5" "hs \<noteq> []"
  shows "mfs_header_block (join_lines (s # hs)) c =
      (let c1 = fst (mfs_status_line (Some s) c) in
       (fold mfs_header_line (butlast hs) c1,
        Callback (fc_parent c) (FETCH_HEADER s) # SetHttpCode (fc_parent c) (fc_status c1)
          # map (\<lambda>l. Callback (fc_parent c) (FETCH_HEADER l)) (butlast hs)))
   \<and> mfs_header_block (join_lines [s]) c = (c, [SetHttpCode (fc_parent c) (fc_status c)])"
proof
  define c1 where "c1 = fst (mfs_status_line (Some s) c)"
  have st: "mfs_status_line (Some s) c = (c1, [Callback (fc_parent c) (FETCH_HEADER s)])" "fc_parent c1 = fc_parent c"
    using assms(2) by (simp_all add: c1_def mfs_status_line_def split: option.splits)
  have ok: "\<forall>l \<in> set (butlast hs). line_ok l" "CR \<notin> set (last hs @ [NUL, LF])" "line_ok s"
    using assms(1,3) last_line_lost [of hs] by (auto dest: in_set_butlastD)
  have buf: "join_lines (s # hs) @ [NUL, LF] = s @ CR # LF # (ended_lines (butlast hs) @ (last hs @ [NUL, LF]))"
    using assms(3) by (simp add: join_lines_Cons) (simp add: join_lines_def)
  have "mfs_header_block (join_lines (s # hs)) c =
      mfs_header_loop (ended_lines (butlast hs) @ (last hs @ [NUL, LF])) c1
        ([Callback (fc_parent c) (FETCH_HEADER s)] @ [SetHttpCode (fc_parent c) (fc_status c1)])"
    unfolding mfs_header_block_def Let_def buf find_line_lines [OF ok(3)] option.case prod.case st ..
  also have "\<dots> = (fold mfs_header_line (butlast hs) c1,
      ([Callback (fc_parent c) (FETCH_HEADER s)] @ [SetHttpCode (fc_parent c) (fc_status c1)])
        @ map (\<lambda>l. Callback (fc_parent c) (FETCH_HEADER l)) (butlast hs))"
    unfolding mfs_header_loop_lines [OF ok(1,2)] st(2) ..
  finally show "mfs_header_block (join_lines (s # hs)) c =
      (let c1 = fst (mfs_status_line (Some s) c) in
       (fold mfs_header_line (butlast hs) c1,
        Callback (fc_parent c) (FETCH_HEADER s) # SetHttpCode (fc_parent c) (fc_status c1)
          # map (\<lambda>l. Callback (fc_parent c) (FETCH_HEADER l)) (butlast hs)))"
    unfolding Let_def c1_def [symmetric] by simp
  have n: "mfs_find_line (s @ [NUL, LF]) = None" using ok(3) by (intro find_line_none) (simp add: line_ok_def)
  have "mfs_header_loop (s @ [NUL, LF]) c evs = (c, evs)" for evs by (subst mfs_header_loop.simps) (simp add: n)
  then show "mfs_header_block (join_lines [s]) c = (c, [SetHttpCode (fc_parent c) (fc_status c)])"
    by (simp add: mfs_header_block_def join_lines_def n mfs_status_line_def)
qed

theorem mfs_header_block_drops_last_witness:
  "fc_content_length (fst (mfs_header_block (join_lines [''HTTP/1.1 200 OK'', ''Content-Type: text/html'', ''Content-Length: 5'']) idle_slot)) = -1
   \<and> fc_mime (fst (mfs_header_block (join_lines [''HTTP/1.1 200 OK'', ''Content-Type: text/html'', ''Content-Length: 5'']) idle_slot)) = ''text/html''"
proof -
  have "\<forall>l \<in> set [''HTTP/1.1 200 OK'', ''Content-Type: text/html'', ''Content-Length: 5'']. line_ok l" by code_simp
  moreover have "strncmp_eq ''HTTP/1.1 200 OK'' ''HTTP/'' 5" by code_simp
  ultimately have e: "fst (mfs_header_block (join_lines [''HTTP/1.1 200 OK'', ''Content-Type: text/html'', ''Content-Length: 5'']) idle_slot)
      = mfs_header_line ''Content-Type: text/html'' (fst (mfs_status_line (Some ''HTTP/1.1 200 OK'') idle_slot))"
    using mfs_header_block_drops_last [of "''HTTP/1.1 200 OK''" "[''Content-Type: text/html'', ''Content-Length: 5'']" idle_slot]
    by (simp add: Let_def)
  show ?thesis unfolding e by code_simp
qed

text \<open>
  Attachments are always downloaded. The HTTPS header parser forwards the status line and the
  first 64 header lines, the last line of the block left out; if any line it sees says that the
  body is an attachment, the context's MIME type is \<open>application/octet-stream\<close> and every
  \<open>Content-Type\<close> line, before or after that line, is forwarded as that type.
\<close>

theorem hs_header_block_forwards:
  assumes "\<forall>l \<in> set (s # hs). line_ok l" "strncmp_eq s ''HTTP/'' 5" "hs \<noteq> []"
  shows "(let c1 = fst (hs_status_line (Some s) c); force = (\<exists>l \<in> set (butlast hs). is_attachment l); r = hs_header_block (join_lines (s # hs)) c in
     snd r = Callback (hx_parent c) (FETCH_HEADER s) # SetHttpCode (hx_parent c) (hx_status c1)
        # map (\<lambda>l. Callback (hx_parent c) (FETCH_HEADER (if force \<and> strncasecmp_eq l ''Content-Type:'' 13 then forced_ct else l)))
            (take 64 (butlast hs))
     \<and> (force \<longrightarrow> hx_mime (fst r) = ''application/octet-stream''))"
proof -
  define c1 where "c1 = fst (hs_status_line (Some s) c)"
  define force where "force = (\<exists>l \<in> set (butlast hs). is_attachment l)"
  have st: "hs_status_line (Some s) c = (c1, [Callback (hx_parent c) (FETCH_HEADER s)])"
    using assms(2) by (simp add: c1_def hs_status_line_def split: option.splits)
  have ok: "\<forall>l \<in> set (butlast hs). line_ok l" "CR \<notin> set (last hs @ [NUL, LF])" "line_ok s"
    using assms(1,3) last_line_lost [of hs] by (auto dest: in_set_butlastD)
  have buf: "join_lines (s # hs) @ [NUL, LF] = s @ CR # LF # (ended_lines (butlast hs) @ (last hs @ [NUL, LF]))"
    using assms(3) by (simp add: join_lines_Cons) (simp add: join_lines_def)
  have lp: "hs_header_loop (ended_lines (butlast hs) @ (last hs @ [NUL, LF])) c1 [] False
      = (fold hs_header_line (butlast hs) c1, take 64 (butlast hs), force)"
    using hs_header_loop_lines [OF ok(1,2), of "[]" c1 False] by (simp add: force_def)
  have "hs_header_block (join_lines (s # hs)) c =
     (if force then (fold hs_header_line (butlast hs) c1)\<lparr>hx_mime := ''application/octet-stream''\<rparr> else fold hs_header_line (butlast hs) c1,
      [Callback (hx_parent c) (FETCH_HEADER s)] @ SetHttpCode (hx_parent c) (hx_status c1)
        # map (\<lambda>p. Callback (hx_parent c) (FETCH_HEADER (forward_line force p))) (take 64 (butlast hs)))"
    unfolding hs_header_block_def Let_def buf find_line_lines [OF ok(3)] option.case prod.case st lp ..
  then show ?thesis unfolding Let_def c1_def [symmetric] force_def [symmetric] by (simp add: forward_line_def)
qed

theorem hs_header_block_forwards_witness:
  "hx_mime (fst (hs_header_block (join_lines [''HTTP/1.1 200 OK'', ''Content-Type: text/html'', ''Content-Disposition: attachment'', ''X: y''])
      idle_hslot)) = ''application/octet-stream''"
proof -
  let ?hs = "[''Content-Type: text/html'', ''Content-Disposition: attachment'', ''X: y'']"
  have "\<forall>l \<in> set (''HTTP/1.1 200 OK'' # ?hs). line_ok l" "strncmp_eq ''HTTP/1.1 200 OK'' ''HTTP/'' 5"
    "\<exists>l \<in> set (butlast ?hs). is_attachment l" by code_simp+
  then show ?thesis using hs_header_block_forwards [of "''HTTP/1.1 200 OK''" ?hs idle_hslot] by (simp add: Let_def)
qed

end
