(* ===== verification/CaptureRefine.thy ===== *)
theory CaptureRefine
  imports HttpsProps
begin

text \<open>
  The two capture buffers that collect a body for the disk cache, \<open>cache_capture_append\<close> of the
  HTTP fetcher and \<open>hctx_cache_capture\<close> of the HTTPS fetcher, implement one abstract buffer: the
  bytes so far, or given up. The interface is the locale \<open>capture_buffer\<close>, interpreted on both.
\<close>

section \<open>The abstract buffer\<close>

text \<open>
  \<open>None\<close>: given up for good. An append is given up when the body outgrows the cache's limit, and
  may be given up for want of memory (\<open>room = False\<close>).
\<close>

definition cap_append :: "bool \<Rightarrow> bytes \<Rightarrow> bytes option \<Rightarrow> bytes option" where
  "cap_append room b s =
     (case s of
        None \<Rightarrow> None
      | Some x \<Rightarrow> if b = [] then Some x
                  else if int (length x + length b) \<le> MACSURF_CACHE_MAX_BYTES \<and> room then Some (x @ b) else None)"

text \<open>What a body in pieces leaves in the buffer when memory does not run out.\<close>

definition cap_spec :: "bytes list \<Rightarrow> bytes option" where
  "cap_spec bs = (if int (length (concat bs)) \<le> MACSURF_CACHE_MAX_BYTES then Some (concat bs) else None)"

lemma cap_append_None [simp]: "cap_append room b None = None"
  by (simp add: cap_append_def)

lemma cap_append_spec: "cap_append True b (cap_spec bs) = cap_spec (bs @ [b])"
  by (auto simp: cap_append_def cap_spec_def)

lemma cap_append_le: "cap_append room b s \<noteq> None \<Longrightarrow> cap_append room b s = cap_append True b s"
  by (auto simp: cap_append_def split: option.splits if_splits)

section \<open>The interface\<close>

text \<open>
  \<open>contents\<close> is the abstraction, \<open>collects\<close> says that the response is being captured; \<open>roomy\<close>
  that \<open>realloc\<close> never fails.
\<close>

locale capture_buffer =
  fixes contents :: "'c \<Rightarrow> bytes option"
    and collects :: "'c \<Rightarrow> bool"
    and append_bytes :: "bytes \<Rightarrow> 'c \<Rightarrow> 'c"
    and roomy :: bool
  assumes append_refines: "collects c \<Longrightarrow> \<exists>room. (roomy \<longrightarrow> room) \<and> contents (append_bytes b c) = cap_append room b (contents c)"
    and append_collects: "collects c \<Longrightarrow> collects (append_bytes b c)"
begin

lemma append_contents:
  assumes "collects c" "contents c = None \<or> contents c = cap_spec bs" "roomy \<longrightarrow> contents c = cap_spec bs"
  shows "contents (append_bytes b c) = None \<or> contents (append_bytes b c) = cap_spec (bs @ [b])"
    and "roomy \<longrightarrow> contents (append_bytes b c) = cap_spec (bs @ [b])"
proof -
  obtain room where r: "roomy \<longrightarrow> room" "contents (append_bytes b c) = cap_append room b (contents c)"
    using append_refines [OF assms(1)] by blast
  show "contents (append_bytes b c) = None \<or> contents (append_bytes b c) = cap_spec (bs @ [b])"
    using assms(2) r(2) cap_append_le [of room b "cap_spec bs"]
    by (cases "cap_append room b (cap_spec bs) = None") (auto simp: cap_append_spec)
  show "roomy \<longrightarrow> contents (append_bytes b c) = cap_spec (bs @ [b])"
    using assms(3) r by (auto simp: cap_append_spec)
qed

lemma run_contents_from:
  assumes "collects c" "contents c = None \<or> contents c = cap_spec pre" "roomy \<longrightarrow> contents c = cap_spec pre"
  shows "(contents (fold append_bytes bs c) = None \<or> contents (fold append_bytes bs c) = cap_spec (pre @ bs))
     \<and> (roomy \<longrightarrow> contents (fold append_bytes bs c) = cap_spec (pre @ bs))"
  using assms
proof (induction bs arbitrary: c pre)
  case (Cons b bs)
  show ?case using Cons.IH [OF append_collects [OF Cons.prems(1)] append_contents [OF Cons.prems]] by simp
qed simp

lemma run_contents:
  assumes "collects c" "contents c = Some []"
  shows "(contents (fold append_bytes bs c) = None \<or> contents (fold append_bytes bs c) = cap_spec bs)
     \<and> (roomy \<longrightarrow> contents (fold append_bytes bs c) = cap_spec bs)"
  using run_contents_from [of c "[]" bs] assms by (simp add: cap_spec_def MACSURF_CACHE_MAX_BYTES_def)

end

section \<open>The two implementations\<close>

definition http_captured :: "'a body_ctx_scheme \<Rightarrow> bytes option" where
  "http_captured c = (if cache_overflow c then None else Some (case cache_capture c of None \<Rightarrow> [] | Some b \<Rightarrow> b))"

definition https_captured :: "'d macos9_https_ctx \<Rightarrow> bytes option" where
  "https_captured c = (if hx_cache_overflow c then None else Some (case hx_cache_capture c of None \<Rightarrow> [] | Some b \<Rightarrow> b))"

lemma http_capture_refines:
  assumes "cache_eligible c"
  shows "\<exists>room. ((\<forall>n. realloc_ok n) \<longrightarrow> room) \<and> http_captured (cache_capture_append realloc_ok b c) = cap_append room b (http_captured c)"
  using assms unfolding cache_capture_append_def Let_def cache_capture_drop_def http_captured_def cap_append_def cache_cap_len_def
  by (cases "cache_capture c") (auto intro: exI [of _ True] exI [of _ False])

lemma https_capture_refines:
  assumes "hx_cache_eligible c"
  shows "\<exists>room. ((\<forall>n. ta_realloc api n) \<longrightarrow> room) \<and> https_captured (hctx_cache_capture api b c) = cap_append room b (https_captured c)"
  using assms unfolding hctx_cache_capture_def Let_def hx_cap_drop_def https_captured_def cap_append_def hx_cap_len_def
  by (cases "hx_cache_capture c") (auto intro: exI [of _ True] exI [of _ False])

interpretation http_cap: capture_buffer http_captured cache_eligible "cache_capture_append realloc_ok" "\<forall>n. realloc_ok n" for realloc_ok
  using http_capture_refines
  by unfold_locales (blast, simp add: cache_capture_append_def cache_capture_drop_def Let_def)

interpretation https_cap: capture_buffer https_captured hx_cache_eligible "hctx_cache_capture api" "\<forall>n. ta_realloc api n" for api
  using https_capture_refines
  by unfold_locales (blast, simp add: hctx_cache_capture_def hx_cap_drop_def Let_def)

section \<open>Property\<close>

text \<open>
  C17. One capture buffer. Both fetchers' capture buffers refine the abstract buffer: after the body
  of a cacheable response has arrived in any pieces, a buffer that was empty holds exactly the
  whole body, or has been given up; it is given up when the body is longer than 1 MB, and when
  \<open>realloc\<close> never fails only then. So the disk cache is never handed part of a body.
\<close>

theorem capture_refinement:
  assumes "cache_eligible c" "http_captured c = Some []" "hx_cache_eligible h" "https_captured h = Some []"
  shows "http_captured (fold (cache_capture_append realloc_ok) bs c) \<in> {None, cap_spec bs}
     \<and> https_captured (fold (hctx_cache_capture api) bs h) \<in> {None, cap_spec bs}
     \<and> ((\<forall>n. realloc_ok n) \<longrightarrow> http_captured (fold (cache_capture_append realloc_ok) bs c) = cap_spec bs)
     \<and> ((\<forall>n. ta_realloc api n) \<longrightarrow> https_captured (fold (hctx_cache_capture api) bs h) = cap_spec bs)"
  using http_cap.run_contents [OF assms(1,2), of realloc_ok bs] https_cap.run_contents [OF assms(3,4), of api bs] by auto

theorem capture_refinement_witness:
  "http_captured (fold (cache_capture_append (\<lambda>n. True)) [''ab'', ''c''] (idle_slot\<lparr>cache_eligible := True\<rparr>)) = Some ''abc''
   \<and> https_captured (fold (hctx_cache_capture sample_tlsapi) [''ab'', ''c''] (idle_hslot\<lparr>hx_cache_eligible := True\<rparr>)) = Some ''abc''"
  using capture_refinement [of "idle_slot\<lparr>cache_eligible := True\<rparr>" "idle_hslot\<lparr>hx_cache_eligible := True\<rparr>" "\<lambda>n. True" "[''ab'', ''c'']" sample_tlsapi]
  by (simp add: http_captured_def https_captured_def idle_slot_def idle_hslot_def fresh_slot_def fresh_hslot_def
      sample_tlsapi_def cap_spec_def MACSURF_CACHE_MAX_BYTES_def)

end
