(* ===== verification/HttpSetup.thy ===== *)
theory HttpSetup
  imports HttpProps
begin

text \<open>
  What \<open>macos9_http_setup\<close> does with a new fetch: the resource governor, which refuses images
  when too much is in flight, and the choice of the slot.
\<close>

section \<open>Slots\<close>

definition images_in_flight :: "('fs, 'ot) http_world \<Rightarrow> nat" where
  "images_in_flight w = length (filter (\<lambda>c. fc_rclass c = RC_IMAGE) (active_slots w))"

text \<open>The class a new fetch gets, and whether the governor turns it away.\<close>

definition setup_class :: "nsurl \<Rightarrow> ('fs, 'ot) http_world \<Rightarrow> rclass" where
  "setup_class u w = (if pending_document w then RC_DOCUMENT else macos9_classify_url (Some (url_string u)))"

definition image_refused :: "nsurl \<Rightarrow> ('fs, 'ot) http_world \<Rightarrow> bool" where
  "image_refused u w \<longleftrightarrow> setup_class u w = RC_IMAGE \<and> (length (active_slots w) \<ge> 16 \<or> images_in_flight w \<ge> 8)"

text \<open>The slot a new fetch starts with.\<close>

definition new_slot :: "nat \<Rightarrow> nsurl \<Rightarrow> rclass \<Rightarrow> bytes option \<Rightarrow> macos9_fetch_ctx" where
  "new_slot p u rc pu =
     (case pu of None \<Rightarrow> fresh_slot p u rc | Some b \<Rightarrow> (fresh_slot p u rc)\<lparr>fc_post_body := Some b, fc_keep_alive_ok := False\<rparr>)"

lemma first_idle_None: "first_idle cs = None \<longleftrightarrow> (\<forall>c \<in> set cs. fc_state c \<noteq> MFS_IDLE)"
  by (induction cs) auto

lemma first_idle_SomeD:
  "first_idle cs = Some i \<Longrightarrow> i < length cs \<and> fc_state (cs ! i) = MFS_IDLE \<and> (\<forall>j < i. fc_state (cs ! j) \<noteq> MFS_IDLE)"
proof (induction cs arbitrary: i)
  case (Cons c cs)
  then show ?case by (cases i) (auto simp: less_Suc_eq_0_disj split: if_splits)
qed simp

text \<open>Filling an idle place of a list adds what is put there to a count that skips idle ones.\<close>

lemma count_fill:
  "i < length cs \<Longrightarrow> \<not> P (cs ! i) \<Longrightarrow> length (filter P (cs[i := c])) = length (filter P cs) + (if P c then 1 else 0)"
proof (induction cs arbitrary: i)
  case (Cons d cs)
  then show ?case by (cases i) auto
qed simp

lemma images_fill:
  assumes "i < length (f_slots w)" "fc_state (slot w i) = MFS_IDLE"
  shows "images_in_flight (w\<lparr>f_slots := (f_slots w)[i := c]\<rparr>)
     = images_in_flight w + (if fc_state c \<noteq> MFS_IDLE \<and> fc_rclass c = RC_IMAGE then 1 else 0)"
  using count_fill [OF assms(1), of "\<lambda>c. fc_state c \<noteq> MFS_IDLE \<and> fc_rclass c = RC_IMAGE"] assms(2)
  by (simp add: images_in_flight_def active_slots_def)

lemma images_slots: "f_slots w' = cs \<Longrightarrow> images_in_flight w' = images_in_flight (w\<lparr>f_slots := cs\<rparr>)"
  by (simp add: images_in_flight_def active_slots_def)

text \<open>The four ways a setup ends.\<close>

lemma setup_cases:
  assumes "macos9_http_setup api p u pu w = (r, w')"
  obtains (refused) "image_refused u w" "r = None" "f_slots w' = f_slots w" "\<not> pending_document w'"
    | (full) "\<not> image_refused u w" "first_idle (f_slots w) = None" "r = None" "f_slots w' = f_slots w" "\<not> pending_document w'"
    | (nomem) i b where "\<not> image_refused u w" "first_idle (f_slots w) = Some i" "pu = Some b" "\<not> api_malloc api (length b)" "r = None"
        "f_slots w' = (f_slots w)[i := (fresh_slot p u (setup_class u w))\<lparr>fc_url := None, fc_state := MFS_IDLE\<rparr>]" "\<not> pending_document w'"
    | (slot) i where "\<not> image_refused u w" "first_idle (f_slots w) = Some i" "\<forall>b. pu = Some b \<longrightarrow> api_malloc api (length b)" "r = Some i"
        "f_slots w' = (f_slots w)[i := new_slot p u (setup_class u w) pu]" "\<not> pending_document w'"
proof -
  define w1 where "w1 = (if pending_document w then w\<lparr>pending_document := False\<rparr> else w)"
  have w1: "f_slots w1 = f_slots w" "active_slots w1 = active_slots w" "\<not> pending_document w1"
    by (simp_all add: w1_def active_slots_def)
  have ref: "setup_class u w = RC_IMAGE \<and> (length (active_slots w1) \<ge> MAX_GLOBAL_F
      \<or> length (filter (\<lambda>c. fc_rclass c = setup_class u w) (active_slots w1)) \<ge> MAX_IMG_F) \<longleftrightarrow> image_refused u w"
    by (auto simp: image_refused_def images_in_flight_def w1 MAX_GLOBAL_F_def MAX_IMG_F_def)
  note eq = assms [unfolded macos9_http_setup_def Let_def setup_class_def [symmetric] w1_def [symmetric] ref]
  show thesis
  proof (cases "image_refused u w")
    case True
    then show thesis using eq w1 by (intro refused) auto
  next
    case ni: False
    show thesis
    proof (cases "first_idle (f_slots w)")
      case None
      then show thesis using eq ni w1 by (intro full) auto
    next
      case (Some i)
      show thesis
      proof (cases "\<exists>b. pu = Some b \<and> \<not> api_malloc api (length b)")
        case True
        then obtain b where b: "pu = Some b" "\<not> api_malloc api (length b)" by blast
        then show thesis using eq ni w1 Some by (intro nomem [of i b]) (auto simp: put_slot_def)
      next
        case False
        then show thesis using eq ni w1 Some by (intro slot [of i]) (auto simp: put_slot_def new_slot_def split: option.splits)
      qed
    qed
  qed
qed

section \<open>Property\<close>

text \<open>
  C18. The governor. \<open>macos9_http_setup\<close> turns a fetch away exactly when it is an image and 16
  fetches or 8 images are in flight, when all slots are taken, or when there is no memory for its
  POST body; a page, style sheet or script is never turned away by the governor. A fetch that is
  accepted gets the first free slot, freshly initialised and queued, every other slot stays as it
  is, the document mark is used up, and never more than 8 images are in flight.
\<close>

theorem macos9_http_setup_governor:
  assumes "macos9_http_setup api p u pu w = (r, w')"
  shows "(r = None \<longleftrightarrow> image_refused u w \<or> (\<forall>c \<in> set (f_slots w). fc_state c \<noteq> MFS_IDLE)
             \<or> (\<exists>b. pu = Some b \<and> \<not> api_malloc api (length b)))
     \<and> (\<forall>i. r = Some i \<longrightarrow> i < length (f_slots w) \<and> fc_state (slot w i) = MFS_IDLE \<and> (\<forall>j < i. fc_state (slot w j) \<noteq> MFS_IDLE)
             \<and> f_slots w' = (f_slots w)[i := new_slot p u (setup_class u w) pu])
     \<and> \<not> pending_document w' \<and> (images_in_flight w \<le> 8 \<longrightarrow> images_in_flight w' \<le> 8)"
  using assms
proof (cases rule: setup_cases)
  case refused
  then show ?thesis by (simp add: images_in_flight_def active_slots_def)
next
  case full
  then show ?thesis by (simp add: first_idle_None images_in_flight_def active_slots_def)
next
  case (nomem i b)
  have "images_in_flight w' = images_in_flight w"
    using first_idle_SomeD [OF nomem(2)] images_slots [OF nomem(6), of w] by (simp add: images_fill [of i w])
  then show ?thesis using nomem by simp
next
  case (slot i)
  have st: "fc_state (new_slot p u (setup_class u w) pu) = MFS_QUEUED" "fc_rclass (new_slot p u (setup_class u w) pu) = setup_class u w"
    by (simp_all add: new_slot_def fresh_slot_def split: option.splits)
  have "images_in_flight w' \<le> 8" if "images_in_flight w \<le> 8"
    using first_idle_SomeD [OF slot(2)] images_slots [OF slot(5), of w] slot(1) st that
    by (auto simp: images_fill [of i w] image_refused_def not_le split: if_splits)
  then show ?thesis using slot first_idle_SomeD [OF slot(2)] by (auto simp: first_idle_None [symmetric])
qed

text \<open>The ninth image is turned away, a ninth style sheet is not.\<close>

definition img_url :: nsurl where "img_url = sample_url\<lparr>url_string := ''http://a.com/x.png''\<rparr>"
definition css_url :: nsurl where "css_url = sample_url\<lparr>url_string := ''http://a.com/x.css''\<rparr>"

definition busy_world :: "(memfs, ticks) http_world" where
  "busy_world = idle_world\<lparr>f_slots := replicate 8 (fresh_slot 1 img_url RC_IMAGE) @ [idle_slot]\<rparr>"

theorem macos9_http_setup_governor_witness:
  "fst (macos9_http_setup sample_api 9 img_url None busy_world) = None \<and> fst (macos9_http_setup sample_api 9 css_url None busy_world) = Some 8"
proof -
  obtain r w' where i: "macos9_http_setup sample_api 9 img_url None busy_world = (r, w')" by fastforce
  obtain r2 w2 where c: "macos9_http_setup sample_api 9 css_url None busy_world = (r2, w2)" by fastforce
  have "image_refused img_url busy_world" "\<not> image_refused css_url busy_world" by code_simp+
  then have "r = None" "r2 \<noteq> None" "\<forall>i. r2 = Some i \<longrightarrow> i < 9 \<and> fc_state (slot busy_world i) = MFS_IDLE"
    using macos9_http_setup_governor [OF i] macos9_http_setup_governor [OF c] by (auto simp: busy_world_def idle_slot_def)
  then show ?thesis using i c by (auto simp: busy_world_def nth_append fresh_slot_def less_Suc_eq numeral_eq_Suc)
qed

end
