(* ===== verification/SchemeBounce.thy ===== *)
theory SchemeBounce
  imports HttpsProps
begin

text \<open>
  The fallback between the two fetchers. The HTTP fetcher hands a failed fetch to HTTPS and the
  other way round, and both consult the scheme tracker of \<open>macos9_https_fetcher.c\<close> so that a host
  that failed on both schemes is given up. The fetchers key the tracker differently, by host and
  port, so neither ever finds the other's mark.
\<close>

section \<open>The tracker\<close>

abbreviation http_key :: "string \<Rightarrow> string" where "http_key host \<equiv> host @ '':80''"
abbreviation https_key :: "string \<Rightarrow> string" where "https_key host \<equiv> host @ '':443''"

text \<open>One failure of each fetcher for the same host, as each records it.\<close>

definition both_failed :: "string \<Rightarrow> host_lists \<Rightarrow> host_lists" where
  "both_failed host hs = macsurf_scheme_mark_https_failed (Some (https_key host)) (macsurf_scheme_mark_http_failed (Some (http_key host)) hs)"

text \<open>Neither fetcher finds that the other scheme has failed.\<close>

definition both_open :: "string \<Rightarrow> scheme_track list \<Rightarrow> bool" where
  "both_open host ts \<longleftrightarrow> (\<forall>t \<in> set ts. (host_port t = http_key host \<longrightarrow> \<not> https_failed t) \<and> (host_port t = https_key host \<longrightarrow> \<not> http_failed t))"

lemma both_open_tried:
  assumes "both_open host (scheme_track_list hs)"
  shows "\<not> macsurf_scheme_was_https_tried (Some (http_key host)) hs" "\<not> macsurf_scheme_was_http_tried (Some (https_key host)) hs"
  using assms track_index_Some [of "http_key host" "scheme_track_list hs"] track_index_Some [of "https_key host" "scheme_track_list hs"]
  by (auto simp: was_tried_tracked tracked_def both_open_def split: option.splits)

lemma find_or_add_open:
  assumes "both_open host ts" "scheme_track_find_or_add (Some k) ts = Some (i, ts')" "length k < HTTPS_POOL_KEY_LEN"
  shows "both_open host ts' \<and> i < length ts' \<and> host_port (ts' ! i) = k"
proof (cases "track_index k ts")
  case None
  define b where "b = (if length ts \<ge> HTTPS_SCHEME_TRACK_MAX then tl ts else ts)"
  have "ts' = b @ [\<lparr>host_port = k, https_failed = False, http_failed = False\<rparr>]" "i = length b"
    using None assms(2) slot_string_short [OF assms(3)]
    by (auto simp: b_def scheme_track_find_or_add_def Let_def fifo_push_def split: if_splits)
  moreover have "both_open host b" using assms(1) set_tlD [of _ ts] by (auto simp: b_def both_open_def split: if_splits)
  ultimately show ?thesis by (auto simp: both_open_def)
next
  case (Some j)
  then show ?thesis using assms track_index_Some [OF Some] by (auto simp: scheme_track_find_or_add_def split: if_splits)
qed

lemma mark_open:
  assumes "both_open host (scheme_track_list hs)" "length host < 88"
  shows "both_open host (scheme_track_list (macsurf_scheme_mark_http_failed (Some (http_key host)) hs))"
    "both_open host (scheme_track_list (macsurf_scheme_mark_https_failed (Some (https_key host)) hs))"
proof -
  have l: "length (http_key host) < HTTPS_POOL_KEY_LEN" "length (https_key host) < HTTPS_POOL_KEY_LEN"
    using assms(2) by (simp_all add: HTTPS_POOL_KEY_LEN_def)
  note f = find_or_add_open [OF assms(1) _ l(1)] find_or_add_open [OF assms(1) _ l(2)]
  show "both_open host (scheme_track_list (macsurf_scheme_mark_http_failed (Some (http_key host)) hs))"
    using assms(1) f(1) by (fastforce simp: macsurf_scheme_mark_http_failed_def both_open_def split: option.splits dest: set_update_subset_insert [THEN subsetD])
  show "both_open host (scheme_track_list (macsurf_scheme_mark_https_failed (Some (https_key host)) hs))"
    using assms(1) f(2) by (fastforce simp: macsurf_scheme_mark_https_failed_def both_open_def split: option.splits dest: set_update_subset_insert [THEN subsetD])
qed

lemma bounce_open: "length host < 88 \<Longrightarrow> both_open host (scheme_track_list ((both_failed host ^^ n) (macsurf_scheme_reset_all hs)))"
  by (induction n) (simp_all add: both_failed_def mark_open, simp add: macsurf_scheme_reset_all_def both_open_def)

section \<open>The two failures\<close>

lemma http_fail_bounces:
  assumes "both_open host (scheme_track_list (hosts w))" "length host < 88" "i < length (f_slots w)"
    and "fc_pool_key (slot w i) = http_key host" "host \<noteq> []" "\<not> fc_aborted (slot w i)"
    and "fc_url (slot w i) = Some u" "url_string u = ''http://'' @ rest" "length rest < 504"
    and "http_poll_fail api i w = Some w'"
  shows "Callback (fc_parent (slot w i)) (FETCH_REDIRECT (''https://'' @ rest)) \<in> set (events w')
     \<and> hosts w' = macsurf_scheme_mark_http_failed (Some (http_key host)) (hosts w)"
proof -
  have np: "http_key host \<noteq> ''PROXY''" using assms(5) by (cases host rule: rev_cases) auto
  have fb: "https_fallback (slot w i) (macsurf_scheme_mark_http_failed (Some (http_key host)) (hosts w)) = Some (''https://'' @ rest)"
    using both_open_tried(1) [OF mark_open(1) [OF assms(1,2)]] assms(4,6-9) np by (simp add: https_fallback_def strncmp_eq_def)
  from assms(10) show ?thesis unfolding http_poll_fail_def Let_def assms(4) using np fb assms(3)
    by (auto simp: fetch_release_def macos9_http_free_def put_slot_def emit_def Let_def)
qed

lemma https_fail_bounces:
  assumes "both_open host (scheme_track_list (hs_hosts w))" "length host < 88" "i < length (https_slots w)"
    and "hx_pool_key (hslot w i) = https_key host" "\<not> hx_aborted (hslot w i)" "hs_busy (hslot w i)"
    and "hx_url (hslot w i) = Some u" "url_string u = ''https://'' @ rest" "length rest < 504"
  shows "Callback (hx_parent (hslot w i)) (FETCH_REDIRECT (''http://'' @ rest)) \<in> set (hs_events (hctx_fail api i why w))
     \<and> hs_hosts (hctx_fail api i why w) = macsurf_scheme_mark_https_failed (Some (https_key host)) (hs_hosts w)"
proof -
  have st: "hx_state (hslot w i) \<noteq> HS_FAIL" "hx_state (hslot w i) \<noteq> HS_DONE" using assms(6) by (auto simp: hx_state_defs)
  have fb: "http_fallback ((hslot w i)\<lparr>hx_err := Some why, hx_state := HS_FAIL\<rparr>)
      (macsurf_scheme_mark_https_failed (Some (https_key host)) (hs_hosts w)) = Some (''http://'' @ rest)"
    using both_open_tried(2) [OF mark_open(2) [OF assms(1,2)]] assms(4,5,7-9) by (simp add: http_fallback_def strncmp_eq_def)
  show ?thesis unfolding hctx_fail_def Let_def using st fb assms(3,4)
    by (simp add: hctx_release_def hctx_clear_def macos9_https_free_def hput_def hemit_def Let_def)
qed

section \<open>Property\<close>

text \<open>
  C19. The schemes bounce for ever. However often both fetchers have failed for a host since the
  last navigation, the next failure of the HTTP fetcher for one of its pages on the default port
  still redirects to HTTPS, and the next failure of the HTTPS fetcher for the same page still
  redirects to HTTP: the tracker, which is there to stop this, is asked about \<open>host:80\<close> by the one
  and about \<open>host:443\<close> by the other.
\<close>

theorem scheme_bounce_never_ends:
  assumes "host \<noteq> []" "length host < 88" "length rest < 504"
    and "i < length (f_slots w)" "fc_pool_key (slot w i) = http_key host" "\<not> fc_aborted (slot w i)"
    and "fc_url (slot w i) = Some u" "url_string u = ''http://'' @ rest"
    and "hosts w = (both_failed host ^^ n) (macsurf_scheme_reset_all hs)" "http_poll_fail api i w = Some w'"
    and "j < length (https_slots v)" "hx_pool_key (hslot v j) = https_key host" "\<not> hx_aborted (hslot v j)" "hs_busy (hslot v j)"
    and "hx_url (hslot v j) = Some u'" "url_string u' = ''https://'' @ rest" "hs_hosts v = hosts w'"
  shows "Callback (fc_parent (slot w i)) (FETCH_REDIRECT (''https://'' @ rest)) \<in> set (events w')
     \<and> Callback (hx_parent (hslot v j)) (FETCH_REDIRECT (''http://'' @ rest)) \<in> set (hs_events (hctx_fail tapi j why v))
     \<and> hs_hosts (hctx_fail tapi j why v) = (both_failed host ^^ Suc n) (macsurf_scheme_reset_all hs)"
proof -
  have o: "both_open host (scheme_track_list (hosts w))" unfolding assms(9) by (rule bounce_open [OF assms(2)])
  note h = http_fail_bounces [OF o assms(2,4,5,1,6-8,3,10)]
  have "both_open host (scheme_track_list (hs_hosts v))" using h mark_open(1) [OF o assms(2)] assms(17) by simp
  from https_fail_bounces [OF this assms(2,11-16,3)] h show ?thesis using assms(9,17) by (simp add: both_failed_def)
qed

lemma poll_fail_returns:
  assumes "fc_ep (slot w i) = None" "i < length (f_slots w)"
  shows "\<exists>w'. http_poll_fail api i w = Some w'"
proof -
  have r: "\<exists>w'. fetch_release api i (put_slot i c (emit es y)) = Some w'" if "fc_ep c = None" "f_slots y = f_slots w" for c es y
    using that assms(2) by (simp add: fetch_release_def macos9_http_free_def mfs_close_def put_slot_def emit_def Let_def)
  show ?thesis unfolding http_poll_fail_def Let_def
    by (simp split: option.split) (intro conjI impI allI r; simp add: assms(1))
qed

text \<open>A page of \<open>a.com\<close>, after both fetchers have failed three times.\<close>

definition bounce_slot :: macos9_fetch_ctx where
  "bounce_slot = (fresh_slot 1 (sample_url\<lparr>url_string := ''http://a.com/''\<rparr>) RC_OTHER)\<lparr>fc_pool_key := ''a.com:80'', fc_state := MFS_FAIL\<rparr>"

definition bounce_world :: "(memfs, ticks) http_world" where
  "bounce_world = idle_world\<lparr>f_slots := [bounce_slot], hosts := (both_failed ''a.com'' ^^ 3) (macsurf_scheme_reset_all no_hosts)\<rparr>"

definition bounce_hslot :: "unit macos9_https_ctx" where
  "bounce_hslot = one_hslot\<lparr>hx_url := Some (sample_https_url\<lparr>url_string := ''https://a.com/''\<rparr>)\<rparr>"

theorem scheme_bounce_never_ends_witness:
  "\<exists>w'. http_poll_fail sample_api 0 bounce_world = Some w'
     \<and> Callback 1 (FETCH_REDIRECT ''https://a.com/'') \<in> set (events w')
     \<and> Callback 7 (FETCH_REDIRECT ''http://a.com/'') \<in> set (hs_events (hctx_fail sample_tlsapi 0 why_timeout
          (idle_hworld\<lparr>https_slots := [bounce_hslot], hs_hosts := hosts w'\<rparr>)))"
proof -
  have c: "f_slots bounce_world = [bounce_slot]" "hosts bounce_world = (both_failed ''a.com'' ^^ 3) (macsurf_scheme_reset_all no_hosts)"
    by (simp_all add: bounce_world_def)
  have sl: "fc_pool_key bounce_slot = ''a.com:80''" "\<not> fc_aborted bounce_slot" "fc_parent bounce_slot = 1" "fc_ep bounce_slot = None"
    "fc_url bounce_slot = Some (sample_url\<lparr>url_string := ''http://a.com/''\<rparr>)"
    by (simp_all add: bounce_slot_def fresh_slot_def)
  obtain w' where w': "http_poll_fail sample_api 0 bounce_world = Some w'"
    using poll_fail_returns [of bounce_world 0 sample_api] sl(4) c(1) by auto
  let ?v = "idle_hworld\<lparr>https_slots := [bounce_hslot], hs_hosts := hosts w'\<rparr>"
  have h: "hx_pool_key bounce_hslot = ''a.com:443''" "\<not> hx_aborted bounce_hslot" "hs_busy bounce_hslot" "hx_parent bounce_hslot = 7"
    "hx_url bounce_hslot = Some (sample_https_url\<lparr>url_string := ''https://a.com/''\<rparr>)"
    by (simp_all add: bounce_hslot_def one_hslot_def fresh_hslot_def hx_state_defs)
  show ?thesis
    using scheme_bounce_never_ends [of "''a.com''" "''a.com/''" 0 bounce_world "sample_url\<lparr>url_string := ''http://a.com/''\<rparr>" 3 no_hosts sample_api w' 0 ?v
        "sample_https_url\<lparr>url_string := ''https://a.com/''\<rparr>" sample_tlsapi why_timeout] c sl h w'
    by simp
qed

end
