(* ===== verification/RequestBounds.thy ===== *)
theory RequestBounds
  imports HttpsProps
begin

text \<open>The sizes of the requests the two fetchers format, against the arrays they format them into.\<close>

lemma path_buf_length: "length (mfs_path_buf path query) \<le> 1023"
  by (auto simp: mfs_path_buf_def Let_def)

lemma mfs_request_length:
  "length (mfs_request p host post) =
     length p + length host + (case post of None \<Rightarrow> 87 | Some b \<Rightarrow> 150 + length (show_int (int (length b))))"
  by (simp add: mfs_request_def CRLF_def split: option.split)

lemma hs_request_length:
  "length (hs_request c) =
     length (hx_path c) + length (hx_host c) + (case hx_post_body c of None \<Rightarrow> 211 | Some b \<Rightarrow> 279 + length (show_int (int (length b))))"
  by (simp add: hs_request_def CRLF_def split: option.split)

text \<open>
  C20. Request buffers. Every request the HTTP fetcher formats fits its 2048-byte array with its
  terminator, so that the check in front of it never refuses one. The HTTPS fetcher formats first
  and checks afterwards: the request for a page is refused exactly when host and path together
  have 813 bytes or more, and then \<open>host + path + 212 - 1024\<close> bytes have already been written
  behind the 1024-byte array, up to 466 for a host and path the context can hold.
\<close>

theorem request_buffers:
  assumes "length host + 8 < POOL_KEY_LEN" "\<forall>b. post = Some b \<longrightarrow> length b < 2 ^ 31" "hx_post_body c = None" "hx_bounds c"
  shows "mfs_request_fits (mfs_path_buf path query) host post
     \<and> length (mfs_request (mfs_path_buf path query) host post) + 1 \<le> 2048
     \<and> (build_request c = None \<longleftrightarrow> length (hx_path c) + length (hx_host c) \<ge> 813)
     \<and> (build_request c = None \<longrightarrow>
          length (hs_request c) + 1 = REQ_BUF + (length (hx_path c) + length (hx_host c) + 212 - 1024)
          \<and> length (hs_request c) + 1 \<le> REQ_BUF + 466)"
proof -
  have d: "length (show_int (int (length b))) \<le> 10" if "post = Some b" for b
    using assms(2) that show_int_length [of "length b" 10] by fastforce
  have h: "length host < 88" using assms(1) by (simp add: POOL_KEY_LEN_def)
  have "mfs_request_fits (mfs_path_buf path query) host post"
    using h path_buf_length [of path query] by (simp add: mfs_request_fits_def)
  moreover have "length (mfs_request (mfs_path_buf path query) host post) + 1 \<le> 2048"
    using h path_buf_length [of path query] d by (auto simp: mfs_request_length split: option.splits)
  moreover have "build_request c = None \<longleftrightarrow> length (hx_path c) + length (hx_host c) \<ge> 813"
    using assms(3) by (auto simp: build_request_def hs_request_length REQ_BUF_def)
  ultimately show ?thesis using assms(3,4) by (auto simp: hs_request_length REQ_BUF_def hx_bounds_def)
qed

text \<open>A path of 900 bytes on \<open>a.com\<close>.\<close>

definition long_hslot :: "unit macos9_https_ctx" where
  "long_hslot = one_hslot\<lparr>hx_path := CHR ''/'' # replicate 899 (CHR ''a'')\<rparr>"

theorem request_buffers_witness:
  "build_request long_hslot = None \<and> length (hs_request long_hslot) + 1 = REQ_BUF + 93"
proof -
  have "length (hx_path long_hslot) = 900" "length (hx_host long_hslot) = 5" "hx_post_body long_hslot = None"
    by (simp_all add: long_hslot_def one_hslot_def fresh_hslot_def)
  moreover have "hx_bounds long_hslot"
    using one_hslot_ok(2) by (simp add: hctx_ok_def hx_bounds_def long_hslot_def hx_hdr_len_def hx_cap_len_def)
  ultimately show ?thesis
    using request_buffers [of "''a.com''" "Some ''x=1''" long_hslot "Some ''/''" None] by (auto simp: POOL_KEY_LEN_def)
qed

end
