(* ===== verification/StubPages.thy ===== *)
theory StubPages
  imports MS_Prelude
begin

text \<open>
  The texts the built-in fetchers of \<open>frontends/macos9/macos9_fetcher_stubs.c\<close> serve: the style
  sheets compiled into the program, one list element per string literal of the source, and the
  pages formatted into the 2048-byte \<open>body_buf\<close>. The counters \<open>about:cache\<close> and \<open>about:perf\<close>
  show are global variables of other modules, the record \<open>page_counters\<close>.
\<close>

section \<open>Style sheets\<close>

definition css_default :: string where
  \<open>css_default = concat
    [''html,address,blockquote,body,dd,div,dl,dt,fieldset,form,'',
     ''frame,frameset,h1,h2,h3,h4,h5,h6,noframes,ol,p,ul,center,'',
     ''dir,hr,menu,pre{display:block}'',
     ''header,footer,nav,section,article,aside,main,figure,'',
     ''figcaption,details,summary,hgroup,dialog,picture{display:block}'',
     ''details > *{height:0;overflow:hidden}'',
     ''details > summary{height:auto;overflow:visible}'',
     ''details[open] > *{height:auto;overflow:visible}'',
     ''li{display:list-item}'',
     ''head,style,script,title,meta,link,base,template,'',
     ''noembed,noscript,source,track{display:none}'',
     ''table{display:table;border-spacing:2px;border-collapse:separate}'',
     ''tr{display:table-row;vertical-align:inherit}'',
     ''thead{display:table-header-group;vertical-align:middle}'',
     ''tbody{display:table-row-group;vertical-align:middle}'',
     ''tfoot{display:table-footer-group;vertical-align:middle}'',
     ''col{display:table-column}'',
     ''colgroup{display:table-column-group}'',
     ''td,th{display:table-cell;vertical-align:inherit;padding:1px}'',
     ''caption{display:table-caption;text-align:center}'',
     ''th{font-weight:bold;text-align:center}'',
     ''table[border],table[border] td,table[border] tr{'',
     ''border-color:#888;border-style:solid;border-width:1px}'',
     ''body{margin:8px;line-height:1.33;color:#000;background:#fff;'',
     ''font-family:sans-serif;font-size:13px}'',
     ''h1{font-size:2em;margin:.67em 0;font-weight:bold}'',
     ''h2{font-size:1.5em;margin:.83em 0;font-weight:bold}'',
     ''h3{font-size:1.17em;margin:1em 0;font-weight:bold}'',
     ''h4{margin:1.33em 0;font-weight:bold}'',
     ''h5{font-size:.83em;margin:1.67em 0;font-weight:bold}'',
     ''h6{font-size:.67em;margin:2.33em 0;font-weight:bold}'',
     ''p{margin:1em 0}'',
     ''blockquote,figure{margin:1em 40px}'',
     ''hr{margin:.5em auto;border:1px inset #888;height:0}'',
     ''hr[noshade]{border-style:solid}'',
     ''ul{padding-left:40px;margin:1em 0;list-style-type:disc}'',
     ''ol{padding-left:40px;margin:1em 0;list-style-type:decimal}'',
     ''ul ul{list-style-type:circle}'',
     ''ul ul ul{list-style-type:square}'',
     ''ol ul,ul ol,ul ul,ol ol{margin-top:0;margin-bottom:0}'',
     ''dir,menu{padding-left:1.5em;margin:1em 0}'',
     ''dl{padding-left:1.5em;margin:1em 0}'',
     ''dt{font-weight:bold}'',
     ''dd{padding-left:1em;margin-bottom:.33em}'',
     ''u,ins{text-decoration:underline}'',
     ''ins{color:green}'',
     ''strike,s,del{text-decoration:line-through}'',
     ''del{color:#a00}'',
     ''b,strong{font-weight:bold}'',
     ''i,em,cite,var,dfn,q{font-style:italic}'',
     ''q{quotes:"'' @ [CHR 0xE2] @ [CHR 0x80] @ [CHR 0x9C] @ ''" "'' @ [CHR 0xE2] @ [CHR 0x80] @ [CHR 0x9D] @ ''" "'' @ [CHR 0xE2] @ [CHR 0x80] @ [CHR 0x98] @ ''" "'' @ [CHR 0xE2] @ [CHR 0x80] @ [CHR 0x99] @ ''"}'',
     ''q::before{content:open-quote}'',
     ''q::after{content:close-quote}'',
     ''address{font-style:italic;display:block}'',
     ''abbr,acronym{font-variant:small-caps}'',
     ''tt,code,kbd,samp,pre{font-family:monospace}'',
     ''kbd{font-weight:bold}'',
     ''pre{white-space:pre;margin:1em 0;font-family:monospace}'',
     ''big{font-size:1.17em}'',
     ''small,sub,sup{font-size:.83em}'',
     ''sub{vertical-align:sub}'',
     ''sup{vertical-align:super}'',
     ''form{display:block;margin:0 0 1em}'',
     ''button,textarea,input,select{display:inline-block;'',
     ''background:#fff;color:#000;border:1px solid #777;padding:1px 3px;'',
     ''font-family:sans-serif;font-size:13px}'',
     ''input[type=submit],input[type=reset],input[type=button],'',
     ''button{background:#ddd;border:1px outset #ccc;padding:1px 6px;'',
     ''text-align:center}'',
     ''input[type=hidden]{display:none}'',
     ''input[type=checkbox],input[type=radio]{border:0;padding:0}'',
     ''textarea{font-family:monospace}'',
     ''fieldset{display:block;border:1px solid #888;margin:1em 0;padding:.5em}'',
     ''legend{padding:0 .5em}'',
     ''label{display:inline}'',
     ''img{color:#888}'',
     ''iframe{width:19em;height:10em}'',
     ''a:link{color:#00f;text-decoration:underline}'',
     ''a:visited{color:#609;text-decoration:underline}'',
     ''a:hover{color:#f00}'',
     ''a:active{color:#f80}'',
     ''a[href]{color:#00f;text-decoration:underline}'',
     ''center{display:block;text-align:center}'',
     ''mark{background:#ff0;color:#000}'',
     ''br[clear=left]{clear:left}'',
     ''br[clear=right]{clear:right}'',
     ''br[clear=all]{clear:both}'',
     ''[dir=rtl]{direction:rtl;unicode-bidi:embed}'',
     ''[dir=ltr]{direction:ltr;unicode-bidi:embed}'',
     ''[dir=auto]{unicode-bidi:plaintext}'',
     ''bdi{unicode-bidi:isolate}'',
     ''bdo[dir=rtl]{direction:rtl;unicode-bidi:bidi-override}'',
     ''bdo[dir=ltr]{direction:ltr;unicode-bidi:bidi-override}'']\<close>

definition css_internal :: string where
  \<open>css_internal = concat
    [''input,textarea,button,select{background:#fff;color:#000;'',
     ''border:1px solid #777;padding:1px 2px;font:inherit}'',
     ''input[type=submit],input[type=reset],input[type=button],'',
     ''button{background:#ddd;border:1px outset #ccc;padding:1px 6px}'',
     ''input[type=hidden]{display:none}'',
     ''input[type=checkbox],input[type=radio]{border:0;padding:0}'',
     ''progress,meter{display:inline-block;width:10em;height:1em;'',
     ''background:#ccc;border:1px inset #999}'',
     ''noscript{display:block}'',
     ''[class*="cookie-banner"],[class*="cookie-consent"],'',
     ''[class*="cookie-modal"],[class*="cookie-overlay"],'',
     ''[class*="cookie-wall"],[class*="consent-banner"],'',
     ''[class*="consent-modal"],[class*="consent-overlay"],'',
     ''[id*="cookie-banner"],[id*="cookie-consent"],'',
     ''[id*="cookie-wall"],[id*="consent-banner"],'',
     ''[id*="consent-modal"]{display:none !important}'',
     ''[class*="newsletter-popup"],[class*="newsletter-modal"],'',
     ''[class*="subscribe-modal"],[class*="signup-modal"],'',
     ''[class*="paywall-modal"],[class*="paywall-overlay"],'',
     ''[id*="newsletter-popup"],[id*="subscribe-modal"],'',
     ''[id*="signup-modal"]{display:none !important}'',
     ''article[hidden],main[hidden],section[hidden]'',
     ''{display:block !important}'',
     ''[hidden][class*="article"],[hidden][class*="content"],'',
     ''[hidden][class*="story"],[hidden][class*="post"],'',
     ''[hidden][class*="entry"]{display:block !important}'',
     ''article[aria-hidden="true"],main[aria-hidden="true"],'',
     ''section[aria-hidden="true"]{visibility:visible !important}'',
     ''[class*="js-hidden"][class*="article"],'',
     ''[class*="js-hidden"][class*="content"],'',
     ''[class*="js-hidden"][class*="main"]'',
     ''{display:block !important;visibility:visible !important}'',
     ''.no-js,html.no-js{display:block !important}'',
     '' details>:not(summary){display:none}'',
     '' details[open]>*{display:block}'',
     '' summary{display:block;cursor:pointer;font-weight:bold;'',
     ''padding:2px 0}'',
     '' [hidden]{display:none}'']\<close>

definition css_quirks :: string where
  \<open>css_quirks = concat
    [''table{font-size:inherit;font-weight:inherit;text-align:start;'',
     ''border-collapse:separate}'',
     ''img{border:0}'',
     ''form{margin:0}'',
     ''body{margin:8px}'']\<close>


definition favicon_ico :: bytes where "favicon_ico = replicate 6 NUL"

section \<open>Formatted pages\<close>

record page_counters =
  css_total_bytes :: int
  site_css_skip :: int
  site_css_ok :: int
  site_reformat_ms :: int
  site_box_total :: int
  site_box_blk :: int
  site_box_inlinec :: int
  site_box_inline :: int
  site_box_text :: int
  site_box_other :: int
  site_img_ok :: int
  site_img_fail :: int

definition fetcherror_page :: "string \<Rightarrow> string" where
  \<open>fetcherror_page u = concat
    [''<html><head><title>Couldn't load page</title>'',
     ''<style>body{font-family:Geneva,sans-serif;'',
     ''background:#dddddd;color:#222222;padding:48px;}'',
     ''h1{color:#003366;margin-bottom:24px;font-size:24pt;}'',
     ''p{font-size:14pt;line-height:1.5;}'',
     ''tt{background:#ffffff;padding:6px 10px;'',
     ''border:1px solid #999999;color:#003366;}'',
     ''ul{font-size:12pt;color:#444444;}'',
     ''a{color:#003366;}</style></head>'',
     ''<body><h1>Couldn't load that page.</h1>'',
     ''<p>MacSurf tried to reach:</p>'',
     ''<p><tt>'',
     take 512 u,
     ''</tt></p>'',
     ''<p>This usually means:</p>'',
     ''<ul>'',
     ''<li>The server didn't respond, or is offline.</li>'',
     ''<li>The site's TLS handshake rejected the connection '',
     ''(some sites block older clients).</li>'',
     ''<li>The network connection timed out.</li>'',
     ''</ul>'',
     ''<p>You can <a href="'',
     take 512 u,
     ''">retry the same URL</a>, '',
     ''or pick another page from your bookmarks.</p>'',
     ''</body></html>'']\<close>

definition about_cache_page :: "page_counters \<Rightarrow> string" where
  \<open>about_cache_page pc = concat
    [''<html><head><title>about:cache</title>'',
     ''<style>body{font-family:Geneva,sans-serif;'',
     ''background:#FFF4D0;color:#002030;padding:24px;}'',
     ''h1{color:#002030;font-size:20pt;}'',
     ''table{border-collapse:collapse;}'',
     ''td,th{border:1px solid #B05030;padding:4px 10px;'',
     ''text-align:left;}'',
     ''th{background:#E07010;color:#fff;}'',
     ''</style></head><body>'',
     ''<h1>about:cache</h1>'',
     ''<table>'',
     ''<tr><th>Metric</th><th>Value</th></tr>'',
     ''<tr><td>CSS bytes this page</td><td>'',
     show_int (css_total_bytes pc),
     ''</td></tr>'',
     ''<tr><td>CSS sheets skipped</td><td>'',
     show_int (site_css_skip pc),
     ''</td></tr>'',
     ''</table>'',
     ''<p>HTTP cache is on-disk; entries persist across '',
     ''sessions. Press Reload ('' @ [CHR 0xE2] @ [CHR 0x8C] @ [CHR 0x98] @ ''R) to force '',
     ''a fresh fetch bypassing the cache.</p>'',
     ''</body></html>'']\<close>

definition about_memory_page :: "string" where
  \<open>about_memory_page = concat
    [''<html><head><title>about:memory</title>'',
     ''<style>body{font-family:Geneva,sans-serif;'',
     ''background:#FFF4D0;color:#002030;padding:24px;}'',
     ''h1{color:#002030;}p{line-height:1.5;}'',
     ''</style></head><body>'',
     ''<h1>about:memory</h1>'',
     ''<p>MacSurf is a Carbon CFM application with a '',
     ''16 MB preferred / 8 MB minimum partition. '',
     ''libcss / libdom / libhubbub each maintain their '',
     ''own arenas; memory usage scales with page DOM '',
     ''and CSS size.</p>'',
     ''<p>Bumping the Carbon partition in Get Info '',
     ''helps with large pages.</p>'',
     ''</body></html>'']\<close>

definition about_config_page :: "string" where
  \<open>about_config_page = concat
    [''<html><head><title>about:config</title>'',
     ''<style>body{font-family:Geneva,sans-serif;'',
     ''background:#FFF4D0;color:#002030;padding:24px;}'',
     ''h1{color:#002030;}table{border-collapse:collapse;}'',
     ''td,th{border:1px solid #B05030;padding:4px 10px;'',
     ''text-align:left;}th{background:#E07010;color:#fff;}'',
     ''</style></head><body>'',
     ''<h1>about:config</h1>'',
     ''<table>'',
     ''<tr><th>Option</th><th>Value</th></tr>'',
     ''<tr><td>enable_javascript</td><td>true</td></tr>'',
     ''<tr><td>foreground_images</td><td>true</td></tr>'',
     ''<tr><td>background_images</td><td>true</td></tr>'',
     ''<tr><td>author_level_css</td><td>true</td></tr>'',
     ''<tr><td>max_fetchers</td><td>128</td></tr>'',
     ''<tr><td>memory_cache_size</td><td>32 MB</td></tr>'',
     ''</table>'',
     ''<p>V1 is read-only. Future round will expose '',
     ''editable preferences.</p>'',
     ''</body></html>'']\<close>

definition about_perf_page :: "page_counters \<Rightarrow> string" where
  \<open>about_perf_page pc = concat
    [''<html><head><title>about:perf</title>'',
     ''<style>body{font-family:Geneva,sans-serif;'',
     ''background:#FFF4D0;color:#002030;padding:24px;}'',
     ''h1{color:#002030;}'',
     ''table{border-collapse:collapse;margin:12px 0;}'',
     ''th,td{border:1px solid #002030;padding:4px 10px;'',
     ''text-align:left;font-family:Monaco,monospace;'',
     ''font-size:11px;}'',
     ''th{background:#E07010;color:#fff;}'',
     ''</style></head>'',
     ''<body><h1>about:perf</h1>'',
     ''<p>Live counters from the most recently loaded '',
     ''page. Reformat_ms = wall-clock duration of the '',
     ''layout pass.</p>'',
     ''<table>'',
     ''<tr><th>Metric</th><th>Value</th></tr>'',
     ''<tr><td>reformat_ms</td><td>'',
     show_int (site_reformat_ms pc),
     ''</td></tr>'',
     ''<tr><td>box_total</td><td>'',
     show_int (site_box_total pc),
     ''</td></tr>'',
     ''<tr><td>box_block</td><td>'',
     show_int (site_box_blk pc),
     ''</td></tr>'',
     ''<tr><td>box_inline_container</td><td>'',
     show_int (site_box_inlinec pc),
     ''</td></tr>'',
     ''<tr><td>box_inline</td><td>'',
     show_int (site_box_inline pc),
     ''</td></tr>'',
     ''<tr><td>box_text</td><td>'',
     show_int (site_box_text pc),
     ''</td></tr>'',
     ''<tr><td>box_other</td><td>'',
     show_int (site_box_other pc),
     ''</td></tr>'',
     ''<tr><td>img_ok</td><td>'',
     show_int (site_img_ok pc),
     ''</td></tr>'',
     ''<tr><td>img_fail</td><td>'',
     show_int (site_img_fail pc),
     ''</td></tr>'',
     ''<tr><td>css_ok</td><td>'',
     show_int (site_css_ok pc),
     ''</td></tr>'',
     ''<tr><td>css_skip</td><td>'',
     show_int (site_css_skip pc),
     ''</td></tr>'',
     ''<tr><td>css_total_bytes</td><td>'',
     show_int (css_total_bytes pc),
     ''</td></tr>'',
     ''</table>'',
     ''<p>SITE log lines in MacSurf Debug.log (Desktop) '',
     ''carry the full per-fetch timing.</p>'',
     ''</body></html>'']\<close>

section \<open>Sizes\<close>

text \<open>The counters are \<open>long\<close> variables.\<close>

definition counters_ok :: "page_counters \<Rightarrow> bool" where
  "counters_ok pc \<longleftrightarrow> (\<forall>f \<in> {css_total_bytes, site_css_skip, site_css_ok, site_reformat_ms, site_box_total, site_box_blk, site_box_inlinec,
     site_box_inline, site_box_text, site_box_other, site_img_ok, site_img_fail}. \<bar>f pc\<bar> < 2 ^ 32)"

lemma show_long_length: "\<bar>i\<bar> < 2 ^ 32 \<Longrightarrow> length (show_int i) \<le> 11"
proof -
  assume "\<bar>i\<bar> < 2 ^ 32"
  then have "i < 10 ^ 10" "- i < 10 ^ 10" by simp_all
  then have "nat i < 10 ^ 10" "nat (- i) < 10 ^ 10" by (simp_all add: nat_less_iff)
  then show ?thesis using show_nat_length [of "nat i" 10] show_nat_length [of "nat (- i)" 10] by (auto simp: show_int_def)
qed

lemma page_lengths:
  "length (fetcherror_page u) \<le> 1796" "length about_memory_page = 491" "length about_config_page = 738"
  "counters_ok pc \<Longrightarrow> length (about_cache_page pc) \<le> 638" "counters_ok pc \<Longrightarrow> length (about_perf_page pc) \<le> 1210"
proof -
  show "length (fetcherror_page u) \<le> 1796" by (simp add: fetcherror_page_def)
  show "length about_memory_page = 491" by (simp add: about_memory_page_def)
  show "length about_config_page = 738" by (simp add: about_config_page_def)
  assume "counters_ok pc"
  then have c: "length (show_int (f pc)) \<le> 11" if "f \<in> {css_total_bytes, site_css_skip, site_css_ok, site_reformat_ms, site_box_total, site_box_blk,
      site_box_inlinec, site_box_inline, site_box_text, site_box_other, site_img_ok, site_img_fail}" for f
    using that by (intro show_long_length) (auto simp: counters_ok_def)
  show "length (about_cache_page pc) \<le> 638"
    using c [of css_total_bytes] c [of site_css_skip] by (simp add: about_cache_page_def)
  show "length (about_perf_page pc) \<le> 1210"
    using c [of css_total_bytes] c [of site_css_skip] c [of site_css_ok] c [of site_reformat_ms] c [of site_box_total] c [of site_box_blk]
      c [of site_box_inlinec] c [of site_box_inline] c [of site_box_text] c [of site_box_other] c [of site_img_ok] c [of site_img_fail]
    by (simp add: about_perf_page_def)
qed

lemma pages_nonempty: "fetcherror_page u \<noteq> []" "about_cache_page pc \<noteq> []" "about_memory_page \<noteq> []" "about_config_page \<noteq> []" "about_perf_page pc \<noteq> []"
  by (simp_all add: fetcherror_page_def about_cache_page_def about_memory_page_def about_config_page_def about_perf_page_def)

end
