(* ===== verification/LinkedLists.thy ===== *)
theory LinkedLists
  imports MS_Prelude
begin

text \<open>
  Doubly linked structures in an explicit store. The links of the nodes are two functions from
  addresses to optional addresses, \<open>None\<close> being the null pointer. \<open>chain nx pv xs\<close> says that each
  node of \<open>xs\<close> is linked to its neighbour in both directions; \<open>ring\<close> closes a chain into a circle.
  The ring of the built-in fetchers and the list of decoded images are instances.
\<close>

type_synonym links = "nat \<Rightarrow> nat option"

fun chain :: "links \<Rightarrow> links \<Rightarrow> nat list \<Rightarrow> bool" where
  "chain nx pv (x # y # r) \<longleftrightarrow> nx x = Some y \<and> pv y = Some x \<and> chain nx pv (y # r)"
| "chain nx pv _ \<longleftrightarrow> True"

lemma chain_Cons: "chain nx pv (x # r) \<longleftrightarrow> (r \<noteq> [] \<longrightarrow> nx x = Some (hd r) \<and> pv (hd r) = Some x \<and> chain nx pv r)"
  by (cases r) simp_all

lemma chain_append:
  "chain nx pv (xs @ ys) \<longleftrightarrow> chain nx pv xs \<and> chain nx pv ys
     \<and> (xs \<noteq> [] \<and> ys \<noteq> [] \<longrightarrow> nx (last xs) = Some (hd ys) \<and> pv (hd ys) = Some (last xs))"
proof (induction xs)
  case (Cons x xs)
  then show ?case by (cases xs) (auto simp: chain_Cons)
qed simp

text \<open>A chain reads the next links of all but its last node and the previous links of all but its first.\<close>

lemma chain_cong:
  assumes "\<forall>x \<in> set (butlast xs). nx' x = nx x" "\<forall>x \<in> set (tl xs). pv' x = pv x"
  shows "chain nx' pv' xs \<longleftrightarrow> chain nx pv xs"
  using assms
proof (induction xs)
  case (Cons x xs)
  show ?case
  proof (cases xs)
    case (Cons y ys)
    have "chain nx' pv' xs \<longleftrightarrow> chain nx pv xs" using Cons.prems Cons by (intro Cons.IH) (auto dest: set_tlD)
    then show ?thesis using Cons.prems Cons by simp
  qed simp
qed simp

definition ring :: "links \<Rightarrow> links \<Rightarrow> nat list \<Rightarrow> bool" where
  "ring nx pv xs \<longleftrightarrow> distinct xs \<and> chain nx pv xs \<and> (xs \<noteq> [] \<longrightarrow> nx (last xs) = Some (hd xs) \<and> pv (hd xs) = Some (last xs))"

lemma ring_cong:
  assumes "\<forall>x \<in> set xs. nx' x = nx x \<and> pv' x = pv x"
  shows "ring nx' pv' xs \<longleftrightarrow> ring nx pv xs"
proof -
  have "chain nx' pv' xs \<longleftrightarrow> chain nx pv xs" using assms by (intro chain_cong) (auto dest: in_set_butlastD set_tlD)
  then show ?thesis using assms by (auto simp: ring_def)
qed

lemma ring_rotate: "ring nx pv (us @ vs) \<longleftrightarrow> ring nx pv (vs @ us)"
  by (cases "us = [] \<or> vs = []") (auto simp: ring_def chain_append)

text \<open>Inserting behind the last node, which is in front of the first one.\<close>

lemma ring_insert:
  assumes "ring nx pv xs" "xs \<noteq> []" "a \<notin> set xs"
  shows "ring (nx(a := Some (hd xs), last xs := Some a)) (pv(a := Some (last xs), hd xs := Some a)) (xs @ [a])"
proof -
  let ?nx = "nx(a := Some (hd xs), last xs := Some a)" and ?pv = "pv(a := Some (last xs), hd xs := Some a)"
  have d: "distinct xs" and c: "chain nx pv xs" using assms(1) by (simp_all add: ring_def)
  have "last xs \<notin> set (butlast xs)" using d assms(2) by (metis append_butlast_last_id distinct_append disjoint_insert(1) list.set(2))
  moreover have "hd xs \<notin> set (tl xs)" using d assms(2) by (cases xs) auto
  ultimately have "chain ?nx ?pv xs"
    using c assms(3) by (subst chain_cong [of _ ?nx nx ?pv pv]) (auto dest: in_set_butlastD set_tlD)
  moreover have "a \<noteq> last xs" "a \<noteq> hd xs" using assms(2,3) by auto
  ultimately show ?thesis using d assms(2,3) by (auto simp: ring_def chain_append)
qed

text \<open>Taking a node out of a ring that has others.\<close>

lemma ring_neighbours:
  assumes "ring nx pv (a # xs)" "xs \<noteq> []"
  shows "nx a = Some (hd xs)" "pv a = Some (last xs)"
  using assms by (simp_all add: ring_def chain_Cons)

lemma ring_delete:
  assumes "ring nx pv (a # xs)" "xs \<noteq> []" "nx' = (nx(last xs := Some (hd xs)))(a := u)" "pv' = (pv(hd xs := Some (last xs)))(a := v)"
  shows "ring nx' pv' xs"
proof -
  have d: "distinct xs" "a \<notin> set xs" and c: "chain nx pv xs" using assms(1,2) by (auto simp: ring_def chain_Cons)
  have "last xs \<notin> set (butlast xs)" using d assms(2) by (metis append_butlast_last_id distinct_append disjoint_insert(1) list.set(2))
  moreover have "hd xs \<notin> set (tl xs)" using d assms(2) by (cases xs) auto
  ultimately have "chain nx' pv' xs"
    using c d(2) assms(3,4) by (subst chain_cong [of _ nx' nx pv' pv]) (auto dest: in_set_butlastD set_tlD)
  moreover have "a \<noteq> last xs" "a \<noteq> hd xs" using assms(2) d(2) by auto
  ultimately show ?thesis using d assms(2-4) by (simp add: ring_def)
qed

text \<open>An open list with a head and a tail pointer.\<close>

definition dll :: "nat option \<Rightarrow> nat option \<Rightarrow> links \<Rightarrow> links \<Rightarrow> nat list \<Rightarrow> bool" where
  "dll h t nx pv xs \<longleftrightarrow> distinct xs \<and> chain nx pv xs
     \<and> (if xs = [] then h = None \<and> t = None
        else h = Some (hd xs) \<and> t = Some (last xs) \<and> pv (hd xs) = None \<and> nx (last xs) = None)"

abbreviation first_of :: "nat list \<Rightarrow> nat option" where "first_of xs \<equiv> (if xs = [] then None else Some (hd xs))"
abbreviation last_of :: "nat list \<Rightarrow> nat option" where "last_of xs \<equiv> (if xs = [] then None else Some (last xs))"

definition upd :: "links \<Rightarrow> nat option \<Rightarrow> nat option \<Rightarrow> links" where
  "upd f p v = (case p of None \<Rightarrow> f | Some a \<Rightarrow> f(a := v))"

lemma dll_neighbours: "dll h t nx pv (us @ a # vs) \<Longrightarrow> pv a = last_of us \<and> nx a = first_of vs"
  by (auto simp: dll_def chain_append chain_Cons split: if_splits)

lemma dll_push:
  assumes "dll h t nx pv xs" "a \<notin> set xs"
  shows "dll (Some a) (if xs = [] then Some a else t) (nx(a := h)) (upd (pv(a := None)) h (Some a)) (a # xs)"
proof (cases "xs = []")
  case False
  have "hd xs \<notin> set (tl xs)" using assms(1) False by (cases xs) (auto simp: dll_def)
  then have "chain (nx(a := h)) (upd (pv(a := None)) h (Some a)) xs"
    using assms False by (subst chain_cong [of _ _ nx _ pv]) (auto simp: dll_def upd_def dest: in_set_butlastD set_tlD)
  moreover have "last xs \<noteq> a" "hd xs \<noteq> a" using assms(2) False by auto
  ultimately show ?thesis using assms False by (auto simp: dll_def chain_Cons upd_def)
qed (use assms in \<open>auto simp: dll_def upd_def\<close>)

lemma dll_unlink:
  assumes "dll h t nx pv (us @ a # vs)"
  shows "dll (if us = [] then first_of vs else h) (if vs = [] then last_of us else t)
     ((upd nx (last_of us) (first_of vs))(a := u)) ((upd pv (first_of vs) (last_of us))(a := v)) (us @ vs)"
proof -
  let ?nx = "(upd nx (last_of us) (first_of vs))(a := u)" and ?pv = "(upd pv (first_of vs) (last_of us))(a := v)"
  have d: "distinct us" "distinct vs" "a \<notin> set us" "a \<notin> set vs" "set us \<inter> set vs = {}" and c: "chain nx pv us" "chain nx pv vs"
    using assms by (auto simp: dll_def chain_append chain_Cons)
  have ne: "us \<noteq> [] \<Longrightarrow> last us \<noteq> a \<and> hd us \<noteq> a \<and> last us \<notin> set vs \<and> hd us \<notin> set vs" "vs \<noteq> [] \<Longrightarrow> hd vs \<noteq> a \<and> last vs \<noteq> a \<and> hd vs \<notin> set us \<and> last vs \<notin> set us"
    using d by (auto dest: hd_in_set last_in_set)
  have "last us \<notin> set (butlast us)" if "us \<noteq> []" using d(1) that by (metis append_butlast_last_id distinct_append disjoint_insert(1) list.set(2))
  then have cu: "chain ?nx ?pv us"
    using c d ne by (subst chain_cong [of _ _ nx _ pv]) (auto simp: upd_def dest: in_set_butlastD set_tlD)
  have "hd vs \<notin> set (tl vs)" if "vs \<noteq> []" using d(2) that by (cases vs) auto
  then have cv: "chain ?nx ?pv vs"
    using c d ne by (subst chain_cong [of _ _ nx _ pv]) (auto simp: upd_def dest: in_set_butlastD set_tlD)
  show ?thesis
  proof (cases "us = []")
    case True
    then show ?thesis using assms d cv ne(2) by (auto simp: dll_def upd_def)
  next
    case False
    note us = this
    have hu: "h = Some (hd us)" "pv (hd us) = None" using assms us by (auto simp: dll_def)
    show ?thesis
    proof (cases "vs = []")
      case True
      then show ?thesis using us d cu ne(1) hu by (auto simp: dll_def upd_def)
    next
      case vs: False
      have "t = Some (last vs)" "nx (last vs) = None" using assms vs by (auto simp: dll_def)
      moreover have "last vs \<noteq> last us" "hd us \<noteq> hd vs" using ne us vs by (metis hd_in_set last_in_set)+
      ultimately show ?thesis using us vs d cu cv ne hu by (auto simp: dll_def chain_append upd_def)
    qed
  qed
qed

end
