(* ===== verification/StubFetcher.thy ===== *)
theory StubFetcher
  imports StubPages LinkedLists FetchCore
begin

text \<open>
  The fetchers for \<open>resource:\<close>, \<open>about:\<close>, \<open>file:\<close>, \<open>data:\<close> and \<open>javascript:\<close> URLs of
  \<open>frontends/macos9/macos9_fetcher_stubs.c\<close>.

  A context is a heap node; its address is its handle. The contexts are linked into a circular
  list by \<open>r_next\<close> and \<open>r_prev\<close>, with \<open>stub_ring\<close> pointing at the oldest one. The store is the
  map \<open>stub_heap\<close>; writing through a null or freed pointer, which would crash, changes nothing in
  the model, and following one while polling is the result \<open>None\<close>. The NetSurf core may react to
  a message by setting up, starting or aborting fetches; what it does is the function
  \<open>core_reacts\<close> of the messages sent so far. Whether memory is available, and at which address,
  is \<open>stub_calloc\<close> and \<open>stub_malloc\<close>.
\<close>

section \<open>State\<close>

datatype stub_scheme = SCH_RESOURCE | SCH_ABOUT | SCH_FILE | SCH_DATA | SCH_JAVASCRIPT

record stub_fetch_ctx =
  sf_parent :: nat
  sf_scheme :: stub_scheme
  sf_path :: string
  sf_started :: bool
  sf_aborted :: bool
  sf_done :: bool
  sf_next :: "nat option"
  sf_prev :: "nat option"
  sf_body :: string
  sf_dyn_body :: "bytes option"

record stub_world =
  stub_heap :: "nat \<Rightarrow> stub_fetch_ctx option"
  stub_ring :: "nat option"
  stub_events :: "fetch_ev list"

text \<open>What the core asks of the fetcher: a new fetch of a parent for a URL, or to start or abort one.\<close>

datatype core_op = CoreSetup stub_scheme nat nsurl | CoreStart nat | CoreAbort nat

record stub_env =
  stub_calloc :: "(nat \<Rightarrow> stub_fetch_ctx option) \<Rightarrow> nat option"
  stub_malloc :: "nat \<Rightarrow> bool"
  stub_counters :: page_counters
  core_reacts :: "fetch_ev list \<Rightarrow> core_op list"

definition stub_update :: "nat \<Rightarrow> (stub_fetch_ctx \<Rightarrow> stub_fetch_ctx) \<Rightarrow> stub_world \<Rightarrow> stub_world" where
  "stub_update a f w = w\<lparr>stub_heap := (stub_heap w)(a := map_option f (stub_heap w a))\<rparr>"

definition stub_emit :: "fetch_ev list \<Rightarrow> stub_world \<Rightarrow> stub_world" where
  "stub_emit es w = w\<lparr>stub_events := stub_events w @ es\<rparr>"

definition stub_next :: "stub_world \<Rightarrow> nat \<Rightarrow> nat option" where
  "stub_next w a = Option.bind (stub_heap w a) sf_next"

definition stub_prev :: "stub_world \<Rightarrow> nat \<Rightarrow> nat option" where
  "stub_prev w a = Option.bind (stub_heap w a) sf_prev"

definition macos9_stub_fetcher_active :: "stub_world \<Rightarrow> bool" where
  "macos9_stub_fetcher_active w \<longleftrightarrow> stub_ring w \<noteq> None"

section \<open>The ring\<close>

definition set_next :: "nat option \<Rightarrow> nat option \<Rightarrow> stub_world \<Rightarrow> stub_world" where
  "set_next p v w = (case p of None \<Rightarrow> w | Some a \<Rightarrow> stub_update a (sf_next_update (\<lambda>_. v)) w)"

definition set_prev :: "nat option \<Rightarrow> nat option \<Rightarrow> stub_world \<Rightarrow> stub_world" where
  "set_prev p v w = (case p of None \<Rightarrow> w | Some a \<Rightarrow> stub_update a (sf_prev_update (\<lambda>_. v)) w)"

definition stub_ring_insert :: "nat \<Rightarrow> stub_world \<Rightarrow> stub_world" where
  "stub_ring_insert ctx w =
     (case stub_ring w of
        None \<Rightarrow> set_prev (Some ctx) (Some ctx) (set_next (Some ctx) (Some ctx) (w\<lparr>stub_ring := Some ctx\<rparr>))
      | Some h \<Rightarrow>
          (let w1 = set_next (Some ctx) (Some h) w;
               w2 = set_prev (Some ctx) (stub_prev w1 h) w1;
               w3 = set_next (stub_prev w2 h) (Some ctx) w2
           in set_prev (Some h) (Some ctx) w3))"

definition stub_ring_remove :: "nat \<Rightarrow> stub_world \<Rightarrow> stub_world" where
  "stub_ring_remove ctx w =
     (let w1 = (if stub_next w ctx = Some ctx then w\<lparr>stub_ring := None\<rparr>
                else (let v1 = set_next (stub_prev w ctx) (stub_next w ctx) w;
                          v2 = set_prev (stub_next v1 ctx) (stub_prev v1 ctx) v1
                      in if stub_ring v2 = Some ctx then v2\<lparr>stub_ring := stub_next v2 ctx\<rparr> else v2))
      in set_prev (Some ctx) None (set_next (Some ctx) None w1))"

section \<open>Bodies\<close>

definition resource_tail :: "string \<Rightarrow> string" where
  "resource_tail path = rev (takeWhile (\<lambda>ch. ch \<noteq> CHR ''/'') (rev path))"

text \<open>The body and the MIME type of a context.\<close>

definition stub_body_for :: "stub_fetch_ctx \<Rightarrow> bytes \<times> string" where
  "stub_body_for c =
     (case sf_scheme c of
        SCH_RESOURCE \<Rightarrow>
          (let tail = resource_tail (sf_path c) in
           if tail = ''default.css'' then (css_default, ''text/css'')
           else if tail = ''internal.css'' then (css_internal, ''text/css'')
           else if tail = ''quirks.css'' then (css_quirks, ''text/css'')
           else if tail = ''favicon.ico'' then (favicon_ico, ''image/x-icon'')
           else ([], ''application/octet-stream''))
      | SCH_ABOUT \<Rightarrow>
          if length (sf_body c) > 0 then (sf_body c, ''text/html'')
          else (''<html><head><title>about:</title></head>'' @ ''<body><h1>MacSurf</h1></body></html>'', ''text/html'')
      | SCH_FILE \<Rightarrow> ([], ''application/octet-stream'')
      | SCH_DATA \<Rightarrow>
          (case sf_dyn_body c of
             Some b \<Rightarrow>
               (b, if strncmp_eq (sf_path c) ''text/html'' 9 then ''text/html''
                   else if strncmp_eq (sf_path c) ''text/css'' 8 then ''text/css''
                   else if strncmp_eq (sf_path c) ''text/'' 5 then ''text/plain''
                   else if strncmp_eq (sf_path c) ''image/png'' 9 then ''image/png''
                   else if strncmp_eq (sf_path c) ''image/jpeg'' 10 then ''image/jpeg''
                   else if strncmp_eq (sf_path c) ''image/gif'' 9 then ''image/gif''
                   else ''text/plain'')
           | None \<Rightarrow> ([], ''application/octet-stream''))
      | SCH_JAVASCRIPT \<Rightarrow> ([], ''text/javascript''))"

section \<open>Setup\<close>

text \<open>The URL behind \<open>scheme:\<close> and its slashes, in the 1024-byte \<open>path\<close>.\<close>

definition stub_path :: "string \<Rightarrow> string" where
  "stub_path url =
     take 1023 (case strchr_c url (CHR '':'') of None \<Rightarrow> url | Some r \<Rightarrow> dropWhile (\<lambda>ch. ch = CHR ''/'') (drop 1 r))"

definition failed_url :: "string \<Rightarrow> string" where
  "failed_url path =
     (case strstr_split ''url='' path of None \<Rightarrow> [] | Some (_, r) \<Rightarrow> take 1023 (takeWhile (\<lambda>ch. ch \<noteq> CHR ''&'') (drop 4 r)))"

definition names_page :: "string \<Rightarrow> string \<Rightarrow> bool" where
  "names_page path name \<longleftrightarrow> strncmp_eq path name (length name)
     \<and> (length path = length name \<or> path ! length name = CHR ''/'')"

text \<open>
  What the setup of an \<open>about:\<close> page leaves in \<open>body_buf\<close>, a text of \<open>body_used\<close> bytes. A page
  that is too long for the array is not used.
\<close>

definition page_fits :: "string \<Rightarrow> bool" where
  "page_fits p \<longleftrightarrow> length p > 0 \<and> length p < 2048"

definition about_body :: "page_counters \<Rightarrow> string \<Rightarrow> string" where
  "about_body pc path =
     (let err = (if strncmp_eq path ''query/fetcherror'' 16
                 then (let p = fetcherror_page (failed_url path) in if page_fits p then p else [])
                 else []);
          diag = (if names_page path ''cache'' then about_cache_page pc
                  else if names_page path ''memory'' then about_memory_page
                  else if names_page path ''config'' then about_config_page
                  else if names_page path ''perf'' then about_perf_page pc
                  else [])
      in if page_fits diag then diag else err)"

definition fresh_stub :: "nat \<Rightarrow> stub_scheme \<Rightarrow> stub_fetch_ctx" where
  "fresh_stub p sch = \<lparr>sf_parent = p, sf_scheme = sch, sf_path = [], sf_started = False, sf_aborted = False, sf_done = False,
     sf_next = None, sf_prev = None, sf_body = [], sf_dyn_body = None\<rparr>"

definition stub_setup_scheme :: "stub_env \<Rightarrow> nat \<Rightarrow> nsurl \<Rightarrow> stub_scheme \<Rightarrow> stub_world \<Rightarrow> nat option \<times> stub_world" where
  "stub_setup_scheme env p u sch w =
     (case stub_calloc env (stub_heap w) of
        None \<Rightarrow> (None, w)
      | Some a \<Rightarrow>
          (let path = stub_path (url_string u);
               c = (fresh_stub p sch)\<lparr>sf_path := path, sf_body := if sch = SCH_ABOUT then about_body (stub_counters env) path else []\<rparr>
           in (Some a, stub_ring_insert a (w\<lparr>stub_heap := (stub_heap w)(a \<mapsto> c)\<rparr>))))"

definition hex_digit_of :: "char \<Rightarrow> nat option" where
  "hex_digit_of ch =
     (let n = of_char ch :: nat in
      if 48 \<le> n \<and> n \<le> 57 then Some (n - 48)
      else if 65 \<le> n \<and> n \<le> 70 then Some (n - 65 + 10)
      else if 97 \<le> n \<and> n \<le> 102 then Some (n - 97 + 10)
      else None)"

text \<open>The decoding loop of a \<open>data:\<close> URL.\<close>

fun data_decode :: "string \<Rightarrow> bytes" where
  "data_decode [] = []"
| "data_decode (ch # h # l # r) =
     (if ch = CHR ''%'' then
        (case (hex_digit_of h, hex_digit_of l) of
           (Some hi, Some lo) \<Rightarrow> char_of (16 * hi + lo) # data_decode r
         | _ \<Rightarrow> ch # data_decode (h # l # r))
      else (if ch = CHR ''+'' then SP else ch) # data_decode (h # l # r))"
| "data_decode (ch # r) = (if ch = CHR ''+'' then SP else ch) # data_decode r"

definition data_ctx :: "(nat \<Rightarrow> bool) \<Rightarrow> nat \<Rightarrow> string \<Rightarrow> stub_fetch_ctx" where
  "data_ctx malloc p url =
     (let c = fresh_stub p SCH_DATA in
      case strchr_c url (CHR '':'') of
        None \<Rightarrow> c
      | Some r \<Rightarrow>
          (case strchr_c (drop 1 r) (CHR '','') of
             None \<Rightarrow> c
           | Some e \<Rightarrow>
               (let c1 = c\<lparr>sf_path := take 1023 (takeWhile (\<lambda>ch. ch \<noteq> CHR '','') (drop 1 r))\<rparr>; encoded = drop 1 e in
                if malloc (length encoded + 1) then c1\<lparr>sf_dyn_body := Some (data_decode encoded)\<rparr> else c1)))"

definition stub_setup_data :: "stub_env \<Rightarrow> nat \<Rightarrow> nsurl \<Rightarrow> stub_world \<Rightarrow> nat option \<times> stub_world" where
  "stub_setup_data env p u w =
     (case stub_calloc env (stub_heap w) of
        None \<Rightarrow> (None, w)
      | Some a \<Rightarrow> (Some a, stub_ring_insert a (w\<lparr>stub_heap := (stub_heap w)(a \<mapsto> data_ctx (stub_malloc env) p (url_string u))\<rparr>)))"

definition stub_setup :: "stub_env \<Rightarrow> stub_scheme \<Rightarrow> nat \<Rightarrow> nsurl \<Rightarrow> stub_world \<Rightarrow> nat option \<times> stub_world" where
  "stub_setup env sch p u w = (if sch = SCH_DATA then stub_setup_data env p u w else stub_setup_scheme env p u sch w)"

section \<open>Start, abort, free\<close>

definition stub_start :: "nat \<Rightarrow> stub_world \<Rightarrow> stub_world" where
  "stub_start a w = stub_update a (\<lambda>c. c\<lparr>sf_started := True\<rparr>) w"

definition stub_abort :: "nat \<Rightarrow> stub_world \<Rightarrow> stub_world" where
  "stub_abort a w = stub_update a (\<lambda>c. c\<lparr>sf_aborted := True\<rparr>) w"

definition stub_free :: "nat \<Rightarrow> stub_world \<Rightarrow> stub_world" where
  "stub_free a w = (let w1 = stub_ring_remove a w in w1\<lparr>stub_heap := (stub_heap w1)(a := None)\<rparr>)"

definition run_core_op :: "stub_env \<Rightarrow> core_op \<Rightarrow> stub_world \<Rightarrow> stub_world" where
  "run_core_op env op w =
     (case op of
        CoreSetup sch p u \<Rightarrow> snd (stub_setup env sch p u w)
      | CoreStart a \<Rightarrow> stub_start a w
      | CoreAbort a \<Rightarrow> stub_abort a w)"

section \<open>Polling\<close>

text \<open>\<open>fetch_send_callback\<close>: the message, then what the core does about it.\<close>

definition stub_callback :: "stub_env \<Rightarrow> nat \<Rightarrow> fetch_msg \<Rightarrow> stub_world \<Rightarrow> stub_world" where
  "stub_callback env p m w =
     (let w1 = stub_emit [Callback p m] w in fold (run_core_op env) (core_reacts env (stub_events w1)) w1)"

abbreviation is_aborted :: "stub_world \<Rightarrow> nat \<Rightarrow> bool" where
  "is_aborted w a \<equiv> (case stub_heap w a of None \<Rightarrow> False | Some c \<Rightarrow> sf_aborted c)"

definition stub_set_done :: "nat \<Rightarrow> stub_world \<Rightarrow> stub_world" where
  "stub_set_done a w = stub_update a (\<lambda>c. c\<lparr>sf_done := True\<rparr>) w"

definition stub_header :: "string \<Rightarrow> string" where
  "stub_header mime = ''Content-Type: '' @ take 81 mime"

definition stub_send_for :: "stub_env \<Rightarrow> nat \<Rightarrow> stub_fetch_ctx \<Rightarrow> stub_world \<Rightarrow> stub_world" where
  "stub_send_for env a c w =
     (case stub_body_for c of (body, mime) \<Rightarrow>
      (let p = sf_parent c;
           w1 = stub_callback env p (FETCH_HEADER (stub_header mime)) (stub_emit [SetHttpCode p 200] w)
       in if is_aborted w1 a then stub_set_done a w1
          else (let w2 = (if body \<noteq> [] then stub_callback env p (FETCH_DATA body) w1 else w1)
                in if body \<noteq> [] \<and> is_aborted w2 a then stub_set_done a w2
                   else stub_callback env p FETCH_FINISHED (stub_set_done a w2))))"

text \<open>\<open>fetch_remove_from_queues\<close> and \<open>fetch_free\<close>, which runs \<open>stub_free\<close>.\<close>

definition stub_release :: "nat \<Rightarrow> nat \<Rightarrow> stub_world \<Rightarrow> stub_world" where
  "stub_release a p w = stub_free a (stub_emit [RemoveFromQueues p, FreeFetch p] w)"

definition stub_pending :: "stub_fetch_ctx \<Rightarrow> bool" where
  "stub_pending c \<longleftrightarrow> sf_aborted c \<or> sf_started c \<and> \<not> sf_done c"

definition stub_serve :: "stub_env \<Rightarrow> nat \<Rightarrow> stub_fetch_ctx \<Rightarrow> stub_world \<Rightarrow> stub_world" where
  "stub_serve env a c w =
     (if sf_aborted c then stub_release a (sf_parent c) w else stub_release a (sf_parent c) (stub_send_for env a c w))"

text \<open>The inner loop: the first context with work to do, walking the ring once.\<close>

partial_function (option) stub_scan :: "stub_world \<Rightarrow> nat \<Rightarrow> nat \<Rightarrow> (nat \<times> stub_fetch_ctx) option option" where
  "stub_scan w start a =
     (case stub_heap w a of
        None \<Rightarrow> None
      | Some c \<Rightarrow>
          if stub_pending c then Some (Some (a, c))
          else (case sf_next c of
                  None \<Rightarrow> None
                | Some n \<Rightarrow> if n = start then Some None else stub_scan w start n))"

declare stub_scan.simps [code]

text \<open>The outer loop; the argument is how often it may still run.\<close>

fun stub_poll_loop :: "stub_env \<Rightarrow> nat \<Rightarrow> stub_world \<Rightarrow> stub_world option" where
  "stub_poll_loop env 0 w = Some w"
| "stub_poll_loop env (Suc k) w =
     (case stub_ring w of
        None \<Rightarrow> Some w
      | Some h \<Rightarrow>
          (case stub_scan w h h of
             None \<Rightarrow> None
           | Some None \<Rightarrow> Some w
           | Some (Some (a, c)) \<Rightarrow> stub_poll_loop env k (stub_serve env a c w)))"

definition stub_poll :: "stub_env \<Rightarrow> stub_world \<Rightarrow> stub_world option" where
  "stub_poll env w = stub_poll_loop env 64 w"

end
