(* ===== verification/StubProps.thy ===== *)
theory StubProps
  imports StubFetcher
begin

text \<open>
  Correctness of the built-in fetchers: the pointer ring implements a list of contexts in the
  order of their setup, polling ends and serves every pending context, \<open>data:\<close> URLs decode to
  what was encoded.
\<close>

section \<open>The ring as a list\<close>

text \<open>The contexts in the ring, oldest first; every allocated context is in it.\<close>

definition ring_of :: "stub_world \<Rightarrow> nat list \<Rightarrow> bool" where
  "ring_of w xs \<longleftrightarrow> ring (stub_next w) (stub_prev w) xs \<and> stub_ring w = (if xs = [] then None else Some (hd xs)) \<and> dom (stub_heap w) = set xs"

lemma set_next_links [simp]:
  "stub_next (set_next (Some a) v w) = (stub_next w)(a := if a \<in> dom (stub_heap w) then v else None)"
  "stub_prev (set_next p v w) = stub_prev w"
  "dom (stub_heap (set_next p v w)) = dom (stub_heap w)" "stub_ring (set_next p v w) = stub_ring w" "stub_events (set_next p v w) = stub_events w"
  by (auto simp: set_next_def stub_update_def stub_next_def stub_prev_def fun_eq_iff map_option_case split: option.splits)

lemma set_prev_links [simp]:
  "stub_prev (set_prev (Some a) v w) = (stub_prev w)(a := if a \<in> dom (stub_heap w) then v else None)"
  "stub_next (set_prev p v w) = stub_next w"
  "dom (stub_heap (set_prev p v w)) = dom (stub_heap w)" "stub_ring (set_prev p v w) = stub_ring w" "stub_events (set_prev p v w) = stub_events w"
  by (auto simp: set_prev_def stub_update_def stub_next_def stub_prev_def fun_eq_iff map_option_case split: option.splits)

lemma set_link_alive [simp]:
  "stub_heap (set_next p v w) a = None \<longleftrightarrow> stub_heap w a = None" "stub_heap (set_prev p v w) a = None \<longleftrightarrow> stub_heap w a = None"
  by (auto simp: set_next_def set_prev_def stub_update_def split: option.splits)

lemma dead_links:
  "stub_next (w\<lparr>stub_heap := (stub_heap w)(a := None)\<rparr>) = (stub_next w)(a := None)"
  "stub_prev (w\<lparr>stub_heap := (stub_heap w)(a := None)\<rparr>) = (stub_prev w)(a := None)"
  "stub_next (w\<lparr>stub_ring := r\<rparr>) = stub_next w" "stub_prev (w\<lparr>stub_ring := r\<rparr>) = stub_prev w"
  by (simp_all add: fun_eq_iff stub_next_def stub_prev_def)

lemma ring_insert_list:
  assumes "ring (stub_next w) (stub_prev w) xs" "stub_ring w = (if xs = [] then None else Some (hd xs))"
    and "dom (stub_heap w) = insert a (set xs)" "a \<notin> set xs"
  shows "ring_of (stub_ring_insert a w) (xs @ [a])"
proof -
  show ?thesis
  proof (cases "xs = []")
    case True
    then show ?thesis using assms(2,3) by (simp add: ring_of_def stub_ring_insert_def ring_def)
  next
    case False
    have p: "stub_prev w (hd xs) = Some (last xs)" using assms(1) False by (simp add: ring_def)
    have al': "hd xs \<in> set xs" "last xs \<in> set xs" using False by simp_all
    have n: "hd xs \<noteq> a" "last xs \<noteq> a" using assms(4) False by auto
    show ?thesis using ring_insert [OF assms(1) False assms(4)] assms(2,3) False al' n p
      by (simp add: ring_of_def stub_ring_insert_def Let_def fun_upd_twist)
  qed
qed

lemma ring_remove_list:
  assumes "ring_of w (us @ a # vs)"
  shows "ring_of (stub_free a w) (us @ vs)"
proof -
  have r: "ring (stub_next w) (stub_prev w) (a # vs @ us)" using assms ring_rotate [of _ _ us "a # vs"] by (simp add: ring_of_def)
  have hp: "dom (stub_heap w) = insert a (set (us @ vs))" "stub_ring w = Some (hd (us @ [a]))" "a \<notin> set (us @ vs)"
    using assms by (auto simp: ring_of_def ring_def hd_append)
  show ?thesis
  proof (cases "vs @ us = []")
    case True
    then show ?thesis using r hp by (auto simp: ring_of_def ring_def stub_free_def stub_ring_remove_def Let_def)
  next
    case False
    let ?ws = "vs @ us"
    note nb = ring_neighbours [OF r False]
    have ws: "hd ?ws \<in> set ?ws" "last ?ws \<in> set ?ws" using False by (meson hd_in_set last_in_set)+
    have al': "hd ?ws \<in> dom (stub_heap w)" "last ?ws \<in> dom (stub_heap w)" using ws unfolding hp(1) by auto
    have ne: "hd ?ws \<noteq> a" "last ?ws \<noteq> a" using ws hp(3) by auto
    define v where "v = set_prev (Some (hd ?ws)) (Some (last ?ws)) (set_next (Some (last ?ws)) (Some (hd ?ws)) w)"
    have v: "stub_next v = (stub_next w)(last ?ws := Some (hd ?ws))" "stub_prev v = (stub_prev w)(hd ?ws := Some (last ?ws))"
      "dom (stub_heap v) = dom (stub_heap w)" "stub_ring v = stub_ring w"
      using al' by (simp_all add: v_def)
    define w' where "w' = stub_free a w"
    have w': "w' = (let v' = set_prev (Some a) None (set_next (Some a) None (if stub_ring w = Some a then v\<lparr>stub_ring := Some (hd ?ws)\<rparr> else v))
        in v'\<lparr>stub_heap := (stub_heap v')(a := None)\<rparr>)"
      using nb ne v by (simp add: w'_def stub_free_def stub_ring_remove_def Let_def v_def [symmetric])
    have l: "stub_next w' = ((stub_next w)(last ?ws := Some (hd ?ws)))(a := None)" "stub_prev w' = ((stub_prev w)(hd ?ws := Some (last ?ws)))(a := None)"
      "dom (stub_heap w') = set (us @ vs)" "stub_ring w' = (if us = [] then Some (hd ?ws) else Some (hd us))"
      using hp(2,3) unfolding w' Let_def by (simp_all add: dead_links v hp(1)) auto
    have "ring (stub_next w') (stub_prev w') ?ws" by (rule ring_delete [OF r False l(1,2)])
    then have "ring (stub_next w') (stub_prev w') (us @ vs)" using ring_rotate by blast
    then show ?thesis using l(3,4) False by (auto simp: ring_of_def w'_def [symmetric])
  qed
qed

section \<open>The operations on the list\<close>

lemma emit_list [simp]: "ring_of (stub_emit es w) xs \<longleftrightarrow> ring_of w xs" "stub_events (stub_emit es w) = stub_events w @ es"
  "stub_heap (stub_emit es w) = stub_heap w"
proof -
  have "stub_next (stub_emit es w) = stub_next w" "stub_prev (stub_emit es w) = stub_prev w"
    by (simp_all add: stub_emit_def stub_next_def stub_prev_def fun_eq_iff)
  then show "ring_of (stub_emit es w) xs \<longleftrightarrow> ring_of w xs" by (simp add: ring_of_def) (simp add: stub_emit_def)
qed (simp_all add: stub_emit_def)

text \<open>Changing other fields of a context than its links.\<close>

lemma update_list:
  assumes "\<forall>c. sf_next (f c) = sf_next c \<and> sf_prev (f c) = sf_prev c"
  shows "ring_of (stub_update a f w) xs \<longleftrightarrow> ring_of w xs"
proof -
  have "stub_next (stub_update a f w) = stub_next w" "stub_prev (stub_update a f w) = stub_prev w"
    using assms by (auto simp: stub_update_def stub_next_def stub_prev_def fun_eq_iff map_option_case split: option.splits)
  moreover have "dom (stub_heap (stub_update a f w)) = dom (stub_heap w)" by (auto simp: stub_update_def)
  ultimately show ?thesis by (simp add: ring_of_def) (simp add: stub_update_def)
qed

lemma update_events [simp]: "stub_events (stub_update a f w) = stub_events w"
  by (simp add: stub_update_def)

definition calloc_fresh :: "stub_env \<Rightarrow> bool" where
  "calloc_fresh env \<longleftrightarrow> (\<forall>h a. stub_calloc env h = Some a \<longrightarrow> h a = None)"

lemma insert_events [simp]: "stub_events (stub_ring_insert a w) = stub_events w"
  by (simp add: stub_ring_insert_def Let_def split: option.splits)

lemma insert_fresh:
  assumes "ring_of w xs" "stub_heap w a = None" "sf_next c = None" "sf_prev c = None"
  shows "a \<notin> set xs \<and> ring_of (stub_ring_insert a (w\<lparr>stub_heap := (stub_heap w)(a \<mapsto> c)\<rparr>)) (xs @ [a])"
proof -
  let ?w = "w\<lparr>stub_heap := (stub_heap w)(a \<mapsto> c)\<rparr>"
  have "stub_next ?w = stub_next w" "stub_prev ?w = stub_prev w" using assms(2-4) by (auto simp: stub_next_def stub_prev_def fun_eq_iff)
  moreover have a: "a \<notin> set xs" using assms(1,2) by (auto simp: ring_of_def)
  ultimately show ?thesis using assms(1) by (intro conjI ring_insert_list) (simp_all add: ring_of_def)
qed

lemma setup_list:
  assumes "ring_of w xs" "calloc_fresh env" "stub_setup env sch p u w = (r, w')"
  shows "(case r of None \<Rightarrow> w' = w | Some a \<Rightarrow> a \<notin> set xs \<and> ring_of w' (xs @ [a])) \<and> stub_events w' = stub_events w"
proof -
  have l: "sf_next (data_ctx m p u) = None" "sf_prev (data_ctx m p u) = None" for m u
    by (simp_all add: data_ctx_def fresh_stub_def Let_def split: option.splits)
  obtain c where c: "sf_next c = None" "sf_prev c = None"
    and w': "(r, w') = (case stub_calloc env (stub_heap w) of None \<Rightarrow> (None, w)
      | Some a \<Rightarrow> (Some a, stub_ring_insert a (w\<lparr>stub_heap := (stub_heap w)(a \<mapsto> c)\<rparr>)))"
  proof (cases "sch = SCH_DATA")
    case True
    then show ?thesis using assms(3) l that [of "data_ctx (stub_malloc env) p (url_string u)"] by (simp add: stub_setup_def stub_setup_data_def)
  next
    case False
    have "sf_next (fresh_stub p sch) = None" "sf_prev (fresh_stub p sch) = None" by (simp_all add: fresh_stub_def)
    then show ?thesis using False assms(3) [symmetric, unfolded stub_setup_def stub_setup_scheme_def Let_def] that [of "(fresh_stub p sch)\<lparr>sf_path := stub_path (url_string u),
          sf_body := if sch = SCH_ABOUT then about_body (stub_counters env) (stub_path (url_string u)) else []\<rparr>"]
      by simp
  qed
  show ?thesis
  proof (cases "stub_calloc env (stub_heap w)")
    case (Some a)
    then have "stub_heap w a = None" using assms(2) by (simp add: calloc_fresh_def)
    from insert_fresh [OF assms(1) this c] show ?thesis using w' Some by simp
  qed (use w' in simp)
qed

lemma free_list:
  assumes "ring_of w xs" "a \<in> set xs"
  shows "ring_of (stub_free a w) (remove1 a xs)"
proof -
  obtain us vs where x: "xs = us @ a # vs" "a \<notin> set us" using split_list_first [OF assms(2)] by blast
  then show ?thesis using ring_remove_list [of w us a vs] assms(1) by (simp add: remove1_append)
qed

lemma free_events [simp]: "stub_events (stub_free a w) = stub_events w"
  by (simp add: stub_free_def stub_ring_remove_def Let_def)

text \<open>What the core does in a callback only adds contexts.\<close>

definition grows :: "nat list \<Rightarrow> stub_world \<Rightarrow> bool" where
  "grows xs w \<longleftrightarrow> (\<exists>ys. ring_of w (xs @ ys))"

lemma core_op_grows:
  assumes "calloc_fresh env" "grows xs w"
  shows "grows xs (run_core_op env op w) \<and> stub_events (run_core_op env op w) = stub_events w"
proof -
  obtain ys where r: "ring_of w (xs @ ys)" using assms(2) by (auto simp: grows_def)
  show ?thesis
  proof (cases op)
    case (CoreSetup sch p u)
    obtain res w' where s: "stub_setup env sch p u w = (res, w')" by fastforce
    from setup_list [OF r assms(1) this] show ?thesis using s r CoreSetup
      by (auto simp: run_core_op_def grows_def split: option.splits intro: exI [of _ "ys @ [a]" for a])
  next
    case (CoreStart a)
    then show ?thesis using r by (auto simp: run_core_op_def stub_start_def grows_def update_list)
  next
    case (CoreAbort a)
    then show ?thesis using r by (auto simp: run_core_op_def stub_abort_def grows_def update_list)
  qed
qed

lemma core_ops_grow:
  "calloc_fresh env \<Longrightarrow> grows xs w \<Longrightarrow> grows xs (fold (run_core_op env) ops w) \<and> stub_events (fold (run_core_op env) ops w) = stub_events w"
  by (induction ops arbitrary: w) (auto simp: core_op_grows)

lemma callback_grows:
  assumes "calloc_fresh env" "grows xs w"
  shows "grows xs (stub_callback env p m w)" "stub_events (stub_callback env p m w) = stub_events w @ [Callback p m]"
  using core_ops_grow [OF assms(1), of xs "stub_emit [Callback p m] w"] assms(2) by (simp_all add: stub_callback_def Let_def grows_def)

text \<open>A callback marks a context aborted exactly if the core aborts it there; set-ups touch other contexts only.\<close>

lemma link_aborted [simp]:
  "map_option sf_aborted (stub_heap (set_next p v w) x) = map_option sf_aborted (stub_heap w x)"
  "map_option sf_aborted (stub_heap (set_prev p v w) x) = map_option sf_aborted (stub_heap w x)"
  by (auto simp: set_next_def set_prev_def stub_update_def option.map_comp comp_def split: option.splits)

lemma insert_aborted [simp]:
  "map_option sf_aborted (stub_heap (stub_ring_insert a w) x) = map_option sf_aborted (stub_heap w x)"
  by (simp add: stub_ring_insert_def Let_def split: option.splits)

lemma is_aborted_map: "is_aborted w a \<longleftrightarrow> map_option sf_aborted (stub_heap w a) = Some True"
  by (auto split: option.splits)

lemma setup_aborted:
  assumes "calloc_fresh env" "stub_heap w a \<noteq> None"
  shows "map_option sf_aborted (stub_heap (snd (stub_setup env sch p u w)) a) = map_option sf_aborted (stub_heap w a)"
proof (cases "stub_calloc env (stub_heap w)")
  case None
  then show ?thesis by (simp add: stub_setup_def stub_setup_data_def stub_setup_scheme_def)
next
  case (Some b)
  then have "stub_heap w b = None" using assms(1) by (simp add: calloc_fresh_def)
  then have "b \<noteq> a" using assms(2) by metis
  then show ?thesis using Some by (simp add: stub_setup_def stub_setup_data_def stub_setup_scheme_def Let_def)
qed

lemma core_op_aborted:
  assumes "calloc_fresh env" "stub_heap w a \<noteq> None"
  shows "stub_heap (run_core_op env op w) a \<noteq> None
    \<and> (is_aborted (run_core_op env op w) a \<longleftrightarrow> is_aborted w a \<or> op = CoreAbort a)"
proof (cases op)
  case (CoreSetup sch p u)
  from setup_aborted [OF assms, of sch p u] assms(2) CoreSetup show ?thesis
    by (auto simp: run_core_op_def is_aborted_map simp del: map_option_eq_Some)
next
  case (CoreStart b)
  then show ?thesis using assms(2) by (auto simp: run_core_op_def stub_start_def stub_update_def)
next
  case (CoreAbort b)
  then show ?thesis using assms(2) by (auto simp: run_core_op_def stub_abort_def stub_update_def)
qed

lemma core_ops_aborted:
  "calloc_fresh env \<Longrightarrow> stub_heap w a \<noteq> None \<Longrightarrow> stub_heap (fold (run_core_op env) ops w) a \<noteq> None
    \<and> (is_aborted (fold (run_core_op env) ops w) a \<longleftrightarrow> is_aborted w a \<or> CoreAbort a \<in> set ops)"
proof (induction ops arbitrary: w)
  case (Cons op ops)
  note o = core_op_aborted [OF Cons.prems, of op]
  from Cons.IH [OF Cons.prems(1), of "run_core_op env op w"] o show ?case by auto
qed simp

lemma callback_aborted:
  assumes "calloc_fresh env" "stub_heap w a \<noteq> None"
  shows "stub_heap (stub_callback env p m w) a \<noteq> None"
    "is_aborted (stub_callback env p m w) a
       \<longleftrightarrow> is_aborted w a \<or> CoreAbort a \<in> set (core_reacts env (stub_events w @ [Callback p m]))"
  using core_ops_aborted [OF assms(1), of "stub_emit [Callback p m] w" a] assms(2)
  by (simp_all add: stub_callback_def Let_def)

section \<open>Serving one context\<close>

text \<open>
  What a context is told: the whole response, cut after the message in whose callback the core
  aborts this very fetch; nothing if it was aborted before. \<open>l\<close> is the log before.
\<close>

definition stub_response :: "stub_fetch_ctx \<Rightarrow> fetch_ev list" where
  "stub_response c =
     (let p = sf_parent c; (body, mime) = stub_body_for c in
      [SetHttpCode p 200, Callback p (FETCH_HEADER (stub_header mime))]
        @ (if body \<noteq> [] then [Callback p (FETCH_DATA body)] else []) @ [Callback p FETCH_FINISHED])"

definition stub_told :: "stub_env \<Rightarrow> fetch_ev list \<Rightarrow> nat \<Rightarrow> stub_fetch_ctx \<Rightarrow> fetch_ev list" where
  "stub_told env l a c =
     (let aborts = (\<lambda>n. CoreAbort a \<in> set (core_reacts env (l @ take n (stub_response c)))) in
      if sf_aborted c then []
      else if aborts 2 then take 2 (stub_response c)
      else if fst (stub_body_for c) \<noteq> [] \<and> aborts 3 then take 3 (stub_response c)
      else stub_response c)"

lemma set_done_list [simp]: "grows xs (stub_set_done a w) \<longleftrightarrow> grows xs w" "stub_events (stub_set_done a w) = stub_events w"
  by (simp_all add: stub_set_done_def grows_def update_list)

lemma send_for_grows:
  assumes "calloc_fresh env" "grows xs w" "stub_heap w a = Some c" "\<not> sf_aborted c"
  shows "grows xs (stub_send_for env a c w)
    \<and> stub_events (stub_send_for env a c w) = stub_events w @ stub_told env (stub_events w) a c"
proof -
  obtain body mime where b: "stub_body_for c = (body, mime)" by fastforce
  let ?p = "sf_parent c" and ?l = "stub_events w"
  let ?hdr = "[SetHttpCode ?p 200, Callback ?p (FETCH_HEADER (stub_header mime))]"
  let ?dat = "if body \<noteq> [] then [Callback ?p (FETCH_DATA body)] else []"
  define w1 where "w1 = stub_callback env ?p (FETCH_HEADER (stub_header mime)) (stub_emit [SetHttpCode ?p 200] w)"
  define w2 where "w2 = (if body \<noteq> [] then stub_callback env ?p (FETCH_DATA body) w1 else w1)"
  note cb = callback_grows [OF assms(1)] and ab = callback_aborted [OF assms(1)]
  have r: "stub_response c = ?hdr @ ?dat @ [Callback ?p FETCH_FINISHED]"
    by (simp add: stub_response_def b Let_def)
  have 1: "grows xs w1" "stub_events w1 = ?l @ ?hdr"
    using cb [of xs "stub_emit [SetHttpCode ?p 200] w"] assms(2) by (simp_all add: w1_def grows_def)
  have 2: "grows xs w2" "stub_events w2 = ?l @ ?hdr @ ?dat"
    using cb [OF 1(1)] 1 by (simp_all add: w2_def)
  have 3: "grows xs (stub_callback env ?p FETCH_FINISHED (stub_set_done a w2))"
    "stub_events (stub_callback env ?p FETCH_FINISHED (stub_set_done a w2)) = ?l @ stub_response c"
    using cb [of xs "stub_set_done a w2"] 2 by (simp_all add: r)
  have a1: "stub_heap w1 a \<noteq> None" "is_aborted w1 a \<longleftrightarrow> CoreAbort a \<in> set (core_reacts env (?l @ ?hdr))"
    using ab [of "stub_emit [SetHttpCode ?p 200] w" a] assms(3,4) by (simp_all add: w1_def)
  have a2: "is_aborted w2 a \<longleftrightarrow> is_aborted w1 a \<or> CoreAbort a \<in> set (core_reacts env (?l @ ?hdr @ ?dat))" if "body \<noteq> []"
    using ab(2) [OF a1(1), of ?p "FETCH_DATA body"] that 1(2) by (simp add: w2_def)
  have s: "stub_send_for env a c w =
     (if is_aborted w1 a then stub_set_done a w1
      else if body \<noteq> [] \<and> is_aborted w2 a then stub_set_done a w2
      else stub_callback env ?p FETCH_FINISHED (stub_set_done a w2))"
    unfolding stub_send_for_def b prod.case Let_def w1_def [symmetric] w2_def [symmetric] by simp
  have t: "take 2 (stub_response c) = ?hdr" "body \<noteq> [] \<Longrightarrow> take 3 (stub_response c) = ?hdr @ ?dat"
    unfolding r by (simp_all add: numeral_3_eq_3)
  show ?thesis
  proof (cases "is_aborted w1 a")
    case True
    then show ?thesis using 1 a1(2) assms(4) by (simp add: s stub_told_def t(1))
  next
    case no1: False
    then have n1: "CoreAbort a \<notin> set (core_reacts env (?l @ ?hdr))" using a1(2) by simp
    show ?thesis
    proof (cases "body \<noteq> [] \<and> is_aborted w2 a")
      case True
      then have "CoreAbort a \<in> set (core_reacts env (?l @ ?hdr @ ?dat))" using a2 no1 by blast
      then show ?thesis using True 2 no1 n1 assms(4) by (simp add: s stub_told_def t b)
    next
      case False
      then have "body \<noteq> [] \<Longrightarrow> CoreAbort a \<notin> set (core_reacts env (?l @ ?hdr @ ?dat))" using a2 by blast
      then show ?thesis using False 3 no1 n1 assms(4) by (auto simp: s stub_told_def t b Let_def)
    qed
  qed
qed

lemma serve_list:
  assumes "calloc_fresh env" "ring_of w xs" "a \<in> set xs" "stub_heap w a = Some c"
  shows "\<exists>ys. ring_of (stub_serve env a c w) (remove1 a xs @ ys) \<and> stub_events (stub_serve env a c w)
     = stub_events w @ stub_told env (stub_events w) a c @ [RemoveFromQueues (sf_parent c), FreeFetch (sf_parent c)]"
proof -
  define v where "v = (if sf_aborted c then w else stub_send_for env a c w)"
  have sv: "stub_serve env a c w = stub_release a (sf_parent c) v" by (simp add: stub_serve_def v_def)
  have "grows xs w" using assms(2) by (auto simp: grows_def intro: exI [of _ "[]"])
  then have "grows xs v \<and> stub_events v = stub_events w @ stub_told env (stub_events w) a c"
    using send_for_grows [OF assms(1) _ assms(4)] by (simp add: v_def stub_told_def)
  then obtain ys where v: "ring_of v (xs @ ys)" "stub_events v = stub_events w @ stub_told env (stub_events w) a c"
    by (auto simp: grows_def)
  have "ring_of (stub_release a (sf_parent c) v) (remove1 a (xs @ ys))"
    using v(1) assms(3) unfolding stub_release_def by (intro free_list) simp_all
  then show ?thesis using v(2) assms(3)
    by (intro exI [of _ ys]) (simp add: sv remove1_append, simp add: stub_release_def)
qed

text \<open>
  A poll's log: the contexts it served, each pending when its turn came and told what
  \<open>stub_told\<close> says, then released.
\<close>

fun serving :: "stub_env \<Rightarrow> fetch_ev list \<Rightarrow> (nat \<times> stub_fetch_ctx) list \<Rightarrow> fetch_ev list \<Rightarrow> bool" where
  "serving env l [] l' \<longleftrightarrow> l' = l"
| "serving env l ((a, c) # rest) l' \<longleftrightarrow> stub_pending c
     \<and> serving env (l @ stub_told env l a c @ [RemoveFromQueues (sf_parent c), FreeFetch (sf_parent c)]) rest l'"

section \<open>Polling\<close>

abbreviation waiting :: "stub_world \<Rightarrow> nat \<Rightarrow> bool" where
  "waiting w a \<equiv> (\<exists>c. stub_heap w a = Some c \<and> stub_pending c)"

text \<open>The inner loop finds the first context of the list that is pending.\<close>

lemma scan_from:
  assumes "ring_of w xs" "xs = us @ b # vs"
  shows "stub_scan w (hd xs) b = Some (map_option (\<lambda>a. (a, the (stub_heap w a))) (find (waiting w) (b # vs)))"
  using assms(2)
proof (induction vs arbitrary: us b)
  case Nil
  obtain c where c: "stub_heap w b = Some c" using assms(1) Nil by (auto simp: ring_of_def)
  have "stub_next w b = Some (hd xs)" using assms(1) Nil by (simp add: ring_of_def ring_def)
  then show ?case using c by (subst stub_scan.simps) (simp add: stub_next_def)
next
  case (Cons b' vs)
  obtain c where c: "stub_heap w b = Some c" using assms(1) Cons.prems by (auto simp: ring_of_def)
  have n: "stub_next w b = Some b'" "b' \<noteq> hd xs"
    using assms(1) Cons.prems by (auto simp: ring_of_def ring_def chain_append hd_append)
  from Cons.IH [of "us @ [b]" b'] Cons.prems show ?case using c n by (subst stub_scan.simps) (simp add: stub_next_def)
qed

lemma poll_loop_list:
  assumes "calloc_fresh env" "ring_of w xs"
  shows "\<exists>w' xs' log. stub_poll_loop env k w = Some w' \<and> ring_of w' xs' \<and> length log \<le> k
     \<and> serving env (stub_events w) log (stub_events w')
     \<and> (length log < k \<longrightarrow> (\<forall>a \<in> set xs'. \<not> waiting w' a))"
  using assms(2)
proof (induction k arbitrary: w xs)
  case 0
  then show ?case by (auto intro: exI [of _ "[]"])
next
  case (Suc k)
  show ?case
  proof (cases "xs = [] \<or> find (waiting w) xs = None")
    case True
    then have "stub_poll_loop env (Suc k) w = Some w"
    proof
      assume "find (waiting w) xs = None"
      then show ?thesis using Suc.prems scan_from [OF Suc.prems, of "[]"] by (cases xs) (simp_all add: ring_of_def)
    qed (use Suc.prems in \<open>simp add: ring_of_def\<close>)
    then show ?thesis using True Suc.prems by (intro exI [of _ w] exI [of _ xs] exI [of _ "[]"]) (auto simp: find_None_iff)
  next
    case False
    then obtain a where a: "find (waiting w) xs = Some a" by blast
    then obtain c where c: "a \<in> set xs" "stub_heap w a = Some c" "stub_pending c" by (auto simp: find_Some_iff)
    have st: "stub_poll_loop env (Suc k) w = stub_poll_loop env k (stub_serve env a c w)"
      using False a c Suc.prems scan_from [OF Suc.prems, of "[]"] by (cases xs) (simp_all add: ring_of_def)
    obtain ys where s: "ring_of (stub_serve env a c w) (remove1 a xs @ ys)" "stub_events (stub_serve env a c w)
       = stub_events w @ stub_told env (stub_events w) a c @ [RemoveFromQueues (sf_parent c), FreeFetch (sf_parent c)]"
      using serve_list [OF assms(1) Suc.prems c(1,2)] by blast
    obtain w' xs' log where "stub_poll_loop env k (stub_serve env a c w) = Some w'" "ring_of w' xs'" "length log \<le> k"
      "serving env (stub_events (stub_serve env a c w)) log (stub_events w')"
      "length log < k \<longrightarrow> (\<forall>a \<in> set xs'. \<not> waiting w' a)"
      using Suc.IH [OF s(1)] by blast
    then show ?thesis using st s(2) c(3) by (intro exI [of _ w'] exI [of _ xs'] exI [of _ "(a, c) # log"]) auto
  qed
qed

section \<open>Percent-encoding\<close>

text \<open>Every byte as a percent sign and two hexadecimal digits, the form \<open>data:\<close> URLs can always use.\<close>

definition hex_char :: "nat \<Rightarrow> char" where
  "hex_char d = char_of (if d < 10 then 48 + d else 55 + d)"

definition pct_encode :: "(char \<Rightarrow> bool) \<Rightarrow> bytes \<Rightarrow> string" where
  "pct_encode plain b = concat (map (\<lambda>ch. if plain ch then [ch]
     else [CHR ''%'', hex_char (of_char ch div 16), hex_char (of_char ch mod 16)]) b)"

lemma hex_char_digit: "d < 16 \<Longrightarrow> hex_digit_of (hex_char d) = Some d"
  by (auto simp: hex_digit_of_def hex_char_def)

lemma decode_pct: "data_decode (CHR ''%'' # hex_char (of_char ch div 16) # hex_char (of_char ch mod 16) # r) = ch # data_decode r"
proof -
  have "of_char ch < (256 :: nat)" by simp
  then have "(of_char ch :: nat) div 16 < 16" "(of_char ch :: nat) mod 16 < 16" by (simp_all add: less_mult_imp_div_less)
  then show ?thesis by (simp add: hex_char_digit)
qed

lemma decode_plain: "ch \<noteq> CHR ''%'' \<Longrightarrow> ch \<noteq> CHR ''+'' \<Longrightarrow> data_decode (ch # r) = ch # data_decode r"
  by (cases r rule: data_decode.cases) simp_all

lemma decode_encode:
  assumes "\<not> plain (CHR ''%'')" "\<not> plain (CHR ''+'')"
  shows "data_decode (pct_encode plain b) = b"
proof (induction b)
  case (Cons ch b)
  show ?case
  proof (cases "plain ch")
    case True
    then have "ch \<noteq> CHR ''%''" "ch \<noteq> CHR ''+''" using assms by auto
    then show ?thesis using True Cons decode_plain [of ch "pct_encode plain b"] by (simp add: pct_encode_def)
  next
    case False
    then show ?thesis using Cons decode_pct [of ch "pct_encode plain b"] by (simp add: pct_encode_def del: data_decode.simps)
  qed
qed (simp add: pct_encode_def)

text \<open>A text with no escape in it keeps its length and loses its plus signs.\<close>

lemma decode_shape: "data_decode s = map (\<lambda>ch. if ch = CHR ''+'' then SP else ch) s \<or> length (data_decode s) < length s"
  by (induction s rule: data_decode.induct) (auto split: option.splits)

lemma decode_plus: "CHR ''+'' \<in> set s \<Longrightarrow> data_decode s \<noteq> s"
proof
  assume "CHR ''+'' \<in> set s" "data_decode s = s"
  moreover from this(2) have "s = map (\<lambda>ch. if ch = CHR ''+'' then SP else ch) s" using decode_shape [of s] by auto
  ultimately have "CHR ''+'' \<in> (\<lambda>ch. if ch = CHR ''+'' then SP else ch) ` set s" by (metis list.set_map)
  then show False by (auto split: if_splits)
qed

lemma strchr_append: "ch \<notin> set a \<Longrightarrow> strchr_c (a @ ch # b) ch = Some (ch # b)"
  by (simp add: strchr_c_def dropWhile_append)

section \<open>Properties\<close>

text \<open>A store of 100 addresses, a core that does nothing, and no fetch yet.\<close>

definition sample_env :: stub_env where
  "sample_env = \<lparr>stub_calloc = (\<lambda>h. find (\<lambda>a. h a = None) [1..<100]), stub_malloc = (\<lambda>n. True),
     stub_counters = \<lparr>css_total_bytes = 0, site_css_skip = 0, site_css_ok = 0, site_reformat_ms = 0, site_box_total = 0, site_box_blk = 0,
       site_box_inlinec = 0, site_box_inline = 0, site_box_text = 0, site_box_other = 0, site_img_ok = 0, site_img_fail = 0\<rparr>,
     core_reacts = (\<lambda>evs. [])\<rparr>"

definition no_stubs :: stub_world where
  "no_stubs = \<lparr>stub_heap = (\<lambda>a. None), stub_ring = None, stub_events = []\<rparr>"

definition sample_data_url :: nsurl where
  "sample_data_url = \<lparr>url_string = ''data:text/html,%3Ch1%3E'', url_scheme = Some ''data'', url_host = None, url_port = None, url_path = None, url_query = None\<rparr>"

lemma sample_env_fresh: "calloc_fresh sample_env"
  by (auto simp: calloc_fresh_def sample_env_def find_Some_iff)

lemma no_stubs_ring: "ring_of no_stubs []"
  by (simp add: ring_of_def no_stubs_def ring_def)

text \<open>
  C21. The ring is a list. The circular pointer structure of the built-in fetchers implements the
  list of contexts in the order of their setup: setting a fetch up appends a fresh context, or
  changes nothing when memory is short; freeing one removes exactly that one; starting and
  aborting leave the list as it is. Every allocated context is in the list, so none is lost.
\<close>

theorem stub_ring_refines:
  assumes "ring_of w xs" "calloc_fresh env"
  shows "(\<forall>sch p u r w'. stub_setup env sch p u w = (r, w') \<longrightarrow>
            (case r of None \<Rightarrow> w' = w | Some a \<Rightarrow> a \<notin> set xs \<and> ring_of w' (xs @ [a])))
     \<and> (\<forall>a \<in> set xs. ring_of (stub_free a w) (remove1 a xs))
     \<and> (\<forall>a. ring_of (stub_start a w) xs \<and> ring_of (stub_abort a w) xs)"
proof (intro conjI allI ballI impI)
  show "case r of None \<Rightarrow> w' = w | Some a \<Rightarrow> a \<notin> set xs \<and> ring_of w' (xs @ [a])" if "stub_setup env sch p u w = (r, w')" for sch p u r w'
    using setup_list [OF assms that] by simp
  show "ring_of (stub_free a w) (remove1 a xs)" if "a \<in> set xs" for a by (rule free_list [OF assms(1) that])
  show "ring_of (stub_start a w) xs" "ring_of (stub_abort a w) xs" for a
    using assms(1) by (simp_all add: stub_start_def stub_abort_def update_list)
qed

theorem stub_ring_refines_witness: "\<exists>w'. stub_setup sample_env SCH_DATA 7 sample_data_url no_stubs = (Some 1, w') \<and> ring_of w' [1]"
proof -
  have "stub_calloc sample_env (stub_heap no_stubs) = Some 1" by (simp add: sample_env_def no_stubs_def upt_rec)
  then obtain w' where "stub_setup sample_env SCH_DATA 7 sample_data_url no_stubs = (Some 1, w')"
    by (simp add: stub_setup_def stub_setup_data_def)
  then show ?thesis using stub_ring_refines [OF no_stubs_ring sample_env_fresh] by fastforce
qed

text \<open>
  C22. Polling the built-in fetchers. A poll returns whatever the core does in its callbacks, and
  serves at most 64 pending contexts one after the other. Each is told its whole response, in
  order: status, header, data when there is any, end; the response is cut only right after the
  message in whose callback the core aborts this very fetch, and a context aborted before its
  turn is told nothing. Then it is released. Set-ups, starts and aborts of other fetches in the
  callbacks change nothing of it. Unless 64 were served, no pending context is left.
\<close>

theorem stub_poll_serves:
  assumes "ring_of w xs" "calloc_fresh env"
  shows "\<exists>w' xs' log. stub_poll env w = Some w' \<and> ring_of w' xs' \<and> length log \<le> 64
     \<and> serving env (stub_events w) log (stub_events w')
     \<and> (length log < 64 \<longrightarrow> (\<forall>a \<in> set xs'. \<not> waiting w' a))"
  unfolding stub_poll_def by (rule poll_loop_list [OF assms(2,1)])

text \<open>One \<open>data:\<close> fetch, set up and started.\<close>

definition one_stub :: stub_world where
  "one_stub = stub_start 1 (snd (stub_setup sample_env SCH_DATA 7 sample_data_url no_stubs))"

lemma one_stub_ring: "ring_of one_stub [1]"
proof -
  have "stub_calloc sample_env (stub_heap no_stubs) = Some 1" by (simp add: sample_env_def no_stubs_def upt_rec)
  then show ?thesis using setup_list [OF no_stubs_ring sample_env_fresh, of SCH_DATA 7 sample_data_url]
    by (simp add: one_stub_def stub_start_def update_list stub_setup_def stub_setup_data_def)
qed

theorem stub_poll_serves_witness:
  "\<exists>w' log. stub_poll sample_env one_stub = Some w' \<and> serving sample_env [] log (stub_events w')
     \<and> (\<forall>a. \<not> waiting w' a \<or> length log = 64)"
proof -
  have e: "stub_events one_stub = []" by code_simp
  obtain w' xs' log where "stub_poll sample_env one_stub = Some w'" and r: "ring_of w' xs'" and l: "length log \<le> 64"
    and "serving sample_env [] log (stub_events w')"
    and n: "length log < 64 \<longrightarrow> (\<forall>a \<in> set xs'. \<not> waiting w' a)"
    using stub_poll_serves [OF one_stub_ring sample_env_fresh] e by auto
  moreover have "\<forall>a. \<not> waiting w' a \<or> length log = 64" using r l n by (auto simp: ring_of_def le_less)
  ultimately show ?thesis by blast
qed

text \<open>
  C23. \<open>data:\<close> URLs. The body of a \<open>data:\<close> URL whose data is percent-encoded, with any choice of
  plain characters other than \<open>%\<close> and \<open>+\<close>, is exactly the encoded bytes, NUL bytes included. A \<open>+\<close>
  becomes a blank, so a URL that uses \<open>+\<close> as itself, as \<open>data:\<close> URLs do, loses it.
\<close>

theorem data_url_roundtrip:
  assumes "\<not> plain (CHR ''%'')" "\<not> plain (CHR ''+'')" "CHR '','' \<notin> set mime" "length mime < 1024" "malloc (length (pct_encode plain b) + 1)"
  shows "data_ctx malloc p (''data:'' @ mime @ '','' @ pct_encode plain b) = (fresh_stub p SCH_DATA)\<lparr>sf_path := mime, sf_dyn_body := Some b\<rparr>
     \<and> data_decode (x @ ''+'' @ y) \<noteq> x @ ''+'' @ y"
proof
  let ?e = "pct_encode plain b"
  have c: "strchr_c (''data:'' @ mime @ '','' @ ?e) (CHR '':'') = Some (CHR '':'' # mime @ '','' @ ?e)"
    using strchr_append [of "CHR '':''" "''data''" "mime @ '','' @ ?e"] by simp
  have k: "strchr_c (mime @ '','' @ ?e) (CHR '','') = Some (CHR '','' # ?e)" using strchr_append [OF assms(3), of ?e] by simp
  have "takeWhile (\<lambda>ch. ch \<noteq> CHR '','') (mime @ CHR '','' # ?e) = mime" using assms(3) by (simp add: takeWhile_append)
  then show "data_ctx malloc p (''data:'' @ mime @ '','' @ ?e) = (fresh_stub p SCH_DATA)\<lparr>sf_path := mime, sf_dyn_body := Some b\<rparr>"
    using assms(4,5) c k decode_encode [OF assms(1,2)] by (simp add: data_ctx_def Let_def)
  show "data_decode (x @ ''+'' @ y) \<noteq> x @ ''+'' @ y" by (rule decode_plus) simp
qed

theorem data_url_roundtrip_witness:
  "data_ctx (\<lambda>n. True) 7 ''data:text/html,%3Ch1%3E'' = (fresh_stub 7 SCH_DATA)\<lparr>sf_path := ''text/html'', sf_dyn_body := Some ''<h1>''\<rparr>
   \<and> data_decode ''1+1'' \<noteq> ''1+1''"
proof -
  have "pct_encode (\<lambda>ch. ch \<in> set ''h1'') ''<h1>'' = ''%3Ch1%3E''" by code_simp
  then show ?thesis
    using data_url_roundtrip [of "\<lambda>ch. ch \<in> set ''h1''" "''text/html''" "\<lambda>n. True" "''<h1>''" 7 "''1''" "''1''"] by simp
qed

end
