(* ===== verification/ImageCache.thy ===== *)
theory ImageCache
  imports LinkedLists
begin

text \<open>
  The decoded-image budget of \<open>frontends/macos9/macos9_image.c\<close>: image contents keep their
  compressed bytes and are decoded to a bitmap of the display size when they are drawn; decoded
  bitmaps are held in a least-recently-drawn list and given up from its tail when a new one would
  exceed 32 MB.

  A content is a node of the store \<open>im_heap\<close>; the list runs through \<open>im_next\<close> and \<open>im_prev\<close> from
  the most recently drawn content \<open>lru_head\<close> to \<open>lru_tail\<close>. Only whether a content has a bitmap is
  modelled, not its pixels. Decoding, by QuickTime or lodepng, is the function \<open>decodes\<close>: whether
  it succeeds for a content at a size. \<open>long\<close> has 32 bits; its products are wrapped by \<open>wrap32\<close>.
\<close>

section \<open>32-bit arithmetic\<close>

definition wrap32 :: "int \<Rightarrow> int" where
  "wrap32 i = (i + 2 ^ 31) mod 2 ^ 32 - 2 ^ 31"

text \<open>C division by a positive number truncates towards zero.\<close>

definition cdiv :: "int \<Rightarrow> int \<Rightarrow> int" where
  "cdiv a b = (if a \<ge> 0 then a div b else - ((- a) div b))"

lemma wrap32_id [simp]: "- (2 ^ 31) \<le> i \<Longrightarrow> i < 2 ^ 31 \<Longrightarrow> wrap32 i = i"
  by (simp add: wrap32_def)

section \<open>State\<close>

definition MACOS9_DECODED_IMG_MAX_BYTES :: int where "MACOS9_DECODED_IMG_MAX_BYTES = 32 * 1024 * 1024"
definition MACOS9_IMG_MAX_DECODED_BYTES :: int where "MACOS9_IMG_MAX_DECODED_BYTES = 16 * 1024 * 1024"

record qt_image =
  im_nat_w :: int
  im_nat_h :: int
  im_compressed :: bool
  im_importer :: bool
  im_png_deferred :: bool
  im_bitmap :: bool
  im_bitmap_w :: int
  im_bitmap_h :: int
  im_bytes :: int
  im_prev :: "nat option"
  im_next :: "nat option"
  im_in_lru :: bool

record image_cache =
  im_heap :: "nat \<Rightarrow> qt_image"
  lru_head :: "nat option"
  lru_tail :: "nat option"
  lru_total_bytes :: int
  decoded_bytes_current :: int
  decoded_bytes_peak :: int

abbreviation img :: "image_cache \<Rightarrow> nat \<Rightarrow> qt_image" where
  "img s a \<equiv> im_heap s a"

definition im_update :: "nat \<Rightarrow> (qt_image \<Rightarrow> qt_image) \<Rightarrow> image_cache \<Rightarrow> image_cache" where
  "im_update a f s = s\<lparr>im_heap := (im_heap s)(a := f (im_heap s a))\<rparr>"

section \<open>The list\<close>

definition macos9_qti_lru_unlink :: "nat \<Rightarrow> image_cache \<Rightarrow> image_cache" where
  "macos9_qti_lru_unlink q s =
     (if \<not> im_in_lru (img s q) then s
      else
        (let p = im_prev (img s q); n = im_next (img s q);
             s1 = (case p of Some a \<Rightarrow> im_update a (\<lambda>c. c\<lparr>im_next := n\<rparr>) s | None \<Rightarrow> s\<lparr>lru_head := n\<rparr>);
             s2 = (case n of Some a \<Rightarrow> im_update a (\<lambda>c. c\<lparr>im_prev := p\<rparr>) s1 | None \<Rightarrow> s1\<lparr>lru_tail := p\<rparr>)
         in im_update q (\<lambda>c. c\<lparr>im_prev := None, im_next := None, im_in_lru := False\<rparr>) s2))"

definition macos9_qti_lru_insert_mru :: "nat \<Rightarrow> image_cache \<Rightarrow> image_cache" where
  "macos9_qti_lru_insert_mru q s0 =
     (let s = (if im_in_lru (img s0 q) then macos9_qti_lru_unlink q s0 else s0);
          h = lru_head s;
          s1 = im_update q (\<lambda>c. c\<lparr>im_prev := None, im_next := h\<rparr>) s;
          s2 = (case h of Some a \<Rightarrow> im_update a (\<lambda>c. c\<lparr>im_prev := Some q\<rparr>) s1 | None \<Rightarrow> s1\<lparr>lru_tail := Some q\<rparr>)
      in im_update q (\<lambda>c. c\<lparr>im_in_lru := True\<rparr>) (s2\<lparr>lru_head := Some q\<rparr>))"

definition macos9_qti_lru_touch :: "nat \<Rightarrow> image_cache \<Rightarrow> image_cache" where
  "macos9_qti_lru_touch q s =
     (if \<not> im_in_lru (img s q) \<or> im_prev (img s q) = None then s
      else macos9_qti_lru_insert_mru q (macos9_qti_lru_unlink q s))"

text \<open>Taking the bytes of a content off the two counters.\<close>

definition uncount_total :: "int \<Rightarrow> image_cache \<Rightarrow> image_cache" where
  "uncount_total n s = s\<lparr>lru_total_bytes := max 0 (wrap32 (lru_total_bytes s - n))\<rparr>"

definition uncount_current :: "int \<Rightarrow> image_cache \<Rightarrow> image_cache" where
  "uncount_current n s = s\<lparr>decoded_bytes_current := if decoded_bytes_current s \<ge> n then wrap32 (decoded_bytes_current s - n) else 0\<rparr>"

text \<open>Giving up the bitmap at the tail.\<close>

definition evict :: "nat \<Rightarrow> image_cache \<Rightarrow> image_cache" where
  "evict victim s =
     (let n = im_bytes (img s victim) in
      im_update victim (\<lambda>c. c\<lparr>im_bitmap := False, im_bitmap_w := 0, im_bitmap_h := 0, im_bytes := 0\<rparr>)
        (uncount_current n (uncount_total n (macos9_qti_lru_unlink victim s))))"

partial_function (option) evict_while :: "int \<Rightarrow> image_cache \<Rightarrow> image_cache option" where
  "evict_while need s =
     (case lru_tail s of
        None \<Rightarrow> Some s
      | Some victim \<Rightarrow>
          if wrap32 (decoded_bytes_current s + need) > MACOS9_DECODED_IMG_MAX_BYTES
          then evict_while need (evict victim s) else Some s)"

declare evict_while.simps [code]

definition macos9_qti_lru_make_room :: "int \<Rightarrow> image_cache \<Rightarrow> (bool \<times> image_cache) option" where
  "macos9_qti_lru_make_room need s =
     map_option (\<lambda>s'. (wrap32 (decoded_bytes_current s' + need) \<le> MACOS9_DECODED_IMG_MAX_BYTES, s')) (evict_while need s)"

partial_function (option) macos9_purge_decoded_images :: "image_cache \<Rightarrow> image_cache option" where
  "macos9_purge_decoded_images s =
     (case lru_tail s of None \<Rightarrow> Some s | Some victim \<Rightarrow> macos9_purge_decoded_images (evict victim s))"

declare macos9_purge_decoded_images.simps [code]

section \<open>Sizes\<close>

definition rgba_bytes :: "int \<Rightarrow> int \<Rightarrow> int" where
  "rgba_bytes w h = wrap32 (wrap32 (w * h) * 4)"

definition macos9_img_is_oversize :: "int \<Rightarrow> int \<Rightarrow> bool" where
  "macos9_img_is_oversize w h \<longleftrightarrow> (if w \<le> 0 \<or> h \<le> 0 then False else rgba_bytes w h > MACOS9_IMG_MAX_DECODED_BYTES)"

definition be32_at :: "nat \<Rightarrow> bytes \<Rightarrow> int" where
  "be32_at i d = int (of_char (d ! i)) * 2 ^ 24 + int (of_char (d ! (i + 1))) * 2 ^ 16
     + int (of_char (d ! (i + 2))) * 2 ^ 8 + int (of_char (d ! (i + 3)))"

definition macos9_png_read_dims :: "bytes \<Rightarrow> (int \<times> int) option" where
  "macos9_png_read_dims data =
     (if length data < 24 then None
      else if take 4 data \<noteq> [CHR 0x89, CHR 0x50, CHR 0x4E, CHR 0x47] then None
      else (let w = be32_at 16 data; h = be32_at 20 data in
            if w = 0 \<or> h = 0 \<or> w > 32768 \<or> h > 32768 then None else Some (w, h)))"

text \<open>The size gate and the budget gate of \<open>macos9_qt_image_convert\<close> for a PNG.\<close>

definition png_admitted :: "bytes \<Rightarrow> image_cache \<Rightarrow> bool" where
  "png_admitted data s =
     (let (w, h) = (case macos9_png_read_dims data of None \<Rightarrow> (0, 0) | Some d \<Rightarrow> d) in
      \<not> (macos9_png_read_dims data \<noteq> None \<and> macos9_img_is_oversize w h)
      \<and> \<not> wrap32 (decoded_bytes_current s + rgba_bytes w h) > MACOS9_DECODED_IMG_MAX_BYTES)"

text \<open>Scaling a display size to the per-image ceiling; \<open>scale_den\<close> is 1000.\<close>

definition scaled_pixels :: "int \<Rightarrow> int \<Rightarrow> int \<Rightarrow> int" where
  "scaled_pixels w h num = cdiv (wrap32 (wrap32 (cdiv (wrap32 (w * num)) 1000 * h) * num)) 1000"

function fit_scale :: "int \<Rightarrow> int \<Rightarrow> int \<Rightarrow> int" where
  "fit_scale w h num =
     (if scaled_pixels w h num > cdiv MACOS9_IMG_MAX_DECODED_BYTES 4 \<and> num > 0 then fit_scale w h (num - 10) else num)"
  by pat_completeness auto
termination by (relation "measure (\<lambda>(w, h, num). nat num)") auto

declare fit_scale.simps [simp del]

definition fit_to_cap :: "int \<times> int \<Rightarrow> int \<times> int" where
  "fit_to_cap = (\<lambda>(w, h).
     if w > 0 \<and> h > 0 \<and> rgba_bytes w h > MACOS9_IMG_MAX_DECODED_BYTES
     then (let num = fit_scale w h 1000 in
           (max 1 (cdiv (wrap32 (w * num)) 1000), max 1 (cdiv (wrap32 (h * num)) 1000)))
     else (w, h))"

text \<open>The guard that keeps the aspect ratio when layout scaled only one side.\<close>

definition aspect_fix :: "int \<Rightarrow> int \<Rightarrow> int \<times> int \<Rightarrow> int \<times> int" where
  "aspect_fix nat_w nat_h = (\<lambda>(w, h).
     if nat_w > 0 \<and> nat_h > 0 \<and> w > 0 \<and> h > 0
     then (if h = nat_h \<and> w \<noteq> nat_w then (w, cdiv (wrap32 (w * nat_h)) nat_w)
           else if w = nat_w \<and> h \<noteq> nat_h
           then (let new_w = cdiv (wrap32 (h * nat_w)) nat_h in if new_w > 0 then (new_w, h) else (w, h))
           else (w, h))
     else (w, h))"

section \<open>Drawing\<close>

record clip_rect =
  clip_x0 :: int
  clip_y0 :: int
  clip_x1 :: int
  clip_y1 :: int

definition off_fold :: "clip_rect option \<Rightarrow> int \<Rightarrow> int \<Rightarrow> int \<times> int \<Rightarrow> bool" where
  "off_fold clip x y = (\<lambda>(w, h).
     case clip of
       None \<Rightarrow> False
     | Some r \<Rightarrow> w > 0 \<and> h > 0 \<and> (clip_x1 r \<le> x \<or> clip_x0 r \<ge> wrap32 (x + w) \<or> clip_y1 r \<le> y \<or> clip_y0 r \<ge> wrap32 (y + h)))"

text \<open>Dropping a bitmap of the wrong size.\<close>

definition drop_bitmap :: "nat \<Rightarrow> image_cache \<Rightarrow> image_cache" where
  "drop_bitmap q s =
     (if im_bitmap (img s q)
      then (let n = im_bytes (img s q); s1 = im_update q (\<lambda>c. c\<lparr>im_bitmap := False\<rparr>) s
            in im_update q (\<lambda>c. c\<lparr>im_bytes := 0\<rparr>) (macos9_qti_lru_unlink q (uncount_total n (uncount_current n s1))))
      else s)"

definition admit :: "nat \<Rightarrow> int \<Rightarrow> int \<Rightarrow> image_cache \<Rightarrow> image_cache" where
  "admit q w h s =
     (let need = rgba_bytes w h;
          s1 = im_update q (\<lambda>c. c\<lparr>im_bitmap := True, im_bitmap_w := w, im_bitmap_h := h, im_bytes := need\<rparr>) s;
          cur = wrap32 (decoded_bytes_current s + need);
          s2 = s1\<lparr>decoded_bytes_current := cur, lru_total_bytes := wrap32 (lru_total_bytes s + need),
                  decoded_bytes_peak := max (decoded_bytes_peak s) cur\<rparr>
      in macos9_qti_lru_insert_mru q s2)"

text \<open>
  The deferred decode, the same for both kinds of content but for the check of the compressed
  bytes. The flag says that drawing goes on.
\<close>

definition deferred_decode :: "(nat \<Rightarrow> int \<Rightarrow> int \<Rightarrow> bool) \<Rightarrow> nat \<Rightarrow> int \<Rightarrow> int \<Rightarrow> image_cache \<Rightarrow> (bool \<times> image_cache) option" where
  "deferred_decode decodes q w h s =
     (let c = img s q;
          needs_decode = (\<not> im_bitmap c \<or> im_bitmap_w c \<noteq> w \<or> im_bitmap_h c \<noteq> h)
      in if needs_decode \<and> w > 0 \<and> h > 0 \<and> (im_png_deferred c \<longrightarrow> im_compressed c)
         then (let s1 = drop_bitmap q s; need = rgba_bytes w h in
               if need > MACOS9_IMG_MAX_DECODED_BYTES then Some (False, s1)
               else Option.bind (macos9_qti_lru_make_room need s1) (\<lambda>(room, s2).
                 if \<not> room then Some (False, s2)
                 else if \<not> decodes q w h then Some (False, im_update q (\<lambda>c. c\<lparr>im_bitmap := False\<rparr>) s2)
                 else Some (True, admit q w h s2)))
         else if im_bitmap c then Some (True, macos9_qti_lru_touch q s)
         else Some (True, s))"

text \<open>The size the bitmap is plotted at, if it is plotted.\<close>

definition macos9_qt_image_redraw ::
    "(nat \<Rightarrow> int \<Rightarrow> int \<Rightarrow> bool) \<Rightarrow> clip_rect option \<Rightarrow> nat \<Rightarrow> int \<Rightarrow> int \<Rightarrow> int \<Rightarrow> int \<Rightarrow> image_cache
      \<Rightarrow> ((int \<times> int) option \<times> image_cache) option" where
  "macos9_qt_image_redraw decodes clip q x y width height s =
     (if off_fold clip x y (width, height) then Some (None, s)
      else (case aspect_fix (im_nat_w (img s q)) (im_nat_h (img s q)) (fit_to_cap (width, height)) of (w, h) \<Rightarrow>
        Option.bind (if im_png_deferred (img s q) \<or> im_importer (img s q) then deferred_decode decodes q w h s else Some (True, s))
          (\<lambda>(go_on, s'). Some (if go_on \<and> im_bitmap (img s' q) then Some (w, h) else None, s'))))"

definition macos9_qt_image_destroy :: "nat \<Rightarrow> image_cache \<Rightarrow> image_cache" where
  "macos9_qt_image_destroy q s =
     (let n = im_bytes (img s q);
          s1 = (if im_in_lru (img s q) then macos9_qti_lru_unlink q (uncount_total n s) else s);
          s2 = (if im_bitmap (img s q)
                then (let s' = im_update q (\<lambda>c. c\<lparr>im_bitmap := False\<rparr>) s1 in
                      if n > 0
                      then im_update q (\<lambda>c. c\<lparr>im_bytes := 0\<rparr>)
                             (s'\<lparr>decoded_bytes_current := max 0 (wrap32 (decoded_bytes_current s' - n))\<rparr>)
                      else s')
                else s1)
      in im_update q (\<lambda>c. c\<lparr>im_importer := False, im_compressed := False\<rparr>) s2)"

end
