(* ===== verification/ImageProps.thy ===== *)
theory ImageProps
  imports ImageCache
begin

text \<open>
  Correctness of the decoded-image budget: the pointer list implements a list of contents in the
  order of their last drawing, the counters are exact, and the budget is never exceeded.
\<close>

section \<open>The list of decoded images\<close>

definition nx :: "image_cache \<Rightarrow> links" where "nx s a = im_next (img s a)"
definition pv :: "image_cache \<Rightarrow> links" where "pv s a = im_prev (img s a)"

text \<open>\<open>xs\<close>: the decoded contents, most recently drawn first.\<close>

definition lru_list :: "image_cache \<Rightarrow> nat list \<Rightarrow> bool" where
  "lru_list s xs \<longleftrightarrow> dll (lru_head s) (lru_tail s) (nx s) (pv s) xs \<and> (\<forall>a. im_in_lru (img s a) \<longleftrightarrow> a \<in> set xs)"

lemma update_links [simp]:
  "nx (im_update a f s) = (nx s)(a := im_next (f (img s a)))" "pv (im_update a f s) = (pv s)(a := im_prev (f (img s a)))"
  "img (im_update a f s) = (im_heap s)(a := f (img s a))"
  "lru_head (im_update a f s) = lru_head s" "lru_tail (im_update a f s) = lru_tail s"
  "lru_total_bytes (im_update a f s) = lru_total_bytes s" "decoded_bytes_current (im_update a f s) = decoded_bytes_current s"
  by (simp_all add: im_update_def nx_def pv_def fun_eq_iff)

lemma field_links [simp]:
  "nx (s\<lparr>lru_head := h\<rparr>) = nx s" "nx (s\<lparr>lru_tail := h\<rparr>) = nx s" "pv (s\<lparr>lru_head := h\<rparr>) = pv s" "pv (s\<lparr>lru_tail := h\<rparr>) = pv s"
  by (simp_all add: nx_def pv_def fun_eq_iff)

text \<open>What a content is apart from its place in the list.\<close>

definition payload :: "qt_image \<Rightarrow> qt_image" where
  "payload c = c\<lparr>im_prev := None, im_next := None, im_in_lru := False\<rparr>"

lemma payload_links [simp]:
  "payload (c\<lparr>im_prev := p\<rparr>) = payload c" "payload (c\<lparr>im_next := n\<rparr>) = payload c" "payload (c\<lparr>im_in_lru := b\<rparr>) = payload c"
  by (simp_all add: payload_def)

lemma payload_eq: "payload c = payload d \<Longrightarrow> im_bytes c = im_bytes d \<and> im_bitmap c = im_bitmap d \<and> im_bitmap_w c = im_bitmap_w d \<and> im_bitmap_h c = im_bitmap_h d
   \<and> im_png_deferred c = im_png_deferred d \<and> im_importer c = im_importer d"
  by (cases c, cases d) (simp add: payload_def)

text \<open>The list operations change links and nothing else.\<close>

definition same_images :: "image_cache \<Rightarrow> image_cache \<Rightarrow> bool" where
  "same_images s t \<longleftrightarrow> (\<forall>a. payload (img t a) = payload (img s a)) \<and> lru_total_bytes t = lru_total_bytes s
     \<and> decoded_bytes_current t = decoded_bytes_current s"

lemma unlink_same: "same_images s (macos9_qti_lru_unlink q s)"
  by (auto simp: same_images_def macos9_qti_lru_unlink_def Let_def split: option.splits)

lemma same_trans: "same_images s t \<Longrightarrow> same_images t u \<Longrightarrow> same_images s u"
  by (simp add: same_images_def)

lemma insert_same: "same_images s (macos9_qti_lru_insert_mru q s)"
proof -
  have i: "same_images t (macos9_qti_lru_insert_mru q t)" if "\<not> im_in_lru (img t q)" for t
    using that by (auto simp: same_images_def macos9_qti_lru_insert_mru_def Let_def split: option.splits)
  have n: "\<not> im_in_lru (img (macos9_qti_lru_unlink q s) q)" by (auto simp: macos9_qti_lru_unlink_def Let_def)
  then have "macos9_qti_lru_insert_mru q s = (if im_in_lru (img s q) then macos9_qti_lru_insert_mru q (macos9_qti_lru_unlink q s) else macos9_qti_lru_insert_mru q s)"
    by (simp add: macos9_qti_lru_insert_mru_def)
  then show ?thesis using i [of s] i [OF n] same_trans [OF unlink_same] by (metis (full_types))
qed

lemma unlink_list:
  assumes "lru_list s (us @ a # vs)"
  shows "lru_list (macos9_qti_lru_unlink a s) (us @ vs)"
proof -
  have d: "dll (lru_head s) (lru_tail s) (nx s) (pv s) (us @ a # vs)" and m: "im_in_lru (img s a)" "\<forall>b. im_in_lru (img s b) \<longleftrightarrow> b \<in> set (us @ a # vs)"
    using assms by (auto simp: lru_list_def)
  have dist: "a \<notin> set us" "a \<notin> set vs" using d by (auto simp: dll_def)
  have p: "im_prev (img s a) = last_of us" "im_next (img s a) = first_of vs" using dll_neighbours [OF d] by (simp_all add: nx_def pv_def)
  let ?s = "macos9_qti_lru_unlink a s"
  have l: "nx ?s = (upd (nx s) (last_of us) (first_of vs))(a := None)" "pv ?s = (upd (pv s) (first_of vs) (last_of us))(a := None)"
    "lru_head ?s = (if us = [] then first_of vs else lru_head s)" "lru_tail ?s = (if vs = [] then last_of us else lru_tail s)"
    using m(1) p dist by (auto simp: macos9_qti_lru_unlink_def Let_def upd_def fun_eq_iff nx_def pv_def split: if_splits)
  have "im_in_lru (img ?s b) \<longleftrightarrow> b \<in> set (us @ vs)" for b
    using m dist p by (auto simp: macos9_qti_lru_unlink_def Let_def split: if_splits)
  then show ?thesis using dll_unlink [OF d, of None None] unfolding lru_list_def l by simp
qed

lemma insert_list:
  assumes "lru_list s xs" "a \<notin> set xs"
  shows "lru_list (macos9_qti_lru_insert_mru a s) (a # xs)"
proof -
  have d: "dll (lru_head s) (lru_tail s) (nx s) (pv s) xs" and m: "\<not> im_in_lru (img s a)" "\<forall>b. im_in_lru (img s b) \<longleftrightarrow> b \<in> set xs"
    using assms by (auto simp: lru_list_def)
  have h: "lru_head s = first_of xs" using d by (simp add: dll_def)
  have ne: "xs \<noteq> [] \<Longrightarrow> hd xs \<noteq> a" using assms(2) by auto
  let ?s = "macos9_qti_lru_insert_mru a s"
  have l: "nx ?s = (nx s)(a := lru_head s)" "pv ?s = upd ((pv s)(a := None)) (lru_head s) (Some a)" "lru_head ?s = Some a"
    "lru_tail ?s = (if xs = [] then Some a else lru_tail s)"
    using m(1) h ne by (auto simp: macos9_qti_lru_insert_mru_def Let_def upd_def fun_eq_iff nx_def pv_def split: if_splits)
  have "im_in_lru (img ?s b) \<longleftrightarrow> b \<in> set (a # xs)" for b
    using m h ne by (auto simp: macos9_qti_lru_insert_mru_def Let_def split: if_splits)
  then show ?thesis using dll_push [OF d assms(2)] unfolding lru_list_def l by simp
qed

lemma touch_list:
  assumes "lru_list s xs" "a \<in> set xs"
  shows "lru_list (macos9_qti_lru_touch a s) (a # remove1 a xs)" "same_images s (macos9_qti_lru_touch a s)"
proof -
  obtain us vs where x: "xs = us @ a # vs" "a \<notin> set us" using split_list_first [OF assms(2)] by blast
  have d: "dll (lru_head s) (lru_tail s) (nx s) (pv s) xs" "im_in_lru (img s a)" using assms by (auto simp: lru_list_def)
  have p: "im_prev (img s a) = last_of us" using dll_neighbours [of _ _ _ _ us a vs] d(1) x(1) by (auto simp: nx_def pv_def)
  have "a \<notin> set (us @ vs)" using d(1) x by (auto simp: dll_def)
  moreover have "lru_list (macos9_qti_lru_unlink a s) (us @ vs)" using unlink_list assms(1) x(1) by blast
  ultimately show "lru_list (macos9_qti_lru_touch a s) (a # remove1 a xs)"
    using insert_list [of "macos9_qti_lru_unlink a s" "us @ vs" a] d(2) p x assms(1)
    by (cases "us = []") (auto simp: macos9_qti_lru_touch_def remove1_append)
  show "same_images s (macos9_qti_lru_touch a s)"
    using same_trans [OF unlink_same insert_same] by (auto simp: macos9_qti_lru_touch_def same_images_def)
qed

section \<open>The budget\<close>

definition bytes_in :: "image_cache \<Rightarrow> nat list \<Rightarrow> int" where
  "bytes_in s xs = sum_list (map (\<lambda>a. im_bytes (img s a)) xs)"

lemma bytes_in_simps [simp]: "bytes_in s [] = 0" "bytes_in s (a # xs) = im_bytes (img s a) + bytes_in s xs" "bytes_in s (xs @ ys) = bytes_in s xs + bytes_in s ys"
  by (simp_all add: bytes_in_def)

lemma bytes_in_cong: "(\<And>a. a \<in> set xs \<Longrightarrow> im_bytes (img t a) = im_bytes (img s a)) \<Longrightarrow> bytes_in t xs = bytes_in s xs"
  unfolding bytes_in_def by (rule arg_cong [of _ _ sum_list]) simp

lemma bytes_in_remove: "a \<in> set xs \<Longrightarrow> bytes_in s xs = im_bytes (img s a) + bytes_in s (remove1 a xs)"
  by (induction xs) auto

definition is_deferred :: "qt_image \<Rightarrow> bool" where
  "is_deferred c \<longleftrightarrow> im_png_deferred c \<or> im_importer c"

text \<open>
  The invariant: exactly the contents of the list hold counted bitmaps (of the contents that are
  decoded when drawn no others hold any), none larger than the ceiling of one image, both counters are the sum of their sizes, and the sum is in the budget.
\<close>

definition cache_ok :: "image_cache \<Rightarrow> nat list \<Rightarrow> bool" where
  "cache_ok s xs \<longleftrightarrow> lru_list s xs
     \<and> (\<forall>a \<in> set xs. im_bitmap (img s a) \<and> 0 \<le> im_bytes (img s a) \<and> im_bytes (img s a) \<le> MACOS9_IMG_MAX_DECODED_BYTES)
     \<and> (\<forall>a. a \<notin> set xs \<longrightarrow> im_bytes (img s a) = 0 \<and> \<not> (im_bitmap (img s a) \<and> is_deferred (img s a)))
     \<and> lru_total_bytes s = bytes_in s xs \<and> decoded_bytes_current s = bytes_in s xs \<and> bytes_in s xs \<le> MACOS9_DECODED_IMG_MAX_BYTES"

lemma bytes_in_nonneg: "\<forall>a \<in> set xs. 0 \<le> im_bytes (img s a) \<Longrightarrow> 0 \<le> bytes_in s xs"
  by (induction xs) auto

lemma cache_ok_same:
  assumes "cache_ok s xs" "same_images s t" "lru_list t ys" "set ys = set xs" "bytes_in s ys = bytes_in s xs"
  shows "cache_ok t ys"
proof -
  have e: "im_bytes (img t a) = im_bytes (img s a)" "im_bitmap (img t a) = im_bitmap (img s a)" "is_deferred (img t a) = is_deferred (img s a)" for a
    using assms(2) payload_eq [of "img t a" "img s a"] by (auto simp: same_images_def is_deferred_def)
  then have "bytes_in t ys = bytes_in s xs" using assms(5) bytes_in_cong [of ys t s] by simp
  then show ?thesis using assms e by (auto simp: cache_ok_def same_images_def)
qed

lemma budget_wrap: "0 \<le> i \<Longrightarrow> i \<le> MACOS9_DECODED_IMG_MAX_BYTES + MACOS9_IMG_MAX_DECODED_BYTES \<Longrightarrow> wrap32 i = i"
  by (simp add: MACOS9_DECODED_IMG_MAX_BYTES_def MACOS9_IMG_MAX_DECODED_BYTES_def)

lemma list_distinct: "lru_list s xs \<Longrightarrow> distinct xs"
  by (simp add: lru_list_def dll_def)

text \<open>Taking a content out of the list together with its bitmap and its count.\<close>

lemma forget_ok:
  assumes "cache_ok s (us @ a # vs)" "lru_list t (us @ vs)" "\<And>b. b \<noteq> a \<Longrightarrow> payload (img t b) = payload (img s b)" "im_bytes (img t a) = 0" "\<not> im_bitmap (img t a)"
    and "lru_total_bytes t = lru_total_bytes s - im_bytes (img s a)" "decoded_bytes_current t = decoded_bytes_current s - im_bytes (img s a)"
  shows "cache_ok t (us @ vs)"
proof -
  have d: "a \<notin> set us" "a \<notin> set vs" using list_distinct [of s "us @ a # vs"] assms(1) by (auto simp: cache_ok_def)
  have e: "im_bytes (img t b) = im_bytes (img s b)" "im_bitmap (img t b) = im_bitmap (img s b)" "is_deferred (img t b) = is_deferred (img s b)"
    if "b \<noteq> a" for b
    using assms(3) [OF that] payload_eq [of "img t b" "img s b"] by (simp_all add: is_deferred_def)
  have e': "im_bytes (img t b) = im_bytes (img s b) \<and> im_bitmap (img t b) = im_bitmap (img s b)" if "b \<in> set (us @ vs)" for b
    using that d e [of b] by auto
  have "bytes_in t (us @ vs) = bytes_in s (us @ vs)" using e' by (intro bytes_in_cong) blast
  moreover have "0 \<le> im_bytes (img s a)" using assms(1) by (auto simp: cache_ok_def)
  moreover have "im_bytes (img t b) = 0 \<and> \<not> (im_bitmap (img t b) \<and> is_deferred (img t b))" if "b \<notin> set (us @ vs)" for b
    using that assms(1,4,5) e [of b] by (cases "b = a") (auto simp: cache_ok_def)
  moreover have "\<forall>b \<in> set (us @ vs). im_bitmap (img s b) \<and> 0 \<le> im_bytes (img s b) \<and> im_bytes (img s b) \<le> MACOS9_IMG_MAX_DECODED_BYTES"
    "lru_total_bytes s = im_bytes (img s a) + bytes_in s (us @ vs)" "decoded_bytes_current s = im_bytes (img s a) + bytes_in s (us @ vs)"
    "im_bytes (img s a) + bytes_in s (us @ vs) \<le> MACOS9_DECODED_IMG_MAX_BYTES"
    using assms(1) by (auto simp: cache_ok_def)
  ultimately show ?thesis using assms(2,6,7) e' unfolding cache_ok_def by simp
qed

lemma counted:
  assumes "cache_ok s xs" "a \<in> set xs"
  shows "0 \<le> im_bytes (img s a)" "im_bytes (img s a) \<le> decoded_bytes_current s" "im_bytes (img s a) \<le> lru_total_bytes s"
    "decoded_bytes_current s \<le> MACOS9_DECODED_IMG_MAX_BYTES" "lru_total_bytes s \<le> MACOS9_DECODED_IMG_MAX_BYTES"
proof -
  have "0 \<le> bytes_in s (remove1 a xs)" using assms(1) by (intro bytes_in_nonneg) (auto simp: cache_ok_def dest: notin_set_remove1)
  then show "0 \<le> im_bytes (img s a)" "im_bytes (img s a) \<le> decoded_bytes_current s" "im_bytes (img s a) \<le> lru_total_bytes s"
    "decoded_bytes_current s \<le> MACOS9_DECODED_IMG_MAX_BYTES" "lru_total_bytes s \<le> MACOS9_DECODED_IMG_MAX_BYTES"
    using assms bytes_in_remove [OF assms(2), of s] by (auto simp: cache_ok_def)
qed

lemma uncount_fields [simp]:
  "img (uncount_total n s) = img s" "img (uncount_current n s) = img s" "nx (uncount_total n s) = nx s" "nx (uncount_current n s) = nx s"
  "pv (uncount_total n s) = pv s" "pv (uncount_current n s) = pv s" "lru_head (uncount_total n s) = lru_head s" "lru_head (uncount_current n s) = lru_head s"
  "lru_tail (uncount_total n s) = lru_tail s" "lru_tail (uncount_current n s) = lru_tail s"
  by (simp_all add: uncount_total_def uncount_current_def nx_def pv_def fun_eq_iff)

lemma uncount_exact:
  assumes "0 \<le> n" "n \<le> decoded_bytes_current s" "n \<le> lru_total_bytes s" "decoded_bytes_current s \<le> MACOS9_DECODED_IMG_MAX_BYTES"
    "lru_total_bytes s \<le> MACOS9_DECODED_IMG_MAX_BYTES"
  shows "lru_total_bytes (uncount_total n s) = lru_total_bytes s - n" "decoded_bytes_current (uncount_total n s) = decoded_bytes_current s"
    "decoded_bytes_current (uncount_current n s) = decoded_bytes_current s - n" "lru_total_bytes (uncount_current n s) = lru_total_bytes s"
  using assms budget_wrap [of "lru_total_bytes s - n"] budget_wrap [of "decoded_bytes_current s - n"]
  by (simp_all add: uncount_total_def uncount_current_def MACOS9_IMG_MAX_DECODED_BYTES_def)

lemma lru_list_cong:
  "lru_head t = lru_head s \<Longrightarrow> lru_tail t = lru_tail s \<Longrightarrow> nx t = nx s \<Longrightarrow> pv t = pv s \<Longrightarrow> (\<And>a. im_in_lru (img t a) = im_in_lru (img s a))
    \<Longrightarrow> lru_list t xs = lru_list s xs"
  by (simp add: lru_list_def)

lemma image_update_list:
  assumes "\<And>c. im_next (f c) = im_next c \<and> im_prev (f c) = im_prev c \<and> im_in_lru (f c) = im_in_lru c"
  shows "lru_list (im_update a f s) xs = lru_list s xs"
  using assms by (intro lru_list_cong) (auto simp: nx_def pv_def fun_eq_iff)

lemma evict_ok:
  assumes "cache_ok s (us @ a # vs)"
  shows "cache_ok (evict a s) (us @ vs)" "\<And>b. b \<noteq> a \<Longrightarrow> payload (img (evict a s) b) = payload (img s b)" "\<not> im_bitmap (img (evict a s) a)"
proof -
  let ?n = "im_bytes (img s a)" and ?u = "macos9_qti_lru_unlink a s"
  have u: "same_images s ?u" "lru_list ?u (us @ vs)" using unlink_same unlink_list assms by (auto simp: cache_ok_def)
  note c = counted [OF assms, of a]
  have x: "lru_total_bytes ?u = lru_total_bytes s" "decoded_bytes_current ?u = decoded_bytes_current s" using u(1) by (simp_all add: same_images_def)
  note e1 = uncount_exact [of ?n ?u] and e2 = uncount_exact [of ?n "uncount_total ?n ?u"]
  have k: "lru_total_bytes (evict a s) = lru_total_bytes s - ?n" "decoded_bytes_current (evict a s) = decoded_bytes_current s - ?n"
    using c e1 x by (simp_all add: evict_def Let_def uncount_current_def)
  show p: "\<And>b. b \<noteq> a \<Longrightarrow> payload (img (evict a s) b) = payload (img s b)" "\<not> im_bitmap (img (evict a s) a)"
    using u(1) by (simp_all add: evict_def Let_def same_images_def)
  have "lru_list (evict a s) (us @ vs)"
    unfolding evict_def Let_def using u(2) by (subst image_update_list) (simp_all add: lru_list_cong [of "uncount_current _ _"])
  then show "cache_ok (evict a s) (us @ vs)" using p k by (intro forget_ok [OF assms]) (simp_all add: evict_def Let_def)
qed

text \<open>Eviction keeps the longest beginning of the list that leaves room.\<close>

definition kept_prefix :: "int \<Rightarrow> nat list \<Rightarrow> nat \<Rightarrow> image_cache \<Rightarrow> image_cache \<Rightarrow> bool" where
  "kept_prefix need xs k s t \<longleftrightarrow> k \<le> length xs \<and> cache_ok t (take k xs)
     \<and> bytes_in s (take k xs) + need \<le> MACOS9_DECODED_IMG_MAX_BYTES
     \<and> (k < length xs \<longrightarrow> bytes_in s (take (Suc k) xs) + need > MACOS9_DECODED_IMG_MAX_BYTES)
     \<and> (\<forall>b. b \<notin> set (drop k xs) \<longrightarrow> payload (img t b) = payload (img s b)) \<and> (\<forall>b \<in> set (drop k xs). \<not> im_bitmap (img t b))"

lemma tail_of: "lru_list s xs \<Longrightarrow> lru_tail s = last_of xs"
  by (simp add: lru_list_def dll_def)

lemma evict_while_ok:
  assumes "cache_ok s xs" "0 \<le> need" "need \<le> MACOS9_IMG_MAX_DECODED_BYTES"
  shows "\<exists>t k. evict_while need s = Some t \<and> kept_prefix need xs k s t"
  using assms(1)
proof (induction xs arbitrary: s rule: rev_induct)
  case Nil
  then have "evict_while need s = Some s" using tail_of [of s "[]"] by (subst evict_while.simps) (simp add: cache_ok_def)
  moreover have "need \<le> MACOS9_DECODED_IMG_MAX_BYTES" using assms(3) by (simp add: MACOS9_DECODED_IMG_MAX_BYTES_def MACOS9_IMG_MAX_DECODED_BYTES_def)
  ultimately show ?case using Nil by (auto simp: kept_prefix_def)
next
  case (snoc v ys)
  let ?xs = "ys @ [v]"
  have t: "lru_tail s = Some v" using tail_of [of s ?xs] snoc.prems by (simp add: cache_ok_def)
  have n: "0 \<le> bytes_in s ?xs" "decoded_bytes_current s = bytes_in s ?xs" "bytes_in s ?xs \<le> MACOS9_DECODED_IMG_MAX_BYTES"
    using snoc.prems bytes_in_nonneg [of ?xs s] by (auto simp: cache_ok_def)
  have w: "wrap32 (decoded_bytes_current s + need) = bytes_in s ?xs + need" using n assms(2,3) by (simp add: budget_wrap)
  show ?case
  proof (cases "bytes_in s ?xs + need > MACOS9_DECODED_IMG_MAX_BYTES")
    case False
    then have "evict_while need s = Some s" using t w by (subst evict_while.simps) simp
    then show ?thesis using False snoc.prems by (intro exI [of _ s] exI [of _ "length ?xs"]) (simp add: kept_prefix_def)
  next
    case True
    have d: "v \<notin> set ys" using list_distinct [of s ?xs] snoc.prems by (simp add: cache_ok_def)
    note e = evict_ok [of s ys v "[]"]
    have ok: "cache_ok (evict v s) ys" using e(1) snoc.prems by simp
    have p: "payload (img (evict v s) b) = payload (img s b)" if "b \<noteq> v" for b using e(2) snoc.prems that by simp
    have b: "bytes_in (evict v s) (take j ys) = bytes_in s (take j ys)" for j
    proof (rule bytes_in_cong)
      fix a assume "a \<in> set (take j ys)"
      then have "a \<noteq> v" using d in_set_takeD by fastforce
      then show "im_bytes (img (evict v s) a) = im_bytes (img s a)" using p payload_eq by blast
    qed
    obtain t k where tk: "evict_while need (evict v s) = Some t" "kept_prefix need ys k (evict v s) t" using snoc.IH [OF ok] by blast
    have "evict_while need s = Some t" using t w True tk(1) by (subst evict_while.simps) simp
    moreover have "kept_prefix need ?xs k s t"
      unfolding kept_prefix_def
    proof (intro conjI impI allI ballI)
      have k: "k \<le> length ys" using tk(2) by (simp add: kept_prefix_def)
      then show "k \<le> length ?xs" by simp
      show "cache_ok t (take k ?xs)" using tk(2) k by (simp add: kept_prefix_def)
      show "bytes_in s (take k ?xs) + need \<le> MACOS9_DECODED_IMG_MAX_BYTES" using tk(2) k b by (simp add: kept_prefix_def)
      show "MACOS9_DECODED_IMG_MAX_BYTES < bytes_in s (take (Suc k) ?xs) + need" if "k < length ?xs"
        using tk(2) k b [of "Suc k"] True by (cases "k = length ys") (simp_all add: kept_prefix_def)
      show "payload (img t c) = payload (img s c)" if "c \<notin> set (drop k ?xs)" for c
        using that tk(2) k p by (simp add: kept_prefix_def)
      have "\<not> im_bitmap (img t v)"
        using tk(2) d e(3) snoc.prems payload_eq [of "img t v" "img (evict v s) v"] by (auto simp: kept_prefix_def dest: in_set_dropD)
      then show "\<not> im_bitmap (img t c)" if "c \<in> set (drop k ?xs)" for c using that tk(2) k by (auto simp: kept_prefix_def)
    qed
    ultimately show ?thesis by blast
  qed
qed

lemma make_room_ok:
  assumes "cache_ok s xs" "0 \<le> need" "need \<le> MACOS9_IMG_MAX_DECODED_BYTES"
  shows "\<exists>t k. macos9_qti_lru_make_room need s = Some (True, t) \<and> kept_prefix need xs k s t"
proof -
  obtain t k where t: "evict_while need s = Some t" "kept_prefix need xs k s t" using evict_while_ok [OF assms] by blast
  have "bytes_in t (take k xs) = bytes_in s (take k xs)"
  proof (rule bytes_in_cong)
    fix a assume a: "a \<in> set (take k xs)"
    have "distinct xs" using assms(1) by (auto simp: cache_ok_def dest: list_distinct)
    then have "a \<notin> set (drop k xs)" using a set_take_disj_set_drop_if_distinct [of xs k k] by blast
    then have "payload (img t a) = payload (img s a)" using t(2) by (simp add: kept_prefix_def)
    then show "im_bytes (img t a) = im_bytes (img s a)" using payload_eq by blast
  qed
  moreover have "cache_ok t (take k xs)" "bytes_in s (take k xs) + need \<le> MACOS9_DECODED_IMG_MAX_BYTES" using t(2) by (simp_all add: kept_prefix_def)
  moreover from this(1) have "0 \<le> bytes_in t (take k xs)" by (intro bytes_in_nonneg) (simp add: cache_ok_def)
  ultimately have d: "decoded_bytes_current t + need \<le> MACOS9_DECODED_IMG_MAX_BYTES" "0 \<le> decoded_bytes_current t"
    by (simp_all add: cache_ok_def)
  have "wrap32 (decoded_bytes_current t + need) = decoded_bytes_current t + need"
    using d assms(2) by (intro budget_wrap) (simp_all add: MACOS9_IMG_MAX_DECODED_BYTES_def)
  then show ?thesis using t d by (auto simp: macos9_qti_lru_make_room_def)
qed

lemma purge_ok:
  assumes "cache_ok s xs"
  shows "\<exists>t. macos9_purge_decoded_images s = Some t \<and> cache_ok t [] \<and> (\<forall>a \<in> set xs. \<not> im_bitmap (img t a))
     \<and> (\<forall>b. b \<notin> set xs \<longrightarrow> payload (img t b) = payload (img s b))"
  using assms
proof (induction xs arbitrary: s rule: rev_induct)
  case Nil
  then show ?case using tail_of [of s "[]"] by (subst macos9_purge_decoded_images.simps) (simp add: cache_ok_def)
next
  case (snoc v ys)
  have t: "lru_tail s = Some v" using tail_of [of s "ys @ [v]"] snoc.prems by (simp add: cache_ok_def)
  note e = evict_ok [of s ys v "[]"]
  have ok: "cache_ok (evict v s) ys" using e(1) snoc.prems by simp
  obtain u where u: "macos9_purge_decoded_images (evict v s) = Some u" "cache_ok u []" "\<forall>a \<in> set ys. \<not> im_bitmap (img u a)"
    "\<forall>b. b \<notin> set ys \<longrightarrow> payload (img u b) = payload (img (evict v s) b)"
    using snoc.IH [OF ok] by blast
  have "v \<notin> set ys" using list_distinct [of s "ys @ [v]"] snoc.prems by (simp add: cache_ok_def)
  then have "\<not> im_bitmap (img u v)" using u(4) e(3) snoc.prems payload_eq [of "img u v" "img (evict v s) v"] by simp
  moreover have "payload (img u b) = payload (img s b)" if "b \<notin> set (ys @ [v])" for b using that u(4) e(2) [of b] snoc.prems by simp
  moreover have "macos9_purge_decoded_images s = Some u" using t u(1) by (subst macos9_purge_decoded_images.simps) simp
  ultimately show ?case using u(2,3) by (intro exI [of _ u]) simp
qed

lemma drop_bitmap_ok:
  assumes "cache_ok s xs"
  shows "cache_ok (drop_bitmap a s) (remove1 a xs)" "\<And>b. b \<noteq> a \<Longrightarrow> payload (img (drop_bitmap a s) b) = payload (img s b)"
    "\<not> im_bitmap (img (drop_bitmap a s) a)"
proof -
  let ?n = "im_bytes (img s a)"
  define s1 where "s1 = im_update a (\<lambda>c. c\<lparr>im_bitmap := False\<rparr>) s"
  define v where "v = uncount_total ?n (uncount_current ?n s1)"
  define u where "u = macos9_qti_lru_unlink a v"
  have dr: "drop_bitmap a s = (if im_bitmap (img s a) then im_update a (\<lambda>c. c\<lparr>im_bytes := 0\<rparr>) u else s)"
    by (simp add: drop_bitmap_def Let_def s1_def v_def u_def)
  have v: "lru_list v ys \<longleftrightarrow> lru_list s ys" for ys
    unfolding v_def by (subst lru_list_cong [of "uncount_total _ _" "uncount_current _ _"], simp_all)
      (subst lru_list_cong [of "uncount_current _ _" s1], simp_all add: s1_def image_update_list)
  have pl: "payload (img u b) = payload (img s1 b)" for b using unlink_same [of v a] by (simp add: same_images_def u_def v_def)
  show o: "\<And>b. b \<noteq> a \<Longrightarrow> payload (img (drop_bitmap a s) b) = payload (img s b)"
    using pl by (simp add: dr s1_def)
  have "\<not> im_bitmap (img u a)" using pl [of a] payload_eq [of "img u a" "img s1 a"] by (simp add: s1_def)
  then show nb: "\<not> im_bitmap (img (drop_bitmap a s) a)" by (simp add: dr)
  show "cache_ok (drop_bitmap a s) (remove1 a xs)"
  proof (cases "a \<in> set xs")
    case True
    then obtain us vs where x: "xs = us @ a # vs" "a \<notin> set us" using split_list_first by metis
    have b: "im_bitmap (img s a)" using assms True by (auto simp: cache_ok_def)
    note c = counted [OF assms True]
    have k: "lru_total_bytes u = lru_total_bytes s - ?n" "decoded_bytes_current u = decoded_bytes_current s - ?n"
      using unlink_same [of v a] c uncount_exact [of ?n s1] uncount_exact [of ?n "uncount_current ?n s1"]
      by (simp_all add: u_def same_images_def v_def s1_def uncount_total_def)
    have "lru_list u (us @ vs)" unfolding u_def using v x assms by (intro unlink_list) (simp add: cache_ok_def)
    then have "lru_list (drop_bitmap a s) (us @ vs)" using b by (simp add: dr image_update_list)
    then have "cache_ok (drop_bitmap a s) (us @ vs)" using assms x o nb k b by (intro forget_ok [of s us a vs]) (simp_all add: dr)
    then show ?thesis using x by (simp add: remove1_append)
  next
    case False
    then have z: "?n = 0" "\<not> im_in_lru (img s a)" using assms by (auto simp: cache_ok_def lru_list_def)
    have cur: "wrap32 (decoded_bytes_current s) = decoded_bytes_current s" "wrap32 (lru_total_bytes s) = lru_total_bytes s"
      "0 \<le> lru_total_bytes s" "0 \<le> decoded_bytes_current s"
      using assms bytes_in_nonneg [of xs s] by (auto simp: cache_ok_def MACOS9_IMG_MAX_DECODED_BYTES_def intro!: budget_wrap)
    have u: "u = v" using z by (simp add: u_def macos9_qti_lru_unlink_def v_def s1_def)
    let ?t = "drop_bitmap a s"
    have "bytes_in ?t xs = bytes_in s xs" using o False payload_eq by (intro bytes_in_cong) (metis (no_types))
    moreover have "lru_list ?t xs" using v assms by (simp add: dr u image_update_list cache_ok_def)
    moreover have "lru_total_bytes ?t = lru_total_bytes s" "decoded_bytes_current ?t = decoded_bytes_current s"
      using cur z by (simp_all add: dr u v_def uncount_total_def uncount_current_def s1_def)
    moreover have "im_bytes (img ?t b) = im_bytes (img s b)" for b
      using o [of b] z payload_eq [of "img ?t b" "img s b"] by (cases "b = a") (simp_all add: dr)
    moreover have "im_bitmap (img ?t b) = im_bitmap (img s b) \<and> is_deferred (img ?t b) = is_deferred (img s b)" if "b \<noteq> a" for b
      using o [OF that] payload_eq [of "img ?t b" "img s b"] by (simp add: is_deferred_def)
    ultimately show ?thesis using assms False nb unfolding cache_ok_def by (metis remove1_idem)
  qed
qed

lemma admit_ok:
  assumes "cache_ok s xs" "a \<notin> set xs" "0 \<le> rgba_bytes w h" "rgba_bytes w h \<le> MACOS9_IMG_MAX_DECODED_BYTES"
    and "bytes_in s xs + rgba_bytes w h \<le> MACOS9_DECODED_IMG_MAX_BYTES"
  shows "cache_ok (admit a w h s) (a # xs)" "\<And>b. b \<noteq> a \<Longrightarrow> payload (img (admit a w h s) b) = payload (img s b)"
    "im_bitmap (img (admit a w h s) a)" "im_bitmap_w (img (admit a w h s) a) = w" "im_bitmap_h (img (admit a w h s) a) = h"
proof -
  let ?n = "rgba_bytes w h"
  define s2 where "s2 = (im_update a (\<lambda>c. c\<lparr>im_bitmap := True, im_bitmap_w := w, im_bitmap_h := h, im_bytes := ?n\<rparr>) s)
    \<lparr>decoded_bytes_current := wrap32 (decoded_bytes_current s + ?n), lru_total_bytes := wrap32 (lru_total_bytes s + ?n),
     decoded_bytes_peak := max (decoded_bytes_peak s) (wrap32 (decoded_bytes_current s + ?n))\<rparr>"
  let ?t = "admit a w h s"
  have t: "?t = macos9_qti_lru_insert_mru a s2" by (simp add: admit_def Let_def s2_def)
  have l: "lru_list s2 xs" using assms(1) unfolding s2_def
    by (subst lru_list_cong [of _ "im_update a (\<lambda>c. c\<lparr>im_bitmap := True, im_bitmap_w := w, im_bitmap_h := h, im_bytes := ?n\<rparr>) s"])
      (auto simp: nx_def pv_def fun_eq_iff image_update_list cache_ok_def)
  have sm: "same_images s2 ?t" unfolding t by (rule insert_same)
  have p: "payload (img ?t b) = payload (img s2 b)" for b using sm by (simp add: same_images_def)
  show o: "\<And>b. b \<noteq> a \<Longrightarrow> payload (img ?t b) = payload (img s b)" using p by (simp add: s2_def)
  have a: "im_bytes (img ?t a) = ?n" "im_bitmap (img ?t a)" "im_bitmap_w (img ?t a) = w" "im_bitmap_h (img ?t a) = h"
    using payload_eq [OF p [of a]] by (simp_all add: s2_def)
  then show "im_bitmap (img ?t a)" "im_bitmap_w (img ?t a) = w" "im_bitmap_h (img ?t a) = h" by simp_all
  have e: "im_bytes (img ?t b) = im_bytes (img s b) \<and> im_bitmap (img ?t b) = im_bitmap (img s b) \<and> is_deferred (img ?t b) = is_deferred (img s b)"
    if "b \<noteq> a" for b using payload_eq [OF o [OF that]] by (simp add: is_deferred_def)
  have bx: "bytes_in ?t xs = bytes_in s xs" using e assms(2) by (intro bytes_in_cong) metis
  have nn: "0 \<le> bytes_in s xs" using assms(1) by (intro bytes_in_nonneg) (simp add: cache_ok_def)
  have "wrap32 (bytes_in s xs + ?n) = bytes_in s xs + ?n"
    using nn assms(3,5) by (intro budget_wrap) (simp_all add: MACOS9_IMG_MAX_DECODED_BYTES_def)
  then have "lru_total_bytes ?t = ?n + bytes_in s xs" "decoded_bytes_current ?t = ?n + bytes_in s xs"
    using sm assms(1) by (simp_all add: same_images_def s2_def cache_ok_def)
  moreover have "\<forall>b \<in> set xs. im_bitmap (img ?t b) \<and> 0 \<le> im_bytes (img ?t b) \<and> im_bytes (img ?t b) \<le> MACOS9_IMG_MAX_DECODED_BYTES"
    using e assms(1,2) unfolding cache_ok_def by metis
  moreover have "\<forall>b. b \<notin> set (a # xs) \<longrightarrow> im_bytes (img ?t b) = 0 \<and> \<not> (im_bitmap (img ?t b) \<and> is_deferred (img ?t b))"
    using e assms(1) by (simp add: cache_ok_def)
  ultimately show "cache_ok ?t (a # xs)"
    using insert_list [OF l assms(2)] assms(3-5) a(1,2) bx unfolding cache_ok_def t [symmetric] by simp
qed

lemma kept_prefix_bytes:
  assumes "kept_prefix need xs k s t" "distinct xs"
  shows "bytes_in t (take k xs) = bytes_in s (take k xs)"
proof (rule bytes_in_cong)
  fix a assume "a \<in> set (take k xs)"
  then have "a \<notin> set (drop k xs)" using assms(2) set_take_disj_set_drop_if_distinct [of xs k k] by blast
  then have "payload (img t a) = payload (img s a)" using assms(1) by (simp add: kept_prefix_def)
  then show "im_bytes (img t a) = im_bytes (img s a)" using payload_eq by blast
qed

text \<open>What a drawing of a deferred content at a size comes to.\<close>

definition drawn :: "nat \<Rightarrow> int \<Rightarrow> int \<Rightarrow> nat list \<Rightarrow> image_cache \<Rightarrow> image_cache \<Rightarrow> nat list \<Rightarrow> bool" where
  "drawn q w h xs s t ys \<longleftrightarrow>
     (\<exists>k \<le> length (remove1 q xs). ys = q # take k (remove1 q xs)
        \<and> (k < length (remove1 q xs) \<longrightarrow> bytes_in s (take (Suc k) (remove1 q xs)) + rgba_bytes w h > MACOS9_DECODED_IMG_MAX_BYTES))
     \<and> im_bitmap (img t q) \<and> im_bitmap_w (img t q) = w \<and> im_bitmap_h (img t q) = h"

text \<open>The outcome of a deferred decode, whether it decodes or not.\<close>

definition decode_outcome :: "nat \<Rightarrow> int \<Rightarrow> int \<Rightarrow> nat list \<Rightarrow> image_cache \<Rightarrow> (bool \<times> image_cache) option \<Rightarrow> bool" where
  "decode_outcome q w h xs s r \<longleftrightarrow> (\<exists>go_on t ys. r = Some (go_on, t) \<and> cache_ok t ys
     \<and> (\<forall>b \<in> set ys. b \<noteq> q \<longrightarrow> b \<in> set xs \<and> payload (img t b) = payload (img s b))
     \<and> (go_on \<and> im_bitmap (img t q) \<and> w > 0 \<and> h > 0 \<and> (im_png_deferred (img s q) \<longrightarrow> im_compressed (img s q)) \<longrightarrow> drawn q w h xs s t ys))"

lemma outcomeI:
  "r = Some (go_on, t) \<Longrightarrow> cache_ok t ys \<Longrightarrow> (\<And>b. b \<in> set ys \<Longrightarrow> b \<noteq> q \<Longrightarrow> b \<in> set xs \<and> payload (img t b) = payload (img s b))
    \<Longrightarrow> (go_on \<Longrightarrow> im_bitmap (img t q) \<Longrightarrow> w > 0 \<Longrightarrow> h > 0 \<Longrightarrow> (im_png_deferred (img s q) \<longrightarrow> im_compressed (img s q)) \<Longrightarrow> drawn q w h xs s t ys)
    \<Longrightarrow> decode_outcome q w h xs s r"
  unfolding decode_outcome_def by blast

lemma redecode_ok:
  assumes "cache_ok s xs" "0 \<le> rgba_bytes w h" "rgba_bytes w h \<le> MACOS9_IMG_MAX_DECODED_BYTES"
  shows "decode_outcome q w h xs s (Option.bind (macos9_qti_lru_make_room (rgba_bytes w h) (drop_bitmap q s)) (\<lambda>(room, s2).
     if \<not> room then Some (False, s2)
     else if \<not> decodes q w h then Some (False, im_update q (\<lambda>c. c\<lparr>im_bitmap := False\<rparr>) s2) else Some (True, admit q w h s2)))"
    (is "decode_outcome q w h xs s ?r")
proof -
  let ?need = "rgba_bytes w h" and ?ys = "remove1 q xs"
  define s1 where "s1 = drop_bitmap q s"
  have dy: "distinct ?ys" "q \<notin> set ?ys" using list_distinct [of s xs] assms(1) by (simp_all add: cache_ok_def)
  have sub: "b \<in> set ?ys \<Longrightarrow> b \<in> set xs" for b by (meson notin_set_remove1)
  have d: "cache_ok s1 ?ys" "\<And>b. b \<noteq> q \<Longrightarrow> payload (img s1 b) = payload (img s b)" "\<not> im_bitmap (img s1 q)"
    unfolding s1_def using drop_bitmap_ok [OF assms(1)] by simp_all
  obtain t k where t: "macos9_qti_lru_make_room ?need s1 = Some (True, t)" "kept_prefix ?need ?ys k s1 t"
    using make_room_ok [OF d(1) assms(2,3)] by blast
  have ok: "cache_ok t (take k ?ys)" "k \<le> length ?ys" "bytes_in s1 (take k ?ys) + ?need \<le> MACOS9_DECODED_IMG_MAX_BYTES"
    and more: "k < length ?ys \<longrightarrow> bytes_in s1 (take (Suc k) ?ys) + ?need > MACOS9_DECODED_IMG_MAX_BYTES"
    and pay: "\<And>b. b \<notin> set (drop k ?ys) \<Longrightarrow> payload (img t b) = payload (img s1 b)"
    using t(2) by (simp_all add: kept_prefix_def)
  have qd: "q \<notin> set (drop k ?ys)" "q \<notin> set (take k ?ys)" using dy(2) by (meson in_set_dropD in_set_takeD)+
  have kept: "b \<in> set xs \<and> payload (img t b) = payload (img s b)" if "b \<in> set (take k ?ys)" for b
  proof -
    have "b \<notin> set (drop k ?ys)" using that dy(1) set_take_disj_set_drop_if_distinct [of ?ys k k] by blast
    moreover have "b \<noteq> q" "b \<in> set ?ys" using that qd(2) in_set_takeD by fastforce+
    ultimately show ?thesis using pay d(2) sub by simp
  qed
  show ?thesis
  proof (cases "decodes q w h")
    case False
    have "\<not> im_bitmap (img t q)" using payload_eq [OF pay [OF qd(1)]] d(3) by simp
    then have "(img t q)\<lparr>im_bitmap := False\<rparr> = img t q" by (cases "img t q") simp
    then have "?r = Some (False, t)" using t(1) False by (simp add: s1_def [symmetric] im_update_def)
    then show ?thesis using ok(1) kept by (rule outcomeI) simp_all
  next
    case True
    let ?t = "admit q w h t"
    have b: "bytes_in t (take k ?ys) + ?need \<le> MACOS9_DECODED_IMG_MAX_BYTES" using kept_prefix_bytes [OF t(2) dy(1)] ok(3) by simp
    note a = admit_ok [OF ok(1) qd(2) assms(2,3) b]
    have "bytes_in s1 (take (Suc k) ?ys) = bytes_in s (take (Suc k) ?ys)"
      using d(2) dy(2) payload_eq by (intro bytes_in_cong) (metis in_set_takeD)
    then have "drawn q w h xs s ?t (q # take k ?ys)" using ok(2) more a(3-5) by (auto simp: drawn_def)
    moreover have "?r = Some (True, ?t)" using t(1) True by (simp add: s1_def [symmetric])
    ultimately show ?thesis using a(1) kept a(2) by (intro outcomeI [of _ True ?t]) auto
  qed
qed

lemma touch_ok:
  assumes "cache_ok s xs" "q \<in> set xs" "w > 0 \<and> h > 0 \<and> (im_png_deferred (img s q) \<longrightarrow> im_compressed (img s q)) \<longrightarrow> im_bitmap_w (img s q) = w \<and> im_bitmap_h (img s q) = h"
  shows "decode_outcome q w h xs s (Some (True, macos9_qti_lru_touch q s))"
proof -
  let ?t = "macos9_qti_lru_touch q s" and ?ys = "remove1 q xs"
  have ll: "lru_list s xs" "distinct xs" using assms(1) list_distinct by (auto simp: cache_ok_def)
  note tl = touch_list [OF ll(1) assms(2)]
  have pay: "payload (img ?t b) = payload (img s b)" for b using tl(2) by (simp add: same_images_def)
  have "cache_ok ?t (q # ?ys)"
    using bytes_in_remove [OF assms(2), of s] ll(2) assms(2) by (intro cache_ok_same [OF assms(1) tl(2,1)]) (auto simp: set_remove1_eq)
  moreover have "drawn q w h xs s ?t (q # ?ys)" if "im_bitmap (img ?t q)" "w > 0" "h > 0" "im_png_deferred (img s q) \<longrightarrow> im_compressed (img s q)"
    using that assms(3) payload_eq [OF pay [of q]] by (auto simp: drawn_def intro!: exI [of _ "length ?ys"])
  ultimately show ?thesis using pay ll(2) by (intro outcomeI [OF refl]) (auto simp: set_remove1_eq)
qed

lemma deferred_decode_ok:
  assumes "cache_ok s xs" "is_deferred (img s q)" "0 \<le> rgba_bytes w h"
  shows "decode_outcome q w h xs s (deferred_decode decodes q w h s)"
proof (cases "(\<not> im_bitmap (img s q) \<or> im_bitmap_w (img s q) \<noteq> w \<or> im_bitmap_h (img s q) \<noteq> h) \<and> w > 0 \<and> h > 0
    \<and> (im_png_deferred (img s q) \<longrightarrow> im_compressed (img s q))")
  case True
  show ?thesis
  proof (cases "rgba_bytes w h > MACOS9_IMG_MAX_DECODED_BYTES")
    case over: True
    have "deferred_decode decodes q w h s = Some (False, drop_bitmap q s)" using True over by (simp add: deferred_decode_def Let_def)
    then show ?thesis using drop_bitmap_ok [OF assms(1)] notin_set_remove1 [of _ xs q]
      by (intro outcomeI [of _ False "drop_bitmap q s" "remove1 q xs"]) auto
  next
    case False
    then have "rgba_bytes w h \<le> MACOS9_IMG_MAX_DECODED_BYTES" by simp
    from redecode_ok [OF assms(1,3) this, of q decodes] show ?thesis using True False by (simp add: deferred_decode_def Let_def)
  qed
next
  case F: False
  show ?thesis
  proof (cases "im_bitmap (img s q)")
    case True
    then have "q \<in> set xs" using assms(1,2) by (auto simp: cache_ok_def)
    moreover have "deferred_decode decodes q w h s = Some (True, macos9_qti_lru_touch q s)" using F True unfolding deferred_decode_def Let_def by auto
    ultimately show ?thesis using F True touch_ok [OF assms(1), of q w h] by auto
  next
    case False
    then have "deferred_decode decodes q w h s = Some (True, s)" using F unfolding deferred_decode_def Let_def by auto
    then show ?thesis using assms(1) False by (intro outcomeI [of _ True s xs]) (auto simp: cache_ok_def)
  qed
qed

lemma destroy_ok:
  assumes "cache_ok s xs"
  shows "cache_ok (macos9_qt_image_destroy q s) (remove1 q xs)"
proof -
  let ?n = "im_bytes (img s q)" and ?t = "macos9_qt_image_destroy q s"
  define s1 where "s1 = (if im_in_lru (img s q) then macos9_qti_lru_unlink q (uncount_total ?n s) else s)"
  note t = macos9_qt_image_destroy_def [of q s, unfolded Let_def, folded s1_def]
  have ul: "lru_list (uncount_total ?n s) ys = lru_list s ys" for ys by (rule lru_list_cong) simp_all
  have same: "same_images (uncount_total ?n s) s1 \<or> s1 = s" using unlink_same by (auto simp: s1_def)
  have pay: "payload (img s1 b) = payload (img s b)" for b using same by (auto simp: same_images_def)
  have nb: "\<not> im_bitmap (img ?t q)" using payload_eq [OF pay [of q]] by (simp add: t)
  have o: "payload (img ?t b) = payload (img s b)" if "b \<noteq> q" for b
    using that pay [of b] by (simp add: t)
  have lt: "lru_list ?t ys = lru_list s1 ys" for ys
    unfolding t by (rule lru_list_cong) (auto simp: nx_def pv_def fun_eq_iff)
  have c1: "decoded_bytes_current s1 = decoded_bytes_current s" using same by (auto simp: same_images_def uncount_total_def)
  show ?thesis
  proof (cases "q \<in> set xs")
    case True
    then obtain us vs where x: "xs = us @ q # vs" "q \<notin> set us" using split_list_first by metis
    have b: "im_bitmap (img s q)" "im_in_lru (img s q)" using assms True by (auto simp: cache_ok_def lru_list_def)
    note c = counted [OF assms True]
    have tot: "lru_total_bytes s1 = lru_total_bytes s - ?n" using same c uncount_exact(1) [of ?n s] b(2) unlink_same [of "uncount_total ?n s" q]
      by (simp add: s1_def same_images_def)
    have "wrap32 (decoded_bytes_current s - ?n) = decoded_bytes_current s - ?n" using c by (intro budget_wrap) (simp_all add: MACOS9_IMG_MAX_DECODED_BYTES_def)
    then have k: "decoded_bytes_current ?t = decoded_bytes_current s - ?n" "lru_total_bytes ?t = lru_total_bytes s - ?n" "im_bytes (img ?t q) = 0"
      using b c c1 tot payload_eq [OF pay [of q]] by (simp_all add: t)
    have "lru_list s1 (us @ vs)" using b(2) ul x assms by (simp add: s1_def unlink_list cache_ok_def)
    then have "cache_ok ?t (us @ vs)" using assms x o nb k lt by (intro forget_ok [of s us q vs]) simp_all
    then show ?thesis using x by (simp add: remove1_append)
  next
    case False
    then have z: "?n = 0" "\<not> im_in_lru (img s q)" using assms by (auto simp: cache_ok_def lru_list_def)
    have e: "im_bytes (img ?t b) = im_bytes (img s b)" for b
      using z payload_eq [OF o [of b]] by (cases "b = q") (simp_all add: t s1_def)
    have "bytes_in ?t xs = bytes_in s xs" using e by (intro bytes_in_cong)
    moreover have "im_bitmap (img ?t b) = im_bitmap (img s b) \<and> is_deferred (img ?t b) = is_deferred (img s b)" if "b \<noteq> q" for b
      using payload_eq [OF o [OF that]] by (simp add: is_deferred_def)
    moreover have "lru_total_bytes ?t = lru_total_bytes s" "decoded_bytes_current ?t = decoded_bytes_current s" "lru_list ?t xs"
      using z assms lt by (simp_all add: t s1_def cache_ok_def)
    ultimately show ?thesis using assms False nb e unfolding cache_ok_def by (metis remove1_idem)
  qed
qed

section \<open>Properties\<close>

text \<open>The size a content is drawn at when layout gives it \<open>width\<close> and \<open>height\<close>.\<close>

definition display_size :: "image_cache \<Rightarrow> nat \<Rightarrow> int \<Rightarrow> int \<Rightarrow> int \<times> int" where
  "display_size s q width height = aspect_fix (im_nat_w (img s q)) (im_nat_h (img s q)) (fit_to_cap (width, height))"

text \<open>
  C24. The image budget. Drawing, destroying and purging image contents keep the invariant: both
  byte counters equal the sum of the decoded sizes, which is at most 32 MB, and no image has more
  than 16 MB. Drawing returns; a deferred content that gets drawn has a bitmap of exactly the
  display size and becomes the most recently drawn one, and of the others the longest run of most
  recently drawn ones that fits beside it stays decoded, unchanged: only the least recently drawn
  are given up, and none in vain. (The byte count of the display size must not be negative, which
  a size of 2 GB and more can make it.)
\<close>

theorem image_redraw_lru:
  assumes "cache_ok s xs" "display_size s q width height = (w, h)" "0 \<le> rgba_bytes w h"
  shows "(\<exists>r t ys. macos9_qt_image_redraw decodes clip q x y width height s = Some (r, t) \<and> cache_ok t ys \<and> r \<in> {None, Some (w, h)}
        \<and> (\<forall>b \<in> set ys. b \<noteq> q \<longrightarrow> b \<in> set xs \<and> payload (img t b) = payload (img s b))
        \<and> (r \<noteq> None \<and> is_deferred (img s q) \<and> w > 0 \<and> h > 0 \<and> (im_png_deferred (img s q) \<longrightarrow> im_compressed (img s q)) \<longrightarrow> drawn q w h xs s t ys))
     \<and> cache_ok (macos9_qt_image_destroy q s) (remove1 q xs)
     \<and> (\<exists>t. macos9_purge_decoded_images s = Some t \<and> cache_ok t [])"
proof (intro conjI)
  show "cache_ok (macos9_qt_image_destroy q s) (remove1 q xs)" by (rule destroy_ok [OF assms(1)])
  show "\<exists>t. macos9_purge_decoded_images s = Some t \<and> cache_ok t []" using purge_ok [OF assms(1)] by blast
  define body where "body = (if is_deferred (img s q) then deferred_decode decodes q w h s else Some (True, s))"
  have r: "macos9_qt_image_redraw decodes clip q x y width height s = (if off_fold clip x y (width, height) then Some (None, s)
      else Option.bind body (\<lambda>(go_on, s'). Some (if go_on \<and> im_bitmap (img s' q) then Some (w, h) else None, s')))"
    using assms(2) by (simp add: macos9_qt_image_redraw_def display_size_def body_def is_deferred_def)
  show "\<exists>r t ys. macos9_qt_image_redraw decodes clip q x y width height s = Some (r, t) \<and> cache_ok t ys \<and> r \<in> {None, Some (w, h)}
        \<and> (\<forall>b \<in> set ys. b \<noteq> q \<longrightarrow> b \<in> set xs \<and> payload (img t b) = payload (img s b))
        \<and> (r \<noteq> None \<and> is_deferred (img s q) \<and> w > 0 \<and> h > 0 \<and> (im_png_deferred (img s q) \<longrightarrow> im_compressed (img s q)) \<longrightarrow> drawn q w h xs s t ys)"
  proof (cases "off_fold clip x y (width, height) \<or> \<not> is_deferred (img s q)")
    case True
    then obtain r' where "macos9_qt_image_redraw decodes clip q x y width height s = Some (r', s)" "r' \<in> {None, Some (w, h)}"
        "r' = None \<or> \<not> is_deferred (img s q)"
      using r by (cases "off_fold clip x y (width, height)") (auto simp: body_def)
    then show ?thesis using assms(1) by (intro exI [of _ r'] exI [of _ s] exI [of _ xs]) auto
  next
    case False
    then have "decode_outcome q w h xs s body" using deferred_decode_ok [OF assms(1) _ assms(3), of q decodes] by (simp add: body_def)
    then obtain go_on t ys where b: "body = Some (go_on, t)" "cache_ok t ys" "\<forall>b \<in> set ys. b \<noteq> q \<longrightarrow> b \<in> set xs \<and> payload (img t b) = payload (img s b)"
      "go_on \<and> im_bitmap (img t q) \<and> w > 0 \<and> h > 0 \<and> (im_png_deferred (img s q) \<longrightarrow> im_compressed (img s q)) \<longrightarrow> drawn q w h xs s t ys"
      unfolding decode_outcome_def by blast
    then show ?thesis using False r
      by (intro exI [of _ "if go_on \<and> im_bitmap (img t q) then Some (w, h) else None"] exI [of _ t] exI [of _ ys]) auto
  qed
qed

text \<open>JPEG contents of 4000 by 3000 pixels, none decoded yet.\<close>

definition photo :: qt_image where
  "photo = \<lparr>im_nat_w = 4000, im_nat_h = 3000, im_compressed = True, im_importer = True, im_png_deferred = False, im_bitmap = False,
     im_bitmap_w = 0, im_bitmap_h = 0, im_bytes = 0, im_prev = None, im_next = None, im_in_lru = False\<rparr>"

definition photos :: image_cache where
  "photos = \<lparr>im_heap = (\<lambda>a. photo), lru_head = None, lru_tail = None, lru_total_bytes = 0, decoded_bytes_current = 0, decoded_bytes_peak = 0\<rparr>"

lemma photos_ok: "cache_ok photos []"
  by (simp add: cache_ok_def lru_list_def dll_def photos_def photo_def MACOS9_DECODED_IMG_MAX_BYTES_def)

theorem image_redraw_lru_witness:
  "\<exists>r t. macos9_qt_image_redraw (\<lambda>q w h. True) None 1 0 0 400 300 photos = Some (r, t) \<and> r \<in> {None, Some (400, 300)}
     \<and> decoded_bytes_current t \<le> 32 * 1024 * 1024"
proof -
  have "display_size photos 1 400 300 = (400, 300)" "0 \<le> rgba_bytes 400 300" by code_simp+
  from image_redraw_lru [OF photos_ok this, of "\<lambda>q w h. True" None 0 0] show ?thesis
    by (auto simp: cache_ok_def MACOS9_DECODED_IMG_MAX_BYTES_def)
qed

text \<open>
  C25. Scaling to the ceiling overflows. The loop that is to scale a display size down to the 16 MB
  of one image computes \<open>w * h * 1000\<close> in 32 bits. Whenever that product, read as signed, is
  negative, nothing is scaled. So a photo of 4000 by 3000, the size the loop was written for,
  stays at 48 MB and is not drawn at all. The size gate for PNG files overflows as well: a picture
  of 32768 by 32768 counts as 0 bytes and passes.
\<close>

theorem fit_to_cap_overflow:
  assumes "0 < w" "0 < h" "w * 1000 < 2 ^ 31" "h * 1000 < 2 ^ 31" "w * h < 2 ^ 31" "2 ^ 31 \<le> (w * h * 1000) mod 2 ^ 32"
  shows "fit_to_cap (w, h) = (w, h) \<and> \<not> macos9_img_is_oversize 32768 32768"
proof
  have neg: "wrap32 (w * h * 1000) < 0"
  proof -
    have "(w * h * 1000 + 2 ^ 31) mod 2 ^ 32 = ((w * h * 1000) mod 2 ^ 32 + 2 ^ 31) mod 2 ^ 32" by (simp add: mod_add_left_eq)
    also have "\<dots> = (w * h * 1000) mod 2 ^ 32 - 2 ^ 31"
      using assms(6) pos_mod_bound [of "2 ^ 32 :: int" "w * h * 1000"]
      by (simp add: mod_pos_pos_trivial mod_pos_geq)
    finally show ?thesis using pos_mod_bound [of "2 ^ 32 :: int" "w * h * 1000"] by (simp add: wrap32_def)
  qed
  have c: "cdiv (wrap32 (w * 1000)) 1000 = w" "cdiv (wrap32 (h * 1000)) 1000 = h" using assms(1-4) by (simp_all add: cdiv_def)
  have "0 < w * h" using assms(1,2) by simp
  then have "wrap32 (w * h) = w * h" using assms(5) by (intro wrap32_id) linarith+
  then have "scaled_pixels w h 1000 \<le> 0" using c neg by (simp add: scaled_pixels_def cdiv_def)
  then have "fit_scale w h 1000 = 1000" by (subst fit_scale.simps) (simp add: cdiv_def MACOS9_IMG_MAX_DECODED_BYTES_def)
  then show "fit_to_cap (w, h) = (w, h)" using c assms(1,2) by (simp add: fit_to_cap_def Let_def)
  show "\<not> macos9_img_is_oversize 32768 32768" by code_simp
qed

theorem fit_to_cap_overflow_witness:
  "fit_to_cap (4000, 3000) = (4000, 3000) \<and> map_option fst (macos9_qt_image_redraw (\<lambda>q w h. True) None 1 0 0 4000 3000 photos) = Some None"
proof -
  have f: "fit_to_cap (4000, 3000) = (4000, 3000)" using fit_to_cap_overflow [of 4000 3000] by simp
  have a: "aspect_fix 4000 3000 (4000, 3000) = (4000, 3000)" "rgba_bytes 4000 3000 > MACOS9_IMG_MAX_DECODED_BYTES" by code_simp+
  have "im_nat_w (img photos 1) = 4000" "im_nat_h (img photos 1) = 3000" "im_importer (img photos 1)" "\<not> im_png_deferred (img photos 1)" "\<not> im_bitmap (img photos 1)"
    by (simp_all add: photos_def photo_def)
  then show ?thesis using f a by (simp add: macos9_qt_image_redraw_def off_fold_def deferred_decode_def Let_def)
qed

end
