(* ===== verification/RingMacros.thy ===== *)
theory RingMacros
  imports LinkedLists
begin

text \<open>
  The ring macros of \<open>utils/ring.h\<close>. A macro is used with a ring variable and elements that have
  fields \<open>r_next\<close> and \<open>r_prev\<close>; the record \<open>ring_var\<close> holds how they are read and written in a
  state \<open>'w\<close>, and the macros are functions of such a record. Writing through a null pointer, which
  would crash, changes nothing; the walks around a ring are \<open>None\<close> when they meet one or do not end.

  The locale \<open>ring_store\<close> has the laws of reading after writing. In it the macros are shown, once
  for all rings, to implement a list: inserting appends, removing deletes, and the walks count.
\<close>

record 'w ring_var =
  ring_head :: "'w \<Rightarrow> nat option"
  set_ring_head :: "nat option \<Rightarrow> 'w \<Rightarrow> 'w"
  r_next :: "'w \<Rightarrow> nat \<Rightarrow> nat option"
  set_r_next :: "nat option \<Rightarrow> nat option \<Rightarrow> 'w \<Rightarrow> 'w"
  r_prev :: "'w \<Rightarrow> nat \<Rightarrow> nat option"
  set_r_prev :: "nat option \<Rightarrow> nat option \<Rightarrow> 'w \<Rightarrow> 'w"

definition RING_INSERT :: "'w ring_var \<Rightarrow> nat \<Rightarrow> 'w \<Rightarrow> 'w" where
  "RING_INSERT R el w =
     (case ring_head R w of
        Some h \<Rightarrow>
          (let w1 = set_r_next R (Some el) (Some h) w;
               w2 = set_r_prev R (Some el) (r_prev R w1 h) w1;
               w3 = set_r_prev R (Some h) (Some el) w2
           in set_r_next R (r_prev R w3 el) (Some el) w3)
      | None \<Rightarrow> set_ring_head R (Some el) (set_r_prev R (Some el) (Some el) (set_r_next R (Some el) (Some el) w)))"

definition RING_REMOVE :: "'w ring_var \<Rightarrow> nat \<Rightarrow> 'w \<Rightarrow> 'w" where
  "RING_REMOVE R el w =
     (let w1 = (if r_next R w el \<noteq> Some el
                then (let v1 = set_r_prev R (r_next R w el) (r_prev R w el) w;
                          v2 = set_r_next R (r_prev R v1 el) (r_next R v1 el) v1
                      in if ring_head R v2 = Some el then set_ring_head R (r_next R v2 el) v2 else v2)
                else set_ring_head R None w)
      in set_r_next R (Some el) None (set_r_prev R (Some el) None w1))"

text \<open>The loop of the counting macros, from the element \<open>p\<close> on.\<close>

partial_function (option) ring_count :: "'w ring_var \<Rightarrow> (nat \<Rightarrow> bool) \<Rightarrow> 'w \<Rightarrow> nat \<Rightarrow> nat \<Rightarrow> int \<Rightarrow> int option" where
  "ring_count R matches w start p n =
     (case r_next R w p of
        None \<Rightarrow> None
      | Some q \<Rightarrow>
          if q = start then Some (if matches p then n + 1 else n)
          else ring_count R matches w start q (if matches p then n + 1 else n))"

declare ring_count.simps [code]

definition RING_GETSIZE :: "'w ring_var \<Rightarrow> 'w \<Rightarrow> int option" where
  "RING_GETSIZE R w = (case ring_head R w of None \<Rightarrow> Some 0 | Some h \<Rightarrow> ring_count R (\<lambda>_. True) w h h 0)"

definition RING_COUNTBY :: "'w ring_var \<Rightarrow> (nat \<Rightarrow> bool) \<Rightarrow> 'w \<Rightarrow> int option" where
  "RING_COUNTBY R matches w = (case ring_head R w of None \<Rightarrow> Some 0 | Some h \<Rightarrow> ring_count R matches w h h 0)"

section \<open>The macros implement a list\<close>

text \<open>
  \<open>alive\<close> are the elements that can be written to; \<open>rest\<close> is all of the state that is neither a
  link nor the ring variable.
\<close>

locale ring_store =
  fixes R :: "'w ring_var" and alive :: "'w \<Rightarrow> nat set" and rest :: "'w \<Rightarrow> 'r"
  assumes next_next: "a \<in> alive w \<Longrightarrow> r_next R (set_r_next R (Some a) v w) = (r_next R w)(a := v)"
    and next_prev: "r_next R (set_r_prev R p v w) = r_next R w"
    and prev_prev: "a \<in> alive w \<Longrightarrow> r_prev R (set_r_prev R (Some a) v w) = (r_prev R w)(a := v)"
    and prev_next: "r_prev R (set_r_next R p v w) = r_prev R w"
    and links_head: "r_next R (set_ring_head R h w) = r_next R w" "r_prev R (set_ring_head R h w) = r_prev R w"
    and head_head: "ring_head R (set_ring_head R h w) = h"
    and head_links: "ring_head R (set_r_next R p v w) = ring_head R w" "ring_head R (set_r_prev R p v w) = ring_head R w"
    and alive_same: "alive (set_r_next R p v w) = alive w" "alive (set_r_prev R p v w) = alive w" "alive (set_ring_head R h w) = alive w"
    and rest_same: "rest (set_r_next R p v w) = rest w" "rest (set_r_prev R p v w) = rest w" "rest (set_ring_head R h w) = rest w"
begin

lemmas laws = next_next next_prev prev_prev prev_next links_head head_head head_links alive_same rest_same

definition holds :: "'w \<Rightarrow> nat list \<Rightarrow> bool" where
  "holds w xs \<longleftrightarrow> ring (r_next R w) (r_prev R w) xs \<and> ring_head R w = first_of xs \<and> set xs \<subseteq> alive w"

text \<open>Links outside a set of elements, and everything else, stay as they are.\<close>

definition only_links :: "nat set \<Rightarrow> 'w \<Rightarrow> 'w \<Rightarrow> bool" where
  "only_links A w w' \<longleftrightarrow> (\<forall>b. b \<notin> A \<longrightarrow> r_next R w' b = r_next R w b \<and> r_prev R w' b = r_prev R w b) \<and> rest w' = rest w \<and> alive w' = alive w"

lemma insert_holds:
  assumes "holds w xs" "a \<notin> set xs" "a \<in> alive w"
  shows "holds (RING_INSERT R a w) (xs @ [a]) \<and> only_links (insert a (set xs)) w (RING_INSERT R a w)"
proof (cases "xs = []")
  case True
  then show ?thesis using assms by (simp add: holds_def only_links_def RING_INSERT_def laws ring_def)
next
  case False
  have p: "r_prev R w (hd xs) = Some (last xs)" using assms(1) False by (simp add: holds_def ring_def)
  have m: "hd xs \<in> set xs" "last xs \<in> set xs" using False by simp_all
  then have al: "hd xs \<in> alive w" "last xs \<in> alive w" using assms(1) by (auto simp: holds_def)
  have n: "hd xs \<noteq> a" "last xs \<noteq> a" using assms(2) m by auto
  show ?thesis
    using ring_insert [of "r_next R w" "r_prev R w" xs a] assms False al n p m
    by (auto simp: holds_def only_links_def RING_INSERT_def Let_def laws fun_upd_twist)
qed

lemma remove_holds:
  assumes "holds w (us @ a # vs)"
  shows "holds (RING_REMOVE R a w) (us @ vs) \<and> only_links (set (us @ a # vs)) w (RING_REMOVE R a w)
     \<and> r_next R (RING_REMOVE R a w) a = None"
proof -
  have r: "ring (r_next R w) (r_prev R w) (a # vs @ us)" using assms ring_rotate [of _ _ us "a # vs"] by (simp add: holds_def)
  have h: "ring_head R w = Some (hd (us @ [a]))" "a \<notin> set (us @ vs)" "a \<in> alive w" "set (us @ vs) \<subseteq> alive w"
    using assms by (auto simp: holds_def ring_def hd_append)
  show ?thesis
  proof (cases "vs @ us = []")
    case True
    then show ?thesis using r h by (simp add: holds_def only_links_def ring_def RING_REMOVE_def Let_def laws)
  next
    case False
    let ?ws = "vs @ us"
    note nb = ring_neighbours [OF r False]
    have ws: "hd ?ws \<in> set ?ws" "last ?ws \<in> set ?ws" using False by (meson hd_in_set last_in_set)+
    have al: "hd ?ws \<in> alive w" "last ?ws \<in> alive w" and ne: "hd ?ws \<noteq> a" "last ?ws \<noteq> a" using ws h(2,4) by auto
    define v where "v = set_r_next R (Some (last ?ws)) (Some (hd ?ws)) (set_r_prev R (Some (hd ?ws)) (Some (last ?ws)) w)"
    have v: "r_next R v = (r_next R w)(last ?ws := Some (hd ?ws))" "r_prev R v = (r_prev R w)(hd ?ws := Some (last ?ws))"
      "alive v = alive w" "ring_head R v = ring_head R w" "rest v = rest w"
      using al by (simp_all add: v_def laws)
    define w' where "w' = RING_REMOVE R a w"
    have w': "w' = set_r_next R (Some a) None (set_r_prev R (Some a) None (if ring_head R w = Some a then set_ring_head R (Some (hd ?ws)) v else v))"
      using nb ne al by (simp add: w'_def RING_REMOVE_def Let_def laws v_def)
    have l: "r_next R w' = ((r_next R w)(last ?ws := Some (hd ?ws)))(a := None)" "r_prev R w' = ((r_prev R w)(hd ?ws := Some (last ?ws)))(a := None)"
      "ring_head R w' = (if us = [] then Some (hd ?ws) else Some (hd us))" "alive w' = alive w" "rest w' = rest w"
      using h unfolding w' by (auto simp: laws v hd_append)
    have "ring (r_next R w') (r_prev R w') ?ws" by (rule ring_delete [OF r False l(1,2)])
    then have "ring (r_next R w') (r_prev R w') (us @ vs)" using ring_rotate by blast
    then show ?thesis using l False h ws by (auto simp: holds_def only_links_def w'_def [symmetric] hd_append)
  qed
qed

text \<open>The walk from the middle of the ring.\<close>

lemma count_from:
  assumes "holds w (us @ p # vs)"
  shows "ring_count R matches w (hd (us @ [p])) p n = Some (n + int (length (filter matches (p # vs))))"
  using assms
proof (induction vs arbitrary: us p n)
  case Nil
  then have "r_next R w p = Some (hd (us @ [p]))" by (simp add: holds_def ring_def)
  then show ?case by (subst ring_count.simps) simp
next
  case (Cons q vs)
  have "chain (r_next R w) (r_prev R w) (p # q # vs)" "distinct (us @ p # q # vs)"
    using Cons.prems by (simp_all add: holds_def ring_def chain_append)
  moreover have "hd (us @ [p]) \<in> set (us @ [p])" by (intro hd_in_set) simp
  ultimately have c: "r_next R w p = Some q" "q \<noteq> hd (us @ [p])" by auto
  have "hd (us @ [p]) = hd ((us @ [p]) @ [q])" by (simp add: hd_append)
  then show ?case using c Cons.IH [of "us @ [p]" q "if matches p then n + 1 else n"] Cons.prems by (subst ring_count.simps) simp
qed

lemma count_holds: "holds w xs \<Longrightarrow> RING_COUNTBY R matches w = Some (int (length (filter matches xs)))"
  using count_from [of w "[]" "hd xs" "tl xs" matches 0] by (cases xs) (simp_all add: RING_COUNTBY_def holds_def)

lemma size_holds: "holds w xs \<Longrightarrow> RING_GETSIZE R w = Some (int (length xs))"
  using count_holds [of w xs "\<lambda>_. True"] by (simp add: RING_GETSIZE_def RING_COUNTBY_def)

text \<open>A ring is not disturbed by changes to the links of other elements.\<close>

lemma holds_frame:
  assumes "holds w xs" "A \<inter> set xs = {}" "ring_head R w' = ring_head R w" "alive w' = alive w"
    "\<And>b. b \<notin> A \<Longrightarrow> r_next R w' b = r_next R w b \<and> r_prev R w' b = r_prev R w b"
  shows "holds w' xs"
proof -
  have "\<forall>b \<in> set xs. r_next R w' b = r_next R w b \<and> r_prev R w' b = r_prev R w b" using assms(2,5) by auto
  from ring_cong [OF this] show ?thesis using assms(1,3,4) by (simp add: holds_def)
qed

end

end
