(* ===== verification/FetchManager.thy ===== *)
theory FetchManager
  imports RingMacros FetchCore "HOL-Library.Monad_Syntax"
begin

text \<open>
  The fetch manager of the core, \<open>content/fetch.c\<close>: it accepts fetches from its clients, queues
  them, hands them to the fetcher of their scheme as the limits permit, passes on the messages of
  the fetchers and frees a fetch when its fetcher is done with it.

  A fetch is a node of the store \<open>fw_heap\<close>, in the ring \<open>queue_ring\<close> until it is dispatched and in
  \<open>fetch_ring\<close> then. Operations are option-valued: \<open>None\<close> is the use of a null or freed pointer, or a failed \<open>assert\<close>.
  What the fetchers do and are asked to do, and what the clients are told, is the trace
  \<open>fw_trace\<close>; the decisions of fetchers and clients, which are not part of this file, are functions
  of the trace so far, so they can be those of any program. Interned strings are compared by their
  text (see \<open>Wapcaplet\<close>). A client's callback and its private pointer are one number.
\<close>

section \<open>State\<close>

definition MAX_FETCHERS :: nat where "MAX_FETCHERS = 10"
definition SCHEDULE_TIME :: int where "SCHEDULE_TIME = 10"
definition FDSET_TIMEOUT :: int where "FDSET_TIMEOUT = 1000"

text \<open>\<open>fetch_msg_type\<close>, by position, of the messages the fetchers of the port send.\<close>

fun msg_type :: "fetch_msg \<Rightarrow> nat" where
  "msg_type (FETCH_HEADER _) = 2"
| "msg_type (FETCH_DATA _) = 3"
| "msg_type FETCH_FINISHED = 4"
| "msg_type (FETCH_ERROR _) = 6"
| "msg_type (FETCH_REDIRECT _) = 7"

definition FETCH_MIN_FINISHED_MSG :: nat where "FETCH_MIN_FINISHED_MSG = msg_type FETCH_FINISHED"
definition FETCH__INTERNAL_ABORTED :: nat where "FETCH__INTERNAL_ABORTED = msg_type (FETCH_ERROR None)"

record scheme_fetcher =
  sch_scheme :: "string option"
  sch_ops :: nat
  sch_refcount :: int

record core_fetch =
  cf_client :: nat
  cf_url :: nsurl
  cf_referer :: "nsurl option"
  cf_verifiable :: bool
  cf_host :: "string option"
  cf_http_code :: int
  cf_fetcherd :: nat
  cf_handle :: nat
  cf_active :: bool
  cf_last_msg :: nat
  cf_r_prev :: "nat option"
  cf_r_next :: "nat option"

datatype fetch_trace =
    FetcherInitialise nat
  | FetcherFinalise nat
  | FetchSetup nat nat "nat option"
  | FetchStart nat nat bool
  | FetchAbort nat
  | FetchFreed nat
  | FetcherPoll nat
  | ToClient nat nat fetch_msg
  | SchedulePoll int
  | SetCookie string nsurl "nsurl option"

record fetch_world =
  fw_heap :: "nat \<Rightarrow> core_fetch option"
  queue_ring :: "nat option"
  fetch_ring :: "nat option"
  fetchers :: "scheme_fetcher list"
  fw_trace :: "fetch_trace list"

text \<open>What a client may do when it gets a message: start, abort or take over a fetch.\<close>

datatype client_op = ClientStart nsurl "nsurl option" nat bool | ClientAbort nat | ClientTakeOver nat nat

text \<open>
  The surroundings: memory allocation, the operations of the fetchers by their descriptor
  (\<open>fetcher_operation_table\<close>), the reactions of clients, and the two options. The result of
  \<open>fe_poll\<close> is what the fetcher does while it is polled; that of \<open>fe_fdset\<close> is \<open>None\<close> for a fetcher
  without that operation.
\<close>

record fetch_env =
  fe_calloc :: "(nat \<Rightarrow> core_fetch option) \<Rightarrow> nat option"
  fe_initialise :: "fetch_trace list \<Rightarrow> nat \<Rightarrow> bool"
  fe_acceptable :: "nat \<Rightarrow> nsurl \<Rightarrow> bool"
  fe_setup :: "fetch_trace list \<Rightarrow> nat \<Rightarrow> nat \<Rightarrow> nsurl \<Rightarrow> nat option"
  fe_start :: "fetch_trace list \<Rightarrow> nat \<Rightarrow> nat \<Rightarrow> bool"
  fe_poll :: "fetch_trace list \<Rightarrow> nat \<Rightarrow> fetch_ev list"
  fe_fdset :: "fetch_trace list \<Rightarrow> nat \<Rightarrow> int option"
  fe_reacts :: "fetch_trace list \<Rightarrow> client_op list"
  max_fetchers :: int
  max_fetchers_per_host :: int

definition trace :: "fetch_trace list \<Rightarrow> fetch_world \<Rightarrow> fetch_world" where
  "trace es w = w\<lparr>fw_trace := fw_trace w @ es\<rparr>"

definition fetch_update :: "nat \<Rightarrow> (core_fetch \<Rightarrow> core_fetch) \<Rightarrow> fetch_world \<Rightarrow> fetch_world" where
  "fetch_update f g w = w\<lparr>fw_heap := (fw_heap w)(f := map_option g (fw_heap w f))\<rparr>"

definition fetch_link :: "(nat option \<Rightarrow> core_fetch \<Rightarrow> core_fetch) \<Rightarrow> nat option \<Rightarrow> nat option \<Rightarrow> fetch_world \<Rightarrow> fetch_world" where
  "fetch_link g p v w = (case p of None \<Rightarrow> w | Some f \<Rightarrow> fetch_update f (g v) w)"

text \<open>The two rings, as the macros of \<open>utils/ring.h\<close> see them.\<close>

definition queue :: "fetch_world ring_var" where
  "queue = \<lparr>ring_head = queue_ring, set_ring_head = (\<lambda>h w. w\<lparr>queue_ring := h\<rparr>),
     r_next = (\<lambda>w f. Option.bind (fw_heap w f) cf_r_next), set_r_next = fetch_link (\<lambda>v c. c\<lparr>cf_r_next := v\<rparr>),
     r_prev = (\<lambda>w f. Option.bind (fw_heap w f) cf_r_prev), set_r_prev = fetch_link (\<lambda>v c. c\<lparr>cf_r_prev := v\<rparr>)\<rparr>"

definition active :: "fetch_world ring_var" where
  "active = queue\<lparr>ring_head := fetch_ring, set_ring_head := (\<lambda>h w. w\<lparr>fetch_ring := h\<rparr>)\<rparr>"

section \<open>Fetchers\<close>

definition fetch_ref_fetcher :: "nat \<Rightarrow> fetch_world \<Rightarrow> fetch_world" where
  "fetch_ref_fetcher fd w = w\<lparr>fetchers := (fetchers w)[fd := (fetchers w ! fd)\<lparr>sch_refcount := sch_refcount (fetchers w ! fd) + 1\<rparr>]\<rparr>"

definition fetch_unref_fetcher :: "nat \<Rightarrow> fetch_world \<Rightarrow> fetch_world" where
  "fetch_unref_fetcher fd w =
     (let w1 = w\<lparr>fetchers := (fetchers w)[fd := (fetchers w ! fd)\<lparr>sch_refcount := sch_refcount (fetchers w ! fd) - 1\<rparr>]\<rparr>
      in if sch_refcount (fetchers w1 ! fd) = 0 then trace [FetcherFinalise fd] w1 else w1)"

definition get_fetcher_for_scheme :: "string option \<Rightarrow> fetch_world \<Rightarrow> nat option" where
  "get_fetcher_for_scheme scheme w =
     find (\<lambda>fd. sch_refcount (fetchers w ! fd) > 0 \<and> sch_scheme (fetchers w ! fd) = scheme) [0..<MAX_FETCHERS]"

definition fetcher_add :: "fetch_env \<Rightarrow> string option \<Rightarrow> nat \<Rightarrow> fetch_world \<Rightarrow> nserror \<times> fetch_world" where
  "fetcher_add env scheme ops w =
     (case find (\<lambda>fd. sch_refcount (fetchers w ! fd) = 0) [0..<MAX_FETCHERS] of
        None \<Rightarrow> (NSERROR_INIT_FAILED, w)
      | Some fd \<Rightarrow>
          (let w1 = trace [FetcherInitialise ops] w in
           if \<not> fe_initialise env (fw_trace w) ops then (NSERROR_INIT_FAILED, w1)
           else (NSERROR_OK, fetch_ref_fetcher fd
             (w1\<lparr>fetchers := (fetchers w)[fd := (fetchers w ! fd)\<lparr>sch_scheme := scheme, sch_ops := ops\<rparr>]\<rparr>))))"

definition fetcher_quit :: "fetch_world \<Rightarrow> fetch_world" where
  "fetcher_quit w0 =
     fold (\<lambda>fd w.
         (let w1 = (if sch_refcount (fetchers w ! fd) > 1
                    then w\<lparr>fetchers := (fetchers w)[fd := (fetchers w ! fd)\<lparr>sch_refcount := 1\<rparr>]\<rparr> else w)
          in if sch_refcount (fetchers w1 ! fd) = 1 then fetch_unref_fetcher fd w1 else w1))
       [0..<MAX_FETCHERS] w0"

section \<open>Dispatching\<close>

definition fetch_dispatch_job :: "fetch_env \<Rightarrow> nat \<Rightarrow> fetch_world \<Rightarrow> (bool \<times> fetch_world) option" where
  "fetch_dispatch_job env f w =
     do { c \<leftarrow> fw_heap w f;
          let w1 = RING_REMOVE queue f w;
          let ok = fe_start env (fw_trace w1) (cf_fetcherd c) (cf_handle c);
          let w2 = trace [FetchStart (cf_fetcherd c) (cf_handle c) ok] w1;
          Some (if \<not> ok then (False, RING_INSERT queue f w2)
                else (True, fetch_update f (\<lambda>c. c\<lparr>cf_active := True\<rparr>) (RING_INSERT active f w2))) }"

definition same_host :: "fetch_world \<Rightarrow> string option \<Rightarrow> nat \<Rightarrow> bool" where
  "same_host w host f \<longleftrightarrow> (case fw_heap w f of None \<Rightarrow> False | Some c \<Rightarrow> cf_host c = host)"

text \<open>Skipping over the items behind \<open>item\<close> with the same host, up to the end of the queue.\<close>

partial_function (option) skip_same_host :: "fetch_world \<Rightarrow> nat \<Rightarrow> nat \<Rightarrow> nat option" where
  "skip_same_host w start item =
     do { c \<leftarrow> fw_heap w item;
          n \<leftarrow> cf_r_next c;
          (if n = start then Some item
           else if same_host w (cf_host c) n then skip_same_host w start n
           else Some item) }"

declare skip_same_host.simps [code]

partial_function (option) choose_from :: "fetch_env \<Rightarrow> fetch_world \<Rightarrow> nat \<Rightarrow> nat \<Rightarrow> (bool \<times> fetch_world) option" where
  "choose_from env w start item =
     do { c \<leftarrow> fw_heap w item;
          countbyhost \<leftarrow> RING_COUNTBY active (same_host w (cf_host c)) w;
          (if countbyhost < max_fetchers_per_host env then fetch_dispatch_job env item w
           else do { last \<leftarrow> skip_same_host w start item;
                     next \<leftarrow> r_next queue w last;
                     (if next = start then Some (False, w) else choose_from env w start next) }) }"

declare choose_from.simps [code]

definition fetch_choose_and_dispatch :: "fetch_env \<Rightarrow> fetch_world \<Rightarrow> (bool \<times> fetch_world) option" where
  "fetch_choose_and_dispatch env w = do { start \<leftarrow> queue_ring w; choose_from env w start start }"

text \<open>The loop of \<open>fetch_dispatch_jobs\<close>; the result is the number of active fetches it has counted.\<close>

fun dispatch_loop :: "fetch_env \<Rightarrow> nat \<Rightarrow> int \<Rightarrow> fetch_world \<Rightarrow> (int \<times> fetch_world) option" where
  "dispatch_loop env 0 all_active w = Some (all_active, w)"
| "dispatch_loop env (Suc all_queued) all_active w =
     (if all_active < max_fetchers env
      then do { (ok, w1) \<leftarrow> fetch_choose_and_dispatch env w;
                (if ok then dispatch_loop env all_queued (all_active + 1) w1 else Some (all_active, w1)) }
      else Some (all_active, w))"

definition fetch_dispatch_jobs :: "fetch_env \<Rightarrow> fetch_world \<Rightarrow> (bool \<times> fetch_world) option" where
  "fetch_dispatch_jobs env w =
     do { all_queued \<leftarrow> RING_GETSIZE queue w;
          all_active \<leftarrow> RING_GETSIZE active w;
          (n, w1) \<leftarrow> dispatch_loop env (nat all_queued) all_active w;
          Some (n > 0, w1) }"

section \<open>Starting, aborting, messages\<close>

text \<open>The fields of a fetch that are set when it is made; the others are zero.\<close>

definition new_fetch :: "nat \<Rightarrow> nsurl \<Rightarrow> nsurl option \<Rightarrow> bool \<Rightarrow> nat \<Rightarrow> core_fetch" where
  "new_fetch fd url referer verifiable client =
     \<lparr>cf_client = client, cf_url = url, cf_referer = referer, cf_verifiable = verifiable, cf_host = url_host url, cf_http_code = 0,
      cf_fetcherd = fd, cf_handle = 0, cf_active = False, cf_last_msg = 0, cf_r_prev = None, cf_r_next = None\<rparr>"

definition fetch_start :: "fetch_env \<Rightarrow> nsurl \<Rightarrow> nsurl option \<Rightarrow> nat \<Rightarrow> bool \<Rightarrow> fetch_world \<Rightarrow> ((nserror \<times> nat option) \<times> fetch_world) option" where
  "fetch_start env url referer client verifiable w =
     (case fe_calloc env (fw_heap w) of
        None \<Rightarrow> Some ((NSERROR_NOMEM, None), w)
      | Some f \<Rightarrow>
          (if url_scheme url = None then None
           else case get_fetcher_for_scheme (url_scheme url) w of
             None \<Rightarrow> Some ((NSERROR_NO_FETCH_HANDLER, None), w)
           | Some fd \<Rightarrow>
               (let h = fe_setup env (fw_trace w) fd f url; w1 = trace [FetchSetup fd f h] w in
                case h of
                  None \<Rightarrow> Some ((NSERROR_BAD_URL, None), w1)
                | Some handle \<Rightarrow>
                    (let c = (new_fetch fd url referer verifiable client)\<lparr>cf_handle := handle\<rparr>;
                         w2 = RING_INSERT queue f (fetch_ref_fetcher fd (w1\<lparr>fw_heap := (fw_heap w1)(f \<mapsto> c)\<rparr>))
                     in do { (polling, w3) \<leftarrow> fetch_dispatch_jobs env w2;
                             Some ((NSERROR_OK, Some f), if polling then trace [SchedulePoll 10] w3 else w3) }))))"

definition fetch_abort :: "nat \<Rightarrow> fetch_world \<Rightarrow> fetch_world option" where
  "fetch_abort f w =
     do { c \<leftarrow> fw_heap w f;
          Some (trace [FetchAbort f] (fetch_update f (\<lambda>c. c\<lparr>cf_last_msg := FETCH__INTERNAL_ABORTED\<rparr>) w)) }"

definition fetch_change_callback :: "nat \<Rightarrow> nat \<Rightarrow> fetch_world \<Rightarrow> fetch_world option" where
  "fetch_change_callback f client w = do { c \<leftarrow> fw_heap w f; Some (fetch_update f (\<lambda>c. c\<lparr>cf_client := client\<rparr>) w) }"

definition fetch_http_code :: "nat \<Rightarrow> fetch_world \<Rightarrow> int option" where
  "fetch_http_code f w = map_option cf_http_code (fw_heap w f)"

definition fetch_can_fetch :: "fetch_env \<Rightarrow> nsurl \<Rightarrow> fetch_world \<Rightarrow> bool" where
  "fetch_can_fetch env url w =
     (case get_fetcher_for_scheme (url_scheme url) w of None \<Rightarrow> False | Some fd \<Rightarrow> fe_acceptable env fd url)"

fun client_does :: "fetch_env \<Rightarrow> client_op \<Rightarrow> fetch_world \<Rightarrow> fetch_world option" where
  "client_does env (ClientStart url referer client verifiable) w = map_option snd (fetch_start env url referer client verifiable w)"
| "client_does env (ClientAbort f) w = fetch_abort f w"
| "client_does env (ClientTakeOver f client) w = fetch_change_callback f client w"

fun clients_do :: "fetch_env \<Rightarrow> client_op list \<Rightarrow> fetch_world \<Rightarrow> fetch_world option" where
  "clients_do env [] w = Some w"
| "clients_do env (op # ops) w = do { w1 \<leftarrow> client_does env op w; clients_do env ops w1 }"

text \<open>The message, then what the client does about it.\<close>

definition fetch_send_callback :: "fetch_env \<Rightarrow> fetch_msg \<Rightarrow> nat \<Rightarrow> fetch_world \<Rightarrow> fetch_world option" where
  "fetch_send_callback env msg f w =
     do { c \<leftarrow> fw_heap w f;
          let w1 = (if msg_type msg > cf_last_msg c then fetch_update f (\<lambda>c. c\<lparr>cf_last_msg := msg_type msg\<rparr>) w else w);
          let w2 = trace [ToClient (cf_client c) f msg] w1;
          clients_do env (fe_reacts env (fw_trace w2)) w2 }"

definition fetch_set_http_code :: "nat \<Rightarrow> int \<Rightarrow> fetch_world \<Rightarrow> fetch_world option" where
  "fetch_set_http_code f code w = do { c \<leftarrow> fw_heap w f; Some (fetch_update f (\<lambda>c. c\<lparr>cf_http_code := code\<rparr>) w) }"

definition fetch_set_cookie :: "nat \<Rightarrow> string \<Rightarrow> fetch_world \<Rightarrow> fetch_world option" where
  "fetch_set_cookie f data w =
     do { c \<leftarrow> fw_heap w f;
          Some (if cf_verifiable c then trace [SetCookie data (cf_url c) None] w
                else (case cf_referer c of None \<Rightarrow> w | Some r \<Rightarrow> trace [SetCookie data (cf_url c) (Some r)] w)) }"

section \<open>The end of a fetch\<close>

text \<open>
  \<open>RING_REMOVE\<close> follows \<open>r_next\<close>, which is null when the fetch is in no ring. The macros that count
  the rings afterwards only feed the log.
\<close>

definition fetch_remove_from_queues :: "nat \<Rightarrow> fetch_world \<Rightarrow> fetch_world option" where
  "fetch_remove_from_queues f w =
     do { c \<leftarrow> fw_heap w f;
          next \<leftarrow> cf_r_next c;
          Some (if cf_active c then RING_REMOVE active f w else RING_REMOVE queue f w) }"

definition fetch_free :: "fetch_env \<Rightarrow> nat \<Rightarrow> fetch_world \<Rightarrow> fetch_world option" where
  "fetch_free env f w =
     do { c \<leftarrow> fw_heap w f;
          w1 \<leftarrow> (if cf_last_msg c < FETCH_MIN_FINISHED_MSG
                 then fetch_send_callback env (FETCH_ERROR (Some ''FetchFailedToFinish'')) f w else Some w);
          Some (let w2 = fetch_unref_fetcher (cf_fetcherd c) (trace [FetchFreed f] w1)
                in w2\<lparr>fw_heap := (fw_heap w2)(f := None)\<rparr>) }"

text \<open>What a fetcher does to the manager while it is polled.\<close>

fun fetch_event :: "fetch_env \<Rightarrow> fetch_ev \<Rightarrow> fetch_world \<Rightarrow> fetch_world option" where
  "fetch_event env (Callback f m) w = fetch_send_callback env m f w"
| "fetch_event env (SetHttpCode f code) w = fetch_set_http_code f code w"
| "fetch_event env (RemoveFromQueues f) w = fetch_remove_from_queues f w"
| "fetch_event env (FreeFetch f) w = fetch_free env f w"

fun fetch_events :: "fetch_env \<Rightarrow> fetch_ev list \<Rightarrow> fetch_world \<Rightarrow> fetch_world option" where
  "fetch_events env [] w = Some w"
| "fetch_events env (e # es) w = do { w1 \<leftarrow> fetch_event env e w; fetch_events env es w1 }"

section \<open>Polling\<close>

fun poll_from :: "fetch_env \<Rightarrow> nat list \<Rightarrow> fetch_world \<Rightarrow> fetch_world option" where
  "poll_from env [] w = Some w"
| "poll_from env (fd # fds) w =
     (if sch_refcount (fetchers w ! fd) > 0
      then do { let w1 = trace [FetcherPoll fd] w;
                w2 \<leftarrow> fetch_events env (fe_poll env (fw_trace w1) fd) w1;
                poll_from env fds w2 }
      else poll_from env fds w)"

abbreviation poll_fetchers :: "fetch_env \<Rightarrow> fetch_world \<Rightarrow> fetch_world option" where
  "poll_fetchers env \<equiv> poll_from env [0..<MAX_FETCHERS]"

definition fetcher_poll :: "fetch_env \<Rightarrow> fetch_world \<Rightarrow> fetch_world option" where
  "fetcher_poll env w =
     do { (polling, w1) \<leftarrow> fetch_dispatch_jobs env w;
          (if polling then do { w2 \<leftarrow> poll_fetchers env w1; Some (trace [SchedulePoll SCHEDULE_TIME] w2) } else Some w1) }"

definition fetch_pump :: "fetch_env \<Rightarrow> fetch_world \<Rightarrow> fetch_world option" where
  "fetch_pump env w = do { (polling, w1) \<leftarrow> fetch_dispatch_jobs env w; poll_fetchers env w1 }"

text \<open>The largest descriptor over the fetchers that have the operation.\<close>

definition fdset_max :: "fetch_env \<Rightarrow> fetch_world \<Rightarrow> int" where
  "fdset_max env w =
     fold (\<lambda>fd maxfd.
         if sch_refcount (fetchers w ! fd) > 0
         then (case fe_fdset env (fw_trace w) fd of None \<Rightarrow> maxfd | Some n \<Rightarrow> if n > maxfd then n else maxfd)
         else maxfd)
       [0..<MAX_FETCHERS] (-1)"

definition fetch_fdset :: "fetch_env \<Rightarrow> fetch_world \<Rightarrow> (int \<times> fetch_world) option" where
  "fetch_fdset env w =
     do { (polling, w1) \<leftarrow> fetch_dispatch_jobs env w;
          (if \<not> polling then Some (-1, w1)
           else do { w2 \<leftarrow> poll_fetchers env w1;
                     let maxfd = fdset_max env w2;
                     Some (maxfd, if maxfd \<ge> 0 then trace [SchedulePoll FDSET_TIMEOUT] w2 else w2) }) }"

end
