(* ===== verification/FetchManagerInv.thy ===== *)
theory FetchManagerInv
  imports FetchManagerProps
begin

text \<open>
  The invariant of the fetch manager and its preservation by what clients and fetchers do. A
  client is only expected to name fetches that the trace shows alive; memory allocation is only
  expected not to hand out memory that is in use.
\<close>

section \<open>The invariant\<close>

text \<open>The fetches that have been set up and not freed, as the trace shows them.\<close>

fun live_after :: "fetch_trace \<Rightarrow> nat set \<Rightarrow> nat set" where
  "live_after (FetchSetup fd f (Some h)) L = insert f L"
| "live_after (FetchFreed f) L = L - {f}"
| "live_after _ L = L"

definition live_in :: "fetch_trace list \<Rightarrow> nat set" where
  "live_in tr = fold live_after tr {}"

lemma live_in_snoc [simp]: "live_in (tr @ [e]) = live_after e (live_in tr)"
  by (simp add: live_in_def)

lemma live_in_append: "live_in (tr @ es) = fold live_after es (live_in tr)"
  by (simp add: live_in_def)

definition users :: "fetch_world \<Rightarrow> nat \<Rightarrow> nat set" where
  "users w fd = {f \<in> live w. fst (job_of w f) = fd}"

text \<open>A registered fetcher has one reference of its own and one for each fetch that uses it.\<close>

definition refs_ok :: "fetch_world \<Rightarrow> bool" where
  "refs_ok w \<longleftrightarrow> length (fetchers w) = MAX_FETCHERS \<and> (\<forall>f \<in> live w. fst (job_of w f) < MAX_FETCHERS)
     \<and> (\<forall>fd < MAX_FETCHERS. sch_refcount (fetchers w ! fd) = int (card (users w fd)) + 1
          \<or> sch_refcount (fetchers w ! fd) = 0 \<and> users w fd = {})"

definition fm_ok :: "fetch_env \<Rightarrow> fetch_world \<Rightarrow> nat list \<Rightarrow> nat list \<Rightarrow> bool" where
  "fm_ok env w qs fs \<longleftrightarrow> rings w qs fs \<and> flags w qs fs \<and> in_limits env (host_of w) fs \<and> finite (live w)
     \<and> live w = live_in (fw_trace w) \<and> refs_ok w"

lemma fm_okD:
  assumes "fm_ok env w qs fs"
  shows "rings w qs fs" "flags w qs fs" "in_limits env (host_of w) fs" "finite (live w)" "live w = live_in (fw_trace w)" "refs_ok w"
  using assms unfolding fm_ok_def by blast+

fun allowed :: "nat set \<Rightarrow> client_op \<Rightarrow> bool" where
  "allowed L (ClientStart url referer client verifiable) \<longleftrightarrow> url_scheme url \<noteq> None"
| "allowed L (ClientAbort f) \<longleftrightarrow> f \<in> L"
| "allowed L (ClientTakeOver f client) \<longleftrightarrow> f \<in> L"

definition env_ok :: "fetch_env \<Rightarrow> bool" where
  "env_ok env \<longleftrightarrow> (\<forall>h a. fe_calloc env h = Some a \<longrightarrow> h a = None) \<and> (\<forall>tr. \<forall>op \<in> set (fe_reacts env tr). allowed (live_in tr) op)"

text \<open>The messages to clients and the frees in a trace, and what events ask for.\<close>

fun told :: "fetch_trace list \<Rightarrow> (nat \<times> fetch_msg) list" where
  "told [] = []"
| "told (ToClient client f m # tr) = (f, m) # told tr"
| "told (_ # tr) = told tr"

fun freed :: "fetch_trace list \<Rightarrow> nat list" where
  "freed [] = []"
| "freed (FetchFreed f # tr) = f # freed tr"
| "freed (_ # tr) = freed tr"

lemma told_append [simp]: "told (a @ b) = told a @ told b" by (induction a rule: told.induct) simp_all
lemma freed_append [simp]: "freed (a @ b) = freed a @ freed b" by (induction a rule: freed.induct) simp_all

definition last_msg :: "fetch_world \<Rightarrow> nat \<Rightarrow> nat" where
  "last_msg w f = (case fw_heap w f of None \<Rightarrow> 0 | Some c \<Rightarrow> cf_last_msg c)"

text \<open>
  What clients can change: new fetches appear, fetches get dispatched, but none is freed, taken
  out of the rings or told anything, and none becomes unfinished.
\<close>

definition grows :: "fetch_world \<Rightarrow> nat list \<Rightarrow> nat list \<Rightarrow> fetch_world \<Rightarrow> nat list \<Rightarrow> nat list \<Rightarrow> bool" where
  "grows w qs fs w' qs' fs' \<longleftrightarrow> set (qs @ fs) \<subseteq> set (qs' @ fs') \<and> live w' - set (qs' @ fs') = live w - set (qs @ fs)
     \<and> (\<exists>es. fw_trace w' = fw_trace w @ es \<and> told es = [] \<and> freed es = [])
     \<and> (\<forall>f \<in> live w. f \<in> live w' \<and> job_of w' f = job_of w f \<and> (FETCH_MIN_FINISHED_MSG \<le> last_msg w f \<longrightarrow> FETCH_MIN_FINISHED_MSG \<le> last_msg w' f))"

lemma growsI:
  assumes "set (qs @ fs) \<subseteq> set (qs' @ fs')" "live w' - set (qs' @ fs') = live w - set (qs @ fs)"
    "\<exists>es. fw_trace w' = fw_trace w @ es \<and> told es = [] \<and> freed es = []"
    "\<And>f. f \<in> live w \<Longrightarrow> f \<in> live w' \<and> job_of w' f = job_of w f \<and> (FETCH_MIN_FINISHED_MSG \<le> last_msg w f \<longrightarrow> FETCH_MIN_FINISHED_MSG \<le> last_msg w' f)"
  shows "grows w qs fs w' qs' fs'"
  unfolding grows_def by (intro conjI ballI assms) (use assms(4) in simp_all)

lemma grows_refl [simp]: "grows w qs fs w qs fs"
  by (auto simp: grows_def)

lemma grows_trans:
  assumes "grows w qs fs w1 qs1 fs1" "grows w1 qs1 fs1 w2 qs2 fs2"
  shows "grows w qs fs w2 qs2 fs2"
proof -
  obtain es1 es2 where e: "fw_trace w1 = fw_trace w @ es1" "told es1 = []" "freed es1 = []" "fw_trace w2 = fw_trace w1 @ es2" "told es2 = []" "freed es2 = []"
    using assms unfolding grows_def by blast
  have h1: "\<exists>es. fw_trace w2 = fw_trace w @ es \<and> told es = [] \<and> freed es = []" using e by (intro exI [of _ "es1 @ es2"]) simp
  have h2: "f \<in> live w2 \<and> job_of w2 f = job_of w f \<and> (FETCH_MIN_FINISHED_MSG \<le> last_msg w f \<longrightarrow> FETCH_MIN_FINISHED_MSG \<le> last_msg w2 f)"
    if "f \<in> live w" for f
  proof -
    from that have "f \<in> live w1" "job_of w1 f = job_of w f" "FETCH_MIN_FINISHED_MSG \<le> last_msg w f \<longrightarrow> FETCH_MIN_FINISHED_MSG \<le> last_msg w1 f"
      using assms(1) by (simp_all add: grows_def)
    then show ?thesis using assms(2) by (simp add: grows_def)
  qed
  have g1: "set (qs @ fs) \<subseteq> set (qs1 @ fs1)" "live w1 - set (qs1 @ fs1) = live w - set (qs @ fs)" using assms(1) by (simp_all only: grows_def)
  have g2: "set (qs1 @ fs1) \<subseteq> set (qs2 @ fs2)" "live w2 - set (qs2 @ fs2) = live w1 - set (qs1 @ fs1)" using assms(2) by (simp_all only: grows_def)
  show ?thesis by (rule growsI [OF order_trans [OF g1(1) g2(1)] trans [OF g2(2) g1(2)] h1 h2])
qed

section \<open>Dispatching keeps it\<close>

text \<open>Dispatching only adds starts to the trace.\<close>

lemma spec_trace:
  "dispatch_spec env host job k qs fs tr = (qs', fs', tr') \<Longrightarrow>
     \<exists>es. tr' = tr @ es \<and> told es = [] \<and> freed es = [] \<and> (\<forall>L. fold live_after es L = L)"
proof (induction k arbitrary: qs fs tr)
  case (Suc k)
  show ?case
  proof (cases "int (length fs) < max_fetchers env \<and> find (\<lambda>f. int (length (filter (\<lambda>g. host g = host f) fs)) < max_fetchers_per_host env) qs \<noteq> None")
    case True
    then obtain f where f: "find (\<lambda>f. int (length (filter (\<lambda>g. host g = host f) fs)) < max_fetchers_per_host env) qs = Some f" by blast
    define ok where "ok = fe_start env tr (fst (job f)) (snd (job f))"
    define e where "e = FetchStart (fst (job f)) (snd (job f)) ok"
    have "\<exists>es. tr' = (tr @ [e]) @ es \<and> told es = [] \<and> freed es = [] \<and> (\<forall>L. fold live_after es L = L)"
    proof (cases ok)
      case True2: True
      then show ?thesis using Suc.prems True f Suc.IH [of "remove1 f qs" "fs @ [f]" "tr @ [e]"] by (simp add: Let_def ok_def e_def)
    next
      case False
      then have "tr' = tr @ [e]" using Suc.prems True f by (simp add: Let_def ok_def e_def)
      then show ?thesis by (intro exI [of _ "[]"]) simp
    qed
    then obtain es where "tr' = (tr @ [e]) @ es" "told es = []" "freed es = []" "\<forall>L. fold live_after es L = L" by blast
    then show ?thesis by (intro exI [of _ "e # es"]) (simp add: e_def)
  next
    case False
    then have "tr' = tr" using Suc.prems by (auto split: if_splits)
    then show ?thesis by simp
  qed
qed simp

lemma refs_ok_same: "inert w' = inert w \<Longrightarrow> fetchers w' = fetchers w \<Longrightarrow> refs_ok w' = refs_ok w"
  using inert_same [of w' w] by (simp add: refs_ok_def users_def)

lemma last_msg_inert: "last_msg w f = (case inert w f of None \<Rightarrow> 0 | Some c \<Rightarrow> cf_last_msg c)"
  by (simp add: last_msg_def inert_def split: option.splits)

lemma dispatch_full:
  assumes "rings w qs fs" "flags w qs fs" "in_limits env (host_of w) fs" "finite (live w)" "live w = live_in (fw_trace w)" "refs_ok w"
  shows "\<exists>w' qs' fs'. fetch_dispatch_jobs env w = Some (fs' \<noteq> [], w') \<and> fm_ok env w' qs' fs' \<and> grows w qs fs w' qs' fs'
     \<and> mset qs' + mset fs' = mset qs + mset fs
     \<and> dispatch_spec env (host_of w) (job_of w) (length qs) qs fs (fw_trace w) = (qs', fs', fw_trace w') \<and> inert w' = inert w \<and> fetchers w' = fetchers w"
proof -
  obtain w' qs' fs' where d: "fetch_dispatch_jobs env w = Some (fs' \<noteq> [], w')"
    "dispatch_spec env (host_of w) (job_of w) (length qs) qs fs (fw_trace w) = (qs', fs', fw_trace w')"
    "rings w' qs' fs'" "flags w' qs' fs'" "inert w' = inert w" "fetchers w' = fetchers w"
    using dispatch_jobs_spec [OF assms(1,2)] by blast
  obtain es where es: "fw_trace w' = fw_trace w @ es" "told es = []" "freed es = []" "\<forall>L. fold live_after es L = L"
    using spec_trace [OF d(2)] by blast
  have s: "host_of w' = host_of w" "job_of w' = job_of w" "live w' = live w" using inert_same [OF d(5)] by auto
  have m: "mset qs' + mset fs' = mset qs + mset fs" by (rule spec_mset [OF d(2)])
  then have "set (qs' @ fs') = set (qs @ fs)" by (metis set_mset_mset mset_append)
  moreover have "last_msg w' = last_msg w" by (intro ext) (simp add: last_msg_inert d(5))
  ultimately have "grows w qs fs w' qs' fs'" using es s by (simp add: grows_def)
  moreover have "live w' = live_in (fw_trace w')" using es s assms(5) by (simp add: live_in_append)
  ultimately show ?thesis using d m s assms(4,6) spec_in_limits [OF d(2) assms(3)] refs_ok_same [OF d(5,6)]
    by (auto simp: fm_ok_def)
qed

lemma dispatch_keeps:
  assumes "rings w qs fs" "flags w qs fs" "in_limits env (host_of w) fs" "finite (live w)" "live w = live_in (fw_trace w)" "refs_ok w"
  shows "\<exists>w' qs' fs'. fetch_dispatch_jobs env w = Some (fs' \<noteq> [], w') \<and> fm_ok env w' qs' fs' \<and> grows w qs fs w' qs' fs'
     \<and> mset qs' + mset fs' = mset qs + mset fs"
  using dispatch_full [OF assms] by blast

section \<open>Clients keep it\<close>

lemma ring_insert_other [simp]: "fetchers (RING_INSERT queue f w) = fetchers w" "fw_trace (RING_INSERT queue f w) = fw_trace w"
  by (simp_all add: RING_INSERT_def Let_def queue_def fetch_link_def fetch_update_def split: option.splits)

text \<open>A new fetch, alive but not yet in a ring.\<close>

lemma born:
  assumes "fm_ok env w qs fs" "fw_heap w f = None" "fd < MAX_FETCHERS" "sch_refcount (fetchers w ! fd) > 0"
    and "cf_r_next c = None" "cf_r_prev c = None" "\<not> cf_active c" "cf_fetcherd c = fd"
    and "w2 = fetch_ref_fetcher fd ((trace [FetchSetup fd f (Some h)] w)\<lparr>fw_heap := (fw_heap w)(f \<mapsto> c)\<rparr>)"
  shows "rings w2 qs fs" "f \<in> live w2" "f \<notin> set (qs @ fs)" "flags w2 qs fs" "in_limits env (host_of w2) fs" "finite (live w2)"
    "live w2 = live_in (fw_trace w2)" "refs_ok w2" "fw_trace w2 = fw_trace w @ [FetchSetup fd f (Some h)]"
    "live w2 = insert f (live w)" "\<And>g. g \<in> live w \<Longrightarrow> fw_heap w2 g = fw_heap w g"
proof -
  have i: "rings w qs fs" "flags w qs fs" "in_limits env (host_of w) fs" "finite (live w)" "live w = live_in (fw_trace w)" "refs_ok w"
    by (rule fm_okD [OF assms(1)])+
  note p = rings_parts [OF i(1)]
  have hp: "fw_heap w2 = (fw_heap w)(f \<mapsto> c)" "queue_ring w2 = queue_ring w" "fetch_ring w2 = fetch_ring w"
    "fetchers w2 = (fetchers w)[fd := (fetchers w ! fd)\<lparr>sch_refcount := sch_refcount (fetchers w ! fd) + 1\<rparr>]"
    unfolding assms(9) by (simp_all add: fetch_ref_fetcher_def trace_def)
  show tr: "fw_trace w2 = fw_trace w @ [FetchSetup fd f (Some h)]" unfolding assms(9) by (simp add: fetch_ref_fetcher_def trace_def)
  show lv: "live w2 = insert f (live w)" by (auto simp: hp(1))
  show nf: "f \<notin> set (qs @ fs)" using p(7,8) assms(2) by auto
  show "f \<in> live w2" by (simp add: lv)
  show old: "fw_heap w2 g = fw_heap w g" if "g \<in> live w" for g using that assms(2) hp(1) by auto
  have l: "r_next queue w2 = r_next queue w" "r_prev queue w2 = r_prev queue w"
    using hp(1) assms(2,5,6) by (auto simp: queue_def fun_eq_iff)
  have "set (qs @ fs) \<subseteq> live w2" "\<forall>g \<in> live w2. g \<notin> set (qs @ fs) \<longrightarrow> r_next queue w2 g = None"
    using p(7,8) lv by (auto simp: l p(6)) (use assms(2) in \<open>simp add: queue_def\<close>)
  then show "rings w2 qs fs" using i(1) l hp(2,3) by (simp add: rings_def)
  have m: "g \<in> live w" if "g \<in> set (qs @ fs)" for g using that p(7,8) by auto
  show "flags w2 qs fs" using i(2) m old by (auto simp: flags_def is_active_def)
  have "host_of w2 g = host_of w g" if "g \<in> set fs" for g using m old that by (auto simp: host_of_def)
  then have "filter (\<lambda>g. host_of w2 g = h) fs = filter (\<lambda>g. host_of w g = h) fs" for h by (auto intro: filter_cong)
  then show "in_limits env (host_of w2) fs" using i(3) by (simp add: in_limits_def)
  show "finite (live w2)" using i(4) lv by simp
  show "live w2 = live_in (fw_trace w2)" using i(5) lv tr by simp
  have j: "job_of w2 g = (if g = f then (fd, cf_handle c) else job_of w g)" for g using hp(1) assms(8) by (auto simp: job_of_def)
  have "f \<notin> live w" using assms(2) by auto
  then have u: "users w2 k = (if k = fd then insert f (users w k) else users w k)" for k
    using lv by (auto simp: users_def j)
  moreover have "f \<notin> users w fd" using assms(2) by (auto simp: users_def)
  moreover have "finite (users w fd)" using i(4) by (simp add: users_def)
  ultimately show "refs_ok w2" using i(6) assms(3,4) lv unfolding refs_ok_def hp(4) by (auto simp: nth_list_update j)
qed

lemma fetcher_found:
  assumes "get_fetcher_for_scheme s w = Some fd"
  shows "fd < MAX_FETCHERS" "sch_refcount (fetchers w ! fd) > 0"
  using assms by (auto simp: get_fetcher_for_scheme_def find_Some_iff)

lemma start_keeps:
  assumes "env_ok env" "fm_ok env w qs fs" "url_scheme url \<noteq> None"
  shows "\<exists>r w' qs' fs'. fetch_start env url referer client verifiable w = Some (r, w') \<and> fm_ok env w' qs' fs' \<and> grows w qs fs w' qs' fs'
     \<and> (case snd r of None \<Rightarrow> qs' = qs \<and> fs' = fs \<and> fst r \<noteq> NSERROR_OK
        | Some f \<Rightarrow> fst r = NSERROR_OK \<and> f \<notin> set (qs @ fs) \<and> mset qs' + mset fs' = mset (qs @ [f]) + mset fs)"
proof (cases "fe_calloc env (fw_heap w)")
  case None
  then show ?thesis using assms(2) by (auto simp: fetch_start_def)
next
  case (Some f)
  note calloc = this
  have nf: "fw_heap w f = None" using assms(1) calloc by (simp add: env_ok_def)
  show ?thesis
  proof (cases "get_fetcher_for_scheme (url_scheme url) w")
    case None
    then show ?thesis using assms(2,3) calloc by (auto simp: fetch_start_def)
  next
    case (Some fd)
    note fd = this fetcher_found [OF this]
    show ?thesis
    proof (cases "fe_setup env (fw_trace w) fd f url")
      case None
      define w1 where "w1 = trace [FetchSetup fd f None] w"
      have s: "rings w1 qs fs" "flags w1 qs fs" "host_of w1 = host_of w" "live w1 = live w" "fw_trace w1 = fw_trace w @ [FetchSetup fd f None]"
        using assms(2) by (simp_all add: w1_def fm_ok_def flags_def host_of_def fun_eq_iff)
      have "inert w1 = inert w" "fetchers w1 = fetchers w" by (simp_all add: w1_def)
      then have r: "refs_ok w1" using refs_ok_same [of w1 w] fm_okD(6) [OF assms(2)] by simp
      have "fm_ok env w1 qs fs" using fm_okD [OF assms(2)] s r by (simp add: fm_ok_def)
      moreover have "grows w qs fs w1 qs fs" using s by (simp add: grows_def w1_def job_of_def last_msg_def)
      moreover have "fetch_start env url referer client verifiable w = Some ((NSERROR_BAD_URL, None), w1)"
        using calloc fd None assms(3) by (simp add: fetch_start_def Let_def w1_def)
      ultimately show ?thesis by (intro exI [of _ "(NSERROR_BAD_URL, None)"] exI [of _ w1] exI [of _ qs] exI [of _ fs]) simp
    next
      case (Some h)
      define c where "c = (new_fetch fd url referer verifiable client)\<lparr>cf_handle := h\<rparr>"
      define w2 where "w2 = fetch_ref_fetcher fd ((trace [FetchSetup fd f (Some h)] w)\<lparr>fw_heap := (fw_heap w)(f \<mapsto> c)\<rparr>)"
      have "cf_r_next c = None" "cf_r_prev c = None" "\<not> cf_active c" "cf_fetcherd c = fd" by (simp_all add: c_def new_fetch_def)
      note b = born [OF assms(2) nf fd(2,3) this w2_def]
      define w3 where "w3 = RING_INSERT queue f w2"
      have w3: "rings w3 (qs @ [f]) fs" "same_but_rings w2 w3" using enqueue [OF b(1-3)] by (simp_all add: w3_def)
      then have i3: "inert w3 = inert w2" "is_active w3 = is_active w2" "fetchers w3 = fetchers w2" "fw_trace w3 = fw_trace w2"
        using same_but_rings_inert by blast+
      note s3 = inert_same [OF i3(1)]
      have "\<not> is_active w2 f" by (simp add: is_active_def w2_def fetch_ref_fetcher_def c_def new_fetch_def)
      then have fl: "flags w3 (qs @ [f]) fs" using b(4) i3(2) by (auto simp: flags_def)
      have "in_limits env (host_of w3) fs" "finite (live w3)" "live w3 = live_in (fw_trace w3)" "refs_ok w3"
        using b(5-8) s3 i3(4) refs_ok_same [OF i3(1,3)] by simp_all
      from dispatch_keeps [OF w3(1) fl this]
      obtain w4 qs' fs' where d: "fetch_dispatch_jobs env w3 = Some (fs' \<noteq> [], w4)" "fm_ok env w4 qs' fs'" "grows w3 (qs @ [f]) fs w4 qs' fs'"
        "mset qs' + mset fs' = mset (qs @ [f]) + mset fs"
        by blast
      define w5 where "w5 = (if fs' \<noteq> [] then trace [SchedulePoll 10] w4 else w4)"
      have w5h: "fw_heap w5 = fw_heap w4" "queue_ring w5 = queue_ring w4" "fetch_ring w5 = fetch_ring w4" "fetchers w5 = fetchers w4"
        by (simp_all add: w5_def trace_def)
      have i5: "inert w5 = inert w4" "is_active w5 = is_active w4" "rings w5 qs' fs'" "live_in (fw_trace w5) = live_in (fw_trace w4)"
        using fm_okD(1) [OF d(2)] by (auto simp: w5_def)
      have s5: "host_of w5 = host_of w4" "live w5 = live w4" using inert_same [OF i5(1)] by auto
      have "fm_ok env w5 qs' fs'" using fm_okD [OF d(2)] i5 s5 refs_ok_same [OF i5(1) w5h(4)] by (simp add: fm_ok_def flags_def)
      moreover have "grows w qs fs w5 qs' fs'"
      proof -
        obtain es where es: "fw_trace w4 = fw_trace w3 @ es" "told es = []" "freed es = []" using d(3) unfolding grows_def by blast
        have "\<exists>es. fw_trace w5 = fw_trace w @ es \<and> told es = [] \<and> freed es = []"
          by (intro exI [of _ "FetchSetup fd f (Some h) # es @ (if fs' \<noteq> [] then [SchedulePoll 10] else [])"])
            (simp add: w5_def es i3(4) b(9))
        moreover have "set (qs @ fs) \<subseteq> set (qs' @ fs')" using d(3) by (auto simp: grows_def)
        moreover have "live w5 - set (qs' @ fs') = live w - set (qs @ fs)"
        proof -
          have "live w5 - set (qs' @ fs') = live w3 - set ((qs @ [f]) @ fs)" using d(3) s5(2) unfolding grows_def by simp
          also have "\<dots> = live w - set (qs @ fs)" using s3 b(10) nf by auto
          finally show ?thesis .
        qed
        moreover have "g \<in> live w5 \<and> job_of w5 g = job_of w g \<and> (FETCH_MIN_FINISHED_MSG \<le> last_msg w g \<longrightarrow> FETCH_MIN_FINISHED_MSG \<le> last_msg w5 g)"
          if "g \<in> live w" for g
        proof -
          have "g \<in> live w3" "job_of w3 g = job_of w g" "last_msg w3 g = last_msg w g"
            using that s3 b(10) b(11) [OF that] by (simp_all add: last_msg_inert i3(1) job_of_def from_inert(2)) (simp add: inert_def)
          then show ?thesis using d(3) w5h(1) by (simp add: grows_def job_of_def last_msg_def)
        qed
        ultimately show ?thesis by (intro growsI)
      qed
      moreover have "fetch_start env url referer client verifiable w = Some ((NSERROR_OK, Some f), w5)"
        using calloc fd Some assms(3) d(1) by (simp add: fetch_start_def Let_def w5_def w3_def w2_def c_def trace_def)
      ultimately show ?thesis using b(3) d(4) by (intro exI [of _ "(NSERROR_OK, Some f)"] exI [of _ w5] exI [of _ qs'] exI [of _ fs']) simp
    qed
  qed
qed

text \<open>Changes of a fetch that leave its links, state, host and fetcher alone, and new trace entries.\<close>

lemma update_keeps:
  assumes "fm_ok env w qs fs"
    and g: "\<And>c. cf_r_next (g c) = cf_r_next c \<and> cf_r_prev (g c) = cf_r_prev c \<and> cf_active (g c) = cf_active c
      \<and> cf_host (g c) = cf_host c \<and> cf_fetcherd (g c) = cf_fetcherd c \<and> cf_handle (g c) = cf_handle c"
  shows "fm_ok env (fetch_update f g w) qs fs" "job_of (fetch_update f g w) = job_of w"
proof -
  let ?w = "fetch_update f g w"
  have s: "host_of ?w = host_of w" "job_of ?w = job_of w" "is_active ?w = is_active w"
    using g by (auto simp: fun_eq_iff host_of_def job_of_def is_active_def fetch_update_def split: option.splits)
  then have "refs_ok ?w" using fm_okD(6) [OF assms(1)] by (simp add: refs_ok_def users_def)
  moreover have "rings ?w qs fs" using fm_okD(1) [OF assms(1)] g by (intro rings_update) auto
  ultimately show "fm_ok env ?w qs fs" using fm_okD [OF assms(1)] s by (simp add: fm_ok_def flags_def)
  show "job_of ?w = job_of w" by (rule s(2))
qed

lemma trace_keeps:
  assumes "fm_ok env w qs fs" "\<And>L. fold live_after es L = L"
  shows "fm_ok env (trace es w) qs fs"
proof -
  have s: "host_of (trace es w) = host_of w" by (simp add: fun_eq_iff host_of_def)
  have "refs_ok (trace es w)" using fm_okD(6) [OF assms(1)] refs_ok_same [of "trace es w" w] by simp
  then show ?thesis using fm_okD [OF assms(1)] assms(2) s by (simp add: fm_ok_def flags_def live_in_append)
qed

lemma last_msg_update: "f \<in> live w \<Longrightarrow> last_msg (fetch_update f g w) f' = (if f' = f then cf_last_msg (g (the (fw_heap w f))) else last_msg w f')"
  by (auto simp: last_msg_def fetch_update_def)

lemma finished_codes [simp]: "FETCH_MIN_FINISHED_MSG = 4" "FETCH__INTERNAL_ABORTED = 6"
  by (simp_all add: FETCH_MIN_FINISHED_MSG_def FETCH__INTERNAL_ABORTED_def)

lemma client_keeps:
  assumes "env_ok env" "fm_ok env w qs fs" "allowed (live w) op"
  shows "\<exists>w' qs' fs'. client_does env op w = Some w' \<and> fm_ok env w' qs' fs' \<and> grows w qs fs w' qs' fs'"
proof (cases op)
  case (ClientStart url referer client verifiable)
  then show ?thesis using start_keeps [OF assms(1,2), of url referer client verifiable] assms(3) by fastforce
next
  case (ClientAbort f)
  define w1 where "w1 = fetch_update f (\<lambda>c. c\<lparr>cf_last_msg := FETCH__INTERNAL_ABORTED\<rparr>) w"
  have f: "f \<in> live w" using assms(3) ClientAbort by simp
  have w1: "fm_ok env w1 qs fs" "job_of w1 = job_of w" unfolding w1_def by (rule update_keeps [OF assms(2)], simp)+
  have "fm_ok env (trace [FetchAbort f] w1) qs fs" by (rule trace_keeps [OF w1(1)]) simp
  moreover have "grows w qs fs (trace [FetchAbort f] w1) qs fs"
    using last_msg_update [OF f] w1(2)
    by (intro growsI) (simp_all add: w1_def last_msg_def [of "trace _ _"] last_msg_def [symmetric] job_of_def [of "trace _ _"] job_of_def [symmetric])
  moreover have "client_does env op w = Some (trace [FetchAbort f] w1)" using f ClientAbort by (auto simp: fetch_abort_def w1_def)
  ultimately show ?thesis by blast
next
  case (ClientTakeOver f client)
  define w1 where "w1 = fetch_update f (\<lambda>c. c\<lparr>cf_client := client\<rparr>) w"
  have f: "f \<in> live w" using assms(3) ClientTakeOver by simp
  have w1: "fm_ok env w1 qs fs" "job_of w1 = job_of w" unfolding w1_def by (rule update_keeps [OF assms(2)], simp)+
  moreover have "grows w qs fs w1 qs fs"
    using last_msg_update [OF f] w1(2) f by (intro growsI) (auto simp: w1_def last_msg_def)
  moreover have "client_does env op w = Some w1" using f ClientTakeOver by (auto simp: fetch_change_callback_def w1_def)
  ultimately show ?thesis by blast
qed

lemma allowed_mono: "allowed L op \<Longrightarrow> L \<subseteq> L' \<Longrightarrow> allowed L' op"
  by (cases op) auto

lemma clients_keep:
  assumes "env_ok env" "fm_ok env w qs fs" "\<forall>op \<in> set ops. allowed (live w) op"
  shows "\<exists>w' qs' fs'. clients_do env ops w = Some w' \<and> fm_ok env w' qs' fs' \<and> grows w qs fs w' qs' fs'"
  using assms(2,3)
proof (induction ops arbitrary: w qs fs)
  case Nil
  then show ?case using grows_refl by (intro exI [of _ w] exI [of _ qs] exI [of _ fs]) simp
next
  case (Cons op ops)
  obtain w1 qs1 fs1 where w1: "client_does env op w = Some w1" "fm_ok env w1 qs1 fs1" "grows w qs fs w1 qs1 fs1"
    using client_keeps [OF assms(1) Cons.prems(1), of op] Cons.prems(2) by auto
  have "live w \<subseteq> live w1" using w1(3) unfolding grows_def by blast
  then have "\<forall>op \<in> set ops. allowed (live w1) op" using Cons.prems(2) allowed_mono by fastforce
  from Cons.IH [OF w1(2) this] obtain w2 qs2 fs2 where "clients_do env ops w1 = Some w2" "fm_ok env w2 qs2 fs2" "grows w1 qs1 fs1 w2 qs2 fs2" by blast
  then show ?case using w1 grows_trans [OF w1(3)] by (intro exI [of _ w2] exI [of _ qs2] exI [of _ fs2]) simp
qed

section \<open>Fetchers keep it\<close>

text \<open>What one event of a fetcher does, given what is said and freed by it.\<close>

definition heard :: "fetch_world \<Rightarrow> nat list \<Rightarrow> nat list \<Rightarrow> (nat \<times> fetch_msg) list \<Rightarrow> nat list \<Rightarrow> fetch_world \<Rightarrow> nat list \<Rightarrow> nat list \<Rightarrow> bool" where
  "heard w qs fs ms gone w' qs' fs' \<longleftrightarrow> set (qs @ fs) - set gone \<subseteq> set (qs' @ fs') \<and> live w' - set (qs' @ fs') = live w - set (qs @ fs)
     \<and> (\<exists>es. fw_trace w' = fw_trace w @ es \<and> told es = ms \<and> freed es = gone)"

lemma grows_heard: "grows w qs fs w' qs' fs' \<Longrightarrow> heard w qs fs [] [] w' qs' fs'"
  by (simp add: grows_def heard_def)

lemma heard_trans:
  assumes "heard w qs fs ms gone w1 qs1 fs1" "heard w1 qs1 fs1 ms' gone' w2 qs2 fs2"
  shows "heard w qs fs (ms @ ms') (gone @ gone') w2 qs2 fs2"
proof -
  obtain es1 es2 where e: "fw_trace w1 = fw_trace w @ es1" "told es1 = ms" "freed es1 = gone" "fw_trace w2 = fw_trace w1 @ es2" "told es2 = ms'" "freed es2 = gone'"
    using assms unfolding heard_def by blast
  have "\<exists>es. fw_trace w2 = fw_trace w @ es \<and> told es = ms @ ms' \<and> freed es = gone @ gone'" using e by (intro exI [of _ "es1 @ es2"]) simp
  moreover have "set (qs @ fs) - set (gone @ gone') \<subseteq> set (qs2 @ fs2)" using assms by (auto simp: heard_def)
  moreover have "live w2 - set (qs2 @ fs2) = live w - set (qs @ fs)" using assms by (simp only: heard_def)
  ultimately show ?thesis by (simp only: heard_def)
qed

lemma send_keeps:
  assumes "env_ok env" "fm_ok env w qs fs" "f \<in> live w"
  shows "\<exists>w' qs' fs'. fetch_send_callback env m f w = Some w' \<and> fm_ok env w' qs' fs' \<and> heard w qs fs [(f, m)] [] w' qs' fs'
     \<and> f \<in> live w' \<and> job_of w' f = job_of w f \<and> (FETCH_MIN_FINISHED_MSG \<le> msg_type m \<longrightarrow> FETCH_MIN_FINISHED_MSG \<le> last_msg w' f)"
proof -
  obtain c where c: "fw_heap w f = Some c" using assms(3) by auto
  define w1 where "w1 = (if msg_type m > cf_last_msg c then fetch_update f (\<lambda>c. c\<lparr>cf_last_msg := msg_type m\<rparr>) w else w)"
  have w1: "fm_ok env w1 qs fs" "job_of w1 = job_of w" "live w1 = live w" "fw_trace w1 = fw_trace w"
    using update_keeps [OF assms(2)] assms(2) by (simp_all add: w1_def)
  have l1: "msg_type m \<le> last_msg w1 f" using last_msg_update [OF assms(3)] c by (auto simp: w1_def last_msg_def)
  define w2 where "w2 = trace [ToClient (cf_client c) f m] w1"
  have w2: "fm_ok env w2 qs fs" unfolding w2_def by (rule trace_keeps [OF w1(1)]) simp
  have h2: "heard w qs fs [(f, m)] [] w2 qs fs" using w1 by (simp add: heard_def w2_def)
  have w2h: "fw_heap w2 = fw_heap w1" by (simp add: w2_def)
  have "\<forall>op \<in> set (fe_reacts env (fw_trace w2)). allowed (live w2) op"
    using assms(1) fm_okD(5) [OF w2] by (simp add: env_ok_def)
  from clients_keep [OF assms(1) w2 this] obtain w3 qs3 fs3
    where w3: "clients_do env (fe_reacts env (fw_trace w2)) w2 = Some w3" "fm_ok env w3 qs3 fs3" "grows w2 qs fs w3 qs3 fs3" by blast
  have "f \<in> live w2" using assms(3) w1(3) w2h by simp
  moreover have "job_of w2 f = job_of w f" using fun_cong [OF w1(2), of f] w2h by (simp add: job_of_def)
  ultimately have "f \<in> live w3" "job_of w3 f = job_of w f" "FETCH_MIN_FINISHED_MSG \<le> last_msg w2 f \<longrightarrow> FETCH_MIN_FINISHED_MSG \<le> last_msg w3 f"
    using w3(3) unfolding grows_def by simp_all
  moreover have "last_msg w2 f = last_msg w1 f" by (simp add: last_msg_def w2h)
  moreover have "fetch_send_callback env m f w = Some w3" using c w3(1) by (simp add: fetch_send_callback_def w1_def w2_def)
  ultimately show ?thesis using w3(2) heard_trans [OF h2 grows_heard [OF w3(3)]] l1
    by (intro exI [of _ w3] exI [of _ qs3] exI [of _ fs3]) simp
qed

text \<open>Taking a fetch out of its ring, whichever it is.\<close>

lemma remove_ring:
  assumes "rings w qs fs" "flags w qs fs" "f \<in> set (qs @ fs)"
  shows "\<exists>w1 qs1 fs1. fetch_remove_from_queues f w = Some w1 \<and> rings w1 qs1 fs1 \<and> same_but_rings w w1
     \<and> (\<exists>us vs. qs = us @ f # vs \<and> qs1 = us @ vs \<and> fs1 = fs \<or> fs = us @ f # vs \<and> fs1 = us @ vs \<and> qs1 = qs)"
proof -
  note p = rings_parts [OF assms(1)]
  obtain c where c: "fw_heap w f = Some c" using assms(3) p(7,8) by auto
  show ?thesis
  proof (cases "f \<in> set qs")
    case True
    then obtain us vs where uv: "qs = us @ f # vs" by (meson split_list)
    obtain n where "cf_r_next c = Some n" using next_in_queue [OF assms(1) [unfolded uv]] c by auto
    moreover have "\<not> cf_active c" using assms(2) True c by (auto simp: flags_def is_active_def)
    ultimately show ?thesis using dequeue [OF assms(1) [unfolded uv]] c uv by (auto simp: fetch_remove_from_queues_def)
  next
    case False
    then have f: "f \<in> set fs" using assms(3) by simp
    then obtain us vs where uv: "fs = us @ f # vs" by (meson split_list)
    have "ring (r_next queue w) (r_prev queue w) (us @ f # vs)" using assms(1) uv by (simp add: rings_def)
    then have "r_next queue w f \<noteq> None" by (cases vs) (simp_all add: ring_def chain_append)
    then obtain n where "cf_r_next c = Some n" using c by (auto simp: queue_def)
    moreover have "cf_active c" using assms(2) f c by (auto simp: flags_def is_active_def)
    ultimately show ?thesis using deactivate [OF assms(1) [unfolded uv]] c uv by (auto simp: fetch_remove_from_queues_def)
  qed
qed

lemma release_keeps:
  assumes "fm_ok env w qs fs" "f \<in> set (qs @ fs)" "FETCH_MIN_FINISHED_MSG \<le> last_msg w f"
  shows "\<exists>w1 w2 qs' fs'. fetch_remove_from_queues f w = Some w1 \<and> fetch_free env f w1 = Some w2
     \<and> fm_ok env w2 qs' fs' \<and> heard w qs fs [] [f] w2 qs' fs'"
proof -
  note i = fm_okD [OF assms(1)]
  note p = rings_parts [OF i(1)]
  obtain w1 qs1 fs1 us vs where w1: "fetch_remove_from_queues f w = Some w1" "rings w1 qs1 fs1" "same_but_rings w w1"
    "qs = us @ f # vs \<and> qs1 = us @ vs \<and> fs1 = fs \<or> fs = us @ f # vs \<and> fs1 = us @ vs \<and> qs1 = qs"
    using remove_ring [OF i(1,2) assms(2)] by blast
  have s1: "inert w1 = inert w" "is_active w1 = is_active w" "fetchers w1 = fetchers w" "fw_trace w1 = fw_trace w"
    using same_but_rings_inert [OF w1(3)] by blast+
  note e1 = inert_same [OF s1(1)]
  have sets: "set qs1 \<subseteq> set qs" "set fs1 \<subseteq> set fs" "set (qs1 @ fs1) = set (qs @ fs) - {f}"
    using w1(4) p(3-5) by auto
  have fl: "f \<in> live w" using assms(2) p(7,8) by auto
  then obtain c where c: "fw_heap w1 f = Some c" using e1 by blast
  define fd where "fd = cf_fetcherd c"
  have fd: "fst (job_of w f) = fd" using c e1 by (simp add: job_of_def [of w1] fd_def flip: e1)
  have last: "last_msg w1 f = last_msg w f" by (simp add: last_msg_inert s1(1))
  have users: "f \<in> users w fd" "finite (users w fd)" using fl fd i(4) by (simp_all add: users_def)
  then have uc: "0 < card (users w fd)" using card_gt_0_iff by blast
  have fdl: "fd < MAX_FETCHERS" using i(6) fl fd by (auto simp: refs_ok_def)
  have rc: "sch_refcount (fetchers w ! fd) = int (card (users w fd)) + 1" "fd < length (fetchers w)"
    using i(6) uc fdl by (auto simp: refs_ok_def)
  define w2 where "w2 = (w1\<lparr>fw_trace := fw_trace w1 @ [FetchFreed f],
      fetchers := (fetchers w1)[fd := (fetchers w1 ! fd)\<lparr>sch_refcount := sch_refcount (fetchers w1 ! fd) - 1\<rparr>], fw_heap := (fw_heap w1)(f := None)\<rparr>)"
  have fr: "fetch_free env f w1 = Some w2"
    using c last assms(3) rc uc by (simp add: fetch_free_def fetch_unref_fetcher_def trace_def Let_def s1(3) fd_def [symmetric] last_msg_def w2_def)
  have lv: "live w2 = live w - {f}" using e1 by (auto simp: w2_def)
  have old: "fw_heap w2 g = fw_heap w1 g" if "g \<noteq> f" for g using that by (simp add: w2_def)
  have j: "host_of w2 g = host_of w g" "job_of w2 g = job_of w g" "is_active w2 g = is_active w g" if "g \<noteq> f" for g
    using old [OF that] e1 s1(2) by (simp_all add: host_of_def [of w2] job_of_def [of w2] is_active_def [of w2] flip: host_of_def job_of_def is_active_def)
  have nf: "f \<notin> set (qs1 @ fs1)" using sets(3) by auto
  have "rings w2 qs1 fs1"
  proof -
    have n: "r_next queue w1 f = None" using rings_parts(6) [OF w1(2)] fl e1 nf by simp
    have l: "r_next queue w2 g = r_next queue w1 g" "g \<noteq> f \<Longrightarrow> r_prev queue w2 g = r_prev queue w1 g" for g
      using n by (cases "g = f"; simp add: queue_def w2_def)+
    moreover have "g \<noteq> f" if "g \<in> set qs1 \<or> g \<in> set fs1" for g using that nf by auto
    ultimately have "\<forall>g \<in> set qs1. r_next queue w2 g = r_next queue w1 g \<and> r_prev queue w2 g = r_prev queue w1 g"
      "\<forall>g \<in> set fs1. r_next queue w2 g = r_next queue w1 g \<and> r_prev queue w2 g = r_prev queue w1 g" by simp_all
    note rc = ring_cong [OF this(1)] ring_cong [OF this(2)]
    have "queue_ring w2 = queue_ring w1" "fetch_ring w2 = fetch_ring w1" by (simp_all add: w2_def)
    then show ?thesis using w1(2) lv e1 nf unfolding rings_def rc l(1) by auto
  qed
  moreover have "flags w2 qs1 fs1" using i(2) sets j nf unfolding flags_def by (metis Un_iff set_append subsetD)
  moreover have "in_limits env (host_of w2) fs1"
  proof -
    have "host_of w2 g = host_of w g" if "g \<in> set fs1" for g using that nf by (intro j) auto
    then have "filter (\<lambda>g. host_of w2 g = h) fs1 = filter (\<lambda>g. host_of w g = h) fs1" for h by (simp cong: filter_cong)
    moreover have "length (filter P fs1) \<le> length (filter P fs)" for P using w1(4) by auto
    moreover have "length fs1 \<le> length fs" using w1(4) by auto
    ultimately show ?thesis using i(3) unfolding in_limits_def by (smt (verit) of_nat_le_iff)
  qed
  moreover have "live w2 = live_in (fw_trace w2)" using lv i(5) s1(4) by (simp add: w2_def)
  moreover have "refs_ok w2"
  proof -
    have f: "fetchers w2 = (fetchers w)[fd := (fetchers w ! fd)\<lparr>sch_refcount := sch_refcount (fetchers w ! fd) - 1\<rparr>]" by (simp add: w2_def s1(3))
    have "users w2 k = users w k - {f}" for k unfolding users_def lv using j by auto
    moreover have "f \<notin> users w k" if "k \<noteq> fd" for k using that fd by (simp add: users_def)
    ultimately have u: "users w2 k = (if k = fd then users w k - {f} else users w k)" for k by simp
    then have "card (users w2 fd) = card (users w fd) - 1" using users by simp
    then show ?thesis using i(6) rc lv users uc unfolding refs_ok_def f
      by (auto simp: nth_list_update u j)
  qed
  moreover have "finite (live w2)" using i(4) lv by simp
  ultimately have "fm_ok env w2 qs1 fs1" unfolding fm_ok_def by (intro conjI)
  moreover have "heard w qs fs [] [f] w2 qs1 fs1"
    using sets(3) lv assms(2) by (auto simp: heard_def w2_def s1(4))
  ultimately show ?thesis using w1(1) fr by blast
qed

text \<open>What a disciplined fetcher says arrives, and no freed fetch is touched.\<close>

lemma terminal_code: "terminal m \<Longrightarrow> FETCH_MIN_FINISHED_MSG \<le> msg_type m"
  by (cases m) simp_all

lemma deliveries_keep:
  assumes "env_ok env" "deliveries L evs" "fm_ok env w qs fs" "L \<subseteq> set (qs @ fs)"
  shows "\<exists>w' qs' fs'. fetch_events env evs w = Some w' \<and> fm_ok env w' qs' fs' \<and> heard w qs fs (said evs) (let_go evs) w' qs' fs'"
  using assms(2-4)
proof (induction arbitrary: w qs fs)
  case (none L)
  then show ?case by (intro exI [of _ w] exI [of _ qs] exI [of _ fs]) (simp add: heard_def)
next
  case (running p L e es)
  have p: "p \<in> live w" "p \<in> set (qs @ fs)" using running.prems(2) running.hyps(1) rings_parts(7,8) [OF fm_okD(1) [OF running.prems(1)]] by auto
  obtain w1 qs1 fs1 where w1: "fetch_event env e w = Some w1" "fm_ok env w1 qs1 fs1" "heard w qs fs (said [e]) [] w1 qs1 fs1" "let_go (e # es) = let_go es" "said (e # es) = said [e] @ said es"
  proof (cases e)
    case (Callback q m)
    then show ?thesis using that running.hyps(2) send_keeps [OF assms(1) running.prems(1) p(1), of m] by fastforce
  next
    case (SetHttpCode q code)
    then have q: "q = p" using running.hyps(2) by simp
    have "fm_ok env (fetch_update p (\<lambda>c. c\<lparr>cf_http_code := code\<rparr>) w) qs fs" by (rule update_keeps [OF running.prems(1)]) simp
    then show ?thesis using that [of "fetch_update p (\<lambda>c. c\<lparr>cf_http_code := code\<rparr>) w" qs fs] SetHttpCode q p(1)
      by (auto simp: fetch_set_http_code_def heard_def)
  qed (use running.hyps(2) in simp_all)
  have "L \<subseteq> set (qs1 @ fs1)" using running.prems(2) w1(3) by (auto simp: heard_def)
  from running.IH [OF w1(2) this] obtain w2 qs2 fs2
    where w2: "fetch_events env es w1 = Some w2" "fm_ok env w2 qs2 fs2" "heard w1 qs1 fs1 (said es) (let_go es) w2 qs2 fs2" by blast
  then show ?case using w1 heard_trans [OF w1(3) w2(3)] by (intro exI [of _ w2] exI [of _ qs2] exI [of _ fs2]) simp
next
  case (ending p L m es)
  have p: "p \<in> live w" "p \<in> set (qs @ fs)" using ending.prems(2) ending.hyps(1) rings_parts(7,8) [OF fm_okD(1) [OF ending.prems(1)]] by auto
  from send_keeps [OF assms(1) ending.prems(1) p(1), of m] obtain w1 qs1 fs1
    where w1: "fetch_send_callback env m p w = Some w1" "fm_ok env w1 qs1 fs1" "heard w qs fs [(p, m)] [] w1 qs1 fs1"
      "FETCH_MIN_FINISHED_MSG \<le> last_msg w1 p"
    using terminal_code [OF ending.hyps(2)] by blast
  have "p \<in> set (qs1 @ fs1)" using p(2) w1(3) by (auto simp: heard_def)
  from release_keeps [OF w1(2) this w1(4)] obtain w2 w3 qs3 fs3
    where w3: "fetch_remove_from_queues p w1 = Some w2" "fetch_free env p w2 = Some w3" "fm_ok env w3 qs3 fs3" "heard w1 qs1 fs1 [] [p] w3 qs3 fs3" by blast
  note h13 = heard_trans [OF w1(3) w3(4)]
  have "L - {p} \<subseteq> set (qs3 @ fs3)" using ending.prems(2) h13 by (auto simp: heard_def)
  from ending.IH [OF w3(3) this] obtain w4 qs4 fs4
    where w4: "fetch_events env es w3 = Some w4" "fm_ok env w4 qs4 fs4" "heard w3 qs3 fs3 (said es) (let_go es) w4 qs4 fs4" by blast
  then show ?case using w1(1) w3(1,2) heard_trans [OF h13 w4(3)] by (intro exI [of _ w4] exI [of _ qs4] exI [of _ fs4]) simp
qed

end
