(* ===== verification/FetchSystem.thy ===== *)
theory FetchSystem
  imports FetchManagerInv HttpProps HttpsProps
begin

text \<open>
  The fetch manager and the fetchers of the front end together: the reachable states of the
  manager, and what happens when the events of a poll of the HTTP or the HTTPS fetcher, as those
  theories derive them, are carried out by it.
\<close>

section \<open>Reachable states\<close>

definition no_fetches :: fetch_world where
  "no_fetches = \<lparr>fw_heap = (\<lambda>_. None), queue_ring = None, fetch_ring = None,
     fetchers = replicate MAX_FETCHERS \<lparr>sch_scheme = None, sch_ops = 0, sch_refcount = 0\<rparr>, fw_trace = []\<rparr>"

text \<open>A fetch that its fetcher still has: it is in one of the rings.\<close>

definition in_ring :: "fetch_world \<Rightarrow> nat \<Rightarrow> bool" where
  "in_ring w f \<longleftrightarrow> Option.bind (fw_heap w f) cf_r_next \<noteq> None"

inductive fm_reach :: "fetch_env \<Rightarrow> fetch_world \<Rightarrow> bool" for env where
  fm_none: "fm_reach env no_fetches"
| fm_add: "fm_reach env w \<Longrightarrow> fm_reach env (snd (fetcher_add env scheme ops w))"
| fm_client: "fm_reach env w \<Longrightarrow> allowed (live w) op \<Longrightarrow> client_does env op w = Some w' \<Longrightarrow> fm_reach env w'"
| fm_dispatch: "fm_reach env w \<Longrightarrow> fetch_dispatch_jobs env w = Some (polling, w') \<Longrightarrow> fm_reach env w'"
| fm_fetcher: "fm_reach env w \<Longrightarrow> deliveries L evs \<Longrightarrow> \<forall>f \<in> L. in_ring w f \<Longrightarrow> fetch_events env evs w = Some w' \<Longrightarrow> fm_reach env w'"

lemma in_ring_rings:
  assumes "rings w qs fs"
  shows "in_ring w f \<longleftrightarrow> f \<in> set (qs @ fs)"
proof -
  have q: "Option.bind (fw_heap w f) cf_r_next = r_next queue w f" by (simp add: queue_def)
  have n: "nx f \<noteq> None" if r: "ring nx pv xs" and m: "f \<in> set xs" for nx pv xs
  proof -
    obtain us vs where "xs = us @ f # vs" using split_list m by metis
    then show ?thesis using r by (cases vs) (simp_all add: ring_def chain_append)
  qed
  show ?thesis
  proof
    assume "in_ring w f"
    then have n: "r_next queue w f \<noteq> None" by (simp add: in_ring_def q)
    then have "f \<in> live w" by (cases "fw_heap w f") (auto simp: queue_def)
    from n rings_parts(6) [OF assms this] show "f \<in> set (qs @ fs)" by (rule contrapos_np)
  next
    assume "f \<in> set (qs @ fs)"
    then show "in_ring w f" using assms n by (auto simp: in_ring_def q rings_def)
  qed
qed

lemma adding_keeps:
  assumes "fm_ok env w qs fs"
  shows "fm_ok env (snd (fetcher_add env scheme ops w)) qs fs"
proof -
  note i = fm_okD [OF assms]
  have t: "fm_ok env (trace [FetcherInitialise ops] w) qs fs" by (rule trace_keeps [OF assms]) simp
  show ?thesis
  proof (cases "find (\<lambda>fd. sch_refcount (fetchers w ! fd) = 0) [0..<MAX_FETCHERS]")
    case None
    then show ?thesis using assms by (simp add: fetcher_add_def)
  next
    case (Some fd)
    then have fd: "fd < MAX_FETCHERS" "sch_refcount (fetchers w ! fd) = 0" by (auto simp: find_Some_iff)
    then have u: "users w fd = {}" using i(6) by (auto simp: refs_ok_def)
    show ?thesis
    proof (cases "fe_initialise env (fw_trace w) ops")
      case False
      then show ?thesis using Some t by (simp add: fetcher_add_def Let_def)
    next
      case True
      define w2 where "w2 = snd (fetcher_add env scheme ops w)"
      have w2: "w2 = (trace [FetcherInitialise ops] w)\<lparr>fetchers := (fetchers w)[fd := (fetchers w ! fd)\<lparr>sch_scheme := scheme, sch_ops := ops, sch_refcount := 1\<rparr>]\<rparr>"
        using Some True fd i(6) by (simp add: w2_def fetcher_add_def Let_def fetch_ref_fetcher_def refs_ok_def)
      have inert: "inert w2 = inert w" "is_active w2 = is_active w" "fw_trace w2 = fw_trace w @ [FetcherInitialise ops]"
        by (simp_all add: w2 trace_def inert_def is_active_def fun_eq_iff)
      note s = inert_same [OF inert(1)]
      have uw: "users w2 = users w" using s by (simp add: users_def fun_eq_iff)
      have fw: "fetchers w2 = (fetchers w)[fd := (fetchers w ! fd)\<lparr>sch_scheme := scheme, sch_ops := ops, sch_refcount := 1\<rparr>]"
        by (simp add: w2)
      have "refs_ok w2" using i(6) fd u s unfolding refs_ok_def uw fw by (auto simp: nth_list_update)
      moreover have "rings w2 qs fs" using i(1) by (simp add: w2)
      ultimately have "fm_ok env w2 qs fs" using i s inert by (simp add: fm_ok_def flags_def)
      then show ?thesis by (simp add: w2_def)
    qed
  qed
qed

lemma fm_reach_ok:
  assumes "fm_reach env w" "env_ok env"
  shows "\<exists>qs fs. fm_ok env w qs fs"
  using assms(1)
proof induction
  case fm_none
  have "fm_ok env no_fetches [] []"
    by (simp add: fm_ok_def no_fetches_def rings_def ring_def queue_def flags_def in_limits_def live_in_def refs_ok_def users_def)
  then show ?case by blast
next
  case (fm_add w scheme ops)
  then show ?case using adding_keeps by blast
next
  case (fm_client w op w')
  then show ?case using client_keeps [OF assms(2)] by fastforce
next
  case (fm_dispatch w polling w')
  then obtain qs fs where "fm_ok env w qs fs" by blast
  from dispatch_keeps [OF fm_okD [OF this]] show ?case using fm_dispatch.hyps(2) by auto
next
  case (fm_fetcher w L evs w')
  then obtain qs fs where k: "fm_ok env w qs fs" by blast
  then have "L \<subseteq> set (qs @ fs)" using fm_fetcher.hyps(3) in_ring_rings [OF fm_okD(1) [OF k]] by blast
  from deliveries_keep [OF assms(2) fm_fetcher.hyps(2) k this] show ?case using fm_fetcher.hyps(4) by auto
qed

section \<open>A manager to run\<close>

text \<open>
  Two fetchers are registered; memory is 100 addresses; every setup and start succeeds; clients do
  nothing.
\<close>

definition sample_fetch_env :: fetch_env where
  "sample_fetch_env = \<lparr>fe_calloc = (\<lambda>h. find (\<lambda>a. h a = None) [7..<100]), fe_initialise = (\<lambda>_ _. True), fe_acceptable = (\<lambda>_ _. True),
     fe_setup = (\<lambda>_ _ f _. Some f), fe_start = (\<lambda>_ _ _. True), fe_poll = (\<lambda>_ _. []), fe_fdset = (\<lambda>_ _. None), fe_reacts = (\<lambda>_. []),
     max_fetchers = 24, max_fetchers_per_host = 5\<rparr>"

lemma sample_fetch_env_ok: "env_ok sample_fetch_env"
  by (auto simp: env_ok_def sample_fetch_env_def find_Some_iff)

definition fetchers_added :: fetch_world where
  "fetchers_added = snd (fetcher_add sample_fetch_env (Some ''https'') 2 (snd (fetcher_add sample_fetch_env (Some ''http'') 1 no_fetches)))"

definition http_fetch_started :: fetch_world where
  "http_fetch_started = snd (the (fetch_start sample_fetch_env sample_url None 3 True fetchers_added))"

lemma fetchers_added_ok: "fm_ok sample_fetch_env fetchers_added [] []"
proof -
  have "fm_ok sample_fetch_env no_fetches [] []"
    by (simp add: fm_ok_def no_fetches_def rings_def ring_def queue_def flags_def in_limits_def live_in_def refs_ok_def users_def)
  then show ?thesis unfolding fetchers_added_def by (intro adding_keeps)
qed

lemma http_fetch_started_ok: "fm_ok sample_fetch_env http_fetch_started [] [7]"
proof -
  have u: "url_scheme sample_url \<noteq> None" by (simp add: sample_url_def)
  obtain r w' qs' fs' where s: "fetch_start sample_fetch_env sample_url None 3 True fetchers_added = Some (r, w')"
    "fm_ok sample_fetch_env w' qs' fs'" "mset qs' + mset fs' = (case snd r of None \<Rightarrow> {#} | Some f \<Rightarrow> {#f#})"
    using start_keeps [OF sample_fetch_env_ok fetchers_added_ok u, of None 3 True] by (fastforce split: option.splits)
  have c: "map_option (\<lambda>(r, w). (snd r, queue_ring w)) (fetch_start sample_fetch_env sample_url None 3 True fetchers_added) = Some (Some 7, None)"
    by code_simp
  then have "snd r = Some 7" "queue_ring w' = None" using s(1) by auto
  moreover from this(2) have "qs' = []" using fm_okD(1) [OF s(2)] by (auto simp: rings_def split: if_splits)
  ultimately have "fs' = [7]" using s(3) by simp
  then show ?thesis using s(1,2) \<open>qs' = []\<close> by (simp add: http_fetch_started_def)
qed

section \<open>Double release\<close>

lemma fetch_events_append: "fetch_events env (a @ b) w = Option.bind (fetch_events env a w) (fetch_events env b)"
  by (induction a arbitrary: w) (auto split: bind_splits)

lemma free_kills: "fetch_free env f w = Some w' \<Longrightarrow> fw_heap w' f = None"
  by (auto simp: fetch_free_def Let_def split: bind_splits)

lemma dead_running: "fw_heap w f = None \<Longrightarrow> running_ev f e \<Longrightarrow> fetch_event env e w = None"
  by (cases e) (simp_all add: fetch_send_callback_def fetch_set_http_code_def)

lemma second_end_crashes:
  assumes "ends p l l1" "ends p l1 l2"
  shows "\<exists>evs. l2 = l @ evs \<and> (\<forall>env w. fetch_events env evs w = None)"
proof -
  obtain a m where a: "l1 = l @ a @ [Callback p m, RemoveFromQueues p] @ [FreeFetch p]" using assms(1) by (auto simp: ends_def)
  obtain b m' where b: "l2 = l1 @ b @ [Callback p m', RemoveFromQueues p, FreeFetch p]" "\<forall>e \<in> set b. running_ev p e"
    using assms(2) by (auto simp: ends_def)
  define b' where "b' = b @ [Callback p m', RemoveFromQueues p, FreeFetch p]"
  have dead: "fetch_events env b' w = None" if "fw_heap w p = None" for env w
    using b(2) that dead_running [OF that] by (cases b) (simp_all add: b'_def fetch_send_callback_def)
  have "fetch_events env ((a @ [Callback p m, RemoveFromQueues p]) @ [FreeFetch p] @ b') w = None" for env w
    unfolding fetch_events_append using dead free_kills by (auto split: bind_splits)
  then show ?thesis using a b(1) by (intro exI [of _ "a @ [Callback p m, RemoveFromQueues p] @ [FreeFetch p] @ b'"]) (simp add: b'_def)
qed

section \<open>Properties\<close>

text \<open>
  C27. Dispatching refines its specification on lists. With the queue and the active fetches as two
  lists, \<open>fetch_dispatch_jobs\<close> returns and does what the abstract dispatcher does: again and again
  the first queued fetch whose host has fewer active fetches than the limit is started, while
  fewer than the limit are active in all; a refused one goes to the end of the queue and ends the
  pass. The limits hold afterwards and nothing but the rings and active flags changes. If
  no start is refused, either the overall limit is reached or every fetch left in the queue is for
  a host that is at its limit: no fetch waits without need.
\<close>

theorem fetch_dispatch_refines:
  assumes "fm_ok env w qs fs"
  shows "\<exists>w' qs' fs'. fetch_dispatch_jobs env w = Some (fs' \<noteq> [], w')
     \<and> dispatch_spec env (host_of w) (job_of w) (length qs) qs fs (fw_trace w) = (qs', fs', fw_trace w')
     \<and> fm_ok env w' qs' fs' \<and> inert w' = inert w \<and> fetchers w' = fetchers w
     \<and> ((\<forall>t fd h. fe_start env t fd h) \<longrightarrow> max_fetchers env \<le> int (length fs')
          \<or> (\<forall>f \<in> set qs'. max_fetchers_per_host env \<le> on_host w (host_of w f) fs'))"
proof -
  note i = fm_okD [OF assms]
  obtain w' qs' fs' where d: "fetch_dispatch_jobs env w = Some (fs' \<noteq> [], w')" "fm_ok env w' qs' fs'"
    "dispatch_spec env (host_of w) (job_of w) (length qs) qs fs (fw_trace w) = (qs', fs', fw_trace w')" "inert w' = inert w" "fetchers w' = fetchers w"
    using dispatch_full [OF i] by blast
  then show ?thesis using spec_maximal [OF d(3)] unfolding on_host_def by blast
qed

theorem fetch_dispatch_refines_witness:
  "\<exists>w' qs' fs'. fetch_dispatch_jobs sample_fetch_env http_fetch_started = Some (fs' \<noteq> [], w')
     \<and> (24 \<le> int (length fs') \<or> (\<forall>f \<in> set qs'. 5 \<le> on_host http_fetch_started (host_of http_fetch_started f) fs'))"
proof -
  have e: "\<forall>t fd h. fe_start sample_fetch_env t fd h" "max_fetchers sample_fetch_env = 24" "max_fetchers_per_host sample_fetch_env = 5"
    by (simp_all add: sample_fetch_env_def)
  show ?thesis using fetch_dispatch_refines [OF http_fetch_started_ok] e unfolding e(2,3) by blast
qed

text \<open>
  C26. The fetch manager is sound. In every state it can reach, with clients that only name live
  fetches and fetchers that keep to the discipline, the queue and the active fetches are two
  disjoint rings, every fetch is marked active exactly when it is in the second, no more than
  \<open>max_fetchers\<close> are active and no more than \<open>max_fetchers_per_host\<close> of one host, and every
  fetcher's reference count is one more than its live fetches. No client call, no dispatch and no
  events of such fetchers can make it touch a freed fetch.
\<close>

theorem fetch_manager_sound:
  assumes "fm_reach env w" "env_ok env"
  shows "\<exists>qs fs. fm_ok env w qs fs \<and> fetch_dispatch_jobs env w \<noteq> None
     \<and> (\<forall>op. allowed (live w) op \<longrightarrow> client_does env op w \<noteq> None)
     \<and> (\<forall>L evs. deliveries L evs \<and> (\<forall>f \<in> L. in_ring w f) \<longrightarrow> fetch_events env evs w \<noteq> None)"
proof -
  obtain qs fs where k: "fm_ok env w qs fs" using fm_reach_ok [OF assms] by blast
  have "fetch_events env evs w \<noteq> None" if "deliveries L evs" "\<forall>f \<in> L. in_ring w f" for L evs
  proof -
    have "L \<subseteq> set (qs @ fs)" using that(2) in_ring_rings [OF fm_okD(1) [OF k]] by blast
    from deliveries_keep [OF assms(2) that(1) k this] show ?thesis by auto
  qed
  moreover have "client_does env op w \<noteq> None" if "allowed (live w) op" for op using client_keeps [OF assms(2) k that] by auto
  moreover have "fetch_dispatch_jobs env w \<noteq> None" using dispatch_keeps [OF fm_okD [OF k]] by auto
  ultimately show ?thesis using k by blast
qed

theorem fetch_manager_sound_witness: "\<exists>qs fs. fm_ok sample_fetch_env http_fetch_started qs fs \<and> client_does sample_fetch_env (ClientAbort 7) http_fetch_started \<noteq> None"
proof -
  have a: "fm_reach sample_fetch_env fetchers_added" unfolding fetchers_added_def by (intro fm_reach.intros)
  have "client_does sample_fetch_env (ClientStart sample_url None 3 True) fetchers_added = Some http_fetch_started"
    using start_keeps [OF sample_fetch_env_ok fetchers_added_ok, of sample_url None 3 True]
    by (auto simp: http_fetch_started_def sample_url_def)
  from fm_client [OF a _ this] have r: "fm_reach sample_fetch_env http_fetch_started" by (simp add: sample_url_def)
  have "7 \<in> live http_fetch_started" using fm_okD(1) [OF http_fetch_started_ok] by (auto simp: rings_def)
  then show ?thesis using fetch_manager_sound [OF r sample_fetch_env_ok] by (metis allowed.simps(2))
qed



text \<open>
  C29. A decoder error brings the manager down. When the chunk decoder reports an error in the body
  of a chunked HTTPS response, the fetcher ends the fetch twice. Carried out by the fetch manager,
  in whatever state and whatever its clients do, these events use the fetch after it has been
  freed.
\<close>

theorem https_decode_error_crashes:
  assumes "i < length (https_slots hw)" "hctx_ok (hslot hw i)" "hx_state (hslot hw i) = HS_BODY" "hx_chunked (hslot hw i)"
    and "feed_chunks api b (hslot hw i) [] = Some (c', ms, True)" "b \<noteq> []"
  shows "\<exists>hw' evs. finish_if api i (feed_body api i b hw) = Some (True, hw') \<and> hs_events hw' = hs_events hw @ evs
     \<and> terminals (hx_parent (hslot hw i)) evs = 2 \<and> releases (hx_parent (hslot hw i)) evs = 2
     \<and> (\<forall>env w. fetch_events env evs w = None)"
proof -
  obtain r where r: "feed_body api i b hw = Some r" using assms(4-6) by (simp add: feed_body_def Let_def)
  have "hs_busy (hslot hw i)" using assms(3) by (simp add: hx_state_defs)
  from error_twice [OF r assms(1,2) this assms(6,4,5)] obtain hw' l
    where f: "finish_if api i (Some r) = Some (True, hw')" "ends (hx_parent (hslot hw i)) (hs_events hw) l" "ends (hx_parent (hslot hw i)) l (hs_events hw')"
    by blast
  from second_end_crashes [OF f(2,3)] ends_ends_counts [OF f(2,3)] f(1) show ?thesis unfolding r by auto
qed

theorem https_decode_error_crashes_witness:
  "\<exists>hw' evs. finish_if broken_tlsapi 0 (feed_body broken_tlsapi 0 ''zz'' body_hworld) = Some (True, hw') \<and> hs_events hw' = evs
     \<and> (\<forall>env w. fetch_events env evs w = None)"
proof -
  let ?c = "one_hslot\<lparr>hx_state := HS_BODY, hx_conn := Some 1, hx_chunked := True\<rparr>"
  have s: "hslot body_hworld 0 = ?c" "length (https_slots body_hworld) = 1" "hs_events body_hworld = []"
    by (simp_all add: body_hworld_def idle_hworld_def)
  have ok: "hctx_ok ?c" using one_hslot_ok(2) by (simp add: hctx_ok_def hx_state_defs hx_bounds_def hx_hdr_len_def hx_cap_len_def one_hslot_def fresh_hslot_def)
  have f: "feed_chunks broken_tlsapi ''zz'' ?c [] = Some (?c, [], True)"
    by (subst feed_chunks.simps) (simp add: broken_tlsapi_def sample_tlsapi_def)
  show ?thesis using https_decode_error_crashes [of 0 body_hworld broken_tlsapi "''zz''" ?c "[]"] s ok f by auto
qed

end
