(* ===== verification/Wapcaplet.thy ===== *)
theory Wapcaplet
  imports MS_Prelude "HOL-Library.Monad_Syntax"
begin

text \<open>
  String internment, \<open>libwapcaplet.c\<close> and the macros of \<open>libwapcaplet.h\<close>: equal strings are stored
  once, so that they can be compared by address, with a reference count, in 4091 hash buckets.
  A string can know the string that is its lower-case form.

  A string is a node of the store \<open>lwc_heap\<close>; each bucket is a list through \<open>lw_next\<close>, in which
  \<open>lw_prevptr\<close> is the place that points at the node: a bucket or the next field of another node.
  The text of a node is without the NUL the code puts behind it. Following a null or freed pointer
  is the result \<open>None\<close>. Where memory is allocated, if it is, is the record \<open>lwc_env\<close>.
\<close>

section \<open>State\<close>

datatype lwc_error = lwc_error_ok | lwc_error_oom | lwc_error_range

datatype link_place = Bucket nat | NextOf nat

record lwc_string =
  lw_prevptr :: link_place
  lw_next :: "nat option"
  lw_hash :: "32 word"
  lw_refcnt :: "32 word"
  lw_insensitive :: "nat option"
  lw_text :: bytes

definition NR_BUCKETS_DEFAULT :: nat where "NR_BUCKETS_DEFAULT = 4091"

text \<open>\<open>lwc_buckets\<close> is \<open>None\<close> until the context has been made.\<close>

record lwc_world =
  lwc_buckets :: "(nat \<Rightarrow> nat option) option"
  lwc_heap :: "nat \<Rightarrow> lwc_string option"

record lwc_env =
  lwc_alloc_ctx :: bool
  lwc_alloc :: "(nat \<Rightarrow> lwc_string option) \<Rightarrow> nat \<Rightarrow> nat option"

section \<open>Hashing and comparing\<close>

text \<open>A \<open>char\<close> is signed.\<close>

definition char_word :: "char \<Rightarrow> 32 word" where
  "char_word ch = (let n = of_char ch :: int in word_of_int (if n < 128 then n else n - 256))"

definition hash_step :: "(char \<Rightarrow> char) \<Rightarrow> 32 word \<Rightarrow> char \<Rightarrow> 32 word" where
  "hash_step lower z ch = (z * 0x01000193) XOR char_word (lower ch)"

definition lwc__calculate_hash :: "bytes \<Rightarrow> 32 word" where
  "lwc__calculate_hash s = foldl (hash_step id) 0x811c9dc5 s"

definition lwc__dolower :: "char \<Rightarrow> char" where
  "lwc__dolower c = (let n = of_char c :: nat in if 65 \<le> n \<and> n \<le> 90 then char_of (n + 97 - 65) else c)"

definition lwc__calculate_lcase_hash :: "bytes \<Rightarrow> 32 word" where
  "lwc__calculate_lcase_hash s = foldl (hash_step lwc__dolower) 0x811c9dc5 s"

text \<open>\<open>strncmp\<close> stops at a NUL in both texts.\<close>

definition strncmp_bytes :: "bytes \<Rightarrow> bytes \<Rightarrow> nat \<Rightarrow> bool" where
  "strncmp_bytes s1 s2 n \<longleftrightarrow> strncmp_eq (cstr s1) (cstr s2) n"

definition lwc__lcase_strncmp :: "bytes \<Rightarrow> bytes \<Rightarrow> nat \<Rightarrow> bool" where
  "lwc__lcase_strncmp s1 s2 n \<longleftrightarrow> take n s1 = map lwc__dolower (take n s2)"

section \<open>Interning\<close>

definition lwc_update :: "nat \<Rightarrow> (lwc_string \<Rightarrow> lwc_string) \<Rightarrow> lwc_world \<Rightarrow> lwc_world" where
  "lwc_update a f w = w\<lparr>lwc_heap := (lwc_heap w)(a := map_option f (lwc_heap w a))\<rparr>"

text \<open>Writing through a \<open>prevptr\<close>.\<close>

definition lwc_write :: "link_place \<Rightarrow> nat option \<Rightarrow> lwc_world \<Rightarrow> lwc_world" where
  "lwc_write place v w =
     (case place of
        Bucket b \<Rightarrow> w\<lparr>lwc_buckets := map_option (\<lambda>bs. bs(b := v)) (lwc_buckets w)\<rparr>
      | NextOf a \<Rightarrow> lwc_update a (\<lambda>c. c\<lparr>lw_next := v\<rparr>) w)"

definition lwc__initialise :: "lwc_env \<Rightarrow> lwc_world \<Rightarrow> lwc_error \<times> lwc_world" where
  "lwc__initialise env w =
     (if lwc_buckets w \<noteq> None then (lwc_error_ok, w)
      else if \<not> lwc_alloc_ctx env then (lwc_error_oom, w)
      else (lwc_error_ok, w\<lparr>lwc_buckets := Some (\<lambda>_. None)\<rparr>))"

partial_function (option) lwc_find :: "lwc_world \<Rightarrow> (lwc_string \<Rightarrow> bool) \<Rightarrow> nat option \<Rightarrow> nat option option" where
  "lwc_find w matches p =
     (case p of
        None \<Rightarrow> Some None
      | Some a \<Rightarrow>
          (case lwc_heap w a of
             None \<Rightarrow> None
           | Some str \<Rightarrow> if matches str then Some (Some a) else lwc_find w matches (lw_next str)))"

declare lwc_find.simps [code]

text \<open>
  \<open>lwc__intern\<close> with its hasher, comparison and copying as arguments. The result is the error and
  what is stored through \<open>ret\<close>, if anything is.
\<close>

definition lwc__intern :: "lwc_env \<Rightarrow> (bytes \<Rightarrow> 32 word) \<Rightarrow> (bytes \<Rightarrow> bytes \<Rightarrow> nat \<Rightarrow> bool) \<Rightarrow> (bytes \<Rightarrow> bytes)
    \<Rightarrow> bytes \<Rightarrow> lwc_world \<Rightarrow> ((lwc_error \<times> nat option option) \<times> lwc_world) option" where
  "lwc__intern env hasher compare copy s w0 =
     (case lwc__initialise env w0 of (eret, w) \<Rightarrow>
      if eret \<noteq> lwc_error_ok then Some ((eret, None), w)
      else do {
        bs \<leftarrow> lwc_buckets w;
        let h = hasher s;
        let bucket = unat h mod NR_BUCKETS_DEFAULT;
        found \<leftarrow> lwc_find w (\<lambda>str. lw_hash str = h \<and> length (lw_text str) = length s \<and> compare (lw_text str) s (length s)) (bs bucket);
        Some (case found of
            Some a \<Rightarrow> ((lwc_error_ok, Some (Some a)), lwc_update a (\<lambda>c. c\<lparr>lw_refcnt := lw_refcnt c + 1\<rparr>) w)
          | None \<Rightarrow>
              (case lwc_alloc env (lwc_heap w) (length s + 1) of
                 None \<Rightarrow> ((lwc_error_oom, Some None), w)
               | Some a \<Rightarrow>
                   (let str = \<lparr>lw_prevptr = Bucket bucket, lw_next = bs bucket, lw_hash = h, lw_refcnt = 1, lw_insensitive = None, lw_text = copy s\<rparr>;
                        w1 = w\<lparr>lwc_heap := (lwc_heap w)(a \<mapsto> str)\<rparr>;
                        w2 = (case bs bucket of None \<Rightarrow> w1 | Some n \<Rightarrow> lwc_update n (\<lambda>c. c\<lparr>lw_prevptr := NextOf a\<rparr>) w1)
                    in ((lwc_error_ok, Some (Some a)), lwc_write (Bucket bucket) (Some a) w2)))) })"

definition lwc_intern_string :: "lwc_env \<Rightarrow> bytes \<Rightarrow> lwc_world \<Rightarrow> ((lwc_error \<times> nat option option) \<times> lwc_world) option" where
  "lwc_intern_string env s w = lwc__intern env lwc__calculate_hash strncmp_bytes id s w"

text \<open>
  The sum is a \<open>size_t\<close>, 32 bits on this machine, and may wrap; then what is read is beyond the string.
\<close>

definition lwc_intern_substring :: "lwc_env \<Rightarrow> nat \<Rightarrow> 32 word \<Rightarrow> 32 word \<Rightarrow> lwc_world \<Rightarrow> ((lwc_error \<times> nat option option) \<times> lwc_world) option" where
  "lwc_intern_substring env a ssoffset sslen w =
     do { str \<leftarrow> lwc_heap w a;
          (if unat ssoffset \<ge> length (lw_text str) then Some ((lwc_error_range, None), w)
           else if unat (ssoffset + sslen) > length (lw_text str) then Some ((lwc_error_range, None), w)
           else if unat ssoffset + unat sslen > length (lw_text str) then None
           else lwc_intern_string env (take (unat sslen) (drop (unat ssoffset) (lw_text str))) w) }"

text \<open>The lower-case form is stored in the string itself.\<close>

definition lwc__intern_caseless_string :: "lwc_env \<Rightarrow> nat \<Rightarrow> lwc_world \<Rightarrow> (lwc_error \<times> lwc_world) option" where
  "lwc__intern_caseless_string env a w =
     do { str \<leftarrow> lwc_heap w a;
          ((err, ret), w1) \<leftarrow> lwc__intern env lwc__calculate_lcase_hash lwc__lcase_strncmp (map lwc__dolower) (lw_text str) w;
          Some (err, case ret of None \<Rightarrow> w1 | Some r \<Rightarrow> lwc_update a (\<lambda>c. c\<lparr>lw_insensitive := r\<rparr>) w1) }"

section \<open>References\<close>

definition lwc_string_ref :: "nat \<Rightarrow> lwc_world \<Rightarrow> (nat \<times> lwc_world) option" where
  "lwc_string_ref a w = do { str \<leftarrow> lwc_heap w a; Some (a, lwc_update a (\<lambda>c. c\<lparr>lw_refcnt := lw_refcnt c + 1\<rparr>) w) }"

text \<open>Taking a string out of its bucket.\<close>

definition lwc_unlink :: "nat \<Rightarrow> lwc_world \<Rightarrow> lwc_world option" where
  "lwc_unlink a w =
     do { str \<leftarrow> lwc_heap w a;
          let w1 = lwc_write (lw_prevptr str) (lw_next str) w;
          Some (case lw_next str of None \<Rightarrow> w1 | Some n \<Rightarrow> lwc_update n (\<lambda>c. c\<lparr>lw_prevptr := lw_prevptr str\<rparr>) w1) }"

text \<open>
  \<open>lwc_string_unref\<close> with \<open>lwc_string_destroy\<close>, which calls it back for the lower-case form, in
  its place.
\<close>

partial_function (option) lwc_string_unref :: "nat \<Rightarrow> lwc_world \<Rightarrow> lwc_world option" where
  "lwc_string_unref a w =
     do { str \<leftarrow> lwc_heap w a;
          let n = lw_refcnt str - 1;
          let w1 = lwc_update a (\<lambda>c. c\<lparr>lw_refcnt := n\<rparr>) w;
          (if n = 0 \<or> n = 1 \<and> lw_insensitive str = Some a
           then do { w2 \<leftarrow> lwc_unlink a w1;
                     w3 \<leftarrow> (if n = 0 then (case lw_insensitive str of None \<Rightarrow> Some w2 | Some i \<Rightarrow> lwc_string_unref i w2) else Some w2);
                     Some (w3\<lparr>lwc_heap := (lwc_heap w3)(a := None)\<rparr>) }
           else Some w1) }"

declare lwc_string_unref.simps [code]

definition lwc_string_destroy :: "nat \<Rightarrow> lwc_world \<Rightarrow> lwc_world option" where
  "lwc_string_destroy a w =
     do { str \<leftarrow> lwc_heap w a;
          w2 \<leftarrow> lwc_unlink a w;
          w3 \<leftarrow> (if lw_refcnt str = 0 then (case lw_insensitive str of None \<Rightarrow> Some w2 | Some i \<Rightarrow> lwc_string_unref i w2) else Some w2);
          Some (w3\<lparr>lwc_heap := (lwc_heap w3)(a := None)\<rparr>) }"

definition lwc_string_isequal :: "nat \<Rightarrow> nat \<Rightarrow> bool" where
  "lwc_string_isequal a b \<longleftrightarrow> a = b"

text \<open>The error, and the answer if there is none.\<close>

definition lwc_string_caseless_isequal :: "lwc_env \<Rightarrow> nat \<Rightarrow> nat \<Rightarrow> lwc_world \<Rightarrow> ((lwc_error \<times> bool option) \<times> lwc_world) option" where
  "lwc_string_caseless_isequal env a b w =
     do { str1 \<leftarrow> lwc_heap w a;
          (err, w1) \<leftarrow> (if lw_insensitive str1 = None then lwc__intern_caseless_string env a w else Some (lwc_error_ok, w));
          str2 \<leftarrow> lwc_heap w1 b;
          (err, w2) \<leftarrow> (if err = lwc_error_ok \<and> lw_insensitive str2 = None then lwc__intern_caseless_string env b w1 else Some (err, w1));
          s1 \<leftarrow> lwc_heap w2 a;
          s2 \<leftarrow> lwc_heap w2 b;
          Some ((err, if err = lwc_error_ok then Some (lw_insensitive s1 = lw_insensitive s2) else None), w2) }"

definition lwc_string_tolower :: "lwc_env \<Rightarrow> nat \<Rightarrow> lwc_world \<Rightarrow> ((lwc_error \<times> nat option) \<times> lwc_world) option" where
  "lwc_string_tolower env a w =
     do { str \<leftarrow> lwc_heap w a;
          (err, w1) \<leftarrow> (if lw_insensitive str = None then lwc__intern_caseless_string env a w else Some (lwc_error_ok, w));
          (if err \<noteq> lwc_error_ok then Some ((err, None), w1)
           else do { str1 \<leftarrow> lwc_heap w1 a;
                     i \<leftarrow> lw_insensitive str1;
                     (r, w2) \<leftarrow> lwc_string_ref i w1;
                     Some ((lwc_error_ok, Some r), w2) }) }"

text \<open>\<open>lwc_string_caseless_hash_value\<close> of \<open>misc_stub.c\<close>, for a string that is there.\<close>

definition lwc_string_caseless_hash_value :: "lwc_env \<Rightarrow> nat \<Rightarrow> lwc_world \<Rightarrow> ((lwc_error \<times> 32 word option) \<times> lwc_world) option" where
  "lwc_string_caseless_hash_value env a w =
     do { str \<leftarrow> lwc_heap w a;
          (err, w1) \<leftarrow> (if lw_insensitive str = None then lwc__intern_caseless_string env a w else Some (lwc_error_ok, w));
          (if err \<noteq> lwc_error_ok then Some ((err, None), w1)
           else do { str1 \<leftarrow> lwc_heap w1 a;
                     i \<leftarrow> lw_insensitive str1;
                     form \<leftarrow> lwc_heap w1 i;
                     Some ((lwc_error_ok, Some (lw_hash form)), w1) }) }"

section \<open>Iterating\<close>

partial_function (option) lwc_chain :: "lwc_world \<Rightarrow> nat option \<Rightarrow> nat list option" where
  "lwc_chain w p =
     (case p of
        None \<Rightarrow> Some []
      | Some a \<Rightarrow> do { str \<leftarrow> lwc_heap w a; xs \<leftarrow> lwc_chain w (lw_next str); Some (a # xs) })"

declare lwc_chain.simps [code]

fun lwc_chains :: "lwc_world \<Rightarrow> nat option list \<Rightarrow> nat list option" where
  "lwc_chains w [] = Some []"
| "lwc_chains w (p # ps) = do { xs \<leftarrow> lwc_chain w p; ys \<leftarrow> lwc_chains w ps; Some (xs @ ys) }"

text \<open>The strings the callback is called with, and the context given up when there are none.\<close>

definition lwc_iterate_strings :: "lwc_world \<Rightarrow> (nat list \<times> lwc_world) option" where
  "lwc_iterate_strings w =
     (case lwc_buckets w of
        None \<Rightarrow> Some ([], w)
      | Some bs \<Rightarrow> do { xs \<leftarrow> lwc_chains w (map bs [0..<NR_BUCKETS_DEFAULT]);
                         Some (xs, if xs = [] then w\<lparr>lwc_buckets := None\<rparr> else w) })"

end
