(* ===== verification/WapcapletProps.thy ===== *)
theory WapcapletProps
  imports Wapcaplet
begin

text \<open>
  Correctness of string internment: the buckets are lists, every text is stored at most once, the
  reference counts are exact, and what is no longer referred to is freed.
\<close>

section \<open>Bucket lists\<close>

text \<open>
  \<open>seg hp place p xs q\<close>: from the pointer \<open>p\<close>, stored at \<open>place\<close>, the nodes \<open>xs\<close> follow one another
  up to the pointer \<open>q\<close>, and each knows the place that points at it.
\<close>

fun seg :: "(nat \<Rightarrow> lwc_string option) \<Rightarrow> link_place \<Rightarrow> nat option \<Rightarrow> nat list \<Rightarrow> nat option \<Rightarrow> bool" where
  "seg hp place p [] q \<longleftrightarrow> p = q"
| "seg hp place p (x # xs) q \<longleftrightarrow> p = Some x \<and> (\<exists>c. hp x = Some c \<and> lw_prevptr c = place \<and> seg hp (NextOf x) (lw_next c) xs q)"

definition place_after :: "link_place \<Rightarrow> nat list \<Rightarrow> link_place" where
  "place_after place xs = (if xs = [] then place else NextOf (last xs))"

lemma place_after_simps [simp]: "place_after place [] = place" "place_after place (x # xs) = place_after (NextOf x) xs"
  by (simp_all add: place_after_def)

lemma seg_append: "seg hp place p (xs @ ys) q \<longleftrightarrow> (\<exists>r. seg hp place p xs r \<and> seg hp (place_after place xs) r ys q)"
  by (induction xs arbitrary: place p) auto

lemma seg_alive: "seg hp place p xs q \<Longrightarrow> x \<in> set xs \<Longrightarrow> hp x \<noteq> None"
  by (induction xs arbitrary: place p) auto

text \<open>Only the links of the nodes matter.\<close>

definition same_links :: "(nat \<Rightarrow> lwc_string option) \<Rightarrow> (nat \<Rightarrow> lwc_string option) \<Rightarrow> nat \<Rightarrow> bool" where
  "same_links hp hp' x \<longleftrightarrow> map_option (\<lambda>c. (lw_prevptr c, lw_next c)) (hp' x) = map_option (\<lambda>c. (lw_prevptr c, lw_next c)) (hp x)"

lemma seg_cong: "\<forall>x \<in> set xs. same_links hp hp' x \<Longrightarrow> seg hp' place p xs q \<longleftrightarrow> seg hp place p xs q"
proof (induction xs arbitrary: place p)
  case (Cons x xs)
  have "map_option (\<lambda>c. (lw_prevptr c, lw_next c)) (hp' x) = map_option (\<lambda>c. (lw_prevptr c, lw_next c)) (hp x)"
    using Cons.prems by (simp add: same_links_def)
  then show ?case using Cons by (cases "hp x"; cases "hp' x") auto
qed simp

lemma seg_retarget:
  assumes "seg hp place p (xs @ [x]) q" "distinct (xs @ [x])"
  shows "seg (hp(x := map_option (\<lambda>c. c\<lparr>lw_next := r\<rparr>) (hp x))) place p (xs @ [x]) r"
proof -
  let ?hp = "hp(x := map_option (\<lambda>c. c\<lparr>lw_next := r\<rparr>) (hp x))"
  obtain o' where o: "seg hp place p xs o'" "seg hp (place_after place xs) o' [x] q" using assms(1) by (auto simp: seg_append)
  have "seg ?hp place p xs o'" using o(1) assms(2) by (subst seg_cong [of _ hp]) (auto simp: same_links_def)
  moreover have "seg ?hp (place_after place xs) o' [x] r" using o(2) by auto
  ultimately show ?thesis by (auto simp: seg_append)
qed

lemma seg_replace_front:
  assumes "seg hp place p (x # xs) q" "x \<notin> set xs"
  shows "seg (hp(x := map_option (\<lambda>c. c\<lparr>lw_prevptr := place'\<rparr>) (hp x))) place' p (x # xs) q"
proof -
  obtain c where c: "hp x = Some c" "p = Some x" "seg hp (NextOf x) (lw_next c) xs q" using assms(1) by auto
  have "seg (hp(x := map_option (\<lambda>c. c\<lparr>lw_prevptr := place'\<rparr>) (hp x))) (NextOf x) (lw_next c) xs q"
    using c(3) assms(2) by (subst seg_cong [of _ hp]) (auto simp: same_links_def)
  then show ?thesis using c by simp
qed

definition members :: "(nat \<Rightarrow> nat list) \<Rightarrow> nat set" where
  "members ch = (\<Union>b < NR_BUCKETS_DEFAULT. set (ch b))"

text \<open>The buckets hold the lists \<open>ch\<close>.\<close>

definition chains :: "lwc_world \<Rightarrow> (nat \<Rightarrow> nat list) \<Rightarrow> bool" where
  "chains w ch \<longleftrightarrow>
     (case lwc_buckets w of
        None \<Rightarrow> \<forall>b < NR_BUCKETS_DEFAULT. ch b = []
      | Some bs \<Rightarrow> \<forall>b < NR_BUCKETS_DEFAULT. seg (lwc_heap w) (Bucket b) (bs b) (ch b) None)
     \<and> (\<forall>b < NR_BUCKETS_DEFAULT. distinct (ch b))
     \<and> (\<forall>b < NR_BUCKETS_DEFAULT. \<forall>b' < NR_BUCKETS_DEFAULT. b \<noteq> b' \<longrightarrow> set (ch b) \<inter> set (ch b') = {})"

text \<open>A string without its links.\<close>

definition plain :: "lwc_world \<Rightarrow> nat \<Rightarrow> lwc_string option" where
  "plain w a = map_option (\<lambda>c. c\<lparr>lw_prevptr := Bucket 0, lw_next := None\<rparr>) (lwc_heap w a)"

lemma plain_update:
  assumes "\<And>c. (f c)\<lparr>lw_prevptr := Bucket 0, lw_next := None\<rparr> = c\<lparr>lw_prevptr := Bucket 0, lw_next := None\<rparr>"
  shows "plain (lwc_update a f w) = plain w"
proof
  fix x show "plain (lwc_update a f w) x = plain w x"
    using assms by (cases "lwc_heap w x") (auto simp: plain_def lwc_update_def)
qed

lemma plain_write [simp]: "plain (lwc_write place v w) = plain w"
proof (cases place)
  case (NextOf a)
  then show ?thesis unfolding lwc_write_def by (simp add: plain_update)
qed (simp add: lwc_write_def plain_def fun_eq_iff)

lemma chains_member_alive: "chains w ch \<Longrightarrow> a \<in> members ch \<Longrightarrow> lwc_heap w a \<noteq> None"
  by (auto simp: chains_def members_def split: option.splits dest: seg_alive)

text \<open>A change of heap and one bucket that leaves the other lists alone.\<close>

lemma chains_change:
  assumes "chains w ch" "lwc_buckets w = Some bs" "b < NR_BUCKETS_DEFAULT"
    and "lwc_buckets w' = Some (bs(b := p))" "seg (lwc_heap w') (Bucket b) p xs None" "distinct xs"
    and "\<And>x. x \<in> members ch \<Longrightarrow> x \<notin> set (ch b) \<Longrightarrow> same_links (lwc_heap w) (lwc_heap w') x"
    and "set xs \<inter> (members ch - set (ch b)) = {}"
  shows "chains w' (ch(b := xs))"
proof -
  have m: "x \<in> members ch \<and> x \<notin> set (ch b)" if "b' < NR_BUCKETS_DEFAULT" "b' \<noteq> b" "x \<in> set (ch b')" for b' x
    using assms(1,3) that unfolding chains_def members_def by blast
  have "seg (lwc_heap w') (Bucket b') (bs b') (ch b') None" if "b' < NR_BUCKETS_DEFAULT" "b' \<noteq> b" for b'
    using assms(1,2) that m [OF that] assms(7) by (subst seg_cong [of _ "lwc_heap w"]) (auto simp: chains_def)
  moreover have "set xs \<inter> set (ch b') = {}" if "b' < NR_BUCKETS_DEFAULT" "b' \<noteq> b" for b'
    using m [OF that] assms(8) by blast
  ultimately show ?thesis using assms(1,4-6) by (auto simp: chains_def)
qed

section \<open>Adding and removing a node\<close>

lemma insert_chains:
  assumes "chains w ch" "lwc_buckets w = Some bs" "b < NR_BUCKETS_DEFAULT" "lwc_heap w a = None" "a \<notin> members ch"
    and "lw_prevptr str = Bucket b" "lw_next str = bs b"
    and "w1 = w\<lparr>lwc_heap := (lwc_heap w)(a \<mapsto> str)\<rparr>"
    and "w2 = (case bs b of None \<Rightarrow> w1 | Some n \<Rightarrow> lwc_update n (\<lambda>c. c\<lparr>lw_prevptr := NextOf a\<rparr>) w1)"
    and "w3 = lwc_write (Bucket b) (Some a) w2"
  shows "chains w3 (ch(b := a # ch b))" "plain w3 = (plain w1)"
proof -
  have sg: "seg (lwc_heap w) (Bucket b) (bs b) (ch b) None" "distinct (ch b)" using assms(1-3) by (auto simp: chains_def)
  have na: "a \<notin> set (ch b)" using assms(3,5) by (auto simp: members_def)
  have s1: "seg (lwc_heap w1) (Bucket b) (bs b) (ch b) None"
    using sg(1) na assms(8) by (subst seg_cong [of _ "lwc_heap w"]) (auto simp: same_links_def)
  have s2: "seg (lwc_heap w2) (NextOf a) (bs b) (ch b) None \<and> lwc_heap w2 a = Some str
    \<and> (\<forall>x. x \<notin> set (ch b) \<longrightarrow> x \<noteq> a \<longrightarrow> lwc_heap w2 x = lwc_heap w x) \<and> lwc_buckets w2 = Some bs \<and> plain w2 = plain w1"
  proof (cases "ch b")
    case Nil
    then show ?thesis using s1 assms(2,8,9) by auto
  next
    case (Cons n ns)
    then have "bs b = Some n" using s1 by simp
    then have w2: "w2 = lwc_update n (\<lambda>c. c\<lparr>lw_prevptr := NextOf a\<rparr>) w1" using assms(9) by simp
    have "seg (lwc_heap w2) (NextOf a) (bs b) (n # ns) None"
      using seg_replace_front [OF s1 [unfolded Cons], of "NextOf a"] sg(2) Cons by (simp add: w2 lwc_update_def)
    moreover have "plain w2 = plain w1" unfolding w2 by (rule plain_update) simp
    ultimately show ?thesis using Cons na assms(2,8) by (simp add: w2 lwc_update_def)
  qed
  have w3: "lwc_heap w3 = lwc_heap w2" "lwc_buckets w3 = Some (bs(b := Some a))" "plain w3 = plain w2"
    using s2 assms(10) by (simp_all add: lwc_write_def plain_def fun_eq_iff)
  show "chains w3 (ch(b := a # ch b))"
  proof (rule chains_change [OF assms(1-3) w3(2)])
    show "seg (lwc_heap w3) (Bucket b) (Some a) (a # ch b) None" using s2 assms(6,7) w3(1) by simp
    show "distinct (a # ch b)" using sg(2) na by simp
    show "same_links (lwc_heap w) (lwc_heap w3) x" if "x \<in> members ch" "x \<notin> set (ch b)" for x
      using that s2 w3(1) assms(5) by (auto simp: same_links_def)
  qed (use assms(5) in auto)
  show "plain w3 = plain w1" using s2 w3(3) by simp
qed

lemma unlink_chains:
  assumes "chains w ch" "b < NR_BUCKETS_DEFAULT" "ch b = us @ a # vs"
  shows "\<exists>w'. lwc_unlink a w = Some w' \<and> chains w' (ch(b := us @ vs)) \<and> plain w' = plain w \<and> lwc_buckets w' \<noteq> None
     \<and> (\<forall>x. x \<notin> members ch \<longrightarrow> lwc_heap w' x = lwc_heap w x)"
proof -
  obtain bs where bs: "lwc_buckets w = Some bs" using assms by (fastforce simp: chains_def split: option.splits)
  have "seg (lwc_heap w) (Bucket b) (bs b) (ch b) None" "distinct (ch b)" using assms(1,2) bs by (simp_all add: chains_def)
  then have sg: "seg (lwc_heap w) (Bucket b) (bs b) (us @ a # vs) None" and d: "distinct (us @ a # vs)"
    unfolding assms(3) by blast+
  obtain c where c: "lwc_heap w a = Some c" "lw_prevptr c = place_after (Bucket b) us" "seg (lwc_heap w) (Bucket b) (bs b) us (Some a)"
    "seg (lwc_heap w) (NextOf a) (lw_next c) vs None"
    using sg by (auto simp: seg_append)
  define w1 where "w1 = lwc_write (lw_prevptr c) (lw_next c) w"
  define w2 where "w2 = (case lw_next c of None \<Rightarrow> w1 | Some n \<Rightarrow> lwc_update n (\<lambda>d. d\<lparr>lw_prevptr := lw_prevptr c\<rparr>) w1)"
  have u: "lwc_unlink a w = Some w2" using c(1) unfolding w2_def w1_def lwc_unlink_def Let_def by simp
  define p where "p = (if us = [] then lw_next c else bs b)"
  have w1: "lwc_buckets w1 = Some (bs(b := p))" "seg (lwc_heap w1) (Bucket b) p us (lw_next c)"
    "\<forall>x. x \<notin> set us \<longrightarrow> lwc_heap w1 x = lwc_heap w x" "plain w1 = plain w"
  proof -
    show "plain w1 = plain w" by (simp add: w1_def)
    have "lwc_buckets w1 = Some (bs(b := p)) \<and> seg (lwc_heap w1) (Bucket b) p us (lw_next c) \<and> (\<forall>x. x \<notin> set us \<longrightarrow> lwc_heap w1 x = lwc_heap w x)"
    proof (cases us rule: rev_cases)
      case Nil
      then show ?thesis using c bs by (simp add: w1_def lwc_write_def p_def)
    next
      case (snoc us' u)
      then show ?thesis using c bs d seg_retarget [of "lwc_heap w" "Bucket b" "bs b" us' u "Some a" "lw_next c"]
        by (simp add: w1_def lwc_write_def p_def place_after_def lwc_update_def)
    qed
    then show "lwc_buckets w1 = Some (bs(b := p))" "seg (lwc_heap w1) (Bucket b) p us (lw_next c)"
      "\<forall>x. x \<notin> set us \<longrightarrow> lwc_heap w1 x = lwc_heap w x" by blast+
  qed
  have v1: "seg (lwc_heap w1) (NextOf a) (lw_next c) vs None"
    using c(4) w1(3) d by (subst seg_cong [of _ "lwc_heap w"]) (auto simp: same_links_def)
  have w2: "lwc_buckets w2 = Some (bs(b := p))" "seg (lwc_heap w2) (Bucket b) p (us @ vs) None"
    "\<forall>x. x \<notin> set (us @ vs) \<longrightarrow> lwc_heap w2 x = lwc_heap w x" "plain w2 = plain w"
  proof -
    have "lwc_buckets w2 = Some (bs(b := p)) \<and> seg (lwc_heap w2) (Bucket b) p (us @ vs) None
      \<and> (\<forall>x. x \<notin> set (us @ vs) \<longrightarrow> lwc_heap w2 x = lwc_heap w x) \<and> plain w2 = plain w"
    proof (cases vs)
      case Nil
      then have "lw_next c = None" using v1 by simp
      then show ?thesis using Nil w1 by (simp add: w2_def)
    next
      case (Cons n ns)
      then have n: "lw_next c = Some n" using v1 by simp
      have w2': "w2 = lwc_update n (\<lambda>d. d\<lparr>lw_prevptr := lw_prevptr c\<rparr>) w1" by (simp add: w2_def n)
      have hp: "lwc_heap w2 = (lwc_heap w1)(n := map_option (\<lambda>d. d\<lparr>lw_prevptr := lw_prevptr c\<rparr>) (lwc_heap w1 n))"
        by (simp add: w2' lwc_update_def)
      have "seg (lwc_heap w2) (place_after (Bucket b) us) (lw_next c) vs None"
        using seg_replace_front [of "lwc_heap w1" "NextOf a" "lw_next c" n ns None "lw_prevptr c"] v1 Cons d c(2) by (simp add: hp)
      moreover have "seg (lwc_heap w2) (Bucket b) p us (lw_next c)"
        using w1(2) Cons d by (subst seg_cong [of _ "lwc_heap w1"]) (auto simp: same_links_def hp)
      ultimately have "seg (lwc_heap w2) (Bucket b) p (us @ vs) None" by (auto simp: seg_append)
      moreover have "plain w2 = plain w1" unfolding w2' by (rule plain_update) simp
      ultimately show ?thesis using w1 Cons by (simp add: hp) (simp add: w2' lwc_update_def)
    qed
    then show "lwc_buckets w2 = Some (bs(b := p))" "seg (lwc_heap w2) (Bucket b) p (us @ vs) None"
      "\<forall>x. x \<notin> set (us @ vs) \<longrightarrow> lwc_heap w2 x = lwc_heap w x" "plain w2 = plain w" by blast+
  qed
  have "chains w2 (ch(b := us @ vs))"
  proof (rule chains_change [OF assms(1) bs assms(2) w2(1,2)])
    show "same_links (lwc_heap w) (lwc_heap w2) x" if "x \<notin> set (ch b)" for x
      using that w2(3) assms(3) by (auto simp: same_links_def)
  qed (use d assms(3) in auto)
  moreover have "lwc_heap w2 x = lwc_heap w x" if "x \<notin> members ch" for x
  proof -
    have "x \<notin> set (ch b)" using that assms(2) by (auto simp: members_def)
    then show ?thesis using w2(3) assms(3) by simp
  qed
  ultimately show ?thesis using u w2(1,4) by blast
qed

section \<open>Reference counts\<close>

text \<open>
  What the strings hold apart from their links, \<open>I\<close> over the set \<open>M\<close> of strings in the buckets.
  \<open>held a\<close> is the number of references that callers have to \<open>a\<close>; the others come from strings whose
  lower-case form \<open>a\<close> is.
\<close>

definition pointing :: "(nat \<Rightarrow> lwc_string) \<Rightarrow> nat set \<Rightarrow> nat \<Rightarrow> nat set" where
  "pointing I M a = {y \<in> M. lw_insensitive (I y) = Some a}"

definition counted :: "(nat \<Rightarrow> lwc_string) \<Rightarrow> nat set \<Rightarrow> (nat \<Rightarrow> nat) \<Rightarrow> nat \<Rightarrow> bool" where
  "counted I M held a \<longleftrightarrow> unat (lw_refcnt (I a)) = held a + card (pointing I M a) \<and> 0 < held a + card (pointing I M a - {a})"

definition texts_ok :: "(nat \<Rightarrow> lwc_string) \<Rightarrow> nat set \<Rightarrow> bool" where
  "texts_ok I M \<longleftrightarrow>
     inj_on (\<lambda>a. lw_text (I a)) M
     \<and> (\<forall>a \<in> M. lw_hash (I a) = lwc__calculate_hash (lw_text (I a)))
     \<and> (\<forall>a \<in> M. \<forall>i. lw_insensitive (I a) = Some i \<longrightarrow> i \<in> M \<and> lw_text (I i) = map lwc__dolower (lw_text (I a)))"

definition content :: "(nat \<Rightarrow> lwc_string) \<Rightarrow> nat set \<Rightarrow> (nat \<Rightarrow> nat) \<Rightarrow> bool" where
  "content I M held \<longleftrightarrow> finite M \<and> texts_ok I M \<and> (\<forall>a \<in> M. counted I M held a) \<and> (\<forall>a. a \<notin> M \<longrightarrow> held a = 0)"

lemma pointing_cong: "(\<And>y. y \<in> M \<Longrightarrow> lw_insensitive (I' y) = lw_insensitive (I y)) \<Longrightarrow> pointing I' M a = pointing I M a"
  by (auto simp: pointing_def)

lemma texts_okI:
  assumes "inj_on (\<lambda>a. lw_text (I a)) M"
    and "\<And>a. a \<in> M \<Longrightarrow> lw_hash (I a) = lwc__calculate_hash (lw_text (I a))"
    and "\<And>a i. a \<in> M \<Longrightarrow> lw_insensitive (I a) = Some i \<Longrightarrow> i \<in> M \<and> lw_text (I i) = map lwc__dolower (lw_text (I a))"
  shows "texts_ok I M"
  unfolding texts_ok_def using assms by blast

lemma texts_okD:
  assumes "texts_ok I M"
  shows "inj_on (\<lambda>a. lw_text (I a)) M"
    and "a \<in> M \<Longrightarrow> lw_hash (I a) = lwc__calculate_hash (lw_text (I a))"
    and "a \<in> M \<Longrightarrow> lw_insensitive (I a) = Some i \<Longrightarrow> i \<in> M \<and> lw_text (I i) = map lwc__dolower (lw_text (I a))"
  using assms unfolding texts_ok_def by blast+

lemma texts_ok_same:
  assumes "texts_ok I M"
    and "\<And>y. y \<in> M \<Longrightarrow> lw_text (I' y) = lw_text (I y) \<and> lw_hash (I' y) = lw_hash (I y) \<and> lw_insensitive (I' y) = lw_insensitive (I y)"
  shows "texts_ok I' M"
proof (rule texts_okI)
  have e: "lw_text (I' x) = lw_text (I x)" if "x \<in> M" for x using assms(2) [OF that] by simp
  show "inj_on (\<lambda>a. lw_text (I' a)) M" using inj_on_cong [THEN iffD2, OF e texts_okD(1) [OF assms(1)]] .
qed (use assms(2) texts_okD [OF assms(1)] in metis)+

lemma contentD:
  assumes "content I M held"
  shows "finite M" "texts_ok I M" "a \<in> M \<Longrightarrow> counted I M held a" "a \<notin> M \<Longrightarrow> held a = 0"
  using assms by (simp_all add: content_def)

lemma contentI:
  assumes "finite M" "texts_ok I M" "\<And>a. a \<in> M \<Longrightarrow> counted I M held a" "\<And>a. a \<notin> M \<Longrightarrow> held a = 0"
  shows "content I M held"
  unfolding content_def using assms by blast

lemma content_cong:
  assumes "content I M held" "\<And>y. y \<in> M \<Longrightarrow> I' y = I y"
  shows "content I' M held"
proof -
  have p: "pointing I' M x = pointing I M x" for x using assms(2) by (intro pointing_cong) simp
  have "texts_ok I' M" using contentD(2) [OF assms(1)] by (rule texts_ok_same) (simp add: assms(2))
  moreover have "counted I' M held x" if "x \<in> M" for x
    using contentD(3) [OF assms(1) that] by (simp add: counted_def p assms(2) [OF that])
  ultimately show ?thesis using contentD(1,4) [OF assms(1)] by (intro contentI) simp_all
qed

lemma content_held: "content I M held \<Longrightarrow> 0 < held a \<Longrightarrow> a \<in> M"
  by (auto simp: content_def)

lemma content_countD: "content I M held \<Longrightarrow> a \<in> M \<Longrightarrow> unat (lw_refcnt (I a)) = held a + card (pointing I M a)"
  "content I M held \<Longrightarrow> a \<in> M \<Longrightarrow> 0 < held a + card (pointing I M a - {a})"
  by (auto simp: content_def counted_def)

lemma pointing_finite: "content I M held \<Longrightarrow> finite (pointing I M a)"
  by (simp add: content_def pointing_def)

lemma dolower_idem [simp]: "lwc__dolower (lwc__dolower c) = lwc__dolower c"
proof (cases "65 \<le> (of_char c :: nat) \<and> (of_char c :: nat) \<le> 90")
  case True
  then have "(of_char (char_of ((of_char c :: nat) + 97 - 65)) :: nat) = of_char c + 32" by simp
  then show ?thesis using True by (simp add: lwc__dolower_def Let_def)
next
  case False
  then have "lwc__dolower c = c" by (auto simp: lwc__dolower_def)
  then show ?thesis by simp
qed

lemma dolower_id: "lwc__dolower \<circ> lwc__dolower = lwc__dolower"
  by (simp add: fun_eq_iff)

text \<open>The lower-case form of a lower-case string is the string itself.\<close>

lemma lower_form_fixed:
  assumes "texts_ok I M" "a \<in> M" "lw_insensitive (I a) = Some i" "lw_insensitive (I i) = Some j"
  shows "j = i"
proof -
  have i: "i \<in> M" "lw_text (I i) = map lwc__dolower (lw_text (I a))" and j: "j \<in> M" "lw_text (I j) = map lwc__dolower (lw_text (I i))"
    using assms unfolding texts_ok_def by blast+
  then have "lw_text (I j) = lw_text (I i)" by (simp add: dolower_id)
  then show ?thesis using assms(1) i(1) j(1) unfolding texts_ok_def inj_on_def by blast
qed

lemma content_ref:
  assumes "content I M held" "a \<in> M" "unat (lw_refcnt (I a)) + 1 < 2 ^ 32"
  shows "content (I(a := (I a)\<lparr>lw_refcnt := lw_refcnt (I a) + 1\<rparr>)) M (held(a := held a + 1))"
proof -
  let ?I = "I(a := (I a)\<lparr>lw_refcnt := lw_refcnt (I a) + 1\<rparr>)"
  have p: "pointing ?I M x = pointing I M x" for x by (rule pointing_cong) simp
  have "unat (lw_refcnt (I a) + 1) = unat (lw_refcnt (I a)) + 1" using assms(3) by (subst unat_add_lem [THEN iffD1]) simp_all
  then have "counted ?I M (held(a := held a + 1)) x" if "x \<in> M" for x
    using assms(1) that unfolding counted_def p content_def by (auto simp: counted_def)
  moreover have "texts_ok ?I M" using contentD(2) [OF assms(1)] by (rule texts_ok_same) simp
  ultimately show ?thesis using assms(1,2) by (auto simp: content_def)
qed

lemma content_add:
  assumes "content I M held" "a \<notin> M" "lw_text c \<notin> (\<lambda>a. lw_text (I a)) ` M"
    and "lw_hash c = lwc__calculate_hash (lw_text c)" "lw_refcnt c = 1" "lw_insensitive c = None"
  shows "content (I(a := c)) (insert a M) (held(a := 1))"
proof -
  let ?I = "I(a := c)"
  have p: "pointing ?I (insert a M) x = pointing I M x" for x using assms(2,6) by (auto simp: pointing_def)
  have e: "pointing I M a = {}" using assms(1,2) unfolding pointing_def content_def texts_ok_def by blast
  have "counted ?I (insert a M) (held(a := 1)) x" if "x \<in> insert a M" for x
  proof (cases "x = a")
    case True
    then show ?thesis using assms(5) by (simp add: counted_def p e)
  next
    case False
    then show ?thesis using assms(1) that by (simp add: counted_def p content_def)
  qed
  moreover have "texts_ok ?I (insert a M)"
  proof -
    have t: "texts_ok I M" using assms(1) by (simp add: content_def)
    have e: "lw_text (?I x) = lw_text (I x)" if "x \<in> M" for x using that assms(2) by (cases "x = a") simp_all
    have "inj_on (\<lambda>a. lw_text (?I a)) M" using inj_on_cong [THEN iffD2, OF e texts_okD(1) [OF t]] .
    moreover have "(\<lambda>a. lw_text (?I a)) ` (M - {a}) = (\<lambda>a. lw_text (I a)) ` M" using image_cong [OF refl e, of M] assms(2) by simp
    ultimately have inj: "inj_on (\<lambda>a. lw_text (?I a)) (insert a M)" using assms(3) by (simp add: inj_on_insert)
    have ins: "i \<in> insert a M \<and> lw_text (?I i) = map lwc__dolower (lw_text (?I x))"
      if "x \<in> insert a M" "lw_insensitive (?I x) = Some i" for x i
    proof -
      have x: "x \<noteq> a" "x \<in> M" using that assms(6) by auto
      then have "i \<in> M \<and> lw_text (I i) = map lwc__dolower (lw_text (I x))" using that(2) by (intro texts_okD(3) [OF t]) simp_all
      then show ?thesis using x assms(2) by auto
    qed
    show ?thesis by (rule texts_okI [OF inj _ ins]) (use texts_okD(2) [OF t] assms(4) in auto)
  qed
  ultimately show ?thesis using assms(1) by (auto simp: content_def)
qed

lemma content_link:
  assumes "content I M held" "a \<in> M" "i \<in> M" "lw_insensitive (I a) = None" "lw_text (I i) = map lwc__dolower (lw_text (I a))"
    and "0 < held i" "i = a \<longrightarrow> 1 < held a"
  shows "content (I(a := (I a)\<lparr>lw_insensitive := Some i\<rparr>)) M (held(i := held i - 1))"
proof -
  let ?I = "I(a := (I a)\<lparr>lw_insensitive := Some i\<rparr>)"
  have p: "pointing ?I M x = (if x = i then insert a (pointing I M i) else pointing I M x)" for x
    using assms(2,4) by (auto simp: pointing_def)
  have na: "a \<notin> pointing I M i" using assms(4) by (simp add: pointing_def)
  have fin: "finite (pointing I M i)" using assms(1) by (rule pointing_finite)
  have "counted ?I M (held(i := held i - 1)) x" if "x \<in> M" for x
  proof (cases "x = i")
    case False
    moreover have "counted I M held x" using assms(1) that by (simp add: content_def)
    ultimately show ?thesis by (cases "x = a") (simp_all add: counted_def p)
  next
    case True
    have c: "unat (lw_refcnt (I i)) = held i + card (pointing I M i)" "0 < held i + card (pointing I M i - {i})"
      using content_countD [OF assms(1,3)] by blast+
    have "0 < card (insert a (pointing I M i) - {i})" if "a \<noteq> i"
      using that fin by (auto simp: card_gt_0_iff)
    then have "0 < held i - 1 + card (insert a (pointing I M i) - {i})" using assms(7) by (cases "a = i") auto
    moreover have "card (insert a (pointing I M i)) = card (pointing I M i) + 1" using na fin by simp
    ultimately show ?thesis using c assms(6) True unfolding counted_def p by (cases "i = a") (simp_all, linarith)
  qed
  moreover have "texts_ok ?I M"
  proof (rule texts_okI)
    have t: "texts_ok I M" using assms(1) by (simp add: content_def)
    have e: "lw_text (?I x) = lw_text (I x)" for x by simp
    show "inj_on (\<lambda>a. lw_text (?I a)) M" unfolding e by (rule texts_okD(1) [OF t])
    show "lw_hash (?I x) = lwc__calculate_hash (lw_text (?I x))" if "x \<in> M" for x
      using texts_okD(2) [OF t that] by auto
    show "j \<in> M \<and> lw_text (?I j) = map lwc__dolower (lw_text (?I x))" if "x \<in> M" "lw_insensitive (?I x) = Some j" for x j
    proof (cases "x = a")
      case True
      then show ?thesis using that(2) assms(3,5) by auto
    next
      case False
      then have "j \<in> M \<and> lw_text (I j) = map lwc__dolower (lw_text (I x))" using that by (intro texts_okD(3) [OF t]) simp_all
      then show ?thesis using False by auto
    qed
  qed
  ultimately show ?thesis using assms(1,3) by (auto simp: content_def)
qed

text \<open>A reference given back that is not the last.\<close>

lemma content_unref:
  assumes "content I M held" "0 < held a" "n = lw_refcnt (I a) - 1" "\<not> (n = 0 \<or> n = 1 \<and> lw_insensitive (I a) = Some a)"
  shows "content (I(a := (I a)\<lparr>lw_refcnt := n\<rparr>)) M (held(a := held a - 1))"
proof -
  let ?I = "I(a := (I a)\<lparr>lw_refcnt := n\<rparr>)"
  have p: "pointing ?I M x = pointing I M x" for x by (rule pointing_cong) simp
  have am: "a \<in> M" using assms(1,2) by (rule content_held)
  have c: "unat (lw_refcnt (I a)) = held a + card (pointing I M a)" using content_countD [OF assms(1) am] by blast
  then have n: "unat n = held a + card (pointing I M a) - 1" using assms(2,3)
    by (subst assms(3), subst unat_minus_one) auto
  have "unat n \<noteq> 0" using assms(4) by (auto simp: unat_eq_zero)
  moreover have "unat n \<noteq> 1" if "lw_insensitive (I a) = Some a"
    using assms(4) that by (auto simp: word_unat_eq_iff)
  moreover have "card (pointing I M a) = card (pointing I M a - {a}) + (if lw_insensitive (I a) = Some a then 1 else 0)"
    using pointing_finite [OF assms(1), of a] am by (auto simp: pointing_def card_Diff_singleton_if)
      (metis (mono_tags, lifting) One_nat_def Suc_pred' card_gt_0_iff empty_iff mem_Collect_eq)
  ultimately have pos: "0 < held a - 1 + card (pointing I M a - {a})" using n assms(2) by (auto split: if_splits)
  have "counted ?I M (held(a := held a - 1)) x" if "x \<in> M" for x
    using assms(1,2) that n pos unfolding counted_def p content_def by (auto simp: counted_def)
  moreover have "texts_ok ?I M" using contentD(2) [OF assms(1)] by (rule texts_ok_same) simp
  ultimately show ?thesis using assms(1) am by (auto simp: content_def)
qed

text \<open>
  The last: no other string points at it, and its own reference to its lower-case form passes to
  the caller.
\<close>

lemma last_reference:
  assumes "content I M held" "0 < held a" "n = lw_refcnt (I a) - 1" "n = 0 \<or> n = 1 \<and> lw_insensitive (I a) = Some a"
  shows "held a = 1" "pointing I M a \<subseteq> {a}" "n = 0 \<longleftrightarrow> lw_insensitive (I a) \<noteq> Some a"
proof -
  have am: "a \<in> M" using assms(1,2) by (rule content_held)
  have c: "unat (lw_refcnt (I a)) = held a + card (pointing I M a)" using content_countD [OF assms(1) am] by blast
  have fin: "finite (pointing I M a)" using assms(1) by (rule pointing_finite)
  have "unat n = held a + card (pointing I M a) - 1" using assms(2,3) c
    by (subst assms(3), subst unat_minus_one) auto
  moreover have s: "lw_insensitive (I a) = Some a \<longleftrightarrow> a \<in> pointing I M a" using am by (simp add: pointing_def)
  ultimately have k: "held a + card (pointing I M a) \<le> (if a \<in> pointing I M a then 2 else 1)" and
    n: "n = 0 \<longleftrightarrow> held a + card (pointing I M a) = 1"
    using assms(2,4) by (auto simp: unat_eq_zero [symmetric] split: if_splits)
  show "pointing I M a \<subseteq> {a}"
  proof (cases "a \<in> pointing I M a")
    case True
    then have "0 < card (pointing I M a)" using fin card_gt_0_iff by blast
    then have "card (pointing I M a) = 1" using k assms(2) True by simp
    then show ?thesis using True by (auto simp: card_1_singleton_iff)
  next
    case False
    then have "card (pointing I M a) = 0" using k assms(2) by simp
    then show ?thesis using fin by simp
  qed
  then have "card (pointing I M a) = (if a \<in> pointing I M a then 1 else 0)" by (auto simp: subset_singleton_iff)
  then show "held a = 1" "n = 0 \<longleftrightarrow> lw_insensitive (I a) \<noteq> Some a" using k n s assms(2) by (auto split: if_splits)
qed

definition passed :: "(nat \<Rightarrow> lwc_string) \<Rightarrow> nat \<Rightarrow> (nat \<Rightarrow> nat) \<Rightarrow> nat \<Rightarrow> nat" where
  "passed I a held =
     (case lw_insensitive (I a) of
        None \<Rightarrow> held(a := 0)
      | Some i \<Rightarrow> if i = a then held(a := 0) else held(a := 0, i := held i + 1))"

lemma content_drop:
  assumes "content I M held" "held a = 1" "pointing I M a \<subseteq> {a}"
  shows "content I (M - {a}) (passed I a held)"
proof -
  have am: "a \<in> M" using assms(1,2) by (simp add: content_held)
  have t: "texts_ok I M" using assms(1) by (simp add: content_def)
  have "counted I (M - {a}) (passed I a held) x" if x: "x \<in> M - {a}" for x
  proof (cases "lw_insensitive (I a) = Some x")
    case True
    then have px: "pointing I M x = insert a (pointing I (M - {a}) x)" "a \<notin> pointing I (M - {a}) x"
      using am by (auto simp: pointing_def)
    have fin: "finite (pointing I (M - {a}) x)" using assms(1) by (simp add: content_def pointing_def)
    have "unat (lw_refcnt (I x)) = held x + card (pointing I M x)" using content_countD(1) [OF assms(1)] x by blast
    then show ?thesis using True x px fin by (simp add: counted_def passed_def)
  next
    case False
    then have "pointing I (M - {a}) x = pointing I M x" by (auto simp: pointing_def)
    moreover have "passed I a held x = held x" using False x by (simp add: passed_def split: option.split)
    moreover have "counted I M held x" using assms(1) x by (simp add: content_def)
    ultimately show ?thesis by (simp add: counted_def)
  qed
  moreover have "texts_ok I (M - {a})"
  proof -
    have "i \<noteq> a" if "x \<in> M - {a}" "lw_insensitive (I x) = Some i" for x i
      using that assms(3) by (auto simp: pointing_def)
    then have ins: "i \<in> M - {a} \<and> lw_text (I i) = map lwc__dolower (lw_text (I x))" if "x \<in> M - {a}" "lw_insensitive (I x) = Some i" for x i
      using that texts_okD(3) [OF t, of x i] by blast
    show ?thesis
    proof (rule texts_okI [OF _ _ ins])
      show "inj_on (\<lambda>a. lw_text (I a)) (M - {a})" using texts_okD(1) [OF t] by (rule inj_on_diff)
      show "lw_hash (I x) = lwc__calculate_hash (lw_text (I x))" if "x \<in> M - {a}" for x using texts_okD(2) [OF t, of x] that by simp
    qed
  qed
  moreover have "passed I a held x = 0" if "x \<notin> M - {a}" for x
  proof -
    have "x = a \<or> held x = 0" using that contentD(4) [OF assms(1), of x] by (cases "x = a") simp_all
    then show ?thesis
    proof (cases "lw_insensitive (I a)")
      case None
      then show ?thesis using \<open>x = a \<or> held x = 0\<close> unfolding passed_def None option.case by (cases "x = a") simp_all
    next
      case (Some i)
      then have "i \<in> M" using texts_okD(3) [OF t am] by blast
      then have "x \<noteq> i \<or> x = a" using that by (cases "x = i") simp_all
      then show ?thesis using \<open>x = a \<or> held x = 0\<close> unfolding passed_def Some option.case
        by (cases "x = a"; cases "i = a") simp_all
    qed
  qed
  ultimately show ?thesis using contentD(1) [OF assms(1)] by (intro contentI) simp_all
qed

text \<open>When callers hold nothing, there is nothing.\<close>

lemma nothing_held:
  assumes "content I M held" "\<forall>a. held a = 0"
  shows "M = {}"
proof (rule ccontr)
  assume "M \<noteq> {}"
  have t: "texts_ok I M" using assms(1) by (simp add: content_def)
  have src: "\<exists>y \<in> M. y \<noteq> a \<and> lw_insensitive (I y) = Some a" if "a \<in> M" for a
    using content_countD(2) [OF assms(1) that] assms(2) by (auto simp: card_gt_0_iff pointing_def)
  obtain a y z where a: "a \<in> M" and y: "y \<in> M" "y \<noteq> a" "lw_insensitive (I y) = Some a"
    and z: "z \<in> M" "lw_insensitive (I z) = Some y"
    using \<open>M \<noteq> {}\<close> src by (metis ex_in_conv)
  show False using lower_form_fixed [OF t z(1,2) y(3)] y(2) by simp
qed

end
