(* ===== verification/WapcapletOps.thy ===== *)
theory WapcapletOps
  imports WapcapletProps
begin

text \<open>
  The invariant of string internment, \<open>lwc_ok\<close>, and what each operation does to it. \<open>ch\<close> are the
  bucket lists, \<open>fl\<close> the strings taken out of their bucket and not yet freed, \<open>held\<close> the references
  that callers have.
\<close>

section \<open>The invariant\<close>

definition erase_links :: "lwc_string \<Rightarrow> lwc_string" where
  "erase_links c = c\<lparr>lw_prevptr := Bucket 0, lw_next := None\<rparr>"

definition info :: "lwc_world \<Rightarrow> nat \<Rightarrow> lwc_string" where
  "info w a = the (plain w a)"

definition placed :: "(nat \<Rightarrow> lwc_string) \<Rightarrow> (nat \<Rightarrow> nat list) \<Rightarrow> bool" where
  "placed I ch \<longleftrightarrow> (\<forall>b < NR_BUCKETS_DEFAULT. \<forall>a \<in> set (ch b). unat (lw_hash (I a)) mod NR_BUCKETS_DEFAULT = b)"

definition lwc_ok :: "lwc_world \<Rightarrow> (nat \<Rightarrow> nat list) \<Rightarrow> nat set \<Rightarrow> (nat \<Rightarrow> nat) \<Rightarrow> bool" where
  "lwc_ok w ch fl held \<longleftrightarrow>
     chains w ch \<and> placed (info w) ch \<and> content (info w) (members ch) held
     \<and> dom (lwc_heap w) = members ch \<union> fl \<and> members ch \<inter> fl = {}"

lemma lwc_okD:
  assumes "lwc_ok w ch fl held"
  shows "chains w ch" "placed (info w) ch" "content (info w) (members ch) held" "dom (lwc_heap w) = members ch \<union> fl"
    "members ch \<inter> fl = {}"
  using assms by (simp_all add: lwc_ok_def)

lemma plain_erase: "plain w a = map_option erase_links (lwc_heap w a)"
  by (simp add: plain_def erase_links_def [abs_def])

lemma info_some: "lwc_heap w a = Some c \<Longrightarrow> info w a = erase_links c"
  by (simp add: info_def plain_erase)

lemma erase_fields [simp]: "lw_hash (erase_links c) = lw_hash c" "lw_refcnt (erase_links c) = lw_refcnt c"
  "lw_insensitive (erase_links c) = lw_insensitive c" "lw_text (erase_links c) = lw_text c"
  by (simp_all add: erase_links_def)

lemma same_plain: "plain w' = plain w \<Longrightarrow> info w' = info w" "plain w' = plain w \<Longrightarrow> dom (lwc_heap w') = dom (lwc_heap w)"
proof -
  assume *: "plain w' = plain w"
  then show "info w' = info w" by (simp add: info_def fun_eq_iff)
  have "lwc_heap w' x = None \<longleftrightarrow> lwc_heap w x = None" for x
    using fun_cong [OF *, of x] by (simp add: plain_def) (metis option.map_disc_iff)
  then show "dom (lwc_heap w') = dom (lwc_heap w)" by (auto simp: dom_def)
qed

lemma member_node:
  assumes "lwc_ok w ch fl held" "a \<in> members ch"
  obtains c where "lwc_heap w a = Some c" "info w a = erase_links c"
proof -
  obtain c where "lwc_heap w a = Some c" using chains_member_alive [OF lwc_okD(1) [OF assms(1)] assms(2)] by blast
  then show ?thesis by (intro that [of c] info_some)
qed

lemma held_member: "lwc_ok w ch fl held \<Longrightarrow> 0 < held a \<Longrightarrow> a \<in> members ch"
  by (rule content_held [OF lwc_okD(3)])

text \<open>A change of a string's data and not of its links.\<close>

lemma update_data:
  assumes "\<And>c. lw_prevptr (f c) = lw_prevptr c" "\<And>c. lw_next (f c) = lw_next c" "\<And>c. erase_links (f c) = f (erase_links c)"
    and "lwc_heap w a \<noteq> None"
  shows "chains (lwc_update a f w) ch \<longleftrightarrow> chains w ch" "info (lwc_update a f w) = (info w)(a := f (info w a))"
    "dom (lwc_heap (lwc_update a f w)) = dom (lwc_heap w)" "lwc_buckets (lwc_update a f w) = lwc_buckets w"
proof -
  have "same_links (lwc_heap w) (lwc_heap (lwc_update a f w)) x" for x
    using assms(1,2) by (cases "lwc_heap w a") (simp_all add: same_links_def lwc_update_def)
  then have sg: "seg (lwc_heap (lwc_update a f w)) place p xs q \<longleftrightarrow> seg (lwc_heap w) place p xs q" for place p xs q
    by (intro seg_cong) simp
  show b: "lwc_buckets (lwc_update a f w) = lwc_buckets w" by (simp add: lwc_update_def)
  show "chains (lwc_update a f w) ch \<longleftrightarrow> chains w ch" unfolding chains_def sg b by (rule refl)
  show "info (lwc_update a f w) = (info w)(a := f (info w a))"
    using assms(3,4) by (auto simp: fun_eq_iff info_def plain_erase lwc_update_def)
  show "dom (lwc_heap (lwc_update a f w)) = dom (lwc_heap w)" using assms(4) by (auto simp: lwc_update_def)
qed

lemma update_ok:
  assumes "lwc_ok w ch fl held" "a \<in> members ch" "content ((info w)(a := f (info w a))) (members ch) held'"
    and "\<And>c. lw_prevptr (f c) = lw_prevptr c" "\<And>c. lw_next (f c) = lw_next c" "\<And>c. erase_links (f c) = f (erase_links c)"
    and "\<And>c. lw_hash (f c) = lw_hash c"
  shows "lwc_ok (lwc_update a f w) ch fl held'" "info (lwc_update a f w) = (info w)(a := f (info w a))"
proof -
  have "lwc_heap w a \<noteq> None" using lwc_okD(1) [OF assms(1)] assms(2) by (rule chains_member_alive)
  note u = update_data [of f, OF assms(4-6) this]
  show "info (lwc_update a f w) = (info w)(a := f (info w a))" by (rule u(2))
  have "placed ((info w)(a := f (info w a))) ch" using lwc_okD(2) [OF assms(1)] assms(7) by (simp add: placed_def)
  then show "lwc_ok (lwc_update a f w) ch fl held'"
    using lwc_okD(1,4,5) [OF assms(1)] assms(3) unfolding lwc_ok_def u by simp
qed

lemma members_insert: "b < NR_BUCKETS_DEFAULT \<Longrightarrow> members (ch(b := a # ch b)) = insert a (members ch)"
  by (auto simp: members_def split: if_splits)

lemma members_remove:
  assumes "chains w ch" "b < NR_BUCKETS_DEFAULT" "ch b = us @ a # vs"
  shows "members (ch(b := us @ vs)) = members ch - {a}"
proof -
  have d: "distinct (ch b)" using assms(1,2) by (simp add: chains_def)
  have o: "a \<notin> set (ch b')" if "b' < NR_BUCKETS_DEFAULT" "b' \<noteq> b" for b'
    using assms that unfolding chains_def by fastforce
  have "set (us @ vs) = set (ch b) - {a}" using d assms(3) by auto
  then show ?thesis using o assms(2) by (auto simp: members_def split: if_splits)
qed

section \<open>Finding a text\<close>

lemma find_seg:
  "seg (lwc_heap w) place p xs None \<Longrightarrow> lwc_find w P p = Some (List.find (\<lambda>a. P (the (lwc_heap w a))) xs)"
proof (induction xs arbitrary: place p)
  case Nil
  then show ?case by (simp add: lwc_find.simps)
next
  case (Cons x xs)
  then obtain c where "p = Some x" "lwc_heap w x = Some c" "seg (lwc_heap w) (NextOf x) (lw_next c) xs None" by auto
  then show ?case using Cons.IH by (subst lwc_find.simps) simp
qed

definition bucket_of :: "bytes \<Rightarrow> nat" where
  "bucket_of t = unat (lwc__calculate_hash t) mod NR_BUCKETS_DEFAULT"

lemma bucket_of_less [simp]: "bucket_of t < NR_BUCKETS_DEFAULT"
  by (simp add: bucket_of_def NR_BUCKETS_DEFAULT_def)

lemma member_bucket:
  assumes "lwc_ok w ch fl held" "a \<in> members ch"
  shows "a \<in> set (ch (bucket_of (lw_text (info w a))))"
proof -
  obtain b where b: "b < NR_BUCKETS_DEFAULT" "a \<in> set (ch b)" using assms(2) by (auto simp: members_def)
  then have "unat (lw_hash (info w a)) mod NR_BUCKETS_DEFAULT = b" using lwc_okD(2) [OF assms(1)] by (simp add: placed_def)
  moreover have "lw_hash (info w a) = lwc__calculate_hash (lw_text (info w a))"
    using texts_okD(2) [OF contentD(2) [OF lwc_okD(3) [OF assms(1)]] assms(2)] .
  ultimately show ?thesis using b(2) by (simp add: bucket_of_def)
qed

text \<open>
  The text \<open>u\<close> of a string that \<open>lwc__intern\<close> takes for the wanted text \<open>t\<close>, which it was given
  as \<open>s\<close>: hash and length agree and the comparison holds.
\<close>

definition matching :: "(bytes \<Rightarrow> bytes \<Rightarrow> nat \<Rightarrow> bool) \<Rightarrow> bytes \<Rightarrow> bytes \<Rightarrow> bytes \<Rightarrow> bool" where
  "matching compare s t u \<longleftrightarrow> lwc__calculate_hash u = lwc__calculate_hash t \<and> length u = length s \<and> compare u s (length s)"

lemma find_text:
  assumes ok: "lwc_ok w ch fl held" and bs: "lwc_buckets w = Some bs"
  shows "lwc_find w (\<lambda>str. lw_hash str = lwc__calculate_hash t \<and> length (lw_text str) = length s \<and> compare (lw_text str) s (length s))
      (bs (bucket_of t))
    = Some (List.find (\<lambda>a. matching compare s t (lw_text (info w a))) (ch (bucket_of t)))"
proof -
  have sg: "seg (lwc_heap w) (Bucket (bucket_of t)) (bs (bucket_of t)) (ch (bucket_of t)) None"
    using lwc_okD(1) [OF ok] bs by (simp add: chains_def)
  have "(lw_hash (the (lwc_heap w a)) = lwc__calculate_hash t \<and> length (lw_text (the (lwc_heap w a))) = length s
      \<and> compare (lw_text (the (lwc_heap w a))) s (length s)) \<longleftrightarrow> matching compare s t (lw_text (info w a))"
    if "a \<in> set (ch (bucket_of t))" for a
  proof -
    have m: "a \<in> members ch" using that by (auto simp: members_def)
    obtain c where c: "lwc_heap w a = Some c" "info w a = erase_links c" using member_node [OF ok m] by blast
    note d = texts_okD(2) [OF contentD(2) [OF lwc_okD(3) [OF ok]] m]
    show ?thesis using d unfolding c matching_def by auto
  qed
  then show ?thesis by (subst find_seg [OF sg]) (simp cong: find_cong)
qed

section \<open>Interning\<close>

text \<open>What is under a string's address stays: its text, and its lower-case form once it is known.\<close>

definition kept :: "(nat \<Rightarrow> lwc_string) \<Rightarrow> (nat \<Rightarrow> lwc_string) \<Rightarrow> nat set \<Rightarrow> bool" where
  "kept I I' M \<longleftrightarrow>
     (\<forall>x \<in> M. lw_text (I' x) = lw_text (I x) \<and> (lw_insensitive (I x) = None \<or> lw_insensitive (I' x) = lw_insensitive (I x)))"

definition room :: "nat \<Rightarrow> (nat \<Rightarrow> lwc_string) \<Rightarrow> nat set \<Rightarrow> bool" where
  "room k I M \<longleftrightarrow> (\<forall>x \<in> M. unat (lw_refcnt (I x)) + k < 2 ^ 32)"

text \<open>Memory that is given out is not in use.\<close>

definition fresh_alloc :: "lwc_env \<Rightarrow> bool" where
  "fresh_alloc env \<longleftrightarrow> (\<forall>hp n a. lwc_alloc env hp n = Some a \<longrightarrow> hp a = None)"

lemma kept_refl [simp]: "kept I I M"
  by (simp add: kept_def)

lemma kept_text: "kept I I' M \<Longrightarrow> x \<in> M \<Longrightarrow> lw_text (I' x) = lw_text (I x)"
  by (simp add: kept_def)

lemma kept_insensitive: "kept I I' M \<Longrightarrow> x \<in> M \<Longrightarrow> lw_insensitive (I x) = Some i \<Longrightarrow> lw_insensitive (I' x) = Some i"
  unfolding kept_def by force

lemma kept_trans:
  assumes "kept I I1 M" "kept I1 I2 M1" "M \<subseteq> M1"
  shows "kept I I2 M"
  unfolding kept_def
proof (intro ballI conjI)
  fix x assume x: "x \<in> M"
  then have x1: "x \<in> M1" using assms(3) by blast
  show "lw_text (I2 x) = lw_text (I x)" using kept_text [OF assms(1) x] kept_text [OF assms(2) x1] by simp
  show "lw_insensitive (I x) = None \<or> lw_insensitive (I2 x) = lw_insensitive (I x)"
    using kept_insensitive [OF assms(1) x] kept_insensitive [OF assms(2) x1] by (cases "lw_insensitive (I x)") simp_all
qed

lemma kept_update: "kept I (I(a := c)) M \<longleftrightarrow> (a \<in> M \<longrightarrow> lw_text c = lw_text (I a) \<and> (lw_insensitive (I a) = None \<or> lw_insensitive c = lw_insensitive (I a)))"
  by (auto simp: kept_def)

text \<open>
  What interning the text \<open>t\<close> comes to: the string with that text, and one more reference; or out of
  memory and nothing changed.
\<close>

definition interned :: "lwc_world \<Rightarrow> (nat \<Rightarrow> nat list) \<Rightarrow> nat set \<Rightarrow> (nat \<Rightarrow> nat) \<Rightarrow> bytes \<Rightarrow> lwc_world \<Rightarrow> (nat \<Rightarrow> nat list) \<Rightarrow> nat \<Rightarrow> bool" where
  "interned w ch fl held t w' ch' a \<longleftrightarrow>
     lwc_ok w' ch' fl (held(a := held a + 1)) \<and> a \<in> members ch' \<and> lw_text (info w' a) = t
     \<and> members ch \<subseteq> members ch' \<and> kept (info w) (info w') (members ch)
     \<and> (\<forall>x \<in> members ch. lw_insensitive (info w' x) = lw_insensitive (info w x))
     \<and> (\<forall>k \<le> 2. room (Suc k) (info w) (members ch) \<longrightarrow> room k (info w') (members ch'))"

definition intern_fails :: "lwc_world \<Rightarrow> (nat \<Rightarrow> nat list) \<Rightarrow> nat set \<Rightarrow> (nat \<Rightarrow> nat) \<Rightarrow> lwc_error \<Rightarrow> lwc_world \<Rightarrow> bool" where
  "intern_fails w ch fl held err w' \<longleftrightarrow>
     err = lwc_error_oom \<and> lwc_ok w' ch fl held \<and> lwc_heap w' = lwc_heap w \<and> info w' = info w"

lemma initialise_ok:
  assumes "lwc_ok w ch fl held" "lwc__initialise env w = (err, w')"
  shows "lwc_ok w' ch fl held \<and> lwc_heap w' = lwc_heap w \<and> info w' = info w \<and> (err = lwc_error_ok \<and> lwc_buckets w' \<noteq> None \<or> err = lwc_error_oom)"
proof (cases "lwc_buckets w")
  case None
  then have ch: "\<forall>b < NR_BUCKETS_DEFAULT. ch b = []" using lwc_okD(1) [OF assms(1)] by (simp add: chains_def)
  have i: "info (w\<lparr>lwc_buckets := Some (\<lambda>_. None)\<rparr>) = info w" by (simp add: info_def plain_def fun_eq_iff)
  moreover have "chains (w\<lparr>lwc_buckets := Some (\<lambda>_. None)\<rparr>) ch" using ch by (simp add: chains_def)
  ultimately have "lwc_ok (w\<lparr>lwc_buckets := Some (\<lambda>_. None)\<rparr>) ch fl held" using assms(1) by (simp add: lwc_ok_def)
  then show ?thesis using None assms i by (auto simp: lwc__initialise_def split: if_splits)
qed (use assms in \<open>auto simp: lwc__initialise_def\<close>)

lemma count_up_ok:
  assumes ok: "lwc_ok w ch fl held" and a: "a \<in> members ch" and r: "unat (lw_refcnt (info w a)) + 1 < 2 ^ 32"
  shows "interned w ch fl held (lw_text (info w a)) (lwc_update a (\<lambda>c. c\<lparr>lw_refcnt := lw_refcnt c + 1\<rparr>) w) ch a"
proof -
  let ?w = "lwc_update a (\<lambda>c. c\<lparr>lw_refcnt := lw_refcnt c + 1\<rparr>) w"
  have ok': "lwc_ok ?w ch fl (held(a := held a + 1))" and i: "info ?w = (info w)(a := (info w a)\<lparr>lw_refcnt := lw_refcnt (info w a) + 1\<rparr>)"
    using update_ok [of _ _ _ _ _ "\<lambda>c. c\<lparr>lw_refcnt := lw_refcnt c + 1\<rparr>", OF ok a content_ref [OF lwc_okD(3) [OF ok] a r]]
    by (simp_all add: erase_links_def)
  have n: "unat (lw_refcnt (info w a) + 1) = unat (lw_refcnt (info w a)) + 1" using r by (subst unat_add_lem [THEN iffD1]) simp_all
  have "room k (info ?w) (members ch)" if "room (Suc k) (info w) (members ch)" for k
    using that n a unfolding room_def i by auto
  then show ?thesis using ok' a unfolding interned_def by (simp add: i kept_update)
qed

lemma insert_ok:
  assumes ok: "lwc_ok w ch fl held" and bs: "lwc_buckets w = Some bs" and fresh: "lwc_heap w a = None"
    and new: "t \<notin> (\<lambda>a. lw_text (info w a)) ` members ch"
    and str: "str = \<lparr>lw_prevptr = Bucket (bucket_of t), lw_next = bs (bucket_of t), lw_hash = lwc__calculate_hash t, lw_refcnt = 1,
      lw_insensitive = None, lw_text = t\<rparr>"
    and w1: "w1 = w\<lparr>lwc_heap := (lwc_heap w)(a \<mapsto> str)\<rparr>"
    and w2: "w2 = (case bs (bucket_of t) of None \<Rightarrow> w1 | Some n \<Rightarrow> lwc_update n (\<lambda>c. c\<lparr>lw_prevptr := NextOf a\<rparr>) w1)"
    and w3: "w3 = lwc_write (Bucket (bucket_of t)) (Some a) w2"
  shows "interned w ch fl held t w3 (ch(bucket_of t := a # ch (bucket_of t))) a"
proof -
  let ?ch = "ch(bucket_of t := a # ch (bucket_of t))"
  have dom: "dom (lwc_heap w) = members ch \<union> fl" using lwc_okD(4) [OF ok] .
  then have na: "a \<notin> members ch" "a \<notin> fl" using fresh by auto
  have c: "chains w3 ?ch" and p: "plain w3 = plain w1"
    using insert_chains [OF lwc_okD(1) [OF ok] bs bucket_of_less fresh na(1) _ _ w1 w2 w3] str by simp_all
  have i: "info w3 = (info w)(a := erase_links str)"
    using same_plain(1) [OF p] by (simp add: w1 info_def plain_erase fun_eq_iff)
  have h: "held a = 0" using lwc_okD(3) [OF ok] na(1) by (simp add: contentD(4))
  have m: "members ?ch = insert a (members ch)" by (simp add: members_insert)
  have "content (info w3) (members ?ch) (held(a := held a + 1))"
    unfolding i m using content_add [OF lwc_okD(3) [OF ok] na(1), of "erase_links str"] new h by (simp add: str)
  moreover have "placed (info w3) ?ch"
    unfolding placed_def i
  proof (intro allI impI ballI)
    fix b x assume b: "b < NR_BUCKETS_DEFAULT" "x \<in> set (?ch b)"
    show "unat (lw_hash (((info w)(a := erase_links str)) x)) mod NR_BUCKETS_DEFAULT = b"
    proof (cases "x = a")
      case True
      have "b = bucket_of t"
      proof (rule ccontr)
        assume "b \<noteq> bucket_of t"
        then have "a \<in> members ch" using b True by (auto simp: members_def)
        then show False using na(1) by blast
      qed
      then show ?thesis using True by (simp add: str bucket_of_def)
    next
      case False
      then have "x \<in> set (ch b)" using b by (auto split: if_splits)
      then show ?thesis using lwc_okD(2) [OF ok] b False by (simp add: placed_def)
    qed
  qed
  moreover have "dom (lwc_heap w3) = members ?ch \<union> fl" using same_plain(2) [OF p] dom m by (simp add: w1)
  ultimately have "lwc_ok w3 ?ch fl (held(a := held a + 1))"
    using c lwc_okD(5) [OF ok] na(2) unfolding lwc_ok_def m by simp
  moreover have "room k (info w3) (members ?ch)" if "k \<le> 2" "room (Suc k) (info w) (members ch)" for k
    using that unfolding room_def i m by (auto simp: str)
  ultimately show ?thesis unfolding interned_def m using na(1) by (simp add: i kept_update str subset_insertI)
qed

text \<open>\<open>lwc__intern\<close> with any hasher, comparison and copying that belong to the text \<open>t\<close>.\<close>

lemma intern_spec:
  assumes ok: "lwc_ok w ch fl held" and env: "fresh_alloc env" and r: "room 1 (info w) (members ch)"
    and hash: "hasher s = lwc__calculate_hash t" and copy: "copy s = t" and self: "matching compare s t t"
  shows "\<exists>err ret w'. lwc__intern env hasher compare copy s w = Some ((err, ret), w') \<and>
     ((\<exists>a ch' u. err = lwc_error_ok \<and> ret = Some (Some a) \<and> matching compare s t u \<and> interned w ch fl held u w' ch' a)
      \<or> (ret = None \<or> ret = Some None) \<and> intern_fails w ch fl held err w')"
proof -
  obtain eret w0 where i: "lwc__initialise env w = (eret, w0)" by fastforce
  note i' = initialise_ok [OF ok i]
  show ?thesis
  proof (cases "eret = lwc_error_ok")
    case False
    then show ?thesis using i i' by (simp add: lwc__intern_def intern_fails_def)
  next
    case True
    have ok0: "lwc_ok w0 ch fl held" and e0: "info w0 = info w" "lwc_heap w0 = lwc_heap w" using i' by blast+
    obtain bs where bs: "lwc_buckets w0 = Some bs" using i' True by auto
    note f = find_text [OF ok0 bs, of t s compare]
    have b: "unat (lwc__calculate_hash t) mod NR_BUCKETS_DEFAULT = bucket_of t" by (simp add: bucket_of_def)
    have to_w: "interned w ch fl held u w' ch' a" if "interned w0 ch fl held u w' ch' a" for u w' ch' a
      using that unfolding interned_def e0 by blast
    show ?thesis
    proof (cases "List.find (\<lambda>a. matching compare s t (lw_text (info w0 a))) (ch (bucket_of t))")
      case (Some a)
      then have a: "a \<in> set (ch (bucket_of t))" "matching compare s t (lw_text (info w0 a))" by (auto simp: find_Some_iff)
      then have m: "a \<in> members ch" by (auto simp: members_def)
      have "unat (lw_refcnt (info w0 a)) + 1 < 2 ^ 32" using r m e0(1) by (simp add: room_def)
      from to_w [OF count_up_ok [OF ok0 m this]] a(2) show ?thesis
        unfolding lwc__intern_def i True hash by (simp add: Let_def b bs f Some) blast
    next
      case None
      have new: "t \<notin> (\<lambda>a. lw_text (info w0 a)) ` members ch"
        using None member_bucket [OF ok0] self by (auto simp: find_None_iff)
      show ?thesis
      proof (cases "lwc_alloc env (lwc_heap w0) (length s + 1)")
        case no_mem: None
        have "intern_fails w ch fl held lwc_error_oom w0" using ok0 e0 by (simp add: intern_fails_def)
        then show ?thesis using no_mem unfolding lwc__intern_def i True hash by (simp add: Let_def b bs f None)
      next
        case (Some a)
        have "lwc_heap w0 a = None" using env Some by (simp add: fresh_alloc_def)
        note n = insert_ok [OF ok0 bs this new refl refl refl refl]
        show ?thesis using to_w [OF n] self unfolding lwc__intern_def i True hash copy by (simp add: Let_def b bs f None Some [simplified]) blast
      qed
    qed
  qed
qed

text \<open>
  What \<open>lwc_intern_string\<close> takes for the same text: hash and length agree, and the texts agree up
  to their first NUL. Texts without NUL are the same only if they are equal.
\<close>

definition taken_for :: "bytes \<Rightarrow> bytes \<Rightarrow> bool" where
  "taken_for u s \<longleftrightarrow> lwc__calculate_hash u = lwc__calculate_hash s \<and> length u = length s \<and> cstr u = cstr s"

lemma cstr_length: "length (cstr u) \<le> length u"
  by (simp add: cstr_def length_takeWhile_le)

lemma strncmp_cstr: "length u = length s \<Longrightarrow> strncmp_bytes u s (length s) \<longleftrightarrow> cstr u = cstr s"
  using cstr_length [of u] cstr_length [of s] by (simp add: strncmp_bytes_def strncmp_eq_def)

lemma taken_for_nul_free:
  assumes "taken_for u s" "CHR 0x00 \<notin> set s"
  shows "u = s"
proof -
  have "cstr u = s" "length u = length s" using assms by (simp_all add: taken_for_def cstr_id)
  then have "length (takeWhile (\<lambda>ch. ch \<noteq> NUL) u) = length u" by (simp add: cstr_def)
  then have "takeWhile (\<lambda>ch. ch \<noteq> NUL) u = u" by (metis takeWhile_eq_take take_all_iff order_refl)
  then show ?thesis using \<open>cstr u = s\<close> unfolding cstr_def by simp
qed

lemma intern_string_spec:
  assumes "lwc_ok w ch fl held" "fresh_alloc env" "room 1 (info w) (members ch)"
  shows "\<exists>err ret w'. lwc_intern_string env s w = Some ((err, ret), w') \<and>
     ((\<exists>a ch' u. err = lwc_error_ok \<and> ret = Some (Some a) \<and> taken_for u s \<and> interned w ch fl held u w' ch' a)
      \<or> (ret = None \<or> ret = Some None) \<and> intern_fails w ch fl held err w')"
proof -
  have "matching strncmp_bytes s s = (\<lambda>u. taken_for u s)"
    by (auto simp: matching_def taken_for_def strncmp_cstr fun_eq_iff)
  moreover have "taken_for s s" by (simp add: taken_for_def)
  ultimately show ?thesis
    unfolding lwc_intern_string_def
    using intern_spec [OF assms, of lwc__calculate_hash s s id strncmp_bytes] by simp
qed

lemma lcase_hash: "lwc__calculate_lcase_hash s = lwc__calculate_hash (map lwc__dolower s)"
  by (simp add: lwc__calculate_lcase_hash_def lwc__calculate_hash_def hash_step_def [abs_def] foldl_map)

lemma lcase_compare:
  assumes "length u = length s"
  shows "lwc__lcase_strncmp u s (length s) \<longleftrightarrow> u = map lwc__dolower s"
  using assms by (simp add: lwc__lcase_strncmp_def)

text \<open>
  The lower-case form of a string that callers have: after it, the string knows it, and callers have
  what they had.
\<close>

definition lowered :: "lwc_world \<Rightarrow> (nat \<Rightarrow> nat list) \<Rightarrow> nat set \<Rightarrow> (nat \<Rightarrow> nat) \<Rightarrow> nat \<Rightarrow> lwc_world \<Rightarrow> (nat \<Rightarrow> nat list) \<Rightarrow> bool" where
  "lowered w ch fl held a w' ch' \<longleftrightarrow>
     lwc_ok w' ch' fl held \<and> lw_insensitive (info w' a) \<noteq> None
     \<and> members ch \<subseteq> members ch' \<and> kept (info w) (info w') (members ch)
     \<and> (\<forall>k \<le> 2. room (Suc k) (info w) (members ch) \<longrightarrow> room k (info w') (members ch'))"

lemma link_ok:
  assumes ok: "lwc_ok w ch fl held" and a: "0 < held a" and none: "lw_insensitive (info w a) = None"
    and i: "interned w ch fl held (map lwc__dolower (lw_text (info w a))) w1 ch' i"
  shows "lowered w ch fl held a (lwc_update a (\<lambda>c. c\<lparr>lw_insensitive := Some i\<rparr>) w1) ch'"
proof -
  let ?f = "\<lambda>c. c\<lparr>lw_insensitive := Some i\<rparr>"
  let ?w = "lwc_update a ?f w1"
  have ok1: "lwc_ok w1 ch' fl (held(i := held i + 1))" and im: "i \<in> members ch'" "members ch \<subseteq> members ch'"
    and t: "lw_text (info w1 i) = map lwc__dolower (lw_text (info w a))" and k: "kept (info w) (info w1) (members ch)"
    using i by (simp_all add: interned_def)
  have am: "a \<in> members ch" "a \<in> members ch'" using held_member [OF ok a] im(2) by blast+
  have ta: "lw_text (info w1 a) = lw_text (info w a)" using kept_text [OF k am(1)] .
  have 1: "lw_insensitive (info w1 a) = None" using i am(1) none by (simp add: interned_def)
  have "content ((info w1)(a := ?f (info w1 a))) (members ch') ((held(i := held i + 1))(i := (held(i := held i + 1)) i - 1))"
    by (rule content_link [OF lwc_okD(3) [OF ok1] am(2) im(1) 1]) (use t ta a in auto)
  moreover have "(held(i := held i + 1))(i := (held(i := held i + 1)) i - 1) = held" by (simp add: fun_eq_iff)
  ultimately have c: "content ((info w1)(a := ?f (info w1 a))) (members ch') held" by simp
  have ok': "lwc_ok ?w ch' fl held" and inf: "info ?w = (info w1)(a := ?f (info w1 a))"
    using update_ok [of _ _ _ _ _ ?f, OF ok1 am(2) c] by (simp_all add: erase_links_def)
  have "kept (info w1) (info ?w) (members ch')" unfolding inf using 1 by (simp add: kept_update)
  moreover have "room m (info ?w) (members ch')" if "room m (info w1) (members ch')" for m
    using that unfolding inf room_def by auto
  ultimately show ?thesis
    using ok' inf i kept_trans [OF k _ im(2)] im(2) unfolding lowered_def interned_def by auto
qed

lemma caseless_spec:
  assumes ok: "lwc_ok w ch fl held" and env: "fresh_alloc env" and r: "room 1 (info w) (members ch)"
    and a: "0 < held a" and none: "lw_insensitive (info w a) = None"
  shows "\<exists>err w'. lwc__intern_caseless_string env a w = Some (err, w') \<and>
     (err = lwc_error_ok \<and> (\<exists>ch'. lowered w ch fl held a w' ch') \<or> intern_fails w ch fl held err w')"
proof -
  have am: "a \<in> members ch" using held_member [OF ok a] .
  obtain c where c: "lwc_heap w a = Some c" "info w a = erase_links c" using member_node [OF ok am] by blast
  have m: "matching lwc__lcase_strncmp (lw_text c) (map lwc__dolower (lw_text c)) u \<longleftrightarrow> u = map lwc__dolower (lw_text c)" for u
    by (auto simp: matching_def lcase_compare)
  have "\<exists>err ret w1. lwc__intern env lwc__calculate_lcase_hash lwc__lcase_strncmp (map lwc__dolower) (lw_text c) w = Some ((err, ret), w1) \<and>
     ((\<exists>i ch'. err = lwc_error_ok \<and> ret = Some (Some i) \<and> interned w ch fl held (map lwc__dolower (lw_text c)) w1 ch' i)
      \<or> (ret = None \<or> ret = Some None) \<and> intern_fails w ch fl held err w1)"
    using intern_spec [OF ok env r, of lwc__calculate_lcase_hash "lw_text c" "map lwc__dolower (lw_text c)"
        "map lwc__dolower" lwc__lcase_strncmp]
    by (simp add: lcase_hash m)
  then obtain err ret w1 where f: "lwc__intern env lwc__calculate_lcase_hash lwc__lcase_strncmp (map lwc__dolower) (lw_text c) w = Some ((err, ret), w1)"
    and d: "(\<exists>i ch'. err = lwc_error_ok \<and> ret = Some (Some i) \<and> interned w ch fl held (map lwc__dolower (lw_text c)) w1 ch' i)
      \<or> (ret = None \<or> ret = Some None) \<and> intern_fails w ch fl held err w1" by blast
  from d consider i ch' where "err = lwc_error_ok" "ret = Some (Some i)" "interned w ch fl held (map lwc__dolower (lw_text c)) w1 ch' i"
    | "ret = None \<or> ret = Some None" "intern_fails w ch fl held err w1" by blast
  then show ?thesis
  proof cases
    case 1
    have "lw_text c = lw_text (info w a)" by (simp add: c(2))
    then have "lowered w ch fl held a (lwc_update a (\<lambda>c. c\<lparr>lw_insensitive := Some i\<rparr>) w1) ch'"
      using 1(3) link_ok [OF ok a none] by simp
    then show ?thesis using 1(1,2) c(1) f by (auto simp: lwc__intern_caseless_string_def)
  next
    case 2
    have h: "lwc_heap w1 = lwc_heap w" using 2(2) by (simp add: intern_fails_def)
    have "c\<lparr>lw_insensitive := None\<rparr> = c" using none c(2) by simp
    then have "lwc_update a (\<lambda>c. c\<lparr>lw_insensitive := None\<rparr>) w1 = w1"
      using c(1) h by (simp add: lwc_update_def fun_upd_idem)
    then show ?thesis using 2 c(1) f by (auto simp: lwc__intern_caseless_string_def)
  qed
qed

text \<open>The code asks for the lower-case form where it is not known yet.\<close>

lemma ensure_lower:
  assumes ok: "lwc_ok w ch fl held" and env: "fresh_alloc env" and r: "room 1 (info w) (members ch)"
    and a: "0 < held a" and c: "lwc_heap w a = Some c"
  shows "\<exists>err w'. (if lw_insensitive c = None then lwc__intern_caseless_string env a w else Some (lwc_error_ok, w)) = Some (err, w') \<and>
     (err = lwc_error_ok \<and> (\<exists>ch'. lowered w ch fl held a w' ch') \<or> intern_fails w ch fl held err w')"
proof (cases "lw_insensitive c")
  case None
  then have "lw_insensitive (info w a) = None" using c by (simp add: info_some)
  from caseless_spec [OF ok env r a this] show ?thesis using None by simp
next
  case (Some i)
  have "room k (info w) (members ch)" if "room (Suc k) (info w) (members ch)" for k
    using that unfolding room_def by auto
  then have "lowered w ch fl held a w ch" using ok c Some unfolding lowered_def by (simp add: info_some)
  then show ?thesis using Some by auto
qed

lemma lower_form:
  assumes "lwc_ok w ch fl held" "a \<in> members ch" "lw_insensitive (info w a) = Some i"
  shows "i \<in> members ch" "lw_text (info w i) = map lwc__dolower (lw_text (info w a))"
  using texts_okD(3) [OF contentD(2) [OF lwc_okD(3) [OF assms(1)]] assms(2,3)] by blast+

lemma same_text:
  assumes "lwc_ok w ch fl held" "a \<in> members ch" "b \<in> members ch"
  shows "lw_text (info w a) = lw_text (info w b) \<longleftrightarrow> a = b"
  using texts_okD(1) [OF contentD(2) [OF lwc_okD(3) [OF assms(1)]]] assms(2,3) by (auto simp: inj_on_def)

text \<open>Everything the operations that give a result keep.\<close>

definition steady :: "lwc_world \<Rightarrow> (nat \<Rightarrow> nat list) \<Rightarrow> lwc_world \<Rightarrow> (nat \<Rightarrow> nat list) \<Rightarrow> bool" where
  "steady w ch w' ch' \<longleftrightarrow> members ch \<subseteq> members ch' \<and> kept (info w) (info w') (members ch)"

lemma steady_fails: "intern_fails w ch fl held err w' \<Longrightarrow> err = lwc_error_oom \<and> lwc_ok w' ch fl held \<and> steady w ch w' ch"
  by (simp add: intern_fails_def steady_def)

lemma steady_lowered: "lowered w ch fl held a w' ch' \<Longrightarrow> lwc_ok w' ch' fl held \<and> steady w ch w' ch'"
  by (simp add: lowered_def steady_def)

lemma steady_trans: "steady w ch w1 ch1 \<Longrightarrow> steady w1 ch1 w2 ch2 \<Longrightarrow> steady w ch w2 ch2"
  unfolding steady_def using kept_trans by blast

lemma steady_text: "steady w ch w' ch' \<Longrightarrow> a \<in> members ch \<Longrightarrow> lw_text (info w' a) = lw_text (info w a)"
  unfolding steady_def by (blast intro: kept_text)

lemma isequal_spec:
  assumes ok: "lwc_ok w ch fl held" and env: "fresh_alloc env" and r: "room 2 (info w) (members ch)"
    and a: "0 < held a" and b: "0 < held b"
  shows "\<exists>err ans w' ch'. lwc_string_caseless_isequal env a b w = Some ((err, ans), w') \<and> lwc_ok w' ch' fl held \<and> steady w ch w' ch'
    \<and> (err = lwc_error_ok \<and> ans = Some (map lwc__dolower (lw_text (info w a)) = map lwc__dolower (lw_text (info w b)))
       \<or> err = lwc_error_oom \<and> ans = None)"
proof -
  have am: "a \<in> members ch" and bm: "b \<in> members ch" using held_member [OF ok] a b by blast+
  obtain c where c: "lwc_heap w a = Some c" using member_node [OF ok am] by blast
  have r1: "room 1 (info w) (members ch)" using r by (auto simp: room_def)
  obtain err1 w1 where e1: "(if lw_insensitive c = None then lwc__intern_caseless_string env a w else Some (lwc_error_ok, w)) = Some (err1, w1)"
    and d1: "err1 = lwc_error_ok \<and> (\<exists>ch'. lowered w ch fl held a w1 ch') \<or> intern_fails w ch fl held err1 w1"
    using ensure_lower [OF ok env r1 a c] by blast
  show ?thesis
  proof (cases "err1 = lwc_error_ok")
    case False
    then have f: "intern_fails w ch fl held err1 w1" using d1 by blast
    then have h: "lwc_heap w1 = lwc_heap w" by (simp add: intern_fails_def)
    obtain cb where "lwc_heap w b = Some cb" using member_node [OF ok bm] by blast
    then show ?thesis using False steady_fails [OF f] c h
      unfolding lwc_string_caseless_isequal_def by (auto simp: e1)
  next
    case True
    then obtain ch1 where l1: "lowered w ch fl held a w1 ch1" using d1 by (auto simp: intern_fails_def)
    then have ok1: "lwc_ok w1 ch1 fl held" and s1: "steady w ch w1 ch1" using steady_lowered by blast+
    have r2: "room 1 (info w1) (members ch1)" using l1 r unfolding lowered_def by (auto simp: numeral_2_eq_2)
    have am1: "a \<in> members ch1" and bm1: "b \<in> members ch1" using held_member [OF ok1] a b by blast+
    obtain cb where cb: "lwc_heap w1 b = Some cb" using member_node [OF ok1 bm1] by blast
    obtain err2 w2 where e2: "(if lw_insensitive cb = None then lwc__intern_caseless_string env b w1 else Some (lwc_error_ok, w1)) = Some (err2, w2)"
      and d2: "err2 = lwc_error_ok \<and> (\<exists>ch'. lowered w1 ch1 fl held b w2 ch') \<or> intern_fails w1 ch1 fl held err2 w2"
      using ensure_lower [OF ok1 env r2 b cb] by blast
    have run: "lwc_string_caseless_isequal env a b w = do { c1 \<leftarrow> lwc_heap w2 a; c2 \<leftarrow> lwc_heap w2 b;
        Some ((err2, if err2 = lwc_error_ok then Some (lw_insensitive c1 = lw_insensitive c2) else None), w2) }"
      unfolding lwc_string_caseless_isequal_def using e2 by (simp add: c cb e1 True)
    show ?thesis
    proof (cases "err2 = lwc_error_ok")
      case False
      then have f: "intern_fails w1 ch1 fl held err2 w2" using d2 by blast
      have ok2: "lwc_ok w2 ch1 fl held" and s: "steady w ch w2 ch1" and o: "err2 = lwc_error_oom"
        using steady_fails [OF f] steady_trans [OF s1] by blast+
      obtain ca cb' where "lwc_heap w2 a = Some ca" "lwc_heap w2 b = Some cb'" using member_node [OF ok2] am1 bm1 by metis
      then show ?thesis using run ok2 s o by auto
    next
      case True
      then obtain ch2 where l2: "lowered w1 ch1 fl held b w2 ch2" using d2 by (auto simp: intern_fails_def)
      have ok2: "lwc_ok w2 ch2 fl held" and s2: "steady w1 ch1 w2 ch2" using steady_lowered [OF l2] by blast+
      have s: "steady w ch w2 ch2" using steady_trans [OF s1 s2] .
      have am2: "a \<in> members ch2" and bm2: "b \<in> members ch2" using held_member [OF ok2] a b by blast+
      obtain ca cb' where h: "lwc_heap w2 a = Some ca" "lwc_heap w2 b = Some cb'"
        and inf: "info w2 a = erase_links ca" "info w2 b = erase_links cb'" using member_node [OF ok2] am2 bm2 by metis
      obtain j where j: "lw_insensitive (info w2 b) = Some j" using l2 by (auto simp: lowered_def)
      obtain i where "lw_insensitive (info w1 a) = Some i" using l1 by (auto simp: lowered_def)
      then have i: "lw_insensitive (info w2 a) = Some i" using s2 am1 unfolding steady_def by (auto intro: kept_insensitive)
      have "lw_insensitive ca = lw_insensitive cb' \<longleftrightarrow> i = j" using i j by (simp add: inf)
      also have "\<dots> \<longleftrightarrow> lw_text (info w2 i) = lw_text (info w2 j)"
        using same_text [OF ok2 lower_form(1) [OF ok2 am2 i] lower_form(1) [OF ok2 bm2 j]] by blast
      also have "\<dots> \<longleftrightarrow> map lwc__dolower (lw_text (info w a)) = map lwc__dolower (lw_text (info w b))"
        unfolding lower_form(2) [OF ok2 am2 i] lower_form(2) [OF ok2 bm2 j] steady_text [OF s am] steady_text [OF s bm] by (rule refl)
      finally show ?thesis using run ok2 s h True by auto
    qed
  qed
qed

lemma ref_spec:
  assumes ok: "lwc_ok w ch fl held" and a: "a \<in> members ch" and r: "unat (lw_refcnt (info w a)) + 1 < 2 ^ 32"
  shows "\<exists>w'. lwc_string_ref a w = Some (a, w') \<and> lwc_ok w' ch fl (held(a := held a + 1)) \<and> steady w ch w' ch"
proof -
  obtain c where "lwc_heap w a = Some c" using member_node [OF ok a] by blast
  then show ?thesis using count_up_ok [OF ok a r] by (simp add: lwc_string_ref_def interned_def steady_def)
qed

lemma tolower_spec:
  assumes ok: "lwc_ok w ch fl held" and env: "fresh_alloc env" and r: "room 2 (info w) (members ch)" and a: "0 < held a"
  shows "\<exists>err ret w' ch'. lwc_string_tolower env a w = Some ((err, ret), w') \<and> steady w ch w' ch'
    \<and> ((\<exists>i. err = lwc_error_ok \<and> ret = Some i \<and> lwc_ok w' ch' fl (held(i := held i + 1))
          \<and> lw_text (info w' i) = map lwc__dolower (lw_text (info w a)))
       \<or> err = lwc_error_oom \<and> ret = None \<and> lwc_ok w' ch' fl held)"
proof -
  have am: "a \<in> members ch" using held_member [OF ok a] .
  obtain c where c: "lwc_heap w a = Some c" using member_node [OF ok am] by blast
  have r1: "room 1 (info w) (members ch)" using r by (auto simp: room_def)
  obtain err1 w1 where e1: "(if lw_insensitive c = None then lwc__intern_caseless_string env a w else Some (lwc_error_ok, w)) = Some (err1, w1)"
    and d1: "err1 = lwc_error_ok \<and> (\<exists>ch'. lowered w ch fl held a w1 ch') \<or> intern_fails w ch fl held err1 w1"
    using ensure_lower [OF ok env r1 a c] by blast
  have run: "lwc_string_tolower env a w = (if err1 \<noteq> lwc_error_ok then Some ((err1, None), w1)
      else do { c1 \<leftarrow> lwc_heap w1 a; i \<leftarrow> lw_insensitive c1; (x, w2) \<leftarrow> lwc_string_ref i w1; Some ((lwc_error_ok, Some x), w2) })"
    unfolding lwc_string_tolower_def using e1 by (simp add: c)
  show ?thesis
  proof (cases "err1 = lwc_error_ok")
    case False
    then have "intern_fails w ch fl held err1 w1" using d1 by blast
    from steady_fails [OF this] show ?thesis using False run by auto
  next
    case True
    then obtain ch1 where l1: "lowered w ch fl held a w1 ch1" using d1 by (auto simp: intern_fails_def)
    then have ok1: "lwc_ok w1 ch1 fl held" and s1: "steady w ch w1 ch1" using steady_lowered by blast+
    have r2: "room 1 (info w1) (members ch1)" using l1 r unfolding lowered_def by (auto simp: numeral_2_eq_2)
    have am1: "a \<in> members ch1" using held_member [OF ok1 a] .
    obtain i where i: "lw_insensitive (info w1 a) = Some i" using l1 by (auto simp: lowered_def)
    obtain ca where ca: "lwc_heap w1 a = Some ca" "info w1 a = erase_links ca" using member_node [OF ok1 am1] by blast
    note f = lower_form [OF ok1 am1 i]
    have ri: "unat (lw_refcnt (info w1 i)) + 1 < 2 ^ 32" using r2 f(1) by (simp add: room_def)
    obtain w2 where w2: "lwc_string_ref i w1 = Some (i, w2)" "lwc_ok w2 ch1 fl (held(i := held i + 1))" "steady w1 ch1 w2 ch1"
      using ref_spec [OF ok1 f(1) ri] by blast
    have "lw_text (info w2 i) = map lwc__dolower (lw_text (info w a))"
      using f steady_text [OF w2(3)] steady_text [OF s1 am] by simp
    moreover have "lwc_string_tolower env a w = Some ((lwc_error_ok, Some i), w2)" using run True ca i w2(1) by simp
    ultimately show ?thesis using w2(2) steady_trans [OF s1 w2(3)] by auto
  qed
qed

lemma hash_value_spec:
  assumes ok: "lwc_ok w ch fl held" and env: "fresh_alloc env" and r: "room 2 (info w) (members ch)" and a: "0 < held a"
  shows "\<exists>err h w' ch'. lwc_string_caseless_hash_value env a w = Some ((err, h), w') \<and> lwc_ok w' ch' fl held \<and> steady w ch w' ch'
    \<and> (err = lwc_error_ok \<and> h = Some (lwc__calculate_lcase_hash (lw_text (info w a))) \<or> err = lwc_error_oom \<and> h = None)"
proof -
  have am: "a \<in> members ch" using held_member [OF ok a] .
  obtain c where c: "lwc_heap w a = Some c" using member_node [OF ok am] by blast
  have r1: "room 1 (info w) (members ch)" using r by (auto simp: room_def)
  obtain err1 w1 where e1: "(if lw_insensitive c = None then lwc__intern_caseless_string env a w else Some (lwc_error_ok, w)) = Some (err1, w1)"
    and d1: "err1 = lwc_error_ok \<and> (\<exists>ch'. lowered w ch fl held a w1 ch') \<or> intern_fails w ch fl held err1 w1"
    using ensure_lower [OF ok env r1 a c] by blast
  have run: "lwc_string_caseless_hash_value env a w = (if err1 \<noteq> lwc_error_ok then Some ((err1, None), w1)
      else do { c1 \<leftarrow> lwc_heap w1 a; i \<leftarrow> lw_insensitive c1; form \<leftarrow> lwc_heap w1 i; Some ((lwc_error_ok, Some (lw_hash form)), w1) })"
    unfolding lwc_string_caseless_hash_value_def using e1 by (simp add: c)
  show ?thesis
  proof (cases "err1 = lwc_error_ok")
    case False
    then have "intern_fails w ch fl held err1 w1" using d1 by blast
    from steady_fails [OF this] show ?thesis using False run by auto
  next
    case True
    then obtain ch1 where l1: "lowered w ch fl held a w1 ch1" using d1 by (auto simp: intern_fails_def)
    then have ok1: "lwc_ok w1 ch1 fl held" and s1: "steady w ch w1 ch1" using steady_lowered by blast+
    have am1: "a \<in> members ch1" using held_member [OF ok1 a] .
    obtain i where i: "lw_insensitive (info w1 a) = Some i" using l1 by (auto simp: lowered_def)
    obtain ca where ca: "lwc_heap w1 a = Some ca" "info w1 a = erase_links ca" using member_node [OF ok1 am1] by blast
    note f = lower_form [OF ok1 am1 i]
    obtain cf where cf: "lwc_heap w1 i = Some cf" "info w1 i = erase_links cf" using member_node [OF ok1 f(1)] by blast
    have "lw_hash (info w1 i) = lwc__calculate_hash (lw_text (info w1 i))"
      using texts_okD(2) [OF contentD(2) [OF lwc_okD(3) [OF ok1]] f(1)] .
    also have "\<dots> = lwc__calculate_lcase_hash (lw_text (info w a))" by (simp add: f(2) steady_text [OF s1 am] lcase_hash)
    finally have "lw_hash cf = lwc__calculate_lcase_hash (lw_text (info w a))" by (simp add: cf(2))
    moreover have "lwc_string_caseless_hash_value env a w = Some ((lwc_error_ok, Some (lw_hash cf)), w1)" using run True ca i cf by simp
    ultimately show ?thesis using ok1 s1 by auto
  qed
qed

section \<open>Giving a reference back\<close>

text \<open>The string is freed after it has left its bucket.\<close>

lemma free_ok:
  assumes "lwc_ok w ch (insert a fl) held" "a \<notin> fl"
  shows "lwc_ok (w\<lparr>lwc_heap := (lwc_heap w)(a := None)\<rparr>) ch fl held"
    "x \<in> members ch \<Longrightarrow> info (w\<lparr>lwc_heap := (lwc_heap w)(a := None)\<rparr>) x = info w x"
proof -
  let ?w = "w\<lparr>lwc_heap := (lwc_heap w)(a := None)\<rparr>"
  have na: "a \<notin> members ch" using lwc_okD(5) [OF assms(1)] by blast
  have inf: "info ?w x = info w x" if "x \<in> members ch" for x using na that by (auto simp: info_def plain_def)
  then show "x \<in> members ch \<Longrightarrow> info ?w x = info w x" by blast
  have sg: "seg (lwc_heap ?w) place p (ch b) q \<longleftrightarrow> seg (lwc_heap w) place p (ch b) q" if "b < NR_BUCKETS_DEFAULT" for b place p q
    using na that by (intro seg_cong) (auto simp: same_links_def members_def)
  have "chains ?w ch" using lwc_okD(1) [OF assms(1)] by (simp add: chains_def sg [simplified] cong: option.case_cong)
  moreover have "placed (info ?w) ch"
    using lwc_okD(2) [OF assms(1)] inf unfolding placed_def members_def by (metis UN_I lessThan_iff)
  moreover have "content (info ?w) (members ch) held" using lwc_okD(3) [OF assms(1)] inf by (rule content_cong)
  moreover have "dom (lwc_heap ?w) = members ch \<union> fl" using lwc_okD(4) [OF assms(1)] na assms(2) by auto
  ultimately show "lwc_ok ?w ch fl held" using lwc_okD(5) [OF assms(1)] by (simp add: lwc_ok_def)
qed

text \<open>The last reference to \<open>a\<close>: out of its bucket, it is neither found nor counted any more.\<close>

lemma unlink_ok:
  assumes ok: "lwc_ok w ch fl held" and a: "0 < held a" and n: "n = lw_refcnt (info w a) - 1"
    and last: "n = 0 \<or> n = 1 \<and> lw_insensitive (info w a) = Some a"
  shows "\<exists>w2 ch'. lwc_unlink a (lwc_update a (\<lambda>c. c\<lparr>lw_refcnt := n\<rparr>) w) = Some w2
    \<and> lwc_ok w2 ch' (insert a fl) (passed (info w) a held) \<and> members ch' = members ch - {a}
    \<and> (\<forall>x \<in> members ch'. info w2 x = info w x)"
proof -
  let ?f = "\<lambda>c. c\<lparr>lw_refcnt := n\<rparr>"
  let ?w = "lwc_update a ?f w"
  have am: "a \<in> members ch" using held_member [OF ok a] .
  note l = last_reference [OF lwc_okD(3) [OF ok] a n last]
  have "lwc_heap w a \<noteq> None" using chains_member_alive [OF lwc_okD(1) [OF ok] am] .
  note u = update_data [of ?f, OF _ _ _ this]
  have ch1: "chains ?w ch" using lwc_okD(1) [OF ok] by (subst u(1)) (simp_all add: erase_links_def)
  have i1: "info ?w = (info w)(a := ?f (info w a))" by (rule u(2)) (simp_all add: erase_links_def)
  have d1: "dom (lwc_heap ?w) = dom (lwc_heap w)" by (rule u(3)) (simp_all add: erase_links_def)
  obtain b where b: "b < NR_BUCKETS_DEFAULT" "a \<in> set (ch b)" using am by (auto simp: members_def)
  then obtain us vs where s: "ch b = us @ a # vs" by (auto simp: in_set_conv_decomp)
  obtain w2 where w2: "lwc_unlink a ?w = Some w2" "chains w2 (ch(b := us @ vs))" "plain w2 = plain ?w"
    using unlink_chains [OF ch1 b(1) s] by blast
  let ?ch = "ch(b := us @ vs)"
  have m: "members ?ch = members ch - {a}" using members_remove [OF ch1 b(1) s] .
  have i2: "info w2 x = info w x" if "x \<in> members ?ch" for x using same_plain(1) [OF w2(3)] that m by (simp add: i1)
  have "placed (info w2) ?ch"
    unfolding placed_def
  proof (intro allI impI ballI)
    fix b' x assume x: "b' < NR_BUCKETS_DEFAULT" "x \<in> set (?ch b')"
    have "x \<in> members ?ch" unfolding members_def by (rule UN_I [of b']) (use x(1) in simp, rule x(2))
    moreover have "x \<in> set (ch b')" using x s by (auto split: if_splits)
    ultimately show "unat (lw_hash (info w2 x)) mod NR_BUCKETS_DEFAULT = b'" using lwc_okD(2) [OF ok] x(1) i2 by (simp add: placed_def)
  qed
  moreover have "content (info w2) (members ?ch) (passed (info w) a held)"
    unfolding m using content_drop [OF lwc_okD(3) [OF ok] l(1,2)] i2 [unfolded m] by (rule content_cong)
  moreover have "dom (lwc_heap w2) = members ?ch \<union> insert a fl"
    using same_plain(2) [OF w2(3)] d1 lwc_okD(4) [OF ok] am unfolding m by auto
  ultimately have "lwc_ok w2 ?ch (insert a fl) (passed (info w) a held)"
    using w2(2) lwc_okD(5) [OF ok] unfolding lwc_ok_def m by auto
  then show ?thesis using w2(1) m i2 by blast
qed

text \<open>What giving back a reference to \<open>a\<close> comes to.\<close>

definition given_back :: "lwc_world \<Rightarrow> (nat \<Rightarrow> nat list) \<Rightarrow> nat set \<Rightarrow> (nat \<Rightarrow> nat) \<Rightarrow> nat \<Rightarrow> lwc_world \<Rightarrow> (nat \<Rightarrow> nat list) \<Rightarrow> bool" where
  "given_back w ch fl held a w' ch' \<longleftrightarrow>
     lwc_ok w' ch' fl (held(a := held a - 1)) \<and> members ch' \<subseteq> members ch
     \<and> (\<forall>x \<in> members ch'. lw_text (info w' x) = lw_text (info w x))"

lemma unref_run:
  assumes "lwc_heap w a = Some c" "n = lw_refcnt c - 1"
  shows "lwc_string_unref a w =
     (if n = 0 \<or> n = 1 \<and> lw_insensitive c = Some a
      then do { w2 \<leftarrow> lwc_unlink a (lwc_update a (\<lambda>c. c\<lparr>lw_refcnt := n\<rparr>) w);
                w3 \<leftarrow> (if n = 0 then (case lw_insensitive c of None \<Rightarrow> Some w2 | Some i \<Rightarrow> lwc_string_unref i w2) else Some w2);
                Some (w3\<lparr>lwc_heap := (lwc_heap w3)(a := None)\<rparr>) }
      else Some (lwc_update a (\<lambda>c. c\<lparr>lw_refcnt := n\<rparr>) w))"
  by (subst lwc_string_unref.simps) (simp only: assms Let_def Option.bind.bind_lunit)

lemma unref_rest:
  assumes ok: "lwc_ok w ch fl held" and a: "0 < held a" and c: "lwc_heap w a = Some c"
    and n: "n = lw_refcnt c - 1" and rest: "\<not> (n = 0 \<or> n = 1 \<and> lw_insensitive c = Some a)"
  shows "\<exists>w' ch'. lwc_string_unref a w = Some w' \<and> given_back w ch fl held a w' ch'"
proof -
  let ?f = "\<lambda>c. c\<lparr>lw_refcnt := n\<rparr>"
  have am: "a \<in> members ch" using held_member [OF ok a] .
  have "content ((info w)(a := ?f (info w a))) (members ch) (held(a := held a - 1))"
    by (rule content_unref [OF lwc_okD(3) [OF ok] a]) (use n rest in \<open>simp_all add: info_some [OF c]\<close>)
  note u = update_ok [of _ _ _ _ _ ?f, OF ok am this]
  have "lwc_ok (lwc_update a ?f w) ch fl (held(a := held a - 1))" "info (lwc_update a ?f w) = (info w)(a := ?f (info w a))"
    using u by (simp_all add: erase_links_def)
  then have "given_back w ch fl held a (lwc_update a ?f w) ch" by (auto simp: given_back_def)
  moreover have "lwc_string_unref a w = Some (lwc_update a ?f w)"
    using rest by (subst unref_run [OF c n]) auto
  ultimately show ?thesis by blast
qed

text \<open>
  The last reference, when giving back the one to the lower-case form works: the string leaves its
  bucket, its lower-case form loses a reference, and the string is freed.
\<close>

lemma unref_last:
  assumes ok: "lwc_ok w ch fl held" and a: "0 < held a" and c: "lwc_heap w a = Some c"
    and n: "n = lw_refcnt c - 1" and last: "n = 0 \<or> n = 1 \<and> lw_insensitive c = Some a"
    and form: "\<And>i w2 ch2 held2. lw_insensitive c = Some i \<Longrightarrow> i \<noteq> a \<Longrightarrow> lwc_ok w2 ch2 (insert a fl) held2 \<Longrightarrow> 0 < held2 i
      \<Longrightarrow> info w2 i = info w i \<Longrightarrow> \<exists>w' ch'. lwc_string_unref i w2 = Some w' \<and> given_back w2 ch2 (insert a fl) held2 i w' ch'"
  shows "\<exists>w' ch'. lwc_string_unref a w = Some w' \<and> given_back w ch fl held a w' ch'"
proof -
  have inf: "info w a = erase_links c" using c by (rule info_some)
  have am: "a \<in> members ch" using held_member [OF ok a] .
  then have nfl: "a \<notin> fl" using lwc_okD(5) [OF ok] by blast
  have n': "n = lw_refcnt (info w a) - 1" and last': "n = 0 \<or> n = 1 \<and> lw_insensitive (info w a) = Some a"
    using n last by (simp_all add: inf)
  note l = last_reference [OF lwc_okD(3) [OF ok] a n' last']
  obtain w2 ch2 where w2: "lwc_unlink a (lwc_update a (\<lambda>c. c\<lparr>lw_refcnt := n\<rparr>) w) = Some w2"
    "lwc_ok w2 ch2 (insert a fl) (passed (info w) a held)" "members ch2 = members ch - {a}" "\<forall>x \<in> members ch2. info w2 x = info w x"
    using unlink_ok [OF ok a n' last'] by blast
  have run: "lwc_string_unref a w = do {
      w3 \<leftarrow> (if n = 0 then (case lw_insensitive c of None \<Rightarrow> Some w2 | Some i \<Rightarrow> lwc_string_unref i w2) else Some w2);
      Some (w3\<lparr>lwc_heap := (lwc_heap w3)(a := None)\<rparr>) }"
    using last unfolding unref_run [OF c n] by (simp add: w2(1))
  have finish: "given_back w ch fl held a (w3\<lparr>lwc_heap := (lwc_heap w3)(a := None)\<rparr>) ch3"
    if w3: "lwc_ok w3 ch3 (insert a fl) (held(a := 0))" "members ch3 \<subseteq> members ch2" "\<forall>x \<in> members ch3. lw_text (info w3 x) = lw_text (info w2 x)"
    for w3 ch3
  proof -
    have "lw_text (info w3 x) = lw_text (info w x)" if "x \<in> members ch3" for x using that w3(2,3) w2(4) by (metis subsetD)
    then show ?thesis using free_ok [OF w3(1) nfl] w3(2) w2(3) l(1) unfolding given_back_def by auto
  qed
  show ?thesis
  proof (cases "lw_insensitive c = None \<or> lw_insensitive c = Some a")
    case True
    then have "passed (info w) a held = held(a := 0)" by (auto simp: passed_def inf)
    moreover have "lwc_string_unref a w = Some (w2\<lparr>lwc_heap := (lwc_heap w2)(a := None)\<rparr>)"
      using run True l(3) by (auto simp: inf)
    ultimately show ?thesis using finish [of w2 ch2] w2(2) by simp blast
  next
    case False
    then obtain i where i: "lw_insensitive c = Some i" "i \<noteq> a" by (cases "lw_insensitive c") auto
    then have p: "passed (info w) a held = held(a := 0, i := held i + 1)" by (simp add: passed_def inf)
    have "i \<in> members ch" using lower_form(1) [OF ok am, of i] i(1) by (simp add: inf)
    then have "info w2 i = info w i" using w2(3,4) i(2) by simp
    then obtain w3 ch3 where w3: "lwc_string_unref i w2 = Some w3" "given_back w2 ch2 (insert a fl) (passed (info w) a held) i w3 ch3"
      using form [OF i w2(2)] p by auto
    have "(held(a := 0, i := held i + 1))(i := (held(a := 0, i := held i + 1)) i - 1) = held(a := 0)" using i(2) by (auto simp: fun_eq_iff)
    then have g: "lwc_ok w3 ch3 (insert a fl) (held(a := 0))" "members ch3 \<subseteq> members ch2" "\<forall>x \<in> members ch3. lw_text (info w3 x) = lw_text (info w2 x)"
      using w3(2) unfolding given_back_def p by simp_all
    have "lwc_string_unref a w = Some (w3\<lparr>lwc_heap := (lwc_heap w3)(a := None)\<rparr>)" using run l(3) i w3(1) by (simp add: inf)
    then show ?thesis using finish [OF g] by blast
  qed
qed

lemma unref_spec:
  assumes ok: "lwc_ok w ch fl held" and a: "0 < held a"
  shows "\<exists>w' ch'. lwc_string_unref a w = Some w' \<and> given_back w ch fl held a w' ch'"
proof -
  have flat: "\<exists>w' ch'. lwc_string_unref i w2 = Some w' \<and> given_back w2 ch2 fl2 held2 i w' ch'"
    if ok2: "lwc_ok w2 ch2 fl2 held2" "0 < held2 i" and f: "\<And>j. lw_insensitive (info w2 i) = Some j \<Longrightarrow> j = i" for i w2 ch2 fl2 held2
  proof -
    obtain c where c: "lwc_heap w2 i = Some c" "info w2 i = erase_links c" using member_node [OF ok2(1) held_member [OF ok2]] by blast
    show ?thesis
    proof (cases "lw_refcnt c - 1 = 0 \<or> lw_refcnt c - 1 = 1 \<and> lw_insensitive c = Some i")
      case True
      show ?thesis by (rule unref_last [OF ok2 c(1) refl True]) (use f c(2) in auto)
    next
      case False
      show ?thesis by (rule unref_rest [OF ok2 c(1) refl False])
    qed
  qed
  have am: "a \<in> members ch" using held_member [OF ok a] .
  obtain c where c: "lwc_heap w a = Some c" "info w a = erase_links c" using member_node [OF ok am] by blast
  show ?thesis
  proof (cases "lw_refcnt c - 1 = 0 \<or> lw_refcnt c - 1 = 1 \<and> lw_insensitive c = Some a")
    case True
    have fixed: "j = i" if "lw_insensitive c = Some i" "lw_insensitive (info w i) = Some j" for i j
      by (rule lower_form_fixed [OF contentD(2) [OF lwc_okD(3) [OF ok]] am _ that(2)]) (simp add: c(2) that(1))
    show ?thesis
    proof (rule unref_last [OF ok a c(1) refl True])
      fix i w2 ch2 held2
      assume "lw_insensitive c = Some i" "lwc_ok w2 ch2 (insert a fl) held2" "0 < held2 i" "info w2 i = info w i"
      then show "\<exists>w' ch'. lwc_string_unref i w2 = Some w' \<and> given_back w2 ch2 (insert a fl) held2 i w' ch'"
        using fixed by (intro flat) simp_all
    qed
  next
    case False
    show ?thesis by (rule unref_rest [OF ok a c(1) refl False])
  qed
qed

section \<open>Iterating\<close>

lemma chain_seg: "seg (lwc_heap w) place p xs None \<Longrightarrow> lwc_chain w p = Some xs"
proof (induction xs arbitrary: place p)
  case Nil
  then show ?case by (simp add: lwc_chain.simps)
next
  case (Cons x xs)
  then obtain c where "p = Some x" "lwc_heap w x = Some c" "seg (lwc_heap w) (NextOf x) (lw_next c) xs None" by auto
  then show ?case using Cons.IH by (subst lwc_chain.simps) simp
qed

lemma chains_lists:
  assumes "\<And>b. b \<in> set bl \<Longrightarrow> lwc_chain w (bs b) = Some (ch b)"
  shows "lwc_chains w (map bs bl) = Some (concat (map ch bl))"
  using assms by (induction bl) simp_all

lemma iterate_spec:
  assumes ok: "lwc_ok w ch fl held"
  shows "\<exists>xs w'. lwc_iterate_strings w = Some (xs, w') \<and> set xs = members ch \<and> distinct xs \<and> lwc_ok w' ch fl held
    \<and> w' = (if members ch = {} then w\<lparr>lwc_buckets := None\<rparr> else w)"
proof (cases "lwc_buckets w")
  case None
  then have ch: "\<forall>b < NR_BUCKETS_DEFAULT. ch b = []" using lwc_okD(1) [OF ok] by (simp add: chains_def)
  then have "members ch = {}" by (auto simp: members_def)
  then show ?thesis using None ok by (simp add: lwc_iterate_strings_def)
next
  case (Some bs)
  let ?xs = "concat (map ch [0..<NR_BUCKETS_DEFAULT])"
  note c = lwc_okD(1) [OF ok, unfolded chains_def Some option.case]
  have "lwc_chain w (bs b) = Some (ch b)" if "b \<in> set [0..<NR_BUCKETS_DEFAULT]" for b
    using c that by (intro chain_seg [of _ "Bucket b"]) simp
  then have l: "lwc_chains w (map bs [0..<NR_BUCKETS_DEFAULT]) = Some ?xs" by (rule chains_lists)
  have s: "set ?xs = members ch" by (auto simp: members_def)
  have d: "distinct ?xs"
  proof -
    have "distinct (concat (map ch [0..<k]))" if "k \<le> NR_BUCKETS_DEFAULT" for k
      using that
    proof (induction k)
      case (Suc k)
      then have "set (ch b) \<inter> set (ch k) = {}" if "b < k" for b using c that by simp
      then have "set (concat (map ch [0..<k])) \<inter> set (ch k) = {}" by (fastforce simp: disjoint_iff)
      then show ?case using Suc c by simp
    qed simp
    then show ?thesis by blast
  qed
  have e: "?xs = [] \<longleftrightarrow> members ch = {}" using s by (metis set_empty)
  have "lwc_ok (w\<lparr>lwc_buckets := None\<rparr>) ch fl held" if "members ch = {}"
  proof -
    have inf: "info (w\<lparr>lwc_buckets := None\<rparr>) = info w" by (simp add: info_def plain_def fun_eq_iff)
    have "ch b = []" if "b < NR_BUCKETS_DEFAULT" for b
    proof -
      have "set (ch b) \<subseteq> members ch" using that by (auto simp: members_def)
      then show ?thesis using \<open>members ch = {}\<close> by simp
    qed
    then have "chains (w\<lparr>lwc_buckets := None\<rparr>) ch" by (simp add: chains_def)
    then show ?thesis using lwc_okD(2-5) [OF ok] by (simp add: lwc_ok_def inf)
  qed
  then show ?thesis using Some l s d e ok unfolding lwc_iterate_strings_def by auto
qed

end
