(* ===== verification/WapcapletSystem.thy ===== *)
theory WapcapletSystem
  imports WapcapletOps
begin

text \<open>
  String internment as its callers see it: the states that callers reach who give back only what they
  have, and what holds in all of them.
\<close>

section \<open>Reachable states\<close>

definition lwc_start :: lwc_world where
  "lwc_start = \<lparr>lwc_buckets = None, lwc_heap = (\<lambda>_. None)\<rparr>"

text \<open>Reference counts have 32 bits and are not checked; an operation adds two to a count at most.\<close>

definition counts_fit :: "lwc_world \<Rightarrow> bool" where
  "counts_fit w \<longleftrightarrow> (\<forall>a c. lwc_heap w a = Some c \<longrightarrow> unat (lw_refcnt c) + 2 < 2 ^ 32)"

definition more :: "nat option option \<Rightarrow> (nat \<Rightarrow> nat) \<Rightarrow> nat \<Rightarrow> nat" where
  "more ret held = (case ret of Some (Some a) \<Rightarrow> held(a := held a + 1) | _ \<Rightarrow> held)"

inductive lwc_reach :: "lwc_env \<Rightarrow> lwc_world \<Rightarrow> (nat \<Rightarrow> nat) \<Rightarrow> bool" for env where
  start: "lwc_reach env lwc_start (\<lambda>_. 0)"
| intern: "lwc_reach env w held \<Longrightarrow> counts_fit w \<Longrightarrow> lwc_intern_string env s w = Some ((err, ret), w')
    \<Longrightarrow> lwc_reach env w' (more ret held)"
| substring: "lwc_reach env w held \<Longrightarrow> counts_fit w \<Longrightarrow> 0 < held a \<Longrightarrow> unat off + unat len < 2 ^ 32
    \<Longrightarrow> lwc_intern_substring env a off len w = Some ((err, ret), w') \<Longrightarrow> lwc_reach env w' (more ret held)"
| tolower: "lwc_reach env w held \<Longrightarrow> counts_fit w \<Longrightarrow> 0 < held a \<Longrightarrow> lwc_string_tolower env a w = Some ((err, ret), w')
    \<Longrightarrow> lwc_reach env w' (more (Some ret) held)"
| isequal: "lwc_reach env w held \<Longrightarrow> counts_fit w \<Longrightarrow> 0 < held a \<Longrightarrow> 0 < held b
    \<Longrightarrow> lwc_string_caseless_isequal env a b w = Some (r, w') \<Longrightarrow> lwc_reach env w' held"
| hash: "lwc_reach env w held \<Longrightarrow> counts_fit w \<Longrightarrow> 0 < held a \<Longrightarrow> lwc_string_caseless_hash_value env a w = Some (r, w')
    \<Longrightarrow> lwc_reach env w' held"
| ref: "lwc_reach env w held \<Longrightarrow> counts_fit w \<Longrightarrow> 0 < held a \<Longrightarrow> lwc_string_ref a w = Some (r, w')
    \<Longrightarrow> lwc_reach env w' (held(a := held a + 1))"
| unref: "lwc_reach env w held \<Longrightarrow> 0 < held a \<Longrightarrow> lwc_string_unref a w = Some w' \<Longrightarrow> lwc_reach env w' (held(a := held a - 1))"
| iterate: "lwc_reach env w held \<Longrightarrow> lwc_iterate_strings w = Some (xs, w') \<Longrightarrow> lwc_reach env w' held"

lemma more_simps [simp]: "more None held = held" "more (Some None) held = held" "more (Some (Some a)) held = held(a := held a + 1)"
  by (simp_all add: more_def)

lemma counts_room:
  assumes "lwc_ok w ch fl held" "counts_fit w" "k \<le> 2"
  shows "room k (info w) (members ch)"
  unfolding room_def
proof
  fix x assume "x \<in> members ch"
  then obtain c where "lwc_heap w x = Some c" "info w x = erase_links c" using member_node [OF assms(1)] by blast
  then have "unat (lw_refcnt (info w x)) + 2 < 2 ^ 32" using assms(2) unfolding counts_fit_def by auto
  then show "unat (lw_refcnt (info w x)) + k < 2 ^ 32" using assms(3) by linarith
qed

lemma start_ok: "lwc_ok lwc_start (\<lambda>_. []) {} (\<lambda>_. 0)"
  by (simp add: lwc_ok_def lwc_start_def chains_def placed_def members_def content_def texts_ok_def)

lemma substring_spec:
  assumes ok: "lwc_ok w ch fl held" and env: "fresh_alloc env" and r: "room 1 (info w) (members ch)"
    and a: "a \<in> members ch" and fits: "unat off + unat len < 2 ^ 32"
  shows "\<exists>err ret w'. lwc_intern_substring env a off len w = Some ((err, ret), w') \<and>
     ((\<exists>x ch' u. err = lwc_error_ok \<and> ret = Some (Some x) \<and> unat off < length (lw_text (info w a)) \<and> unat off + unat len \<le> length (lw_text (info w a))
          \<and> taken_for u (take (unat len) (drop (unat off) (lw_text (info w a)))) \<and> interned w ch fl held u w' ch' x)
      \<or> (ret = None \<or> ret = Some None) \<and> intern_fails w ch fl held err w'
      \<or> err = lwc_error_range \<and> ret = None \<and> w' = w \<and> \<not> (unat off < length (lw_text (info w a)) \<and> unat off + unat len \<le> length (lw_text (info w a))))"
proof -
  obtain c where c: "lwc_heap w a = Some c" "info w a = erase_links c" using member_node [OF ok a] by blast
  have s: "unat (off + len) = unat off + unat len" using fits by (subst unat_add_lem [THEN iffD1]) simp_all
  let ?t = "take (unat len) (drop (unat off) (lw_text c))"
  show ?thesis
  proof (cases "unat off < length (lw_text c) \<and> unat off + unat len \<le> length (lw_text c)")
    case False
    then show ?thesis unfolding lwc_intern_substring_def c s by (auto simp: not_less not_le)
  next
    case True
    from intern_string_spec [OF ok env r, of ?t] True show ?thesis unfolding lwc_intern_substring_def c s by auto
  qed
qed

lemma lwc_reach_ok:
  assumes "lwc_reach env w held" "fresh_alloc env"
  shows "\<exists>ch. lwc_ok w ch {} held"
  using assms
proof (induction rule: lwc_reach.induct)
  case start
  show ?case using start_ok by blast
next
  case (intern w held s err ret w')
  then obtain ch where ok: "lwc_ok w ch {} held" by blast
  from intern_string_spec [OF ok intern.prems counts_room [OF ok intern.hyps(2)], of s] show ?case
    using intern.hyps(3) by (auto simp: interned_def intern_fails_def fun_upd_def)
next
  case (substring w held a off len err ret w')
  then obtain ch where ok: "lwc_ok w ch {} held" by blast
  from substring_spec [OF ok substring.prems counts_room [OF ok substring.hyps(2)] held_member [OF ok substring.hyps(3)] substring.hyps(4)] show ?case
    using substring.hyps(5) ok by (auto simp: interned_def intern_fails_def fun_upd_def)
next
  case (tolower w held a err ret w')
  then obtain ch where ok: "lwc_ok w ch {} held" by blast
  from tolower_spec [OF ok tolower.prems counts_room [OF ok tolower.hyps(2)] tolower.hyps(3)] show ?case
    using tolower.hyps(4) by (auto simp: fun_upd_def)
next
  case (isequal w held a b r w')
  then obtain ch where ok: "lwc_ok w ch {} held" by blast
  from isequal_spec [OF ok isequal.prems counts_room [OF ok isequal.hyps(2)] isequal.hyps(3,4)] show ?case
    using isequal.hyps(5) by auto
next
  case (hash w held a r w')
  then obtain ch where ok: "lwc_ok w ch {} held" by blast
  from hash_value_spec [OF ok hash.prems counts_room [OF ok hash.hyps(2)] hash.hyps(3)] show ?case
    using hash.hyps(4) by auto
next
  case (ref w held a r w')
  then obtain ch where ok: "lwc_ok w ch {} held" by blast
  note m = held_member [OF ok ref.hyps(3)]
  have "unat (lw_refcnt (info w a)) + 1 < 2 ^ 32" using counts_room [OF ok ref.hyps(2), of 1] m by (simp add: room_def)
  from ref_spec [OF ok m this] show ?case using ref.hyps(4) by (auto simp: fun_upd_def)
next
  case (unref w held a w')
  then obtain ch where ok: "lwc_ok w ch {} held" by blast
  from unref_spec [OF ok unref.hyps(2)] show ?case using unref.hyps(3) by (auto simp: given_back_def fun_upd_def)
next
  case (iterate w held xs w')
  then obtain ch where ok: "lwc_ok w ch {} held" by blast
  then obtain ys w2 where "lwc_iterate_strings w = Some (ys, w2)" "lwc_ok w2 ch {} held" using iterate_spec by blast
  then show ?case using iterate.hyps(2) by auto
qed

section \<open>What callers rely on\<close>

lemma node_text: "lwc_heap w a = Some c \<Longrightarrow> lw_text (info w a) = lw_text c"
  by (simp add: info_some)

lemma lwc_reach_equal:
  assumes "fresh_alloc env" "lwc_reach env w held" "counts_fit w" "0 < held a" "0 < held b"
  shows "\<exists>ca cb err ans w'. lwc_heap w a = Some ca \<and> lwc_heap w b = Some cb
      \<and> (lwc_string_isequal a b \<longleftrightarrow> lw_text ca = lw_text cb)
      \<and> lwc_string_caseless_isequal env a b w = Some ((err, ans), w')
      \<and> (err = lwc_error_ok \<and> ans = Some (map lwc__dolower (lw_text ca) = map lwc__dolower (lw_text cb)) \<or> err = lwc_error_oom \<and> ans = None)"
proof -
  obtain ch where ok: "lwc_ok w ch {} held" using lwc_reach_ok [OF assms(2,1)] by blast
  have m: "a \<in> members ch" "b \<in> members ch" using held_member [OF ok] assms(4,5) by blast+
  obtain ca cb where c: "lwc_heap w a = Some ca" "lwc_heap w b = Some cb" using member_node [OF ok] m by metis
  have "lwc_string_isequal a b \<longleftrightarrow> lw_text ca = lw_text cb"
    using same_text [OF ok m] c by (simp add: lwc_string_isequal_def node_text)
  with isequal_spec [OF ok assms(1) counts_room [OF ok assms(3)] assms(4,5)] c show ?thesis by (auto simp: node_text)
qed

lemma lwc_reach_intern:
  assumes "fresh_alloc env" "lwc_reach env w held" "counts_fit w"
  shows "\<exists>err ret w'. lwc_intern_string env s w = Some ((err, ret), w')
      \<and> ((\<exists>x c. err = lwc_error_ok \<and> ret = Some (Some x) \<and> lwc_heap w' x = Some c
            \<and> taken_for (lw_text c) s \<and> (CHR 0x00 \<notin> set s \<longrightarrow> lw_text c = s)
            \<and> (\<forall>b cb. 0 < held b \<longrightarrow> lwc_heap w b = Some cb \<longrightarrow> (x = b \<longleftrightarrow> lw_text cb = lw_text c)))
         \<or> err = lwc_error_oom \<and> (ret = None \<or> ret = Some None) \<and> lwc_heap w' = lwc_heap w)"
proof -
  obtain ch where ok: "lwc_ok w ch {} held" using lwc_reach_ok [OF assms(2,1)] by blast
  obtain err ret w' where f: "lwc_intern_string env s w = Some ((err, ret), w')"
    and d: "(\<exists>x ch' u. err = lwc_error_ok \<and> ret = Some (Some x) \<and> taken_for u s \<and> interned w ch {} held u w' ch' x)
      \<or> (ret = None \<or> ret = Some None) \<and> intern_fails w ch {} held err w'"
    using intern_string_spec [OF ok assms(1) counts_room [OF ok assms(3)], of s] by fastforce
  from d show ?thesis
  proof
    assume "\<exists>x ch' u. err = lwc_error_ok \<and> ret = Some (Some x) \<and> taken_for u s \<and> interned w ch {} held u w' ch' x"
    then obtain x ch' u where r: "err = lwc_error_ok" "ret = Some (Some x)" "taken_for u s" and i: "interned w ch {} held u w' ch' x" by blast
    then have ok': "lwc_ok w' ch' {} (held(x := held x + 1))" and x: "x \<in> members ch'" "lw_text (info w' x) = u"
      and k: "members ch \<subseteq> members ch'" "kept (info w) (info w') (members ch)" by (simp_all add: interned_def)
    obtain c where c: "lwc_heap w' x = Some c" using member_node [OF ok' x(1)] by blast
    have "x = b \<longleftrightarrow> lw_text cb = u" if "0 < held b" "lwc_heap w b = Some cb" for b cb
    proof -
      have bm: "b \<in> members ch" using held_member [OF ok that(1)] .
      then have t: "lw_text (info w' b) = lw_text cb" using kept_text [OF k(2) bm] node_text [OF that(2)] by simp
      have "b \<in> members ch'" using bm k(1) by blast
      then show ?thesis using same_text [OF ok' x(1)] t x(2) by metis
    qed
    then have "\<forall>b cb. 0 < held b \<longrightarrow> lwc_heap w b = Some cb \<longrightarrow> (x = b \<longleftrightarrow> lw_text cb = u)" by blast
    moreover have "lw_text c = u" using x(2) node_text [OF c] by simp
    ultimately show ?thesis using f r c taken_for_nul_free [OF r(3)] by blast
  qed (use f in \<open>auto simp: intern_fails_def\<close>)
qed

lemma lwc_reach_hash:
  assumes "fresh_alloc env" "lwc_reach env w held" "counts_fit w" "0 < held a"
  shows "\<exists>c err h w'. lwc_heap w a = Some c \<and> lwc_string_caseless_hash_value env a w = Some ((err, h), w')
      \<and> (err = lwc_error_ok \<and> h = Some (lwc__calculate_lcase_hash (lw_text c)) \<or> err = lwc_error_oom \<and> h = None)"
proof -
  obtain ch where ok: "lwc_ok w ch {} held" using lwc_reach_ok [OF assms(2,1)] by blast
  obtain c where "lwc_heap w a = Some c" using member_node [OF ok held_member [OF ok assms(4)]] by blast
  then show ?thesis using hash_value_spec [OF ok assms(1) counts_room [OF ok assms(3)] assms(4)] by (auto simp: node_text)
qed

lemma lwc_reach_unref:
  assumes "fresh_alloc env" "lwc_reach env w held" "0 < held a"
  shows "\<exists>w'. lwc_string_unref a w = Some w'
      \<and> (\<forall>b c. 0 < (held(a := held a - 1)) b \<longrightarrow> lwc_heap w b = Some c \<longrightarrow> (\<exists>c'. lwc_heap w' b = Some c' \<and> lw_text c' = lw_text c))"
proof -
  obtain ch where ok: "lwc_ok w ch {} held" using lwc_reach_ok [OF assms(2,1)] by blast
  obtain w' ch' where u: "lwc_string_unref a w = Some w'" "given_back w ch {} held a w' ch'" using unref_spec [OF ok assms(3)] by blast
  then have ok': "lwc_ok w' ch' {} (held(a := held a - 1))" and t: "\<forall>x \<in> members ch'. lw_text (info w' x) = lw_text (info w x)"
    by (simp_all add: given_back_def)
  have "\<exists>c'. lwc_heap w' b = Some c' \<and> lw_text c' = lw_text c" if b: "0 < (held(a := held a - 1)) b" "lwc_heap w b = Some c" for b c
  proof -
    have m: "b \<in> members ch'" using held_member [OF ok' b(1)] .
    obtain c' where c': "lwc_heap w' b = Some c'" using member_node [OF ok' m] by blast
    then show ?thesis using t m node_text [OF c'] node_text [OF b(2)] by auto
  qed
  then show ?thesis using u(1) by blast
qed

lemma lwc_reach_empty:
  assumes "fresh_alloc env" "lwc_reach env w held" "\<forall>x. held x = 0"
  shows "lwc_heap w = (\<lambda>_. None) \<and> lwc_iterate_strings w = Some ([], w\<lparr>lwc_buckets := None\<rparr>)"
proof -
  obtain ch where ok: "lwc_ok w ch {} held" using lwc_reach_ok [OF assms(2,1)] by blast
  have m: "members ch = {}" using nothing_held [OF lwc_okD(3) [OF ok] assms(3)] .
  then have "dom (lwc_heap w) = {}" using lwc_okD(4) [OF ok] by simp
  then show ?thesis using iterate_spec [OF ok] m by auto
qed


text \<open>
  C31. In every state that callers can reach, giving back a reference they have works and the strings they still
  have keep their texts; once they have given back all, no string is left and the next
  \<open>lwc_iterate_strings\<close> finds none and gives up the context.
\<close>

theorem lwc_nothing_leaks:
  assumes "fresh_alloc env" "lwc_reach env w held"
  shows "(\<forall>a. 0 < held a \<longrightarrow> (\<exists>w'. lwc_string_unref a w = Some w'
        \<and> (\<forall>b c. 0 < (held(a := held a - 1)) b \<longrightarrow> lwc_heap w b = Some c \<longrightarrow> (\<exists>c'. lwc_heap w' b = Some c' \<and> lw_text c' = lw_text c))))
    \<and> ((\<forall>x. held x = 0) \<longrightarrow> lwc_heap w = (\<lambda>_. None) \<and> lwc_iterate_strings w = Some ([], w\<lparr>lwc_buckets := None\<rparr>))"
  using lwc_reach_unref [OF assms] lwc_reach_empty [OF assms] by blast

section \<open>An instance\<close>

definition two_slots :: lwc_env where
  "two_slots = \<lparr>lwc_alloc_ctx = True, lwc_alloc = (\<lambda>hp n. if hp 1 = None then Some 1 else if hp 2 = None then Some 2 else None)\<rparr>"

lemma two_slots_fresh: "fresh_alloc two_slots"
  by (auto simp: fresh_alloc_def two_slots_def split: if_splits)

definition interned_A :: lwc_world where
  "interned_A = \<lparr>lwc_buckets = Some ((\<lambda>_. None)(bucket_of ''A'' := Some 1)),
     lwc_heap = [1 \<mapsto> \<lparr>lw_prevptr = Bucket (bucket_of ''A''), lw_next = None, lw_hash = lwc__calculate_hash ''A'', lw_refcnt = 1,
       lw_insensitive = None, lw_text = ''A''\<rparr>]\<rparr>"

lemma intern_A: "lwc_intern_string two_slots ''A'' lwc_start = Some ((lwc_error_ok, Some (Some 1)), interned_A)"
proof -
  have "unat (lwc__calculate_hash ''A'') mod NR_BUCKETS_DEFAULT = bucket_of ''A''" by (simp add: bucket_of_def)
  then show ?thesis
    by (simp add: lwc_intern_string_def lwc__intern_def lwc__initialise_def lwc_start_def two_slots_def Let_def lwc_find.simps
        lwc_write_def interned_A_def)
qed

lemma reach_A: "lwc_reach two_slots interned_A ((\<lambda>_. 0)(1 := 1))"
  using lwc_reach.intern [OF lwc_reach.start _ intern_A] by (simp add: counts_fit_def lwc_start_def)

lemma fit_A: "counts_fit interned_A"
  by (simp add: counts_fit_def interned_A_def)


lemma lwc_nothing_leaks_witness:
  "(\<exists>w'. lwc_string_unref 1 interned_A = Some w') \<and> lwc_iterate_strings lwc_start = Some ([], lwc_start)"
  using conjunct1 [OF lwc_nothing_leaks [OF two_slots_fresh reach_A], rule_format, of 1]
    conjunct2 [OF lwc_nothing_leaks [OF two_slots_fresh lwc_reach.start]] by (auto simp: lwc_start_def)

text \<open>
  Two texts of five bytes that begin with a NUL and have one hash: interning the second gives the
  string of the first.
\<close>

lemma lwc_nul_texts_merge:
  defines "s \<equiv> CHR 0x00 # ''hBxj''" and "t \<equiv> CHR 0x00 # ''D1la''"
  shows "s \<noteq> t \<and> taken_for s t
    \<and> (\<exists>w1 w2 c. lwc_intern_string two_slots s lwc_start = Some ((lwc_error_ok, Some (Some 1)), w1)
         \<and> lwc_intern_string two_slots t w1 = Some ((lwc_error_ok, Some (Some 1)), w2)
         \<and> lwc_heap w2 1 = Some c \<and> lw_text c = s)"
proof -
  have h: "lwc__calculate_hash s = 0x6a9e6547" "lwc__calculate_hash t = 0x6a9e6547"
    unfolding s_def t_def by code_simp+
  have "strncmp_bytes s t 5" by (simp add: s_def t_def strncmp_bytes_def strncmp_eq_def cstr_def)
  moreover have "length s = 5" "length t = 5" by (simp_all add: s_def t_def)
  ultimately show ?thesis
    using h by (simp add: lwc_intern_string_def lwc__intern_def lwc__initialise_def lwc_start_def two_slots_def Let_def lwc_find.simps
        lwc_write_def lwc_update_def taken_for_def) (simp add: s_def t_def cstr_def)
qed

text \<open>
  The sum of \<open>lwc_intern_substring\<close> wraps: a length that makes it so passes both checks, where the
  documentation promises \<open>lwc_error_range\<close>, and the code reads beyond the string.
\<close>

theorem lwc_substring_wraps:
  assumes "lwc_heap w a = Some str" "length (lw_text str) < 2 ^ 32" "unat off < length (lw_text str)"
    and "2 ^ 32 \<le> unat off + unat len" "unat off + unat len \<le> 2 ^ 32 + length (lw_text str)"
  shows "lwc_intern_substring env a off len w = None"
proof -
  have "unat (off + len) \<le> length (lw_text str)" using assms(4,5) by (simp add: unat_plus_if')
  moreover have "length (lw_text str) < unat off + unat len" using assms(2,4) by linarith
  ultimately show ?thesis using assms(1,3) unfolding lwc_intern_substring_def by simp
qed

end
