(* ===== verification/DebugLog.thy ===== *)
theory DebugLog
  imports MS_Prelude "HOL-Library.Monad_Syntax"
begin

text \<open>
  The diagnostic channels, \<open>macsurf_debug_log.c\<close> and \<open>macsurf_debug.c\<close>: the formatter into a buffer of
  fixed size, the log file with its buffer of 4096 bytes, and the window title with its lock and the
  probe text.

  The Toolbox is the record \<open>log_env\<close>: what each call of the File Manager answers, how many bytes
  \<open>FSWrite\<close> writes of those given (which may depend on the file), the clock at its n-th reading, and
  whether there is a front window. The file is the list of bytes written since it was opened; the
  position is always its end.
\<close>

section \<open>Formatting\<close>

datatype log_arg = ArgInt int | ArgLong int | ArgPtr "32 word" | ArgStr "string option"

text \<open>Appending to a text of less than \<open>cap\<close> bytes.\<close>

definition fmt_append_char :: "int \<Rightarrow> char \<Rightarrow> string \<Rightarrow> string" where
  "fmt_append_char cap c dst = (if int (length dst) < cap - 1 then dst @ [c] else dst)"

fun fmt_append_chars :: "int \<Rightarrow> string \<Rightarrow> string \<Rightarrow> string" where
  "fmt_append_chars cap [] dst = dst"
| "fmt_append_chars cap (c # cs) dst = fmt_append_chars cap cs (fmt_append_char cap c dst)"

definition fmt_append_str :: "int \<Rightarrow> string option \<Rightarrow> string \<Rightarrow> string" where
  "fmt_append_str cap s dst = fmt_append_chars cap (case s of None \<Rightarrow> ''(null)'' | Some t \<Rightarrow> t) dst"

text \<open>The digits of a number, last one first, at most 11 of them.\<close>

function digits_loop :: "nat \<Rightarrow> nat \<Rightarrow> string" where
  "digits_loop di uval =
     (let d = char_of (48 + uval mod 10); uval' = uval div 10; di' = di + 1
      in if uval' > 0 \<and> di' < 11 then d # digits_loop di' uval' else [d])"
  by pat_completeness auto
termination by (relation "measure (\<lambda>(di, uval). 11 - di)") auto

declare digits_loop.simps [simp del]

text \<open>The absolute value, without overflow at \<open>LONG_MIN\<close>.\<close>

definition long_magnitude :: "int \<Rightarrow> 32 word" where
  "long_magnitude v = (if v < 0 then word_of_int (- (v + 1)) + 1 else word_of_int v)"

definition fmt_append_long :: "int \<Rightarrow> int \<Rightarrow> string \<Rightarrow> string" where
  "fmt_append_long cap v dst =
     (let dst1 = (if v < 0 then fmt_append_char cap CHR ''-'' dst else dst)
      in fmt_append_chars cap (rev (digits_loop 0 (unat (long_magnitude v)))) dst1)"

definition log_hex_digit :: "nat \<Rightarrow> char" where
  "log_hex_digit n = ''0123456789ABCDEF'' ! n"

definition fmt_append_hex8 :: "int \<Rightarrow> 32 word \<Rightarrow> string \<Rightarrow> string" where
  "fmt_append_hex8 cap v dst =
     fmt_append_chars cap (map (\<lambda>i. log_hex_digit (unat (drop_bit (i * 4) v AND 0xF))) [7, 6, 5, 4, 3, 2, 1, 0]) dst"

text \<open>
  \<open>fmt_vformat\<close>. An argument that is missing or of another type than the format says is undefined,
  \<open>None\<close>.
\<close>

fun fmt_loop :: "int \<Rightarrow> string \<Rightarrow> log_arg list \<Rightarrow> string \<Rightarrow> string option" where
  "fmt_loop cap [] args dst = Some dst"
| "fmt_loop cap [c] args dst = Some (if c = CHR ''%'' then dst else fmt_append_char cap c dst)"
| "fmt_loop cap (c # p # ps) args dst =
     (if c \<noteq> CHR ''%'' then fmt_loop cap (p # ps) args (fmt_append_char cap c dst)
      else if p = CHR ''%'' then fmt_loop cap ps args (fmt_append_char cap CHR ''%'' dst)
      else if p = CHR ''d'' then
        (case args of ArgInt v # as \<Rightarrow> fmt_loop cap ps as (fmt_append_long cap v dst) | _ \<Rightarrow> None)
      else if p = CHR ''l'' \<and> take 1 ps = ''d'' then
        (case args of ArgLong v # as \<Rightarrow> fmt_loop cap (drop 1 ps) as (fmt_append_long cap v dst) | _ \<Rightarrow> None)
      else if p = CHR ''p'' then
        (case args of ArgPtr v # as \<Rightarrow> fmt_loop cap ps as (fmt_append_hex8 cap v dst) | _ \<Rightarrow> None)
      else if p = CHR ''s'' then
        (case args of ArgStr s # as \<Rightarrow> fmt_loop cap ps as (fmt_append_str cap s dst) | _ \<Rightarrow> None)
      else fmt_loop cap ps args (fmt_append_char cap p (fmt_append_char cap CHR ''%'' dst)))"

text \<open>The text in the buffer, before its NUL; nothing is written to a buffer of no size.\<close>

definition fmt_vformat :: "int \<Rightarrow> string option \<Rightarrow> log_arg list \<Rightarrow> string option" where
  "fmt_vformat cap fmt args =
     (if cap \<le> 0 then None else fmt_loop cap (case fmt of None \<Rightarrow> ''(null-fmt)'' | Some f \<Rightarrow> f) args [])"

section \<open>The log file\<close>

definition LOG_BUF_CAP :: nat where "LOG_BUF_CAP = 4096"

record log_env =
  le_find_folder :: "(int \<times> int) option"
  le_make_spec :: "bool \<Rightarrow> int"
  le_create :: int
  le_open :: "int option"
  le_write :: "bytes \<Rightarrow> bytes \<Rightarrow> nat"
  le_ticks :: "nat \<Rightarrow> 32 word"
  le_date :: "int list"
  le_front_window :: bool

record log_state =
  log_open :: bool
  log_ref :: int
  log_vref :: int
  log_buf :: bytes
  log_t0 :: "32 word"
  log_readings :: nat
  log_file :: bytes
  log_flushes :: nat
  title_locked :: bool
  probe_buf :: string
  window_title :: "string option"

definition fs_write :: "log_env \<Rightarrow> bytes \<Rightarrow> log_state \<Rightarrow> log_state" where
  "fs_write env data s = s\<lparr>log_file := log_file s @ take (le_write env (log_file s) data) data\<rparr>"

definition flush_vol :: "log_state \<Rightarrow> log_state" where
  "flush_vol s = s\<lparr>log_flushes := log_flushes s + 1\<rparr>"

definition tick_count :: "log_env \<Rightarrow> log_state \<Rightarrow> 32 word \<times> log_state" where
  "tick_count env s = (le_ticks env (log_readings s), s\<lparr>log_readings := log_readings s + 1\<rparr>)"

definition macsurf_debug_log_buffer_flush :: "log_env \<Rightarrow> log_state \<Rightarrow> log_state" where
  "macsurf_debug_log_buffer_flush env s =
     (if \<not> log_open s \<or> log_buf s = [] then s else (fs_write env (log_buf s) s)\<lparr>log_buf := []\<rparr>)"

text \<open>The messages that are silenced.\<close>

definition starts :: "string \<Rightarrow> string \<Rightarrow> bool" where
  "starts pat msg \<longleftrightarrow> strncmp_eq msg pat (length pat)"

definition log_silenced :: "string \<Rightarrow> bool" where
  "log_silenced msg \<longleftrightarrow>
     (take 1 msg = ''L'' \<and> starts ''LAYOUTPHASE'' msg \<or> take 1 msg = ''M'' \<and> starts ''MCOL'' msg
      \<or> take 1 msg = ''F'' \<and> starts ''FLEXPHASE'' msg)
     \<or> (take 1 msg = ''p'' \<and> (starts ''plot_rect['' msg \<or> starts ''plot_text['' msg)
      \<or> take 1 msg = ''s'' \<and> (starts ''svg_box:'' msg \<or> starts ''svg_shape:'' msg \<or> starts ''svg_walk_enter:'' msg
          \<or> starts ''svg_paint:'' msg \<or> starts ''slot['' msg)
      \<or> take 1 msg = ''G'' \<and> starts ''GRADIENT'' msg)
     \<or> take 1 msg = ''u'' \<and> starts ''update: '' msg \<and> \<not> starts ''bw_redraw done'' (drop 8 msg)
     \<or> take 1 msg = ''g'' \<and> starts ''gw_event: e='' msg
     \<or> take 1 msg = ''L'' \<and> starts ''LAYOUT_CRUMB'' msg"

definition log_stamp :: "32 word \<Rightarrow> string" where
  "log_stamp t = ''['' @ show_nat (unat t) @ ''] ''"

definition macsurf_debug_log_write :: "log_env \<Rightarrow> string option \<Rightarrow> log_state \<Rightarrow> log_state" where
  "macsurf_debug_log_write env m s =
     (case m of
        None \<Rightarrow> s
      | Some msg \<Rightarrow>
          if \<not> log_open s then s
          else if log_silenced msg then s
          else
            (case tick_count env s of (now, s1) \<Rightarrow>
              let s2 = (if log_t0 s1 = 0 then s1\<lparr>log_t0 := now\<rparr> else s1);
                  tbuf = log_stamp (now - log_t0 s2);
                  line_total = length tbuf + length msg + 1
              in if line_total > LOG_BUF_CAP then
                   (let s3 = macsurf_debug_log_buffer_flush env s2;
                        s4 = (if tbuf \<noteq> [] then fs_write env tbuf s3 else s3);
                        s5 = (if msg \<noteq> [] then fs_write env msg s4 else s4)
                    in fs_write env [CR] s5)
                 else
                   (let s3 = (if length (log_buf s2) + line_total > LOG_BUF_CAP then macsurf_debug_log_buffer_flush env s2 else s2);
                        s4 = s3\<lparr>log_buf := log_buf s3 @ tbuf\<rparr>;
                        s5 = s4\<lparr>log_buf := log_buf s4 @ msg\<rparr>
                    in s5\<lparr>log_buf := log_buf s5 @ [CR]\<rparr>)))"

definition macsurf_debug_log_writef :: "log_env \<Rightarrow> string option \<Rightarrow> log_arg list \<Rightarrow> log_state \<Rightarrow> log_state option" where
  "macsurf_debug_log_writef env fmt args s =
     do { buf \<leftarrow> fmt_vformat 256 fmt args; Some (macsurf_debug_log_write env (Some buf) s) }"

definition macsurf_debug_log_flush :: "log_env \<Rightarrow> log_state \<Rightarrow> log_state" where
  "macsurf_debug_log_flush env s =
     (if \<not> log_open s then s
      else let s1 = macsurf_debug_log_buffer_flush env s in if log_vref s1 \<noteq> 0 then flush_vol s1 else s1)"

definition macsurf_debug_log_close :: "log_env \<Rightarrow> log_state \<Rightarrow> log_state" where
  "macsurf_debug_log_close env s =
     (if \<not> log_open s then s
      else (macsurf_debug_log_buffer_flush env (macsurf_debug_log_write env (Some ''---- macsurf_debug_log_close ----'') s))
             \<lparr>log_ref := 0, log_open := False\<rparr>)"

definition macsurf_assert_failed :: "log_env \<Rightarrow> string option \<Rightarrow> string option \<Rightarrow> int \<Rightarrow> log_state \<Rightarrow> log_state option" where
  "macsurf_assert_failed env expr file line s =
     macsurf_debug_log_writef env (Some ''ASSERT %s:%d %s'')
       [ArgStr (Some (case file of None \<Rightarrow> ''?'' | Some f \<Rightarrow> f)), ArgInt line, ArgStr (Some (case expr of None \<Rightarrow> ''?'' | Some e \<Rightarrow> e))] s"

section \<open>The window title\<close>

definition macsurf_debug_set_title :: "log_env \<Rightarrow> string option \<Rightarrow> log_state \<Rightarrow> log_state" where
  "macsurf_debug_set_title env m s =
     (if title_locked s then s
      else case m of
        None \<Rightarrow> s
      | Some msg \<Rightarrow> if \<not> le_front_window env then s else s\<lparr>window_title := Some (take 255 msg)\<rparr>)"

definition macsurf_debug_set_title_force :: "log_env \<Rightarrow> string option \<Rightarrow> log_state \<Rightarrow> log_state" where
  "macsurf_debug_set_title_force env m s =
     (macsurf_debug_set_title env m (s\<lparr>title_locked := False\<rparr>))\<lparr>title_locked := True\<rparr>"

definition macsurf_debug_title_is_locked :: "log_state \<Rightarrow> bool" where
  "macsurf_debug_title_is_locked s = title_locked s"

definition probe_buf_append_char :: "char \<Rightarrow> log_state \<Rightarrow> log_state" where
  "probe_buf_append_char c s = (if length (probe_buf s) < 255 then s\<lparr>probe_buf := probe_buf s @ [c]\<rparr> else s)"

definition probe_buf_append_str :: "string option \<Rightarrow> log_state \<Rightarrow> log_state" where
  "probe_buf_append_str m s = (case m of None \<Rightarrow> s | Some t \<Rightarrow> fold probe_buf_append_char t s)"

definition probe_buf_append_long :: "int \<Rightarrow> log_state \<Rightarrow> log_state" where
  "probe_buf_append_long v s =
     fold probe_buf_append_char (rev (digits_loop 0 (unat (long_magnitude v)))) (if v < 0 then probe_buf_append_char CHR ''-'' s else s)"

definition macsurf_debug_probe_reset :: "log_state \<Rightarrow> log_state" where
  "macsurf_debug_probe_reset s = s\<lparr>probe_buf := []\<rparr>"

definition macsurf_debug_probe_append :: "log_env \<Rightarrow> string option \<Rightarrow> log_state \<Rightarrow> log_state" where
  "macsurf_debug_probe_append env m s =
     (let s1 = (if probe_buf s \<noteq> [] then probe_buf_append_char SP s else s);
          s2 = probe_buf_append_str m s1
      in macsurf_debug_set_title_force env (Some (probe_buf s2)) s2)"

definition macsurf_debug_probe_append_int :: "log_env \<Rightarrow> string option \<Rightarrow> int \<Rightarrow> log_state \<Rightarrow> log_state" where
  "macsurf_debug_probe_append_int env label value s =
     (let s1 = (if probe_buf s \<noteq> [] then probe_buf_append_char SP s else s);
          s2 = probe_buf_append_long value (probe_buf_append_char CHR ''='' (probe_buf_append_str label s1))
      in macsurf_debug_set_title_force env (Some (probe_buf s2)) s2)"

text \<open>The text \<open>macsurf_debug_log_int\<close> puts into its array of 128 bytes.\<close>

definition log_int_text :: "string option \<Rightarrow> int \<Rightarrow> string" where
  "log_int_text label value =
     (let head = take 80 (case label of None \<Rightarrow> ''?'' | Some l \<Rightarrow> l) @ '': '';
          digits = digits_loop 0 (unat (long_magnitude value)) @ (if value < 0 then ''-'' else [])
      in head @ take (126 - length head) (rev digits))"

definition macsurf_debug_log_int :: "log_env \<Rightarrow> string option \<Rightarrow> int \<Rightarrow> log_state \<Rightarrow> log_state" where
  "macsurf_debug_log_int env label value s = macsurf_debug_log_write env (Some (log_int_text label value)) s"

definition macsurf_debug_log_int_force :: "log_env \<Rightarrow> string option \<Rightarrow> int \<Rightarrow> log_state \<Rightarrow> log_state" where
  "macsurf_debug_log_int_force env label value s =
     (macsurf_debug_log_int env label value (s\<lparr>title_locked := False\<rparr>))\<lparr>title_locked := True\<rparr>"

definition log_str_text :: "string option \<Rightarrow> string option \<Rightarrow> string" where
  "log_str_text label value =
     (let head = take 60 (case label of None \<Rightarrow> ''?'' | Some l \<Rightarrow> l) @ '': ''
      in head @ take (126 - length head) (case value of None \<Rightarrow> ''(null)'' | Some v \<Rightarrow> v))"

definition macsurf_debug_log_str :: "log_env \<Rightarrow> string option \<Rightarrow> string option \<Rightarrow> log_state \<Rightarrow> log_state" where
  "macsurf_debug_log_str env label value s = macsurf_debug_log_write env (Some (log_str_text label value)) s"

section \<open>Opening the log\<close>

definition noErr :: int where "noErr = 0"
definition fnfErr :: int where "fnfErr = -43"

text \<open>\<open>FSMakeFSSpec\<close> is asked again after \<open>FSpCreate\<close>; \<open>le_make_spec\<close> answers for both times.\<close>

definition macsurf_debug_log_init :: "log_env \<Rightarrow> log_state \<Rightarrow> log_state option" where
  "macsurf_debug_log_init env s =
     (if log_open s then Some s
      else case le_find_folder env of
        None \<Rightarrow> Some (macsurf_debug_set_title env (Some ''log init: FindFolder fail'') s)
      | Some (vref, dir) \<Rightarrow>
          (let err1 = le_make_spec env False;
               created = (err1 = fnfErr \<and> le_create env = noErr);
               err = (if created then le_make_spec env True else err1)
           in if err1 = fnfErr \<and> le_create env \<noteq> noErr
              then Some (macsurf_debug_set_title env (Some ''log init: FSpCreate fail'') s)
              else if err \<noteq> noErr then Some (macsurf_debug_set_title env (Some ''log init: FSMakeFSSpec fail'') s)
              else case le_open env of
                None \<Rightarrow> Some (macsurf_debug_set_title env (Some ''log init: FSpOpenDF fail'') (s\<lparr>log_ref := 0\<rparr>))
              | Some ref \<Rightarrow>
                  do { let s1 = s\<lparr>log_ref := ref, log_vref := vref, log_open := True\<rparr>;
                       let s2 = macsurf_debug_log_write env (Some []) s1;
                       let s3 = macsurf_debug_log_write env (Some (replicate 40 CHR ''='')) s2;
                       s4 \<leftarrow> macsurf_debug_log_writef env (Some ''=== MacSurf session %d-%d-%d %d:%d:%d ==='') (map ArgInt (le_date env)) s3;
                       let s5 = macsurf_debug_log_write env (Some (replicate 40 CHR ''='')) s4;
                       s6 \<leftarrow> macsurf_debug_log_writef env (Some ''log init OK vref=%d dirID=%ld fsref=%d'') [ArgInt vref, ArgLong dir, ArgInt ref] s5;
                       let s7 = (if log_vref s6 \<noteq> 0 then flush_vol s6 else s6);
                       Some (macsurf_debug_set_title env (Some ''log OK'') s7) }))"

end
