(* ===== verification/DebugLogProps.thy ===== *)
theory DebugLogProps
  imports DebugLog
begin

text \<open>
  Correctness of the diagnostic channels: the formatter against an unbounded one, and the log as a
  list of whole lines.
\<close>

section \<open>The formatter\<close>

text \<open>What a format stands for when the buffer is large enough.\<close>

fun fmt_arg :: "char \<Rightarrow> log_arg \<Rightarrow> string option" where
  "fmt_arg c (ArgInt v) = (if c = CHR ''d'' then Some (show_int v) else None)"
| "fmt_arg c (ArgLong v) = (if c = CHR ''l'' then Some (show_int v) else None)"
| "fmt_arg c (ArgPtr v) = (if c = CHR ''p'' then Some (map (\<lambda>i. log_hex_digit (unat v div 16 ^ i mod 16)) [7, 6, 5, 4, 3, 2, 1, 0]) else None)"
| "fmt_arg c (ArgStr s) = (if c = CHR ''s'' then Some (case s of None \<Rightarrow> ''(null)'' | Some t \<Rightarrow> t) else None)"

definition takes_arg :: "char \<Rightarrow> string \<Rightarrow> bool" where
  "takes_arg p ps \<longleftrightarrow> p = CHR ''d'' \<or> p = CHR ''p'' \<or> p = CHR ''s'' \<or> p = CHR ''l'' \<and> take 1 ps = ''d''"

fun fmt_ref :: "string \<Rightarrow> log_arg list \<Rightarrow> string option" where
  "fmt_ref [] args = Some []"
| "fmt_ref [c] args = Some (if c = CHR ''%'' then [] else [c])"
| "fmt_ref (c # p # ps) args =
     (if c \<noteq> CHR ''%'' then do { r \<leftarrow> fmt_ref (p # ps) args; Some (c # r) }
      else if takes_arg p ps then
        (case args of
           [] \<Rightarrow> None
         | a # as \<Rightarrow> do { t \<leftarrow> fmt_arg p a; r \<leftarrow> fmt_ref (if p = CHR ''l'' then drop 1 ps else ps) as; Some (t @ r) })
      else do { r \<leftarrow> fmt_ref ps args; Some ((if p = CHR ''%'' then ''%'' else [CHR ''%'', p]) @ r) })"

text \<open>Arguments of 32 bits.\<close>

fun arg_fits :: "log_arg \<Rightarrow> bool" where
  "arg_fits (ArgInt v) \<longleftrightarrow> LONG_MIN \<le> v \<and> v \<le> LONG_MAX"
| "arg_fits (ArgLong v) \<longleftrightarrow> LONG_MIN \<le> v \<and> v \<le> LONG_MAX"
| "arg_fits _ \<longleftrightarrow> True"

text \<open>What fits into the buffer.\<close>

definition cut :: "int \<Rightarrow> string \<Rightarrow> string" where
  "cut cap s = take (nat cap - 1) s"

lemma append_chars: "0 < cap \<Longrightarrow> fmt_append_chars cap cs (cut cap dst) = cut cap (dst @ cs)"
proof (induction cs arbitrary: dst)
  case (Cons c cs)
  have "fmt_append_char cap c (cut cap dst) = cut cap (dst @ [c])"
    using Cons.prems by (auto simp: fmt_append_char_def cut_def)
  then show ?case using Cons.IH [OF Cons.prems, of "dst @ [c]"] by simp
qed simp

lemma append_char: "0 < cap \<Longrightarrow> fmt_append_char cap c (cut cap dst) = cut cap (dst @ [c])"
  using append_chars [of cap "[c]" dst] by simp

lemma digits_loop_show:
  "n < 10 ^ (11 - di) \<Longrightarrow> di < 11 \<Longrightarrow> rev (digits_loop di n) = show_nat n"
proof (induction "11 - di" arbitrary: di n)
  case (Suc k)
  show ?case
  proof (cases "n < 10")
    case True
    then show ?thesis by (subst digits_loop.simps, subst show_nat.simps) (simp add: Let_def)
  next
    case False
    have k: "11 - di = Suc k" using Suc.hyps(2) by simp
    have n: "n div 10 < 10 ^ k" using Suc.prems(1) unfolding k by (simp add: less_mult_imp_div_less)
    moreover have "0 < n div 10" using False by simp
    ultimately have "k \<noteq> 0" by (cases k) auto
    then have di: "di + 1 < 11" and k': "k = 11 - (di + 1)" using k by arith+
    have "rev (digits_loop (di + 1) (n div 10)) = show_nat (n div 10)" using Suc.hyps(1) [OF k' _ di] n k' by simp
    then show ?thesis using False di by (subst digits_loop.simps, subst show_nat.simps) (simp add: Let_def)
  qed
qed simp

lemma magnitude_long:
  assumes "LONG_MIN \<le> v" "v \<le> LONG_MAX"
  shows "unat (long_magnitude v) = nat \<bar>v\<bar>"
proof (cases "v < 0")
  case True
  then have "long_magnitude v = word_of_int (- v)" by (simp add: long_magnitude_def)
  moreover have "uint (word_of_int (- v) :: 32 word) = - v"
    using assms True by (subst uint_word_of_int, intro mod_pos_pos_trivial) (simp_all add: LONG_MIN_def)
  ultimately show ?thesis using True by (simp flip: nat_uint_eq)
next
  case False
  then have "uint (word_of_int v :: 32 word) = v" using assms by (simp add: uint_word_of_int LONG_MAX_def)
  then show ?thesis using False by (simp add: long_magnitude_def flip: nat_uint_eq)
qed

lemma digits_long:
  assumes "LONG_MIN \<le> v" "v \<le> LONG_MAX"
  shows "rev (digits_loop 0 (unat (long_magnitude v))) = show_nat (nat \<bar>v\<bar>)"
proof -
  have "nat \<bar>v\<bar> < 10 ^ 11" using assms by (simp add: LONG_MIN_def LONG_MAX_def)
  then show ?thesis unfolding magnitude_long [OF assms] by (intro digits_loop_show) simp_all
qed

lemma append_long:
  assumes "0 < cap" "LONG_MIN \<le> v" "v \<le> LONG_MAX"
  shows "fmt_append_long cap v (cut cap dst) = cut cap (dst @ show_int v)"
  unfolding fmt_append_long_def Let_def digits_long [OF assms(2,3)]
  using append_chars [OF assms(1), of _ "dst @ ''-''"] append_chars [OF assms(1), of _ dst] append_char [OF assms(1), of "CHR ''-''" dst]
  by (simp add: show_int_def)

lemma append_hex:
  assumes "0 < cap"
  shows "fmt_append_hex8 cap v (cut cap dst)
    = cut cap (dst @ map (\<lambda>i. log_hex_digit (unat v div 16 ^ i mod 16)) [7, 6, 5, 4, 3, 2, 1, 0])"
proof -
  have "unat (drop_bit (i * 4) v AND 0xF) = unat v div 16 ^ i mod 16" for i
  proof -
    have "drop_bit (i * 4) v AND 0xF = take_bit 4 (drop_bit (i * 4) v)" by (simp add: take_bit_eq_mask mask_eq_exp_minus_1)
    then have "unat (drop_bit (i * 4) v AND 0xF) = take_bit 4 (drop_bit (i * 4) (unat v))"
      by (simp add: unsigned_take_bit_eq unat_drop_bit_eq)
    also have "\<dots> = unat v div 2 ^ (i * 4) mod 16" by (simp add: take_bit_eq_mod drop_bit_eq_div)
    also have "(2 :: nat) ^ (i * 4) = 16 ^ i" by (subst mult.commute, subst power_mult) simp
    finally show ?thesis .
  qed
  then show ?thesis unfolding fmt_append_hex8_def by (simp only: append_chars [OF assms])
qed

lemma append_str:
  "0 < cap \<Longrightarrow> fmt_append_str cap s (cut cap dst) = cut cap (dst @ (case s of None \<Rightarrow> ''(null)'' | Some t \<Rightarrow> t))"
  unfolding fmt_append_str_def by (rule append_chars)

lemma fmt_loop_ref:
  assumes "0 < cap" "\<forall>a \<in> set args. arg_fits a"
  shows "fmt_loop cap fmt args (cut cap dst) = map_option (\<lambda>r. cut cap (dst @ r)) (fmt_ref fmt args)"
  using assms(2)
proof (induction fmt args arbitrary: dst rule: fmt_ref.induct)
  case (1 args)
  then show ?case by simp
next
  case (2 c args)
  then show ?case using append_char [OF assms(1)] by simp
next
  case (3 c p ps args)
  note app = append_char [OF assms(1)] append_str [OF assms(1)] append_hex [OF assms(1)]
  consider (plain) "c \<noteq> CHR ''%''" | (arg) "c = CHR ''%''" "takes_arg p ps" | (other) "c = CHR ''%''" "\<not> takes_arg p ps" by blast
  then show ?case
  proof cases
    case plain
    then show ?thesis using 3(1) [OF plain 3(4), of "dst @ [c]"] by (simp add: app option.map_comp comp_def split: bind_split)
  next
    case other
    have "fmt_loop cap ps args (cut cap (dst @ q)) = map_option (\<lambda>r. cut cap ((dst @ q) @ r)) (fmt_ref ps args)" for q
      using 3(3) [of "dst @ q"] other 3(4) by simp
    from this [of "''%''"] this [of "[CHR ''%'', p]"] show ?thesis using other app(1) [of p "dst @ ''%''"]
      by (auto simp: takes_arg_def app split: bind_split)
  next
    case arg
    show ?thesis
    proof (cases args)
      case Nil
      then show ?thesis using arg by (auto simp: takes_arg_def)
    next
      case (Cons a as)
      have fit: "arg_fits a" "\<forall>a \<in> set as. arg_fits a" using 3(4) Cons by simp_all
      have ih: "fmt_loop cap (if p = CHR ''l'' then drop 1 ps else ps) as (cut cap (dst @ q))
          = map_option (\<lambda>r. cut cap ((dst @ q) @ r)) (fmt_ref (if p = CHR ''l'' then drop 1 ps else ps) as)"
        if "fmt_arg p a = Some q" for q
        using 3(2) [of a as q "dst @ q"] arg Cons fit(2) that by simp
      show ?thesis
      proof (cases "fmt_arg p a")
        case None
        then show ?thesis using arg Cons by (cases a) (auto simp: takes_arg_def)
      next
        case (Some q)
        have "fmt_loop cap (c # p # ps) args (cut cap dst)
            = fmt_loop cap (if p = CHR ''l'' then drop 1 ps else ps) as (cut cap (dst @ q))"
          using arg Cons Some fit(1)
          by (cases a) (auto simp: takes_arg_def app append_long [OF assms(1)] split: if_splits)
        also note ih [OF Some]
        finally show ?thesis using arg Cons Some by (simp split: bind_split)
      qed
    qed
  qed
qed

text \<open>
  C32. \<open>fmt_vformat\<close> puts into a buffer of any positive size what the format stands for, cut to the
  size less one for the NUL: decimal numbers down to \<open>LONG_MIN\<close>, eight hexadecimal digits,
  strings, and specifiers it does not know as they are.
\<close>

theorem fmt_vformat_correct:
  assumes "0 < cap" "\<forall>a \<in> set args. arg_fits a"
  shows "fmt_vformat cap fmt args
    = map_option (take (nat cap - 1)) (fmt_ref (case fmt of None \<Rightarrow> ''(null-fmt)'' | Some f \<Rightarrow> f) args)"
  using fmt_loop_ref [OF assms, of _ "[]"] assms(1) by (simp add: fmt_vformat_def cut_def [abs_def])

lemma fmt_vformat_correct_witness:
  "fmt_vformat 12 (Some ''a=%ld;%s'') [ArgLong (- 2147483648), ArgStr None] = Some (take 11 (''a='' @ show_int (- 2147483648) @ '';(null)''))"
  using fmt_vformat_correct [of 12 "[ArgLong (- 2147483648), ArgStr None]" "Some ''a=%ld;%s''"]
  by (simp add: LONG_MIN_def LONG_MAX_def takes_arg_def)

section \<open>The log as lines\<close>

text \<open>What has been logged, in the file or still in the buffer.\<close>

definition logged :: "log_state \<Rightarrow> bytes" where
  "logged s = log_file s @ log_buf s"

definition log_line :: "bytes \<Rightarrow> bool" where
  "log_line l \<longleftrightarrow> (\<exists>t msg. l = log_stamp t @ msg @ [CR] \<and> \<not> log_silenced msg)"

text \<open>The line that a message makes.\<close>

definition line_of :: "log_env \<Rightarrow> string option \<Rightarrow> log_state \<Rightarrow> bytes list" where
  "line_of env m s =
     (case m of
        None \<Rightarrow> []
      | Some msg \<Rightarrow>
          if \<not> log_open s \<or> log_silenced msg then []
          else let now = le_ticks env (log_readings s); t0 = (if log_t0 s = 0 then now else log_t0 s)
               in [log_stamp (now - t0) @ msg @ [CR]])"

definition writes_all :: "log_env \<Rightarrow> bool" where
  "writes_all env \<longleftrightarrow> (\<forall>f d. length d \<le> le_write env f d)"

text \<open>The file and the buffer are whole lines.\<close>

definition log_ok :: "log_state \<Rightarrow> bool" where
  "log_ok s \<longleftrightarrow>
     length (log_buf s) \<le> LOG_BUF_CAP \<and> (\<not> log_open s \<longrightarrow> log_buf s = [])
     \<and> (\<exists>done pending. log_file s = concat done \<and> log_buf s = concat pending \<and> (\<forall>l \<in> set (done @ pending). log_line l))"

lemma full_write: "writes_all env \<Longrightarrow> fs_write env d s = s\<lparr>log_file := log_file s @ d\<rparr>"
  by (simp add: fs_write_def writes_all_def)

lemma line_is_line: "l \<in> set (line_of env m s) \<Longrightarrow> log_line l"
  by (auto simp: line_of_def log_line_def Let_def split: option.splits if_splits)

lemma flush_ok:
  assumes "writes_all env" "log_ok s"
  shows "log_ok (macsurf_debug_log_buffer_flush env s) \<and> log_buf (macsurf_debug_log_buffer_flush env s) = []
    \<and> logged (macsurf_debug_log_buffer_flush env s) = logged s"
proof -
  obtain d p where d: "log_file s = concat d" "log_buf s = concat p" "\<forall>l \<in> set (d @ p). log_line l"
    and o: "\<not> log_open s \<longrightarrow> log_buf s = []" using assms(2) by (auto simp: log_ok_def)
  show ?thesis
  proof (cases "log_buf s = []")
    case True
    then show ?thesis using assms(2) by (simp add: macsurf_debug_log_buffer_flush_def)
  next
    case False
    then have r: "macsurf_debug_log_buffer_flush env s = s\<lparr>log_file := log_file s @ log_buf s, log_buf := []\<rparr>"
      using o by (simp add: macsurf_debug_log_buffer_flush_def full_write [OF assms(1)])
    have "log_file s @ log_buf s = concat (d @ p)" using d by simp
    then have "\<exists>dn pe. log_file s @ log_buf s = concat dn \<and> [] = concat pe \<and> (\<forall>l \<in> set (dn @ pe). log_line l)"
      using d(3) by (intro exI [of _ "d @ p"] exI [of _ "[]"]) simp
    then show ?thesis unfolding r by (simp add: log_ok_def logged_def)
  qed
qed

text \<open>Writing one message, on the file or the buffer alone.\<close>

lemma write_lines:
  assumes "writes_all env" "log_ok s"
  shows "log_ok (macsurf_debug_log_write env m s)
    \<and> logged (macsurf_debug_log_write env m s) = logged s @ concat (line_of env m s)
    \<and> log_open (macsurf_debug_log_write env m s) = log_open s \<and> log_vref (macsurf_debug_log_write env m s) = log_vref s"
proof (cases "line_of env m s")
  case Nil
  then have "macsurf_debug_log_write env m s = s"
    by (auto simp: line_of_def macsurf_debug_log_write_def Let_def split: option.splits if_splits)
  then show ?thesis using Nil assms(2) by simp
next
  case (Cons l ls)
  then obtain msg where m: "m = Some msg" "log_open s" "\<not> log_silenced msg"
    by (auto simp: line_of_def Let_def split: option.splits if_splits)
  define now where "now = le_ticks env (log_readings s)"
  define s2 where "s2 = (if log_t0 s = 0 then s\<lparr>log_readings := log_readings s + 1, log_t0 := now\<rparr> else s\<lparr>log_readings := log_readings s + 1\<rparr>)"
  define tbuf where "tbuf = log_stamp (now - log_t0 s2)"
  have l: "l = tbuf @ msg @ [CR]" "ls = []"
    using Cons m by (auto simp: line_of_def Let_def now_def tbuf_def s2_def)
  have same: "log_file s2 = log_file s" "log_buf s2 = log_buf s" "log_open s2 = log_open s" "log_vref s2 = log_vref s"
    by (simp_all add: s2_def)
  have ok2: "log_ok s2" using assms(2) by (simp add: log_ok_def same)
  have lg2: "logged s2 = logged s" by (simp add: logged_def same)
  let ?f = "macsurf_debug_log_buffer_flush env s2"
  have f: "log_ok ?f" "log_buf ?f = []" "logged ?f = logged s" using flush_ok [OF assms(1) ok2] lg2 by simp_all
  have fo: "log_open ?f = log_open s" "log_vref ?f = log_vref s"
    by (simp_all add: macsurf_debug_log_buffer_flush_def fs_write_def same)
  have line: "log_line l" using line_is_line [of l env m s] Cons by simp
  have to_buf: "log_ok (x\<lparr>log_buf := log_buf x @ l\<rparr>)" if okx: "log_ok x" "log_open x" "length (log_buf x) + length l \<le> LOG_BUF_CAP" for x
  proof -
    obtain d p where "log_file x = concat d" "log_buf x = concat p" "\<forall>l \<in> set (d @ p). log_line l"
      using okx(1) unfolding log_ok_def by blast
    then have "\<exists>dn pe. log_file x = concat dn \<and> log_buf x @ l = concat pe \<and> (\<forall>l \<in> set (dn @ pe). log_line l)"
      using line by (intro exI [of _ d] exI [of _ "p @ [l]"]) auto
    then show ?thesis using okx(2,3) by (simp add: log_ok_def)
  qed
  have to_file: "log_ok (x\<lparr>log_file := log_file x @ l\<rparr>)" if okx: "log_ok x" "log_buf x = []" for x
  proof -
    obtain d where "log_file x = concat d" "\<forall>l \<in> set d. log_line l" using okx by (auto simp: log_ok_def)
    then have "\<exists>dn pe. log_file x @ l = concat dn \<and> [] = concat pe \<and> (\<forall>l \<in> set (dn @ pe). log_line l)"
      using line by (intro exI [of _ "d @ [l]"] exI [of _ "[]"]) auto
    then show ?thesis using okx by (simp add: log_ok_def)
  qed
  have run: "macsurf_debug_log_write env m s =
     (if length l > LOG_BUF_CAP then ?f\<lparr>log_file := log_file ?f @ l\<rparr>
      else let x = (if length (log_buf s2) + length l > LOG_BUF_CAP then ?f else s2) in x\<lparr>log_buf := log_buf x @ l\<rparr>)"
    using m unfolding macsurf_debug_log_write_def
    by (simp add: tick_count_def full_write [OF assms(1)] Let_def l(1) tbuf_def s2_def now_def cong: if_cong)
  define x where "x = (if length (log_buf s2) + length l > LOG_BUF_CAP then ?f else s2)"
  have x: "log_ok x" "log_open x" "logged x = logged s" "log_vref x = log_vref s" "length l \<le> LOG_BUF_CAP \<Longrightarrow> length (log_buf x) + length l \<le> LOG_BUF_CAP"
    using f fo ok2 lg2 same m(2) by (auto simp: x_def)
  show ?thesis
  proof (cases "length l > LOG_BUF_CAP")
    case True
    then have r: "macsurf_debug_log_write env m s = ?f\<lparr>log_file := log_file ?f @ l\<rparr>" using run by simp
    show ?thesis unfolding r using to_file [OF f(1,2)] f fo Cons l(2) by (simp add: logged_def)
  next
    case False
    then have r: "macsurf_debug_log_write env m s = x\<lparr>log_buf := log_buf x @ l\<rparr>" using run by (simp add: x_def Let_def)
    show ?thesis unfolding r using to_buf [OF x(1,2)] x m(2) Cons l(2) False by (simp add: logged_def)
  qed
qed

text \<open>Titles and probes leave the log alone.\<close>

definition same_log :: "log_state \<Rightarrow> log_state \<Rightarrow> bool" where
  "same_log s s' \<longleftrightarrow> log_file s' = log_file s \<and> log_buf s' = log_buf s \<and> log_open s' = log_open s \<and> log_vref s' = log_vref s"

lemma same_log_ok: "same_log s s' \<Longrightarrow> log_ok s \<Longrightarrow> log_ok s'"
  by (simp add: same_log_def log_ok_def)

lemma same_logged: "same_log s s' \<Longrightarrow> logged s' = logged s"
  by (simp add: same_log_def logged_def)

lemma set_title_same [simp]: "same_log s (macsurf_debug_set_title env m s)" "same_log s (macsurf_debug_set_title_force env m s)"
  by (auto simp: same_log_def macsurf_debug_set_title_def macsurf_debug_set_title_force_def split: option.split)

lemma same_log_trans: "same_log s s1 \<Longrightarrow> same_log s1 s2 \<Longrightarrow> same_log s s2"
  by (simp add: same_log_def)

lemma probe_char_same [simp]: "same_log s (probe_buf_append_char c s)"
  by (simp add: same_log_def probe_buf_append_char_def)

lemma probe_chars_same: "same_log s (fold probe_buf_append_char cs s)"
proof (induction cs arbitrary: s)
  case (Cons c cs)
  show ?case using same_log_trans [OF probe_char_same Cons.IH] by simp
qed (simp add: same_log_def)

lemma probe_str_same: "same_log s (probe_buf_append_str m s)"
  by (cases m) (simp_all add: probe_buf_append_str_def probe_chars_same, simp add: same_log_def)

lemma probe_long_same: "same_log s (probe_buf_append_long v s)"
  unfolding probe_buf_append_long_def using same_log_trans [OF probe_char_same probe_chars_same] probe_chars_same by simp

lemma probe_space_same: "same_log s (if probe_buf s \<noteq> [] then probe_buf_append_char SP s else s)"
  by (auto simp: same_log_def probe_buf_append_char_def)

lemma probe_append_same: "same_log s (macsurf_debug_probe_append env m s)"
  unfolding macsurf_debug_probe_append_def Let_def
  by (rule same_log_trans [OF probe_space_same same_log_trans [OF probe_str_same set_title_same(2)]])

lemma probe_append_int_same: "same_log s (macsurf_debug_probe_append_int env m v s)"
  unfolding macsurf_debug_probe_append_int_def Let_def
  by (rule same_log_trans [OF probe_space_same same_log_trans [OF probe_str_same same_log_trans [OF probe_char_same same_log_trans [OF probe_long_same set_title_same(2)]]]])

section \<open>Runs\<close>

definition log_start :: log_state where
  "log_start = \<lparr>log_open = False, log_ref = 0, log_vref = 0, log_buf = [], log_t0 = 0, log_readings = 0, log_file = [],
     log_flushes = 0, title_locked = False, probe_buf = [], window_title = None\<rparr>"

inductive log_reach :: "log_env \<Rightarrow> log_state \<Rightarrow> bool" for env where
  start: "log_reach env log_start"
| init: "log_reach env s \<Longrightarrow> macsurf_debug_log_init env s = Some s' \<Longrightarrow> log_reach env s'"
| logging: "log_reach env s \<Longrightarrow> log_reach env (macsurf_debug_log_write env m s)"
| formatted: "log_reach env s \<Longrightarrow> macsurf_debug_log_writef env fmt args s = Some s' \<Longrightarrow> log_reach env s'"
| log_int: "log_reach env s \<Longrightarrow> log_reach env (macsurf_debug_log_int env label v s)"
| log_int_force: "log_reach env s \<Longrightarrow> log_reach env (macsurf_debug_log_int_force env label v s)"
| log_str: "log_reach env s \<Longrightarrow> log_reach env (macsurf_debug_log_str env label t s)"
| checkpoint: "log_reach env s \<Longrightarrow> log_reach env (macsurf_debug_log_flush env s)"
| closing: "log_reach env s \<Longrightarrow> log_reach env (macsurf_debug_log_close env s)"
| title: "log_reach env s \<Longrightarrow> log_reach env (macsurf_debug_set_title env m s)"
| title_force: "log_reach env s \<Longrightarrow> log_reach env (macsurf_debug_set_title_force env m s)"
| probe: "log_reach env s \<Longrightarrow> log_reach env (macsurf_debug_probe_append env m s)"
| probe_int: "log_reach env s \<Longrightarrow> log_reach env (macsurf_debug_probe_append_int env m v s)"
| probe_reset: "log_reach env s \<Longrightarrow> log_reach env (macsurf_debug_probe_reset s)"

lemma log_start_ok: "log_ok log_start"
proof -
  have "\<exists>dn pe. [] = concat dn \<and> [] = concat pe \<and> (\<forall>l \<in> set (dn @ pe). log_line l)"
    by (intro exI [of _ "[]"]) simp
  then show ?thesis by (simp add: log_ok_def log_start_def)
qed

lemma writef_ok:
  assumes "writes_all env" "log_ok s" "macsurf_debug_log_writef env fmt args s = Some s'"
  shows "log_ok s' \<and> log_open s' = log_open s"
  using assms(3) write_lines [OF assms(1,2)] by (auto simp: macsurf_debug_log_writef_def bind_eq_Some_conv)

lemma flush_op_ok:
  assumes "writes_all env" "log_ok s"
  shows "log_ok (macsurf_debug_log_flush env s) \<and> log_buf (macsurf_debug_log_flush env s) = []
    \<and> log_file (macsurf_debug_log_flush env s) = logged s"
proof -
  have "log_ok (flush_vol x) = log_ok x" "log_buf (flush_vol x) = log_buf x" "log_file (flush_vol x) = log_file x" for x
    by (simp_all add: flush_vol_def log_ok_def)
  moreover have "log_buf s = []" if "\<not> log_open s" using assms(2) that by (simp add: log_ok_def)
  moreover have "log_file (macsurf_debug_log_buffer_flush env s) = logged s"
    using flush_ok [OF assms] by (metis append_Nil2 logged_def)
  ultimately show ?thesis using flush_ok [OF assms] assms(2)
    by (cases "log_open s") (simp_all add: macsurf_debug_log_flush_def Let_def, simp add: logged_def)
qed

lemma close_op_ok:
  assumes "writes_all env" "log_ok s"
  shows "log_ok (macsurf_debug_log_close env s) \<and> log_buf (macsurf_debug_log_close env s) = []
    \<and> log_file (macsurf_debug_log_close env s) = logged s @ concat (line_of env (Some ''---- macsurf_debug_log_close ----'') s)"
proof (cases "log_open s")
  case False
  moreover have "log_buf s = []" using assms(2) False by (simp add: log_ok_def)
  ultimately show ?thesis using assms(2) by (simp add: macsurf_debug_log_close_def logged_def line_of_def)
next
  case True
  note w = write_lines [OF assms, of "Some ''---- macsurf_debug_log_close ----''"]
  let ?w = "macsurf_debug_log_write env (Some ''---- macsurf_debug_log_close ----'') s"
  have f: "log_ok (macsurf_debug_log_buffer_flush env ?w)" "log_buf (macsurf_debug_log_buffer_flush env ?w) = []"
    "logged (macsurf_debug_log_buffer_flush env ?w) = logged s @ concat (line_of env (Some ''---- macsurf_debug_log_close ----'') s)"
    using flush_ok [OF assms(1)] w by simp_all
  show ?thesis using f True unfolding macsurf_debug_log_close_def by (simp add: log_ok_def logged_def)
qed

lemma init_ok:
  assumes "writes_all env" "log_ok s" "macsurf_debug_log_init env s = Some s'"
  shows "log_ok s'"
proof (cases "log_open s")
  case True
  then show ?thesis using assms(2,3) by (simp add: macsurf_debug_log_init_def)
next
  case False
  have t: "log_ok (macsurf_debug_set_title env m x)" if "log_ok x" for m x using same_log_ok [OF set_title_same(1) that] .
  have r: "log_ok (s\<lparr>log_ref := 0\<rparr>)" using assms(2) by (simp add: log_ok_def)
  have w: "log_ok (macsurf_debug_log_write env m x)" if "log_ok x" for m x using write_lines [OF assms(1) that] by blast
  have o: "log_ok (s\<lparr>log_ref := r, log_vref := v, log_open := True\<rparr>)" for r v using assms(2) by (simp add: log_ok_def)
  have v: "log_ok (flush_vol x)" if "log_ok x" for x using that by (simp add: log_ok_def flush_vol_def)
  show ?thesis
  proof (cases "\<exists>vref dir ref. le_find_folder env = Some (vref, dir) \<and> le_open env = Some ref
      \<and> (le_make_spec env False = noErr \<or> le_make_spec env False = fnfErr \<and> le_create env = noErr \<and> le_make_spec env True = noErr)")
    case True
    then obtain vref dir ref where e: "le_find_folder env = Some (vref, dir)" "le_open env = Some ref"
      "le_make_spec env False = noErr \<or> le_make_spec env False = fnfErr \<and> le_create env = noErr \<and> le_make_spec env True = noErr" by blast
    have ne: "noErr \<noteq> fnfErr" by (simp add: noErr_def fnfErr_def)
    let ?s1 = "s\<lparr>log_ref := ref, log_vref := vref, log_open := True\<rparr>"
    let ?s3 = "macsurf_debug_log_write env (Some (replicate 40 CHR ''='')) (macsurf_debug_log_write env (Some []) ?s1)"
    obtain s4 s6 where s4: "macsurf_debug_log_writef env (Some ''=== MacSurf session %d-%d-%d %d:%d:%d ==='') (map ArgInt (le_date env)) ?s3 = Some s4"
      and s6: "macsurf_debug_log_writef env (Some ''log init OK vref=%d dirID=%ld fsref=%d'') [ArgInt vref, ArgLong dir, ArgInt ref]
          (macsurf_debug_log_write env (Some (replicate 40 CHR ''='')) s4) = Some s6"
      and s': "s' = macsurf_debug_set_title env (Some ''log OK'') (if log_vref s6 \<noteq> 0 then flush_vol s6 else s6)"
      using assms(3) False e ne unfolding macsurf_debug_log_init_def Let_def by (auto simp: bind_eq_Some_conv)
    have "log_ok s4" using writef_ok [OF assms(1) w [OF w [OF o]] s4] by blast
    then have "log_ok s6" using writef_ok [OF assms(1) w s6] by blast
    then show ?thesis unfolding s' by (intro t) (simp add: v)
  next
    case no: False
    then show ?thesis using assms(3) False unfolding macsurf_debug_log_init_def Let_def
      by (auto simp: t r assms(2) split: option.splits prod.splits if_splits)
  qed
qed

lemma log_reach_ok: "log_reach env s \<Longrightarrow> writes_all env \<Longrightarrow> log_ok s"
proof (induction rule: log_reach.induct)
  case (log_int_force s label v)
  have "log_ok (s\<lparr>title_locked := False\<rparr>)" using log_int_force by (simp add: log_ok_def)
  from write_lines [OF log_int_force.prems this, of "Some (log_int_text label v)"] show ?case
    by (simp add: macsurf_debug_log_int_force_def macsurf_debug_log_int_def log_ok_def)
next
  case (probe_reset s)
  then show ?case by (simp add: macsurf_debug_probe_reset_def log_ok_def)
qed (auto simp: log_start_ok macsurf_debug_log_int_def macsurf_debug_log_str_def intro: init_ok write_lines [THEN conjunct1] writef_ok [THEN conjunct1]
  flush_op_ok [THEN conjunct1] close_op_ok [THEN conjunct1] same_log_ok [OF set_title_same(1)] same_log_ok [OF set_title_same(2)]
  same_log_ok [OF probe_append_same] same_log_ok [OF probe_append_int_same])

text \<open>
  C33. As long as \<open>FSWrite\<close> writes what it is given, the log is a list of whole lines in the order they were logged: in
  every state reached by any of the calls the file is a list of whole lines, the buffer holds the rest in at
  most 4096 bytes, a message adds exactly its line, and after a flush or a close all
  of it is in the file.
\<close>

theorem debug_log_lines:
  assumes "writes_all env" "log_reach env s"
  shows "(\<exists>done pending. log_file s = concat done \<and> log_buf s = concat pending \<and> (\<forall>l \<in> set (done @ pending). log_line l))
    \<and> length (log_buf s) \<le> 4096
    \<and> (\<forall>m. logged (macsurf_debug_log_write env m s) = logged s @ concat (line_of env m s))
    \<and> log_file (macsurf_debug_log_flush env s) = logged s
    \<and> log_file (macsurf_debug_log_close env s) = logged s @ concat (line_of env (Some ''---- macsurf_debug_log_close ----'') s)"
proof -
  have ok: "log_ok s" using log_reach_ok [OF assms(2,1)] .
  show ?thesis using ok write_lines [OF assms(1) ok] flush_op_ok [OF assms(1) ok] close_op_ok [OF assms(1) ok]
    unfolding log_ok_def LOG_BUF_CAP_def by blast
qed

definition quiet_mac :: log_env where
  "quiet_mac = \<lparr>le_find_folder = Some (-1, 2), le_make_spec = (\<lambda>_. 0), le_create = 0, le_open = Some 5, le_write = (\<lambda>f d. length d),
     le_ticks = (\<lambda>n. of_nat n + 100), le_date = [2026, 1, 2, 3, 4, 5], le_front_window = False\<rparr>"

lemma writef_known:
  assumes "fmt_ref fmt args = Some r" "\<forall>a \<in> set args. arg_fits a"
  shows "macsurf_debug_log_writef env (Some fmt) args s = Some (macsurf_debug_log_write env (Some (cut 256 r)) s)"
  using fmt_loop_ref [OF _ assms(2), of 256 fmt "[]"] assms(1) by (simp add: macsurf_debug_log_writef_def fmt_vformat_def cut_def)

lemma quiet_init: "\<exists>s. macsurf_debug_log_init quiet_mac log_start = Some s \<and> log_open s"
proof -
  have open_write: "log_open (macsurf_debug_log_write quiet_mac m x) = log_open x" for m x
    by (auto simp: macsurf_debug_log_write_def macsurf_debug_log_buffer_flush_def fs_write_def tick_count_def Let_def split: option.split)
  have open_title: "log_open (macsurf_debug_set_title quiet_mac m x) = log_open x" for m x
    using set_title_same(1) by (simp add: same_log_def)
  have d: "\<exists>r. fmt_ref ''=== MacSurf session %d-%d-%d %d:%d:%d ==='' (map ArgInt [2026, 1, 2, 3, 4, 5]) = Some r"
    by (simp add: takes_arg_def)
  then obtain r1 where r1: "fmt_ref ''=== MacSurf session %d-%d-%d %d:%d:%d ==='' (map ArgInt [2026, 1, 2, 3, 4, 5]) = Some r1" ..
  have "\<exists>r. fmt_ref ''log init OK vref=%d dirID=%ld fsref=%d'' [ArgInt (-1), ArgLong 2, ArgInt 5] = Some r"
    by (simp add: takes_arg_def)
  then obtain r2 where r2: "fmt_ref ''log init OK vref=%d dirID=%ld fsref=%d'' [ArgInt (-1), ArgLong 2, ArgInt 5] = Some r2" ..
  have fits: "\<forall>a \<in> set (map ArgInt [2026, 1, 2, 3, 4, 5]). arg_fits a" "\<forall>a \<in> set [ArgInt (-1), ArgLong 2, ArgInt 5]. arg_fits a"
    by (simp_all add: LONG_MIN_def LONG_MAX_def)
  have env: "le_find_folder quiet_mac = Some (-1, 2)" "le_make_spec quiet_mac x = noErr" "le_open quiet_mac = Some 5"
    "le_date quiet_mac = [2026, 1, 2, 3, 4, 5]" for x by (simp_all add: quiet_mac_def noErr_def)
  have ne: "noErr \<noteq> fnfErr" by (simp add: noErr_def fnfErr_def)
  have "\<not> log_open log_start" by (simp add: log_start_def)
  then show ?thesis unfolding macsurf_debug_log_init_def env Let_def
    using ne by (simp only: writef_known [OF r1 fits(1)] writef_known [OF r2 fits(2)] option.case prod.case bind.bind_lunit)
      (simp add: open_title open_write flush_vol_def)
qed

lemma debug_log_lines_witness:
  "\<exists>s. macsurf_debug_log_init quiet_mac log_start = Some s \<and> log_open s \<and> length (log_buf s) \<le> 4096
     \<and> log_file (macsurf_debug_log_flush quiet_mac s) = logged s"
proof -
  obtain s where s: "macsurf_debug_log_init quiet_mac log_start = Some s" "log_open s" using quiet_init by blast
  have "writes_all quiet_mac" by (simp add: writes_all_def quiet_mac_def)
  from debug_log_lines [OF this log_reach.init [OF log_reach.start s(1)]] s show ?thesis by blast
qed

text \<open>A message that fits goes to the buffer.\<close>

lemma stamp_length: "length (log_stamp t) \<le> 13"
proof -
  have "unat t < 10 ^ 10" using unsigned_less [of t, where 'a = nat] by simp
  then have "length (show_nat (unat t)) \<le> 10" using show_nat_length [of "unat t" 10] by simp
  then show ?thesis by (simp add: log_stamp_def)
qed

lemma write_fits:
  assumes "log_open s" "length (log_buf s) + length msg + 14 \<le> 4096"
  shows "log_file (macsurf_debug_log_write env (Some msg) s) = log_file s"
    "length (log_buf (macsurf_debug_log_write env (Some msg) s)) \<le> length (log_buf s) + length msg + 14"
    "log_open (macsurf_debug_log_write env (Some msg) s)"
proof -
  have st: "length (log_stamp t) + length msg + 1 \<le> length msg + 14" for t using stamp_length [of t] by simp
  have a: "\<not> length (log_stamp t) + length msg + 1 > LOG_BUF_CAP" "\<not> length (log_buf s) + (length (log_stamp t) + length msg + 1) > LOG_BUF_CAP" for t
    using st [of t] assms(2) by (simp_all add: LOG_BUF_CAP_def)
  show "log_file (macsurf_debug_log_write env (Some msg) s) = log_file s"
    "length (log_buf (macsurf_debug_log_write env (Some msg) s)) \<le> length (log_buf s) + length msg + 14"
    "log_open (macsurf_debug_log_write env (Some msg) s)"
    using assms(1) a st unfolding macsurf_debug_log_write_def by (simp_all add: tick_count_def Let_def)
qed

lemma vformat_bound: "0 < cap \<Longrightarrow> fmt_loop cap f args dst = Some r \<Longrightarrow> int (length dst) < cap \<Longrightarrow> int (length r) < cap"
proof (induction cap f args dst arbitrary: r rule: fmt_loop.induct)
  case (1 cap args dst)
  then show ?case by simp
next
  case (2 cap c args dst)
  then show ?case by (auto simp: fmt_append_char_def split: if_splits)
next
  case (3 cap c p ps args dst)
  have ch: "int (length (fmt_append_char cap x d)) < cap" if "int (length d) < cap" for x d
    using that by (simp add: fmt_append_char_def)
  have chs: "int (length (fmt_append_chars cap xs d)) < cap" if "int (length d) < cap" for xs d
    using that
  proof (induction xs arbitrary: d)
    case (Cons x xs)
    show ?case using Cons.IH [OF ch [OF Cons.prems, of x]] by simp
  qed simp
  show ?case
  proof (cases "c \<noteq> CHR ''%''")
    case True
    then show ?thesis using "3.IH"(1) [OF True "3.prems"(1)] "3.prems" ch by simp
  next
    case c: False
    have "int (length (fmt_append_long cap v dst)) < cap" for v
      using ch [OF "3.prems"(3)] "3.prems"(3) unfolding fmt_append_long_def Let_def by (auto intro!: chs)
    moreover have "int (length (fmt_append_hex8 cap u dst)) < cap" for u
      unfolding fmt_append_hex8_def by (rule chs [OF "3.prems"(3)])
    moreover have "int (length (fmt_append_str cap s dst)) < cap" for s
      unfolding fmt_append_str_def by (rule chs [OF "3.prems"(3)])
    ultimately have new: "int (length (fmt_append_long cap v dst)) < cap" "int (length (fmt_append_hex8 cap u dst)) < cap"
      "int (length (fmt_append_str cap s dst)) < cap" for v u s by blast+
    consider "p = CHR ''%''" | "p = CHR ''d''" | "p = CHR ''l''" "take 1 ps = ''d''" | "p = CHR ''p''" | "p = CHR ''s''"
      | "p \<notin> {CHR ''%'', CHR ''d'', CHR ''p'', CHR ''s''}" "\<not> (p = CHR ''l'' \<and> take 1 ps = ''d'')" by blast
    then show ?thesis
    proof cases
      case 1
      then show ?thesis using "3.IH"(2) "3.prems" c ch by simp
    next
      case 2
      then obtain v as where "args = ArgInt v # as" using "3.prems"(2) c by (auto split: list.splits log_arg.splits)
      then show ?thesis using "3.IH"(3) "3.prems" c 2 new by simp
    next
      case l: 3
      then obtain v as where "args = ArgLong v # as" using "3.prems"(2) c by (auto split: list.splits log_arg.splits)
      then show ?thesis using "3.IH"(4) "3.prems" c l new by simp
    next
      case 4
      then obtain v as where "args = ArgPtr v # as" using "3.prems"(2) c by (auto split: list.splits log_arg.splits)
      then show ?thesis using "3.IH"(5) "3.prems" c 4 new by simp
    next
      case 5
      then obtain v as where "args = ArgStr v # as" using "3.prems"(2) c by (auto split: list.splits log_arg.splits)
      then show ?thesis using "3.IH"(6) "3.prems" c 5 new by simp
    next
      case 6
      then show ?thesis using "3.IH"(7) "3.prems" c ch by auto
    qed
  qed
qed

lemma writef_fits:
  assumes "macsurf_debug_log_writef env fmt args s = Some s'" "log_open s" "length (log_buf s) + 269 \<le> 4096"
  shows "log_file s' = log_file s" "length (log_buf s') \<le> length (log_buf s) + 269" "log_open s'"
proof -
  obtain buf where b: "fmt_vformat 256 fmt args = Some buf" "s' = macsurf_debug_log_write env (Some buf) s"
    using assms(1) by (auto simp: macsurf_debug_log_writef_def bind_eq_Some_conv)
  have "length buf \<le> 255" using b(1) vformat_bound [of 256 "case fmt of None \<Rightarrow> ''(null-fmt)'' | Some f \<Rightarrow> f" args "[]" buf] by (simp add: fmt_vformat_def)
  then show "log_file s' = log_file s" "length (log_buf s') \<le> length (log_buf s) + 269" "log_open s'"
    using write_fits [OF assms(2), of buf env] assms(3) b(2) by auto
qed

text \<open>
  \<open>macsurf_debug_log_init\<close> flushes the volume so that the banner is on disk before anything else is done;
  but the banner is still in the buffer: whatever the Toolbox answers, opening the log
  writes nothing to the file.
\<close>

theorem log_banner_not_written:
  assumes "log_buf s = []" "macsurf_debug_log_init env s = Some s'"
  shows "log_file s' = log_file s"
proof (cases "log_open s")
  case True
  then show ?thesis using assms by (simp add: macsurf_debug_log_init_def)
next
  case False
  have t: "log_file (macsurf_debug_set_title env m x) = log_file x" for m x using set_title_same(1) [of x env m] by (simp add: same_log_def)
  show ?thesis
  proof (cases "\<exists>vref dir ref. le_find_folder env = Some (vref, dir) \<and> le_open env = Some ref
      \<and> (le_make_spec env False = noErr \<or> le_make_spec env False = fnfErr \<and> le_create env = noErr \<and> le_make_spec env True = noErr)")
    case True
    then obtain vref dir ref where e: "le_find_folder env = Some (vref, dir)" "le_open env = Some ref"
      "le_make_spec env False = noErr \<or> le_make_spec env False = fnfErr \<and> le_create env = noErr \<and> le_make_spec env True = noErr" by blast
    have ne: "noErr \<noteq> fnfErr" by (simp add: noErr_def fnfErr_def)
    define s1 where "s1 = s\<lparr>log_ref := ref, log_vref := vref, log_open := True\<rparr>"
    define s2 where "s2 = macsurf_debug_log_write env (Some []) s1"
    define s3 where "s3 = macsurf_debug_log_write env (Some (replicate 40 CHR ''='')) s2"
    obtain s4 s6 where s4: "macsurf_debug_log_writef env (Some ''=== MacSurf session %d-%d-%d %d:%d:%d ==='') (map ArgInt (le_date env)) s3 = Some s4"
      and s6: "macsurf_debug_log_writef env (Some ''log init OK vref=%d dirID=%ld fsref=%d'') [ArgInt vref, ArgLong dir, ArgInt ref]
          (macsurf_debug_log_write env (Some (replicate 40 CHR ''='')) s4) = Some s6"
      and s': "s' = macsurf_debug_set_title env (Some ''log OK'') (if log_vref s6 \<noteq> 0 then flush_vol s6 else s6)"
      using assms(2) False e ne unfolding macsurf_debug_log_init_def Let_def s1_def s2_def s3_def by (auto simp: bind_eq_Some_conv)
    define s5 where "s5 = macsurf_debug_log_write env (Some (replicate 40 CHR ''='')) s4"
    have 1: "log_open s1" "log_buf s1 = []" "log_file s1 = log_file s" using assms(1) by (simp_all add: s1_def)
    have 2: "log_file s2 = log_file s" "length (log_buf s2) \<le> 14" "log_open s2"
      using write_fits [OF 1(1), of "[]" env] 1 by (simp_all add: s2_def)
    have 3: "log_file s3 = log_file s" "length (log_buf s3) \<le> 68" "log_open s3"
      using write_fits [OF 2(3), of "replicate 40 CHR ''=''" env] 2 by (simp_all add: s3_def)
    have 4: "log_file s4 = log_file s" "length (log_buf s4) \<le> 337" "log_open s4"
      using writef_fits [OF s4 3(3)] 3 by simp_all
    have 5: "log_file s5 = log_file s" "length (log_buf s5) \<le> 391" "log_open s5"
      using write_fits [OF 4(3), of "replicate 40 CHR ''=''" env] 4 by (simp_all add: s5_def)
    have "log_file s6 = log_file s" using writef_fits [OF s6 [folded s5_def] 5(3)] 5 by simp
    then show ?thesis unfolding s' by (simp add: t flush_vol_def)
  next
    case no: False
    then show ?thesis using assms(2) False unfolding macsurf_debug_log_init_def Let_def
      by (auto simp: t split: option.splits prod.splits if_splits)
  qed
qed

lemma log_banner_not_written_witness:
  "\<exists>s. macsurf_debug_log_init quiet_mac log_start = Some s \<and> log_open s \<and> log_file s = []"
proof -
  obtain s where s: "macsurf_debug_log_init quiet_mac log_start = Some s" "log_open s" using quiet_init by blast
  have "log_buf log_start = []" "log_file log_start = []" by (simp_all add: log_start_def)
  then show ?thesis using log_banner_not_written [OF _ s(1)] s by auto
qed

text \<open>
  Once a title has been forced it is locked for good: no call unlocks it, and the titles of the other
  calls are lost. \<open>macsurf_debug_log_int_force\<close> sets no title at all.
\<close>

theorem title_lock_stays:
  assumes "title_locked s"
  shows "macsurf_debug_set_title env m s = s" "title_locked (macsurf_debug_set_title_force env m s)"
    "title_locked (macsurf_debug_log_int_force env l v s)" "window_title (macsurf_debug_log_int_force env l v s) = window_title s"
  using assms
  by (auto simp: macsurf_debug_set_title_def macsurf_debug_set_title_force_def macsurf_debug_log_int_force_def
      macsurf_debug_log_int_def macsurf_debug_log_write_def macsurf_debug_log_buffer_flush_def fs_write_def tick_count_def Let_def
      split: option.split)

end
