(* ===== verification/LlcacheDelivery.thy ===== *)
theory LlcacheDelivery
  imports MS_Prelude "HOL-Library.Monad_Syntax"
begin

text \<open>
  How the low-level cache (\<open>content/llcache.c\<close>) passes what is fetched on to its clients: objects with
  their source data and fetch state, a list of users per object, each with the handle a client holds,
  and the pass over the users that brings each up to date by calling the client.

  Objects, users and handles are records in three stores; an access to one that has been freed is the
  result \<open>None\<close>. A client is a function of its own state: for an event on a handle it gives the error
  it returns and what it asks of the cache meanwhile, to release or abort handles. All that clients
  have been told is kept in \<open>ll_heard\<close>.
\<close>

section \<open>State\<close>

datatype llcache_fetch_state = LLCACHE_FETCH_INIT | LLCACHE_FETCH_HEADERS | LLCACHE_FETCH_DATA | LLCACHE_FETCH_COMPLETE

text \<open>The states are compared as numbers.\<close>

fun state_no :: "llcache_fetch_state \<Rightarrow> nat" where
  "state_no LLCACHE_FETCH_INIT = 0"
| "state_no LLCACHE_FETCH_HEADERS = 1"
| "state_no LLCACHE_FETCH_DATA = 2"
| "state_no LLCACHE_FETCH_COMPLETE = 3"

datatype llcache_event = LLCACHE_EVENT_GOT_CERTS | LLCACHE_EVENT_HAD_HEADERS | LLCACHE_EVENT_HAD_DATA bytes | LLCACHE_EVENT_DONE
  | LLCACHE_EVENT_ERROR nserror "string option" | LLCACHE_EVENT_PROGRESS string

datatype handle_request = HandleRelease nat | HandleAbort nat

record llcache_handle =
  lh_object :: nat
  lh_state :: llcache_fetch_state
  lh_bytes :: nat

record llcache_user =
  lu_handle :: "nat option"
  lu_target :: bool
  lu_deleted :: bool

definition INVALID_AGE :: int where "INVALID_AGE = -1"

datatype llcache_validate = LLCACHE_VALIDATE_FRESH | LLCACHE_VALIDATE_ALWAYS | LLCACHE_VALIDATE_ONCE

record cache_control =
  cc_req_time :: int
  cc_res_time :: int
  cc_fin_time :: int
  cc_date :: int
  cc_expires :: int
  cc_age :: int
  cc_max_age :: int
  cc_no_cache :: llcache_validate
  cc_etag :: "string option"
  cc_last_modified :: int

text \<open>Of the source data the first \<open>source_len\<close> bytes; of the URL, whether it has a query.\<close>

record llcache_object =
  lo_source :: bytes
  lo_state :: llcache_fetch_state
  lo_fetching :: bool
  lo_stream :: bool
  lo_chain :: bool
  lo_query :: bool
  lo_users :: "nat list"
  lo_cache :: cache_control
  lo_candidate :: "nat option"
  lo_candidate_count :: "32 word"

record 'w llcache =
  ll_objects :: "nat \<Rightarrow> llcache_object option"
  ll_users :: "nat \<Rightarrow> llcache_user option"
  ll_handles :: "nat \<Rightarrow> llcache_handle option"
  ll_cached :: "nat list"
  ll_uncached :: "nat list"
  ll_caught_up :: bool
  ll_scheduled :: nat
  ll_heard :: "(nat \<times> llcache_event \<times> nserror) list"
  ll_client :: 'w

text \<open>
  The clients; the memory for a new object, a new user with its handle and the source buffer; the code of
  the HTTP answer; the time, the size of an object's record, the size of its URL, headers and
  certificates, and the limit of the cache.
\<close>

record 'w llcache_env =
  le_cb :: "'w \<Rightarrow> nat \<Rightarrow> llcache_event \<Rightarrow> nserror \<times> handle_request list \<times> 'w"
  le_new_object :: "(nat \<Rightarrow> llcache_object option) \<Rightarrow> nat option"
  le_new_user :: "(nat \<Rightarrow> llcache_user option) \<Rightarrow> nat option"
  le_new_handle :: "(nat \<Rightarrow> llcache_handle option) \<Rightarrow> nat option"
  le_grow :: "nat \<Rightarrow> bool"
  le_http_code :: int
  le_now :: int
  le_sizeof :: "32 word"
  le_other_size :: "llcache_object \<Rightarrow> 32 word"
  le_limit :: "32 word"

definition set_object :: "nat \<Rightarrow> llcache_object \<Rightarrow> 'w llcache \<Rightarrow> 'w llcache" where
  "set_object a ob w = w\<lparr>ll_objects := (ll_objects w)(a \<mapsto> ob)\<rparr>"

definition set_user :: "nat \<Rightarrow> llcache_user \<Rightarrow> 'w llcache \<Rightarrow> 'w llcache" where
  "set_user u us w = w\<lparr>ll_users := (ll_users w)(u \<mapsto> us)\<rparr>"

definition set_handle :: "nat \<Rightarrow> llcache_handle \<Rightarrow> 'w llcache \<Rightarrow> 'w llcache" where
  "set_handle h hn w = w\<lparr>ll_handles := (ll_handles w)(h \<mapsto> hn)\<rparr>"

section \<open>Objects\<close>

definition cache_zero :: cache_control where
  "cache_zero = \<lparr>cc_req_time = 0, cc_res_time = 0, cc_fin_time = 0, cc_date = 0, cc_expires = 0, cc_age = 0,
     cc_max_age = 0, cc_no_cache = LLCACHE_VALIDATE_FRESH, cc_etag = None, cc_last_modified = 0\<rparr>"

text \<open>A new object, for a URL with a query or without; \<open>None\<close> if memory is short.\<close>

definition llcache_object_new :: "'w llcache_env \<Rightarrow> bool \<Rightarrow> 'w llcache \<Rightarrow> (nat \<times> 'w llcache) option" where
  "llcache_object_new env query w =
     do { a \<leftarrow> le_new_object env (ll_objects w);
          Some (a, set_object a
             \<lparr>lo_source = [], lo_state = LLCACHE_FETCH_INIT, lo_fetching = False, lo_stream = False, lo_chain = False,
              lo_query = query, lo_users = [], lo_cache = cache_zero, lo_candidate = None, lo_candidate_count = 0\<rparr> w) }"

datatype cache_list = CachedObjects | UncachedObjects

definition llcache_object_add_to_list :: "nat \<Rightarrow> cache_list \<Rightarrow> 'w llcache \<Rightarrow> 'w llcache" where
  "llcache_object_add_to_list a l w =
     (case l of CachedObjects \<Rightarrow> w\<lparr>ll_cached := a # ll_cached w\<rparr> | UncachedObjects \<Rightarrow> w\<lparr>ll_uncached := a # ll_uncached w\<rparr>)"

definition llcache_object_remove_from_list :: "nat \<Rightarrow> cache_list \<Rightarrow> 'w llcache \<Rightarrow> 'w llcache" where
  "llcache_object_remove_from_list a l w =
     (case l of CachedObjects \<Rightarrow> w\<lparr>ll_cached := remove1 a (ll_cached w)\<rparr>
      | UncachedObjects \<Rightarrow> w\<lparr>ll_uncached := remove1 a (ll_uncached w)\<rparr>)"

definition llcache_object_destroy :: "nat \<Rightarrow> 'w llcache \<Rightarrow> 'w llcache option" where
  "llcache_object_destroy a w = do { _ \<leftarrow> ll_objects w a; Some (w\<lparr>ll_objects := (ll_objects w)(a := None)\<rparr>) }"

section \<open>Users\<close>

text \<open>A user with its handle, which is not attached to an object yet.\<close>

definition llcache_object_user_new :: "'w llcache_env \<Rightarrow> 'w llcache \<Rightarrow> (nat \<times> 'w llcache) option" where
  "llcache_object_user_new env w =
     do { h \<leftarrow> le_new_handle env (ll_handles w);
          u \<leftarrow> le_new_user env (ll_users w);
          Some (u, set_user u \<lparr>lu_handle = Some h, lu_target = False, lu_deleted = False\<rparr>
                     (set_handle h \<lparr>lh_object = 0, lh_state = LLCACHE_FETCH_INIT, lh_bytes = 0\<rparr> w)) }"

definition llcache_object_add_user :: "nat \<Rightarrow> nat \<Rightarrow> 'w llcache \<Rightarrow> 'w llcache option" where
  "llcache_object_add_user a u w =
     do { us \<leftarrow> ll_users w u;
          h \<leftarrow> lu_handle us;
          hn \<leftarrow> ll_handles w h;
          let w1 = set_handle h (hn\<lparr>lh_object := a\<rparr>) w;
          ob \<leftarrow> ll_objects w1 a;
          Some (set_object a (ob\<lparr>lo_users := u # lo_users ob\<rparr>) w1) }"

definition llcache_object_remove_user :: "nat \<Rightarrow> nat \<Rightarrow> 'w llcache \<Rightarrow> 'w llcache option" where
  "llcache_object_remove_user a u w =
     do { ob \<leftarrow> ll_objects w a; Some (set_object a (ob\<lparr>lo_users := remove1 u (lo_users ob)\<rparr>) w) }"

definition llcache_object_user_destroy :: "nat \<Rightarrow> 'w llcache \<Rightarrow> 'w llcache option" where
  "llcache_object_user_destroy u w =
     do { us \<leftarrow> ll_users w u;
          let w1 = (case lu_handle us of None \<Rightarrow> w | Some h \<Rightarrow> w\<lparr>ll_handles := (ll_handles w)(h := None)\<rparr>);
          Some (w1\<lparr>ll_users := (ll_users w1)(u := None)\<rparr>) }"

definition llcache_object_find_user :: "nat \<Rightarrow> 'w llcache \<Rightarrow> nat option" where
  "llcache_object_find_user h w =
     do { hn \<leftarrow> ll_handles w h;
          ob \<leftarrow> ll_objects w (lh_object hn);
          List.find (\<lambda>u. \<exists>us \<in> set_option (ll_users w u). lu_handle us = Some h) (lo_users ob) }"

definition llcache_users_not_caught_up :: "'w llcache \<Rightarrow> 'w llcache" where
  "llcache_users_not_caught_up w =
     (if ll_caught_up w then w\<lparr>ll_caught_up := False, ll_scheduled := ll_scheduled w + 1\<rparr> else w)"

definition llcache_invalidate_cache_control_data :: "llcache_object \<Rightarrow> llcache_object" where
  "llcache_invalidate_cache_control_data ob =
     ob\<lparr>lo_cache := \<lparr>cc_req_time = 0, cc_res_time = 0, cc_fin_time = 0, cc_date = 0, cc_expires = 0, cc_age = INVALID_AGE,
       cc_max_age = INVALID_AGE, cc_no_cache = LLCACHE_VALIDATE_FRESH, cc_etag = None, cc_last_modified = 0\<rparr>\<rparr>"

section \<open>What clients ask for\<close>

definition llcache_handle_release :: "nat \<Rightarrow> 'w llcache \<Rightarrow> 'w llcache option" where
  "llcache_handle_release h w =
     do { hn \<leftarrow> ll_handles w h;
          u \<leftarrow> llcache_object_find_user h w;
          us \<leftarrow> ll_users w u;
          (if lu_target us then Some (set_user u (us\<lparr>lu_deleted := True\<rparr>) w)
           else do { w1 \<leftarrow> llcache_object_remove_user (lh_object hn) u w; llcache_object_user_destroy u w1 }) }"

text \<open>
  The copy of an object that an aborting client keeps: complete, with no fetch of its own and fresh
  cache control data. It is \<open>None\<close> if memory is short.
\<close>

definition llcache_object_snapshot :: "'w llcache_env \<Rightarrow> llcache_object \<Rightarrow> 'w llcache \<Rightarrow> (nat \<times> 'w llcache) option" where
  "llcache_object_snapshot env ob w =
     do { a \<leftarrow> le_new_object env (ll_objects w);
          Some (a, set_object a
             \<lparr>lo_source = lo_source ob, lo_state = LLCACHE_FETCH_COMPLETE, lo_fetching = False, lo_stream = False, lo_chain = lo_chain ob,
              lo_query = lo_query ob, lo_users = [], lo_cache = cache_zero, lo_candidate = None, lo_candidate_count = 0\<rparr> w) }"

definition llcache_handle_abort :: "'w llcache_env \<Rightarrow> nat \<Rightarrow> 'w llcache \<Rightarrow> (nserror \<times> 'w llcache) option" where
  "llcache_handle_abort env h w =
     do { hn \<leftarrow> ll_handles w h;
          u \<leftarrow> llcache_object_find_user h w;
          us \<leftarrow> ll_users w u;
          let a = lh_object hn;
          ob \<leftarrow> ll_objects w a;
          (if lo_users ob \<noteq> [u] then
             (case llcache_object_snapshot env ob w of
                None \<Rightarrow> Some (NSERROR_NOMEM, w)
              | Some (a', w1) \<Rightarrow>
                  if lu_target us then
                    (case le_new_user env (ll_users w1) of
                       None \<Rightarrow> Some (NSERROR_NOMEM, w1\<lparr>ll_objects := (ll_objects w1)(a' := None)\<rparr>)
                     | Some u' \<Rightarrow>
                         do { let w2 = set_user u' \<lparr>lu_handle = lu_handle us, lu_target = False, lu_deleted = False\<rparr> w1;
                              let w3 = set_user u (us\<lparr>lu_handle := None, lu_deleted := True\<rparr>) w2;
                              w4 \<leftarrow> llcache_object_add_user a' u' w3;
                              Some (NSERROR_OK, llcache_object_add_to_list a' UncachedObjects w4) })
                  else do { w2 \<leftarrow> llcache_object_remove_user a u w1;
                            w3 \<leftarrow> llcache_object_add_user a' u w2;
                            Some (NSERROR_OK, llcache_object_add_to_list a' UncachedObjects w3) })
           else
             Some (NSERROR_OK, set_object a (llcache_invalidate_cache_control_data (ob\<lparr>lo_fetching := False, lo_state := LLCACHE_FETCH_COMPLETE\<rparr>)) w)) }"

fun client_requests :: "'w llcache_env \<Rightarrow> handle_request list \<Rightarrow> 'w llcache \<Rightarrow> 'w llcache option" where
  "client_requests env [] w = Some w"
| "client_requests env (HandleRelease h # rs) w = do { w1 \<leftarrow> llcache_handle_release h w; client_requests env rs w1 }"
| "client_requests env (HandleAbort h # rs) w = do { (err, w1) \<leftarrow> llcache_handle_abort env h w; client_requests env rs w1 }"

text \<open>\<open>handle->cb\<close>.\<close>

definition call_client :: "'w llcache_env \<Rightarrow> nat \<Rightarrow> llcache_event \<Rightarrow> 'w llcache \<Rightarrow> (nserror \<times> 'w llcache) option" where
  "call_client env h ev w =
     (case le_cb env (ll_client w) h ev of (err, reqs, client) \<Rightarrow>
        do { w1 \<leftarrow> client_requests env reqs (w\<lparr>ll_client := client, ll_heard := ll_heard w @ [(h, ev, err)]\<rparr>); Some (err, w1) })"

section \<open>Telling the users\<close>

definition next_user :: "nat \<Rightarrow> nat \<Rightarrow> 'w llcache \<Rightarrow> nat option option" where
  "next_user a u w =
     do { ob \<leftarrow> ll_objects w a;
          (case dropWhile (\<lambda>x. x \<noteq> u) (lo_users ob) of
             [] \<Rightarrow> None
           | _ # rest \<Rightarrow> Some (case rest of [] \<Rightarrow> None | x # _ \<Rightarrow> Some x)) }"

text \<open>An event for all users, whatever they know.\<close>

partial_function (option) send_event_from :: "'w llcache_env \<Rightarrow> nat \<Rightarrow> llcache_event \<Rightarrow> nat option \<Rightarrow> 'w llcache \<Rightarrow> (nserror \<times> 'w llcache) option" where
  "send_event_from env a ev p w =
     (case p of
        None \<Rightarrow> Some (NSERROR_OK, w)
      | Some u \<Rightarrow>
          do { us \<leftarrow> ll_users w u;
               let was_target = lu_target us;
               h \<leftarrow> lu_handle us;
               (error, w1) \<leftarrow> call_client env h ev (set_user u (us\<lparr>lu_target := True\<rparr>) w);
               nxt \<leftarrow> next_user a u w1;
               us1 \<leftarrow> ll_users w1 u;
               let w2 = set_user u (us1\<lparr>lu_target := was_target\<rparr>) w1;
               w3 \<leftarrow> (if lu_deleted us1 \<and> \<not> was_target
                      then do { x \<leftarrow> llcache_object_remove_user a u w2; llcache_object_user_destroy u x } else Some w2);
               (if error \<noteq> NSERROR_OK then Some (error, w3) else send_event_from env a ev nxt w3) })"

declare send_event_from.simps [code]

definition llcache_send_event_to_users :: "'w llcache_env \<Rightarrow> nat \<Rightarrow> llcache_event \<Rightarrow> 'w llcache \<Rightarrow> (nserror \<times> 'w llcache) option" where
  "llcache_send_event_to_users env a ev w =
     do { ob \<leftarrow> ll_objects w a; send_event_from env a ev (case lo_users ob of [] \<Rightarrow> None | u # _ \<Rightarrow> Some u) w }"

text \<open>
  One step of the state machine of a user ends the turn of the user, or the whole pass, or goes on to
  the next step.
\<close>

datatype 'w outcome = NextUser "nat option" "'w llcache" | Stop nserror "'w llcache" | GoOn "'w llcache"

text \<open>What the code does after each call of a client; \<open>undo\<close> takes back the step if the client wants it again.\<close>

definition after_event :: "nat \<Rightarrow> nat \<Rightarrow> ('w llcache \<Rightarrow> 'w llcache option) \<Rightarrow> nserror \<Rightarrow> 'w llcache \<Rightarrow> 'w outcome option" where
  "after_event a u undo error w =
     do { us \<leftarrow> ll_users w u;
          (if lu_deleted us then
             do { nxt \<leftarrow> next_user a u w;
                  w1 \<leftarrow> llcache_object_remove_user a u w;
                  w2 \<leftarrow> llcache_object_user_destroy u w1;
                  Some (if error \<noteq> NSERROR_OK then Stop error w2 else NextUser nxt w2) }
           else if error = NSERROR_NEED_DATA then
             do { w1 \<leftarrow> undo w;
                  us1 \<leftarrow> ll_users w1 u;
                  let w2 = set_user u (us1\<lparr>lu_target := False\<rparr>) w1;
                  nxt \<leftarrow> next_user a u w2;
                  Some (NextUser nxt (llcache_users_not_caught_up w2)) }
           else if error \<noteq> NSERROR_OK then Some (Stop error (set_user u (us\<lparr>lu_target := False\<rparr>) w))
           else Some (GoOn w)) }"

definition set_state :: "nat \<Rightarrow> llcache_fetch_state \<Rightarrow> 'w llcache \<Rightarrow> 'w llcache option" where
  "set_state h st w = do { hn \<leftarrow> ll_handles w h; Some (set_handle h (hn\<lparr>lh_state := st\<rparr>) w) }"

definition set_bytes :: "nat \<Rightarrow> nat \<Rightarrow> 'w llcache \<Rightarrow> 'w llcache option" where
  "set_bytes h n w = do { hn \<leftarrow> ll_handles w h; Some (set_handle h (hn\<lparr>lh_bytes := n\<rparr>) w) }"

definition then_go :: "'w outcome option \<Rightarrow> ('w llcache \<Rightarrow> 'w outcome option) \<Rightarrow> 'w outcome option" where
  "then_go r f = do { x \<leftarrow> r; (case x of GoOn w \<Rightarrow> f w | _ \<Rightarrow> Some x) }"

definition step_certs :: "'w llcache_env \<Rightarrow> nat \<Rightarrow> nat \<Rightarrow> nat \<Rightarrow> llcache_fetch_state \<Rightarrow> 'w llcache \<Rightarrow> 'w outcome option" where
  "step_certs env a u h objstate w =
     do { hn \<leftarrow> ll_handles w h;
          (if lh_state hn = LLCACHE_FETCH_INIT \<and> state_no objstate > state_no LLCACHE_FETCH_INIT then
             do { w1 \<leftarrow> set_state h LLCACHE_FETCH_HEADERS w;
                  ob \<leftarrow> ll_objects w1 a;
                  (error, w2) \<leftarrow> (if lo_chain ob then call_client env h LLCACHE_EVENT_GOT_CERTS w1 else Some (NSERROR_OK, w1));
                  after_event a u (set_state h LLCACHE_FETCH_HEADERS) error w2 }
           else Some (GoOn w)) }"

definition step_headers :: "'w llcache_env \<Rightarrow> nat \<Rightarrow> nat \<Rightarrow> nat \<Rightarrow> llcache_fetch_state \<Rightarrow> 'w llcache \<Rightarrow> 'w outcome option" where
  "step_headers env a u h objstate w =
     do { hn \<leftarrow> ll_handles w h;
          (if lh_state hn = LLCACHE_FETCH_HEADERS \<and> state_no objstate > state_no LLCACHE_FETCH_HEADERS then
             do { w1 \<leftarrow> set_state h LLCACHE_FETCH_DATA w;
                  (error, w2) \<leftarrow> call_client env h LLCACHE_EVENT_HAD_HEADERS w1;
                  after_event a u (set_state h LLCACHE_FETCH_HEADERS) error w2 }
           else Some (GoOn w)) }"

definition step_data :: "'w llcache_env \<Rightarrow> nat \<Rightarrow> nat \<Rightarrow> nat \<Rightarrow> llcache_fetch_state \<Rightarrow> 'w llcache \<Rightarrow> 'w outcome option" where
  "step_data env a u h objstate w =
     do { hn \<leftarrow> ll_handles w h;
          ob \<leftarrow> ll_objects w a;
          (if lh_state hn = LLCACHE_FETCH_DATA \<and> state_no objstate \<ge> state_no LLCACHE_FETCH_DATA \<and> length (lo_source ob) > lh_bytes hn then
             do { let buf = drop (lh_bytes hn) (lo_source ob);
                  let orig = (if lo_stream ob then 0 else lh_bytes hn);
                  let w1 = (if lo_stream ob then set_object a (ob\<lparr>lo_source := []\<rparr>) w else w);
                  w2 \<leftarrow> set_bytes h (if lo_stream ob then 0 else length (lo_source ob)) w1;
                  (error, w3) \<leftarrow> call_client env h (LLCACHE_EVENT_HAD_DATA buf) w2;
                  after_event a u (set_bytes h orig) error w3 }
           else Some (GoOn w)) }"

definition step_done :: "'w llcache_env \<Rightarrow> nat \<Rightarrow> nat \<Rightarrow> nat \<Rightarrow> llcache_fetch_state \<Rightarrow> 'w llcache \<Rightarrow> 'w outcome option" where
  "step_done env a u h objstate w =
     do { hn \<leftarrow> ll_handles w h;
          (if lh_state hn = LLCACHE_FETCH_DATA \<and> state_no objstate > state_no LLCACHE_FETCH_DATA then
             do { w1 \<leftarrow> set_state h LLCACHE_FETCH_COMPLETE w;
                  (error, w2) \<leftarrow> call_client env h LLCACHE_EVENT_DONE w1;
                  after_event a u (set_state h LLCACHE_FETCH_DATA) error w2 }
           else Some (GoOn w)) }"

text \<open>The turn of one user; the state of the object is read once, before it.\<close>

definition notify_user :: "'w llcache_env \<Rightarrow> nat \<Rightarrow> nat \<Rightarrow> 'w llcache \<Rightarrow> 'w outcome option" where
  "notify_user env a u w =
     do { us \<leftarrow> ll_users w u;
          h \<leftarrow> lu_handle us;
          ob \<leftarrow> ll_objects w a;
          let objstate = lo_state ob;
          then_go (then_go (then_go (then_go
              (step_certs env a u h objstate (set_user u (us\<lparr>lu_target := True\<rparr>) w))
              (step_headers env a u h objstate))
              (step_data env a u h objstate))
              (step_done env a u h objstate))
            (\<lambda>w1. do { us1 \<leftarrow> ll_users w1 u;
                       nxt \<leftarrow> next_user a u w1;
                       Some (NextUser nxt (set_user u (us1\<lparr>lu_target := False\<rparr>) w1)) }) }"

partial_function (option) notify_from :: "'w llcache_env \<Rightarrow> nat \<Rightarrow> nat option \<Rightarrow> 'w llcache \<Rightarrow> (nserror \<times> 'w llcache) option" where
  "notify_from env a p w =
     (case p of
        None \<Rightarrow> Some (NSERROR_OK, w)
      | Some u \<Rightarrow>
          do { r \<leftarrow> notify_user env a u w;
               (case r of
                  NextUser nxt w1 \<Rightarrow> notify_from env a nxt w1
                | Stop error w1 \<Rightarrow> Some (error, w1)
                | GoOn w1 \<Rightarrow> None) })"

declare notify_from.simps [code]

definition llcache_object_notify_users :: "'w llcache_env \<Rightarrow> nat \<Rightarrow> 'w llcache \<Rightarrow> (nserror \<times> 'w llcache) option" where
  "llcache_object_notify_users env a w =
     do { ob \<leftarrow> ll_objects w a; notify_from env a (case lo_users ob of [] \<Rightarrow> None | u # _ \<Rightarrow> Some u) w }"

text \<open>The objects a pass meets are those on the lists when it gets there; new ones are put in front.\<close>

fun notify_objects :: "'w llcache_env \<Rightarrow> nat list \<Rightarrow> 'w llcache \<Rightarrow> 'w llcache option" where
  "notify_objects env [] w = Some w"
| "notify_objects env (a # as) w = do { (err, w1) \<leftarrow> llcache_object_notify_users env a w; notify_objects env as w1 }"

definition llcache_catch_up_all_users :: "'w llcache_env \<Rightarrow> 'w llcache \<Rightarrow> 'w llcache option" where
  "llcache_catch_up_all_users env w =
     do { w1 \<leftarrow> notify_objects env (ll_cached w) (w\<lparr>ll_caught_up := True\<rparr>); notify_objects env (ll_uncached w1) w1 }"

section \<open>What is fetched\<close>

definition release_candidate :: "nat \<Rightarrow> 'w llcache \<Rightarrow> 'w llcache option" where
  "release_candidate a w =
     do { ob \<leftarrow> ll_objects w a;
          (case lo_candidate ob of
             None \<Rightarrow> Some w
           | Some c \<Rightarrow>
               do { cob \<leftarrow> ll_objects w c;
                    let w1 = set_object c (cob\<lparr>lo_candidate_count := lo_candidate_count cob - 1\<rparr>) w;
                    ob1 \<leftarrow> ll_objects w1 a;
                    Some (set_object a (ob1\<lparr>lo_candidate := None\<rparr>) w1) }) }"

definition llcache_fetch_process_data :: "'w llcache_env \<Rightarrow> nat \<Rightarrow> bytes \<Rightarrow> 'w llcache \<Rightarrow> (nserror \<times> 'w llcache) option" where
  "llcache_fetch_process_data env a data w =
     do { ob \<leftarrow> ll_objects w a;
          w1 \<leftarrow> (if lo_state ob \<noteq> LLCACHE_FETCH_DATA then
                   do { let ob1 = (if le_http_code env \<noteq> 200 \<and> le_http_code env \<noteq> 203
                                      \<or> lo_query ob \<and> cc_max_age (lo_cache ob) = INVALID_AGE \<and> cc_expires (lo_cache ob) = 0
                                   then llcache_invalidate_cache_control_data ob else ob);
                        w2 \<leftarrow> release_candidate a (set_object a ob1 w);
                        ob2 \<leftarrow> ll_objects w2 a;
                        Some (set_object a (ob2\<lparr>lo_state := LLCACHE_FETCH_DATA\<rparr>) w2) }
                 else Some w);
          ob3 \<leftarrow> ll_objects w1 a;
          (if \<not> le_grow env (length (lo_source ob3) + length data) then Some (NSERROR_NOMEM, w1)
           else Some (NSERROR_OK, set_object a (ob3\<lparr>lo_source := lo_source ob3 @ data\<rparr>) w1)) }"

text \<open>The error branch of \<open>llcache_fetch_callback\<close>, up to the handling of errors all branches share.\<close>

definition fetch_error :: "'w llcache_env \<Rightarrow> nat \<Rightarrow> string option \<Rightarrow> 'w llcache \<Rightarrow> (nserror \<times> 'w llcache) option" where
  "fetch_error env a msg w =
     do { ob \<leftarrow> ll_objects w a;
          w1 \<leftarrow> release_candidate a (set_object a (ob\<lparr>lo_state := LLCACHE_FETCH_COMPLETE, lo_fetching := False\<rparr>) w);
          ob1 \<leftarrow> ll_objects w1 a;
          llcache_send_event_to_users env a (LLCACHE_EVENT_ERROR NSERROR_UNKNOWN msg)
            (set_object a (llcache_invalidate_cache_control_data ob1) w1) }"

definition fetch_progress :: "'w llcache_env \<Rightarrow> nat \<Rightarrow> string \<Rightarrow> 'w llcache \<Rightarrow> (nserror \<times> 'w llcache) option" where
  "fetch_progress env a msg w = llcache_send_event_to_users env a (LLCACHE_EVENT_PROGRESS msg) w"

text \<open>
  Certificates are kept on the object and passed on to the users there are at once, whatever they have been
  told; \<open>dup\<close> is what copying the chain answers.
\<close>

definition fetch_certs :: "'w llcache_env \<Rightarrow> nat \<Rightarrow> nserror \<Rightarrow> 'w llcache \<Rightarrow> (nserror \<times> 'w llcache) option" where
  "fetch_certs env a dup w =
     do { ob \<leftarrow> ll_objects w a;
          llcache_send_event_to_users env a LLCACHE_EVENT_GOT_CERTS (set_object a (ob\<lparr>lo_chain := (dup = NSERROR_OK)\<rparr>) w) }"

text \<open>A header line, of which \<open>err\<close> and \<open>cc\<close> are the result of \<open>llcache_fetch_process_header\<close>.\<close>

definition fetch_header :: "nat \<Rightarrow> nserror \<Rightarrow> cache_control \<Rightarrow> 'w llcache \<Rightarrow> (nserror \<times> 'w llcache) option" where
  "fetch_header a err cc w =
     do { ob \<leftarrow> ll_objects w a; Some (err, set_object a (ob\<lparr>lo_state := LLCACHE_FETCH_HEADERS, lo_cache := cc\<rparr>) w) }"

definition llcache_object_cache_update :: "int \<Rightarrow> cache_control \<Rightarrow> cache_control" where
  "llcache_object_cache_update now cc = (if cc_date cc = 0 then cc\<lparr>cc_date := now\<rparr> else cc)"

definition fetch_finished :: "'w llcache_env \<Rightarrow> nat \<Rightarrow> 'w llcache \<Rightarrow> (nserror \<times> 'w llcache) option" where
  "fetch_finished env a w =
     do { ob \<leftarrow> ll_objects w a;
          let ob1 = ob\<lparr>lo_state := LLCACHE_FETCH_COMPLETE, lo_fetching := False\<rparr>;
          let ob2 = ob1\<lparr>lo_cache := llcache_object_cache_update (le_now env) (lo_cache ob1)\<rparr>;
          Some (NSERROR_OK, set_object a (ob2\<lparr>lo_cache := (lo_cache ob2)\<lparr>cc_fin_time := le_now env\<rparr>\<rparr>) w) }"

section \<open>Cleaning the cache\<close>

text \<open>Times and ages as numbers; a quotient is rounded towards zero.\<close>

definition llcache_object_rfc2616_remaining_lifetime :: "int \<Rightarrow> cache_control \<Rightarrow> int" where
  "llcache_object_rfc2616_remaining_lifetime now cd =
     (let age1 = max 0 (cc_res_time cd - cc_date cd);
          age2 = max age1 (if cc_age cd = INVALID_AGE then 0 else cc_age cd);
          current_age = age2 + cc_res_time cd - cc_req_time cd + now - cc_res_time cd;
          freshness_lifetime =
            (if cc_max_age cd \<noteq> INVALID_AGE then cc_max_age cd
             else if cc_expires cd \<noteq> 0 then cc_expires cd - cc_date cd
             else if cc_last_modified cd \<noteq> 0 then sgn (now - cc_last_modified cd) * (\<bar>now - cc_last_modified cd\<bar> div 10)
             else 0)
      in if cc_no_cache cd = LLCACHE_VALIDATE_FRESH \<and> freshness_lifetime > current_age then freshness_lifetime - current_age else 0)"

definition total_object_size :: "'w llcache_env \<Rightarrow> llcache_object \<Rightarrow> 32 word" where
  "total_object_size env ob = le_sizeof env + le_other_size env ob + of_nat (length (lo_source ob))"

definition idle :: "llcache_object \<Rightarrow> bool" where
  "idle ob \<longleftrightarrow> lo_users ob = [] \<and> lo_candidate_count ob = 0 \<and> \<not> lo_fetching ob"

text \<open>The objects that a loop over one list discards; the sizes of the others are added up.\<close>

fun clean_list :: "'w llcache_env \<Rightarrow> cache_list \<Rightarrow> nat list \<Rightarrow> 'w llcache \<Rightarrow> 32 word \<Rightarrow> ('w llcache \<times> 32 word) option" where
  "clean_list env l [] w sz = Some (w, sz)"
| "clean_list env l (a # as) w sz =
     do { ob \<leftarrow> ll_objects w a;
          (if idle ob \<and> (l = CachedObjects \<longrightarrow> llcache_object_rfc2616_remaining_lifetime (le_now env) (lo_cache ob) \<le> 0)
           then do { w1 \<leftarrow> llcache_object_destroy a (llcache_object_remove_from_list a l w); clean_list env l as w1 sz }
           else clean_list env l as w (sz + total_object_size env ob)) }"

text \<open>The last loop, over fresh objects as long as there is too much.\<close>

fun clean_fresh :: "'w llcache_env \<Rightarrow> 32 word \<Rightarrow> nat list \<Rightarrow> 'w llcache \<Rightarrow> 32 word \<Rightarrow> 'w llcache option" where
  "clean_fresh env limit [] w sz = Some w"
| "clean_fresh env limit (a # as) w sz =
     (if \<not> limit < sz then Some w
      else do { ob \<leftarrow> ll_objects w a;
                (if idle ob
                 then do { w1 \<leftarrow> llcache_object_destroy a (llcache_object_remove_from_list a CachedObjects w);
                           clean_fresh env limit as w1 (sz - (of_nat (length (lo_source ob)) + le_sizeof env)) }
                 else clean_fresh env limit as w sz) })"

definition llcache_clean :: "'w llcache_env \<Rightarrow> bool \<Rightarrow> 'w llcache \<Rightarrow> 'w llcache option" where
  "llcache_clean env purge w =
     do { let limit = (if purge then 0 else le_limit env);
          (w1, size1) \<leftarrow> clean_list env UncachedObjects (ll_uncached w) w 0;
          (w2, size2) \<leftarrow> clean_list env CachedObjects (ll_cached w1) w1 size1;
          clean_fresh env limit (ll_cached w2) w2 size2 }"

section \<open>Messages\<close>

text \<open>
  What all branches share: an error ends the fetch that is still running, one of memory cleans the cache
  first, and the users are brought up to date soon.
\<close>

definition after_message :: "'w llcache_env \<Rightarrow> nat \<Rightarrow> nserror \<times> 'w llcache \<Rightarrow> 'w llcache option" where
  "after_message env a r =
     (case r of (error, w) \<Rightarrow>
        do { w1 \<leftarrow> (if error \<noteq> NSERROR_OK then
                      do { w2 \<leftarrow> (if error = NSERROR_NOMEM then llcache_clean env True w else Some w);
                           ob \<leftarrow> ll_objects w2 a;
                           Some (if lo_fetching ob
                                 then set_object a ((llcache_invalidate_cache_control_data ob)\<lparr>lo_fetching := False, lo_state := LLCACHE_FETCH_COMPLETE\<rparr>) w2
                                 else w2) }
                    else Some w);
             Some (llcache_users_not_caught_up w1) })"

text \<open>The messages of the fetchers there are, and redirects left out.\<close>

datatype llcache_msg = MsgHeader nserror cache_control | MsgData bytes | MsgFinished | MsgError "string option" | MsgProgress string
  | MsgCerts nserror

definition llcache_fetch_callback :: "'w llcache_env \<Rightarrow> nat \<Rightarrow> llcache_msg \<Rightarrow> 'w llcache \<Rightarrow> 'w llcache option" where
  "llcache_fetch_callback env a msg w =
     do { r \<leftarrow> (case msg of
                  MsgHeader err cc \<Rightarrow> fetch_header a err cc w
                | MsgData data \<Rightarrow> llcache_fetch_process_data env a data w
                | MsgFinished \<Rightarrow> fetch_finished env a w
                | MsgError m \<Rightarrow> fetch_error env a m w
                | MsgProgress m \<Rightarrow> fetch_progress env a m w
                | MsgCerts dup \<Rightarrow> fetch_certs env a dup w);
          after_message env a r }"

section \<open>Retrieving\<close>

text \<open>
  A client gets a handle: on an object that is in the cache, or on a new one, whose fetch has been
  started.
\<close>

definition retrieve_new :: "'w llcache_env \<Rightarrow> cache_list \<Rightarrow> bool \<Rightarrow> 'w llcache \<Rightarrow> (nat \<times> 'w llcache) option" where
  "retrieve_new env l query w =
     do { (a, w1) \<leftarrow> llcache_object_new env query w;
          ob \<leftarrow> ll_objects w1 a;
          let cc = (lo_cache (llcache_invalidate_cache_control_data ob))\<lparr>cc_req_time := le_now env, cc_fin_time := le_now env\<rparr>;
          Some (a, llcache_object_add_to_list a l (set_object a (ob\<lparr>lo_cache := cc, lo_fetching := True\<rparr>) w1)) }"

definition llcache_handle_retrieve :: "'w llcache_env \<Rightarrow> nat option \<Rightarrow> cache_list \<Rightarrow> bool \<Rightarrow> 'w llcache \<Rightarrow> 'w llcache option" where
  "llcache_handle_retrieve env found l query w =
     do { (u, w1) \<leftarrow> llcache_object_user_new env w;
          (a, w2) \<leftarrow> (case found of Some a \<Rightarrow> Some (a, w1) | None \<Rightarrow> retrieve_new env l query w1);
          w3 \<leftarrow> llcache_object_add_user a u w2;
          Some (llcache_users_not_caught_up w3) }"

end
