(* ===== verification/Download.thy ===== *)
theory Download
  imports LlcacheDelivery
begin

text \<open>
  Downloads: the context of the core (\<open>desktop/download.c\<close>), which is a client of the low-level cache, and
  the download window of the front end (\<open>macos9_download.c\<close>), with its one active slot, its file
  and its lines in the status bar of the parent window.

  Contexts and windows are records in stores, \<open>None\<close> is the use of one that is gone or a text that does
  not fit its array. What the code asks of the low-level cache is returned as requests. The dialog, the
  File Manager and the parsers of header values are the record \<open>dl_env\<close>; memory for texts is taken to be there.
\<close>

section \<open>State\<close>

record download_context =
  dc_llcache :: nat
  dc_parent :: "nat option"
  dc_mime_type :: "string option"
  dc_total_length :: "64 word"
  dc_filename :: "string option"
  dc_window :: "nat option"

record gui_download_window =
  dw_parent :: "nat option"
  dw_fsspec :: nat
  dw_refnum :: int
  dw_bytes_written :: "32 word"
  dw_total_length :: "32 word"
  dw_filename :: string
  dw_aborted :: bool

record dl_world =
  dl_contexts :: "nat \<Rightarrow> download_context option"
  dl_windows :: "nat \<Rightarrow> gui_download_window option"
  g_active_dw :: "nat option"
  dl_files :: "nat \<Rightarrow> bytes option"
  dl_kinds :: "nat \<Rightarrow> (string \<times> string) option"
  dl_status :: "string list"

text \<open>
  The headers of a handle and the name its URL suggests; the results of the parsers of \<open>Content-Type\<close> and
  \<open>Content-Disposition\<close> (with the \<open>filename\<close> parameter); what the dialog answers for a default name
  and the file it gives; the results of the File Manager, and of \<open>FSWrite\<close>, for what the file holds, whether it
  succeeds and how many bytes it writes.
\<close>

record dl_env =
  de_header :: "nat \<Rightarrow> string \<Rightarrow> string option"
  de_nice :: "nat \<Rightarrow> string option"
  de_content_type :: "string \<Rightarrow> nserror + string"
  de_disposition :: "string \<Rightarrow> nserror + string option"
  de_new_context :: "(nat \<Rightarrow> download_context option) \<Rightarrow> nat option"
  de_new_window :: "(nat \<Rightarrow> gui_download_window option) \<Rightarrow> nat option"
  de_nav_options :: int
  de_nav_put :: "string \<Rightarrow> int \<times> bool"
  de_nav_spec :: "int \<times> nat"
  de_create :: int
  de_open :: "int \<times> int"
  de_write :: "bytes \<Rightarrow> bytes \<Rightarrow> int \<times> nat"

definition set_context :: "nat \<Rightarrow> download_context \<Rightarrow> dl_world \<Rightarrow> dl_world" where
  "set_context c cx w = w\<lparr>dl_contexts := (dl_contexts w)(c \<mapsto> cx)\<rparr>"

definition set_window :: "nat \<Rightarrow> gui_download_window \<Rightarrow> dl_world \<Rightarrow> dl_world" where
  "set_window d dw w = w\<lparr>dl_windows := (dl_windows w)(d \<mapsto> dw)\<rparr>"

text \<open>\<open>sprintf\<close> into an array of \<open>n\<close> bytes.\<close>

definition fits_array :: "nat \<Rightarrow> string \<Rightarrow> string option" where
  "fits_array n s = (if length s < n then Some s else None)"

text \<open>\<open>strtoull\<close> in base 10.\<close>

definition strtoull_10 :: "string \<Rightarrow> 64 word" where
  "strtoull_10 s =
     (let s1 = dropWhile isspace_c s;
          neg = (take 1 s1 = ''-'');
          s2 = (if take 1 s1 = ''-'' \<or> take 1 s1 = ''+'' then drop 1 s1 else s1);
          v = strtol_digits 10 0 s2
      in if int v \<ge> 0x10000000000000000 then - 1 else if neg then - of_nat v else of_nat v)"

section \<open>The window of the front end\<close>

definition macos9_download_mime_to_type :: "string option \<Rightarrow> string \<times> string" where
  "macos9_download_mime_to_type mime =
     (case mime of
        None \<Rightarrow> (''BINA'', ''????'')
      | Some m \<Rightarrow>
          if strncmp_eq m ''application/pdf'' 15 then (''PDF '', ''CARO'')
          else if strncmp_eq m ''application/zip'' 15 \<or> strncmp_eq m ''application/x-zip'' 17 then (''ZIP '', ''SITx'')
          else if strncmp_eq m ''application/x-stuffit'' 21 \<or> strncmp_eq m ''application/x-sit'' 17 then (''SITD'', ''SIT!'')
          else if strncmp_eq m ''image/jpeg'' 10 \<or> strncmp_eq m ''image/jpg'' 9 then (''JPEG'', ''8BIM'')
          else if strncmp_eq m ''image/png'' 9 then (''PNGf'', ''8BIM'')
          else if strncmp_eq m ''image/gif'' 9 then (''GIFf'', ''8BIM'')
          else if strncmp_eq m ''text/'' 5 then (''TEXT'', ''ttxt'')
          else (''BINA'', ''????''))"

definition macos9_download_cstr_to_p63 :: "string option \<Rightarrow> string" where
  "macos9_download_cstr_to_p63 src = take 63 (case src of None \<Rightarrow> ''untitled'' | Some s \<Rightarrow> s)"

definition macos9_download_status :: "gui_download_window \<Rightarrow> string \<Rightarrow> dl_world \<Rightarrow> dl_world" where
  "macos9_download_status dw msg w = (case dw_parent dw of None \<Rightarrow> w | Some p \<Rightarrow> w\<lparr>dl_status := dl_status w @ [msg]\<rparr>)"

text \<open>The window or \<open>NULL\<close>; the context is read through the getters.\<close>

definition download_context_get_filename :: "download_context \<Rightarrow> string option" where
  "download_context_get_filename cx = dc_filename cx"

definition download_context_get_mime_type :: "download_context \<Rightarrow> string option" where
  "download_context_get_mime_type cx = dc_mime_type cx"

definition download_context_get_total_length :: "download_context \<Rightarrow> 64 word" where
  "download_context_get_total_length cx = dc_total_length cx"

definition macos9_download_create :: "dl_env \<Rightarrow> nat \<Rightarrow> nat option \<Rightarrow> dl_world \<Rightarrow> (nat option \<times> dl_world) option" where
  "macos9_download_create env c parent w =
     (if g_active_dw w \<noteq> None then Some (None, w)
      else case de_new_window env (dl_windows w) of
        None \<Rightarrow> Some (None, w)
      | Some d \<Rightarrow>
          do { cx \<leftarrow> dl_contexts w c;
               let total_ll = download_context_get_total_length cx;
               let name = (case download_context_get_filename cx of Some s \<Rightarrow> take 63 s | None \<Rightarrow> ''untitled'');
               let dw = \<lparr>dw_parent = parent, dw_fsspec = snd (de_nav_spec env), dw_refnum = snd (de_open env), dw_bytes_written = 0,
                         dw_total_length = (if total_ll > 0xFFFFFFFF then 0xFFFFFFFF else ucast total_ll), dw_filename = name, dw_aborted = False\<rparr>;
               let kind = macos9_download_mime_to_type (download_context_get_mime_type cx);
               (if de_nav_options env \<noteq> 0 then Some (None, w)
                else if fst (de_nav_put env (macos9_download_cstr_to_p63 (Some name))) \<noteq> 0 \<or> \<not> snd (de_nav_put env (macos9_download_cstr_to_p63 (Some name)))
                then Some (None, w)
                else if fst (de_nav_spec env) \<noteq> 0 then Some (None, w)
                else
                  (let f = dw_fsspec dw; w1 = w\<lparr>dl_files := (dl_files w)(f := None)\<rparr>
                   in if de_create env \<noteq> 0 then Some (None, w1)
                      else
                        (let w2 = w1\<lparr>dl_files := (dl_files w1)(f \<mapsto> []), dl_kinds := (dl_kinds w1)(f \<mapsto> kind)\<rparr>
                         in if fst (de_open env) \<noteq> 0 then Some (None, w2\<lparr>dl_files := (dl_files w2)(f := None)\<rparr>)
                            else do { status \<leftarrow> fits_array 128 (''Downloading '' @ dw_filename dw @ ''...'');
                                      let w3 = macos9_download_status dw status w2;
                                      Some (Some d, (set_window d dw w3)\<lparr>g_active_dw := Some d\<rparr>) }))) })"

definition macos9_download_data :: "dl_env \<Rightarrow> nat \<Rightarrow> bytes \<Rightarrow> dl_world \<Rightarrow> (nserror \<times> dl_world) option" where
  "macos9_download_data env d data w =
     do { dw \<leftarrow> dl_windows w d;
          (if dw_aborted dw then Some (NSERROR_OK, w)
           else if dw_refnum dw < 0 \<or> data = [] then Some (NSERROR_OK, w)
           else
             do { let old = (case dl_files w (dw_fsspec dw) of None \<Rightarrow> [] | Some b \<Rightarrow> b);
                  let (err, count) = de_write env old data;
                  let w1 = w\<lparr>dl_files := (dl_files w)(dw_fsspec dw \<mapsto> old @ take count data)\<rparr>;
                  (if err \<noteq> 0 \<or> count \<noteq> length data then Some (NSERROR_SAVE_FAILED, set_window d (dw\<lparr>dw_aborted := True\<rparr>) w1)
                   else
                     do { let dw1 = dw\<lparr>dw_bytes_written := dw_bytes_written dw + of_nat (length data)\<rparr>;
                          let w2 = set_window d dw1 w1;
                          (if dw_bytes_written dw1 AND 0x3FFF < of_nat (length data)
                           then do { status \<leftarrow> fits_array 128
                                       (if dw_total_length dw1 > 0
                                        then ''Downloading '' @ dw_filename dw1 @ '': '' @ show_nat (unat (dw_bytes_written dw1)) @ '' of ''
                                          @ show_nat (unat (dw_total_length dw1)) @ '' bytes''
                                        else ''Downloading '' @ dw_filename dw1 @ '': '' @ show_nat (unat (dw_bytes_written dw1)) @ '' bytes'');
                                     Some (NSERROR_OK, macos9_download_status dw1 status w2) }
                           else Some (NSERROR_OK, w2)) }) }) }"

text \<open>Freeing the window.\<close>

definition free_window :: "nat \<Rightarrow> dl_world \<Rightarrow> dl_world" where
  "free_window d w =
     (let w1 = (if g_active_dw w = Some d then w\<lparr>g_active_dw := None\<rparr> else w) in w1\<lparr>dl_windows := (dl_windows w1)(d := None)\<rparr>)"

definition macos9_download_error :: "nat \<Rightarrow> string option \<Rightarrow> dl_world \<Rightarrow> dl_world option" where
  "macos9_download_error d error_msg w =
     do { dw \<leftarrow> dl_windows w d;
          let dw1 = (dw\<lparr>dw_aborted := True, dw_refnum := (if dw_refnum dw \<ge> 0 then -1 else dw_refnum dw)\<rparr>);
          let w1 = set_window d dw1 w;
          let w2 = w1\<lparr>dl_files := (dl_files w1)(dw_fsspec dw1 := None)\<rparr>;
          status \<leftarrow> fits_array 160 (''Download failed: '' @ (case error_msg of Some m \<Rightarrow> m | None \<Rightarrow> ''download failed''));
          Some (free_window d (macos9_download_status dw1 status w2)) }"

definition macos9_download_done :: "nat \<Rightarrow> dl_world \<Rightarrow> dl_world option" where
  "macos9_download_done d w =
     do { dw \<leftarrow> dl_windows w d;
          let dw1 = dw\<lparr>dw_refnum := (if dw_refnum dw \<ge> 0 then -1 else dw_refnum dw)\<rparr>;
          let w1 = set_window d dw1 w;
          status \<leftarrow> fits_array 160 (''Saved '' @ dw_filename dw1 @ '' ('' @ show_nat (unat (dw_bytes_written dw1)) @ '' bytes)'');
          Some (free_window d (macos9_download_status dw1 status w1)) }"

section \<open>The context of the core\<close>

text \<open>The text after the last slash.\<close>

definition download_parse_filename :: "string \<Rightarrow> string" where
  "download_parse_filename filename = rev (takeWhile (\<lambda>c. c \<noteq> CHR ''/'') (rev filename))"

definition download_context_process_headers :: "dl_env \<Rightarrow> nat \<Rightarrow> dl_world \<Rightarrow> (nserror \<times> dl_world) option" where
  "download_context_process_headers env c w =
     do { cx \<leftarrow> dl_contexts w c;
          let h = dc_llcache cx;
          (case de_content_type env (case de_header env h ''Content-Type'' of None \<Rightarrow> ''text/plain'' | Some v \<Rightarrow> v) of
             Inl error \<Rightarrow> Some (error, w)
           | Inr media_type \<Rightarrow>
               (let length = (case de_header env h ''Content-Length'' of None \<Rightarrow> 0 | Some v \<Rightarrow> strtoull_10 v);
                    named = (case de_header env h ''Content-Disposition'' of
                               None \<Rightarrow> Inr cx
                             | Some v \<Rightarrow> (case de_disposition env v of
                                 Inl error \<Rightarrow> Inl error
                               | Inr None \<Rightarrow> Inr cx
                               | Inr (Some name) \<Rightarrow> Inr (cx\<lparr>dc_filename := Some (download_parse_filename name)\<rparr>)))
                in case named of
                     Inl error \<Rightarrow> Some (error, w)
                   | Inr cx1 \<Rightarrow>
                       (let cx2 = cx1\<lparr>dc_mime_type := Some media_type, dc_total_length := length\<rparr>;
                            cx3 = (if dc_filename cx2 = None then cx2\<lparr>dc_filename := de_nice env h\<rparr> else cx2)
                        in if dc_filename cx3 = None then Some (NSERROR_NOMEM, set_context c (cx3\<lparr>dc_mime_type := None\<rparr>) w)
                           else do { (win, w1) \<leftarrow> macos9_download_create env c (dc_parent cx3) (set_context c cx3 w);
                                     (case win of
                                        None \<Rightarrow> Some (NSERROR_NOMEM, set_context c (cx3\<lparr>dc_filename := None, dc_mime_type := None\<rparr>) w1)
                                      | Some d \<Rightarrow> Some (NSERROR_OK, set_context c (cx3\<lparr>dc_window := Some d\<rparr>) w1)) }))) }"

text \<open>The request to release the handle, and the context is gone.\<close>

definition download_context_destroy :: "nat \<Rightarrow> dl_world \<Rightarrow> (handle_request list \<times> dl_world) option" where
  "download_context_destroy c w =
     do { cx \<leftarrow> dl_contexts w c; Some ([HandleRelease (dc_llcache cx)], w\<lparr>dl_contexts := (dl_contexts w)(c := None)\<rparr>) }"

definition process_or_destroy :: "dl_env \<Rightarrow> nat \<Rightarrow> nat \<Rightarrow> dl_world \<Rightarrow> (nserror \<times> handle_request list \<times> dl_world) option" where
  "process_or_destroy env h c w =
     do { (error, w1) \<leftarrow> download_context_process_headers env c w;
          (if error \<noteq> NSERROR_OK then do { (reqs, w2) \<leftarrow> download_context_destroy c w1; Some (error, HandleAbort h # reqs, w2) }
           else Some (error, [], w1)) }"

definition download_callback :: "dl_env \<Rightarrow> nat \<Rightarrow> llcache_event \<Rightarrow> nat \<Rightarrow> dl_world \<Rightarrow> (nserror \<times> handle_request list \<times> dl_world) option" where
  "download_callback env h ev c w =
     (case ev of
        LLCACHE_EVENT_GOT_CERTS \<Rightarrow> Some (NSERROR_OK, [], w)
      | LLCACHE_EVENT_HAD_HEADERS \<Rightarrow> process_or_destroy env h c w
      | LLCACHE_EVENT_HAD_DATA data \<Rightarrow>
          do { cx \<leftarrow> dl_contexts w c;
               (error, reqs, w1) \<leftarrow> (if dc_window cx = None then process_or_destroy env h c w else Some (NSERROR_OK, [], w));
               (if error = NSERROR_OK then
                  do { cx1 \<leftarrow> dl_contexts w1 c;
                       d \<leftarrow> dc_window cx1;
                       (error, w2) \<leftarrow> macos9_download_data env d data w1;
                       Some (error, if error \<noteq> NSERROR_OK then reqs @ [HandleAbort h] else reqs, w2) }
                else Some (error, reqs, w1)) }
      | LLCACHE_EVENT_DONE \<Rightarrow>
          do { cx \<leftarrow> dl_contexts w c;
               (case dc_window cx of
                  Some d \<Rightarrow> do { w1 \<leftarrow> macos9_download_done d w; Some (NSERROR_OK, [], w1) }
                | None \<Rightarrow> do { (reqs, w1) \<leftarrow> download_context_destroy c w; Some (NSERROR_OK, reqs, w1) }) }
      | LLCACHE_EVENT_ERROR e m \<Rightarrow>
          do { cx \<leftarrow> dl_contexts w c;
               (case dc_window cx of
                  Some d \<Rightarrow> do { w1 \<leftarrow> macos9_download_error d m w; Some (NSERROR_OK, [], w1) }
                | None \<Rightarrow> do { (reqs, w1) \<leftarrow> download_context_destroy c w; Some (NSERROR_OK, reqs, w1) }) }
      | LLCACHE_EVENT_PROGRESS _ \<Rightarrow> Some (NSERROR_OK, [], w))"

definition download_context_create :: "dl_env \<Rightarrow> nat \<Rightarrow> nat option \<Rightarrow> dl_world \<Rightarrow> nserror \<times> nat option \<times> dl_world" where
  "download_context_create env h parent w =
     (case de_new_context env (dl_contexts w) of
        None \<Rightarrow> (NSERROR_NOMEM, None, w)
      | Some c \<Rightarrow> (NSERROR_OK, Some c, set_context c
          \<lparr>dc_llcache = h, dc_parent = parent, dc_mime_type = None, dc_total_length = 0, dc_filename = None, dc_window = None\<rparr> w))"

definition download_context_abort :: "nat \<Rightarrow> dl_world \<Rightarrow> handle_request list option" where
  "download_context_abort c w = do { cx \<leftarrow> dl_contexts w c; Some [HandleAbort (dc_llcache cx)] }"

text \<open>A download is told events, one after the other; the requests of all are collected.\<close>

fun download_events :: "dl_env \<Rightarrow> nat \<Rightarrow> nat \<Rightarrow> llcache_event list \<Rightarrow> dl_world \<Rightarrow> (handle_request list \<times> dl_world) option" where
  "download_events env h c [] w = Some ([], w)"
| "download_events env h c (ev # evs) w =
     do { (error, reqs, w1) \<leftarrow> download_callback env h ev c w;
          (reqs', w2) \<leftarrow> download_events env h c evs w1;
          Some (reqs @ reqs', w2) }"

end
