(* ===== verification/LlcacheProps.thy ===== *)
theory LlcacheProps
  imports LlcacheDelivery
begin

text \<open>
  What clients of the low-level cache are told: each in its own order and time, but all of it and
  nothing twice. The clients considered may fail, may ask for an event again and may let go of
  their handle while they are called; none of this disturbs the others.
\<close>

section \<open>The story of one handle\<close>

text \<open>
  The events a client has taken, without errors, progress and certificates, which are sent out of
  turn too.
\<close>

fun in_turn :: "llcache_event \<Rightarrow> bool" where
  "in_turn (LLCACHE_EVENT_ERROR _ _) \<longleftrightarrow> False"
| "in_turn (LLCACHE_EVENT_PROGRESS _) \<longleftrightarrow> False"
| "in_turn LLCACHE_EVENT_GOT_CERTS \<longleftrightarrow> False"
| "in_turn _ \<longleftrightarrow> True"

definition taken :: "(nat \<times> llcache_event \<times> nserror) list \<Rightarrow> nat \<Rightarrow> llcache_event list" where
  "taken heard h = map (\<lambda>(_, ev, _). ev) (filter (\<lambda>(h', ev, err). h' = h \<and> in_turn ev \<and> err \<noteq> NSERROR_NEED_DATA) heard)"

text \<open>The headers, the data up to byte \<open>n\<close>, and the end.\<close>

definition story :: "llcache_event list \<Rightarrow> llcache_fetch_state \<Rightarrow> nat \<Rightarrow> bytes \<Rightarrow> bool" where
  "story evs st n src \<longleftrightarrow>
     (\<exists>ds. n \<le> length src \<and> concat ds = take n src \<and>
        (case st of
           LLCACHE_FETCH_INIT \<Rightarrow> evs = [] \<and> n = 0
         | LLCACHE_FETCH_HEADERS \<Rightarrow> evs = [] \<and> n = 0
         | LLCACHE_FETCH_DATA \<Rightarrow> evs = LLCACHE_EVENT_HAD_HEADERS # map LLCACHE_EVENT_HAD_DATA ds
         | LLCACHE_FETCH_COMPLETE \<Rightarrow>
             evs = LLCACHE_EVENT_HAD_HEADERS # map LLCACHE_EVENT_HAD_DATA ds @ [LLCACHE_EVENT_DONE] \<and> n = length src))"

lemma taken_simps:
  "taken [] h = []"
  "taken (heard @ [(h', ev, err)]) h = taken heard h @ (if h' = h \<and> in_turn ev \<and> err \<noteq> NSERROR_NEED_DATA then [ev] else [])"
  by (simp_all add: taken_def)

lemma story_start: "story [] LLCACHE_FETCH_INIT 0 src" "story [] LLCACHE_FETCH_HEADERS 0 src"
  unfolding story_def by (intro exI [of _ "[]"], simp)+

lemma story_early:
  assumes "story evs st n src" "st = LLCACHE_FETCH_INIT \<or> st = LLCACHE_FETCH_HEADERS"
  shows "evs = []" "n = 0"
  using assms by (auto simp: story_def)

lemma story_certs:
  assumes "story evs LLCACHE_FETCH_INIT n src"
  shows "story evs LLCACHE_FETCH_HEADERS n src"
  using story_early [OF assms] story_start by simp

lemma story_headers:
  assumes "story evs LLCACHE_FETCH_HEADERS n src"
  shows "story (evs @ [LLCACHE_EVENT_HAD_HEADERS]) LLCACHE_FETCH_DATA n src"
  using story_early [OF assms] unfolding story_def by (intro exI [of _ "[]"]) simp

lemma story_data:
  assumes "story evs LLCACHE_FETCH_DATA n src"
  shows "story (evs @ [LLCACHE_EVENT_HAD_DATA (drop n src)]) LLCACHE_FETCH_DATA (length src) src"
proof -
  obtain ds where "n \<le> length src" "concat ds = take n src" "evs = LLCACHE_EVENT_HAD_HEADERS # map LLCACHE_EVENT_HAD_DATA ds"
    using assms by (auto simp: story_def)
  then show ?thesis unfolding story_def by (intro exI [of _ "ds @ [drop n src]"]) simp
qed

lemma story_done:
  assumes "story evs LLCACHE_FETCH_DATA (length src) src"
  shows "story (evs @ [LLCACHE_EVENT_DONE]) LLCACHE_FETCH_COMPLETE (length src) src"
proof -
  obtain ds where "concat ds = take (length src) src" "evs = LLCACHE_EVENT_HAD_HEADERS # map LLCACHE_EVENT_HAD_DATA ds"
    using assms by (auto simp: story_def)
  then show ?thesis unfolding story_def by (intro exI [of _ ds]) simp
qed

lemma story_grows:
  assumes "story evs st n src" "st \<noteq> LLCACHE_FETCH_COMPLETE"
  shows "story evs st n (src @ data)"
proof (cases "st = LLCACHE_FETCH_DATA")
  case True
  then obtain ds where "n \<le> length src" "concat ds = take n src" "evs = LLCACHE_EVENT_HAD_HEADERS # map LLCACHE_EVENT_HAD_DATA ds"
    using assms(1) by (auto simp: story_def)
  then show ?thesis unfolding story_def True by (intro exI [of _ ds]) simp
next
  case False
  then have "st = LLCACHE_FETCH_INIT \<or> st = LLCACHE_FETCH_HEADERS" using assms(2) by (cases st) auto
  then show ?thesis using story_early [OF assms(1)] story_start by auto
qed

lemma story_complete: "story evs LLCACHE_FETCH_COMPLETE n src \<Longrightarrow> n = length src"
  by (auto simp: story_def)

lemma story_bytes: "story evs st n src \<Longrightarrow> n \<le> length src"
  by (auto simp: story_def)

section \<open>Well-formed caches\<close>

text \<open>
  Users and handles belong together one to one, and each handle knows its object. \<open>t\<close> is the user whose
  turn it is; only that one can be marked for deletion.
\<close>

definition wf_cache :: "'w llcache \<Rightarrow> nat option \<Rightarrow> bool" where
  "wf_cache w t \<longleftrightarrow>
     (\<forall>a ob. ll_objects w a = Some ob \<longrightarrow> distinct (lo_users ob) \<and> (\<forall>u \<in> set (lo_users ob).
        \<exists>us h hn. ll_users w u = Some us \<and> lu_handle us = Some h \<and> ll_handles w h = Some hn \<and> lh_object hn = a))
     \<and> (\<forall>u us. ll_users w u = Some us \<longrightarrow> (lu_target us \<longleftrightarrow> t = Some u) \<and> (lu_deleted us \<longrightarrow> t = Some u))
     \<and> (\<forall>u u' us us' h. ll_users w u = Some us \<longrightarrow> ll_users w u' = Some us' \<longrightarrow> lu_handle us = Some h \<longrightarrow> lu_handle us' = Some h \<longrightarrow> u = u')
     \<and> (\<forall>h hn. ll_handles w h = Some hn \<longrightarrow>
          (\<exists>ob u us. ll_objects w (lh_object hn) = Some ob \<and> u \<in> set (lo_users ob) \<and> ll_users w u = Some us \<and> lu_handle us = Some h))"

definition told :: "'w llcache \<Rightarrow> nat \<Rightarrow> bool" where
  "told w h \<longleftrightarrow>
     (\<forall>hn ob. ll_handles w h = Some hn \<longrightarrow> ll_objects w (lh_object hn) = Some ob \<longrightarrow>
        story (taken (ll_heard w) h) (lh_state hn) (lh_bytes hn) (lo_source ob) \<and> (lh_state hn = LLCACHE_FETCH_COMPLETE \<longrightarrow> lo_state ob = LLCACHE_FETCH_COMPLETE))"

definition objects_ok :: "'w llcache \<Rightarrow> bool" where
  "objects_ok w \<longleftrightarrow>
     (\<forall>a ob. ll_objects w a = Some ob \<longrightarrow> \<not> lo_stream ob \<and> (lo_state ob = LLCACHE_FETCH_COMPLETE \<longrightarrow> \<not> lo_fetching ob)
        \<and> lo_candidate ob = None)"

definition polite :: "'w llcache_env \<Rightarrow> bool" where
  "polite env \<longleftrightarrow> (\<forall>c h ev. fst (snd (le_cb env c h ev)) \<in> {[], [HandleRelease h]})"

lemma wf_user:
  assumes "wf_cache w t" "ll_objects w a = Some ob" "u \<in> set (lo_users ob)"
  obtains us h hn where "ll_users w u = Some us" "lu_handle us = Some h" "ll_handles w h = Some hn" "lh_object hn = a"
  using assms unfolding wf_cache_def by metis

lemma wf_distinct: "wf_cache w t \<Longrightarrow> ll_objects w a = Some ob \<Longrightarrow> distinct (lo_users ob)"
  unfolding wf_cache_def by blast

lemma wf_flags: "wf_cache w t \<Longrightarrow> ll_users w u = Some us \<Longrightarrow> (lu_target us \<longleftrightarrow> t = Some u) \<and> (lu_deleted us \<longrightarrow> t = Some u)"
  unfolding wf_cache_def by blast

lemma wf_same_handle:
  "wf_cache w t \<Longrightarrow> ll_users w u = Some us \<Longrightarrow> ll_users w u' = Some us' \<Longrightarrow> lu_handle us = Some h \<Longrightarrow> lu_handle us' = Some h \<Longrightarrow> u = u'"
  unfolding wf_cache_def by blast

lemma wf_handle:
  assumes "wf_cache w t" "ll_handles w h = Some hn"
  obtains ob u us where "ll_objects w (lh_object hn) = Some ob" "u \<in> set (lo_users ob)" "ll_users w u = Some us" "lu_handle us = Some h"
  using assms unfolding wf_cache_def by metis

lemma find_user_right:
  assumes wf: "wf_cache w t" and u: "ll_users w u = Some us" "lu_handle us = Some h" and h: "ll_handles w h = Some hn"
  shows "llcache_object_find_user h w = Some u"
proof -
  obtain ob u' us' where o: "ll_objects w (lh_object hn) = Some ob" "u' \<in> set (lo_users ob)" "ll_users w u' = Some us'" "lu_handle us' = Some h"
    using wf_handle [OF wf h] by blast
  then have "u' = u" using wf_same_handle [OF wf o(3) u(1) o(4) u(2)] by blast
  let ?P = "\<lambda>u. \<exists>us \<in> set_option (ll_users w u). lu_handle us = Some h"
  have P: "?P x \<longleftrightarrow> x = u" for x
    using wf_same_handle [OF wf _ u(1) _ u(2), of x] u by auto
  obtain x where x: "List.find ?P (lo_users ob) = Some x"
    using o(2) P \<open>u' = u\<close> by (cases "List.find ?P (lo_users ob)") (auto simp: find_None_iff)
  then have "?P x" by (auto simp: find_Some_iff)
  then have "x = u" using P by blast
  then show ?thesis using h o(1) x by (simp add: llcache_object_find_user_def)
qed

text \<open>A user in its turn.\<close>

definition in_turn_of :: "'w llcache \<Rightarrow> nat \<Rightarrow> nat \<Rightarrow> nat \<Rightarrow> bool" where
  "in_turn_of w a u h \<longleftrightarrow>
     wf_cache w (Some u) \<and> (\<exists>ob. ll_objects w a = Some ob \<and> u \<in> set (lo_users ob))
     \<and> ll_users w u = Some \<lparr>lu_handle = Some h, lu_target = True, lu_deleted = False\<rparr>
     \<and> (\<exists>hn. ll_handles w h = Some hn \<and> lh_object hn = a)"

text \<open>A client that is called fails or not, and its user may be marked for deletion.\<close>

definition called :: "'w llcache \<Rightarrow> nat \<Rightarrow> nat \<Rightarrow> llcache_event \<Rightarrow> nserror \<Rightarrow> bool \<Rightarrow> 'w \<Rightarrow> 'w llcache" where
  "called w u h ev err d c =
     (set_user u \<lparr>lu_handle = Some h, lu_target = True, lu_deleted = d\<rparr> w)\<lparr>ll_client := c, ll_heard := ll_heard w @ [(h, ev, err)]\<rparr>"

lemma wf_client: "wf_cache (w\<lparr>ll_client := c, ll_heard := hs\<rparr>) t \<longleftrightarrow> wf_cache w t"
  by (simp add: wf_cache_def)

lemma call_client_turn:
  assumes p: "polite env" and t: "in_turn_of w a u h"
  shows "\<exists>err d c. call_client env h ev w = Some (err, called w u h ev err d c)
    \<and> ((\<exists>c'. le_cb env (ll_client w) h ev = (NSERROR_OK, [], c')) \<longrightarrow> err = NSERROR_OK \<and> \<not> d)"
proof -
  obtain err reqs c where cb: "le_cb env (ll_client w) h ev = (err, reqs, c)" by (cases "le_cb env (ll_client w) h ev") auto
  then have r: "reqs = [] \<or> reqs = [HandleRelease h]" using p unfolding polite_def by (metis fst_conv insert_iff singletonD snd_conv)
  let ?w = "w\<lparr>ll_client := c, ll_heard := ll_heard w @ [(h, ev, err)]\<rparr>"
  have wf: "wf_cache ?w (Some u)" using t by (simp add: in_turn_of_def wf_client)
  obtain hn where hn: "ll_handles w h = Some hn" using t by (auto simp: in_turn_of_def)
  have u: "ll_users ?w u = Some \<lparr>lu_handle = Some h, lu_target = True, lu_deleted = False\<rparr>" using t by (simp add: in_turn_of_def)
  have f: "llcache_object_find_user h ?w = Some u" by (rule find_user_right [OF wf u]) (simp_all add: hn)
  have rel: "llcache_handle_release h ?w = Some (called w u h ev err True c)"
    using u by (simp add: llcache_handle_release_def f hn called_def set_user_def)
  have stay: "?w = called w u h ev err False c"
  proof -
    have "ll_users w = (ll_users w)(u \<mapsto> \<lparr>lu_handle = Some h, lu_target = True, lu_deleted = False\<rparr>)" using u by (simp add: fun_upd_idem)
    then show ?thesis by (simp add: called_def set_user_def)
  qed
  show ?thesis
  proof (cases "reqs = []")
    case True
    then have "call_client env h ev w = Some (err, called w u h ev err False c)" using cb stay by (auto simp: call_client_def)
    then show ?thesis using cb by auto
  next
    case False
    then have "call_client env h ev w = Some (err, called w u h ev err True c)" using cb r rel by (auto simp: call_client_def)
    then show ?thesis using cb False by auto
  qed
qed

section \<open>One turn\<close>

text \<open>Between two moments of a pass over the object \<open>a\<close>, only the users \<open>S\<close> have left it.\<close>

definition dropped :: "'w llcache \<Rightarrow> 'w llcache \<Rightarrow> nat \<Rightarrow> nat set \<Rightarrow> bool" where
  "dropped w w' a S \<longleftrightarrow>
     ll_objects w' = (\<lambda>x. map_option (\<lambda>ob. if x = a then ob\<lparr>lo_users := filter (\<lambda>u. u \<notin> S) (lo_users ob)\<rparr> else ob) (ll_objects w x))
     \<and> ll_cached w' = ll_cached w \<and> ll_uncached w' = ll_uncached w"

definition settled :: "'w llcache \<Rightarrow> bool" where
  "settled w \<longleftrightarrow> wf_cache w None \<and> (\<forall>h. told w h) \<and> objects_ok w"

definition ready :: "'w llcache \<Rightarrow> nat \<Rightarrow> nat \<Rightarrow> nat \<Rightarrow> bool" where
  "ready w a u h \<longleftrightarrow> in_turn_of w a u h \<and> (\<forall>h. told w h) \<and> objects_ok w"

lemma dropped_none: "ll_objects w' = ll_objects w \<Longrightarrow> ll_cached w' = ll_cached w \<Longrightarrow> ll_uncached w' = ll_uncached w \<Longrightarrow> dropped w w' a {}"
  by (simp add: dropped_def fun_eq_iff option.map_ident_strong)

lemma dropped_trans:
  assumes "dropped w w1 a S" "dropped w1 w2 a T"
  shows "dropped w w2 a (S \<union> T)"
proof -
  have "filter (\<lambda>u. u \<notin> T) (filter (\<lambda>u. u \<notin> S) us) = filter (\<lambda>u. u \<notin> S \<union> T) us" for us :: "nat list" by (induction us) auto
  then show ?thesis using assms unfolding dropped_def by (auto simp: option.map_comp comp_def fun_eq_iff intro!: option.map_cong)
qed

lemma dropped_objects_ok:
  assumes "dropped w w' a S" "objects_ok w"
  shows "objects_ok w'"
  unfolding objects_ok_def
proof (intro allI impI)
  fix x ob assume "ll_objects w' x = Some ob"
  then obtain ob0 where o: "ll_objects w x = Some ob0" "ob = (if x = a then ob0\<lparr>lo_users := filter (\<lambda>u. u \<notin> S) (lo_users ob0)\<rparr> else ob0)"
    using assms(1) unfolding dropped_def by auto
  then show "\<not> lo_stream ob \<and> (lo_state ob = LLCACHE_FETCH_COMPLETE \<longrightarrow> \<not> lo_fetching ob) \<and> lo_candidate ob = None"
    using assms(2) o unfolding objects_ok_def by auto
qed

lemma dropped_told:
  assumes "dropped w w' a S" "ll_handles w' h = None \<or> ll_handles w' h = ll_handles w h" "taken (ll_heard w') h = taken (ll_heard w) h" "told w h"
  shows "told w' h"
  unfolding told_def
proof (intro allI impI)
  fix hn ob assume h: "ll_handles w' h = Some hn" and o: "ll_objects w' (lh_object hn) = Some ob"
  obtain ob0 where o0: "ll_objects w (lh_object hn) = Some ob0" "lo_source ob = lo_source ob0" "lo_state ob = lo_state ob0"
    using o assms(1) unfolding dropped_def by (auto split: if_splits)
  have "ll_handles w h = Some hn" using h assms(2) by simp
  then have "story (taken (ll_heard w) h) (lh_state hn) (lh_bytes hn) (lo_source ob0) \<and> (lh_state hn = LLCACHE_FETCH_COMPLETE \<longrightarrow> lo_state ob0 = LLCACHE_FETCH_COMPLETE)"
    using o0(1) assms(4) by (simp add: told_def)
  then show "story (taken (ll_heard w') h) (lh_state hn) (lh_bytes hn) (lo_source ob) \<and> (lh_state hn = LLCACHE_FETCH_COMPLETE \<longrightarrow> lo_state ob = LLCACHE_FETCH_COMPLETE)"
    using o0 assms(3) by simp
qed

lemma remove1_filter: "distinct xs \<Longrightarrow> remove1 u xs = filter (\<lambda>x. x \<noteq> u) xs"
proof (induction xs)
  case (Cons x xs)
  show ?case
  proof (cases "x = u")
    case True
    then have "filter (\<lambda>y. y \<noteq> u) xs = xs" using Cons.prems by (intro filter_True) auto
    then show ?thesis using True by simp
  next
    case False
    then show ?thesis using Cons by simp
  qed
qed simp

text \<open>A user leaves, whatever its flags.\<close>

lemma leave_turn:
  assumes t: "in_turn_of w a u h" and w': "w' = set_user u \<lparr>lu_handle = Some h, lu_target = tgt, lu_deleted = del\<rparr> w"
  shows "\<exists>w1 w2. llcache_object_remove_user a u w' = Some w1 \<and> llcache_object_user_destroy u w1 = Some w2 \<and> wf_cache w2 None
    \<and> dropped w w2 a {u} \<and> ll_handles w2 = (ll_handles w)(h := None) \<and> ll_heard w2 = ll_heard w \<and> ll_users w2 = (ll_users w)(u := None)"
proof -
  obtain ob where ob: "ll_objects w a = Some ob" "u \<in> set (lo_users ob)" using t by (auto simp: in_turn_of_def)
  have wf: "wf_cache w (Some u)" and us: "ll_users w u = Some \<lparr>lu_handle = Some h, lu_target = True, lu_deleted = False\<rparr>"
    using t by (simp_all add: in_turn_of_def)
  obtain hn where hn: "ll_handles w h = Some hn" "lh_object hn = a" using t by (auto simp: in_turn_of_def)
  define ob' where "ob' = ob\<lparr>lo_users := remove1 u (lo_users ob)\<rparr>"
  define w2 where "w2 = w\<lparr>ll_objects := (ll_objects w)(a \<mapsto> ob'), ll_handles := (ll_handles w)(h := None), ll_users := (ll_users w)(u := None)\<rparr>"
  have run: "llcache_object_remove_user a u w' = Some (set_object a ob' w')" "llcache_object_user_destroy u (set_object a ob' w') = Some w2"
    using ob by (simp_all add: llcache_object_remove_user_def llcache_object_user_destroy_def w' set_user_def set_object_def ob'_def w2_def)
  have d: "distinct (lo_users ob)" using wf_distinct [OF wf ob(1)] .
  have "wf_cache w2 None"
    unfolding wf_cache_def
  proof (intro conjI allI impI ballI)
    fix x ox assume x: "ll_objects w2 x = Some ox"
    then obtain o0 where o0: "ll_objects w x = Some o0" "distinct (lo_users ox)" "set (lo_users ox) \<subseteq> set (lo_users o0)" "x = a \<Longrightarrow> u \<notin> set (lo_users ox)"
      using ob d wf_distinct [OF wf] by (auto simp: w2_def ob'_def set_remove1_eq split: if_splits)
    then show "distinct (lo_users ox)" by blast
    fix v assume v: "v \<in> set (lo_users ox)"
    obtain vs k kn where k: "ll_users w v = Some vs" "lu_handle vs = Some k" "ll_handles w k = Some kn" "lh_object kn = x"
      using wf_user [OF wf o0(1)] v o0(3) by blast
    have "v \<noteq> u"
    proof
      assume "v = u"
      then have "x = a" using k us hn by auto
      then show False using o0(4) v \<open>v = u\<close> by blast
    qed
    moreover have "k \<noteq> h" using wf_same_handle [OF wf k(1) us k(2)] \<open>v \<noteq> u\<close> by auto
    ultimately show "\<exists>us h hn. ll_users w2 v = Some us \<and> lu_handle us = Some h \<and> ll_handles w2 h = Some hn \<and> lh_object hn = x"
      using k by (intro exI [of _ vs] exI [of _ k] exI [of _ kn]) (simp add: w2_def)
  next
    fix v vs assume "ll_users w2 v = Some vs"
    then have "v \<noteq> u" "ll_users w v = Some vs" by (auto simp: w2_def split: if_splits)
    then show "lu_target vs \<longleftrightarrow> None = Some v" "lu_deleted vs \<Longrightarrow> None = Some v" using wf_flags [OF wf, of v vs] by auto
  next
    fix v v' vs vs' k
    assume "ll_users w2 v = Some vs" "ll_users w2 v' = Some vs'" "lu_handle vs = Some k" "lu_handle vs' = Some k"
    then show "v = v'" using wf_same_handle [OF wf, of v vs v' vs' k] by (auto simp: w2_def split: if_splits)
  next
    fix k kn assume "ll_handles w2 k = Some kn"
    then have k: "k \<noteq> h" "ll_handles w k = Some kn" by (auto simp: w2_def split: if_splits)
    obtain ox v vs where v: "ll_objects w (lh_object kn) = Some ox" "v \<in> set (lo_users ox)" "ll_users w v = Some vs" "lu_handle vs = Some k"
      using wf_handle [OF wf k(2)] by blast
    have "v \<noteq> u" using v(3,4) us k(1) by auto
    then show "\<exists>ob u us. ll_objects w2 (lh_object kn) = Some ob \<and> u \<in> set (lo_users ob) \<and> ll_users w2 u = Some us \<and> lu_handle us = Some k"
      using v ob(1) by (intro exI [of _ "if lh_object kn = a then ob' else ox"] exI [of _ v] exI [of _ vs]) (auto simp: w2_def ob'_def)
  qed
  moreover have "dropped w w2 a {u}"
    using ob remove1_filter [OF d, of u] by (auto simp: dropped_def w2_def ob'_def fun_eq_iff option.map_ident_strong)
  ultimately show ?thesis using run by (auto simp: w2_def)
qed

text \<open>A turn begins and ends with the flag of the user.\<close>

lemma wf_set_user:
  assumes wf: "wf_cache w t" and us: "ll_users w u = Some us" "lu_handle us' = lu_handle us"
    and t: "t \<in> {None, Some u}" "t' \<in> {None, Some u}" "lu_target us' \<longleftrightarrow> t' = Some u" "lu_deleted us' \<longrightarrow> t' = Some u"
  shows "wf_cache (set_user u us' w) t'"
proof -
  let ?w = "set_user u us' w"
  have up: "\<exists>vs'. ll_users ?w v = Some vs' \<and> lu_handle vs' = lu_handle vs" if "ll_users w v = Some vs" for v vs
    using that us by (cases "v = u") (auto simp: set_user_def)
  have down: "\<exists>vs'. ll_users w v = Some vs' \<and> lu_handle vs' = lu_handle vs" if "ll_users ?w v = Some vs" for v vs
    using that us by (cases "v = u") (auto simp: set_user_def)
  have same: "ll_objects ?w = ll_objects w" "ll_handles ?w = ll_handles w" by (simp_all add: set_user_def)
  show ?thesis
    unfolding wf_cache_def same
  proof (intro conjI allI impI ballI)
    fix x ox assume x: "ll_objects w x = Some ox"
    show "distinct (lo_users ox)" using wf_distinct [OF wf x] .
    fix v assume "v \<in> set (lo_users ox)"
    then obtain vs k kn where "ll_users w v = Some vs" "lu_handle vs = Some k" "ll_handles w k = Some kn" "lh_object kn = x"
      using wf_user [OF wf x] by blast
    then show "\<exists>us h hn. ll_users ?w v = Some us \<and> lu_handle us = Some h \<and> ll_handles w h = Some hn \<and> lh_object hn = x" using up by metis
  next
    fix v vs assume v: "ll_users ?w v = Some vs"
    show "lu_target vs \<longleftrightarrow> t' = Some v" "lu_deleted vs \<Longrightarrow> t' = Some v"
      using v t wf_flags [OF wf, of v vs] by (auto simp: set_user_def split: if_splits)
  next
    fix v v' vs vs' k
    assume "ll_users ?w v = Some vs" "ll_users ?w v' = Some vs'" "lu_handle vs = Some k" "lu_handle vs' = Some k"
    then show "v = v'" using down wf_same_handle [OF wf] by metis
  next
    fix k kn assume "ll_handles w k = Some kn"
    then obtain ox v vs where "ll_objects w (lh_object kn) = Some ox" "v \<in> set (lo_users ox)" "ll_users w v = Some vs" "lu_handle vs = Some k"
      using wf_handle [OF wf] by blast
    then show "\<exists>ob u us. ll_objects w (lh_object kn) = Some ob \<and> u \<in> set (lo_users ob) \<and> ll_users ?w u = Some us \<and> lu_handle us = Some k"
      using up by metis
  qed
qed

lemma end_turn:
  assumes "in_turn_of w a u h"
  shows "wf_cache (set_user u \<lparr>lu_handle = Some h, lu_target = False, lu_deleted = False\<rparr> w) None"
  by (rule wf_set_user [of w "Some u" u "\<lparr>lu_handle = Some h, lu_target = True, lu_deleted = False\<rparr>"])
    (use assms in \<open>simp_all add: in_turn_of_def\<close>)

text \<open>No handle or user is new, and what has been told in full stays so.\<close>

definition kept :: "'w llcache \<Rightarrow> 'w llcache \<Rightarrow> bool" where
  "kept w w' \<longleftrightarrow>
     (\<forall>k kn'. ll_handles w' k = Some kn' \<longrightarrow> (\<exists>kn. ll_handles w k = Some kn \<and> lh_object kn' = lh_object kn
        \<and> (lh_state kn = LLCACHE_FETCH_COMPLETE \<longrightarrow> lh_state kn' = LLCACHE_FETCH_COMPLETE)))
     \<and> (\<forall>v vs'. ll_users w' v = Some vs' \<longrightarrow> (\<exists>vs. ll_users w v = Some vs \<and> lu_handle vs = lu_handle vs'))"

lemma told_kept_refl: "kept w w"
  by (simp add: kept_def)

lemma told_kept_trans: "kept w w1 \<Longrightarrow> kept w1 w2 \<Longrightarrow> kept w w2"
  unfolding kept_def by metis

lemma kept_handle:
  assumes "kept w w'" "ll_handles w' k = Some kn'"
  obtains kn where "ll_handles w k = Some kn" "lh_object kn' = lh_object kn"
    "lh_state kn = LLCACHE_FETCH_COMPLETE \<Longrightarrow> lh_state kn' = LLCACHE_FETCH_COMPLETE"
  using assms unfolding kept_def by metis

lemma kept_user:
  assumes "kept w w'" "ll_users w' v = Some vs'"
  obtains vs where "ll_users w v = Some vs" "lu_handle vs = lu_handle vs'"
  using assms unfolding kept_def by metis

text \<open>A turn changes only the handle and the user that have it, and a handle only before it is complete.\<close>

lemma kept_turn:
  assumes "in_turn_of w a u h" "ll_handles w h = Some h0" "lh_state h0 \<noteq> LLCACHE_FETCH_COMPLETE"
    and h: "\<And>k. k \<noteq> h \<Longrightarrow> ll_handles w' k = ll_handles w k" "\<And>kn. ll_handles w' h = Some kn \<Longrightarrow> lh_object kn = a"
    and u: "\<And>v. v \<noteq> u \<Longrightarrow> ll_users w' v = ll_users w v" "\<And>vs. ll_users w' u = Some vs \<Longrightarrow> lu_handle vs = Some h"
  shows "kept w w'"
proof -
  have "\<exists>kn. ll_handles w k = Some kn \<and> lh_object kn' = lh_object kn
        \<and> (lh_state kn = LLCACHE_FETCH_COMPLETE \<longrightarrow> lh_state kn' = LLCACHE_FETCH_COMPLETE)" if "ll_handles w' k = Some kn'" for k kn'
  proof (cases "k = h")
    case True
    then show ?thesis using assms(1-3) h(2) that by (auto simp: in_turn_of_def)
  next
    case False
    then show ?thesis using h(1) that by simp
  qed
  moreover have "\<exists>vs. ll_users w v = Some vs \<and> lu_handle vs = lu_handle vs'" if "ll_users w' v = Some vs'" for v vs'
  proof (cases "v = u")
    case True
    then show ?thesis using assms(1) u(2) that by (auto simp: in_turn_of_def)
  next
    case False
    then show ?thesis using u(1) that by simp
  qed
  ultimately show ?thesis by (simp add: kept_def)
qed

text \<open>Clients that take all they are told and ask for nothing.\<close>

definition agrees :: "'w llcache_env \<Rightarrow> bool" where
  "agrees env \<longleftrightarrow> (\<forall>c h ev. \<exists>c'. le_cb env c h ev = (NSERROR_OK, [], c'))"

text \<open>
  How a step of the turn of user \<open>u\<close> may come out, as seen from the cache \<open>w\<close> before it: the turn
  goes on; or it is over, and the next user is the one that was next in \<open>w\<close>; or the pass stops.
\<close>

definition comes_out :: "'w llcache \<Rightarrow> nat \<Rightarrow> nat \<Rightarrow> nat \<Rightarrow> 'w outcome \<Rightarrow> bool" where
  "comes_out w a u h r \<longleftrightarrow>
     (case r of
        GoOn w1 \<Rightarrow> ready w1 a u h \<and> dropped w w1 a {} \<and> kept w w1
      | NextUser nxt w1 \<Rightarrow> settled w1 \<and> kept w w1 \<and> next_user a u w = Some nxt \<and> (dropped w w1 a {} \<or> dropped w w1 a {u})
      | Stop e w1 \<Rightarrow> settled w1 \<and> kept w w1 \<and> e \<noteq> NSERROR_OK \<and> (dropped w w1 a {} \<or> dropped w w1 a {u}))"

lemma next_user_same: "ll_objects w' a = ll_objects w a \<Longrightarrow> next_user a u w' = next_user a u w"
  by (simp add: next_user_def)

lemma dropWhile_from: "u \<notin> set ys \<Longrightarrow> dropWhile (\<lambda>x. x \<noteq> u) (ys @ u # zs) = u # zs"
  by (induction ys) auto

lemma next_user_split:
  assumes "ll_objects w a = Some ob" "lo_users ob = ys @ u # zs" "u \<notin> set ys"
  shows "next_user a u w = Some (case zs of [] \<Rightarrow> None | x # _ \<Rightarrow> Some x)"
  using assms dropWhile_from [OF assms(3), of zs] by (simp add: next_user_def)

lemma next_user_some:
  assumes "ll_objects w a = Some ob" "u \<in> set (lo_users ob)"
  shows "\<exists>nxt. next_user a u w = Some nxt"
proof -
  obtain ys zs where "lo_users ob = ys @ u # zs" "u \<notin> set ys" using split_list_first [OF assms(2)] by blast
  then show ?thesis using next_user_split [OF assms(1)] by blast
qed

text \<open>After the handle has been set, as \<open>hn\<close> with the object it had.\<close>

lemma set_handle_turn:
  assumes "in_turn_of w a u h" "lh_object hn = a"
  shows "in_turn_of (set_handle h hn w) a u h"
proof -
  obtain h0 where h0: "ll_handles w h = Some h0" "lh_object h0 = a" using assms(1) by (auto simp: in_turn_of_def)
  have wf: "wf_cache w (Some u)" using assms(1) by (simp add: in_turn_of_def)
  have same: "ll_objects (set_handle h hn w) = ll_objects w" "ll_users (set_handle h hn w) = ll_users w" by (simp_all add: set_handle_def)
  have obj: "\<exists>kn'. ll_handles (set_handle h hn w) k = Some kn' \<and> lh_object kn' = lh_object kn" if "ll_handles w k = Some kn" for k kn
    using that h0 assms(2) by (cases "k = h") (auto simp: set_handle_def)
  have obj': "\<exists>kn'. ll_handles w k = Some kn' \<and> lh_object kn' = lh_object kn" if "ll_handles (set_handle h hn w) k = Some kn" for k kn
    using that h0 assms(2) by (cases "k = h") (auto simp: set_handle_def)
  have "wf_cache (set_handle h hn w) (Some u)"
    unfolding wf_cache_def same
  proof (intro conjI allI impI ballI)
    fix x ox assume x: "ll_objects w x = Some ox"
    show "distinct (lo_users ox)" using wf_distinct [OF wf x] .
    fix v assume "v \<in> set (lo_users ox)"
    then obtain vs k kn where "ll_users w v = Some vs" "lu_handle vs = Some k" "ll_handles w k = Some kn" "lh_object kn = x"
      using wf_user [OF wf x] by blast
    then show "\<exists>us k kn. ll_users w v = Some us \<and> lu_handle us = Some k \<and> ll_handles (set_handle h hn w) k = Some kn \<and> lh_object kn = x"
      using obj by metis
  next
    fix v vs assume "ll_users w v = Some vs"
    then show "lu_target vs \<longleftrightarrow> Some u = Some v" "lu_deleted vs \<Longrightarrow> Some u = Some v" using wf_flags [OF wf] by blast+
  next
    fix v v' vs vs' k
    assume "ll_users w v = Some vs" "ll_users w v' = Some vs'" "lu_handle vs = Some k" "lu_handle vs' = Some k"
    then show "v = v'" using wf_same_handle [OF wf] by blast
  next
    fix k kn assume "ll_handles (set_handle h hn w) k = Some kn"
    then obtain kn' where "ll_handles w k = Some kn'" "lh_object kn' = lh_object kn" using obj' by blast
    then show "\<exists>ob u us. ll_objects w (lh_object kn) = Some ob \<and> u \<in> set (lo_users ob) \<and> ll_users w u = Some us \<and> lu_handle us = Some k"
      using wf_handle [OF wf] by metis
  qed
  then show ?thesis using assms by (auto simp: in_turn_of_def set_handle_def)
qed

lemma told_other_handle: "told w k \<Longrightarrow> k \<noteq> h \<Longrightarrow> told (set_handle h hn w) k"
  by (simp add: told_def set_handle_def)

lemma called_frame:
  "ll_objects (called w u h ev err d c) = ll_objects w" "ll_handles (called w u h ev err d c) = ll_handles w"
  "ll_cached (called w u h ev err d c) = ll_cached w" "ll_uncached (called w u h ev err d c) = ll_uncached w"
  "ll_heard (called w u h ev err d c) = ll_heard w @ [(h, ev, err)]"
  by (simp_all add: called_def set_user_def)

lemma told_called: "told w k \<Longrightarrow> k \<noteq> h \<Longrightarrow> told (called w u h ev err d c) k"
  by (simp add: told_def called_frame taken_simps)

lemma called_False:
  assumes "in_turn_of w a u h"
  shows "in_turn_of (called w u h ev err False c) a u h"
proof -
  have "(ll_users w)(u \<mapsto> \<lparr>lu_handle = Some h, lu_target = True, lu_deleted = False\<rparr>) = ll_users w"
    using assms by (simp add: in_turn_of_def fun_upd_idem)
  then have "called w u h ev err False c = w\<lparr>ll_client := c, ll_heard := ll_heard w @ [(h, ev, err)]\<rparr>"
    by (simp add: called_def set_user_def)
  then show ?thesis using assms by (simp add: in_turn_of_def wf_client)
qed

lemma objects_ok_same: "ll_objects w' = ll_objects w \<Longrightarrow> objects_ok w' \<longleftrightarrow> objects_ok w"
  by (simp add: objects_ok_def)

text \<open>
  The call of a client and what follows, when the handle is at \<open>hn\<close> meanwhile and at \<open>old\<close> if the client
  wants the event again.
\<close>

lemma call_turn:
  assumes p: "polite env" and r0: "ready w0 a u h" and h0: "ll_handles w0 h = Some h0" "lh_state h0 \<noteq> LLCACHE_FETCH_COMPLETE"
    and ob: "ll_objects w0 a = Some ob"
    and undo: "\<And>x. ll_handles x h = Some hn \<Longrightarrow> undo x = Some (set_handle h old x)" and oh: "lh_object hn = a" "lh_object old = a"
    and good: "\<And>err. err \<noteq> NSERROR_NEED_DATA \<Longrightarrow>
        story (taken (ll_heard w0 @ [(h, ev, err)]) h) (lh_state hn) (lh_bytes hn) (lo_source ob) \<and> (lh_state hn = LLCACHE_FETCH_COMPLETE \<longrightarrow> lo_state ob = LLCACHE_FETCH_COMPLETE)"
    and again: "story (taken (ll_heard w0 @ [(h, ev, NSERROR_NEED_DATA)]) h) (lh_state old) (lh_bytes old) (lo_source ob)
        \<and> (lh_state old = LLCACHE_FETCH_COMPLETE \<longrightarrow> lo_state ob = LLCACHE_FETCH_COMPLETE)"
  shows "\<exists>err w1 r. call_client env h ev (set_handle h hn w0) = Some (err, w1) \<and> after_event a u undo err w1 = Some r \<and> comes_out w0 a u h r
    \<and> (agrees env \<longrightarrow> (\<exists>w2. r = GoOn w2)) \<and> (\<forall>w2. r = GoOn w2 \<longrightarrow> ll_handles w2 h = Some hn)"
proof -
  let ?ow = "set_handle h hn w0"
  have t0: "in_turn_of w0 a u h" and told0: "told w0 k" and oks: "objects_ok w0" for k using r0 by (simp_all add: ready_def)
  have t: "in_turn_of ?ow a u h" using set_handle_turn [OF t0 oh(1)] .
  have others: "k \<noteq> h \<Longrightarrow> told ?ow k" for k using told_other_handle [OF told0] .
  have fro: "ll_objects ?ow = ll_objects w0" "ll_handles ?ow = (ll_handles w0)(h \<mapsto> hn)" "ll_users ?ow = ll_users w0"
    "ll_cached ?ow = ll_cached w0" "ll_uncached ?ow = ll_uncached w0" "ll_heard ?ow = ll_heard w0" by (simp_all add: set_handle_def)
  obtain err d c where call: "call_client env h ev ?ow = Some (err, called ?ow u h ev err d c)"
    and agree: "agrees env \<Longrightarrow> err = NSERROR_OK \<and> \<not> d"
    using call_client_turn [OF p t, of ev] unfolding agrees_def by metis
  let ?w = "called ?ow u h ev err d c"
  have cfr: "ll_objects ?w = ll_objects w0" "ll_handles ?w = (ll_handles w0)(h \<mapsto> hn)" "ll_heard ?w = ll_heard w0 @ [(h, ev, err)]"
    "ll_cached ?w = ll_cached w0" "ll_uncached ?w = ll_uncached w0"
    by (simp_all add: called_frame fro)
  have us: "ll_users ?w u = Some \<lparr>lu_handle = Some h, lu_target = True, lu_deleted = d\<rparr>" by (simp add: called_def set_user_def)
  have usw: "ll_users ?w = (ll_users w0)(u \<mapsto> \<lparr>lu_handle = Some h, lu_target = True, lu_deleted = d\<rparr>)"
    by (simp add: called_def set_user_def set_handle_def)
  note kp = kept_turn [OF t0 h0]
  obtain nxt where nxt: "next_user a u w0 = Some nxt" using next_user_some ob t0 unfolding in_turn_of_def by metis
  have nxt': "next_user a u x = Some nxt" if "ll_objects x a = ll_objects w0 a" for x using nxt next_user_same [OF that] by simp
  have "\<exists>r. after_event a u undo err ?w = Some r \<and> comes_out w0 a u h r
    \<and> (agrees env \<longrightarrow> (\<exists>w2. r = GoOn w2)) \<and> (\<forall>w2. r = GoOn w2 \<longrightarrow> ll_handles w2 h = Some hn)"
  proof (cases d)
    case True
    have t2: "in_turn_of (called ?ow u h ev err False c) a u h" using called_False [OF t] .
    have eq: "?w = set_user u \<lparr>lu_handle = Some h, lu_target = True, lu_deleted = True\<rparr> (called ?ow u h ev err False c)"
      using True by (simp add: called_def set_user_def)
    obtain w1 w2 where l: "llcache_object_remove_user a u ?w = Some w1" "llcache_object_user_destroy u w1 = Some w2" "wf_cache w2 None"
      "dropped (called ?ow u h ev err False c) w2 a {u}" "ll_handles w2 = (ll_handles (called ?ow u h ev err False c))(h := None)"
      "ll_heard w2 = ll_heard (called ?ow u h ev err False c)" "ll_users w2 = (ll_users (called ?ow u h ev err False c))(u := None)"
      using leave_turn [OF t2 eq] by blast
    have d: "dropped w0 w2 a {u}" using l(4) by (simp add: dropped_def called_frame fro)
    have "told w2 k" for k
    proof (cases "k = h")
      case True
      then show ?thesis using l(5) by (simp add: told_def)
    next
      case False
      show ?thesis by (rule dropped_told [OF l(4)]) (use l(5,6) False told_called [OF others [OF False] False] in simp_all)
    qed
    then have "settled w2" using l(3) dropped_objects_ok [OF d oks] by (simp add: settled_def)
    moreover have "after_event a u undo err ?w = Some (if err \<noteq> NSERROR_OK then Stop err w2 else NextUser nxt w2)"
      using us True l(1,2) nxt' [of ?w, OF arg_cong [where f = "\<lambda>f. f a", OF cfr(1)]] by (simp add: after_event_def)
    moreover have "kept w0 w2"
      by (rule kp) (use l(5,7) in \<open>auto simp: called_frame called_def set_user_def set_handle_def\<close>)
    ultimately show ?thesis using d nxt agree True by (auto simp: comes_out_def)
  next
    case False
    have t1: "in_turn_of ?w a u h" using called_False [OF t] False by simp
    show ?thesis
    proof (cases "err = NSERROR_NEED_DATA")
      case True
      let ?w1 = "set_handle h old ?w"
      have t2: "in_turn_of ?w1 a u h" using set_handle_turn [OF t1 oh(2)] .
      let ?w2 = "set_user u \<lparr>lu_handle = Some h, lu_target = False, lu_deleted = False\<rparr> ?w1"
      let ?w3 = "llcache_users_not_caught_up ?w2"
      have fr: "ll_objects ?w3 = ll_objects w0" "ll_handles ?w3 = (ll_handles w0)(h \<mapsto> old)" "ll_cached ?w3 = ll_cached w0"
        "ll_uncached ?w3 = ll_uncached w0" "ll_heard ?w3 = ll_heard w0 @ [(h, ev, err)]"
        "ll_users ?w3 = (ll_users w0)(u \<mapsto> \<lparr>lu_handle = Some h, lu_target = False, lu_deleted = False\<rparr>)"
        by (simp_all add: llcache_users_not_caught_up_def set_user_def set_handle_def called_def)
      have "wf_cache ?w3 None" using end_turn [OF t2] by (simp add: llcache_users_not_caught_up_def wf_cache_def)
      moreover have "told ?w3 k" for k
      proof (cases "k = h")
        case True
        then show ?thesis using again oh ob \<open>err = NSERROR_NEED_DATA\<close> unfolding told_def fr by simp
      next
        case False
        then show ?thesis using told0 [of k] unfolding told_def fr by (simp add: taken_simps)
      qed
      ultimately have "settled ?w3" using oks by (simp add: settled_def objects_ok_same [OF fr(1)])
      moreover have "dropped w0 ?w3 a {}" by (rule dropped_none) (simp_all add: fr)
      moreover have "kept w0 ?w3" by (rule kp) (auto simp: fr oh)
      moreover have "after_event a u undo err ?w = Some (NextUser nxt ?w3)"
        using us False True undo [of ?w] nxt' [of ?w2] unfolding after_event_def
        by (simp add: cfr called_frame set_user_def set_handle_def Let_def)
      ultimately show ?thesis using nxt agree True by (auto simp: comes_out_def)
    next
      case no: False
      have told: "told ?w k" for k
      proof (cases "k = h")
        case True
        then show ?thesis using good [OF no] ob oh unfolding told_def cfr by simp
      next
        case False
        then show ?thesis using told0 [of k] unfolding told_def cfr by (simp add: taken_simps)
      qed
      have oks': "objects_ok ?w" using oks by (simp add: objects_ok_def cfr)
      show ?thesis
      proof (cases "err = NSERROR_OK")
        case True
        have "after_event a u undo err ?w = Some (GoOn ?w)" using us False True by (simp add: after_event_def)
        moreover have "dropped w0 ?w a {}" by (rule dropped_none) (simp_all add: cfr)
        moreover have "kept w0 ?w" by (rule kp) (auto simp: cfr usw oh)
        ultimately show ?thesis using t1 told oks' by (auto simp: comes_out_def ready_def cfr)
      next
        case False
        let ?w2 = "set_user u \<lparr>lu_handle = Some h, lu_target = False, lu_deleted = False\<rparr> ?w"
        have "after_event a u undo err ?w = Some (Stop err ?w2)" using us \<open>\<not> d\<close> False no by (simp add: after_event_def)
        moreover have "settled ?w2"
          using end_turn [OF t1] told oks' by (simp add: settled_def told_def objects_ok_def set_user_def)
        moreover have "dropped w0 ?w2 a {}" by (rule dropped_none) (simp_all add: cfr set_user_def)
        moreover have "kept w0 ?w2" by (rule kp) (auto simp: cfr usw oh set_user_def)
        ultimately show ?thesis using agree False by (auto simp: comes_out_def)
      qed
    qed
  qed
  then show ?thesis using call by blast
qed

end
