(* ===== verification/LlcacheTurns.thy ===== *)
theory LlcacheTurns
  imports LlcacheProps
begin

text \<open>
  The turn of one user of a cached object, the pass over all of them, and what reachable caches have
  told their clients.
\<close>

section \<open>The steps\<close>

text \<open>
  The steps of the state machine. After a step that goes on the handle has been told what the state
  of the object allows at that point.
\<close>

definition step_result :: "'w llcache_env \<Rightarrow> 'w llcache \<Rightarrow> nat \<Rightarrow> nat \<Rightarrow> nat \<Rightarrow> (llcache_handle \<Rightarrow> bool) \<Rightarrow> 'w outcome option \<Rightarrow> bool" where
  "step_result env w a u h P res \<longleftrightarrow>
     (\<exists>r. res = Some r \<and> comes_out w a u h r \<and> (agrees env \<longrightarrow> (\<exists>w2. r = GoOn w2))
        \<and> (\<forall>w2 hn. r = GoOn w2 \<longrightarrow> ll_handles w2 h = Some hn \<longrightarrow> P hn))"

lemma step_resultI:
  "res = Some r \<Longrightarrow> comes_out w a u h r \<Longrightarrow> (agrees env \<longrightarrow> (\<exists>w2. r = GoOn w2))
    \<Longrightarrow> (\<And>w2 hn. r = GoOn w2 \<Longrightarrow> ll_handles w2 h = Some hn \<Longrightarrow> P hn) \<Longrightarrow> step_result env w a u h P res"
  by (auto simp: step_result_def)

lemma ready_handle:
  assumes "ready w a u h"
  obtains hn ob where "ll_handles w h = Some hn" "lh_object hn = a" "ll_objects w a = Some ob" "u \<in> set (lo_users ob)" "\<not> lo_stream ob"
    "story (taken (ll_heard w) h) (lh_state hn) (lh_bytes hn) (lo_source ob)" "lh_state hn = LLCACHE_FETCH_COMPLETE \<longrightarrow> lo_state ob = LLCACHE_FETCH_COMPLETE"
proof -
  obtain hn ob where o: "ll_handles w h = Some hn" "lh_object hn = a" "ll_objects w a = Some ob" "u \<in> set (lo_users ob)"
    using assms by (auto simp: ready_def in_turn_of_def)
  moreover have "told w h" "objects_ok w" using assms by (auto simp: ready_def)
  ultimately show ?thesis using that [of hn ob] unfolding told_def objects_ok_def by blast
qed

lemma stays_ready:
  assumes "ready w a u h" "\<And>hn. ll_handles w h = Some hn \<Longrightarrow> P hn"
  shows "step_result env w a u h P (Some (GoOn w))"
  using assms by (auto simp: step_result_def comes_out_def told_kept_refl intro: dropped_none)

lemma after_silence:
  assumes "ready w0 a u h" "ll_handles w0 h = Some h0" "lh_state h0 \<noteq> LLCACHE_FETCH_COMPLETE"
    and "w = set_handle h hn w0" "lh_object hn = a" "told w h" "P hn"
  shows "step_result env w0 a u h P (after_event a u undo NSERROR_OK w)"
proof -
  have t0: "in_turn_of w0 a u h" using assms(1) by (simp add: ready_def)
  have t: "in_turn_of w a u h" using set_handle_turn [OF t0 assms(5)] assms(4) by simp
  have "told w k" for k using assms(6) told_other_handle [of w0 k h hn] assms(1,4) by (cases "k = h") (simp_all add: ready_def)
  moreover have "objects_ok w" using assms(1,4) by (simp add: ready_def objects_ok_def set_handle_def)
  moreover have "kept w0 w"
    by (rule kept_turn [OF t0 assms(2,3)]) (use assms(4,5) t0 in \<open>auto simp: set_handle_def in_turn_of_def\<close>)
  moreover have "dropped w0 w a {}" by (rule dropped_none) (simp_all add: assms(4) set_handle_def)
  moreover have "after_event a u undo NSERROR_OK w = Some (GoOn w)" using t by (simp add: after_event_def in_turn_of_def)
  ultimately show ?thesis using t assms(4,7) by (auto simp: step_result_def comes_out_def ready_def set_handle_def)
qed

lemma step_certs_result:
  assumes p: "polite env" and r: "ready w a u h" and st: "\<And>ob. ll_objects w a = Some ob \<Longrightarrow> lo_state ob = objstate"
  shows "step_result env w a u h (\<lambda>hn. state_no objstate > 0 \<longrightarrow> lh_state hn \<noteq> LLCACHE_FETCH_INIT) (step_certs env a u h objstate w)"
proof -
  obtain hn ob where o: "ll_handles w h = Some hn" "lh_object hn = a" "ll_objects w a = Some ob"
    and sy: "story (taken (ll_heard w) h) (lh_state hn) (lh_bytes hn) (lo_source ob)"
    using ready_handle [OF r] by metis
  show ?thesis
  proof (cases "lh_state hn = LLCACHE_FETCH_INIT \<and> state_no objstate > state_no LLCACHE_FETCH_INIT")
    case True
    let ?hn = "hn\<lparr>lh_state := LLCACHE_FETCH_HEADERS\<rparr>"
    have ns: "lh_state hn \<noteq> LLCACHE_FETCH_COMPLETE" using True by simp
    have sw: "set_state h LLCACHE_FETCH_HEADERS w = Some (set_handle h ?hn w)" using o(1) by (simp add: set_state_def)
    have ob': "ll_objects (set_handle h ?hn w) a = Some ob" using o(3) by (simp add: set_handle_def)
    have sh: "story (taken (ll_heard w) h) LLCACHE_FETCH_HEADERS (lh_bytes hn) (lo_source ob)"
      using story_certs sy True by auto
    show ?thesis
    proof (cases "lo_chain ob")
      case chain: True
      have "\<exists>err w1 r. call_client env h LLCACHE_EVENT_GOT_CERTS (set_handle h ?hn w) = Some (err, w1)
        \<and> after_event a u (set_state h LLCACHE_FETCH_HEADERS) err w1 = Some r \<and> comes_out w a u h r
        \<and> (agrees env \<longrightarrow> (\<exists>w2. r = GoOn w2)) \<and> (\<forall>w2. r = GoOn w2 \<longrightarrow> ll_handles w2 h = Some ?hn)"
        by (rule call_turn [OF p r o(1) ns o(3), where old = ?hn])
          (use o(2) sh in \<open>auto simp: set_state_def taken_simps\<close>)
      then obtain err w1 r where c: "call_client env h LLCACHE_EVENT_GOT_CERTS (set_handle h ?hn w) = Some (err, w1)"
        "after_event a u (set_state h LLCACHE_FETCH_HEADERS) err w1 = Some r" "comes_out w a u h r" "agrees env \<longrightarrow> (\<exists>w2. r = GoOn w2)"
        "\<forall>w2. r = GoOn w2 \<longrightarrow> ll_handles w2 h = Some ?hn" by blast
      have "step_certs env a u h objstate w = Some r"
        using True chain o(1) sw ob' c(1,2) by (simp add: step_certs_def)
      then show ?thesis using c(3-5) by (intro step_resultI) auto
    next
      case False
      have "step_certs env a u h objstate w = after_event a u (set_state h LLCACHE_FETCH_HEADERS) NSERROR_OK (set_handle h ?hn w)"
        using True False o(1) sw ob' by (simp add: step_certs_def)
      moreover have "told (set_handle h ?hn w) h" using o sh by (simp add: told_def set_handle_def)
      ultimately show ?thesis using after_silence [OF r o(1) ns, of _ ?hn] o(2) by simp
    qed
  next
    case False
    have "step_certs env a u h objstate w = Some (GoOn w)" using False o(1) by (auto simp: step_certs_def)
    then show ?thesis using stays_ready [OF r, where P = "\<lambda>hn. state_no objstate > 0 \<longrightarrow> lh_state hn \<noteq> LLCACHE_FETCH_INIT" and env = env] False o(1) by auto
  qed
qed

lemma step_headers_result:
  assumes p: "polite env" and r: "ready w a u h" and st: "\<And>ob. ll_objects w a = Some ob \<Longrightarrow> lo_state ob = objstate"
    and was: "\<And>hn. ll_handles w h = Some hn \<Longrightarrow> state_no objstate > 0 \<Longrightarrow> lh_state hn \<noteq> LLCACHE_FETCH_INIT"
  shows "step_result env w a u h (\<lambda>hn. state_no objstate > 1 \<longrightarrow> state_no (lh_state hn) > 1) (step_headers env a u h objstate w)"
proof -
  obtain hn ob where o: "ll_handles w h = Some hn" "lh_object hn = a" "ll_objects w a = Some ob"
    and sy: "story (taken (ll_heard w) h) (lh_state hn) (lh_bytes hn) (lo_source ob)"
    using ready_handle [OF r] by metis
  show ?thesis
  proof (cases "lh_state hn = LLCACHE_FETCH_HEADERS \<and> state_no objstate > state_no LLCACHE_FETCH_HEADERS")
    case True
    let ?hn = "hn\<lparr>lh_state := LLCACHE_FETCH_DATA\<rparr>"
    have ns: "lh_state hn \<noteq> LLCACHE_FETCH_COMPLETE" using True by simp
    have sw: "set_state h LLCACHE_FETCH_DATA w = Some (set_handle h ?hn w)" using o(1) by (simp add: set_state_def)
    have sh: "story (taken (ll_heard w) h) LLCACHE_FETCH_HEADERS (lh_bytes hn) (lo_source ob)"
      "story (taken (ll_heard w) h @ [LLCACHE_EVENT_HAD_HEADERS]) LLCACHE_FETCH_DATA (lh_bytes hn) (lo_source ob)"
      using story_headers sy True by auto
    have "\<exists>err w1 r. call_client env h LLCACHE_EVENT_HAD_HEADERS (set_handle h ?hn w) = Some (err, w1)
        \<and> after_event a u (set_state h LLCACHE_FETCH_HEADERS) err w1 = Some r \<and> comes_out w a u h r
        \<and> (agrees env \<longrightarrow> (\<exists>w2. r = GoOn w2)) \<and> (\<forall>w2. r = GoOn w2 \<longrightarrow> ll_handles w2 h = Some ?hn)"
      by (rule call_turn [OF p r o(1) ns o(3), where old = "hn\<lparr>lh_state := LLCACHE_FETCH_HEADERS\<rparr>"])
        (use o(2) sh in \<open>auto simp: set_state_def taken_simps\<close>)
    then obtain err w1 r where c: "call_client env h LLCACHE_EVENT_HAD_HEADERS (set_handle h ?hn w) = Some (err, w1)"
        "after_event a u (set_state h LLCACHE_FETCH_HEADERS) err w1 = Some r" "comes_out w a u h r" "agrees env \<longrightarrow> (\<exists>w2. r = GoOn w2)"
        "\<forall>w2. r = GoOn w2 \<longrightarrow> ll_handles w2 h = Some ?hn" by blast
    have "step_headers env a u h objstate w = Some r" using True o(1) sw c(1,2) by (simp add: step_headers_def)
    then show ?thesis using c(3-5) by (intro step_resultI) auto
  next
    case False
    have "step_headers env a u h objstate w = Some (GoOn w)" using False o(1) by (auto simp: step_headers_def)
    moreover have "state_no objstate > 1 \<Longrightarrow> state_no (lh_state hn) > 1" using was [OF o(1)] False by (cases "lh_state hn") auto
    ultimately show ?thesis
      using stays_ready [OF r, where P = "\<lambda>hn. state_no objstate > 1 \<longrightarrow> state_no (lh_state hn) > 1" and env = env] o(1) by auto
  qed
qed

lemma step_data_result:
  assumes p: "polite env" and r: "ready w a u h" and st: "\<And>ob. ll_objects w a = Some ob \<Longrightarrow> lo_state ob = objstate \<and> length (lo_source ob) = n"
    and was: "\<And>hn. ll_handles w h = Some hn \<Longrightarrow> state_no objstate > 1 \<Longrightarrow> state_no (lh_state hn) > 1"
  shows "step_result env w a u h (\<lambda>hn. state_no objstate > 1 \<longrightarrow> state_no (lh_state hn) > 1 \<and> lh_bytes hn = n) (step_data env a u h objstate w)"
proof -
  obtain hn ob where o: "ll_handles w h = Some hn" "lh_object hn = a" "ll_objects w a = Some ob" "\<not> lo_stream ob"
    and sy: "story (taken (ll_heard w) h) (lh_state hn) (lh_bytes hn) (lo_source ob)"
    and le: "lh_state hn = LLCACHE_FETCH_COMPLETE \<longrightarrow> lo_state ob = LLCACHE_FETCH_COMPLETE"
    using ready_handle [OF r] by metis
  have n: "n = length (lo_source ob)" using st [OF o(3)] by simp
  show ?thesis
  proof (cases "lh_state hn = LLCACHE_FETCH_DATA \<and> state_no objstate \<ge> state_no LLCACHE_FETCH_DATA \<and> length (lo_source ob) > lh_bytes hn")
    case True
    let ?ev = "LLCACHE_EVENT_HAD_DATA (drop (lh_bytes hn) (lo_source ob))"
    let ?hn = "hn\<lparr>lh_bytes := length (lo_source ob)\<rparr>"
    have ns: "lh_state hn \<noteq> LLCACHE_FETCH_COMPLETE" using True by simp
    have sw: "set_bytes h (length (lo_source ob)) w = Some (set_handle h ?hn w)" using o(1) by (simp add: set_bytes_def)
    have sd: "story (taken (ll_heard w) h) LLCACHE_FETCH_DATA (lh_bytes hn) (lo_source ob)"
      "story (taken (ll_heard w) h @ [?ev]) LLCACHE_FETCH_DATA (length (lo_source ob)) (lo_source ob)"
      using story_data sy True by auto
    have "\<exists>err w1 r. call_client env h ?ev (set_handle h ?hn w) = Some (err, w1)
        \<and> after_event a u (set_bytes h (lh_bytes hn)) err w1 = Some r \<and> comes_out w a u h r
        \<and> (agrees env \<longrightarrow> (\<exists>w2. r = GoOn w2)) \<and> (\<forall>w2. r = GoOn w2 \<longrightarrow> ll_handles w2 h = Some ?hn)"
      by (rule call_turn [OF p r o(1) ns o(3), where old = hn])
        (use o(2) sd le True in \<open>auto simp: set_bytes_def taken_simps\<close>)
    then obtain err w1 r where c: "call_client env h ?ev (set_handle h ?hn w) = Some (err, w1)"
        "after_event a u (set_bytes h (lh_bytes hn)) err w1 = Some r" "comes_out w a u h r" "agrees env \<longrightarrow> (\<exists>w2. r = GoOn w2)"
        "\<forall>w2. r = GoOn w2 \<longrightarrow> ll_handles w2 h = Some ?hn" by blast
    have "step_data env a u h objstate w = Some r" using True o sw c(1,2) by (simp add: step_data_def Let_def)
    then show ?thesis using c(3-5) True n by (intro step_resultI) auto
  next
    case False
    have "step_data env a u h objstate w = Some (GoOn w)" using False o(1,3) by (auto simp: step_data_def)
    moreover have "state_no objstate > 1 \<Longrightarrow> state_no (lh_state hn) > 1 \<and> lh_bytes hn = n"
      using was [OF o(1)] False story_bytes [OF sy] story_complete [of _ _ "lo_source ob"] sy n by (cases "lh_state hn") auto
    ultimately show ?thesis
      using stays_ready [OF r, where P = "\<lambda>hn. state_no objstate > 1 \<longrightarrow> state_no (lh_state hn) > 1 \<and> lh_bytes hn = n" and env = env] o(1) by auto
  qed
qed

lemma step_done_result:
  assumes p: "polite env" and r: "ready w a u h" and st: "\<And>ob. ll_objects w a = Some ob \<Longrightarrow> lo_state ob = objstate \<and> length (lo_source ob) = n"
    and was: "\<And>hn. ll_handles w h = Some hn \<Longrightarrow> state_no objstate > 1 \<Longrightarrow> state_no (lh_state hn) > 1 \<and> lh_bytes hn = n"
  shows "step_result env w a u h (\<lambda>hn. objstate = LLCACHE_FETCH_COMPLETE \<longrightarrow> lh_state hn = LLCACHE_FETCH_COMPLETE) (step_done env a u h objstate w)"
proof -
  obtain hn ob where o: "ll_handles w h = Some hn" "lh_object hn = a" "ll_objects w a = Some ob"
    and sy: "story (taken (ll_heard w) h) (lh_state hn) (lh_bytes hn) (lo_source ob)"
    using ready_handle [OF r] by metis
  have n: "n = length (lo_source ob)" using st [OF o(3)] by simp
  show ?thesis
  proof (cases "lh_state hn = LLCACHE_FETCH_DATA \<and> state_no objstate > state_no LLCACHE_FETCH_DATA")
    case True
    let ?hn = "hn\<lparr>lh_state := LLCACHE_FETCH_COMPLETE\<rparr>"
    have ns: "lh_state hn \<noteq> LLCACHE_FETCH_COMPLETE" using True by simp
    have sw: "set_state h LLCACHE_FETCH_COMPLETE w = Some (set_handle h ?hn w)" using o(1) by (simp add: set_state_def)
    have b: "lh_bytes hn = length (lo_source ob)" using was [OF o(1)] True n by simp
    have sd: "story (taken (ll_heard w) h) LLCACHE_FETCH_DATA (lh_bytes hn) (lo_source ob)"
      "story (taken (ll_heard w) h @ [LLCACHE_EVENT_DONE]) LLCACHE_FETCH_COMPLETE (lh_bytes hn) (lo_source ob)"
      using story_done [of "taken (ll_heard w) h" "lo_source ob"] sy True b by simp_all
    have le: "lo_state ob = LLCACHE_FETCH_COMPLETE" using st [OF o(3)] True by (cases objstate) auto
    have "\<exists>err w1 r. call_client env h LLCACHE_EVENT_DONE (set_handle h ?hn w) = Some (err, w1)
        \<and> after_event a u (set_state h LLCACHE_FETCH_DATA) err w1 = Some r \<and> comes_out w a u h r
        \<and> (agrees env \<longrightarrow> (\<exists>w2. r = GoOn w2)) \<and> (\<forall>w2. r = GoOn w2 \<longrightarrow> ll_handles w2 h = Some ?hn)"
      by (rule call_turn [OF p r o(1) ns o(3), where old = "hn\<lparr>lh_state := LLCACHE_FETCH_DATA\<rparr>"])
        (use o(2) sd le in \<open>auto simp: set_state_def taken_simps\<close>)
    then obtain err w1 r where c: "call_client env h LLCACHE_EVENT_DONE (set_handle h ?hn w) = Some (err, w1)"
        "after_event a u (set_state h LLCACHE_FETCH_DATA) err w1 = Some r" "comes_out w a u h r" "agrees env \<longrightarrow> (\<exists>w2. r = GoOn w2)"
        "\<forall>w2. r = GoOn w2 \<longrightarrow> ll_handles w2 h = Some ?hn" by blast
    have "step_done env a u h objstate w = Some r" using True o(1) sw c(1,2) by (simp add: step_done_def)
    then show ?thesis using c(3-5) by (intro step_resultI) auto
  next
    case False
    have "step_done env a u h objstate w = Some (GoOn w)" using False o(1) by (auto simp: step_done_def)
    moreover have "objstate = LLCACHE_FETCH_COMPLETE \<Longrightarrow> lh_state hn = LLCACHE_FETCH_COMPLETE"
      using was [OF o(1)] False by (cases "lh_state hn") auto
    ultimately show ?thesis
      using stays_ready [OF r, where P = "\<lambda>hn. objstate = LLCACHE_FETCH_COMPLETE \<longrightarrow> lh_state hn = LLCACHE_FETCH_COMPLETE" and env = env] o(1) by auto
  qed
qed

section \<open>The turn of a user\<close>

lemma dropped_same: "dropped w w' a {} \<Longrightarrow> ll_objects w' = ll_objects w"
  by (auto simp: dropped_def fun_eq_iff option.map_ident_strong)

lemma comes_out_trans:
  assumes d: "dropped w w1 a {}" and k: "kept w w1" and c: "comes_out w1 a u h r"
  shows "comes_out w a u h r"
proof -
  have n: "next_user a u w1 = next_user a u w" using next_user_same [of w1 a w u] dropped_same [OF d] by simp
  have t: "dropped w1 w2 a S \<Longrightarrow> dropped w w2 a S" for w2 S using dropped_trans [OF d, of w2 S] by simp
  show ?thesis
  proof (cases r)
    case (NextUser nxt w2)
    then show ?thesis using c told_kept_trans [OF k] t n by (auto simp: comes_out_def)
  next
    case (Stop e w2)
    then show ?thesis using c told_kept_trans [OF k] t by (auto simp: comes_out_def)
  next
    case (GoOn w2)
    then show ?thesis using c told_kept_trans [OF k] t by (auto simp: comes_out_def)
  qed
qed

lemma then_go_result:
  assumes 1: "step_result env w a u h P res"
    and 2: "\<And>w1. ready w1 a u h \<Longrightarrow> ll_objects w1 = ll_objects w \<Longrightarrow> (\<And>hn. ll_handles w1 h = Some hn \<Longrightarrow> P hn) \<Longrightarrow> step_result env w1 a u h Q (f w1)"
  shows "step_result env w a u h Q (then_go res f)"
proof -
  obtain r where r: "res = Some r" "comes_out w a u h r" "agrees env \<longrightarrow> (\<exists>w2. r = GoOn w2)"
    "\<And>w2 hn. r = GoOn w2 \<Longrightarrow> ll_handles w2 h = Some hn \<Longrightarrow> P hn" using 1 by (auto simp: step_result_def)
  show ?thesis
  proof (cases r)
    case (GoOn w1)
    have w1: "ready w1 a u h" "dropped w w1 a {}" "kept w w1" using r(2) GoOn by (auto simp: comes_out_def)
    obtain r' where "f w1 = Some r'" "comes_out w1 a u h r'" "agrees env \<longrightarrow> (\<exists>w2. r' = GoOn w2)"
      "\<And>w2 hn. r' = GoOn w2 \<Longrightarrow> ll_handles w2 h = Some hn \<Longrightarrow> Q hn"
      using 2 [OF w1(1) dropped_same [OF w1(2)] r(4) [OF GoOn]] by (auto simp: step_result_def)
    then show ?thesis using r(1) GoOn comes_out_trans [OF w1(2,3)]
      by (intro step_resultI [of _ r']) (auto simp: then_go_def)
  qed (use r in \<open>auto simp: step_result_def then_go_def\<close>)
qed

lemma start_turn:
  assumes s: "settled w" and ob: "ll_objects w a = Some ob" "u \<in> set (lo_users ob)"
  obtains h where "ll_users w u = Some \<lparr>lu_handle = Some h, lu_target = False, lu_deleted = False\<rparr>"
    "ready (set_user u \<lparr>lu_handle = Some h, lu_target = True, lu_deleted = False\<rparr> w) a u h"
proof -
  have wf: "wf_cache w None" and told: "told w k" and oks: "objects_ok w" for k using s by (simp_all add: settled_def)
  obtain us h hn where u: "ll_users w u = Some us" "lu_handle us = Some h" "ll_handles w h = Some hn" "lh_object hn = a"
    using wf_user [OF wf ob] by blast
  have us: "us = \<lparr>lu_handle = Some h, lu_target = False, lu_deleted = False\<rparr>"
    using wf_flags [OF wf u(1)] u(2) by (cases us) simp
  let ?w = "set_user u \<lparr>lu_handle = Some h, lu_target = True, lu_deleted = False\<rparr> w"
  have "wf_cache ?w (Some u)" by (rule wf_set_user [OF wf u(1)]) (simp_all add: us)
  then have "in_turn_of ?w a u h" using ob u by (simp add: in_turn_of_def set_user_def)
  moreover have "told ?w k" for k using told [of k] by (simp add: told_def set_user_def)
  moreover have "objects_ok ?w" using oks by (simp add: objects_ok_def set_user_def)
  ultimately have "ready ?w a u h" by (simp add: ready_def)
  then show ?thesis using that u(1) us by simp
qed

lemma kept_set_user:
  assumes "ll_users w u = Some us" "lu_handle us' = lu_handle us"
  shows "kept w (set_user u us' w)"
  using assms by (auto simp: kept_def set_user_def)

lemma notify_user_result:
  assumes p: "polite env" and s: "settled w" and ob: "ll_objects w a = Some ob" "lo_users ob = ys @ u # zs"
  shows "\<exists>r. notify_user env a u w = Some r
    \<and> (case r of
        NextUser nxt w1 \<Rightarrow> settled w1 \<and> kept w w1 \<and> nxt = (case zs of [] \<Rightarrow> None | x # _ \<Rightarrow> Some x) \<and> (dropped w w1 a {} \<or> dropped w w1 a {u})
      | Stop e w1 \<Rightarrow> settled w1 \<and> kept w w1 \<and> e \<noteq> NSERROR_OK \<and> (dropped w w1 a {} \<or> dropped w w1 a {u})
      | GoOn w1 \<Rightarrow> False)
    \<and> (agrees env \<longrightarrow> (\<exists>nxt w1. r = NextUser nxt w1 \<and> dropped w w1 a {}
          \<and> (\<forall>us h hn. lo_state ob = LLCACHE_FETCH_COMPLETE \<longrightarrow> ll_users w1 u = Some us \<longrightarrow> lu_handle us = Some h \<longrightarrow> ll_handles w1 h = Some hn
                \<longrightarrow> lh_state hn = LLCACHE_FETCH_COMPLETE)))"
proof -
  have wf: "wf_cache w None" using s by (simp add: settled_def)
  have uin: "u \<in> set (lo_users ob)" "u \<notin> set ys" using ob(2) wf_distinct [OF wf ob(1)] by auto
  obtain h where u: "ll_users w u = Some \<lparr>lu_handle = Some h, lu_target = False, lu_deleted = False\<rparr>"
    and r: "ready (set_user u \<lparr>lu_handle = Some h, lu_target = True, lu_deleted = False\<rparr> w) a u h"
    using start_turn [OF s ob(1) uin(1)] by blast
  let ?w = "set_user u \<lparr>lu_handle = Some h, lu_target = True, lu_deleted = False\<rparr> w"
  have obw: "ll_objects ?w = ll_objects w" by (simp add: set_user_def)
  have kw: "kept w ?w" using kept_set_user [OF u] by simp
  have dw: "dropped w ?w a {}" by (rule dropped_none) (simp_all add: set_user_def)
  let ?steps = "then_go (then_go (then_go (step_certs env a u h (lo_state ob) ?w)
              (step_headers env a u h (lo_state ob)))
              (step_data env a u h (lo_state ob)))
              (step_done env a u h (lo_state ob))"
  have st: "ll_objects x a = Some ox \<Longrightarrow> ll_objects x = ll_objects ?w \<Longrightarrow> lo_state ox = lo_state ob \<and> length (lo_source ox) = length (lo_source ob)" for x ox
    using ob(1) obw by simp
  have "step_result env ?w a u h (\<lambda>hn. lo_state ob = LLCACHE_FETCH_COMPLETE \<longrightarrow> lh_state hn = LLCACHE_FETCH_COMPLETE) ?steps"
    apply (rule then_go_result)
     apply (rule then_go_result)
      apply (rule then_go_result)
       apply (rule step_certs_result [OF p r])
       apply (use st in blast)
      apply (rule step_headers_result [OF p], assumption)
       apply (use st in blast)
      apply blast
     apply (rule step_data_result [OF p], assumption)
      apply (use st in blast)
     apply blast
    apply (rule step_done_result [OF p], assumption)
     apply (use st in blast)
    apply blast
    done
  then obtain q where q: "?steps = Some q" "comes_out ?w a u h q" "agrees env \<longrightarrow> (\<exists>w2. q = GoOn w2)"
    "\<And>w2 hn. q = GoOn w2 \<Longrightarrow> ll_handles w2 h = Some hn \<Longrightarrow> lo_state ob = LLCACHE_FETCH_COMPLETE \<longrightarrow> lh_state hn = LLCACHE_FETCH_COMPLETE"
    unfolding step_result_def by blast
  have q': "comes_out w a u h q" using comes_out_trans [OF dw kw q(2)] .
  have nx: "next_user a u w = Some (case zs of [] \<Rightarrow> None | x # _ \<Rightarrow> Some x)" using next_user_split [OF ob uin(2)] .
  let ?last = "\<lambda>w1. do { us1 \<leftarrow> ll_users w1 u; nxt \<leftarrow> next_user a u w1; Some (NextUser nxt (set_user u (us1\<lparr>lu_target := False\<rparr>) w1)) }"
  have run: "notify_user env a u w = then_go (Some q) ?last"
    using u ob(1) q(1) by (simp add: notify_user_def Let_def)
  show ?thesis
  proof (cases q)
    case (GoOn w1)
    have w1: "ready w1 a u h" "dropped w w1 a {}" "kept w w1" using q' GoOn by (auto simp: comes_out_def)
    have us1: "ll_users w1 u = Some \<lparr>lu_handle = Some h, lu_target = True, lu_deleted = False\<rparr>" using w1(1) by (simp add: ready_def in_turn_of_def)
    let ?w2 = "set_user u \<lparr>lu_handle = Some h, lu_target = False, lu_deleted = False\<rparr> w1"
    have "notify_user env a u w = Some (NextUser (case zs of [] \<Rightarrow> None | x # _ \<Rightarrow> Some x) ?w2)"
      using run GoOn us1 nx next_user_same [of w1 a w u] dropped_same [OF w1(2)] by (simp add: then_go_def)
    moreover have "settled ?w2" using end_turn [of w1 a u h] w1(1) by (simp add: ready_def settled_def told_def objects_ok_def set_user_def)
    moreover have "kept w ?w2" using told_kept_trans [OF w1(3) kept_set_user [OF us1]] by simp
    moreover have "dropped w ?w2 a {}" using w1(2) by (simp add: dropped_def set_user_def)
    moreover have "lo_state ob = LLCACHE_FETCH_COMPLETE \<Longrightarrow> ll_handles ?w2 h = Some hn \<Longrightarrow> lh_state hn = LLCACHE_FETCH_COMPLETE" for hn
      using q(4) [OF GoOn] by (simp add: set_user_def)
    ultimately show ?thesis by (auto simp: set_user_def)
  next
    case (NextUser nxt w1)
    then have "notify_user env a u w = Some q" using run by (simp add: then_go_def)
    then show ?thesis using q' NextUser nx q(3) by (auto simp: comes_out_def)
  next
    case (Stop e w1)
    then have "notify_user env a u w = Some q" using run by (simp add: then_go_def)
    then show ?thesis using q' Stop q(3) by (auto simp: comes_out_def)
  qed
qed

section \<open>The pass over the users\<close>

definition complete_user :: "'w llcache \<Rightarrow> nat \<Rightarrow> bool" where
  "complete_user w u \<longleftrightarrow>
     (\<forall>us h hn. ll_users w u = Some us \<longrightarrow> lu_handle us = Some h \<longrightarrow> ll_handles w h = Some hn \<longrightarrow> lh_state hn = LLCACHE_FETCH_COMPLETE)"

lemma complete_user_kept:
  assumes "kept w w'" "complete_user w u"
  shows "complete_user w' u"
  unfolding complete_user_def
proof (intro allI impI)
  fix us' h hn' assume a: "ll_users w' u = Some us'" "lu_handle us' = Some h" "ll_handles w' h = Some hn'"
  obtain us where us: "ll_users w u = Some us" "lu_handle us = lu_handle us'" using kept_user [OF assms(1) a(1)] .
  obtain hn where hn: "ll_handles w h = Some hn" "lh_state hn = LLCACHE_FETCH_COMPLETE \<Longrightarrow> lh_state hn' = LLCACHE_FETCH_COMPLETE"
    using kept_handle [OF assms(1) a(3)] by metis
  show "lh_state hn' = LLCACHE_FETCH_COMPLETE" using assms(2) us hn a(2) unfolding complete_user_def by metis
qed

lemma dropped_object:
  assumes "dropped w w' a {} \<or> dropped w w' a {u}" "ll_objects w a = Some ob" "lo_users ob = ys @ u # zs" "distinct (lo_users ob)"
  obtains ob' ys' where "ll_objects w' a = Some ob'" "lo_users ob' = ys' @ zs" "lo_state ob' = lo_state ob"
proof (cases "dropped w w' a {}")
  case True
  then show ?thesis using that [of ob "ys @ [u]"] assms(2,3) dropped_same [OF True] by simp
next
  case False
  then have d: "dropped w w' a {u}" using assms(1) by blast
  have u: "u \<notin> set ys" "u \<notin> set zs" using assms(3,4) by auto
  have f: "filter (\<lambda>x. x \<noteq> u) (ys @ u # zs) = ys @ zs"
  proof -
    have "filter (\<lambda>x. x \<noteq> u) ys = ys" "filter (\<lambda>x. x \<noteq> u) zs = zs" using u by (intro filter_True ballI; blast)+
    then show ?thesis by simp
  qed
  have "ll_objects w' a = Some (ob\<lparr>lo_users := filter (\<lambda>x. x \<noteq> u) (lo_users ob)\<rparr>)" using d assms(2) by (simp add: dropped_def)
  then show ?thesis using that [of "ob\<lparr>lo_users := filter (\<lambda>x. x \<noteq> u) (lo_users ob)\<rparr>" ys] assms(3) f by simp
qed

lemma notify_from_result:
  assumes p: "polite env"
  shows "settled w \<Longrightarrow> ll_objects w a = Some ob \<Longrightarrow> lo_users ob = ys @ zs \<Longrightarrow>
    \<exists>e w'. notify_from env a (case zs of [] \<Rightarrow> None | u # _ \<Rightarrow> Some u) w = Some (e, w') \<and> settled w' \<and> kept w w' \<and> (\<exists>S. dropped w w' a S)
      \<and> (agrees env \<longrightarrow> dropped w w' a {} \<and> (lo_state ob = LLCACHE_FETCH_COMPLETE \<longrightarrow> (\<forall>u \<in> set zs. complete_user w' u)))"
proof (induction zs arbitrary: w ob ys)
  case Nil
  have "notify_from env a None w = Some (NSERROR_OK, w)" by (simp add: notify_from.simps)
  moreover have "dropped w w a {}" by (rule dropped_none) simp_all
  ultimately show ?case using Nil.prems(1) told_kept_refl by auto
next
  case (Cons u zs)
  have dist: "distinct (lo_users ob)" using Cons.prems(1,2) wf_distinct unfolding settled_def by blast
  obtain r where r: "notify_user env a u w = Some r"
    and out: "case r of
        NextUser nxt w1 \<Rightarrow> settled w1 \<and> kept w w1 \<and> nxt = (case zs of [] \<Rightarrow> None | x # _ \<Rightarrow> Some x) \<and> (dropped w w1 a {} \<or> dropped w w1 a {u})
      | Stop e w1 \<Rightarrow> settled w1 \<and> kept w w1 \<and> e \<noteq> NSERROR_OK \<and> (dropped w w1 a {} \<or> dropped w w1 a {u})
      | GoOn w1 \<Rightarrow> False"
    and ag: "agrees env \<longrightarrow> (\<exists>nxt w1. r = NextUser nxt w1 \<and> dropped w w1 a {}
          \<and> (\<forall>us h hn. lo_state ob = LLCACHE_FETCH_COMPLETE \<longrightarrow> ll_users w1 u = Some us \<longrightarrow> lu_handle us = Some h \<longrightarrow> ll_handles w1 h = Some hn
                \<longrightarrow> lh_state hn = LLCACHE_FETCH_COMPLETE))"
    using notify_user_result [OF p Cons.prems] by blast
  show ?case
  proof (cases r)
    case (NextUser nxt w1)
    then have w1: "settled w1" "kept w w1" "nxt = (case zs of [] \<Rightarrow> None | x # _ \<Rightarrow> Some x)" "dropped w w1 a {} \<or> dropped w w1 a {u}"
      using out by simp_all
    obtain ob1 ys1 where ob1: "ll_objects w1 a = Some ob1" "lo_users ob1 = ys1 @ zs" "lo_state ob1 = lo_state ob"
      using dropped_object [OF w1(4) Cons.prems(2,3) dist] .
    obtain e w' S where w': "notify_from env a nxt w1 = Some (e, w')" "settled w'" "kept w1 w'" "dropped w1 w' a S"
      "agrees env \<longrightarrow> dropped w1 w' a {} \<and> (lo_state ob1 = LLCACHE_FETCH_COMPLETE \<longrightarrow> (\<forall>u \<in> set zs. complete_user w' u))"
      using Cons.IH [OF w1(1) ob1(1,2)] w1(3) by blast
    have run: "notify_from env a (case u # zs of [] \<Rightarrow> None | u # _ \<Rightarrow> Some u) w = Some (e, w')"
      using w'(1) r NextUser by (simp add: notify_from.simps [of env a "Some u"])
    obtain T where "dropped w w1 a T" using w1(4) by blast
    then have S: "\<exists>S. dropped w w' a S" using dropped_trans w'(4) by blast
    have "agrees env \<Longrightarrow> dropped w w' a {} \<and> (lo_state ob = LLCACHE_FETCH_COMPLETE \<longrightarrow> (\<forall>u \<in> set (u # zs). complete_user w' u))"
    proof -
      assume a: "agrees env"
      then have d: "dropped w w1 a {}" and c: "lo_state ob = LLCACHE_FETCH_COMPLETE \<Longrightarrow> complete_user w1 u"
        using ag NextUser unfolding complete_user_def by auto
      then show ?thesis using dropped_trans [OF d, of w' "{}"] w'(5) a ob1(3) complete_user_kept [OF w'(3)] by auto
    qed
    then show ?thesis using run w'(2) told_kept_trans [OF w1(2) w'(3)] S by blast
  next
    case (Stop e w1)
    then have "notify_from env a (case u # zs of [] \<Rightarrow> None | u # _ \<Rightarrow> Some u) w = Some (e, w1)"
      using r by (simp add: notify_from.simps [of env a "Some u"])
    moreover have "\<not> agrees env" using ag Stop by blast
    ultimately show ?thesis using out Stop by auto
  qed (use out in simp)
qed

section \<open>The pass over the objects\<close>

text \<open>All a pass does to objects is to take users away.\<close>

definition thinner :: "'w llcache \<Rightarrow> 'w llcache \<Rightarrow> bool" where
  "thinner w w' \<longleftrightarrow> ll_cached w' = ll_cached w \<and> ll_uncached w' = ll_uncached w
     \<and> (\<forall>x. ll_objects w x = None \<longrightarrow> ll_objects w' x = None)
     \<and> (\<forall>x ob. ll_objects w x = Some ob \<longrightarrow> (\<exists>us. set us \<subseteq> set (lo_users ob) \<and> ll_objects w' x = Some (ob\<lparr>lo_users := us\<rparr>)))"

lemma thinner_same: "ll_objects w' = ll_objects w \<Longrightarrow> ll_cached w' = ll_cached w \<Longrightarrow> ll_uncached w' = ll_uncached w \<Longrightarrow> thinner w w'"
  unfolding thinner_def by (auto intro: exI [of _ "lo_users _"])

lemma thinner_refl: "thinner w w"
  by (rule thinner_same) simp_all

lemma thinnerD: "thinner w w' \<Longrightarrow> ll_objects w x = Some ob \<Longrightarrow> \<exists>us. set us \<subseteq> set (lo_users ob) \<and> ll_objects w' x = Some (ob\<lparr>lo_users := us\<rparr>)"
  unfolding thinner_def by blast

lemma thinner_None:
  assumes "thinner w w'"
  shows "ll_objects w x = None \<longleftrightarrow> ll_objects w' x = None"
proof (cases "ll_objects w x")
  case None
  then show ?thesis using assms by (simp add: thinner_def)
next
  case (Some ob)
  then show ?thesis using thinnerD [OF assms Some] by auto
qed

lemma thinner_trans:
  assumes "thinner w w1" "thinner w1 w2"
  shows "thinner w w2"
  unfolding thinner_def
proof (intro conjI allI impI)
  fix x ob assume x: "ll_objects w x = Some ob"
  obtain us where us: "set us \<subseteq> set (lo_users ob)" "ll_objects w1 x = Some (ob\<lparr>lo_users := us\<rparr>)" using thinnerD [OF assms(1) x] by blast
  obtain vs where "set vs \<subseteq> set us" "ll_objects w2 x = Some (ob\<lparr>lo_users := vs\<rparr>)" using thinnerD [OF assms(2) us(2)] by auto
  then show "\<exists>us. set us \<subseteq> set (lo_users ob) \<and> ll_objects w2 x = Some (ob\<lparr>lo_users := us\<rparr>)" using us(1) by blast
qed (use assms in \<open>simp_all add: thinner_def\<close>)

lemma dropped_thinner:
  assumes d: "dropped w w' a S"
  shows "thinner w w'"
  unfolding thinner_def
proof (intro conjI allI impI)
  fix x ob assume x: "ll_objects w x = Some ob"
  show "\<exists>us. set us \<subseteq> set (lo_users ob) \<and> ll_objects w' x = Some (ob\<lparr>lo_users := us\<rparr>)"
  proof (intro exI conjI)
    show "set (if x = a then filter (\<lambda>u. u \<notin> S) (lo_users ob) else lo_users ob) \<subseteq> set (lo_users ob)" by auto
    show "ll_objects w' x = Some (ob\<lparr>lo_users := if x = a then filter (\<lambda>u. u \<notin> S) (lo_users ob) else lo_users ob\<rparr>)"
      using d x by (simp add: dropped_def)
  qed
qed (use d in \<open>simp_all add: dropped_def\<close>)

lemma notify_users_result:
  assumes p: "polite env" and s: "settled w" and ob: "ll_objects w a = Some ob"
  shows "\<exists>e w'. llcache_object_notify_users env a w = Some (e, w') \<and> settled w' \<and> kept w w' \<and> thinner w w'
    \<and> (agrees env \<longrightarrow> ll_objects w' = ll_objects w \<and> (lo_state ob = LLCACHE_FETCH_COMPLETE \<longrightarrow> (\<forall>u \<in> set (lo_users ob). complete_user w' u)))"
proof -
  obtain e w' S where "notify_from env a (case lo_users ob of [] \<Rightarrow> None | u # _ \<Rightarrow> Some u) w = Some (e, w')" "settled w'" "kept w w'" "dropped w w' a S"
      "agrees env \<longrightarrow> dropped w w' a {} \<and> (lo_state ob = LLCACHE_FETCH_COMPLETE \<longrightarrow> (\<forall>u \<in> set (lo_users ob). complete_user w' u))"
    using notify_from_result [OF p s ob, of "[]" "lo_users ob"] by auto
  then show ?thesis using ob dropped_thinner dropped_same unfolding llcache_object_notify_users_def by auto
qed

text \<open>All handles of an object that is complete have been told everything.\<close>

definition complete_object :: "'w llcache \<Rightarrow> nat \<Rightarrow> bool" where
  "complete_object w a \<longleftrightarrow>
     (\<forall>h hn ob. ll_handles w h = Some hn \<longrightarrow> lh_object hn = a \<longrightarrow> ll_objects w a = Some ob \<longrightarrow> lo_state ob = LLCACHE_FETCH_COMPLETE
        \<longrightarrow> lh_state hn = LLCACHE_FETCH_COMPLETE)"

lemma complete_object_kept:
  assumes "kept w w'" "ll_objects w' = ll_objects w" "complete_object w a"
  shows "complete_object w' a"
  unfolding complete_object_def
proof (intro allI impI)
  fix h hn' ob assume a: "ll_handles w' h = Some hn'" "lh_object hn' = a" "ll_objects w' a = Some ob" "lo_state ob = LLCACHE_FETCH_COMPLETE"
  obtain hn where hn: "ll_handles w h = Some hn" "lh_object hn' = lh_object hn" "lh_state hn = LLCACHE_FETCH_COMPLETE \<Longrightarrow> lh_state hn' = LLCACHE_FETCH_COMPLETE"
    using kept_handle [OF assms(1) a(1)] by metis
  have "lh_state hn = LLCACHE_FETCH_COMPLETE" using assms(2,3) a(2-4) hn(1,2) unfolding complete_object_def by simp
  then show "lh_state hn' = LLCACHE_FETCH_COMPLETE" by (rule hn(3))
qed

lemma users_complete_object:
  assumes s: "settled w" and ob: "ll_objects w a = Some ob" and c: "lo_state ob = LLCACHE_FETCH_COMPLETE \<longrightarrow> (\<forall>u \<in> set (lo_users ob). complete_user w u)"
  shows "complete_object w a"
  unfolding complete_object_def
proof (intro allI impI)
  fix h hn ob' assume a: "ll_handles w h = Some hn" "lh_object hn = a" "ll_objects w a = Some ob'" "lo_state ob' = LLCACHE_FETCH_COMPLETE"
  have wf: "wf_cache w None" using s by (simp add: settled_def)
  obtain o' u us where u: "ll_objects w (lh_object hn) = Some o'" "u \<in> set (lo_users o')" "ll_users w u = Some us" "lu_handle us = Some h"
    using wf_handle [OF wf a(1)] .
  then have "complete_user w u" using c ob a by simp
  then show "lh_state hn = LLCACHE_FETCH_COMPLETE" using u a(1) by (auto simp: complete_user_def)
qed

lemma notify_objects_result:
  assumes p: "polite env"
  shows "settled w \<Longrightarrow> (\<And>a. a \<in> set as \<Longrightarrow> ll_objects w a \<noteq> None) \<Longrightarrow>
    \<exists>w'. notify_objects env as w = Some w' \<and> settled w' \<and> kept w w' \<and> thinner w w'
      \<and> (agrees env \<longrightarrow> ll_objects w' = ll_objects w \<and> (\<forall>a \<in> set as. complete_object w' a))"
proof (induction as arbitrary: w)
  case Nil
  then show ?case using told_kept_refl thinner_refl by auto
next
  case (Cons a as)
  obtain ob where ob: "ll_objects w a = Some ob" using Cons.prems(2) [of a] by auto
  obtain e w1 where w1: "llcache_object_notify_users env a w = Some (e, w1)" "settled w1" "kept w w1" "thinner w w1"
    "agrees env \<longrightarrow> ll_objects w1 = ll_objects w \<and> (lo_state ob = LLCACHE_FETCH_COMPLETE \<longrightarrow> (\<forall>u \<in> set (lo_users ob). complete_user w1 u))"
    using notify_users_result [OF p Cons.prems(1) ob] by blast
  have "ll_objects w1 x \<noteq> None" if "x \<in> set as" for x using thinner_None [OF w1(4)] Cons.prems(2) [of x] that by auto
  then obtain w2 where w2: "notify_objects env as w1 = Some w2" "settled w2" "kept w1 w2" "thinner w1 w2"
    "agrees env \<longrightarrow> ll_objects w2 = ll_objects w1 \<and> (\<forall>a \<in> set as. complete_object w2 a)"
    using Cons.IH [OF w1(2)] by blast
  have "agrees env \<Longrightarrow> complete_object w2 a"
    using users_complete_object [OF w1(2), of a ob] w1(5) w2(5) ob complete_object_kept [OF w2(3)] by simp
  then show ?case using w1 w2 told_kept_trans [OF w1(3) w2(3)] thinner_trans [OF w1(4) w2(4)] by auto
qed

definition lists_ok :: "'w llcache \<Rightarrow> bool" where
  "lists_ok w \<longleftrightarrow> distinct (ll_cached w @ ll_uncached w) \<and> (\<forall>a. ll_objects w a \<noteq> None \<longleftrightarrow> a \<in> set (ll_cached w @ ll_uncached w))"

lemma lists_ok_thinner: "thinner w w' \<Longrightarrow> lists_ok w \<Longrightarrow> lists_ok w'"
  using thinner_None [of w w'] unfolding lists_ok_def thinner_def by metis

lemma catch_up_result:
  assumes p: "polite env" and s: "settled w" and l: "lists_ok w"
  shows "\<exists>w'. llcache_catch_up_all_users env w = Some w' \<and> settled w' \<and> kept w w' \<and> thinner w w'
      \<and> (agrees env \<longrightarrow> ll_objects w' = ll_objects w \<and> (\<forall>a. complete_object w' a))"
proof -
  let ?w = "w\<lparr>ll_caught_up := True\<rparr>"
  have s0: "settled ?w" using s by (simp add: settled_def wf_cache_def told_def objects_ok_def)
  obtain w1 where w1: "notify_objects env (ll_cached w) ?w = Some w1" "settled w1" "kept ?w w1" "thinner ?w w1"
    "agrees env \<longrightarrow> ll_objects w1 = ll_objects ?w \<and> (\<forall>a \<in> set (ll_cached w). complete_object w1 a)"
    using notify_objects_result [OF p s0, of "ll_cached w"] l unfolding lists_ok_def by auto
  have un: "ll_uncached w1 = ll_uncached w" using w1(4) by (simp add: thinner_def)
  have "ll_objects w1 x \<noteq> None" if "x \<in> set (ll_uncached w1)" for x
    using thinner_None [OF w1(4)] l that un unfolding lists_ok_def by auto
  then obtain w2 where w2: "notify_objects env (ll_uncached w1) w1 = Some w2" "settled w2" "kept w1 w2" "thinner w1 w2"
    "agrees env \<longrightarrow> ll_objects w2 = ll_objects w1 \<and> (\<forall>a \<in> set (ll_uncached w1). complete_object w2 a)"
    using notify_objects_result [OF p w1(2)] by blast
  have k: "kept w ?w" by (simp add: kept_def)
  have t: "thinner w ?w" by (rule thinner_same) simp_all
  have "complete_object w2 x" if a: "agrees env" for x
  proof (cases "ll_objects w2 x = None")
    case True
    then show ?thesis by (simp add: complete_object_def)
  next
    case False
    then have "x \<in> set (ll_cached w) \<or> x \<in> set (ll_uncached w1)" using w2(5) w1(5) a l un unfolding lists_ok_def by auto
    then show ?thesis using w1(5) w2(5) a complete_object_kept [OF w2(3)] by auto
  qed
  then show ?thesis using w1 w2 told_kept_trans [OF told_kept_trans [OF k w1(3)] w2(3)] thinner_trans [OF thinner_trans [OF t w1(4)] w2(4)]
    unfolding llcache_catch_up_all_users_def by auto
qed

end
