(* ===== verification/LlcacheSystem.thy ===== *)
theory LlcacheSystem
  imports LlcacheTurns
begin

text \<open>
  The low-level cache as a system: clients come and go, fetches deliver, passes bring users up to date,
  the cache is cleaned. In every state that is reached each handle has been told its story.
\<close>

section \<open>Events out of turn\<close>

lemma kept_less:
  assumes "\<And>k. ll_handles w' k = None \<or> ll_handles w' k = ll_handles w k"
    and "\<And>v. ll_users w' v = None \<or> map_option lu_handle (ll_users w' v) = map_option lu_handle (ll_users w v)"
  shows "kept w w'"
proof -
  have "\<exists>kn. ll_handles w k = Some kn \<and> lh_object kn' = lh_object kn
        \<and> (lh_state kn = LLCACHE_FETCH_COMPLETE \<longrightarrow> lh_state kn' = LLCACHE_FETCH_COMPLETE)" if "ll_handles w' k = Some kn'" for k kn'
  proof -
    have "ll_handles w k = Some kn'" using assms(1) [of k] that by (metis option.distinct(1))
    then show ?thesis by simp
  qed
  moreover have "\<exists>vs. ll_users w v = Some vs \<and> lu_handle vs = lu_handle vs'" if "ll_users w' v = Some vs'" for v vs'
    using assms(2) [of v] that by (cases "ll_users w v") auto
  ultimately show ?thesis by (simp add: kept_def)
qed

lemma send_turn:
  assumes p: "polite env" and s: "settled w" and ob: "ll_objects w a = Some ob" "lo_users ob = ys @ u # zs" and ev: "\<not> in_turn ev"
  shows "\<exists>err w3. send_event_from env a ev (Some u) w
      = (if err \<noteq> NSERROR_OK then Some (err, w3) else send_event_from env a ev (case zs of [] \<Rightarrow> None | x # _ \<Rightarrow> Some x) w3)
    \<and> settled w3 \<and> kept w w3 \<and> (dropped w w3 a {} \<or> dropped w w3 a {u}) \<and> (\<exists>c h. fst (le_cb env c h ev) = err)"
proof -
  have wf: "wf_cache w None" using s by (simp add: settled_def)
  have uin: "u \<in> set (lo_users ob)" "u \<notin> set ys" using ob(2) wf_distinct [OF wf ob(1)] by auto
  obtain h where u: "ll_users w u = Some \<lparr>lu_handle = Some h, lu_target = False, lu_deleted = False\<rparr>"
    and r: "ready (set_user u \<lparr>lu_handle = Some h, lu_target = True, lu_deleted = False\<rparr> w) a u h"
    using start_turn [OF s ob(1) uin(1)] by blast
  let ?w = "set_user u \<lparr>lu_handle = Some h, lu_target = True, lu_deleted = False\<rparr> w"
  have t: "in_turn_of ?w a u h" using r by (simp add: ready_def)
  have told: "told ?w k" for k using r by (simp add: ready_def)
  have oks: "objects_ok ?w" using r by (simp add: ready_def)
  obtain err d c where call: "call_client env h ev ?w = Some (err, called ?w u h ev err d c)"
    using call_client_turn [OF p t] by blast
  have cb: "fst (le_cb env (ll_client ?w) h ev) = err"
    using call by (auto simp: call_client_def split: prod.splits bind_splits)
  let ?c = "called ?w u h ev err False c"
  have tc: "in_turn_of ?c a u h" using called_False [OF t] .
  have toldc: "told ?c k" for k using told [of k] ev unfolding told_def called_frame by (simp add: taken_simps)
  have oksc: "objects_ok ?c" using oks by (simp add: objects_ok_def called_frame)
  have uc: "ll_users (called ?w u h ev err d c) u = Some \<lparr>lu_handle = Some h, lu_target = True, lu_deleted = d\<rparr>"
    by (simp add: called_def set_user_def)
  have nx: "next_user a u (called ?w u h ev err d c) = Some (case zs of [] \<Rightarrow> None | x # _ \<Rightarrow> Some x)"
    by (rule next_user_split [OF _ ob(2) uin(2)]) (simp add: called_frame set_user_def ob(1))
  let ?e = "set_user u \<lparr>lu_handle = Some h, lu_target = False, lu_deleted = d\<rparr> (called ?w u h ev err d c)"
  have e: "?e = set_user u \<lparr>lu_handle = Some h, lu_target = False, lu_deleted = d\<rparr> ?c"
    by (simp add: called_def set_user_def)
  have rest: "\<exists>w3. (if d then do { x \<leftarrow> llcache_object_remove_user a u ?e; llcache_object_user_destroy u x } else Some ?e) = Some w3
    \<and> settled w3 \<and> kept w w3 \<and> (dropped w w3 a {} \<or> dropped w w3 a {u})"
  proof (cases d)
    case True
    obtain w1 w2 where l: "llcache_object_remove_user a u ?e = Some w1" "llcache_object_user_destroy u w1 = Some w2" "wf_cache w2 None"
      "dropped ?c w2 a {u}" "ll_handles w2 = (ll_handles ?c)(h := None)" "ll_heard w2 = ll_heard ?c" "ll_users w2 = (ll_users ?c)(u := None)"
      using leave_turn [OF tc e] by blast
    have "told w2 k" for k
      by (cases "k = h", use l(5) in \<open>simp add: told_def\<close>, rule dropped_told [OF l(4)]) (use l(5,6) toldc in simp_all)
    then have "settled w2" using l(3) dropped_objects_ok [OF l(4) oksc] by (simp add: settled_def)
    moreover have "dropped w w2 a {u}" using l(4) by (simp add: dropped_def called_frame set_user_def)
    moreover have "kept w w2"
      by (rule kept_less) (simp_all add: l(5,7) called_def set_user_def)
    ultimately show ?thesis using True l(1,2) by auto
  next
    case False
    have "settled ?e" using end_turn [OF tc] toldc oksc False unfolding e by (simp add: settled_def told_def objects_ok_def set_user_def)
    moreover have "dropped w ?e a {}" by (rule dropped_none) (simp_all add: called_frame set_user_def)
    moreover have "kept w ?e" by (rule kept_less) (use u in \<open>simp_all add: called_def set_user_def\<close>)
    ultimately show ?thesis using False by auto
  qed
  then obtain w3 where w3: "(if d then do { x \<leftarrow> llcache_object_remove_user a u ?e; llcache_object_user_destroy u x } else Some ?e) = Some w3"
    "settled w3" "kept w w3" "dropped w w3 a {} \<or> dropped w w3 a {u}" by blast
  have "send_event_from env a ev (Some u) w
      = (if err \<noteq> NSERROR_OK then Some (err, w3) else send_event_from env a ev (case zs of [] \<Rightarrow> None | x # _ \<Rightarrow> Some x) w3)"
  proof (cases d)
    case True
    then obtain x where "llcache_object_remove_user a u ?e = Some x" "llcache_object_user_destroy u x = Some w3"
      using w3(1) by (auto simp: bind_eq_Some_conv)
    then show ?thesis using u call nx uc True by (simp add: send_event_from.simps [of env a ev "Some u"] Let_def)
  next
    case False
    then show ?thesis using u call nx uc w3(1) by (simp add: send_event_from.simps [of env a ev "Some u"] Let_def)
  qed
  then show ?thesis using w3 cb by blast
qed

lemma send_from_result:
  assumes p: "polite env" and ev: "\<not> in_turn ev"
  shows "settled w \<Longrightarrow> ll_objects w a = Some ob \<Longrightarrow> lo_users ob = ys @ zs \<Longrightarrow>
    \<exists>e w'. send_event_from env a ev (case zs of [] \<Rightarrow> None | u # _ \<Rightarrow> Some u) w = Some (e, w') \<and> settled w' \<and> kept w w' \<and> (\<exists>S. dropped w w' a S)
      \<and> (e = NSERROR_OK \<or> (\<exists>c h. fst (le_cb env c h ev) = e))"
proof (induction zs arbitrary: w ob ys)
  case Nil
  have "send_event_from env a ev None w = Some (NSERROR_OK, w)" by (simp add: send_event_from.simps)
  moreover have "dropped w w a {}" by (rule dropped_none) simp_all
  ultimately show ?case using Nil.prems(1) told_kept_refl by auto
next
  case (Cons u zs)
  have dist: "distinct (lo_users ob)" using Cons.prems(1,2) wf_distinct unfolding settled_def by blast
  obtain err w1 where w1: "send_event_from env a ev (Some u) w
      = (if err \<noteq> NSERROR_OK then Some (err, w1) else send_event_from env a ev (case zs of [] \<Rightarrow> None | x # _ \<Rightarrow> Some x) w1)"
    "settled w1" "kept w w1" "dropped w w1 a {} \<or> dropped w w1 a {u}" "\<exists>c h. fst (le_cb env c h ev) = err"
    using send_turn [OF p Cons.prems ev] by blast
  show ?case
  proof (cases "err = NSERROR_OK")
    case False
    then show ?thesis using w1 by auto
  next
    case True
    obtain ob1 ys1 where ob1: "ll_objects w1 a = Some ob1" "lo_users ob1 = ys1 @ zs" "lo_state ob1 = lo_state ob"
      using dropped_object [OF w1(4) Cons.prems(2,3) dist] .
    obtain e w' S where w': "send_event_from env a ev (case zs of [] \<Rightarrow> None | u # _ \<Rightarrow> Some u) w1 = Some (e, w')" "settled w'" "kept w1 w'" "dropped w1 w' a S"
      "e = NSERROR_OK \<or> (\<exists>c h. fst (le_cb env c h ev) = e)"
      using Cons.IH [OF w1(2) ob1(1,2)] by blast
    obtain T where "dropped w w1 a T" using w1(4) by blast
    then have "\<exists>S. dropped w w' a S" using dropped_trans w'(4) by blast
    moreover have "send_event_from env a ev (case u # zs of [] \<Rightarrow> None | u # _ \<Rightarrow> Some u) w = Some (e, w')"
      using w1(1) True w'(1) by simp
    ultimately show ?thesis using w'(2,5) told_kept_trans [OF w1(3) w'(3)] by blast
  qed
qed

lemma send_event_result:
  assumes p: "polite env" and ev: "\<not> in_turn ev" and s: "settled w" and ob: "ll_objects w a = Some ob"
  shows "\<exists>e w'. llcache_send_event_to_users env a ev w = Some (e, w') \<and> settled w' \<and> kept w w' \<and> thinner w w'
      \<and> (e = NSERROR_OK \<or> (\<exists>c h. fst (le_cb env c h ev) = e))"
proof -
  obtain e w' S where "send_event_from env a ev (case lo_users ob of [] \<Rightarrow> None | u # _ \<Rightarrow> Some u) w = Some (e, w')" "settled w'" "kept w w'"
    "dropped w w' a S" "e = NSERROR_OK \<or> (\<exists>c h. fst (le_cb env c h ev) = e)"
    using send_from_result [OF p ev s ob, of "[]" "lo_users ob", OF append_Nil [symmetric]] by blast
  then show ?thesis using ob dropped_thinner unfolding llcache_send_event_to_users_def by (intro exI [of _ e] exI [of _ w']) auto
qed

section \<open>Changes between passes\<close>

lemma set_object_settled:
  assumes s: "settled w" and ob: "ll_objects w a = Some ob" and us: "lo_users ob' = lo_users ob"
    and fine: "\<not> lo_stream ob'" "lo_candidate ob' = None" "lo_state ob' = LLCACHE_FETCH_COMPLETE \<longrightarrow> \<not> lo_fetching ob'"
    and st: "lo_state ob = LLCACHE_FETCH_COMPLETE \<longrightarrow> lo_state ob' = LLCACHE_FETCH_COMPLETE"
    and src: "lo_source ob' = lo_source ob @ d" "lo_state ob = LLCACHE_FETCH_COMPLETE \<longrightarrow> d = []"
  shows "settled (set_object a ob' w)"
proof -
  let ?w = "set_object a ob' w"
  have wf: "wf_cache w None" and told: "told w k" and oks: "objects_ok w" for k using s by (simp_all add: settled_def)
  have up: "\<exists>ox'. ll_objects ?w x = Some ox' \<and> lo_users ox' = lo_users ox" if "ll_objects w x = Some ox" for x ox
    using that ob us by (cases "x = a") (auto simp: set_object_def)
  have down: "\<exists>ox. ll_objects w x = Some ox \<and> lo_users ox = lo_users ox'" if "ll_objects ?w x = Some ox'" for x ox'
    using that ob us by (cases "x = a") (auto simp: set_object_def)
  have same: "ll_users ?w = ll_users w" "ll_handles ?w = ll_handles w" "ll_heard ?w = ll_heard w" by (simp_all add: set_object_def)
  have "wf_cache ?w None"
    unfolding wf_cache_def same
  proof (intro conjI allI impI ballI)
    fix x ox' assume "ll_objects ?w x = Some ox'"
    then obtain ox where ox: "ll_objects w x = Some ox" "lo_users ox = lo_users ox'" using down by blast
    show "distinct (lo_users ox')" using wf_distinct [OF wf ox(1)] ox(2) by simp
    fix v assume "v \<in> set (lo_users ox')"
    then show "\<exists>us h hn. ll_users w v = Some us \<and> lu_handle us = Some h \<and> ll_handles w h = Some hn \<and> lh_object hn = x"
      using wf_user [OF wf ox(1), of v] ox(2) by metis
  next
    fix v vs assume "ll_users w v = Some vs"
    then show "lu_target vs \<longleftrightarrow> None = Some v" "lu_deleted vs \<Longrightarrow> None = Some v" using wf_flags [OF wf] by blast+
  next
    fix v v' vs vs' k
    assume "ll_users w v = Some vs" "ll_users w v' = Some vs'" "lu_handle vs = Some k" "lu_handle vs' = Some k"
    then show "v = v'" using wf_same_handle [OF wf] by blast
  next
    fix k kn assume "ll_handles w k = Some kn"
    then show "\<exists>ob u us. ll_objects ?w (lh_object kn) = Some ob \<and> u \<in> set (lo_users ob) \<and> ll_users w u = Some us \<and> lu_handle us = Some k"
      using wf_handle [OF wf, of k kn] up by metis
  qed
  moreover have "told ?w k" for k
    unfolding told_def same
  proof (intro allI impI)
    fix kn ox assume k: "ll_handles w k = Some kn" and ox: "ll_objects ?w (lh_object kn) = Some ox"
    show "story (taken (ll_heard w) k) (lh_state kn) (lh_bytes kn) (lo_source ox) \<and> (lh_state kn = LLCACHE_FETCH_COMPLETE \<longrightarrow> lo_state ox = LLCACHE_FETCH_COMPLETE)"
    proof (cases "lh_object kn = a")
      case True
      then have old: "story (taken (ll_heard w) k) (lh_state kn) (lh_bytes kn) (lo_source ob)"
        "lh_state kn = LLCACHE_FETCH_COMPLETE \<longrightarrow> lo_state ob = LLCACHE_FETCH_COMPLETE"
        using told [of k] k ob unfolding told_def by blast+
      have "ox = ob'" using ox True by (simp add: set_object_def)
      then show ?thesis using old st src story_grows [OF old(1), of d] by (cases "lh_state kn = LLCACHE_FETCH_COMPLETE") auto
    next
      case False
      then show ?thesis using told [of k] k ox unfolding told_def by (simp add: set_object_def)
    qed
  qed
  moreover have "objects_ok ?w" using oks fine unfolding objects_ok_def by (simp add: set_object_def)
  ultimately show ?thesis by (simp add: settled_def)
qed

definition sound :: "'w llcache \<Rightarrow> bool" where
  "sound w \<longleftrightarrow> settled w \<and> lists_ok w"

lemma set_object_sound:
  assumes "sound w" "ll_objects w a = Some ob" "lo_users ob' = lo_users ob" "\<not> lo_stream ob'" "lo_candidate ob' = None"
    "lo_state ob' = LLCACHE_FETCH_COMPLETE \<longrightarrow> \<not> lo_fetching ob'" "lo_state ob = LLCACHE_FETCH_COMPLETE \<longrightarrow> lo_state ob' = LLCACHE_FETCH_COMPLETE"
    "lo_source ob' = lo_source ob @ d" "lo_state ob = LLCACHE_FETCH_COMPLETE \<longrightarrow> d = []"
  shows "sound (set_object a ob' w)"
  using set_object_settled [OF _ assms(2-9)] assms(1,2) by (auto simp: sound_def lists_ok_def set_object_def)

lemma sound_flags: "sound (w\<lparr>ll_caught_up := c, ll_scheduled := n\<rparr>) \<longleftrightarrow> sound w"
  by (simp add: sound_def settled_def wf_cache_def told_def objects_ok_def lists_ok_def)

lemma not_caught_up_sound: "sound (llcache_users_not_caught_up w) \<longleftrightarrow> sound w"
  by (simp add: llcache_users_not_caught_up_def sound_flags)

lemma sound_object:
  assumes "sound w" "ll_objects w a = Some ob"
  shows "\<not> lo_stream ob" "lo_candidate ob = None" "lo_fetching ob \<Longrightarrow> lo_state ob \<noteq> LLCACHE_FETCH_COMPLETE"
  using assms by (auto simp: sound_def settled_def objects_ok_def)

section \<open>Cleaning\<close>

lemma discard_sound:
  assumes s: "sound w" and ob: "ll_objects w a = Some ob" "lo_users ob = []"
    and l: "a \<in> set (case l of CachedObjects \<Rightarrow> ll_cached w | UncachedObjects \<Rightarrow> ll_uncached w)"
  shows "\<exists>w1. llcache_object_destroy a (llcache_object_remove_from_list a l w) = Some w1 \<and> sound w1
    \<and> ll_objects w1 = (ll_objects w)(a := None) \<and> ll_handles w1 = ll_handles w \<and> ll_users w1 = ll_users w \<and> ll_heard w1 = ll_heard w
    \<and> ll_cached w1 = (if l = CachedObjects then remove1 a (ll_cached w) else ll_cached w)
    \<and> ll_uncached w1 = (if l = UncachedObjects then remove1 a (ll_uncached w) else ll_uncached w)"
proof -
  let ?r = "llcache_object_remove_from_list a l w"
  let ?w = "?r\<lparr>ll_objects := (ll_objects ?r)(a := None)\<rparr>"
  have fr: "ll_objects ?w = (ll_objects w)(a := None)" "ll_handles ?w = ll_handles w" "ll_users ?w = ll_users w" "ll_heard ?w = ll_heard w"
    "ll_cached ?w = (if l = CachedObjects then remove1 a (ll_cached w) else ll_cached w)"
    "ll_uncached ?w = (if l = UncachedObjects then remove1 a (ll_uncached w) else ll_uncached w)"
    by (cases l; simp add: llcache_object_remove_from_list_def)+
  have run: "llcache_object_destroy a ?r = Some ?w" using ob by (cases l) (simp_all add: llcache_object_destroy_def llcache_object_remove_from_list_def)
  have wf: "wf_cache w None" and told: "told w k" and oks: "objects_ok w" and lo: "lists_ok w" for k
    using s by (simp_all add: settled_def sound_def)
  have na: "lh_object kn \<noteq> a" if "ll_handles w k = Some kn" for k kn
    using wf_handle [OF wf that] ob by (metis empty_iff empty_set option.inject)
  have "wf_cache ?w None"
    unfolding wf_cache_def fr
  proof (intro conjI allI impI ballI)
    fix x ox assume "((ll_objects w)(a := None)) x = Some ox"
    then have x: "ll_objects w x = Some ox" by (simp split: if_splits)
    show "distinct (lo_users ox)" using wf_distinct [OF wf x] .
    fix v assume "v \<in> set (lo_users ox)"
    then show "\<exists>us h hn. ll_users w v = Some us \<and> lu_handle us = Some h \<and> ll_handles w h = Some hn \<and> lh_object hn = x"
      using wf_user [OF wf x] by metis
  next
    fix v vs assume "ll_users w v = Some vs"
    then show "lu_target vs \<longleftrightarrow> None = Some v" "lu_deleted vs \<Longrightarrow> None = Some v" using wf_flags [OF wf] by blast+
  next
    fix v v' vs vs' k
    assume "ll_users w v = Some vs" "ll_users w v' = Some vs'" "lu_handle vs = Some k" "lu_handle vs' = Some k"
    then show "v = v'" using wf_same_handle [OF wf] by blast
  next
    fix k kn assume k: "ll_handles w k = Some kn"
    then show "\<exists>ob u us. ((ll_objects w)(a := None)) (lh_object kn) = Some ob \<and> u \<in> set (lo_users ob) \<and> ll_users w u = Some us \<and> lu_handle us = Some k"
      using wf_handle [OF wf k] na [OF k] by (metis fun_upd_other)
  qed
  moreover have "told ?w k" for k using told [of k] unfolding told_def fr by simp
  moreover have "objects_ok ?w" using oks unfolding objects_ok_def fr by simp
  moreover have "lists_ok ?w"
    using lo l ob unfolding lists_ok_def fr by (cases l) (auto simp: distinct_remove1 set_remove1_eq dest: set_remove1_subset [THEN subsetD])
  ultimately have "sound ?w" by (simp add: sound_def settled_def)
  then show ?thesis using run fr by blast
qed

text \<open>What cleaning does: only objects without users, fetch or claim as a candidate are gone.\<close>

definition cleaned :: "'w llcache \<Rightarrow> 'w llcache \<Rightarrow> bool" where
  "cleaned w w' \<longleftrightarrow> ll_handles w' = ll_handles w \<and> ll_users w' = ll_users w \<and> ll_heard w' = ll_heard w
     \<and> (\<forall>x. ll_objects w' x = ll_objects w x \<or> ll_objects w' x = None \<and> (\<exists>ob. ll_objects w x = Some ob \<and> idle ob))"

lemma cleaned_refl: "cleaned w w"
  by (simp add: cleaned_def)

lemma cleaned_trans:
  assumes "cleaned w w1" "cleaned w1 w2"
  shows "cleaned w w2"
proof -
  have "ll_objects w2 x = ll_objects w x \<or> ll_objects w2 x = None \<and> (\<exists>ob. ll_objects w x = Some ob \<and> idle ob)" for x
    using assms unfolding cleaned_def by (metis option.distinct(1))
  then show ?thesis using assms by (simp add: cleaned_def)
qed

lemma cleaned_keeps:
  assumes "cleaned w w'" "ll_objects w a = Some ob" "\<not> idle ob"
  shows "ll_objects w' a = Some ob"
  using assms unfolding cleaned_def by (metis option.inject)

abbreviation list_of :: "cache_list \<Rightarrow> 'w llcache \<Rightarrow> nat list" where
  "list_of l w \<equiv> (case l of CachedObjects \<Rightarrow> ll_cached w | UncachedObjects \<Rightarrow> ll_uncached w)"

lemma discard_step:
  assumes s: "sound w" and as: "distinct (a # as)" "set (a # as) \<subseteq> set (list_of l w)" and ob: "ll_objects w a = Some ob" "idle ob"
  shows "\<exists>w1. llcache_object_destroy a (llcache_object_remove_from_list a l w) = Some w1 \<and> sound w1 \<and> cleaned w w1 \<and> set as \<subseteq> set (list_of l w1)"
proof -
  have "lo_users ob = []" "a \<in> set (list_of l w)" using ob(2) as(2) by (simp_all add: idle_def)
  from discard_sound [OF s ob(1) this] obtain w1 where w1: "llcache_object_destroy a (llcache_object_remove_from_list a l w) = Some w1" "sound w1"
    "ll_objects w1 = (ll_objects w)(a := None)" "ll_handles w1 = ll_handles w" "ll_users w1 = ll_users w" "ll_heard w1 = ll_heard w"
    "ll_cached w1 = (if l = CachedObjects then remove1 a (ll_cached w) else ll_cached w)"
    "ll_uncached w1 = (if l = UncachedObjects then remove1 a (ll_uncached w) else ll_uncached w)" by blast
  have "cleaned w w1" using w1(3-6) ob by (simp add: cleaned_def)
  moreover have "list_of l w1 = remove1 a (list_of l w)" using w1(7,8) by (cases l) auto
  then have "set as \<subseteq> set (list_of l w1)" using as by (auto intro!: in_set_remove1 [THEN iffD2])
  ultimately show ?thesis using w1(1,2) by blast
qed

lemma listed_object:
  assumes "sound w" "a \<in> set (list_of l w)"
  obtains ob where "ll_objects w a = Some ob"
  using assms unfolding sound_def lists_ok_def by (cases l) auto

lemma clean_list_result:
  "sound w \<Longrightarrow> distinct as \<Longrightarrow> set as \<subseteq> set (list_of l w) \<Longrightarrow>
    \<exists>w' sz'. clean_list env l as w sz = Some (w', sz') \<and> sound w' \<and> cleaned w w'"
proof (induction as arbitrary: w sz)
  case Nil
  then show ?case using cleaned_refl by auto
next
  case (Cons a as)
  obtain ob where ob: "ll_objects w a = Some ob" using listed_object [OF Cons.prems(1), of a l] Cons.prems(3) by auto
  show ?case
  proof (cases "idle ob \<and> (l = CachedObjects \<longrightarrow> llcache_object_rfc2616_remaining_lifetime (le_now env) (lo_cache ob) \<le> 0)")
    case True
    then obtain w1 where w1: "llcache_object_destroy a (llcache_object_remove_from_list a l w) = Some w1" "sound w1" "cleaned w w1"
      "set as \<subseteq> set (list_of l w1)" using discard_step [OF Cons.prems ob] by blast
    obtain w' sz' where w': "clean_list env l as w1 sz = Some (w', sz')" "sound w'" "cleaned w1 w'"
      using Cons.IH [OF w1(2) _ w1(4), of sz] Cons.prems(2) by (metis distinct.simps(2))
    have "clean_list env l (a # as) w sz = Some (w', sz')" using True ob w1(1) w'(1) by simp
    then show ?thesis using w'(2) cleaned_trans [OF w1(3) w'(3)] by blast
  next
    case False
    obtain w' sz' where w': "clean_list env l as w (sz + total_object_size env ob) = Some (w', sz')" "sound w'" "cleaned w w'"
      using Cons.IH [OF Cons.prems(1)] Cons.prems(2,3) by (metis distinct.simps(2) set_subset_Cons subset_trans)
    have "clean_list env l (a # as) w sz = Some (w', sz')" using False ob w'(1) by auto
    then show ?thesis using w'(2,3) by blast
  qed
qed

lemma clean_fresh_result:
  "sound w \<Longrightarrow> distinct as \<Longrightarrow> set as \<subseteq> set (list_of CachedObjects w) \<Longrightarrow> \<exists>w'. clean_fresh env limit as w sz = Some w' \<and> sound w' \<and> cleaned w w'"
proof (induction as arbitrary: w sz)
  case Nil
  then show ?case using cleaned_refl by auto
next
  case (Cons a as)
  obtain ob where ob: "ll_objects w a = Some ob" using listed_object [OF Cons.prems(1), of a CachedObjects] Cons.prems(3) by auto
  show ?case
  proof (cases "limit < sz")
    case False
    then show ?thesis using Cons.prems(1) cleaned_refl by auto
  next
    case big: True
    show ?thesis
    proof (cases "idle ob")
      case True
      then obtain w1 where w1: "llcache_object_destroy a (llcache_object_remove_from_list a CachedObjects w) = Some w1" "sound w1" "cleaned w w1"
        "set as \<subseteq> set (list_of CachedObjects w1)" using discard_step [OF Cons.prems ob] by blast
      obtain w' where w': "clean_fresh env limit as w1 (sz - (of_nat (length (lo_source ob)) + le_sizeof env)) = Some w'" "sound w'" "cleaned w1 w'"
        using Cons.IH [OF w1(2) _ w1(4)] Cons.prems(2) by auto
      have "clean_fresh env limit (a # as) w sz = Some w'" using True big ob w1(1) w'(1) by simp
      then show ?thesis using w'(2) cleaned_trans [OF w1(3) w'(3)] by blast
    next
      case False
      obtain w' where w': "clean_fresh env limit as w sz = Some w'" "sound w'" "cleaned w w'"
        using Cons.IH [OF Cons.prems(1)] Cons.prems(2,3) by (metis distinct.simps(2) set_subset_Cons subset_trans)
      have "clean_fresh env limit (a # as) w sz = Some w'" using False big ob w'(1) by simp
      then show ?thesis using w'(2,3) by blast
    qed
  qed
qed

lemma clean_result:
  assumes "sound w"
  shows "\<exists>w'. llcache_clean env purge w = Some w' \<and> sound w' \<and> cleaned w w'"
proof -
  have d: "distinct (ll_cached x)" "distinct (ll_uncached x)" if "sound x" for x :: "'a llcache"
    using that by (auto simp: sound_def lists_ok_def)
  obtain w1 s1 where w1: "clean_list env UncachedObjects (ll_uncached w) w 0 = Some (w1, s1)" "sound w1" "cleaned w w1"
    using clean_list_result [OF assms d(2) [OF assms], of UncachedObjects env 0] by auto
  obtain w2 s2 where w2: "clean_list env CachedObjects (ll_cached w1) w1 s1 = Some (w2, s2)" "sound w2" "cleaned w1 w2"
    using clean_list_result [OF w1(2) d(1) [OF w1(2)], of CachedObjects env s1] by auto
  obtain w3 where w3: "clean_fresh env (if purge then 0 else le_limit env) (ll_cached w2) w2 s2 = Some w3" "sound w3" "cleaned w2 w3"
    using clean_fresh_result [OF w2(2) d(1) [OF w2(2)], where limit = "if purge then 0 else le_limit env" and sz = s2 and env = env] by auto
  show ?thesis using w1(1) w2(1) w3(1,2) cleaned_trans [OF cleaned_trans [OF w1(3) w2(3)] w3(3)] by (simp add: llcache_clean_def Let_def)
qed

section \<open>Messages\<close>

text \<open>A client that answers an error with \<open>NSERROR_NOMEM\<close> is left out: see below.\<close>

definition tame :: "'w llcache_env \<Rightarrow> bool" where
  "tame env \<longleftrightarrow> polite env \<and> (\<forall>c h e m. fst (le_cb env c h (LLCACHE_EVENT_ERROR e m)) \<noteq> NSERROR_NOMEM)"

lemma after_message_result:
  assumes s: "sound w" and ob: "ll_objects w a = Some ob" and n: "e = NSERROR_NOMEM \<Longrightarrow> lo_fetching ob"
  shows "\<exists>w'. after_message env a (e, w) = Some w' \<and> sound w'"
proof (cases "e = NSERROR_OK")
  case True
  then show ?thesis using s by (simp add: after_message_def not_caught_up_sound)
next
  case False
  have "\<exists>w2. (if e = NSERROR_NOMEM then llcache_clean env True w else Some w) = Some w2 \<and> sound w2 \<and> ll_objects w2 a = Some ob"
  proof (cases "e = NSERROR_NOMEM")
    case True
    obtain w2 where w2: "llcache_clean env True w = Some w2" "sound w2" "cleaned w w2" using clean_result [OF s] by blast
    have "ll_objects w2 a = Some ob" using cleaned_keeps [OF w2(3) ob] n [OF True] by (simp add: idle_def)
    then show ?thesis using w2(1,2) True by simp
  next
    case no: False
    then show ?thesis using s ob by simp
  qed
  then obtain w2 where w2: "(if e = NSERROR_NOMEM then llcache_clean env True w else Some w) = Some w2" "sound w2" "ll_objects w2 a = Some ob" by blast
  let ?ob = "(llcache_invalidate_cache_control_data ob)\<lparr>lo_fetching := False, lo_state := LLCACHE_FETCH_COMPLETE\<rparr>"
  let ?w3 = "if lo_fetching ob then set_object a ?ob w2 else w2"
  have "sound (set_object a ?ob w2)"
    by (rule set_object_sound [OF w2(2,3), of _ "[]"]) (use sound_object [OF w2(2,3)] in \<open>simp_all add: llcache_invalidate_cache_control_data_def\<close>)
  then have "sound ?w3" using w2(2) by simp
  moreover have "after_message env a (e, w) = Some (llcache_users_not_caught_up ?w3)"
    using False w2 by (simp add: after_message_def split: if_splits)
  ultimately show ?thesis by (simp add: not_caught_up_sound)
qed

lemma release_candidate_none: "ll_objects w a = Some ob \<Longrightarrow> lo_candidate ob = None \<Longrightarrow> release_candidate a w = Some w"
  by (simp add: release_candidate_def)

lemma process_data_result:
  assumes s: "sound w" and ob: "ll_objects w a = Some ob" "lo_fetching ob"
  shows "\<exists>e w1 ob1. llcache_fetch_process_data env a data w = Some (e, w1) \<and> sound w1 \<and> ll_objects w1 a = Some ob1 \<and> lo_fetching ob1"
proof -
  note o = sound_object [OF s ob(1)]
  define inval where "inval \<longleftrightarrow> le_http_code env \<noteq> 200 \<and> le_http_code env \<noteq> 203
      \<or> lo_query ob \<and> cc_max_age (lo_cache ob) = INVALID_AGE \<and> cc_expires (lo_cache ob) = 0"
  define ob1 where "ob1 = (if inval then llcache_invalidate_cache_control_data ob else ob)"
  define ob2 where "ob2 = (if lo_state ob \<noteq> LLCACHE_FETCH_DATA then ob1\<lparr>lo_state := LLCACHE_FETCH_DATA\<rparr> else ob)"
  have f: "lo_users ob2 = lo_users ob" "lo_stream ob2 = lo_stream ob" "lo_candidate ob2 = None" "lo_fetching ob2"
    "lo_source ob2 = lo_source ob" "lo_state ob2 = LLCACHE_FETCH_DATA" "lo_candidate ob1 = None"
    using o(2) ob(2) by (simp_all add: ob2_def ob1_def llcache_invalidate_cache_control_data_def)
  define w2 where "w2 = (if lo_state ob \<noteq> LLCACHE_FETCH_DATA then set_object a ob2 (set_object a ob1 w) else w)"
  have w2: "ll_objects w2 a = Some ob2" using ob(1) by (simp add: w2_def ob2_def set_object_def)
  have eq: "set_object a x (set_object a y w) = set_object a x w" for x y by (simp add: set_object_def)
  have rc: "release_candidate a (set_object a ob1 w) = Some (set_object a ob1 w)"
    by (rule release_candidate_none [OF _ f(7)]) (simp add: set_object_def)
  have step: "(if lo_state ob \<noteq> LLCACHE_FETCH_DATA then
                   do { let ob1 = (if le_http_code env \<noteq> 200 \<and> le_http_code env \<noteq> 203
                                      \<or> lo_query ob \<and> cc_max_age (lo_cache ob) = INVALID_AGE \<and> cc_expires (lo_cache ob) = 0
                                   then llcache_invalidate_cache_control_data ob else ob);
                        w2 \<leftarrow> release_candidate a (set_object a ob1 w);
                        ob2 \<leftarrow> ll_objects w2 a;
                        Some (set_object a (ob2\<lparr>lo_state := LLCACHE_FETCH_DATA\<rparr>) w2) }
                 else Some w) = Some w2"
    using rc unfolding inval_def [symmetric] ob1_def [symmetric] Let_def by (simp add: w2_def ob2_def set_object_def)
  have s2: "sound w2"
  proof (cases "lo_state ob = LLCACHE_FETCH_DATA")
    case True
    then show ?thesis using s by (simp add: w2_def)
  next
    case False
    have "sound (set_object a ob2 w)"
      by (rule set_object_sound [OF s ob(1), of _ "[]"]) (use f o(1,3) ob(2) in simp_all)
    then show ?thesis using False by (simp add: w2_def eq)
  qed
  show ?thesis
  proof (cases "le_grow env (length (lo_source ob2) + length data)")
    case True
    let ?w = "set_object a (ob2\<lparr>lo_source := lo_source ob2 @ data\<rparr>) w2"
    have "sound ?w" by (rule set_object_sound [OF s2 w2, of _ data]) (use f o(1) in simp_all)
    moreover have "llcache_fetch_process_data env a data w = Some (NSERROR_OK, ?w)"
      unfolding llcache_fetch_process_data_def using ob(1) step w2 True by simp
    ultimately show ?thesis using f(4) by (auto simp: set_object_def)
  next
    case False
    have "llcache_fetch_process_data env a data w = Some (NSERROR_NOMEM, w2)"
      unfolding llcache_fetch_process_data_def using ob(1) step w2 False by simp
    then show ?thesis using s2 w2 f(4) by blast
  qed
qed

text \<open>An event out of turn, followed by what all branches share.\<close>

lemma sent_sound:
  assumes p: "polite env" and ev: "\<not> in_turn ev" and s: "sound w" and ob: "ll_objects w a = Some ob"
    and n: "(\<exists>c h. fst (le_cb env c h ev) = NSERROR_NOMEM) \<Longrightarrow> lo_fetching ob"
  shows "\<exists>e w1 w'. llcache_send_event_to_users env a ev w = Some (e, w1) \<and> after_message env a (e, w1) = Some w' \<and> sound w'"
proof -
  have s0: "settled w" "lists_ok w" using s by (simp_all add: sound_def)
  obtain e w1 where w1: "llcache_send_event_to_users env a ev w = Some (e, w1)" "settled w1" "thinner w w1"
    "e = NSERROR_OK \<or> (\<exists>c h. fst (le_cb env c h ev) = e)"
    using send_event_result [OF p ev s0(1) ob] by blast
  obtain us where us: "ll_objects w1 a = Some (ob\<lparr>lo_users := us\<rparr>)" using thinnerD [OF w1(3) ob] by blast
  have "sound w1" using w1(2) lists_ok_thinner [OF w1(3) s0(2)] by (simp add: sound_def)
  from after_message_result [OF this us, of e] show ?thesis using w1(1,4) n by auto
qed

lemma message_result:
  assumes t: "tame env" and s: "sound w" and ob: "ll_objects w a = Some ob" "lo_fetching ob"
  shows "\<exists>w'. llcache_fetch_callback env a msg w = Some w' \<and> sound w'"
proof -
  have p: "polite env" using t by (simp add: tame_def)
  note o = sound_object [OF s ob(1)]
  show ?thesis
  proof (cases msg)
    case (MsgHeader err cc)
    let ?ob = "ob\<lparr>lo_state := LLCACHE_FETCH_HEADERS, lo_cache := cc\<rparr>"
    have "sound (set_object a ?ob w)" by (rule set_object_sound [OF s ob(1), of _ "[]"]) (use o ob(2) in simp_all)
    moreover have "ll_objects (set_object a ?ob w) a = Some ?ob" by (simp add: set_object_def)
    ultimately have "\<exists>w'. after_message env a (err, set_object a ?ob w) = Some w' \<and> sound w'"
      by (rule after_message_result) (simp add: ob(2))
    then show ?thesis using ob(1) MsgHeader by (simp add: llcache_fetch_callback_def fetch_header_def)
  next
    case (MsgData data)
    obtain e w1 ob1 where w1: "llcache_fetch_process_data env a data w = Some (e, w1)" "sound w1" "ll_objects w1 a = Some ob1" "lo_fetching ob1"
      using process_data_result [OF s ob] by blast
    then show ?thesis using after_message_result [OF w1(2,3), of e] MsgData by (auto simp: llcache_fetch_callback_def)
  next
    case MsgFinished
    define ob1 where "ob1 = ob\<lparr>lo_state := LLCACHE_FETCH_COMPLETE, lo_fetching := False\<rparr>"
    define ob2 where "ob2 = ob1\<lparr>lo_cache := llcache_object_cache_update (le_now env) (lo_cache ob1)\<rparr>"
    define ob3 where "ob3 = ob2\<lparr>lo_cache := (lo_cache ob2)\<lparr>cc_fin_time := le_now env\<rparr>\<rparr>"
    have run: "fetch_finished env a w = Some (NSERROR_OK, set_object a ob3 w)"
      using ob(1) by (simp add: fetch_finished_def ob1_def ob2_def ob3_def Let_def)
    have "sound (set_object a ob3 w)"
      by (rule set_object_sound [OF s ob(1), of _ "[]"]) (use o in \<open>simp_all add: ob1_def ob2_def ob3_def\<close>)
    moreover have "ll_objects (set_object a ob3 w) a = Some ob3" by (simp add: set_object_def)
    ultimately have "\<exists>w'. after_message env a (NSERROR_OK, set_object a ob3 w) = Some w' \<and> sound w'"
      by (rule after_message_result) simp
    then show ?thesis using run MsgFinished by (simp add: llcache_fetch_callback_def)
  next
    case (MsgError m)
    let ?ob = "ob\<lparr>lo_state := LLCACHE_FETCH_COMPLETE, lo_fetching := False\<rparr>"
    let ?ob2 = "llcache_invalidate_cache_control_data ?ob"
    have rc: "release_candidate a (set_object a ?ob w) = Some (set_object a ?ob w)"
      by (rule release_candidate_none [of _ a ?ob]) (simp_all add: set_object_def o(2))
    have eq: "set_object a x (set_object a y w) = set_object a x w" for x y by (simp add: set_object_def)
    have "sound (set_object a ?ob2 w)"
      by (rule set_object_sound [OF s ob(1), of _ "[]"]) (use o in \<open>simp_all add: llcache_invalidate_cache_control_data_def\<close>)
    moreover have "ll_objects (set_object a ?ob2 w) a = Some ?ob2" by (simp add: set_object_def)
    ultimately have "\<exists>e w1 w'. llcache_send_event_to_users env a (LLCACHE_EVENT_ERROR NSERROR_UNKNOWN m) (set_object a ?ob2 w) = Some (e, w1)
        \<and> after_message env a (e, w1) = Some w' \<and> sound w'"
      by (rule sent_sound [OF p, rotated]) (use t in \<open>auto simp: tame_def\<close>)
    then show ?thesis using MsgError ob(1) rc by (auto simp: llcache_fetch_callback_def fetch_error_def eq set_object_def [of a _ w, THEN arg_cong [where f = ll_objects]])
  next
    case (MsgProgress m)
    have "\<exists>e w1 w'. llcache_send_event_to_users env a (LLCACHE_EVENT_PROGRESS m) w = Some (e, w1) \<and> after_message env a (e, w1) = Some w' \<and> sound w'"
      by (rule sent_sound [OF p _ s ob(1)]) (simp_all add: ob(2))
    then show ?thesis using MsgProgress by (auto simp: llcache_fetch_callback_def fetch_progress_def)
  next
    case (MsgCerts dup)
    let ?ob = "ob\<lparr>lo_chain := (dup = NSERROR_OK)\<rparr>"
    have "sound (set_object a ?ob w)" by (rule set_object_sound [OF s ob(1), of _ "[]"]) (use o ob(2) in simp_all)
    moreover have "ll_objects (set_object a ?ob w) a = Some ?ob" by (simp add: set_object_def)
    ultimately have "\<exists>e w1 w'. llcache_send_event_to_users env a LLCACHE_EVENT_GOT_CERTS (set_object a ?ob w) = Some (e, w1)
        \<and> after_message env a (e, w1) = Some w' \<and> sound w'"
      by (rule sent_sound [OF p, rotated]) (simp_all add: ob(2))
    then show ?thesis using MsgCerts ob(1) by (auto simp: llcache_fetch_callback_def fetch_certs_def)
  qed
qed

section \<open>Clients come and go\<close>

lemma release_result:
  assumes s: "sound w" and h: "ll_handles w h = Some hn"
  shows "\<exists>w'. llcache_handle_release h w = Some w' \<and> sound w' \<and> ll_handles w' = (ll_handles w)(h := None) \<and> ll_heard w' = ll_heard w"
proof -
  have st: "settled w" "lists_ok w" and wf: "wf_cache w None" using s by (simp_all add: sound_def settled_def)
  obtain ob u us where o: "ll_objects w (lh_object hn) = Some ob" "u \<in> set (lo_users ob)" "ll_users w u = Some us" "lu_handle us = Some h"
    using wf_handle [OF wf h] .
  let ?a = "lh_object hn"
  obtain h' where u: "ll_users w u = Some \<lparr>lu_handle = Some h', lu_target = False, lu_deleted = False\<rparr>"
    and r: "ready (set_user u \<lparr>lu_handle = Some h', lu_target = True, lu_deleted = False\<rparr> w) ?a u h'"
    using start_turn [OF st(1) o(1,2)] by blast
  have hh: "h' = h" using u o(3,4) by simp
  let ?w = "set_user u \<lparr>lu_handle = Some h, lu_target = True, lu_deleted = False\<rparr> w"
  have t: "in_turn_of ?w ?a u h" using r hh by (simp add: ready_def)
  have "ll_users w = (ll_users w)(u \<mapsto> \<lparr>lu_handle = Some h, lu_target = False, lu_deleted = False\<rparr>)" using u hh by (simp add: fun_upd_idem)
  then have w: "w = set_user u \<lparr>lu_handle = Some h, lu_target = False, lu_deleted = False\<rparr> ?w" by (simp add: set_user_def)
  obtain w1 w2 where l: "llcache_object_remove_user ?a u w = Some w1" "llcache_object_user_destroy u w1 = Some w2" "wf_cache w2 None"
      "dropped ?w w2 ?a {u}" "ll_handles w2 = (ll_handles ?w)(h := None)" "ll_heard w2 = ll_heard ?w"
    using leave_turn [OF t w] by blast
  have told: "told ?w k" for k using r hh by (simp add: ready_def)
  have "told w2 k" for k
    by (cases "k = h", use l(5) in \<open>simp add: told_def\<close>, rule dropped_told [OF l(4)]) (use l(5,6) told in simp_all)
  moreover have "objects_ok w2" using dropped_objects_ok [OF l(4)] r hh by (simp add: ready_def)
  moreover have "thinner w w2" using dropped_thinner [OF l(4)] by (simp add: thinner_def set_user_def)
  ultimately have "sound w2" using l(3) lists_ok_thinner [of w w2] st(2) by (simp add: sound_def settled_def)
  moreover have "llcache_handle_release h w = Some w2"
    using h find_user_right [OF wf o(3,4) h] u l(1,2) by (simp add: llcache_handle_release_def)
  ultimately show ?thesis using l(5,6) by (auto simp: set_user_def)
qed

lemma new_object_sound:
  assumes s: "sound w" and a: "ll_objects w a = None"
    and ob: "lo_users ob = []" "\<not> lo_stream ob" "lo_candidate ob = None" "lo_state ob = LLCACHE_FETCH_COMPLETE \<longrightarrow> \<not> lo_fetching ob"
  shows "sound (llcache_object_add_to_list a l (set_object a ob w))"
proof -
  let ?w = "llcache_object_add_to_list a l (set_object a ob w)"
  have wf: "wf_cache w None" and told: "told w k" and oks: "objects_ok w" and lo: "lists_ok w" for k
    using s by (simp_all add: settled_def sound_def)
  have fr: "ll_objects ?w = (ll_objects w)(a \<mapsto> ob)" "ll_users ?w = ll_users w" "ll_handles ?w = ll_handles w" "ll_heard ?w = ll_heard w"
    by (cases l; simp add: llcache_object_add_to_list_def set_object_def)+
  have na: "lh_object kn \<noteq> a" if "ll_handles w k = Some kn" for k kn
    using wf_handle [OF wf that] a by (metis option.distinct(1))
  have "wf_cache ?w None"
    unfolding wf_cache_def fr
  proof (intro conjI allI impI ballI)
    fix x ox assume "((ll_objects w)(a \<mapsto> ob)) x = Some ox"
    then have x: "ll_objects w x = Some ox \<or> lo_users ox = []" using ob(1) by (auto split: if_splits)
    then show "distinct (lo_users ox)" using wf_distinct [OF wf] by auto
    fix v assume "v \<in> set (lo_users ox)"
    then show "\<exists>us h hn. ll_users w v = Some us \<and> lu_handle us = Some h \<and> ll_handles w h = Some hn \<and> lh_object hn = x"
      using wf_user [OF wf, of x ox v] x by (metis empty_iff empty_set)
  next
    fix v vs assume "ll_users w v = Some vs"
    then show "lu_target vs \<longleftrightarrow> None = Some v" "lu_deleted vs \<Longrightarrow> None = Some v" using wf_flags [OF wf] by blast+
  next
    fix v v' vs vs' k
    assume "ll_users w v = Some vs" "ll_users w v' = Some vs'" "lu_handle vs = Some k" "lu_handle vs' = Some k"
    then show "v = v'" using wf_same_handle [OF wf] by blast
  next
    fix k kn assume k: "ll_handles w k = Some kn"
    then show "\<exists>ob' u us. ((ll_objects w)(a \<mapsto> ob)) (lh_object kn) = Some ob' \<and> u \<in> set (lo_users ob') \<and> ll_users w u = Some us \<and> lu_handle us = Some k"
      using wf_handle [OF wf k] na [OF k] by (metis fun_upd_other)
  qed
  moreover have "told ?w k" for k using told [of k] na [of k] unfolding told_def fr by auto
  moreover have "objects_ok ?w" using oks ob unfolding objects_ok_def fr by auto
  moreover have "lists_ok ?w"
  proof -
    have "a \<notin> set (ll_cached w @ ll_uncached w)" using lo a unfolding lists_ok_def by blast
    then show ?thesis using lo unfolding lists_ok_def fr by (cases l) (auto simp: llcache_object_add_to_list_def set_object_def)
  qed
  ultimately show ?thesis by (simp add: sound_def settled_def)
qed

text \<open>
  A new handle on an object. Addresses name handles here, so a new one is taken to be an address that has not
  been a handle before.
\<close>

definition unused :: "'w llcache \<Rightarrow> nat \<Rightarrow> bool" where
  "unused w h \<longleftrightarrow> ll_handles w h = None \<and> h \<notin> fst ` set (ll_heard w) \<and> (\<forall>u us. ll_users w u = Some us \<longrightarrow> lu_handle us \<noteq> Some h)"

definition attached :: "'w llcache \<Rightarrow> nat \<Rightarrow> llcache_object \<Rightarrow> nat \<Rightarrow> nat \<Rightarrow> 'w llcache" where
  "attached w a ob u h =
     w\<lparr>ll_objects := (ll_objects w)(a \<mapsto> ob\<lparr>lo_users := u # lo_users ob\<rparr>),
       ll_users := (ll_users w)(u \<mapsto> \<lparr>lu_handle = Some h, lu_target = False, lu_deleted = False\<rparr>),
       ll_handles := (ll_handles w)(h \<mapsto> \<lparr>lh_object = a, lh_state = LLCACHE_FETCH_INIT, lh_bytes = 0\<rparr>)\<rparr>"

lemma unused_taken: "unused w h \<Longrightarrow> taken (ll_heard w) h = []"
  by (force simp: unused_def taken_def filter_empty_conv)

lemma attached_sound:
  assumes s: "sound w" and ob: "ll_objects w a = Some ob" and u: "ll_users w u = None" and h: "unused w h"
  shows "sound (attached w a ob u h)"
proof -
  let ?w = "attached w a ob u h"
  have wf: "wf_cache w None" and told: "told w k" and oks: "objects_ok w" and lo: "lists_ok w" for k
    using s by (simp_all add: settled_def sound_def)
  have fr: "ll_objects ?w = (ll_objects w)(a \<mapsto> ob\<lparr>lo_users := u # lo_users ob\<rparr>)"
    "ll_users ?w = (ll_users w)(u \<mapsto> \<lparr>lu_handle = Some h, lu_target = False, lu_deleted = False\<rparr>)"
    "ll_handles ?w = (ll_handles w)(h \<mapsto> \<lparr>lh_object = a, lh_state = LLCACHE_FETCH_INIT, lh_bytes = 0\<rparr>)"
    "ll_heard ?w = ll_heard w" "ll_cached ?w = ll_cached w" "ll_uncached ?w = ll_uncached w" by (simp_all add: attached_def)
  have nu: "v \<noteq> u" if "ll_objects w x = Some ox" "v \<in> set (lo_users ox)" for v x ox
    using wf_user [OF wf that] u by (metis option.distinct(1))
  have h0: "ll_handles w h = None" and nh: "ll_users w v = Some vs \<Longrightarrow> lu_handle vs \<noteq> Some h" for v vs using h by (auto simp: unused_def)
  have "wf_cache ?w None"
    unfolding wf_cache_def
  proof (intro conjI allI impI ballI)
    fix x ox assume x: "ll_objects ?w x = Some ox"
    show "distinct (lo_users ox)"
    proof (cases "x = a")
      case True
      then have "ox = ob\<lparr>lo_users := u # lo_users ob\<rparr>" using x by (simp add: fr)
      moreover have "u \<notin> set (lo_users ob)" using nu [OF ob, of u] by blast
      ultimately show ?thesis using wf_distinct [OF wf ob] by simp
    next
      case False
      then show ?thesis using x wf_distinct [OF wf] by (simp add: fr)
    qed
    fix v assume v: "v \<in> set (lo_users ox)"
    show "\<exists>us k hn. ll_users ?w v = Some us \<and> lu_handle us = Some k \<and> ll_handles ?w k = Some hn \<and> lh_object hn = x"
    proof (cases "v = u")
      case True
      have "x = a"
      proof (rule ccontr)
        assume "x \<noteq> a"
        then have "ll_objects w x = Some ox" using x by (simp add: fr)
        then show False using nu v True by blast
      qed
      then show ?thesis using True by (simp add: fr)
    next
      case False
      obtain ox0 where ox0: "ll_objects w x = Some ox0" "v \<in> set (lo_users ox0)"
        using x v False ob by (cases "x = a") (auto simp: fr)
      obtain us k hn where k: "ll_users w v = Some us" "lu_handle us = Some k" "ll_handles w k = Some hn" "lh_object hn = x"
        using wf_user [OF wf ox0] .
      moreover have "k \<noteq> h" using k h0 by auto
      ultimately show ?thesis using False by (simp add: fr)
    qed
  next
    fix v vs assume "ll_users ?w v = Some vs"
    then show "lu_target vs \<longleftrightarrow> None = Some v" "lu_deleted vs \<Longrightarrow> None = Some v"
      using wf_flags [OF wf, of v vs] by (auto simp: fr split: if_splits)
  next
    fix v v' vs vs' k
    assume "ll_users ?w v = Some vs" "ll_users ?w v' = Some vs'" "lu_handle vs = Some k" "lu_handle vs' = Some k"
    then show "v = v'" using wf_same_handle [OF wf, of v vs v' vs' k] nh [of v vs] nh [of v' vs'] by (auto simp: fr split: if_splits)
  next
    fix k kn assume k: "ll_handles ?w k = Some kn"
    show "\<exists>ob u us. ll_objects ?w (lh_object kn) = Some ob \<and> u \<in> set (lo_users ob) \<and> ll_users ?w u = Some us \<and> lu_handle us = Some k"
    proof (cases "k = h")
      case True
      then have "lh_object kn = a" using k by (auto simp: fr)
      then show ?thesis using True by (intro exI [of _ "ob\<lparr>lo_users := u # lo_users ob\<rparr>"] exI [of _ u]) (simp add: fr)
    next
      case False
      then have "ll_handles w k = Some kn" using k by (simp add: fr)
      then obtain ox v vs where v: "ll_objects w (lh_object kn) = Some ox" "v \<in> set (lo_users ox)" "ll_users w v = Some vs" "lu_handle vs = Some k"
        using wf_handle [OF wf] by blast
      then show ?thesis using nu [OF v(1,2)] ob unfolding fr by (cases "lh_object kn = a") auto
    qed
  qed
  moreover have "told ?w k" for k
  proof (cases "k = h")
    case True
    then show ?thesis using unused_taken [OF h] story_start(1) unfolding told_def fr by auto
  next
    case False
    then show ?thesis using told [of k] ob unfolding told_def fr by auto
  qed
  moreover have "objects_ok ?w" using oks ob unfolding objects_ok_def fr by auto
  moreover have "lists_ok ?w" using lo ob unfolding lists_ok_def fr by auto
  ultimately show ?thesis by (simp add: sound_def settled_def)
qed

text \<open>Allocation gives memory that is free.\<close>

definition fresh_memory :: "'w llcache_env \<Rightarrow> bool" where
  "fresh_memory env \<longleftrightarrow> (\<forall>m a. le_new_object env m = Some a \<longrightarrow> m a = None) \<and> (\<forall>m u. le_new_user env m = Some u \<longrightarrow> m u = None)"

lemma retrieve_result:
  assumes f: "fresh_memory env" and s: "sound w" and u: "\<And>h. le_new_handle env (ll_handles w) = Some h \<Longrightarrow> unused w h"
    and a: "\<And>a. found = Some a \<Longrightarrow> ll_objects w a \<noteq> None" and r: "llcache_handle_retrieve env found l query w = Some w'"
  shows "sound w'"
proof -
  obtain u w1 where w1: "llcache_object_user_new env w = Some (u, w1)" using r by (auto simp: llcache_handle_retrieve_def bind_eq_Some_conv)
  then obtain h where h: "le_new_handle env (ll_handles w) = Some h" "ll_users w u = None"
    "w1 = set_user u \<lparr>lu_handle = Some h, lu_target = False, lu_deleted = False\<rparr> (set_handle h \<lparr>lh_object = 0, lh_state = LLCACHE_FETCH_INIT, lh_bytes = 0\<rparr> w)"
    using f by (auto simp: llcache_object_user_new_def bind_eq_Some_conv fresh_memory_def)
  have uh: "unused w h" using u [OF h(1)] .
  show ?thesis
  proof (cases found)
    case (Some a)
    then obtain ob where ob: "ll_objects w a = Some ob" using assms(4) by blast
    have "llcache_object_add_user a u w1 = Some (attached w a ob u h)"
      using ob unfolding h(3) llcache_object_add_user_def by (simp add: set_user_def set_handle_def set_object_def attached_def)
    then have "w' = llcache_users_not_caught_up (attached w a ob u h)" using r w1 Some by (simp add: llcache_handle_retrieve_def)
    then show ?thesis using attached_sound [OF s ob h(2) uh] by (simp add: not_caught_up_sound)
  next
    case None
    then obtain a w2 where w2: "retrieve_new env l query w1 = Some (a, w2)" using r w1 by (auto simp: llcache_handle_retrieve_def bind_eq_Some_conv)
    define ob where "ob = \<lparr>lo_source = [], lo_state = LLCACHE_FETCH_INIT, lo_fetching = True, lo_stream = False, lo_chain = False,
              lo_query = query, lo_users = [],
              lo_cache = (lo_cache (llcache_invalidate_cache_control_data \<lparr>lo_source = [], lo_state = LLCACHE_FETCH_INIT, lo_fetching = False, lo_stream = False, lo_chain = False,
              lo_query = query, lo_users = [], lo_cache = cache_zero, lo_candidate = None, lo_candidate_count = 0\<rparr>))\<lparr>cc_req_time := le_now env, cc_fin_time := le_now env\<rparr>,
              lo_candidate = None, lo_candidate_count = 0\<rparr>"
    have an: "ll_objects w a = None" and w2': "w2 = llcache_object_add_to_list a l (set_object a ob w1)"
      using w2 f unfolding h(3)
      by (auto simp: retrieve_new_def llcache_object_new_def bind_eq_Some_conv fresh_memory_def set_user_def set_handle_def set_object_def ob_def Let_def)
    let ?wn = "llcache_object_add_to_list a l (set_object a ob w)"
    have sn: "sound ?wn" by (rule new_object_sound [OF s an]) (simp_all add: ob_def)
    have fn: "ll_objects ?wn a = Some ob" "ll_users ?wn u = None" "unused ?wn h"
      using h(2) uh by (cases l; simp add: llcache_object_add_to_list_def set_object_def unused_def)+
    have "llcache_object_add_user a u w2 = Some (attached ?wn a ob u h)"
      unfolding w2' h(3) llcache_object_add_user_def
      by (cases l) (simp_all add: llcache_object_add_to_list_def set_user_def set_handle_def set_object_def attached_def)
    then have "w' = llcache_users_not_caught_up (attached ?wn a ob u h)" using r w1 None w2 by (simp add: llcache_handle_retrieve_def)
    then show ?thesis using attached_sound [OF sn fn] by (simp add: not_caught_up_sound)
  qed
qed

text \<open>A handle that moves to a complete copy of its object.\<close>

definition moved :: "'w llcache \<Rightarrow> nat \<Rightarrow> llcache_object \<Rightarrow> nat \<Rightarrow> llcache_object \<Rightarrow> nat \<Rightarrow> nat \<Rightarrow> llcache_handle \<Rightarrow> 'w llcache" where
  "moved w a ob a' ob' u h hn =
     w\<lparr>ll_objects := (ll_objects w)(a \<mapsto> ob\<lparr>lo_users := remove1 u (lo_users ob)\<rparr>, a' \<mapsto> ob'\<lparr>lo_users := u # lo_users ob'\<rparr>),
       ll_handles := (ll_handles w)(h \<mapsto> hn\<lparr>lh_object := a'\<rparr>)\<rparr>"

lemma moved_sound:
  assumes s: "sound w" and ob: "ll_objects w a = Some ob" "u \<in> set (lo_users ob)" and ob': "ll_objects w a' = Some ob'" "lo_users ob' = []"
    and u: "ll_users w u = Some us" "lu_handle us = Some h" and h: "ll_handles w h = Some hn" "lh_object hn = a"
    and copy: "lo_source ob' = lo_source ob" "lo_state ob' = LLCACHE_FETCH_COMPLETE"
  shows "sound (moved w a ob a' ob' u h hn)"
proof -
  let ?w = "moved w a ob a' ob' u h hn"
  have wf: "wf_cache w None" and told: "told w k" and oks: "objects_ok w" and lo: "lists_ok w" for k
    using s by (simp_all add: settled_def sound_def)
  have ne: "a \<noteq> a'" using ob ob' by auto
  have fr: "ll_objects ?w = (ll_objects w)(a \<mapsto> ob\<lparr>lo_users := remove1 u (lo_users ob)\<rparr>, a' \<mapsto> ob'\<lparr>lo_users := u # lo_users ob'\<rparr>)"
    "ll_users ?w = ll_users w" "ll_handles ?w = (ll_handles w)(h \<mapsto> hn\<lparr>lh_object := a'\<rparr>)"
    "ll_heard ?w = ll_heard w" "ll_cached ?w = ll_cached w" "ll_uncached ?w = ll_uncached w" by (simp_all add: moved_def)
  have d: "distinct (lo_users ob)" using wf_distinct [OF wf ob(1)] .
  have only: "v = u" if "ll_users w v = Some vs" "lu_handle vs = Some h" for v vs using wf_same_handle [OF wf that(1) u(1) that(2) u(2)] .
  have "wf_cache ?w None"
    unfolding wf_cache_def
  proof (intro conjI allI impI ballI)
    fix x ox assume x: "ll_objects ?w x = Some ox"
    consider "x = a'" "ox = ob'\<lparr>lo_users := [u]\<rparr>" | "x = a" "ox = ob\<lparr>lo_users := remove1 u (lo_users ob)\<rparr>" | "x \<noteq> a" "x \<noteq> a'" "ll_objects w x = Some ox"
      using x ob'(2) ne by (auto simp: fr split: if_splits)
    note cs = this
    show "distinct (lo_users ox)" by (cases rule: cs) (use d wf_distinct [OF wf] in auto)
    fix v assume v: "v \<in> set (lo_users ox)"
    show "\<exists>us k hn. ll_users ?w v = Some us \<and> lu_handle us = Some k \<and> ll_handles ?w k = Some hn \<and> lh_object hn = x"
    proof (cases rule: cs)
      case 1
      then have "v = u" using v by simp
      then show ?thesis using 1 u by (simp add: fr)
    next
      case 2
      then have v': "v \<in> set (lo_users ob)" "v \<noteq> u" using v d by auto
      obtain vs k kn where k: "ll_users w v = Some vs" "lu_handle vs = Some k" "ll_handles w k = Some kn" "lh_object kn = a"
        using wf_user [OF wf ob(1) v'(1)] .
      then have "k \<noteq> h" using only v'(2) by blast
      then show ?thesis using k 2 by (simp add: fr)
    next
      case 3
      obtain vs k kn where k: "ll_users w v = Some vs" "lu_handle vs = Some k" "ll_handles w k = Some kn" "lh_object kn = x"
        using wf_user [OF wf 3(3) v] .
      then have "k \<noteq> h" using h 3(1) by auto
      then show ?thesis using k by (simp add: fr)
    qed
  next
    fix v vs assume "ll_users ?w v = Some vs"
    then show "lu_target vs \<longleftrightarrow> None = Some v" "lu_deleted vs \<Longrightarrow> None = Some v" using wf_flags [OF wf, of v vs] by (auto simp: fr)
  next
    fix v v' vs vs' k
    assume "ll_users ?w v = Some vs" "ll_users ?w v' = Some vs'" "lu_handle vs = Some k" "lu_handle vs' = Some k"
    then show "v = v'" using wf_same_handle [OF wf, of v vs v' vs' k] by (auto simp: fr)
  next
    fix k kn assume k: "ll_handles ?w k = Some kn"
    show "\<exists>ob u us. ll_objects ?w (lh_object kn) = Some ob \<and> u \<in> set (lo_users ob) \<and> ll_users ?w u = Some us \<and> lu_handle us = Some k"
    proof (cases "k = h")
      case True
      then have "lh_object kn = a'" using k by (auto simp: fr)
      then show ?thesis using True u by (intro exI [of _ "ob'\<lparr>lo_users := u # lo_users ob'\<rparr>"] exI [of _ u]) (simp add: fr)
    next
      case False
      then have k0: "ll_handles w k = Some kn" using k by (simp add: fr)
      then obtain ox v vs where v: "ll_objects w (lh_object kn) = Some ox" "v \<in> set (lo_users ox)" "ll_users w v = Some vs" "lu_handle vs = Some k"
        using wf_handle [OF wf] by blast
      have na: "lh_object kn \<noteq> a'" using v(1,2) ob' by auto
      have vu: "v \<noteq> u" using v(3,4) u False by auto
      show ?thesis
      proof (cases "lh_object kn = a")
        case True
        then show ?thesis using v vu ne ob(1) d unfolding fr by (auto simp: set_remove1_eq)
      next
        case False
        then show ?thesis using v na unfolding fr by auto
      qed
    qed
  qed
  moreover have "told ?w k" for k
  proof (cases "k = h")
    case True
    have "story (taken (ll_heard w) h) (lh_state hn) (lh_bytes hn) (lo_source ob)" using told [of h] h ob(1) unfolding told_def by blast
    then show ?thesis using True copy unfolding told_def fr by simp
  next
    case False
    have "lh_object kn \<noteq> a'" if "ll_handles w k = Some kn" for kn
      using wf_handle [OF wf that] ob' by (metis empty_iff empty_set option.inject)
    then show ?thesis using told [of k] False ob(1) unfolding told_def fr by auto
  qed
  moreover have "objects_ok ?w" using oks ob(1) ob'(1) unfolding objects_ok_def fr by auto
  moreover have "lists_ok ?w" using lo ob(1) ob'(1) unfolding lists_ok_def fr by auto
  ultimately show ?thesis by (simp add: sound_def settled_def)
qed

lemma abort_result:
  assumes f: "fresh_memory env" and s: "sound w" and h: "ll_handles w h = Some hn"
  shows "\<exists>e w'. llcache_handle_abort env h w = Some (e, w') \<and> sound w'"
proof -
  have wf: "wf_cache w None" using s by (simp add: sound_def settled_def)
  let ?a = "lh_object hn"
  obtain ob u us where o: "ll_objects w ?a = Some ob" "u \<in> set (lo_users ob)" "ll_users w u = Some us" "lu_handle us = Some h"
    using wf_handle [OF wf h] .
  have fu: "llcache_object_find_user h w = Some u" using find_user_right [OF wf o(3,4) h] .
  have nt: "\<not> lu_target us" using wf_flags [OF wf o(3)] by simp
  show ?thesis
  proof (cases "lo_users ob = [u]")
    case True
    let ?ob = "llcache_invalidate_cache_control_data (ob\<lparr>lo_fetching := False, lo_state := LLCACHE_FETCH_COMPLETE\<rparr>)"
    have "sound (set_object ?a ?ob w)"
      by (rule set_object_sound [OF s o(1), of _ "[]"]) (use sound_object [OF s o(1)] in \<open>simp_all add: llcache_invalidate_cache_control_data_def\<close>)
    moreover have "llcache_handle_abort env h w = Some (NSERROR_OK, set_object ?a ?ob w)"
      using h fu o(1,3) True by (simp add: llcache_handle_abort_def Let_def)
    ultimately show ?thesis by blast
  next
    case False
    show ?thesis
    proof (cases "le_new_object env (ll_objects w)")
      case None
      then have "llcache_handle_abort env h w = Some (NSERROR_NOMEM, w)"
        using h fu o(1,3) False by (simp add: llcache_handle_abort_def llcache_object_snapshot_def Let_def)
      then show ?thesis using s by blast
    next
      case (Some a')
      then have an: "ll_objects w a' = None" using f by (auto simp: fresh_memory_def)
      define ob' where "ob' = \<lparr>lo_source = lo_source ob, lo_state = LLCACHE_FETCH_COMPLETE, lo_fetching = False, lo_stream = False, lo_chain = lo_chain ob,
              lo_query = lo_query ob, lo_users = [], lo_cache = cache_zero, lo_candidate = None, lo_candidate_count = 0\<rparr>"
      let ?wn = "llcache_object_add_to_list a' UncachedObjects (set_object a' ob' w)"
      have sn: "sound ?wn" by (rule new_object_sound [OF s an]) (simp_all add: ob'_def)
      have ne: "?a \<noteq> a'" using an o(1) by auto
      have fn: "ll_objects ?wn ?a = Some ob" "ll_objects ?wn a' = Some ob'" "ll_users ?wn u = Some us" "ll_handles ?wn h = Some hn"
        using o h ne by (simp_all add: llcache_object_add_to_list_def set_object_def)
      have "sound (moved ?wn ?a ob a' ob' u h hn)"
        by (rule moved_sound [OF sn fn(1) o(2) fn(2) _ fn(3) o(4) fn(4) refl]) (simp_all add: ob'_def)
      moreover have "llcache_handle_abort env h w = Some (NSERROR_OK, moved ?wn ?a ob a' ob' u h hn)"
        using h fu o(1,3,4) False Some nt ne
        by (simp add: llcache_handle_abort_def llcache_object_snapshot_def ob'_def [symmetric] llcache_object_remove_user_def llcache_object_add_user_def
            llcache_object_add_to_list_def set_object_def set_handle_def moved_def Let_def fun_upd_twist)
      ultimately show ?thesis by blast
    qed
  qed
qed

section \<open>Reachable caches\<close>

definition llcache_start :: "'w \<Rightarrow> 'w llcache" where
  "llcache_start c = \<lparr>ll_objects = (\<lambda>_. None), ll_users = (\<lambda>_. None), ll_handles = (\<lambda>_. None), ll_cached = [], ll_uncached = [],
     ll_caught_up = True, ll_scheduled = 0, ll_heard = [], ll_client = c\<rparr>"

inductive llcache_reach :: "'w llcache_env \<Rightarrow> 'w llcache \<Rightarrow> bool" for env where
  start: "llcache_reach env (llcache_start c)"
| retrieve: "llcache_reach env w \<Longrightarrow> (\<And>h. le_new_handle env (ll_handles w) = Some h \<Longrightarrow> unused w h)
    \<Longrightarrow> (\<And>a. found = Some a \<Longrightarrow> ll_objects w a \<noteq> None) \<Longrightarrow> llcache_handle_retrieve env found l query w = Some w' \<Longrightarrow> llcache_reach env w'"
| message: "llcache_reach env w \<Longrightarrow> ll_objects w a = Some ob \<Longrightarrow> lo_fetching ob \<Longrightarrow> llcache_fetch_callback env a msg w = Some w' \<Longrightarrow> llcache_reach env w'"
| catch_up: "llcache_reach env w \<Longrightarrow> llcache_catch_up_all_users env w = Some w' \<Longrightarrow> llcache_reach env w'"
| release: "llcache_reach env w \<Longrightarrow> ll_handles w h = Some hn \<Longrightarrow> llcache_handle_release h w = Some w' \<Longrightarrow> llcache_reach env w'"
| abort: "llcache_reach env w \<Longrightarrow> ll_handles w h = Some hn \<Longrightarrow> llcache_handle_abort env h w = Some (e, w') \<Longrightarrow> llcache_reach env w'"
| clean: "llcache_reach env w \<Longrightarrow> llcache_clean env purge w = Some w' \<Longrightarrow> llcache_reach env w'"

lemma start_sound: "sound (llcache_start c)"
  by (simp add: sound_def settled_def wf_cache_def told_def objects_ok_def lists_ok_def llcache_start_def)

lemma catch_up_sound:
  assumes "polite env" "sound w" "llcache_catch_up_all_users env w = Some w'"
  shows "sound w'"
  using catch_up_result [OF assms(1), of w] assms(2,3) lists_ok_thinner by (auto simp: sound_def)

lemma reach_sound:
  assumes "llcache_reach env w" and t: "tame env" and f: "fresh_memory env"
  shows "sound w"
  using assms(1)
proof induction
  case (start c)
  show ?case by (rule start_sound)
next
  case (retrieve w found l query w')
  show ?case by (rule retrieve_result [OF f retrieve.IH retrieve.hyps(2,3,4)])
next
  case (message w a ob msg w')
  then show ?case using message_result [OF t message.IH, of a ob msg] by auto
next
  case (catch_up w w')
  then show ?case using catch_up_sound t by (auto simp: tame_def)
next
  case (release w h hn w')
  then show ?case using release_result [OF release.IH, of h hn] by auto
next
  case (abort w h hn e w')
  then show ?case using abort_result [OF f abort.IH, of h hn] by auto
next
  case (clean w purge w')
  then show ?case using clean_result [OF clean.IH, of env purge] by auto
qed


lemma agrees_tame: "agrees env \<Longrightarrow> tame env"
  unfolding agrees_def tame_def polite_def by (metis fst_conv insertI1 nserror.distinct(1) snd_conv)

text \<open>
  C35. If the clients take what they are told, a pass over the users leaves none behind: every handle on an object
  whose fetch has ended has then got the headers, pieces that add up to all of the data, and the
  end.
\<close>

theorem llcache_all_told:
  assumes "llcache_reach env w" "agrees env" "fresh_memory env"
  shows "\<exists>w'. llcache_catch_up_all_users env w = Some w' \<and> ll_objects w' = ll_objects w
    \<and> (\<forall>h hn ob. ll_handles w' h = Some hn \<and> ll_objects w' (lh_object hn) = Some ob \<and> lo_state ob = LLCACHE_FETCH_COMPLETE \<longrightarrow>
         (\<exists>ds. concat ds = lo_source ob
            \<and> taken (ll_heard w') h = LLCACHE_EVENT_HAD_HEADERS # map LLCACHE_EVENT_HAD_DATA ds @ [LLCACHE_EVENT_DONE]))"
proof -
  have t: "tame env" using agrees_tame [OF assms(2)] .
  then have p: "polite env" by (simp add: tame_def)
  have st: "settled w" "lists_ok w" using reach_sound [OF assms(1) t assms(3)] by (simp_all add: sound_def)
  obtain w' where w': "llcache_catch_up_all_users env w = Some w'" "settled w'" "ll_objects w' = ll_objects w" "\<And>a. complete_object w' a"
    using catch_up_result [OF p st] assms(2) by blast
  have "\<exists>ds. concat ds = lo_source ob
            \<and> taken (ll_heard w') h = LLCACHE_EVENT_HAD_HEADERS # map LLCACHE_EVENT_HAD_DATA ds @ [LLCACHE_EVENT_DONE]"
    if "ll_handles w' h = Some hn" "ll_objects w' (lh_object hn) = Some ob" "lo_state ob = LLCACHE_FETCH_COMPLETE" for h hn ob
  proof -
    have "lh_state hn = LLCACHE_FETCH_COMPLETE" using w'(4) [of "lh_object hn"] that unfolding complete_object_def by blast
    moreover have "told w' h" using w'(2) by (simp add: settled_def)
    ultimately have "story (taken (ll_heard w') h) LLCACHE_FETCH_COMPLETE (lh_bytes hn) (lo_source ob)" using that(1,2) unfolding told_def by metis
    then show ?thesis by (auto simp: story_def)
  qed
  then show ?thesis using w' by blast
qed

section \<open>Witnesses\<close>

text \<open>Clients that agree, and memory for three of everything.\<close>

definition first_free :: "(nat \<Rightarrow> 'a option) \<Rightarrow> nat option" where
  "first_free m = List.find (\<lambda>i. m i = None) [0, 1, 2]"

definition ex_env :: "unit llcache_env" where
  "ex_env = \<lparr>le_cb = (\<lambda>c h ev. (NSERROR_OK, [], ())), le_new_object = first_free, le_new_user = first_free, le_new_handle = first_free,
     le_grow = (\<lambda>_. True), le_http_code = 200, le_now = 10, le_sizeof = 100, le_other_size = (\<lambda>_. 0), le_limit = 1000\<rparr>"

definition ex_retrieved :: "unit llcache" where
  "ex_retrieved = the (llcache_handle_retrieve ex_env None CachedObjects False (llcache_start ()))"

definition ex_data :: "unit llcache" where
  "ex_data = the (llcache_fetch_callback ex_env 0 (MsgData ''abc'') ex_retrieved)"

definition ex_finished :: "unit llcache" where
  "ex_finished = the (llcache_fetch_callback ex_env 0 MsgFinished ex_data)"

lemma ex_agrees: "agrees ex_env" and ex_fresh: "fresh_memory ex_env"
  by (auto simp: agrees_def fresh_memory_def ex_env_def first_free_def split: if_splits)

lemma first_free_unused: "le_new_handle env (ll_handles (llcache_start c)) = Some h \<Longrightarrow> unused (llcache_start c) h"
  by (simp add: unused_def llcache_start_def)

lemma ex_reach: "llcache_reach ex_env ex_finished"
proof -
  have "llcache_handle_retrieve ex_env None CachedObjects False (llcache_start ()) \<noteq> None" by code_simp
  then have 1: "llcache_handle_retrieve ex_env None CachedObjects False (llcache_start ()) = Some ex_retrieved" by (simp add: ex_retrieved_def)
  have r1: "llcache_reach ex_env ex_retrieved"
    by (rule llcache_reach.retrieve [OF llcache_reach.start first_free_unused _ 1]) simp_all
  have "(case ll_objects ex_retrieved 0 of None \<Rightarrow> False | Some ob \<Rightarrow> lo_fetching ob)" by code_simp
  then obtain ob1 where o1: "ll_objects ex_retrieved 0 = Some ob1" "lo_fetching ob1" by (auto split: option.splits)
  have "llcache_fetch_callback ex_env 0 (MsgData ''abc'') ex_retrieved \<noteq> None" by code_simp
  then have r2: "llcache_reach ex_env ex_data" using llcache_reach.message [OF r1 o1, of "MsgData ''abc''"] by (auto simp: ex_data_def)
  have "(case ll_objects ex_data 0 of None \<Rightarrow> False | Some ob \<Rightarrow> lo_fetching ob)" by code_simp
  then obtain ob2 where o2: "ll_objects ex_data 0 = Some ob2" "lo_fetching ob2" by (auto split: option.splits)
  have "llcache_fetch_callback ex_env 0 MsgFinished ex_data \<noteq> None" by code_simp
  then show ?thesis using llcache_reach.message [OF r2 o2, of MsgFinished] by (auto simp: ex_finished_def)
qed


lemma llcache_all_told_witness:
  "(case ll_objects ex_finished 0 of None \<Rightarrow> False | Some ob \<Rightarrow> lo_state ob = LLCACHE_FETCH_COMPLETE \<and> lo_source ob = ''abc'')
   \<and> (\<exists>w'. llcache_catch_up_all_users ex_env ex_finished = Some w' \<and> ll_objects w' = ll_objects ex_finished)"
proof -
  have "(case ll_objects ex_finished 0 of None \<Rightarrow> False | Some ob \<Rightarrow> lo_state ob = LLCACHE_FETCH_COMPLETE \<and> lo_source ob = ''abc'')" by code_simp
  with llcache_all_told [OF ex_reach ex_agrees ex_fresh] show ?thesis by blast
qed

section \<open>An error of memory at the wrong time\<close>

text \<open>A client that gives up its handle when it is told of an error, and answers that memory is short.\<close>

definition quitter_env :: "unit llcache_env" where
  "quitter_env = ex_env\<lparr>le_cb := (\<lambda>c h ev. case ev of LLCACHE_EVENT_ERROR e m \<Rightarrow> (NSERROR_NOMEM, [HandleRelease h], ()) | _ \<Rightarrow> (NSERROR_OK, [], ()))\<rparr>"


end
