(* ===== verification/DownloadProps.thy ===== *)
theory DownloadProps
  imports Download LlcacheSystem
begin

text \<open>
  What becomes of a download: a saved file that is what was fetched, and what goes wrong when a fetch or a
  write fails on the way.
\<close>

section \<open>One window at a time\<close>

definition dl_ok :: "dl_world \<Rightarrow> bool" where
  "dl_ok w \<longleftrightarrow> (\<forall>d dw. dl_windows w d = Some dw \<longrightarrow> length (dw_filename dw) \<le> 63 \<and> g_active_dw w = Some d)
     \<and> (\<forall>d. g_active_dw w = Some d \<longrightarrow> dl_windows w d \<noteq> None)"

lemma fits_array_Some: "length s < n \<Longrightarrow> fits_array n s = Some s"
  by (simp add: fits_array_def)

lemma show_32: "length (show_nat (unat (x :: 32 word))) \<le> 10"
proof -
  have "unat x < 10 ^ 10" using unsigned_less [of x, where 'a = nat] by simp
  then show ?thesis using show_nat_length [of "unat x" 10] by simp
qed

text \<open>The lines of the status bar that fit.\<close>

lemma progress_fits:
  assumes "length name \<le> 63"
  shows "fits_array 128 (''Downloading '' @ name @ ''...'') = Some (''Downloading '' @ name @ ''...'')"
    "fits_array 128 (''Downloading '' @ name @ '': '' @ show_nat (unat (n :: 32 word)) @ '' of '' @ show_nat (unat (t :: 32 word)) @ '' bytes'')
      = Some (''Downloading '' @ name @ '': '' @ show_nat (unat n) @ '' of '' @ show_nat (unat t) @ '' bytes'')"
    "fits_array 128 (''Downloading '' @ name @ '': '' @ show_nat (unat n) @ '' bytes'')
      = Some (''Downloading '' @ name @ '': '' @ show_nat (unat n) @ '' bytes'')"
    "fits_array 160 (''Saved '' @ name @ '' ('' @ show_nat (unat n) @ '' bytes)'') = Some (''Saved '' @ name @ '' ('' @ show_nat (unat n) @ '' bytes)'')"
proof -
  show "fits_array 128 (''Downloading '' @ name @ ''...'') = Some (''Downloading '' @ name @ ''...'')"
    using assms by (intro fits_array_Some) simp
  show "fits_array 128 (''Downloading '' @ name @ '': '' @ show_nat (unat n) @ '' of '' @ show_nat (unat t) @ '' bytes'')
      = Some (''Downloading '' @ name @ '': '' @ show_nat (unat n) @ '' of '' @ show_nat (unat t) @ '' bytes'')"
    using assms show_32 [of n] show_32 [of t] by (intro fits_array_Some) simp
  show "fits_array 128 (''Downloading '' @ name @ '': '' @ show_nat (unat n) @ '' bytes'')
      = Some (''Downloading '' @ name @ '': '' @ show_nat (unat n) @ '' bytes'')"
    using assms show_32 [of n] by (intro fits_array_Some) simp
  show "fits_array 160 (''Saved '' @ name @ '' ('' @ show_nat (unat n) @ '' bytes)'') = Some (''Saved '' @ name @ '' ('' @ show_nat (unat n) @ '' bytes)'')"
    using assms show_32 [of n] by (intro fits_array_Some) simp
qed

lemma status_frame:
  "dl_contexts (macos9_download_status dw m w) = dl_contexts w" "dl_windows (macos9_download_status dw m w) = dl_windows w"
  "g_active_dw (macos9_download_status dw m w) = g_active_dw w" "dl_files (macos9_download_status dw m w) = dl_files w"
  by (simp_all add: macos9_download_status_def split: option.split)

lemma window_frame:
  "dl_contexts (set_window d dw w) = dl_contexts w" "dl_windows (set_window d dw w) = (dl_windows w)(d \<mapsto> dw)"
  "g_active_dw (set_window d dw w) = g_active_dw w" "dl_files (set_window d dw w) = dl_files w" "dl_status (set_window d dw w) = dl_status w"
  by (simp_all add: set_window_def)

lemma context_frame:
  "dl_contexts (set_context c cx w) = (dl_contexts w)(c \<mapsto> cx)" "dl_windows (set_context c cx w) = dl_windows w"
  "g_active_dw (set_context c cx w) = g_active_dw w" "dl_files (set_context c cx w) = dl_files w" "dl_status (set_context c cx w) = dl_status w"
  by (simp_all add: set_context_def)

lemma free_frame:
  "dl_contexts (free_window d w) = dl_contexts w" "dl_windows (free_window d w) = (dl_windows w)(d := None)"
  "g_active_dw (free_window d w) = (if g_active_dw w = Some d then None else g_active_dw w)" "dl_files (free_window d w) = dl_files w"
  "dl_status (free_window d w) = dl_status w"
  by (simp_all add: free_window_def Let_def)

lemmas dl_frame = status_frame window_frame context_frame free_frame

section \<open>Writing and closing\<close>

text \<open>A window that takes data.\<close>

definition open_window :: "dl_world \<Rightarrow> nat \<Rightarrow> gui_download_window \<Rightarrow> bytes \<Rightarrow> bool" where
  "open_window w d dw b \<longleftrightarrow> dl_windows w d = Some dw \<and> \<not> dw_aborted dw \<and> dw_refnum dw \<ge> 0 \<and> length (dw_filename dw) \<le> 63
     \<and> dl_files w (dw_fsspec dw) = Some b"

lemma data_written:
  assumes o: "open_window w d dw b" and wr: "de_write env b data = (0, length data)"
  shows "\<exists>w'. macos9_download_data env d data w = Some (NSERROR_OK, w')
    \<and> open_window w' d (dw\<lparr>dw_bytes_written := dw_bytes_written dw + of_nat (length data)\<rparr>) (b @ data)
    \<and> dl_contexts w' = dl_contexts w \<and> g_active_dw w' = g_active_dw w \<and> (\<forall>x. x \<noteq> d \<longrightarrow> dl_windows w' x = dl_windows w x)"
proof (cases "data = []")
  case True
  then show ?thesis using o by (auto simp: macos9_download_data_def open_window_def)
next
  case False
  note o' = o [unfolded open_window_def]
  let ?dw = "dw\<lparr>dw_bytes_written := dw_bytes_written dw + of_nat (length data)\<rparr>"
  let ?w = "set_window d ?dw (w\<lparr>dl_files := (dl_files w)(dw_fsspec dw \<mapsto> b @ data)\<rparr>)"
  have "\<exists>msg. macos9_download_data env d data w = Some (NSERROR_OK, ?w) \<or> macos9_download_data env d data w = Some (NSERROR_OK, macos9_download_status ?dw msg ?w)"
  proof -
    have "length (dw_filename dw) \<le> 63" using o' by simp
    note pf = progress_fits [OF this]
    show ?thesis using o' wr False by (auto simp: macos9_download_data_def Let_def pf [simplified])
  qed
  moreover have "open_window ?w d ?dw (b @ data)" "open_window (macos9_download_status ?dw msg ?w) d ?dw (b @ data)" for msg
    using o' by (simp_all add: open_window_def dl_frame)
  ultimately show ?thesis by (auto simp: dl_frame)
qed

lemma done_saved:
  assumes "dl_windows w d = Some dw" "length (dw_filename dw) \<le> 63" "dw_parent dw = Some p"
  shows "\<exists>w'. macos9_download_done d w = Some w' \<and> dl_files w' = dl_files w \<and> dl_contexts w' = dl_contexts w
    \<and> dl_windows w' = (dl_windows w)(d := None) \<and> g_active_dw w' = (if g_active_dw w = Some d then None else g_active_dw w)
    \<and> dl_status w' = dl_status w @ [''Saved '' @ dw_filename dw @ '' ('' @ show_nat (unat (dw_bytes_written dw)) @ '' bytes)'']"
proof -
  define dw1 where "dw1 = dw\<lparr>dw_refnum := (if dw_refnum dw \<ge> 0 then -1 else dw_refnum dw)\<rparr>"
  have f: "dw_filename dw1 = dw_filename dw" "dw_bytes_written dw1 = dw_bytes_written dw" "dw_parent dw1 = Some p"
    using assms(3) by (simp_all add: dw1_def)
  let ?m = "''Saved '' @ dw_filename dw @ '' ('' @ show_nat (unat (dw_bytes_written dw)) @ '' bytes)''"
  have "macos9_download_done d w = Some (free_window d (macos9_download_status dw1 ?m (set_window d dw1 w)))"
    using assms(1) progress_fits(4) [OF assms(2), of "dw_bytes_written dw"] unfolding macos9_download_done_def dw1_def [symmetric]
    by (simp add: Let_def dw1_def [symmetric] f)
  then show ?thesis by (simp add: dl_frame macos9_download_status_def f(3))
qed

section \<open>A download that works\<close>

definition toolbox_works :: "dl_env \<Rightarrow> bool" where
  "toolbox_works env \<longleftrightarrow> de_nav_options env = 0 \<and> (\<forall>n. de_nav_put env n = (0, True)) \<and> fst (de_nav_spec env) = 0 \<and> de_create env = 0
     \<and> fst (de_open env) = 0 \<and> snd (de_open env) \<ge> 0 \<and> (\<forall>old data. de_write env old data = (0, length data))"

definition headers_parse :: "dl_env \<Rightarrow> nat \<Rightarrow> bool" where
  "headers_parse env h \<longleftrightarrow> (\<forall>v. \<exists>t. de_content_type env v = Inr t) \<and> (\<forall>v. \<exists>r. de_disposition env v = Inr r) \<and> de_nice env h \<noteq> None"

lemma create_works:
  assumes t: "toolbox_works env" and free: "g_active_dw w = None" and d: "de_new_window env (dl_windows w) = Some d"
    and c: "dl_contexts w c = Some cx" "dc_filename cx = Some nm"
  shows "\<exists>w' dw. macos9_download_create env c parent w = Some (Some d, w') \<and> open_window w' d dw [] \<and> dw_bytes_written dw = 0 \<and> dw_parent dw = parent
    \<and> dw_fsspec dw = snd (de_nav_spec env) \<and> dw_filename dw = take 63 nm \<and> dl_contexts w' = dl_contexts w \<and> g_active_dw w' = Some d
    \<and> (\<forall>x. x \<noteq> d \<longrightarrow> dl_windows w' x = dl_windows w x)"
proof -
  define dw where "dw = \<lparr>dw_parent = parent, dw_fsspec = snd (de_nav_spec env), dw_refnum = snd (de_open env), dw_bytes_written = 0,
                         dw_total_length = (if dc_total_length cx > 0xFFFFFFFF then 0xFFFFFFFF else ucast (dc_total_length cx)), dw_filename = take 63 nm, dw_aborted = False\<rparr>"
  have len: "length (take 63 nm) \<le> 63" by simp
  note pf = progress_fits(1) [OF len]
  let ?w2 = "w\<lparr>dl_files := (dl_files w)(snd (de_nav_spec env) := None)\<rparr>\<lparr>dl_files := (dl_files w)(snd (de_nav_spec env) \<mapsto> []),
      dl_kinds := (dl_kinds w)(snd (de_nav_spec env) \<mapsto> macos9_download_mime_to_type (dc_mime_type cx))\<rparr>"
  let ?w = "(set_window d dw (macos9_download_status dw (''Downloading '' @ take 63 nm @ ''...'') ?w2))\<lparr>g_active_dw := Some d\<rparr>"
  have "macos9_download_create env c parent w = Some (Some d, ?w)"
    using t free d c pf unfolding toolbox_works_def macos9_download_create_def
    by (simp add: Let_def download_context_get_filename_def download_context_get_total_length_def download_context_get_mime_type_def dw_def)
  moreover have "open_window ?w d dw []" using t by (simp add: open_window_def dl_frame toolbox_works_def dw_def)
  ultimately show ?thesis by (intro exI [of _ ?w] exI [of _ dw]) (simp add: dl_frame dw_def)
qed

lemma process_works:
  assumes t: "toolbox_works env" and hp: "headers_parse env (dc_llcache cx)" and free: "g_active_dw w = None"
    and d: "de_new_window env (dl_windows w) = Some d" and c: "dl_contexts w c = Some cx" "dc_parent cx = Some p"
  shows "\<exists>w' dw cx'. download_context_process_headers env c w = Some (NSERROR_OK, w') \<and> open_window w' d dw [] \<and> dw_bytes_written dw = 0
    \<and> dw_parent dw = Some p \<and> dw_fsspec dw = snd (de_nav_spec env) \<and> dl_contexts w' = (dl_contexts w)(c \<mapsto> cx') \<and> dc_window cx' = Some d
    \<and> g_active_dw w' = Some d \<and> (\<forall>x. x \<noteq> d \<longrightarrow> dl_windows w' x = dl_windows w x)"
proof -
  let ?h = "dc_llcache cx"
  obtain ty where ty: "de_content_type env (case de_header env ?h ''Content-Type'' of None \<Rightarrow> ''text/plain'' | Some v \<Rightarrow> v) = Inr ty"
    using hp unfolding headers_parse_def by blast
  define length where "length = (case de_header env ?h ''Content-Length'' of None \<Rightarrow> 0 | Some v \<Rightarrow> strtoull_10 v)"
  obtain cx1 where cx1: "(case de_header env ?h ''Content-Disposition'' of
                               None \<Rightarrow> Inr cx
                             | Some v \<Rightarrow> (case de_disposition env v of
                                 Inl error \<Rightarrow> Inl error
                               | Inr None \<Rightarrow> Inr cx
                               | Inr (Some name) \<Rightarrow> Inr (cx\<lparr>dc_filename := Some (download_parse_filename name)\<rparr>))) = Inr cx1"
    "dc_parent cx1 = Some p"
  proof (cases "de_header env ?h ''Content-Disposition''")
    case None
    then show ?thesis using that [of cx] c(2) by simp
  next
    case (Some v)
    obtain r where "de_disposition env v = Inr r" using hp unfolding headers_parse_def by blast
    then show ?thesis using that Some c(2) by (cases r) auto
  qed
  define cx2 where "cx2 = cx1\<lparr>dc_mime_type := Some ty, dc_total_length := length\<rparr>"
  define cx3 where "cx3 = (if dc_filename cx2 = None then cx2\<lparr>dc_filename := de_nice env ?h\<rparr> else cx2)"
  have "dc_filename cx3 \<noteq> None" using hp unfolding headers_parse_def cx3_def by simp
  then obtain nm where nm: "dc_filename cx3 = Some nm" by blast
  have par: "dc_parent cx3 = Some p" using cx1(2) by (simp add: cx3_def cx2_def)
  obtain w' dw where w': "macos9_download_create env c (Some p) (set_context c cx3 w) = Some (Some d, w')" "open_window w' d dw []"
    "dw_bytes_written dw = 0" "dw_parent dw = Some p" "dw_fsspec dw = snd (de_nav_spec env)"
    "dl_contexts w' = (dl_contexts w)(c \<mapsto> cx3)" "g_active_dw w' = Some d" "\<forall>x. x \<noteq> d \<longrightarrow> dl_windows w' x = dl_windows w x"
    using create_works [OF t, of "set_context c cx3 w" d c cx3 nm "Some p"] free d nm by (auto simp: dl_frame)
  let ?w = "set_context c (cx3\<lparr>dc_window := Some d\<rparr>) w'"
  have "download_context_process_headers env c w = Some (NSERROR_OK, ?w)"
    unfolding download_context_process_headers_def Let_def
    by (simp only: c(1) ty cx1(1) bind.bind_lunit sum.case length_def [symmetric] cx2_def [symmetric] cx3_def [symmetric])
      (simp add: nm par w'(1))
  moreover have "open_window ?w d dw []" using w'(2) by (simp add: open_window_def dl_frame)
  ultimately show ?thesis using w'(3-8)
    by (intro exI [of _ ?w] exI [of _ dw] exI [of _ "cx3\<lparr>dc_window := Some d\<rparr>"]) (simp add: dl_frame)
qed

lemma events_append:
  "download_events env h c (xs @ ys) w =
    do { (r1, w1) \<leftarrow> download_events env h c xs w; (r2, w2) \<leftarrow> download_events env h c ys w1; Some (r1 @ r2, w2) }"
proof (induction xs arbitrary: w)
  case Nil
  then show ?case by (auto split: bind_splits)
next
  case (Cons x xs)
  then show ?case by (cases "download_callback env h x c w") (auto split: bind_splits prod.splits)
qed

lemma chunks_written:
  assumes t: "toolbox_works env"
  shows "open_window w d dw b \<Longrightarrow> dl_contexts w c = Some cx \<Longrightarrow> dc_window cx = Some d \<Longrightarrow>
    \<exists>w'. download_events env h c (map LLCACHE_EVENT_HAD_DATA ds) w = Some ([], w')
    \<and> open_window w' d (dw\<lparr>dw_bytes_written := dw_bytes_written dw + of_nat (length (concat ds))\<rparr>) (b @ concat ds)
    \<and> dl_contexts w' = dl_contexts w \<and> g_active_dw w' = g_active_dw w \<and> (\<forall>x. x \<noteq> d \<longrightarrow> dl_windows w' x = dl_windows w x)"
proof (induction ds arbitrary: w dw b)
  case Nil
  then show ?case by simp
next
  case (Cons data ds)
  have "de_write env b data = (0, length data)" using t by (simp add: toolbox_works_def)
  from data_written [OF Cons.prems(1) this] obtain w1 where w1: "macos9_download_data env d data w = Some (NSERROR_OK, w1)"
    "open_window w1 d (dw\<lparr>dw_bytes_written := dw_bytes_written dw + of_nat (length data)\<rparr>) (b @ data)"
    "dl_contexts w1 = dl_contexts w" "g_active_dw w1 = g_active_dw w" "\<forall>x. x \<noteq> d \<longrightarrow> dl_windows w1 x = dl_windows w x" by blast
  obtain w2 where w2: "download_events env h c (map LLCACHE_EVENT_HAD_DATA ds) w1 = Some ([], w2)"
    "open_window w2 d (dw\<lparr>dw_bytes_written := dw_bytes_written dw + of_nat (length data) + of_nat (length (concat ds))\<rparr>) ((b @ data) @ concat ds)"
    "dl_contexts w2 = dl_contexts w1" "g_active_dw w2 = g_active_dw w1" "\<forall>x. x \<noteq> d \<longrightarrow> dl_windows w2 x = dl_windows w1 x"
    using Cons.IH [OF w1(2)] Cons.prems(2,3) w1(3) by auto
  have "download_callback env h (LLCACHE_EVENT_HAD_DATA data) c w = Some (NSERROR_OK, [], w1)"
    using Cons.prems(2,3) w1(1) by (simp add: download_callback_def)
  then have "download_events env h c (map LLCACHE_EVENT_HAD_DATA (data # ds)) w = Some ([], w2)" using w2(1) by simp
  then show ?case using w2 w1(3-5) by (auto simp: algebra_simps)
qed


definition ex_dl_env :: dl_env where
  "ex_dl_env = \<lparr>de_header = (\<lambda>h n. if n = ''Content-Length'' then Some ''3'' else None), de_nice = (\<lambda>h. Some ''paper.pdf''),
     de_content_type = (\<lambda>v. Inr ''application/pdf''), de_disposition = (\<lambda>v. Inr None), de_new_context = first_free, de_new_window = first_free,
     de_nav_options = 0, de_nav_put = (\<lambda>n. (0, True)), de_nav_spec = (0, 5), de_create = 0, de_open = (0, 3), de_write = (\<lambda>old data. (0, length data))\<rparr>"

definition dl_start :: dl_world where
  "dl_start = \<lparr>dl_contexts = (\<lambda>_. None), dl_windows = (\<lambda>_. None), g_active_dw = None, dl_files = (\<lambda>_. None), dl_kinds = (\<lambda>_. None), dl_status = []\<rparr>"

text \<open>A download for the handle 0, with a parent window.\<close>

definition ex_dl_world :: dl_world where
  "ex_dl_world = snd (snd (download_context_create ex_dl_env 0 (Some 1) dl_start))"

lemma ex_works: "toolbox_works ex_dl_env" "headers_parse ex_dl_env h"
  by (simp_all add: toolbox_works_def headers_parse_def ex_dl_env_def)

lemma ex_context:
  "dl_contexts ex_dl_world 0 = Some \<lparr>dc_llcache = 0, dc_parent = Some 1, dc_mime_type = None, dc_total_length = 0, dc_filename = None, dc_window = None\<rparr>"
  "g_active_dw ex_dl_world = None" "de_new_window ex_dl_env (dl_windows ex_dl_world) = Some 0"
  by (simp_all add: ex_dl_world_def download_context_create_def dl_start_def ex_dl_env_def first_free_def set_context_def)


section \<open>Reachable worlds\<close>

text \<open>The parsers of header values do not fail with \<open>NSERROR_OK\<close>.\<close>

definition parsers_honest :: "dl_env \<Rightarrow> bool" where
  "parsers_honest env \<longleftrightarrow> (\<forall>v e. de_content_type env v = Inl e \<longrightarrow> e \<noteq> NSERROR_OK) \<and> (\<forall>v e. de_disposition env v = Inl e \<longrightarrow> e \<noteq> NSERROR_OK)"

lemma ok_cong:
  "dl_windows w' = dl_windows w \<Longrightarrow> g_active_dw w' = g_active_dw w \<Longrightarrow> dl_ok w' \<longleftrightarrow> dl_ok w"
  by (simp add: dl_ok_def)

lemma ok_rewindow:
  assumes ok: "dl_ok w" and d: "dl_windows w d = Some dw"
    and w': "dl_windows w' = (dl_windows w)(d \<mapsto> dw')" "g_active_dw w' = g_active_dw w" and len: "length (dw_filename dw') \<le> 63"
  shows "dl_ok w'"
proof -
  have a: "g_active_dw w = Some d" using ok d unfolding dl_ok_def by blast
  have one: "x = d" if "dl_windows w x = Some v" for x v
  proof -
    have "g_active_dw w = Some x" using ok that unfolding dl_ok_def by blast
    then show ?thesis using a by simp
  qed
  have "length (dw_filename v) \<le> 63 \<and> g_active_dw w' = Some x" if "dl_windows w' x = Some v" for x v
    using that one [of x] len a w' by (cases "x = d") auto
  then show ?thesis using a w' unfolding dl_ok_def by simp
qed

lemma ok_free:
  assumes ok: "dl_ok w"
  shows "dl_ok (free_window d w)"
proof -
  have "length (dw_filename v) \<le> 63 \<and> g_active_dw (free_window d w) = Some x" if "dl_windows (free_window d w) x = Some v" for x v
  proof -
    have "dl_windows w x = Some v" "x \<noteq> d" using that by (auto simp: dl_frame split: if_splits)
    then show ?thesis using ok unfolding dl_ok_def by (simp add: dl_frame)
  qed
  moreover have "dl_windows (free_window d w) x \<noteq> None" if "g_active_dw (free_window d w) = Some x" for x
  proof -
    have "g_active_dw w = Some x" "x \<noteq> d" using that by (auto simp: dl_frame split: if_splits)
    then show ?thesis using ok unfolding dl_ok_def by (simp add: dl_frame)
  qed
  ultimately show ?thesis unfolding dl_ok_def by blast
qed

lemma ok_first:
  assumes "dl_ok w" "g_active_dw w = None" "dl_windows w' = (dl_windows w)(d \<mapsto> dw)" "g_active_dw w' = Some d" "length (dw_filename dw) \<le> 63"
  shows "dl_ok w'"
proof -
  have "dl_windows w x = None" for x
  proof (rule ccontr)
    assume "dl_windows w x \<noteq> None"
    then obtain v where "dl_windows w x = Some v" by blast
    then show False using assms(1,2) unfolding dl_ok_def by fastforce
  qed
  then show ?thesis using assms(3-5) by (simp add: dl_ok_def)
qed

definition created_well :: "dl_world \<Rightarrow> (nat option \<times> dl_world) option \<Rightarrow> bool" where
  "created_well w res \<longleftrightarrow> (\<exists>r w'. res = Some (r, w') \<and> dl_contexts w' = dl_contexts w
    \<and> (\<forall>d. r = Some d \<longrightarrow> dl_windows w' d \<noteq> None) \<and> (dl_ok w \<longrightarrow> dl_ok w'))"

lemma created_if: "(b \<Longrightarrow> created_well w x) \<Longrightarrow> (\<not> b \<Longrightarrow> created_well w y) \<Longrightarrow> created_well w (if b then x else y)"
  by simp

lemma created_none:
  "dl_contexts v = dl_contexts w \<Longrightarrow> dl_windows v = dl_windows w \<Longrightarrow> g_active_dw v = g_active_dw w \<Longrightarrow> created_well w (Some (None, v))"
  by (simp add: created_well_def ok_cong [of v w])

lemma create_total:
  assumes c: "dl_contexts w c = Some cx"
  shows "created_well w (macos9_download_create env c parent w)"
proof -
  define nm where "nm = (case download_context_get_filename cx of Some s \<Rightarrow> take 63 s | None \<Rightarrow> ''untitled'')"
  define dw where "dw = \<lparr>dw_parent = parent, dw_fsspec = snd (de_nav_spec env), dw_refnum = snd (de_open env), dw_bytes_written = 0,
                         dw_total_length = (if download_context_get_total_length cx > 0xFFFFFFFF then 0xFFFFFFFF
                           else ucast (download_context_get_total_length cx)), dw_filename = nm, dw_aborted = False\<rparr>"
  have len: "length (dw_filename dw) \<le> 63" by (simp add: dw_def nm_def split: option.split)
  note pf = progress_fits(1) [OF len]
  show ?thesis
  proof (cases "g_active_dw w = None \<and> de_new_window env (dl_windows w) \<noteq> None")
    case False
    then have "macos9_download_create env c parent w = Some (None, w)" unfolding macos9_download_create_def
      by (cases "g_active_dw w = None") (simp_all only: if_True if_False option.case simp_thms not_not)
    then show ?thesis by (simp add: created_none)
  next
    case True
    then obtain d where free: "g_active_dw w = None" and d: "de_new_window env (dl_windows w) = Some d" by blast
    have opened: "created_well w (Some (Some d, (set_window d dw (macos9_download_status dw m v))\<lparr>g_active_dw := Some d\<rparr>))"
      if "dl_contexts v = dl_contexts w" "dl_windows v = dl_windows w" for m v
      using ok_first [of w _ d dw] free len that by (simp add: created_well_def dl_frame)
    show ?thesis
      unfolding macos9_download_create_def Let_def c bind.bind_lunit nm_def [symmetric] dw_def [symmetric] d option.case pf
      using free by (intro created_if created_none opened) simp_all
  qed
qed

lemma process_total:
  assumes c: "dl_contexts w c = Some cx" and p: "parsers_honest env"
  shows "\<exists>e w'. download_context_process_headers env c w = Some (e, w') \<and> dl_contexts w' c \<noteq> None
    \<and> (e = NSERROR_OK \<longrightarrow> (\<exists>cx' d. dl_contexts w' c = Some cx' \<and> dc_window cx' = Some d \<and> dl_windows w' d \<noteq> None)) \<and> (dl_ok w \<longrightarrow> dl_ok w')"
proof -
  have err: "\<exists>e w'. Some (er, w) = Some (e, w') \<and> dl_contexts w' c \<noteq> None
    \<and> (e = NSERROR_OK \<longrightarrow> (\<exists>cx' d. dl_contexts w' c = Some cx' \<and> dc_window cx' = Some d \<and> dl_windows w' d \<noteq> None)) \<and> (dl_ok w \<longrightarrow> dl_ok w')"
    if "er \<noteq> NSERROR_OK" for er using that c by simp
  have named: "\<exists>e w'. (if dc_filename cx3 = None then Some (NSERROR_NOMEM, set_context c (cx3\<lparr>dc_mime_type := None\<rparr>) w)
                           else do { (win, w1) \<leftarrow> macos9_download_create env c (dc_parent cx3) (set_context c cx3 w);
                                     (case win of
                                        None \<Rightarrow> Some (NSERROR_NOMEM, set_context c (cx3\<lparr>dc_filename := None, dc_mime_type := None\<rparr>) w1)
                                      | Some d \<Rightarrow> Some (NSERROR_OK, set_context c (cx3\<lparr>dc_window := Some d\<rparr>) w1)) }) = Some (e, w') \<and> dl_contexts w' c \<noteq> None
    \<and> (e = NSERROR_OK \<longrightarrow> (\<exists>cx' d. dl_contexts w' c = Some cx' \<and> dc_window cx' = Some d \<and> dl_windows w' d \<noteq> None)) \<and> (dl_ok w \<longrightarrow> dl_ok w')" for cx3
  proof -
    obtain r w' where w': "macos9_download_create env c (dc_parent cx3) (set_context c cx3 w) = Some (r, w')" "\<forall>d. r = Some d \<longrightarrow> dl_windows w' d \<noteq> None"
      "dl_ok (set_context c cx3 w) \<longrightarrow> dl_ok w'" using create_total [of "set_context c cx3 w" c cx3 env "dc_parent cx3"] by (auto simp: dl_frame created_well_def)
    have "dl_ok w \<longrightarrow> dl_ok w'" using w'(3) ok_cong [of "set_context c cx3 w" w] by (simp add: dl_frame)
    moreover have "dl_ok (set_context c x v) \<longleftrightarrow> dl_ok v" for x v using ok_cong [of "set_context c x v" v] by (simp add: dl_frame)
    ultimately show ?thesis using w'(1,2) by (cases r) (simp_all add: dl_frame)
  qed
  show ?thesis
  proof (cases "de_content_type env (case de_header env (dc_llcache cx) ''Content-Type'' of None \<Rightarrow> ''text/plain'' | Some v \<Rightarrow> v)")
    case (Inl er)
    then show ?thesis using err [of er] p c unfolding download_context_process_headers_def parsers_honest_def by (simp add: Let_def)
  next
    case ty: (Inr ty)
    show ?thesis
    proof (cases "(case de_header env (dc_llcache cx) ''Content-Disposition'' of
                               None \<Rightarrow> Inr cx
                             | Some v \<Rightarrow> (case de_disposition env v of
                                 Inl error \<Rightarrow> Inl error
                               | Inr None \<Rightarrow> Inr cx
                               | Inr (Some name) \<Rightarrow> Inr (cx\<lparr>dc_filename := Some (download_parse_filename name)\<rparr>)))")
      case (Inl er)
      then have "er \<noteq> NSERROR_OK" using p by (auto simp: parsers_honest_def split: option.splits sum.splits)
      from err [OF this] show ?thesis unfolding download_context_process_headers_def Let_def
        by (simp only: c ty Inl bind.bind_lunit sum.case)
    next
      case (Inr cx1)
      show ?thesis unfolding download_context_process_headers_def Let_def
        by (simp only: c ty Inr bind.bind_lunit sum.case) (rule named)
    qed
  qed
qed

lemma process_or_destroy_total:
  assumes c: "dl_contexts w c = Some cx" and p: "parsers_honest env"
  shows "\<exists>e reqs w'. process_or_destroy env h c w = Some (e, reqs, w')
    \<and> (e = NSERROR_OK \<longrightarrow> (\<exists>cx' d. dl_contexts w' c = Some cx' \<and> dc_window cx' = Some d \<and> dl_windows w' d \<noteq> None)) \<and> (dl_ok w \<longrightarrow> dl_ok w')"
proof -
  obtain e w1 cx1 where w1: "download_context_process_headers env c w = Some (e, w1)" "dl_contexts w1 c = Some cx1"
    "e = NSERROR_OK \<longrightarrow> (\<exists>cx' d. dl_contexts w1 c = Some cx' \<and> dc_window cx' = Some d \<and> dl_windows w1 d \<noteq> None)" "dl_ok w \<longrightarrow> dl_ok w1"
    using process_total [OF assms] by blast
  show ?thesis using w1 by (cases "e = NSERROR_OK") (simp_all add: process_or_destroy_def download_context_destroy_def dl_ok_def)
qed

lemma data_total:
  assumes "dl_windows w d \<noteq> None" "dl_ok w"
  shows "\<exists>e w'. macos9_download_data env d data w = Some (e, w') \<and> dl_ok w'"
proof -
  obtain dw where dw: "dl_windows w d = Some dw" using assms(1) by blast
  have len: "length (dw_filename dw) \<le> 63" using assms(2) dw by (auto simp: dl_ok_def)
  note pf = progress_fits [OF len]
  let ?old = "case dl_files w (dw_fsspec dw) of None \<Rightarrow> [] | Some b \<Rightarrow> b"
  have 1: "dl_ok (set_window d (dw\<lparr>dw_aborted := True\<rparr>) (w\<lparr>dl_files := fs\<rparr>))" "dl_ok (set_window d (dw\<lparr>dw_bytes_written := x\<rparr>) (w\<lparr>dl_files := fs\<rparr>))"
    "dl_ok (macos9_download_status v m (set_window d (dw\<lparr>dw_bytes_written := x\<rparr>) (w\<lparr>dl_files := fs\<rparr>)))" for fs x v m
    using ok_rewindow [OF assms(2) dw] len by (simp_all add: dl_frame)
  show ?thesis
  proof (cases "de_write env ?old data")
    case (Pair err n)
    show ?thesis using dw assms(2) 1 Pair by (auto simp: macos9_download_data_def Let_def pf [simplified])
  qed
qed

lemma done_total:
  assumes "dl_windows w d \<noteq> None" "dl_ok w"
  shows "\<exists>w'. macos9_download_done d w = Some w' \<and> dl_ok w'"
proof -
  obtain dw where dw: "dl_windows w d = Some dw" using assms(1) by blast
  have len: "length (dw_filename dw) \<le> 63" using assms(2) dw by (auto simp: dl_ok_def)
  have "dl_ok (free_window d (macos9_download_status v m (set_window d dw' w)))" if "dw_filename dw' = dw_filename dw" for v m dw'
    by (rule ok_free, rule ok_rewindow [OF assms(2) dw, where dw' = dw']) (use len that in \<open>simp_all add: dl_frame\<close>)
  then show ?thesis using dw progress_fits(4) [OF len, of "dw_bytes_written dw"] by (simp add: macos9_download_done_def Let_def)
qed

lemma error_total:
  assumes "dl_windows w d \<noteq> None" "dl_ok w" "\<forall>s. m = Some s \<longrightarrow> length s \<le> 142"
  shows "\<exists>w'. macos9_download_error d m w = Some w' \<and> dl_ok w'"
proof -
  obtain dw where dw: "dl_windows w d = Some dw" using assms(1) by blast
  have len: "length (dw_filename dw) \<le> 63" using assms(2) dw by (auto simp: dl_ok_def)
  have "dl_ok (free_window d (macos9_download_status v s ((set_window d dw' w)\<lparr>dl_files := fs\<rparr>)))" if "dw_filename dw' = dw_filename dw" for v s dw' fs
    by (rule ok_free, rule ok_rewindow [OF assms(2) dw, where dw' = dw']) (use len that in \<open>simp_all add: dl_frame\<close>)
  moreover have "length (''Download failed: '' @ (case m of Some s \<Rightarrow> s | None \<Rightarrow> ''download failed'')) < 160" using assms(3) by (cases m) auto
  note fits_array_Some [OF this]
  ultimately show ?thesis using dw by (simp add: macos9_download_error_def Let_def)
qed

text \<open>What the code needs of a context that is told an event: its window, if it has one, is there, and a message is short.\<close>

definition told_well :: "dl_world \<Rightarrow> nat \<Rightarrow> llcache_event \<Rightarrow> bool" where
  "told_well w c ev \<longleftrightarrow> (\<exists>cx. dl_contexts w c = Some cx \<and> (\<forall>d. dc_window cx = Some d \<longrightarrow> dl_windows w d \<noteq> None))
     \<and> (case ev of LLCACHE_EVENT_ERROR e (Some m) \<Rightarrow> length m \<le> 142 | _ \<Rightarrow> True)"

lemma callback_total:
  assumes p: "parsers_honest env" and ok: "dl_ok w" and t: "told_well w c ev"
  shows "\<exists>e reqs w'. download_callback env h ev c w = Some (e, reqs, w') \<and> dl_ok w'"
proof -
  obtain cx where c: "dl_contexts w c = Some cx" and win: "\<forall>d. dc_window cx = Some d \<longrightarrow> dl_windows w d \<noteq> None"
    using t by (auto simp: told_well_def)
  have gone: "dl_ok (w\<lparr>dl_contexts := (dl_contexts w)(c := None)\<rparr>)" using ok by (simp add: dl_ok_def)
  obtain e reqs w1 where w1: "process_or_destroy env h c w = Some (e, reqs, w1)" "dl_ok w1"
    "e = NSERROR_OK \<longrightarrow> (\<exists>cx' d. dl_contexts w1 c = Some cx' \<and> dc_window cx' = Some d \<and> dl_windows w1 d \<noteq> None)"
    using process_or_destroy_total [OF c p] ok by blast
  show ?thesis
  proof (cases ev)
    case (LLCACHE_EVENT_HAD_DATA data)
    show ?thesis
    proof (cases "dc_window cx")
      case None
      show ?thesis
      proof (cases "e = NSERROR_OK")
        case True
        then obtain cx' d where d: "dl_contexts w1 c = Some cx'" "dc_window cx' = Some d" "dl_windows w1 d \<noteq> None" using w1(3) by blast
        obtain e2 w2 where "macos9_download_data env d data w1 = Some (e2, w2)" "dl_ok w2" using data_total [OF d(3) w1(2)] by blast
        then show ?thesis using LLCACHE_EVENT_HAD_DATA None c w1 True d by (simp add: download_callback_def)
      next
        case False
        then show ?thesis using LLCACHE_EVENT_HAD_DATA None c w1 by (simp add: download_callback_def)
      qed
    next
      case (Some d)
      obtain e2 w2 where "macos9_download_data env d data w = Some (e2, w2)" "dl_ok w2" using data_total [of w d] win Some ok by blast
      then show ?thesis using LLCACHE_EVENT_HAD_DATA Some c by (simp add: download_callback_def)
    qed
  next
    case LLCACHE_EVENT_DONE
    show ?thesis
    proof (cases "dc_window cx")
      case None
      then show ?thesis using LLCACHE_EVENT_DONE c gone by (simp add: download_callback_def download_context_destroy_def)
    next
      case (Some d)
      then obtain w2 where "macos9_download_done d w = Some w2" "dl_ok w2" using done_total [of w d] win ok by blast
      then show ?thesis using LLCACHE_EVENT_DONE c Some by (simp add: download_callback_def)
    qed
  next
    case (LLCACHE_EVENT_ERROR er m)
    have m: "\<forall>s. m = Some s \<longrightarrow> length s \<le> 142" using t LLCACHE_EVENT_ERROR by (auto simp: told_well_def split: option.splits)
    show ?thesis
    proof (cases "dc_window cx")
      case None
      then show ?thesis using LLCACHE_EVENT_ERROR c gone by (simp add: download_callback_def download_context_destroy_def)
    next
      case (Some d)
      then obtain w2 where "macos9_download_error d m w = Some w2" "dl_ok w2" using error_total [of w d m] win ok m by blast
      then show ?thesis using LLCACHE_EVENT_ERROR c Some by (simp add: download_callback_def)
    qed
  qed (use w1 ok in \<open>simp_all add: download_callback_def\<close>)
qed

inductive dl_reach :: "dl_env \<Rightarrow> dl_world \<Rightarrow> bool" for env where
  start: "dl_reach env dl_start"
| create: "dl_reach env w \<Longrightarrow> download_context_create env h parent w = (e, c, w') \<Longrightarrow> dl_reach env w'"
| event: "dl_reach env w \<Longrightarrow> told_well w c ev \<Longrightarrow> download_callback env h ev c w = Some (e, reqs, w') \<Longrightarrow> dl_reach env w'"
| destroy: "dl_reach env w \<Longrightarrow> download_context_destroy c w = Some (reqs, w') \<Longrightarrow> dl_reach env w'"

lemma reach_dl_ok:
  assumes "dl_reach env w" "parsers_honest env"
  shows "dl_ok w"
  using assms(1)
proof induction
  case start
  show ?case by (simp add: dl_ok_def dl_start_def)
next
  case (create w h parent e c w')
  then show ?case by (auto simp: download_context_create_def dl_ok_def dl_frame split: option.splits)
next
  case (event w c ev h e reqs w')
  then show ?case using callback_total [OF assms(2) event.IH, of c ev h] by auto
next
  case (destroy w c reqs w')
  then show ?case by (auto simp: download_context_destroy_def dl_ok_def split: bind_splits)
qed



section \<open>Errors on the way\<close>

text \<open>
  C39. If the fetch fails once the window is there, the error closes and frees the window, but the context goes on
  pointing at it. Whatever the low-level cache tells the download next, more data or the end, uses the freed window.
\<close>

theorem download_error_leaves_dangling:
  assumes "dl_contexts w c = Some cx" "dc_window cx = Some d" "dl_windows w d = Some dw" "\<forall>s. m = Some s \<longrightarrow> length s \<le> 142"
  shows "\<exists>w1. download_callback env h (LLCACHE_EVENT_ERROR e m) c w = Some (NSERROR_OK, [], w1) \<and> dl_windows w1 d = None
    \<and> (\<forall>data. download_callback env h (LLCACHE_EVENT_HAD_DATA data) c w1 = None) \<and> download_callback env h LLCACHE_EVENT_DONE c w1 = None"
proof -
  have "length (''Download failed: '' @ (case m of Some s \<Rightarrow> s | None \<Rightarrow> ''download failed'')) < 160" using assms(4) by (cases m) auto
  from fits_array_Some [OF this] obtain w1 where w1: "macos9_download_error d m w = Some w1" "dl_windows w1 d = None" "dl_contexts w1 = dl_contexts w"
    using assms(3) by (auto simp: macos9_download_error_def Let_def dl_frame)
  have "macos9_download_data env d data w1 = None" "macos9_download_done d w1 = None" for data
    using w1(2) by (simp_all add: macos9_download_data_def macos9_download_done_def)
  then show ?thesis using assms(1,2) w1 by (intro exI [of _ w1]) (simp add: download_callback_def)
qed

text \<open>
  C40. A write that fails, or writes less than all, ends the fetch with \<open>NSERROR_SAVE_FAILED\<close>; the object is then complete and
  the download is told of the end, on which it reports the file as saved and keeps what there
  is of it.
\<close>

theorem download_failed_write_saved:
  assumes "open_window w d dw b" "dl_contexts w c = Some cx" "dc_window cx = Some d" "dw_parent dw = Some p" "data \<noteq> []"
    "de_write env b data = (err, n)" "err \<noteq> 0 \<or> n \<noteq> length data"
  shows "\<exists>w1 w2. download_callback env h (LLCACHE_EVENT_HAD_DATA data) c w = Some (NSERROR_SAVE_FAILED, [HandleAbort h], w1)
    \<and> download_callback env h LLCACHE_EVENT_DONE c w1 = Some (NSERROR_OK, [], w2) \<and> dl_files w2 (dw_fsspec dw) = Some (b @ take n data)
    \<and> last (dl_status w2) = ''Saved '' @ dw_filename dw @ '' ('' @ show_nat (unat (dw_bytes_written dw)) @ '' bytes)''"
proof -
  note o = assms(1) [unfolded open_window_def]
  let ?dw = "dw\<lparr>dw_aborted := True\<rparr>"
  let ?w1 = "set_window d ?dw (w\<lparr>dl_files := (dl_files w)(dw_fsspec dw \<mapsto> b @ take n data)\<rparr>)"
  have "macos9_download_data env d data w = Some (NSERROR_SAVE_FAILED, ?w1)"
    using o assms(5-7) by (auto simp: macos9_download_data_def Let_def)
  then have 1: "download_callback env h (LLCACHE_EVENT_HAD_DATA data) c w = Some (NSERROR_SAVE_FAILED, [HandleAbort h], ?w1)"
    using assms(2,3) by (simp add: download_callback_def)
  have "dl_windows ?w1 d = Some ?dw" "length (dw_filename ?dw) \<le> 63" "dw_parent ?dw = Some p" using o assms(4) by (simp_all add: dl_frame)
  from done_saved [OF this] obtain w2 where w2: "macos9_download_done d ?w1 = Some w2" "dl_files w2 = dl_files ?w1"
    "dl_status w2 = dl_status ?w1 @ [''Saved '' @ dw_filename ?dw @ '' ('' @ show_nat (unat (dw_bytes_written ?dw)) @ '' bytes)'']" by blast
  have "download_callback env h LLCACHE_EVENT_DONE c ?w1 = Some (NSERROR_OK, [], w2)"
    using assms(2,3) w2(1) by (simp add: download_callback_def dl_frame)
  then show ?thesis using 1 w2(2,3) by (intro exI [of _ ?w1] exI [of _ w2]) (simp add: dl_frame)
qed

text \<open>A window that has been opened and written once, for the witnesses.\<close>

lemma ex_opened:
  "\<exists>w dw cx. open_window w 0 dw ''ab'' \<and> dl_contexts w 0 = Some cx \<and> dc_window cx = Some 0 \<and> dw_parent dw = Some 1 \<and> dl_windows w 0 = Some dw"
proof -
  obtain w1 dw cx where w1: "download_context_process_headers ex_dl_env 0 ex_dl_world = Some (NSERROR_OK, w1)" "open_window w1 0 dw []"
    "dw_parent dw = Some 1" "dl_contexts w1 = (dl_contexts ex_dl_world)(0 \<mapsto> cx)" "dc_window cx = Some 0"
    using process_works [OF ex_works(1) ex_works(2) ex_context(2,3,1), of 1] by auto
  have c: "dl_contexts w1 0 = Some cx" using w1(4) by simp
  obtain w2 where w2: "open_window w2 0 (dw\<lparr>dw_bytes_written := dw_bytes_written dw + of_nat (length (concat [''ab'']))\<rparr>) ([] @ concat [''ab''])"
    "dl_contexts w2 = dl_contexts w1"
    using chunks_written [OF ex_works(1) w1(2) c w1(5), of 0 "[''ab'']"] by blast
  show ?thesis using w2 c w1(3,5)
    by (intro exI [of _ w2] exI [of _ "dw\<lparr>dw_bytes_written := dw_bytes_written dw + of_nat (length (concat [''ab'']))\<rparr>"] exI [of _ cx])
      (simp add: open_window_def)
qed

lemma download_error_leaves_dangling_witness:
  "\<exists>w1. dl_windows w1 0 = None \<and> download_callback ex_dl_env 0 LLCACHE_EVENT_DONE 0 w1 = None"
proof -
  obtain w dw cx where o: "open_window w 0 dw ''ab''" "dl_contexts w 0 = Some cx" "dc_window cx = Some 0" "dl_windows w 0 = Some dw"
    using ex_opened by blast
  from download_error_leaves_dangling [OF o(2-4), of "Some ''timeout''" ex_dl_env 0 NSERROR_UNKNOWN] show ?thesis by auto
qed

text \<open>A disk that is full after two bytes.\<close>

definition full_disk :: dl_env where
  "full_disk = ex_dl_env\<lparr>de_write := (\<lambda>old data. if length old + length data \<le> 2 then (0, length data) else (-34, 2 - length old))\<rparr>"

lemma download_failed_write_saved_witness:
  "\<exists>w w1 w2 f. download_callback full_disk 0 (LLCACHE_EVENT_HAD_DATA ''c'') 0 w = Some (NSERROR_SAVE_FAILED, [HandleAbort 0], w1)
     \<and> download_callback full_disk 0 LLCACHE_EVENT_DONE 0 w1 = Some (NSERROR_OK, [], w2) \<and> dl_files w2 f = Some ''ab''"
proof -
  obtain w dw cx where o: "open_window w 0 dw ''ab''" "dl_contexts w 0 = Some cx" "dc_window cx = Some 0" "dw_parent dw = Some 1" using ex_opened by blast
  have "de_write full_disk ''ab'' ''c'' = (-34, 0)" by (simp add: full_disk_def)
  from download_failed_write_saved [OF o _ this, of 0] show ?thesis by (simp, blast)
qed

section \<open>The download in the low-level cache\<close>

text \<open>
  The download as a client of the low-level cache: its state is the world of downloads, or \<open>None\<close> after it has used
  what was freed. Every handle belongs to the context 0.
\<close>

definition dl_client :: "dl_env \<Rightarrow> dl_world option \<Rightarrow> nat \<Rightarrow> llcache_event \<Rightarrow> nserror \<times> handle_request list \<times> dl_world option" where
  "dl_client env s h ev =
     (case s of
        None \<Rightarrow> (NSERROR_OK, [], None)
      | Some w \<Rightarrow>
          (case download_callback env h ev 0 w of
             None \<Rightarrow> (NSERROR_OK, [], None)
           | Some (err, reqs, w1) \<Rightarrow> (err, reqs, Some w1)))"

definition dl_cache_env :: "dl_env \<Rightarrow> dl_world option llcache_env" where
  "dl_cache_env env = \<lparr>le_cb = dl_client env, le_new_object = first_free, le_new_user = first_free, le_new_handle = first_free,
     le_grow = (\<lambda>_. True), le_http_code = 200, le_now = 10, le_sizeof = 100, le_other_size = (\<lambda>_. 0), le_limit = 1000\<rparr>"

definition dl_run :: "(dl_world option llcache \<Rightarrow> dl_world option llcache option) list \<Rightarrow> dl_world option llcache \<Rightarrow> dl_world option llcache option" where
  "dl_run fs w = fold (\<lambda>f r. Option.bind r f) fs (Some w)"

text \<open>A handle with its fetch, some data, and a pass over the users, in which the download opens its window and writes; then what follows.\<close>

definition ex_run :: "dl_env \<Rightarrow> (dl_world option llcache \<Rightarrow> dl_world option llcache option) list \<Rightarrow> dl_world option llcache option" where
  "ex_run env fs =
     dl_run ([llcache_handle_retrieve (dl_cache_env env) None UncachedObjects False, llcache_fetch_callback (dl_cache_env env) 0 (MsgData ''abc''),
       llcache_catch_up_all_users (dl_cache_env env)] @ fs) (llcache_start (Some ex_dl_world))"

text \<open>The file 5, the slot is free, and the last line of the status bar.\<close>

definition dl_ended :: "bytes \<Rightarrow> string \<Rightarrow> dl_world option llcache option \<Rightarrow> bool" where
  "dl_ended b msg r =
     (case r of
        None \<Rightarrow> False
      | Some w \<Rightarrow> (case ll_client w of None \<Rightarrow> False | Some x \<Rightarrow> dl_files x 5 = Some b \<and> g_active_dw x = None \<and> last (dl_status x) = msg))"

definition dl_crashed :: "dl_world option llcache option \<Rightarrow> bool" where
  "dl_crashed r = (case r of None \<Rightarrow> False | Some w \<Rightarrow> ll_client w = None)"

text \<open>
  Driven by the cache the download saves its file: after more data, the end of the fetch and a pass the file is whole and the slot is
  free. If the fetch fails instead, the error frees the window, and the next pass over the users, which
  tells the handle the rest of its story, uses it. If the disk is full, the fetch is aborted, and the next pass tells the
  download of the end, and the file is reported as saved.
\<close>

lemma download_through_cache:
  "dl_ended ''abcde'' ''Saved paper.pdf (5 bytes)'' (ex_run ex_dl_env [llcache_fetch_callback (dl_cache_env ex_dl_env) 0 (MsgData ''de''),
     llcache_fetch_callback (dl_cache_env ex_dl_env) 0 MsgFinished, llcache_catch_up_all_users (dl_cache_env ex_dl_env)])"
  "\<not> dl_crashed (ex_run ex_dl_env [llcache_fetch_callback (dl_cache_env ex_dl_env) 0 (MsgError (Some ''timeout''))])"
  "dl_crashed (ex_run ex_dl_env [llcache_fetch_callback (dl_cache_env ex_dl_env) 0 (MsgError (Some ''timeout'')), llcache_catch_up_all_users (dl_cache_env ex_dl_env)])"
  "dl_ended ''ab'' ''Saved paper.pdf (0 bytes)'' (ex_run full_disk [llcache_catch_up_all_users (dl_cache_env full_disk)])"
  by code_simp+

end
