(* ===== verification/Spec2Isabelle.thy ===== *)
theory Spec2Isabelle
  imports Scheduler JsTimers HeaderProps CaptureRefine HttpSetup SchemeBounce RequestBounds StubProps ImageProps
    FetchSystem WapcapletSystem DebugLogProps DownloadProps
begin

text \<open>
  MacSurf is a port of the NetSurf browser to Mac OS 9 on PowerPC. This development models the
  core logic the port adds, in \<open>src/browser/netsurf/frontends/macos9\<close>: the code between the
  upstream browser and the Toolbox that keeps state of its own; and of the upstream core the parts
  it stands on: the fetch manager, which drives the fetchers, the low-level cache, which passes
  what they fetch on to its clients, and string internment. All of it runs in one cooperative
  thread: the event loop runs due callbacks of the scheduler, polls the fetchers, pumps the
  JavaScript timers and redraws; nothing interrupts a function, but a function can call back into
  the core, which can call back into it.

  \<^bold>\<open>Parts and theories\<close>

  \<^item> \<open>MS_Prelude\<close>: C strings and library functions (\<open>strchr\<close>, \<open>strtol\<close>, \<open>strncmp\<close>, \<open>%ld\<close>), 32-bit
    integers, bounded first-in-first-out tables, and the locale \<open>timed_queue\<close> of lists kept in
    order of a due time.
  \<^item> \<open>Scheduler\<close> (\<open>schedule.c\<close>): the record \<open>sched\<close> is \<open>sched_queue\<close> with the exported variables
    \<open>macos9_sched_active\<close> and \<open>macos9_sched_time\<close>; \<open>macos9_schedule\<close>, \<open>macos9_schedule_run\<close> and
    \<open>macos9_get_next_delay\<close> are its operations. Callbacks may schedule again.
  \<^item> \<open>JsTimers\<close> (\<open>javascript/macsurf_js_timers.c\<close>, the clock of \<open>macsurf_js_date.c\<close>): the arena of 64
    slots, the list of armed slots and the stash of callbacks; setting, clearing, the pump. States
    are reached by the inductive relation \<open>timers_reach\<close>.
  \<^item> \<open>DiskCache\<close> (\<open>macos9_disk_cache.c\<close>): file names by hash, the file format, eligibility, store and
    lookup, the persisted dead-host list, over a record of File Manager calls.
  \<^item> \<open>ChunkedDecoder\<close> (\<open>process_chunked_bytes\<close> and \<open>cache_capture_append\<close> of
    \<open>macos9_http_fetcher.c\<close>): the decoder as buffer-at-a-time loops, and a byte-at-a-time reference.
  \<^item> \<open>HostLists\<close> (the host tables of \<open>macos9_https_fetcher.c\<close>): dead hosts and their persistence,
    hosts that ever answered, hosts upgraded to TLS, and the scheme tracker of the fallback.
  \<^item> \<open>ConnPool\<close>: the keep-alive pools of both fetchers.
  \<^item> \<open>ResourceGov\<close>: URL classes and skip counters of the resource governor.
  \<^item> \<open>FetchCore\<close>: the messages to the core (\<open>content/fetch.h\<close>), URLs as the fetchers read them, and
    the locale \<open>slot_fetcher\<close> of a fetcher polled slot by slot.
  \<^item> \<open>HttpFetcher\<close> (\<open>macos9_http_fetcher.c\<close>) and \<open>HttpsFetcher\<close> (\<open>macos9_https_fetcher.c\<close>): the
    records \<open>macos9_fetch_ctx\<close> and \<open>macos9_https_ctx\<close> are the 64 slots; \<open>http_world\<close> and
    \<open>https_world\<close> are the module variables with the event log; setup, start, abort, free and poll
    are composed as in the code, state by state. \<open>HttpProps\<close>, \<open>HttpsSteps\<close>, \<open>HttpsProps\<close> hold the
    lemmas of the polls; \<open>HttpSetup\<close>, \<open>HeaderProps\<close>, \<open>RequestBounds\<close>, \<open>CaptureRefine\<close> and
    \<open>SchemeBounce\<close> those of setup, response headers, request buffers, body capture and of the
    fallback from one fetcher to the other.
  \<^item> \<open>StubPages\<close>, \<open>StubFetcher\<close>, \<open>StubProps\<close> (\<open>macos9_fetcher_stubs.c\<close>): the built-in style sheets and
    \<open>about:\<close> pages, and the fetchers of \<open>resource:\<close>, \<open>about:\<close>, \<open>file:\<close>, \<open>data:\<close> and \<open>javascript:\<close>
    with their ring of contexts.
  \<^item> \<open>ImageCache\<close>, \<open>ImageProps\<close> (\<open>macos9_image.c\<close>): the budget of decoded images, its
    least-recently-drawn list, the size gates, redraw and destroy.
  \<^item> \<open>RingMacros\<close>, \<open>FetchManager\<close> (\<open>utils/ring.h\<close>, \<open>content/fetch.c\<close>): the record \<open>fetch_world\<close> has the
    fetcher table, the fetches on the heap (\<open>core_fetch\<close>), and \<open>queue_ring\<close> and \<open>fetch_ring\<close> as
    rings of pointers; starting, dispatching, aborting, messages, release and polling.
    \<open>FetchManagerProps\<close> has the dispatcher against lists, \<open>FetchManagerInv\<close> the invariant, \<open>FetchSystem\<close>
    the reachable states and the manager together with the fetchers above.
  \<^item> \<open>Wapcaplet\<close> (\<open>libwapcaplet.c\<close>, \<open>libwapcaplet.h\<close>): interned strings, \<open>lwc_string\<close>, in bucket lists in
    which each string knows the place that points at it. \<open>WapcapletProps\<close> has the lists and the counts,
    \<open>WapcapletOps\<close> the invariant \<open>lwc_ok\<close> and each operation, \<open>WapcapletSystem\<close> the states callers reach.
  \<^item> \<open>LlcacheDelivery\<close> (\<open>content/llcache.c\<close>): the record \<open>llcache\<close> has objects (\<open>llcache_object\<close>), their users and
    the handles of clients in stores, and the two lists of objects; the events of clients come from a state
    machine per user, \<open>llcache_object_notify_users\<close>, in four steps. \<open>LlcacheProps\<close> has well-formed caches, the
    story each handle is told and one call of a client, \<open>LlcacheTurns\<close> the turn of a user and the passes,
    \<open>LlcacheSystem\<close> messages, cleaning, clients that come and go, and the reachable caches.
  \<^item> \<open>Download\<close>, \<open>DownloadProps\<close> (\<open>desktop/download.c\<close>, \<open>macos9_download.c\<close>): contexts, which are clients of the low-level
    cache, and the download window of the front end with its one slot; \<open>dl_world\<close> has both in stores and the files. The last lemma runs a download as
    client of the modelled cache.
  \<^item> \<open>DebugLog\<close>, \<open>DebugLogProps\<close> (\<open>macsurf_debug_log.c\<close>, \<open>macsurf_debug.c\<close>): the formatter, the buffered
    log file and the window title; the record \<open>log_state\<close> has the file, the buffer \<open>g_log_buf\<close> and the lock.
  \<^item> \<open>LinkedLists\<close>: doubly linked lists and rings in an explicit store, shared by the two parts above.

  \<^bold>\<open>How the code is represented\<close>

  A C structure is a record, an enumeration a datatype, a module variable a field of the state
  record of its part; a function takes the state and returns it. A ring or list linked by pointers
  is a store of nodes with optional addresses as links, where the order of the assignments
  matters and following a null or freed pointer is the result \<open>None\<close>; an array of slots is a list of fixed length. Text is \<open>string\<close>, bytes are \<open>char\<close> lists.
  \<open>long\<close> and \<open>int\<close> have 32 bits: values are words where the code relies on wrapping, integers with
  the wrap written out elsewhere. What the code tells the core (\<open>fetch_send_callback\<close>,
  \<open>fetch_remove_from_queues\<close>, \<open>fetch_free\<close>) is a log of \<open>fetch_ev\<close> events.

  Code outside the repository is an argument: Open Transport (\<open>open_transport\<close>), macTLS (\<open>ostls\<close>),
  the File Manager (\<open>file_manager\<close>, with its documented behaviour as the hypothesis \<open>fm_laws\<close>),
  the clock, memory allocation, the callbacks of the scheduler and of JavaScript, the image
  decoders, what the core does inside a callback of the built-in fetchers (\<open>core_reacts\<close>), and for
  the fetch manager the fetchers and clients, as functions of all that has happened (\<open>fetch_env\<close>).
  The chunk decoder of the HTTPS fetcher belongs to macTLS and is an argument as well; where a
  property needs that it reports no error, \<open>decoder_sound\<close> says so. Every hypothesis is shown to be
  satisfiable by a witness on concrete functions. The log's Toolbox calls are \<open>log_env\<close>, those of downloads, with the parsers of header values, \<open>dl_env\<close>.

  \<^bold>\<open>Loops and fuel\<close>

  Loops are structural or measured recursion wherever they end. The chunk decoder and the timer
  pump can run forever, and they are option-valued fixpoints in which not returning is \<open>None\<close>; so
  are the scheduler's run loop, eviction, purge, the walks around the rings, the dispatcher's search,
  the bucket lists and \<open>lwc_string_unref\<close>, the passes of the low-level cache over users who come and go, whose return is proved. The poll loop of the built-in fetchers counts to 64 in the code and in the model. The
  polls of the 64 slots are folds over the slot indices. There is no other fuel.

  \<^bold>\<open>What is shown\<close>

  \<^item> Invariants: the queue of the scheduler, the timers in every reachable state, the slots of the
    HTTPS fetcher in every reachable state, the budget and list of the image cache, the fetch manager's rings, limits and reference counts, the
    interned strings and their counts, the lines of the log, the one download window.
  \<^item> Refinement and equivalence: the chunk decoder and the log formatter against their references, both capture buffers
    against one abstract buffer, the pointer ring against a list, the fetch dispatcher against one on two lists.
  \<^item> Delivery: one poll of either fetcher gives each fetch at most one terminal message, exactly
    when its slot is released; timeouts are kept; a poll of the built-in fetchers serves all that
    is pending. Carried out by the fetch manager, the events of a poll touch no freed fetch. The
    low-level cache tells each handle its whole story once.
  \<^item> Round trips: cache store and lookup, dead-host list, chunked bodies, pooled connections,
    \<open>data:\<close> URLs, a download and the file it saves. Bounds: request buffers, cache hits, delay arithmetic.
  \<^item> Where the code does something else than it means to, the property says what it does: the
    exported state of the scheduler after a failed allocation, the pump that hangs or loses a
    timer, cache collisions, negative chunk sizes, the second terminal message after a decoder
    error, the lost last header line, the endless scheme fallback, the overrun of the HTTPS request
    buffer, the overflow when a large image is scaled, the log banner that is not on disk,
    the object of the low-level cache that is freed too early, the freed download window that is used again, the partial file that is
    reported as saved.

  \<^bold>\<open>Interfaces\<close>

  \<open>timed_queue\<close> is interpreted by the scheduler's and the timers' sorted insertion; \<open>host_table\<close> by
  the three host tables; \<open>ring_store\<close> by the queue and the ring of active fetches; \<open>pool_scan\<close>, a sublocale of \<open>conn_pool\<close>, by both connection pools;
  \<open>slot_fetcher\<close> by both network fetchers; \<open>capture_buffer\<close> by both body captures.

  \<^bold>\<open>Not modelled\<close>

  Windows, menus, plotters, fonts and the event loop itself (calls into QuickDraw and the Window
  Manager); pixel work of images, GIF animation and bitmaps; inline SVG (floating point);
  the clipboard; the glue between Duktape and the DOM; the earlier fetchers that are no longer
  registered; the rest of the upstream NetSurf core and its libraries, among them the form data of
  POST requests in \<open>fetch.c\<close>, and of the low-level cache redirects, revalidation,
  authentication, header parsing and the backing store; the development tools. In the modelled files, log output and the statistics printed there are left
  out.
\<close>

end
